(* ===== verification/Prelude.thy ===== *)
theory Prelude
  imports Main "HOL-Library.Word"
begin

text \<open>
  Shared ground of the development: machine integers at their Rust width, the result monad
  that stands for a Rust computation which may panic (\<open>Inl\<close> is the assertion that failed,
  \<open>Inr\<close> the value returned), the \<open>for\<close> loop that threads a state and stops at the first
  panic, the checked and little-endian integer operations, and the lemmas on them that every
  component uses. A Rust array \<open>[T; N]\<close> is a list; that its length is \<open>N\<close> is a hypothesis
  where a proof needs it.

  The inversion lemmas of the result monad are simplification rules: unfolding a definition
  that returned \<open>Inr y\<close> turns the goal into the conjunction of every assertion the code
  passed on the way.
\<close>

unbundle bit_operations_syntax

type_synonym u8 = "8 word"
type_synonym u32 = "32 word"
type_synonym u64 = "64 word"
type_synonym u128 = "128 word"
type_synonym bytes = "u8 list"

named_theorems u64_simps
named_theorems bit_simps

section \<open>The result of a computation that may panic\<close>

definition ensure :: "bool \<Rightarrow> 'e \<Rightarrow> ('e + 'a) \<Rightarrow> ('e + 'a)" where
  "ensure b e k = (if b then k else Inl e)"

definition bind_res :: "('e + 'a) \<Rightarrow> ('a \<Rightarrow> 'e + 'b) \<Rightarrow> ('e + 'b)" where
  "bind_res m g = (case m of Inl e \<Rightarrow> Inl e | Inr x \<Rightarrow> g x)"

definition map_err :: "('e \<Rightarrow> 'f) \<Rightarrow> ('e + 'a) \<Rightarrow> ('f + 'a)" where
  "map_err h m = (case m of Inl e \<Rightarrow> Inl (h e) | Inr x \<Rightarrow> Inr x)"

definition expect :: "'a option \<Rightarrow> 'e \<Rightarrow> ('e + 'a)" where
  "expect m e = (case m of None \<Rightarrow> Inl e | Some x \<Rightarrow> Inr x)"

lemma ensure_Inr [simp]: "ensure b e k = Inr y \<longleftrightarrow> b \<and> k = Inr y"
  by (simp add: ensure_def)

lemma ensure_Inl [simp]: "ensure b e k = Inl x \<longleftrightarrow> (\<not> b \<and> x = e) \<or> (b \<and> k = Inl x)"
  by (auto simp: ensure_def)

lemma ensure_True [simp]: "ensure True e k = k"
  by (simp add: ensure_def)

lemma ensure_False [simp]: "ensure False e k = Inl e"
  by (simp add: ensure_def)

lemma bind_res_Inr [simp]: "bind_res m g = Inr y \<longleftrightarrow> (\<exists>x. m = Inr x \<and> g x = Inr y)"
  by (cases m) (simp_all add: bind_res_def)

lemma bind_res_Inl [simp]:
  "bind_res m g = Inl e \<longleftrightarrow> m = Inl e \<or> (\<exists>x. m = Inr x \<and> g x = Inl e)"
  by (cases m) (simp_all add: bind_res_def)

lemma bind_res_of_Inr [simp]: "bind_res (Inr x) g = g x"
  by (simp add: bind_res_def)

lemma bind_res_of_Inl [simp]: "bind_res (Inl e) g = Inl e"
  by (simp add: bind_res_def)

lemma map_err_Inr [simp]: "map_err h m = Inr y \<longleftrightarrow> m = Inr y"
  by (cases m) (simp_all add: map_err_def)

lemma map_err_Inl [simp]: "map_err h m = Inl e \<longleftrightarrow> (\<exists>e'. m = Inl e' \<and> e = h e')"
  by (cases m) (auto simp: map_err_def)

lemma map_err_of_Inr [simp]: "map_err h (Inr y) = Inr y"
  by (simp add: map_err_def)

lemma map_err_of_Inl [simp]: "map_err h (Inl e) = Inl (h e)"
  by (simp add: map_err_def)

lemma expect_Inr [simp]: "expect m e = Inr y \<longleftrightarrow> m = Some y"
  by (cases m) (simp_all add: expect_def)

lemma expect_Inl [simp]: "expect m e = Inl x \<longleftrightarrow> m = None \<and> x = e"
  by (cases m) (auto simp: expect_def)

lemma expect_of_Some [simp]: "expect (Some y) e = Inr y"
  by (simp add: expect_def)

lemma expect_of_None [simp]: "expect None e = Inl e"
  by (simp add: expect_def)

section \<open>Loops\<close>

text \<open>\<open>for x in xs\<close> over a mutable state, stopping where the body panics.\<close>

fun fold_res :: "('s \<Rightarrow> 'a \<Rightarrow> 'e + 's) \<Rightarrow> 's \<Rightarrow> 'a list \<Rightarrow> ('e + 's)" where
  "fold_res f s [] = Inr s"
| "fold_res f s (x # xs) = bind_res (f s x) (\<lambda>s'. fold_res f s' xs)"

lemma fold_res_append:
  "fold_res f s (xs @ ys) = bind_res (fold_res f s xs) (\<lambda>s'. fold_res f s' ys)"
proof (induction xs arbitrary: s)
  case (Cons x xs)
  then show ?case by (cases "f s x") simp_all
qed simp

lemma fold_res_invariant:
  assumes "fold_res f s xs = Inr s'"
    and "I s"
    and "\<And>s x s'. x \<in> set xs \<Longrightarrow> I s \<Longrightarrow> f s x = Inr s' \<Longrightarrow> I s'"
  shows "I s'"
  using assms
proof (induction xs arbitrary: s)
  case (Cons x xs)
  then obtain s1 where "f s x = Inr s1" "fold_res f s1 xs = Inr s'" by auto
  moreover from this Cons.prems(2,3) have "I s1" by (metis list.set_intros(1))
  ultimately show ?case using Cons.IH Cons.prems(3) by (meson list.set_intros(2))
qed simp

text \<open>An invariant that speaks of the elements consumed so far.\<close>

lemma fold_res_prefix_invariant:
  assumes "fold_res f s xs = Inr s'"
    and "I [] s"
    and "\<And>done x rest s s'. xs = done @ x # rest \<Longrightarrow> I done s \<Longrightarrow> f s x = Inr s'
           \<Longrightarrow> I (done @ [x]) s'"
  shows "I xs s'"
  using assms
proof (induction xs arbitrary: s' rule: rev_induct)
  case (snoc x xs)
  then obtain s1 where s1: "fold_res f s xs = Inr s1" "f s1 x = Inr s'"
    by (auto simp: fold_res_append)
  have "I xs s1"
    using s1(1) snoc.prems(2)
  proof (rule snoc.IH)
    fix done' y rest t t'
    assume "xs = done' @ y # rest" "I done' t" "f t y = Inr t'"
    then show "I (done' @ [y]) t'"
      using snoc.prems(3)[of done' y "rest @ [x]" t t'] by simp
  qed
  with s1(2) show ?case using snoc.prems(3)[of xs x "[]"] by simp
qed simp

section \<open>Integers\<close>

definition checked_add :: "'n::len word \<Rightarrow> 'n word \<Rightarrow> 'n word option" where
  "checked_add a b = (if uint a + uint b < 2 ^ LENGTH('n) then Some (a + b) else None)"

definition checked_sub :: "'n::len word \<Rightarrow> 'n word \<Rightarrow> 'n word option" where
  "checked_sub a b = (if b \<le> a then Some (a - b) else None)"

definition saturating_add :: "'n::len word \<Rightarrow> 'n word \<Rightarrow> 'n word" where
  "saturating_add a b = (if uint a + uint b < 2 ^ LENGTH('n) then a + b else - 1)"

definition saturating_sub :: "'n::len word \<Rightarrow> 'n word \<Rightarrow> 'n word" where
  "saturating_sub a b = (if b \<le> a then a - b else 0)"

lemma uint_add_less_iff:
  "uint (a :: 'n::len word) + uint b < 2 ^ LENGTH('n) \<longleftrightarrow> unat a + unat b < 2 ^ LENGTH('n)"
proof -
  have "uint a + uint b = int (unat a + unat b)" by simp
  then have "uint a + uint b < 2 ^ LENGTH('n) \<longleftrightarrow> int (unat a + unat b) < int (2 ^ LENGTH('n))"
    by simp
  then show ?thesis by (simp only: of_nat_less_iff)
qed

lemma checked_add_Some [u64_simps]:
  "checked_add a b = Some c \<longleftrightarrow>
     unat (a :: 'n::len word) + unat b < 2 ^ LENGTH('n) \<and> c = a + b"
  by (auto simp: checked_add_def uint_add_less_iff)

lemma unat_checked_add:
  "checked_add a b = Some c \<Longrightarrow> unat c = unat a + unat b"
  by (auto simp: checked_add_Some unat_word_ariths)

lemma checked_sub_Some [u64_simps]: "checked_sub a b = Some c \<longleftrightarrow> b \<le> a \<and> c = a - b"
  by (auto simp: checked_sub_def)

lemma unat_checked_sub:
  "checked_sub a b = Some c \<Longrightarrow> unat c + unat b = unat a"
  by (auto simp: checked_sub_def unat_sub word_le_nat_alt split: if_splits)

lemma unat_shift1 [u64_simps]: "unat (drop_bit 1 (k :: 'n::len word)) = unat k div 2"
  by (simp only: unat_drop_bit_eq) (simp add: drop_bit_eq_div)

lemma unat_shift_Suc [u64_simps]:
  "unat (drop_bit (Suc 0) (k :: 'n::len word)) = unat k div 2"
  using unat_shift1 [of k] by simp

lemma even_unat_word: "even (unat (k :: 'n::len word)) \<longleftrightarrow> even k"
proof -
  have "bit (unat k) 0 \<longleftrightarrow> bit k 0" by (simp add: bit_unsigned_iff)
  then show ?thesis by (simp add: bit_0)
qed

lemma and_1_eq_0 [u64_simps]: "(k :: 'n::len word) AND 1 = 0 \<longleftrightarrow> even (unat k)"
  by (simp add: and_one_eq even_unat_word flip: even_iff_mod_2_eq_zero)

end
