(* ===== verification/Zisk.thy ===== *)
theory Zisk
  imports Prelude
begin

text \<open>
  The Zisk guest library (\<open>ziskos\<close>), which the repository calls and does not contain: the hash and
  curve precompiles, the BLS12-381 tower, the line-coefficient hints and the recursive verifier. It
  is a parameter of every definition that uses it: a record of functions, named as the library
  names them. A point of G1 is twelve 64-bit limbs, of G2 twenty-four, an element of Fp two six and
  of Fp12 seventy-two. \<open>target_zkvm\<close> is the build target the code reads with \<open>cfg!\<close>.
\<close>

type_synonym g1_point = "u64 list"
type_synonym g2_point = "u64 list"
type_synonym fp = "u64 list"
type_synonym fp2 = "u64 list"
type_synonym fp12 = "u64 list"

record zisk =
  target_zkvm :: bool
  syscall_poseidon2 :: "u64 list \<Rightarrow> u64 list"
  syscall_sha256_f :: "u64 list \<Rightarrow> u64 list \<Rightarrow> u64 list"
  syscall_bls12_381_curve_add :: "g1_point \<Rightarrow> g1_point \<Rightarrow> g1_point"
  neg_bls12_381 :: "g1_point \<Rightarrow> g1_point"
  add_complete_safe_bls12_381 :: "g1_point \<Rightarrow> g1_point \<Rightarrow> g1_point option"
  add_complete_safe_twist_bls12_381 :: "g2_point \<Rightarrow> g2_point \<Rightarrow> g2_point option"
  decompress_bls12_381 :: "bytes \<Rightarrow> (g1_point \<times> bool) option"
  decompress_twist_bls12_381 :: "bytes \<Rightarrow> (g2_point \<times> bool) option"
  hash_to_curve_g2_bls12_381 :: "bytes \<Rightarrow> bytes \<Rightarrow> g2_point"
  is_on_subgroup_twist_bls12_381 :: "g2_point \<Rightarrow> bool"
  mul_fp12_bls12_381 :: "fp12 \<Rightarrow> fp12 \<Rightarrow> fp12"
  final_exp_bls12_381 :: "fp12 \<Rightarrow> fp12"
  zisklib_is_one :: "fp12 \<Rightarrow> bool"
  zisklib_eq :: "u64 list \<Rightarrow> u64 list \<Rightarrow> bool"
  zisklib_is_zero :: "u64 list \<Rightarrow> bool"
  inv_fp_bls12_381 :: "fp \<Rightarrow> fp"
  neg_fp_bls12_381 :: "fp \<Rightarrow> fp"
  mul_fp_bls12_381 :: "fp \<Rightarrow> fp \<Rightarrow> fp"
  scalar_mul_fp2_bls12_381 :: "fp2 \<Rightarrow> fp \<Rightarrow> fp2"
  add_fp2_bls12_381 :: "fp2 \<Rightarrow> fp2 \<Rightarrow> fp2"
  sub_fp2_bls12_381 :: "fp2 \<Rightarrow> fp2 \<Rightarrow> fp2"
  mul_fp2_bls12_381 :: "fp2 \<Rightarrow> fp2 \<Rightarrow> fp2"
  neg_fp2_bls12_381 :: "fp2 \<Rightarrow> fp2"
  dbl_fp2_bls12_381 :: "fp2 \<Rightarrow> fp2"
  square_fp2_bls12_381 :: "fp2 \<Rightarrow> fp2"
  square_fp12_bls12_381 :: "fp12 \<Rightarrow> fp12"
  sparse_mul_fp12_bls12_381 :: "fp12 \<Rightarrow> u64 list \<Rightarrow> fp12"
  conjugate_fp12_bls12_381 :: "fp12 \<Rightarrow> fp12"
  fcall_bls12_381_twist_dbl_line_coeffs :: "g2_point \<Rightarrow> fp2 \<times> fp2"
  fcall_bls12_381_twist_add_line_coeffs :: "g2_point \<Rightarrow> g2_point \<Rightarrow> fp2 \<times> fp2"
  verify_zisk_proof :: "u64 list \<Rightarrow> bool"

text \<open>
  A concrete library for the witnesses: a permutation that mixes its words into the first four, a
  compression that adds, points of the words' additive group whose opposites share an x-coordinate,
  field operations that return the empty list, for which every hinted line of a point without a
  second coordinate is accepted, and a recursive verifier that accepts. It stands for no real
  cryptography; it shows that hypotheses about the parameter can hold, and gives closed terms to
  evaluate.
\<close>

definition toy_permute :: "u64 list \<Rightarrow> u64 list" where
  "toy_permute st =
     map (\<lambda>i. st ! i + 3 * st ! (i + 4) + 5 * st ! (i + 8) + 7 * st ! (i + 12)) [0, 1, 2, 3] @ drop 4 st"

definition toy_point :: "u64 \<Rightarrow> g1_point" where
  "toy_point n = replicate 6 (min n (- n)) @ replicate 6 n"

definition toy_zisk :: zisk where
  "toy_zisk = \<lparr>
     target_zkvm = True,
     syscall_poseidon2 = toy_permute,
     syscall_sha256_f = (\<lambda>st block. map2 (+) (map2 (+) st (take 4 block)) (map ((*) 3) (drop 4 block))),
     syscall_bls12_381_curve_add = (\<lambda>p q. toy_point (p ! 6 + q ! 6)),
     neg_bls12_381 = (\<lambda>p. toy_point (- (p ! 6))),
     add_complete_safe_bls12_381 = (\<lambda>p q. Some (toy_point (p ! 6 + q ! 6))),
     add_complete_safe_twist_bls12_381 = (\<lambda>p q. Some (map2 (+) p q)),
     decompress_bls12_381 = (\<lambda>bs. Some (map ucast (take 12 bs), False)),
     decompress_twist_bls12_381 = (\<lambda>bs. Some (map ucast (take 12 bs), False)),
     hash_to_curve_g2_bls12_381 = (\<lambda>m dst. map ucast (take 12 m)),
     is_on_subgroup_twist_bls12_381 = (\<lambda>q. True),
     mul_fp12_bls12_381 = (\<lambda>f g. f),
     final_exp_bls12_381 = id,
     zisklib_is_one = (\<lambda>f. True),
     zisklib_eq = (=), zisklib_is_zero = (\<lambda>a. False),
     inv_fp_bls12_381 = id, neg_fp_bls12_381 = id, mul_fp_bls12_381 = (\<lambda>a b. a),
     scalar_mul_fp2_bls12_381 = (\<lambda>x s. []),
     add_fp2_bls12_381 = (\<lambda>a b. []), sub_fp2_bls12_381 = (\<lambda>a b. []),
     mul_fp2_bls12_381 = (\<lambda>a b. []),
     neg_fp2_bls12_381 = (\<lambda>a. []), dbl_fp2_bls12_381 = (\<lambda>a. []),
     square_fp2_bls12_381 = (\<lambda>a. []),
     square_fp12_bls12_381 = id, sparse_mul_fp12_bls12_381 = (\<lambda>f l. f),
     conjugate_fp12_bls12_381 = id,
     fcall_bls12_381_twist_dbl_line_coeffs = (\<lambda>q. ([], [])),
     fcall_bls12_381_twist_add_line_coeffs = (\<lambda>q r. ([], [])),
     verify_zisk_proof = (\<lambda>p. True) \<rparr>"

text \<open>The same library in a native build.\<close>

definition native_zisk :: zisk where "native_zisk = toy_zisk\<lparr>target_zkvm := False\<rparr>"

end
