(* ===== verification/Bytes.thy ===== *)
theory Bytes
  imports Prelude
begin

text \<open>
  The little-endian layout of a machine integer (Rust's \<open>to_le_bytes\<close> and \<open>from_le_bytes\<close>), and
  the interface \<open>fixed_codec\<close> of a fixed-width encoding: what every flat layout of the program
  relies on when it concatenates fields and expects each to be recoverable.
\<close>

definition le_bytes :: "nat \<Rightarrow> 'n::len word \<Rightarrow> bytes" where
  "le_bytes n w = map (\<lambda>i. ucast (drop_bit (8 * i) w)) [0..<n]"

fun of_le_bytes :: "bytes \<Rightarrow> 'n::len word" where
  "of_le_bytes [] = 0"
| "of_le_bytes (b # bs) = ucast b OR push_bit 8 (of_le_bytes bs)"

definition u64_to_le_bytes :: "u64 \<Rightarrow> bytes" where
  "u64_to_le_bytes w = le_bytes 8 w"

definition u64_from_le_bytes :: "bytes \<Rightarrow> u64" where
  "u64_from_le_bytes bs = of_le_bytes bs"

lemma length_le_bytes [simp]: "length (le_bytes n w) = n"
  by (simp add: le_bytes_def)

lemma length_u64_to_le_bytes [simp]: "length (u64_to_le_bytes w) = 8"
  by (simp add: u64_to_le_bytes_def)

lemma bit_of_le_bytes:
  "bit (of_le_bytes bs :: 'n::len word) k \<longleftrightarrow>
     k < LENGTH('n) \<and> k < 8 * length bs \<and> bit (bs ! (k div 8)) (k mod 8)"
proof (induction bs arbitrary: k)
  case (Cons b bs)
  show ?case
  proof (cases "k < 8")
    case True
    then show ?thesis by (auto simp: bit_or_iff bit_push_bit_iff bit_ucast_iff dest: bit_imp_le_length)
  next
    case False
    then have "k div 8 = Suc ((k - 8) div 8)" "(k - 8) mod 8 = k mod 8"
      by (simp_all add: div_if le_mod_geq)
    then show ?thesis using False Cons.IH [of "k - 8"]
      by (auto simp: bit_or_iff bit_push_bit_iff bit_ucast_iff dest: bit_imp_le_length)
  qed
qed simp

lemma of_le_bytes_le_bytes:
  assumes "8 * n = LENGTH('n)"
  shows "of_le_bytes (le_bytes n w) = (w :: 'n::len word)"
proof (rule bit_word_eqI)
  fix k
  assume "k < LENGTH('n)"
  with assms have "k < 8 * n" by simp
  then show "bit (of_le_bytes (le_bytes n w) :: 'n word) k = bit w k"
    by (auto simp: bit_of_le_bytes le_bytes_def bit_ucast_iff bit_drop_bit_eq
        dest: bit_imp_le_length)
qed

lemma le_bytes_of_le_bytes:
  assumes "8 * n = LENGTH('n)" "length bs = n"
  shows "le_bytes n (of_le_bytes bs :: 'n::len word) = bs"
proof (rule nth_equalityI)
  fix i
  assume "i < length (le_bytes n (of_le_bytes bs :: 'n word))"
  then have i: "i < n" by simp
  show "le_bytes n (of_le_bytes bs :: 'n word) ! i = bs ! i"
  proof (rule bit_word_eqI)
    fix k
    assume "k < LENGTH(8)"
    then have k: "k < 8" by simp
    with i have "8 * i + k < 8 * n" by linarith
    with k i show "bit (le_bytes n (of_le_bytes bs :: 'n word) ! i) k = bit (bs ! i) k"
      by (simp add: le_bytes_def bit_ucast_iff bit_drop_bit_eq bit_of_le_bytes
          assms(2) flip: assms(1))
  qed
qed (simp add: assms)

lemma u64_le_roundtrip [simp]: "u64_from_le_bytes (u64_to_le_bytes w) = w"
  by (simp add: u64_from_le_bytes_def u64_to_le_bytes_def of_le_bytes_le_bytes)

lemma u64_le_roundtrip_bytes: "length bs = 8 \<Longrightarrow> u64_to_le_bytes (u64_from_le_bytes bs) = bs"
  by (simp add: u64_from_le_bytes_def u64_to_le_bytes_def le_bytes_of_le_bytes)

section \<open>Fixed-width encodings\<close>

locale fixed_codec =
  fixes enc :: "'a \<Rightarrow> 'b list" and dec :: "'b list \<Rightarrow> 'a" and width :: nat and valid :: "'a \<Rightarrow> bool"
  assumes length_enc: "valid x \<Longrightarrow> length (enc x) = width"
    and dec_enc: "valid x \<Longrightarrow> dec (enc x) = x"
begin

lemma enc_inj: "valid x \<Longrightarrow> valid y \<Longrightarrow> enc x = enc y \<Longrightarrow> x = y"
  using dec_enc by metis

lemma enc_eq_iff: "valid x \<Longrightarrow> valid y \<Longrightarrow> enc x = enc y \<longleftrightarrow> x = y"
  using enc_inj by blast

lemma enc_append_inj:
  "valid x \<Longrightarrow> valid y \<Longrightarrow> enc x @ xs = enc y @ ys \<longleftrightarrow> x = y \<and> xs = ys"
  by (metis append_eq_append_conv enc_inj length_enc)

lemma length_concat_enc:
  "\<forall>x\<in>set xs. valid x \<Longrightarrow> length (concat (map enc xs)) = width * length xs"
  by (induction xs) (simp_all add: length_enc)

lemma concat_enc_inj:
  assumes "\<forall>x\<in>set xs. valid x" "\<forall>y\<in>set ys. valid y" "length xs = length ys"
    and "concat (map enc xs) @ us = concat (map enc ys) @ vs"
  shows "xs = ys \<and> us = vs"
  using assms(3,1,2,4)
proof (induction xs ys rule: list_induct2)
  case (Cons x xs y ys)
  then have "enc x @ (concat (map enc xs) @ us) = enc y @ (concat (map enc ys) @ vs)" by simp
  with Cons.prems have "x = y" "concat (map enc xs) @ us = concat (map enc ys) @ vs"
    by (simp_all only: enc_append_inj list.set_intros)
  with Cons show ?case by simp
qed simp

end

interpretation le64: fixed_codec u64_to_le_bytes u64_from_le_bytes 8 "\<lambda>_. True"
  by unfold_locales simp_all

lemma le64_eq_iff [simp]: "u64_to_le_bytes x = u64_to_le_bytes y \<longleftrightarrow> x = y"
  by (simp add: le64.enc_eq_iff)

lemma le64_append_inj [simp]:
  "u64_to_le_bytes x @ xs = u64_to_le_bytes y @ ys \<longleftrightarrow> x = y \<and> xs = ys"
  by (rule le64.enc_append_inj) simp_all

end
