(* ===== verification/Merkle.thy ===== *)
theory Merkle
  imports Prelude
begin

text \<open>
  \<open>crates/common/src/merkle.rs\<close>: recomputing a Merkle root from one leaf and its sibling path
  (\<open>compute_root\<close>), and from many leaves and the auxiliary nodes the leaf set does not itself
  determine (\<open>batch_root\<close>, \<open>batch_root_columns\<close>). Both are generic in the digest type and the
  compression function, as the code is. The slice and cursor of the auxiliaries are the list of
  auxiliaries not read yet.

  The specification is the full binary tree over a leaf function (\<open>tree_root\<close>). The lemmas show
  binding: where a batch recomputes the root of a tree, and no two different pairs that the batch or
  the tree hashes have one digest, every leaf of the batch is the leaf of the tree at its index.
  The locale \<open>node_source\<close> is the prover's side: what a stored tree has to answer for the
  auxiliaries collected from it to be the ones the verifier consumes.
\<close>

section \<open>The code\<close>

datatype merkle_panic =
    EmptyLeafSet
  | LeavesNotIncreasing
  | AuxiliariesExhausted
  | UnconsumedAuxiliaries
  | NoConvergence
  | ColumnOutOfBounds

fun compute_root :: "('a \<Rightarrow> 'a \<Rightarrow> 'a) \<Rightarrow> 'a \<Rightarrow> u64 \<Rightarrow> 'a list \<Rightarrow> 'a" where
  "compute_root compress current idx [] = current"
| "compute_root compress current idx (sibling # siblings) =
     compute_root compress
       (if idx AND 1 = 0 then compress current sibling else compress sibling current)
       (drop_bit 1 idx) siblings"

definition verify_proof ::
  "('a \<Rightarrow> 'a \<Rightarrow> 'a) \<Rightarrow> 'a \<Rightarrow> u64 \<Rightarrow> 'a list \<Rightarrow> 'a \<Rightarrow> bool" where
  "verify_proof compress leaf idx siblings expected_root \<longleftrightarrow>
     compute_root compress leaf idx siblings = expected_root"

lemma compute_root_append:
  "compute_root f v k (xs @ ys) = compute_root f (compute_root f v k xs) (drop_bit (length xs) k) ys"
  by (induction f v k xs rule: compute_root.induct) (simp_all add: drop_bit_drop_bit)

fun take_aux :: "'a list \<Rightarrow> merkle_panic + ('a \<times> 'a list)" where
  "take_aux [] = Inl AuxiliariesExhausted"
| "take_aux (a # aux) = Inr (a, aux)"

text \<open>
  One level of the scan: the parent indices, the pairs of children whose compressions are the
  parents' values, and the auxiliaries left.
\<close>

function level_pairs ::
  "u64 list \<Rightarrow> 'a list \<Rightarrow> 'a list \<Rightarrow> merkle_panic + (u64 list \<times> ('a \<times> 'a) list \<times> 'a list)" where
  "level_pairs [] vs aux = Inr ([], [], aux)"
| "level_pairs (k # ks) [] aux =
     (if k AND 1 = 0 then Inl ColumnOutOfBounds
      else bind_res (take_aux aux) (\<lambda>_. Inl ColumnOutOfBounds))"
| "level_pairs (k # ks) (v # vs) aux =
     (if k AND 1 = 0 \<and> ks \<noteq> [] \<and> hd ks = k + 1 then
        (case vs of
           [] \<Rightarrow> Inl ColumnOutOfBounds
         | right # vs' \<Rightarrow>
             bind_res (level_pairs (tl ks) vs' aux) (\<lambda>(next_idx, pairs, rest).
               Inr (drop_bit 1 k # next_idx, (v, right) # pairs, rest)))
      else
        bind_res (take_aux aux) (\<lambda>(sibling, aux').
          bind_res (level_pairs ks vs aux') (\<lambda>(next_idx, pairs, rest).
            Inr (drop_bit 1 k # next_idx,
                 (if k AND 1 = 0 then (v, sibling) else (sibling, v)) # pairs, rest))))"
  by pat_completeness auto
termination
  by (relation "measure (\<lambda>(ks, vs, aux). length ks)") auto

fun batch_levels ::
  "('a \<Rightarrow> 'a \<Rightarrow> 'a) \<Rightarrow> nat \<Rightarrow> u64 list \<Rightarrow> 'a list \<Rightarrow> 'a list \<Rightarrow>
     merkle_panic + (u64 list \<times> 'a list \<times> 'a list)" where
  "batch_levels compress 0 idx val aux = Inr (idx, val, aux)"
| "batch_levels compress (Suc depth) idx val aux =
     bind_res (level_pairs idx val aux) (\<lambda>(next_idx, pairs, rest).
       batch_levels compress depth next_idx (map (\<lambda>(left, right). compress left right) pairs) rest)"

definition batch_root_columns ::
  "('a \<Rightarrow> 'a \<Rightarrow> 'a) \<Rightarrow> u64 list \<Rightarrow> 'a list \<Rightarrow> 'a list \<Rightarrow> nat \<Rightarrow> merkle_panic + 'a" where
  "batch_root_columns compress idx val aux depth =
     ensure (idx \<noteq> []) EmptyLeafSet
    (bind_res (batch_levels compress depth idx val aux) (\<lambda>(idx', val', rest).
     ensure (rest = []) UnconsumedAuxiliaries
    (ensure (length val' = 1) NoConvergence
    (Inr (hd val')))))"

fun strictly_increasing :: "u64 list \<Rightarrow> bool" where
  "strictly_increasing [] = True"
| "strictly_increasing [k] = True"
| "strictly_increasing (k # k' # ks) = (k < k' \<and> strictly_increasing (k' # ks))"

definition batch_root ::
  "('a \<Rightarrow> 'a \<Rightarrow> 'a) \<Rightarrow> ('a \<times> u64) list \<Rightarrow> 'a list \<Rightarrow> nat \<Rightarrow> merkle_panic + 'a" where
  "batch_root compress leaves aux depth =
     ensure (strictly_increasing (map snd leaves)) LeavesNotIncreasing
    (batch_root_columns compress (map snd leaves) (map fst leaves) aux depth)"

section \<open>The specification: the full tree over a leaf function\<close>

definition parent_leaves :: "('a \<Rightarrow> 'a \<Rightarrow> 'a) \<Rightarrow> (nat \<Rightarrow> 'a) \<Rightarrow> nat \<Rightarrow> 'a" where
  "parent_leaves compress leaves j = compress (leaves (2 * j)) (leaves (2 * j + 1))"

fun tree_root :: "('a \<Rightarrow> 'a \<Rightarrow> 'a) \<Rightarrow> (nat \<Rightarrow> 'a) \<Rightarrow> nat \<Rightarrow> 'a" where
  "tree_root compress leaves 0 = leaves 0"
| "tree_root compress leaves (Suc depth) = tree_root compress (parent_leaves compress leaves) depth"

text \<open>The pairs a full tree hashes, and those a batch and a path hash.\<close>

fun tree_pairs :: "('a \<Rightarrow> 'a \<Rightarrow> 'a) \<Rightarrow> (nat \<Rightarrow> 'a) \<Rightarrow> nat \<Rightarrow> ('a \<times> 'a) set" where
  "tree_pairs compress leaves 0 = {}"
| "tree_pairs compress leaves (Suc depth) =
     (\<lambda>j. (leaves (2 * j), leaves (2 * j + 1))) ` {..<2 ^ depth} \<union>
     tree_pairs compress (parent_leaves compress leaves) depth"

fun batch_pairs ::
  "('a \<Rightarrow> 'a \<Rightarrow> 'a) \<Rightarrow> nat \<Rightarrow> u64 list \<Rightarrow> 'a list \<Rightarrow> 'a list \<Rightarrow> ('a \<times> 'a) set" where
  "batch_pairs compress 0 idx val aux = {}"
| "batch_pairs compress (Suc depth) idx val aux =
     (case level_pairs idx val aux of
        Inl _ \<Rightarrow> {}
      | Inr (next_idx, pairs, rest) \<Rightarrow>
          set pairs \<union>
          batch_pairs compress depth next_idx (map (\<lambda>(l, r). compress l r) pairs) rest)"

fun path_pairs :: "('a \<Rightarrow> 'a \<Rightarrow> 'a) \<Rightarrow> 'a \<Rightarrow> u64 \<Rightarrow> 'a list \<Rightarrow> ('a \<times> 'a) set" where
  "path_pairs compress current idx [] = {}"
| "path_pairs compress current idx (s # ss) =
     (let pair = (if idx AND 1 = 0 then (current, s) else (s, current))
      in insert pair (path_pairs compress (compress (fst pair) (snd pair)) (drop_bit 1 idx) ss))"

definition collision_free :: "('a \<Rightarrow> 'a \<Rightarrow> 'a) \<Rightarrow> ('a \<times> 'a) set \<Rightarrow> bool" where
  "collision_free compress S \<longleftrightarrow>
     (\<forall>p\<in>S. \<forall>q\<in>S. compress (fst p) (snd p) = compress (fst q) (snd q) \<longrightarrow> p = q)"

lemma collision_freeD:
  "collision_free f S \<Longrightarrow> (a, b) \<in> S \<Longrightarrow> (c, d) \<in> S \<Longrightarrow> f a b = f c d \<Longrightarrow> a = c \<and> b = d"
  by (fastforce simp: collision_free_def)

lemma collision_free_mono: "collision_free f S \<Longrightarrow> T \<subseteq> S \<Longrightarrow> collision_free f T"
  by (auto simp: collision_free_def)

lemma collision_free_inj:
  assumes "\<And>a b c d. f a b = f c d \<Longrightarrow> a = c \<and> b = d"
  shows "collision_free f S"
  unfolding collision_free_def
proof (intro ballI impI)
  fix p q
  assume "f (fst p) (snd p) = f (fst q) (snd q)"
  from assms [OF this] show "p = q" by (simp add: prod_eq_iff)
qed

section \<open>Index arithmetic\<close>

lemma mod_2_power_Suc: "k mod 2 ^ Suc d = 2 * (k div 2 mod 2 ^ d) + k mod (2 :: nat)"
proof -
  have "k mod (2 * 2 ^ d) = 2 * (k div 2 mod 2 ^ d) + k mod (2 :: nat)" by (rule mod_mult2_eq)
  then show ?thesis by (metis power_Suc)
qed

lemma even_succ_unat:
  assumes "even (unat (k :: u64))"
  shows "unat (k + 1) = unat k + 1"
proof -
  have "unat k < 2 ^ 64" using unsigned_less [of k] by simp
  moreover have "unat k + 1 \<noteq> 2 ^ 64"
  proof
    assume "unat k + 1 = 2 ^ 64"
    then have "even (unat k + 1)" by simp
    with assms show False by simp
  qed
  ultimately have "unat k + 1 < 2 ^ 64" by linarith
  then show ?thesis by (simp add: unat_word_ariths)
qed

lemma odd_pred_unat:
  assumes "odd (unat (k :: u64))"
  shows "unat (k - 1) = unat k - 1"
proof -
  have "1 \<le> k" using assms by (simp add: word_le_nat_alt odd_pos Suc_leI)
  then show ?thesis by (simp add: unat_sub word_le_nat_alt)
qed

lemma strictly_increasing_Cons:
  "strictly_increasing (k # ks) \<longleftrightarrow> strictly_increasing ks \<and> (\<forall>k'\<in>set ks. k < k')"
proof (induction ks arbitrary: k)
  case (Cons k' ks)
  then show ?case by (auto intro: less_trans)
qed simp

lemma strictly_increasing_tl: "strictly_increasing ks \<Longrightarrow> strictly_increasing (tl ks)"
  by (cases ks) (auto simp: strictly_increasing_Cons)

lemma strictly_increasing_sorted: "strictly_increasing ks \<longleftrightarrow> sorted_wrt (<) ks"
  by (induction ks) (auto simp: strictly_increasing_Cons)

lemma strictly_increasing_distinct: "strictly_increasing ks \<Longrightarrow> distinct ks"
  by (induction ks) (auto simp: strictly_increasing_Cons)

lemma nat_0_1_Suc_cases:
  obtains (zero) "i = 0" | (one) "i = 1" | (two) i' where "i = Suc (Suc i')"
  by (metis One_nat_def nat.exhaust)

section \<open>What one level does\<close>

text \<open>Every node of a level is a child of a pair of the next.\<close>

lemma level_pairs_lengths:
  "level_pairs ks vs aux = Inr (nk, ps, rest) \<Longrightarrow> length nk = length ps"
  by (induction ks vs aux arbitrary: nk ps rest rule: level_pairs.induct)
    (auto split: if_splits list.splits)

lemma level_pairs_parent:
  assumes "level_pairs ks vs aux = Inr (nk, ps, rest)" "length vs = length ks" "i < length ks"
  shows "\<exists>j<length nk. nk ! j = drop_bit 1 (ks ! i) \<and>
           vs ! i = (if even (unat (ks ! i)) then fst (ps ! j) else snd (ps ! j))"
  using assms
proof (induction ks vs aux arbitrary: nk ps rest i rule: level_pairs.induct)
  case (3 k ks v vs aux)
  show ?case
  proof (cases "k AND 1 = 0 \<and> ks \<noteq> [] \<and> hd ks = k + 1")
    case True
    then obtain k' ks' where ks: "ks = k' # ks'" and k': "k' = k + 1" by (cases ks) auto
    obtain v' vs' where vs: "vs = v' # vs'" using "3.prems"(2) ks by (cases vs) auto
    from "3.prems"(1) True ks vs obtain nk' ps' where
      rec: "level_pairs ks' vs' aux = Inr (nk', ps', rest)"
      and nk: "nk = drop_bit 1 k # nk'" and ps: "ps = (v, v') # ps'" by auto
    have ev: "even (unat k)" using True by (simp add: and_1_eq_0)
    have odd': "odd (unat k')" using ev by (simp add: k' even_succ_unat)
    have shift: "drop_bit 1 k' = drop_bit 1 k"
      by (rule word_unat_eq_iff [THEN iffD2]) (use ev in \<open>simp add: u64_simps k' even_succ_unat\<close>)
    show ?thesis
    proof (cases i rule: nat_0_1_Suc_cases)
      case zero
      then show ?thesis using ev by (intro exI[of _ 0]) (simp add: nk ps)
    next
      case one
      then show ?thesis using odd' shift
        by (intro exI[of _ 0]) (simp add: nk ps ks vs del: drop_bit_Suc)
    next
      case (two i')
      note i = two
      have "\<exists>j<length nk'. nk' ! j = drop_bit 1 (ks' ! i') \<and>
              vs' ! i' = (if even (unat (ks' ! i')) then fst (ps' ! j) else snd (ps' ! j))"
        using "3.IH"(1)[OF True vs] rec "3.prems"(2,3) by (simp add: ks vs i)
      then obtain j where "j < length nk'" "nk' ! j = drop_bit 1 (ks' ! i')"
        "vs' ! i' = (if even (unat (ks' ! i')) then fst (ps' ! j) else snd (ps' ! j))" by blast
      then show ?thesis by (intro exI[of _ "Suc j"]) (simp add: nk ps ks vs i)
    qed
  next
    case False
    from "3.prems"(1) False obtain s aux' nk' ps' where
      aux: "take_aux aux = Inr (s, aux')"
      and rec: "level_pairs ks vs aux' = Inr (nk', ps', rest)"
      and nk: "nk = drop_bit 1 k # nk'"
      and ps: "ps = (if k AND 1 = 0 then (v, s) else (s, v)) # ps'"
      by (auto split: if_splits)
    show ?thesis
    proof (cases i)
      case 0
      then show ?thesis by (auto simp: nk ps and_1_eq_0 intro!: exI[of _ 0])
    next
      case (Suc i')
      have "\<exists>j<length nk'. nk' ! j = drop_bit 1 (ks ! i') \<and>
              vs ! i' = (if even (unat (ks ! i')) then fst (ps' ! j) else snd (ps' ! j))"
        using "3.IH"(2)[OF False] rec "3.prems"(2,3) by (simp add: Suc)
      then obtain j where "j < length nk'" "nk' ! j = drop_bit 1 (ks ! i')"
        "vs ! i' = (if even (unat (ks ! i')) then fst (ps' ! j) else snd (ps' ! j))" by blast
      then show ?thesis by (intro exI[of _ "Suc j"]) (simp add: nk ps Suc)
    qed
  qed
qed auto

section \<open>Binding\<close>

lemma batch_levels_binding:
  assumes "batch_levels f d ks vs aux = Inr ([kt], [tree_root f L d], rest)"
    and "length vs = length ks"
    and "collision_free f S" "batch_pairs f d ks vs aux \<subseteq> S" "tree_pairs f L d \<subseteq> S"
    and "i < length ks"
  shows "vs ! i = L (unat (ks ! i) mod 2 ^ d)"
  using assms
proof (induction d arbitrary: ks vs aux L i)
  case 0
  then show ?case by simp
next
  case (Suc d)
  let ?f = "\<lambda>(l, r). f l r"
  let ?L = "parent_leaves f L"
  from Suc.prems(1) obtain nk ps rest' where
    lvl: "level_pairs ks vs aux = Inr (nk, ps, rest')"
    and rec: "batch_levels f d nk (map ?f ps) rest' = Inr ([kt], [tree_root f ?L d], rest)"
    by auto
  have len: "length (map ?f ps) = length nk" using level_pairs_lengths [OF lvl] by simp
  obtain j where j: "j < length nk" "nk ! j = drop_bit 1 (ks ! i)"
    and vi: "vs ! i = (if even (unat (ks ! i)) then fst (ps ! j) else snd (ps ! j))"
    using level_pairs_parent [OF lvl Suc.prems(2,6)] by blast
  have sub: "batch_pairs f d nk (map ?f ps) rest' \<subseteq> S" "set ps \<subseteq> S"
    using Suc.prems(4) by (simp_all add: lvl)
  have tsub: "tree_pairs f ?L d \<subseteq> S" using Suc.prems(5) by simp
  have "map ?f ps ! j = ?L (unat (nk ! j) mod 2 ^ d)"
    by (rule Suc.IH [OF rec len Suc.prems(3) sub(1) tsub j(1)])
  moreover define q where "q = unat (ks ! i) div 2 mod 2 ^ d"
  ultimately have eq: "f (fst (ps ! j)) (snd (ps ! j)) = f (L (2 * q)) (L (2 * q + 1))"
    using j len by (simp add: split_beta parent_leaves_def unat_shift1 del: One_nat_def)
  have "ps ! j \<in> S" using sub(2) j(1) len by (metis length_map nth_mem subsetD)
  moreover have "q < 2 ^ d" by (simp add: q_def)
  then have "(L (2 * q), L (2 * q + 1)) \<in> tree_pairs f L (Suc d)" by simp
  with Suc.prems(5) have "(L (2 * q), L (2 * q + 1)) \<in> S" by blast
  ultimately have "fst (ps ! j) = L (2 * q) \<and> snd (ps ! j) = L (2 * q + 1)"
    using collision_freeD [OF Suc.prems(3)] eq by (metis prod.collapse)
  moreover have "unat (ks ! i) mod 2 ^ Suc d = 2 * q + unat (ks ! i) mod 2"
    unfolding q_def by (rule mod_2_power_Suc)
  ultimately show ?case by (simp only: vi) (simp add: mod2_eq_if)
qed

lemma batch_levels_top:
  assumes "batch_levels f d ks vs aux = Inr (kts, vts, rest)" "length vs = length ks"
    and "i < length ks"
  shows "\<exists>kt\<in>set kts. unat kt = unat (ks ! i) div 2 ^ d"
  using assms
proof (induction d arbitrary: ks vs aux i)
  case 0
  then show ?case by (auto intro!: bexI [OF _ nth_mem])
next
  case (Suc d)
  let ?f = "\<lambda>(l, r). f l r"
  from Suc.prems(1) obtain nk ps rest' where
    lvl: "level_pairs ks vs aux = Inr (nk, ps, rest')"
    and rec: "batch_levels f d nk (map ?f ps) rest' = Inr (kts, vts, rest)"
    by auto
  obtain j where j: "j < length nk" "nk ! j = drop_bit 1 (ks ! i)"
    using level_pairs_parent [OF lvl Suc.prems(2,3)] by blast
  have "\<exists>kt\<in>set kts. unat kt = unat (nk ! j) div 2 ^ d"
    by (rule Suc.IH [OF rec _ j(1)]) (use level_pairs_lengths [OF lvl] in simp)
  then show ?case by (simp add: j(2) unat_shift1 div_mult2_eq del: One_nat_def)
qed

lemma batch_levels_length:
  "batch_levels f d ks vs aux = Inr (kts, vts, rest) \<Longrightarrow> length vs = length ks \<Longrightarrow>
     length vts = length kts"
proof (induction d arbitrary: ks vs aux)
  case (Suc d)
  then show ?case using level_pairs_lengths by (fastforce split: prod.splits)
qed simp

lemma batch_root_InrD:
  assumes "batch_root f leaves aux d = Inr r"
  obtains kt where "batch_levels f d (map snd leaves) (map fst leaves) aux = Inr ([kt], [r], [])"
    and "leaves \<noteq> []" and "strictly_increasing (map snd leaves)"
proof -
  from assms obtain kts vts where
    b: "batch_levels f d (map snd leaves) (map fst leaves) aux = Inr (kts, vts, [])"
    and v: "length vts = 1" "hd vts = r" "leaves \<noteq> []" "strictly_increasing (map snd leaves)"
    by (auto simp: batch_root_def batch_root_columns_def)
  from batch_levels_length [OF b] v(1) have "length kts = 1" by simp
  with v(1,2) obtain kt where "kts = [kt]" "vts = [r]"
    by (metis One_nat_def length_0_conv length_Suc_conv list.sel(1))
  with b v show thesis by (intro that [of kt]) simp_all
qed

text \<open>What a batch pins: the leaf at each index, up to the bits above the tree's depth.\<close>

lemma batch_root_binding:
  assumes "batch_root f leaves aux d = Inr (tree_root f L d)"
    and "collision_free f (batch_pairs f d (map snd leaves) (map fst leaves) aux \<union> tree_pairs f L d)"
    and "(v, k) \<in> set leaves"
  shows "v = L (unat k mod 2 ^ d)"
proof -
  obtain kt where b:
    "batch_levels f d (map snd leaves) (map fst leaves) aux = Inr ([kt], [tree_root f L d], [])"
    using assms(1) by (rule batch_root_InrD)
  obtain i where i: "i < length leaves" "leaves ! i = (v, k)"
    using assms(3) by (auto simp: in_set_conv_nth)
  have "map fst leaves ! i = L (unat (map snd leaves ! i) mod 2 ^ d)"
    by (rule batch_levels_binding [OF b _ assms(2)]) (use i in auto)
  then show ?thesis using i by simp
qed

lemma batch_root_same_top:
  assumes "batch_root f leaves aux d = Inr r" "(v, k) \<in> set leaves" "(v', k') \<in> set leaves"
  shows "unat k div 2 ^ d = unat k' div 2 ^ d"
proof -
  obtain kt where b: "batch_levels f d (map snd leaves) (map fst leaves) aux = Inr ([kt], [r], [])"
    using assms(1) by (rule batch_root_InrD)
  have "unat kt = unat (snd l) div 2 ^ d" if "l \<in> set leaves" for l
    using batch_levels_top [OF b] that by (fastforce simp: in_set_conv_nth)
  from this [OF assms(2)] this [OF assms(3)] show ?thesis by simp
qed

lemma batch_root_distinct_positions:
  assumes "batch_root f leaves aux d = Inr r"
  shows "distinct (map (\<lambda>(v, k). unat k mod 2 ^ d) leaves)"
proof -
  have "distinct (map snd leaves)"
    using assms by (rule batch_root_InrD) (rule strictly_increasing_distinct)
  then have "distinct leaves" "inj_on snd (set leaves)" by (simp_all add: distinct_map)
  moreover have "inj_on (\<lambda>(v, k). unat k mod 2 ^ d) (set leaves)"
  proof (rule inj_onI, clarify)
    fix v k v' k'
    assume m: "(v, k) \<in> set leaves" "(v', k') \<in> set leaves" "unat k mod 2 ^ d = unat k' mod 2 ^ d"
    then have "unat k = unat k'" using batch_root_same_top [OF assms m(1,2)] by (metis div_mult_mod_eq)
    then have "k = k'" by (simp only: word_unat_eq_iff)
    with m(1,2) inj_onD [OF \<open>inj_on snd (set leaves)\<close>, of "(v, k)" "(v', k')"]
    show "v = v' \<and> k = k'" by simp
  qed
  ultimately show ?thesis by (simp add: distinct_map)
qed

section \<open>The prover's side\<close>

text \<open>
  The scan that collects a level's auxiliaries (\<open>build_multi_proof\<close> of
  \<open>crates/witness-gen/src/acc_tree.rs\<close>): the same flat pass over the indices, asking the stored
  level for the siblings the leaf set does not determine.
\<close>

function collect_level :: "(u64 \<Rightarrow> 'a) \<Rightarrow> u64 list \<Rightarrow> u64 list \<times> 'a list" where
  "collect_level get [] = ([], [])"
| "collect_level get (k # ks) =
     (if k AND 1 = 0 then
        if ks \<noteq> [] \<and> hd ks = k + 1 then
          (let (next, aux) = collect_level get (tl ks) in (drop_bit 1 k # next, aux))
        else
          (let (next, aux) = collect_level get ks in (drop_bit 1 k # next, get (k + 1) # aux))
      else
        (let (next, aux) = collect_level get ks in (drop_bit 1 k # next, get (k - 1) # aux)))"
  by pat_completeness auto
termination
  by (relation "measure (\<lambda>(get, ks). length ks)") auto

fun collect_levels :: "(nat \<Rightarrow> u64 \<Rightarrow> 'a) \<Rightarrow> nat list \<Rightarrow> u64 list \<Rightarrow> 'a list" where
  "collect_levels get [] idx = []"
| "collect_levels get (level # levels) idx =
     (let (next, aux) = collect_level (get level) idx in aux @ collect_levels get levels next)"

definition level_node :: "('a \<Rightarrow> 'a \<Rightarrow> 'a) \<Rightarrow> (nat \<Rightarrow> 'a) \<Rightarrow> nat \<Rightarrow> nat \<Rightarrow> 'a" where
  "level_node f L l = ((parent_leaves f) ^^ l) L"

text \<open>The next level's indices are the parents, each once, still increasing.\<close>

lemma collect_level_next_set:
  "k' \<in> set (fst (collect_level get ks)) \<Longrightarrow> \<exists>k\<in>set ks. k' = drop_bit 1 k"
  by (induction get ks rule: collect_level.induct)
    (fastforce simp: Let_def split_beta dest: list.set_sel(2) split: if_splits)+

lemma collect_level_nonempty: "ks \<noteq> [] \<Longrightarrow> fst (collect_level get ks) \<noteq> []"
  by (cases ks) (auto simp: Let_def split_beta)

lemma parent_less:
  assumes "(k :: u64) < m" "\<not> (even (unat k) \<and> m = k + 1)"
  shows "drop_bit 1 k < drop_bit 1 m"
proof -
  have "unat k < unat m" using assms(1) by (simp add: word_less_nat_alt)
  moreover have "\<not> (even (unat k) \<and> unat m = unat k + 1)"
    using assms(2) even_succ_unat [of k] by (metis word_unat_eq_iff)
  ultimately have "unat k div 2 < unat m div 2" by presburger
  then show ?thesis by (simp only: word_less_nat_alt unat_shift1)
qed

lemma collect_level_increasing:
  "strictly_increasing ks \<Longrightarrow> strictly_increasing (fst (collect_level get ks))"
proof (induction get ks rule: collect_level.induct)
  case (2 get k ks)
  have inc: "strictly_increasing ks" and gt: "\<And>m. m \<in> set ks \<Longrightarrow> k < m"
    using "2.prems" by (auto simp: strictly_increasing_Cons)
  define rest where "rest = (if k AND 1 = 0 \<and> ks \<noteq> [] \<and> hd ks = k + 1 then tl ks else ks)"
  have rest_parent: "drop_bit 1 k < drop_bit 1 m" if mem: "m \<in> set rest" for m
  proof (rule parent_less)
    show "k < m" using mem gt by (auto simp: rest_def dest: list.set_sel(2) split: if_splits)
    show "\<not> (even (unat k) \<and> m = k + 1)"
    proof
      assume a: "even (unat k) \<and> m = k + 1"
      obtain k' ks' where ks: "ks = k' # ks'"
        using mem by (cases ks) (auto simp: rest_def)
      have "m \<in> set ks" using mem by (auto simp: rest_def ks split: if_splits)
      then have "k' \<le> m" using inc by (auto simp: ks strictly_increasing_Cons)
      moreover have "k < k'" using gt by (simp add: ks)
      ultimately have "k' = k + 1" using a by (metis inc_le order_antisym)
      with a mem inc show False by (auto simp: rest_def ks and_1_eq_0 strictly_increasing_Cons)
    qed
  qed
  have "strictly_increasing (fst (collect_level get rest))"
    using "2.IH" inc by (auto simp: rest_def strictly_increasing_tl)
  moreover have "fst (collect_level get (k # ks)) = drop_bit 1 k # fst (collect_level get rest)"
    by (simp add: rest_def Let_def split_beta)
  ultimately show ?case
    using rest_parent collect_level_next_set [of _ get rest]
    by (simp only: strictly_increasing_Cons) blast
qed simp

lemma collect_level_scan:
  assumes "\<And>k. k \<in> set ks \<Longrightarrow> even (unat k) \<Longrightarrow> get (k + 1) = N (unat k + 1)"
    and "\<And>k. k \<in> set ks \<Longrightarrow> odd (unat k) \<Longrightarrow> get (k - 1) = N (unat k - 1)"
  shows "level_pairs ks (map (\<lambda>k. N (unat k)) ks) (snd (collect_level get ks) @ rest) =
    Inr (fst (collect_level get ks),
         map (\<lambda>k. (N (2 * unat k), N (2 * unat k + 1))) (fst (collect_level get ks)), rest)"
  using assms
proof (induction get ks rule: collect_level.induct)
  case (2 get k ks)
  have half: "2 * unat (drop_bit 1 k) = (if even (unat k) then unat k else unat k - 1)"
    by (simp only: unat_shift1) (simp add: odd_two_times_div_two_nat)
  show ?case
  proof (cases "k AND 1 = 0 \<and> ks \<noteq> [] \<and> hd ks = k + 1")
    case True
    then obtain ks' where ks: "ks = (k + 1) # ks'" by (cases ks) auto
    have ev: "even (unat k)" using True by (simp add: and_1_eq_0)
    have "level_pairs ks' (map (\<lambda>k. N (unat k)) ks') (snd (collect_level get ks') @ rest) =
      Inr (fst (collect_level get ks'),
           map (\<lambda>k. (N (2 * unat k), N (2 * unat k + 1))) (fst (collect_level get ks')), rest)"
      using "2.IH"(1) True "2.prems" by (simp add: ks)
    then show ?thesis using True ev half
      by (simp add: ks Let_def split_beta even_succ_unat del: One_nat_def)
  next
    case False
    have rec: "level_pairs ks (map (\<lambda>k. N (unat k)) ks) (snd (collect_level get ks) @ rest) =
      Inr (fst (collect_level get ks),
           map (\<lambda>k. (N (2 * unat k), N (2 * unat k + 1))) (fst (collect_level get ks)), rest)"
      using "2.IH"(2,3) False "2.prems" by (cases "k AND 1 = 0") auto
    have "odd (unat k) \<Longrightarrow> unat k - 1 + 1 = unat k" by (simp add: odd_pos)
    then show ?thesis using False half rec "2.prems" [of k]
      by (auto simp: Let_def split_beta and_1_eq_0 simp del: One_nat_def)
  qed
qed simp

text \<open>
  The interface between a stored tree and the verifier. \<open>served t l\<close> are the positions of level
  \<open>l\<close> the store answers for; a store that answers with the siblings of the tree over its leaves,
  for positions closed under taking the parent, produces multi-proofs that verify.
\<close>

locale node_source =
  fixes compress :: "'a \<Rightarrow> 'a \<Rightarrow> 'a"
    and get :: "'t \<Rightarrow> nat \<Rightarrow> u64 \<Rightarrow> 'a"
    and leaf_at :: "'t \<Rightarrow> nat \<Rightarrow> 'a"
    and height :: "'t \<Rightarrow> nat"
    and served :: "'t \<Rightarrow> nat \<Rightarrow> u64 set"
    and invar :: "'t \<Rightarrow> bool"
  assumes get_right: "invar t \<Longrightarrow> l < height t \<Longrightarrow> k \<in> served t l \<Longrightarrow> even (unat k) \<Longrightarrow>
      get t l (k + 1) = level_node compress (leaf_at t) l (unat k + 1)"
    and get_left: "invar t \<Longrightarrow> l < height t \<Longrightarrow> k \<in> served t l \<Longrightarrow> odd (unat k) \<Longrightarrow>
      get t l (k - 1) = level_node compress (leaf_at t) l (unat k - 1)"
    and served_parent: "invar t \<Longrightarrow> l < height t \<Longrightarrow> k \<in> served t l \<Longrightarrow>
      drop_bit 1 k \<in> served t (Suc l)"
    and served_top: "invar t \<Longrightarrow> k \<in> served t (height t) \<Longrightarrow> k = 0"
begin

lemma level_node_Suc:
  "level_node compress L (Suc l) j =
     compress (level_node compress L l (2 * j)) (level_node compress L l (2 * j + 1))"
  by (simp add: level_node_def parent_leaves_def)

lemma collected_level_served:
  assumes "invar t" "l < height t" "set ks \<subseteq> served t l"
  shows "set (fst (collect_level (get t l) ks)) \<subseteq> served t (Suc l)"
  using assms collect_level_next_set served_parent by fastforce

lemma levels_of_collected:
  assumes "invar t" "ks \<noteq> []" "strictly_increasing ks"
    and "set ks \<subseteq> served t l" "l + d = height t"
  shows "batch_levels compress d ks (map (\<lambda>k. level_node compress (leaf_at t) l (unat k)) ks)
      (collect_levels (get t) [l..<height t] ks) =
    Inr ([0], [level_node compress (leaf_at t) (height t) 0], [])"
  using assms(2-)
proof (induction d arbitrary: l ks)
  case 0
  have "set ks \<subseteq> {0}" using served_top [OF assms(1)] 0 by auto
  moreover have "distinct ks" using 0 by (simp add: strictly_increasing_distinct)
  ultimately have "ks = [0]" using \<open>ks \<noteq> []\<close>
    by (metis distinct.simps(2) insert_subset list.set_cases list.set_intros(1) list.simps(15)
        neq_Nil_conv singletonD subset_singletonD)
  then show ?case using 0 by simp
next
  case (Suc d)
  let ?N = "level_node compress (leaf_at t) l"
  let ?next = "fst (collect_level (get t l) ks)"
  have l: "l < height t" using Suc.prems(4) by simp
  have upt: "[l..<height t] = l # [Suc l..<height t]" using l by (rule upt_conv_Cons)
  have scan: "level_pairs ks (map (\<lambda>k. ?N (unat k)) ks)
      (snd (collect_level (get t l) ks) @ collect_levels (get t) [Suc l..<height t] ?next) =
    Inr (?next, map (\<lambda>k. (?N (2 * unat k), ?N (2 * unat k + 1))) ?next,
         collect_levels (get t) [Suc l..<height t] ?next)"
    by (rule collect_level_scan) (use Suc.prems(3) l get_left get_right assms(1) in auto)
  have "batch_levels compress d ?next
      (map (\<lambda>k. level_node compress (leaf_at t) (Suc l) (unat k)) ?next)
      (collect_levels (get t) [Suc l..<height t] ?next) =
    Inr ([0], [level_node compress (leaf_at t) (height t) 0], [])"
    by (rule Suc.IH)
      (use Suc.prems l collect_level_nonempty collect_level_increasing
        collected_level_served [OF assms(1) l Suc.prems(3)] in auto)
  moreover have "collect_levels (get t) [l..<height t] ks =
      snd (collect_level (get t l) ks) @ collect_levels (get t) [Suc l..<height t] ?next"
    by (simp add: upt Let_def split_beta)
  ultimately show ?case
    by (simp add: scan level_node_Suc comp_def del: upt_Suc collect_levels.simps One_nat_def)
qed

text \<open>Every multi-proof collected from the store verifies against the root of its tree.\<close>

lemma collected_verifies:
  assumes "invar t" "ks \<noteq> []" "strictly_increasing ks" "set ks \<subseteq> served t 0"
  shows "batch_root compress (map (\<lambda>k. (leaf_at t (unat k), k)) ks)
      (collect_levels (get t) [0..<height t] ks) (height t) =
    Inr (level_node compress (leaf_at t) (height t) 0)"
  using levels_of_collected [OF assms, of "height t"] assms(2,3)
  by (simp add: batch_root_def batch_root_columns_def comp_def level_node_def)

end

lemma level_node_tree_root: "level_node f L d 0 = tree_root f L d"
proof -
  have "level_node f L (l + d) 0 = tree_root f (level_node f L l) d" for l
  proof (induction d arbitrary: l)
    case (Suc d)
    have "level_node f L (Suc l) = parent_leaves f (level_node f L l)"
      by (simp add: level_node_def)
    then show ?case using Suc [of "Suc l"] by simp
  qed simp
  from this [of 0] show ?thesis by (simp add: level_node_def)
qed

section \<open>Single paths\<close>

fun path_siblings :: "('a \<Rightarrow> 'a \<Rightarrow> 'a) \<Rightarrow> (nat \<Rightarrow> 'a) \<Rightarrow> nat \<Rightarrow> nat \<Rightarrow> 'a list" where
  "path_siblings f L 0 k = []"
| "path_siblings f L (Suc d) k =
     L (if even k then k + 1 else k - 1) # path_siblings f (parent_leaves f L) d (k div 2)"

lemma length_path_siblings [simp]: "length (path_siblings f L d k) = d"
  by (induction d arbitrary: L k) simp_all

lemma tree_root_cong:
  "(\<And>k. k < 2 ^ d \<Longrightarrow> L k = L' k) \<Longrightarrow> tree_root f L d = tree_root f L' d"
proof (induction d arbitrary: L L')
  case (Suc d)
  have "parent_leaves f L k = parent_leaves f L' k" if "k < 2 ^ d" for k
    using that Suc.prems by (simp add: parent_leaves_def)
  then have "tree_root f (parent_leaves f L) d = tree_root f (parent_leaves f L') d"
    by (rule Suc.IH)
  then show ?case by simp
qed simp

text \<open>A path recomputes the root of the tree with its leaf written at the index.\<close>

lemma compute_root_path:
  "unat k < 2 ^ d \<Longrightarrow>
     compute_root f v k (path_siblings f L d (unat k)) = tree_root f (L(unat k := v)) d"
proof (induction d arbitrary: k v L)
  case 0
  then show ?case by simp
next
  case (Suc d)
  define p where "p = (if even (unat k) then f v (L (unat k + 1)) else f (L (unat k - 1)) v)"
  have kd: "unat (drop_bit 1 k) = unat k div 2" by (rule unat_shift1)
  have "parent_leaves f (L(unat k := v)) = (parent_leaves f L)(unat k div 2 := p)"
  proof
    fix j
    show "parent_leaves f (L(unat k := v)) j = ((parent_leaves f L)(unat k div 2 := p)) j"
      by (cases "even (unat k)") (auto simp: parent_leaves_def p_def elim!: oddE)
  qed
  moreover have "compute_root f p (drop_bit 1 k)
      (path_siblings f (parent_leaves f L) d (unat (drop_bit 1 k))) =
    tree_root f ((parent_leaves f L)(unat (drop_bit 1 k) := p)) d"
    by (rule Suc.IH) (use Suc.prems in \<open>simp add: u64_simps\<close>)
  ultimately show ?case
    by (cases "even (unat k)") (simp_all add: p_def and_1_eq_0 kd del: One_nat_def fun_upd_apply)
qed

text \<open>And a path that recomputes a root is that tree's path, to the leaf at its index.\<close>

lemma compute_root_binding:
  assumes "compute_root f v k ss = tree_root f L d" "length ss = d"
    and "collision_free f S" "path_pairs f v k ss \<subseteq> S" "tree_pairs f L d \<subseteq> S"
  shows "v = L (unat k mod 2 ^ d) \<and> ss = path_siblings f L d (unat k mod 2 ^ d)"
  using assms
proof (induction d arbitrary: k v ss L)
  case 0
  then show ?case by simp
next
  case (Suc d)
  obtain s ss' where ss: "ss = s # ss'" "length ss' = d"
    using Suc.prems(2) by (cases ss) auto
  define ev where "ev \<longleftrightarrow> even (unat k)"
  define l where "l = (if ev then v else s)"
  define r where "r = (if ev then s else v)"
  define q where "q = unat k div 2 mod 2 ^ d"
  have kd: "unat (drop_bit 1 k) = unat k div 2" by (rule unat_shift1)
  have rec: "compute_root f (f l r) (drop_bit 1 k) ss' = tree_root f (parent_leaves f L) d"
    using Suc.prems(1) by (simp add: ss l_def r_def ev_def and_1_eq_0 split: if_splits)
  have pp: "(l, r) \<in> S" "path_pairs f (f l r) (drop_bit 1 k) ss' \<subseteq> S"
    using Suc.prems(4) by (auto simp: ss l_def r_def ev_def and_1_eq_0 Let_def split: if_splits)
  have tp: "tree_pairs f (parent_leaves f L) d \<subseteq> S" using Suc.prems(5) by simp
  from Suc.IH [OF rec ss(2) Suc.prems(3) pp(2) tp]
  have IH: "f l r = parent_leaves f L q" "ss' = path_siblings f (parent_leaves f L) d q"
    by (simp_all only: kd q_def)
  have "q < 2 ^ d" by (simp add: q_def)
  then have "(L (2 * q), L (2 * q + 1)) \<in> tree_pairs f L (Suc d)" by simp
  with Suc.prems(5) have "(L (2 * q), L (2 * q + 1)) \<in> S" by blast
  from collision_freeD [OF Suc.prems(3) pp(1) this] IH(1)
  have lr: "l = L (2 * q)" "r = L (2 * q + 1)" by (simp_all add: parent_leaves_def)
  have m: "unat k mod 2 ^ Suc d = 2 * q + unat k mod 2"
    unfolding q_def by (rule mod_2_power_Suc)
  show ?case
    unfolding m using lr IH(2) by (cases ev) (simp_all add: ss l_def r_def ev_def mod2_eq_if)
qed

lemma path_siblings_update:
  assumes "k < 2 ^ d"
  shows "path_siblings f (L(k := v)) d k = path_siblings f L d k"
  using assms
proof (induction d arbitrary: k v L)
  case (Suc d)
  have "parent_leaves f (L(k := v)) =
      (parent_leaves f L)(k div 2 := parent_leaves f (L(k := v)) (k div 2))"
    by (rule ext) (auto simp: parent_leaves_def elim!: oddE)
  then have "path_siblings f (parent_leaves f (L(k := v))) d (k div 2) =
      path_siblings f (parent_leaves f L) d (k div 2)"
    using Suc.IH [of "k div 2"] Suc.prems by (metis less_mult_imp_div_less mult.commute power_Suc)
  moreover have "(L(k := v)) (if even k then k + 1 else k - 1) = L (if even k then k + 1 else k - 1)"
    by (auto elim: oddE)
  ultimately show ?case by (simp only: path_siblings.simps)
qed simp

text \<open>The bits of the index above the depth do not count.\<close>

lemma compute_root_path_mod:
  "compute_root f v k (path_siblings f L d (unat k mod 2 ^ d)) =
     tree_root f (L(unat k mod 2 ^ d := v)) d"
proof (induction d arbitrary: k v L)
  case 0
  then show ?case by simp
next
  case (Suc d)
  define q where "q = unat k div 2 mod 2 ^ d"
  define ev where "ev \<longleftrightarrow> even (unat k)"
  define j where "j = 2 * q + (if ev then 0 else 1)"
  have m: "unat k mod 2 ^ Suc d = j"
    unfolding j_def q_def ev_def using mod_2_power_Suc [of "unat k" d] by (simp add: mod2_eq_if)
  have j: "even j \<longleftrightarrow> ev" "j div 2 = q" by (simp_all add: j_def)
  have kd: "unat (drop_bit 1 k) mod 2 ^ d = q" by (simp only: unat_shift1 q_def)
  define p where "p = (if ev then f v (L (j + 1)) else f (L (j - 1)) v)"
  have upd: "parent_leaves f (L(j := v)) = (parent_leaves f L)(q := p)"
  proof
    fix i
    show "parent_leaves f (L(j := v)) i = ((parent_leaves f L)(q := p)) i"
      by (cases ev) (auto simp: parent_leaves_def p_def j_def)
  qed
  have "compute_root f p (drop_bit 1 k) (path_siblings f (parent_leaves f L) d q) =
      tree_root f ((parent_leaves f L)(q := p)) d"
    using Suc.IH [of p "drop_bit 1 k" "parent_leaves f L"] by (simp only: kd)
  then show ?case
    unfolding m tree_root.simps upd
    by (cases ev) (simp_all add: j p_def and_1_eq_0 ev_def [symmetric] del: One_nat_def)
qed

section \<open>The interface of an authenticated map\<close>

text \<open>
  A digest of a map, and a fold that recomputes it from one entry and a proof. Where the fold of an
  entry meets the digest of a map, the map holds the entry, and the fold of another entry with the
  same proof is the digest of the updated map. \<open>fine\<close> is what the hashing has to satisfy there.
\<close>

locale authenticated_map =
  fixes digest_of :: "'m \<Rightarrow> 'd"
    and lookup :: "'m \<Rightarrow> u64 \<Rightarrow> 'v"
    and update :: "'m \<Rightarrow> u64 \<Rightarrow> 'v \<Rightarrow> 'm"
    and refold :: "'v \<Rightarrow> u64 \<Rightarrow> 'p \<Rightarrow> 'd"
    and fine :: "'m \<Rightarrow> 'v \<Rightarrow> u64 \<Rightarrow> 'p \<Rightarrow> bool"
  assumes refold_lookup: "fine m v k p \<Longrightarrow> refold v k p = digest_of m \<Longrightarrow> lookup m k = v"
    and refold_update: "fine m v k p \<Longrightarrow> refold v k p = digest_of m \<Longrightarrow>
      refold w k p = digest_of (update m k w)"
    and lookup_update: "lookup (update m k w) k = w"
begin

text \<open>One write: the old entry was there, the new digest is the updated map's, the entry is new.\<close>

lemma write_refines:
  assumes "fine m v k p" "refold v k p = digest_of m"
  shows "lookup m k = v \<and> refold w k p = digest_of (update m k w) \<and> lookup (update m k w) k = w"
  using refold_lookup [OF assms] refold_update [OF assms] lookup_update by blast

text \<open>Two openings of one map at one position open one entry.\<close>

lemma open_unique:
  assumes "fine m v k p" "refold v k p = digest_of m" "fine m w k q" "refold w k q = digest_of m"
  shows "v = w"
  using refold_lookup [OF assms(1,2)] refold_lookup [OF assms(3,4)] by simp

end

interpretation merkle_map: authenticated_map
  "\<lambda>L. tree_root f L d" "\<lambda>L k. L (unat k mod 2 ^ d)" "\<lambda>L k v. L(unat k mod 2 ^ d := v)"
  "compute_root f"
  "\<lambda>L v k ss. length ss = d \<and> collision_free f (path_pairs f v k ss \<union> tree_pairs f L d)"
  for f :: "'a \<Rightarrow> 'a \<Rightarrow> 'a" and d :: nat
proof
  fix L :: "nat \<Rightarrow> 'a" and v w :: 'a and k :: u64 and ss
  assume fine: "length ss = d \<and> collision_free f (path_pairs f v k ss \<union> tree_pairs f L d)"
    and root: "compute_root f v k ss = tree_root f L d"
  then have b: "v = L (unat k mod 2 ^ d) \<and> ss = path_siblings f L d (unat k mod 2 ^ d)"
    using compute_root_binding [OF root] by blast
  then show "L (unat k mod 2 ^ d) = v" by simp
  show "compute_root f w k ss = tree_root f (L(unat k mod 2 ^ d := w)) d"
    using b compute_root_path_mod [of f w k L d] by simp
qed simp

lemma batch_root_columns_eq:
  assumes "strictly_increasing ks" "length vs = length ks"
  shows "batch_root_columns f ks vs aux d = batch_root f (zip vs ks) aux d"
  using assms by (simp add: batch_root_def)

end
