(* ===== verification/Acc.thy ===== *)
theory Acc
  imports Zisk Bytes Merkle
begin

text \<open>
  \<open>crates/common/src/acc.rs\<close>: the accumulator's hashing over the Poseidon2 permutation. A digest is
  four words; every hash lays its inputs into a sixteen-word state whose last word is the domain,
  permutes once and keeps the first four words. \<open>pack_point\<close> repacks the 768 bits of a G1 point
  into thirteen 60-bit elements; the lemmas show that it loses no bit, so that the state a leaf is
  hashed from determines the point and the balance, and that the states of leaves, nodes and
  commitments never coincide.
\<close>

type_synonym digest = "u64 list"

definition ZERO :: digest where "ZERO = replicate 4 0"

definition DOMAIN_NODE :: u64 where "DOMAIN_NODE = 0"
definition DOMAIN_LEAF :: u64 where "DOMAIN_LEAF = 1"
definition DOMAIN_COMMITMENT :: u64 where "DOMAIN_COMMITMENT = 2"
definition DOMAIN_FP12 :: u64 where "DOMAIN_FP12 = 4"

definition permute :: "zisk \<Rightarrow> u64 list \<Rightarrow> u64 list" where
  "permute Z st = syscall_poseidon2 Z st"

definition node_state :: "digest \<Rightarrow> digest \<Rightarrow> u64 list" where
  "node_state left right = take 4 left @ take 4 right @ replicate 7 0 @ [DOMAIN_NODE]"

definition compress :: "zisk \<Rightarrow> digest \<Rightarrow> digest \<Rightarrow> digest" where
  "compress Z left right = take 4 (permute Z (node_state left right))"

definition POINT_ELEMENTS :: nat where "POINT_ELEMENTS = 13"
definition PACK_BITS :: nat where "PACK_BITS = 60"

definition pack_element :: "g1_point \<Rightarrow> nat \<Rightarrow> u64" where
  "pack_element point i =
     (let bit = i * PACK_BITS; limb = bit div 64; offset = bit mod 64;
          v = drop_bit offset (point ! limb);
          v' = (if offset + PACK_BITS > 64 \<and> limb + 1 < length point
                then v OR push_bit (64 - offset) (point ! (limb + 1)) else v)
      in v' AND (push_bit PACK_BITS 1 - 1))"

definition pack_point :: "g1_point \<Rightarrow> u64 list" where
  "pack_point point = map (pack_element point) [0..<POINT_ELEMENTS]"

definition leaf_state :: "g1_point \<Rightarrow> u64 \<Rightarrow> u64 list" where
  "leaf_state point active_effective_balance =
     pack_point point @
     [active_effective_balance AND 0xFFFFFFFF, drop_bit 32 active_effective_balance, DOMAIN_LEAF]"

definition leaf :: "zisk \<Rightarrow> g1_point \<Rightarrow> u64 \<Rightarrow> digest" where
  "leaf Z point active_effective_balance =
     take 4 (permute Z (leaf_state point active_effective_balance))"

definition commitment_state :: "digest \<Rightarrow> u64 \<Rightarrow> u64 list" where
  "commitment_state root total_active_balance =
     take 4 root @ [total_active_balance AND 0xFFFFFFFF, drop_bit 32 total_active_balance] @
     replicate 9 0 @ [DOMAIN_COMMITMENT]"

definition commitment :: "zisk \<Rightarrow> digest \<Rightarrow> u64 \<Rightarrow> digest" where
  "commitment Z root total_active_balance =
     take 4 (permute Z (commitment_state root total_active_balance))"

text \<open>The sponge over the halves of an Fp12 element's limbs, eight to a permutation.\<close>

definition fp12_half :: "fp12 \<Rightarrow> nat \<Rightarrow> u64" where
  "fp12_half f h = (if even h then f ! (h div 2) AND 0xFFFFFFFF else drop_bit 32 (f ! (h div 2)))"

definition fp12_rate :: "fp12 \<Rightarrow> nat \<Rightarrow> u64 list" where
  "fp12_rate f half = map (\<lambda>i. fp12_half f (half + i)) [0..<8]"

function absorb_fp12 :: "zisk \<Rightarrow> fp12 \<Rightarrow> nat \<Rightarrow> u64 list \<Rightarrow> u64 list" where
  "absorb_fp12 Z f half st =
     (if half < 2 * length f
      then absorb_fp12 Z f (half + 8) (permute Z (fp12_rate f half @ drop 8 st))
      else st)"
  by pat_completeness auto
termination
  by (relation "measure (\<lambda>(Z, f, half, st). 2 * length f - half)") auto

definition commit_fp12 :: "zisk \<Rightarrow> fp12 \<Rightarrow> digest" where
  "commit_fp12 Z f = take 4 (absorb_fp12 Z f 0 (replicate 15 0 @ [DOMAIN_FP12]))"

definition to_bytes :: "digest \<Rightarrow> bytes" where
  "to_bytes d = concat (map (\<lambda>i. u64_to_le_bytes (d ! i)) [0..<4])"

definition from_bytes :: "bytes \<Rightarrow> digest" where
  "from_bytes b = map (\<lambda>i. u64_from_le_bytes (take 8 (drop (8 * i) b))) [0..<4]"

declare absorb_fp12.simps [simp del]

section \<open>The packing loses nothing\<close>

lemma bit_pack_mask: "bit (push_bit PACK_BITS 1 - 1 :: u64) t \<longleftrightarrow> t < 60"
proof -
  have "push_bit PACK_BITS 1 - 1 = (mask 60 :: u64)" by (simp add: PACK_BITS_def mask_eq_exp_minus_1)
  then show ?thesis by (auto simp: bit_mask_iff)
qed

lemma bit_pack_mask_power: "bit (2 ^ PACK_BITS - 1 :: u64) t \<longleftrightarrow> t < 60"
  using bit_pack_mask [of t] by (simp add: push_bit_of_1)

lemma div_mod_64:
  assumes "j = 64 * q + r" "(r :: nat) < 64"
  shows "j div 64 = q" "j mod 64 = r"
  using assms by simp_all

lemma bit_pack_element:
  "bit (pack_element p i) t \<longleftrightarrow>
     t < 60 \<and>
     (bit (drop_bit (i * 60 mod 64) (p ! (i * 60 div 64))) t \<or>
      i * 60 mod 64 + 60 > 64 \<and> i * 60 div 64 + 1 < length p \<and>
      bit (push_bit (64 - i * 60 mod 64) (p ! (i * 60 div 64 + 1))) t)"
  unfolding pack_element_def Let_def bit_and_iff bit_pack_mask
  by (auto simp: bit_or_iff PACK_BITS_def)

text \<open>Bit \<open>j\<close> of the point is bit \<open>j mod 60\<close> of element \<open>j div 60\<close>.\<close>

lemma pack_point_bit:
  assumes "length point = 12" "j < 768"
  shows "bit (pack_point point ! (j div 60)) (j mod 60) \<longleftrightarrow> bit (point ! (j div 64)) (j mod 64)"
proof -
  define i where "i = j div 60"
  define t where "t = j mod 60"
  define limb where "limb = i * 60 div 64"
  define off where "off = i * 60 mod 64"
  have "64 * limb + off = i * 60" unfolding limb_def off_def by (rule mult_div_mod_eq)
  moreover have "i * 60 + t = j" unfolding i_def t_def by (rule div_mult_mod_eq)
  ultimately have j: "j = 64 * limb + off + t" by linarith
  have t: "t < 60" by (simp add: t_def)
  have off: "off < 64" by (simp add: off_def)
  have i: "i < 13" using assms(2) by (simp add: i_def)
  have elem: "pack_point point ! i = pack_element point i"
    using i by (simp add: pack_point_def POINT_ELEMENTS_def)
  have pe: "bit (pack_element point i) t \<longleftrightarrow> t < 60 \<and>
      (bit (drop_bit off (point ! limb)) t \<or>
       off + 60 > 64 \<and> limb + 1 < length point \<and>
       bit (push_bit (64 - off) (point ! (limb + 1))) t)"
    unfolding limb_def off_def by (rule bit_pack_element)
  show ?thesis
  proof (cases "off + t < 64")
    case True
    moreover have "j = 64 * limb + (off + t)" using j by linarith
    ultimately have "j div 64 = limb" "j mod 64 = off + t" by (blast intro: div_mod_64)+
    moreover have "\<not> 64 - off \<le> t" using True off by linarith
    then have "bit (pack_element point i) t \<longleftrightarrow> bit (point ! limb) (off + t)"
      using t True off by (simp add: pe bit_drop_bit_eq bit_push_bit_iff)
    ultimately show ?thesis by (simp add: elem flip: i_def t_def)
  next
    case False
    then have "j = 64 * (limb + 1) + (off + t - 64)" "off + t - 64 < 64"
      using j off t by arith+
    then have jd: "j div 64 = limb + 1" "j mod 64 = off + t - 64" by (blast intro: div_mod_64)+
    then have "limb + 1 < 12" using assms(2) by simp
    moreover have "off + 60 > 64" "64 - off \<le> t" "t - (64 - off) = off + t - 64"
      using False t off by arith+
    moreover have "\<not> bit (point ! limb) (off + t)" using False by (auto dest: bit_imp_le_length)
    ultimately have "bit (pack_element point i) t \<longleftrightarrow> bit (point ! (limb + 1)) (off + t - 64)"
      using t off False assms(1) by (simp add: pe bit_drop_bit_eq bit_push_bit_iff)
    then show ?thesis by (simp add: elem jd flip: i_def t_def)
  qed
qed

lemma pack_point_inj:
  assumes "length p = 12" "length q = 12" "pack_point p = pack_point q"
  shows "p = q"
proof (rule nth_equalityI)
  fix l
  assume l: "l < length p"
  show "p ! l = q ! l"
  proof (rule bit_word_eqI)
    fix k
    assume "k < LENGTH(64)"
    then have k: "k < 64" by simp
    then have "(64 * l + k) div 64 = l" "(64 * l + k) mod 64 = k" by simp_all
    moreover have "64 * l + k < 768" using l k assms(1) by simp
    ultimately show "bit (p ! l) k = bit (q ! l) k"
      using pack_point_bit [OF assms(1), of "64 * l + k"]
        pack_point_bit [OF assms(2), of "64 * l + k"] assms(3) by simp
  qed
qed (simp add: assms)

lemma length_pack_point [simp]: "length (pack_point p) = 13"
  by (simp add: pack_point_def POINT_ELEMENTS_def)

lemma pack_point_canonical: "v \<in> set (pack_point p) \<Longrightarrow> unat v < 2 ^ 60"
proof -
  assume "v \<in> set (pack_point p)"
  then obtain i where v: "v = pack_element p i" by (auto simp: pack_point_def)
  have "v = take_bit 60 v"
    by (rule bit_word_eqI)
      (auto simp: v pack_element_def Let_def bit_and_iff bit_pack_mask bit_pack_mask_power bit_take_bit_iff)
  then have "unat v = take_bit 60 (unat v)" by (metis unsigned_take_bit_eq)
  then show "unat v < 2 ^ 60" by (metis take_bit_nat_less_exp)
qed

section \<open>The states determine their inputs and their kind\<close>

lemma split_word_halves:
  assumes "(a :: u64) AND 0xFFFFFFFF = b AND 0xFFFFFFFF" "drop_bit 32 a = drop_bit 32 b"
  shows "a = b"
proof (rule bit_word_eqI)
  fix k
  assume "k < LENGTH(64)"
  then have k: "k < 64" by simp
  have mask: "(0xFFFFFFFF :: u64) = mask 32" by (simp add: mask_eq_exp_minus_1)
  show "bit a k = bit b k"
  proof (cases "k < 32")
    case True
    then have "bit (a AND 0xFFFFFFFF) k = bit a k" "bit (b AND 0xFFFFFFFF) k = bit b k"
      by (simp_all only: mask bit_and_iff bit_mask_iff) (use k in auto)
    with assms(1) show ?thesis by simp
  next
    case False
    then have "bit (drop_bit 32 a) (k - 32) = bit a k" "bit (drop_bit 32 b) (k - 32) = bit b k"
      by (simp_all add: bit_drop_bit_eq)
    with assms(2) show ?thesis by simp
  qed
qed

lemma leaf_state_inj:
  assumes "length p = 12" "length q = 12" "leaf_state p a = leaf_state q b"
  shows "p = q \<and> a = b"
proof -
  have "pack_point p = pack_point q"
    and "a AND 0xFFFFFFFF = b AND 0xFFFFFFFF" "drop_bit 32 a = drop_bit 32 b"
    using assms(3) by (simp_all add: leaf_state_def append_eq_append_conv)
  then show ?thesis using assms(1,2) pack_point_inj split_word_halves by blast
qed

lemma commitment_state_inj:
  assumes "length r = 4" "length s = 4" "commitment_state r a = commitment_state s b"
  shows "r = s \<and> a = b"
proof -
  have "r = s" "a AND 0xFFFFFFFF = b AND 0xFFFFFFFF" "drop_bit 32 a = drop_bit 32 b"
    using assms by (simp_all add: commitment_state_def append_eq_append_conv)
  then show ?thesis using split_word_halves by blast
qed

lemma node_state_inj:
  "length l = 4 \<Longrightarrow> length r = 4 \<Longrightarrow> length l' = 4 \<Longrightarrow> length r' = 4 \<Longrightarrow>
     node_state l r = node_state l' r' \<longleftrightarrow> l = l' \<and> r = r'"
  by (auto simp: node_state_def append_eq_append_conv)

lemma last_states [simp]:
  "last (node_state l r) = DOMAIN_NODE"
  "last (leaf_state p a) = DOMAIN_LEAF"
  "last (commitment_state s b) = DOMAIN_COMMITMENT"
  by (simp_all add: node_state_def leaf_state_def commitment_state_def)

lemma states_disjoint:
  "node_state l r \<noteq> leaf_state p a" "node_state l r \<noteq> commitment_state s b"
  "leaf_state p a \<noteq> commitment_state s b"
  by (auto dest!: arg_cong [where f = last]
      simp: DOMAIN_NODE_def DOMAIN_LEAF_def DOMAIN_COMMITMENT_def)

section \<open>Digests as bytes\<close>

lemma nth_four: "length d = 4 \<Longrightarrow> [d ! 0, d ! Suc 0, d ! 2, d ! 3] = d"
  by (auto simp: numeral_eq_Suc length_Suc_conv)

lemma upt_four: "[0..<4] = [0, 1, 2, 3 :: nat]"
  by (simp add: upt_rec)

lemma length_to_bytes [simp]: "length (to_bytes d) = 32"
  by (simp add: to_bytes_def upt_four)

lemma from_bytes_to_bytes: "length d = 4 \<Longrightarrow> from_bytes (to_bytes d) = d"
  by (simp add: from_bytes_def to_bytes_def upt_four nth_four)

interpretation digest_codec: fixed_codec to_bytes from_bytes 32 "\<lambda>d. length d = 4"
  by unfold_locales (simp_all add: from_bytes_to_bytes)

end
