(* ===== verification/Recursion.thy ===== *)
theory Recursion
  imports Acc
begin

text \<open>
  \<open>crates/common/src/recursion.rs\<close>: reading the keys and the public values out of a child proof's
  word vector, splitting a stored proof, binding a child to a program key and to the bytes it must
  have published (\<open>verify_child\<close>, \<open>verify_baked_child\<close>), and the fixed-width writer of those bytes.
  The STARK verifier itself is \<open>verify_zisk_proof\<close> of the parameter record.

  The locale \<open>public_output\<close> is the interface between the writer and the verifier: an output type
  whose published bytes have one width and determine the output. Inside it: a child proof that is
  accepted twice was accepted for one program and one output.
\<close>

type_synonym program_vk = "u64 list"
type_synonym proof_words = "u64 list"

datatype recursion_panic = PublicOutputsTooLong | GuestNotBaked

definition PROGRAM_VK_LEN :: nat where "PROGRAM_VK_LEN = 4"
definition ZISK_PUBLICS :: nat where "ZISK_PUBLICS = 64"
definition MAX_PUBLIC_BYTES :: nat where "MAX_PUBLIC_BYTES = ZISK_PUBLICS * 4"
definition VADCOP_VK_LEN :: nat where "VADCOP_VK_LEN = 4"
definition VK_OFFSET :: nat where "VK_OFFSET = 3"
definition PUBLICS_OFFSET :: nat where "PUBLICS_OFFSET = VK_OFFSET + PROGRAM_VK_LEN"
definition MIN_PROOF_WORDS :: nat where
  "MIN_PROOF_WORDS = PUBLICS_OFFSET + ZISK_PUBLICS + VADCOP_VK_LEN"

lemmas layout_defs = PROGRAM_VK_LEN_def ZISK_PUBLICS_def MAX_PUBLIC_BYTES_def VADCOP_VK_LEN_def
  VK_OFFSET_def PUBLICS_OFFSET_def MIN_PROOF_WORDS_def

definition UNSET_VK :: program_vk where "UNSET_VK = replicate PROGRAM_VK_LEN 0"

definition VADCOP_FINAL_VK :: program_vk where
  "VADCOP_FINAL_VK =
     [6218392583875695404, 9353885302538021251, 8280779842059074605, 10684020678174455855]"

definition is_uncompressed :: "proof_words \<Rightarrow> bool" where
  "is_uncompressed proof \<longleftrightarrow> length proof \<ge> MIN_PROOF_WORDS \<and> proof ! 0 = 0"

definition child_vadcop_vk :: "proof_words \<Rightarrow> program_vk option" where
  "child_vadcop_vk proof =
     (if \<not> is_uncompressed proof then None
      else let tail = drop (length proof - VADCOP_VK_LEN) proof
           in Some [tail ! 0, tail ! 1, tail ! 2, tail ! 3])"

definition child_program_vk :: "proof_words \<Rightarrow> program_vk option" where
  "child_program_vk proof =
     (if \<not> is_uncompressed proof then None
      else Some [proof ! VK_OFFSET, proof ! (VK_OFFSET + 1),
                 proof ! (VK_OFFSET + 2), proof ! (VK_OFFSET + 3)])"

text \<open>The loop over the public words, stopping at one that does not fit 32 bits.\<close>

fun public_word_bytes :: "u64 list \<Rightarrow> bytes option" where
  "public_word_bytes [] = Some []"
| "public_word_bytes (word # words) =
     (if word > 0xFFFFFFFF then None
      else map_option (\<lambda>out. le_bytes 4 (ucast word :: u32) @ out) (public_word_bytes words))"

definition child_public_bytes :: "proof_words \<Rightarrow> bytes option" where
  "child_public_bytes proof =
     (if \<not> is_uncompressed proof then None
      else public_word_bytes (map (\<lambda>i. proof ! (PUBLICS_OFFSET + i)) [0..<ZISK_PUBLICS]))"

record stored_proof =
  minimal :: bool
  stark_publics :: "u64 list"
  proof_body :: "u64 list"
  zisk_vk :: program_vk

definition publics_full :: "stored_proof \<Rightarrow> u64 list" where
  "publics_full s = (if minimal s then stark_publics s else drop 1 (stark_publics s))"

definition split_stored :: "u64 list \<Rightarrow> stored_proof option" where
  "split_stored words =
     (case words of
        minimal_word # n_publics_word # rest \<Rightarrow>
          if minimal_word \<noteq> 0 \<and> minimal_word \<noteq> 1 then None
          else
            let is_minimal = (minimal_word = 1); n_publics = unat n_publics_word in
            if n_publics \<noteq> PROGRAM_VK_LEN + ZISK_PUBLICS + (if is_minimal then 0 else 1) then None
            else if length rest < n_publics then None
            else
              let publics = take n_publics rest; rest' = drop n_publics rest in
              if length rest' < VADCOP_VK_LEN then None
              else
                let body = take (length rest' - VADCOP_VK_LEN) rest';
                    tail = drop (length rest' - VADCOP_VK_LEN) rest' in
                if body = [] then None
                else Some \<lparr>minimal = is_minimal, stark_publics = publics, proof_body = body,
                           zisk_vk = [tail ! 0, tail ! 1, tail ! 2, tail ! 3]\<rparr>
      | _ \<Rightarrow> None)"

definition verify_child ::
  "zisk \<Rightarrow> proof_words \<Rightarrow> program_vk \<Rightarrow> bytes \<Rightarrow> recursion_panic + bool" where
  "verify_child Z proof expected_vk expected_publics =
     (if proof = [] then Inr (\<not> target_zkvm Z) else
      ensure (length expected_publics \<le> MAX_PUBLIC_BYTES) PublicOutputsTooLong
     (if child_vadcop_vk proof \<noteq> Some VADCOP_FINAL_VK then Inr False else
      case child_program_vk proof of
        None \<Rightarrow> Inr False
      | Some vk \<Rightarrow>
          if vk \<noteq> expected_vk then Inr False else
          (case child_public_bytes proof of
             None \<Rightarrow> Inr False
           | Some publics \<Rightarrow>
               if take (length expected_publics) publics \<noteq> expected_publics then Inr False
               else if list_ex (\<lambda>b. b \<noteq> 0) (drop (length expected_publics) publics) then Inr False
               else Inr (verify_zisk_proof Z proof))))"

definition verify_baked_child ::
  "zisk \<Rightarrow> proof_words \<Rightarrow> program_vk \<Rightarrow> bytes \<Rightarrow> recursion_panic + bool" where
  "verify_baked_child Z proof baked expected_publics =
     (if proof = [] then Inr (\<not> target_zkvm Z) else
      ensure (baked \<noteq> UNSET_VK) GuestNotBaked
     (verify_child Z proof baked expected_publics))"

section \<open>The public writer\<close>

type_synonym public_writer = bytes

definition pw_new :: public_writer where "pw_new = []"

definition pw_u64 :: "u64 \<Rightarrow> public_writer \<Rightarrow> public_writer" where
  "pw_u64 v w = w @ u64_to_le_bytes v"

definition pw_bytes32 :: "bytes \<Rightarrow> public_writer \<Rightarrow> public_writer" where
  "pw_bytes32 v w = w @ v"

definition pw_digest :: "digest \<Rightarrow> public_writer \<Rightarrow> public_writer" where
  "pw_digest v w = w @ concat (map u64_to_le_bytes v)"

definition pw_program_vk :: "program_vk \<Rightarrow> public_writer \<Rightarrow> public_writer" where
  "pw_program_vk v w = w @ concat (map u64_to_le_bytes v)"

definition pw_finish :: "public_writer \<Rightarrow> recursion_panic + bytes" where
  "pw_finish w = ensure (length w \<le> MAX_PUBLIC_BYTES) PublicOutputsTooLong (Inr w)"

lemmas pw_defs = pw_new_def pw_u64_def pw_bytes32_def pw_digest_def pw_program_vk_def

section \<open>What an accepted child is bound to\<close>

lemma verify_child_empty: "verify_child Z [] vk pb = Inr (\<not> target_zkvm Z)"
  by (simp add: verify_child_def)

lemma verify_baked_child_empty: "verify_baked_child Z [] vk pb = Inr (\<not> target_zkvm Z)"
  by (simp add: verify_baked_child_def)

lemma verify_child_True:
  assumes "verify_child Z proof vk pb = Inr True" "proof \<noteq> []"
  shows "length pb \<le> MAX_PUBLIC_BYTES" "child_vadcop_vk proof = Some VADCOP_FINAL_VK"
    and "child_program_vk proof = Some vk" "verify_zisk_proof Z proof"
    and "\<exists>publics. child_public_bytes proof = Some publics \<and> take (length pb) publics = pb \<and>
           (\<forall>b\<in>set (drop (length pb) publics). b = 0)"
  using assms
  by (auto simp: verify_child_def list_ex_iff split: if_splits option.splits)

lemma verify_baked_child_True:
  assumes "verify_baked_child Z proof vk pb = Inr True" "proof \<noteq> []"
  shows "vk \<noteq> UNSET_VK" "verify_child Z proof vk pb = Inr True"
  using assms by (auto simp: verify_baked_child_def)

lemma verify_baked_child_zkvm:
  assumes "verify_baked_child Z proof vk pb = Inr True" "target_zkvm Z"
  shows "proof \<noteq> []" "vk \<noteq> UNSET_VK" "verify_child Z proof vk pb = Inr True"
  using assms by (auto simp: verify_baked_child_def split: if_splits)

lemma verify_child_zkvm_nonempty:
  "verify_child Z proof vk pb = Inr True \<Longrightarrow> target_zkvm Z \<Longrightarrow> proof \<noteq> []"
  by (auto simp: verify_child_def)

lemma public_word_bytes_length: "public_word_bytes ws = Some bs \<Longrightarrow> length bs = 4 * length ws"
  by (induction ws arbitrary: bs) (auto split: if_splits)

lemma child_public_bytes_length:
  "child_public_bytes proof = Some bs \<Longrightarrow> length bs = MAX_PUBLIC_BYTES"
  by (auto simp: child_public_bytes_def layout_defs dest: public_word_bytes_length split: if_splits)

text \<open>The published bytes are the expected ones, padded with zeros to the proof's capacity.\<close>

lemma verify_child_publics:
  assumes "verify_child Z proof vk pb = Inr True" "proof \<noteq> []"
  shows "child_public_bytes proof = Some (pb @ replicate (MAX_PUBLIC_BYTES - length pb) 0)"
proof -
  obtain publics where p: "child_public_bytes proof = Some publics"
    and t: "take (length pb) publics = pb" and z: "\<forall>b\<in>set (drop (length pb) publics). b = 0"
    using verify_child_True(5) [OF assms] by blast
  have "drop (length pb) publics = replicate (MAX_PUBLIC_BYTES - length pb) 0"
    using z child_public_bytes_length [OF p] by (metis length_drop replicate_eqI)
  then have "publics = pb @ replicate (MAX_PUBLIC_BYTES - length pb) 0"
    using t by (metis append_take_drop_id)
  with p show ?thesis by simp
qed

lemma verify_child_binds_bytes:
  assumes "verify_child Z proof vk pb = Inr True" "verify_child Z' proof vk' pb' = Inr True"
    and "proof \<noteq> []" "length pb = length pb'"
  shows "vk = vk' \<and> pb = pb'"
proof
  show "vk = vk'"
    using verify_child_True(3) [OF assms(1,3)] verify_child_True(3) [OF assms(2,3)]
    by (metis option.inject)
  have "pb @ replicate (MAX_PUBLIC_BYTES - length pb) 0 =
      pb' @ replicate (MAX_PUBLIC_BYTES - length pb') 0"
    using verify_child_publics [OF assms(1,3)] verify_child_publics [OF assms(2,3)]
    by (metis option.inject)
  then show "pb = pb'" using assms(4) by (metis append_eq_append_conv)
qed

text \<open>A child: its public bytes, then its proof under the key.\<close>

definition baked_child ::
  "zisk \<Rightarrow> proof_words \<Rightarrow> program_vk \<Rightarrow> recursion_panic + bytes \<Rightarrow> recursion_panic + bool" where
  "baked_child Z proof vk publics = bind_res publics (verify_baked_child Z proof vk)"

definition carried_child ::
  "zisk \<Rightarrow> proof_words \<Rightarrow> program_vk \<Rightarrow> recursion_panic + bytes \<Rightarrow> recursion_panic + bool" where
  "carried_child Z proof vk publics = bind_res publics (verify_child Z proof vk)"

lemma baked_child_zkvm:
  assumes "baked_child Z proof vk publics = Inr True" "target_zkvm Z"
  obtains pb where "publics = Inr pb" "proof \<noteq> []" "vk \<noteq> UNSET_VK"
    "verify_child Z proof vk pb = Inr True"
  using assms verify_baked_child_zkvm by (fastforce simp: baked_child_def)

lemma carried_child_zkvm:
  assumes "carried_child Z proof vk publics = Inr True" "target_zkvm Z"
  obtains pb where "publics = Inr pb" "proof \<noteq> []" "verify_child Z proof vk pb = Inr True"
  using assms verify_child_zkvm_nonempty by (fastforce simp: carried_child_def)

locale public_output =
  fixes public_bytes :: "'o \<Rightarrow> recursion_panic + bytes" and valid :: "'o \<Rightarrow> bool" and width :: nat
  assumes public_width: "valid x \<Longrightarrow> public_bytes x = Inr pb \<Longrightarrow> length pb = width"
    and public_total: "valid x \<Longrightarrow> \<exists>pb. public_bytes x = Inr pb"
    and public_inj: "valid x \<Longrightarrow> valid y \<Longrightarrow> public_bytes x = public_bytes y \<Longrightarrow> x = y"
begin

lemma child_binds_output:
  assumes "valid x" "valid y" "proof \<noteq> []"
    and "public_bytes x = Inr pb" "verify_child Z proof vk pb = Inr True"
    and "public_bytes y = Inr pb'" "verify_child Z' proof vk' pb' = Inr True"
  shows "vk = vk' \<and> x = y"
proof -
  have "length pb = length pb'" using public_width assms(1,2,4,6) by metis
  then have "vk = vk' \<and> pb = pb'" using verify_child_binds_bytes assms(3,5,7) by blast
  then show ?thesis using public_inj assms(1,2,4,6) by simp
qed

end

section \<open>Splitting a stored proof\<close>

text \<open>The parts are the words: header, publics, body and key, and nothing between or after.\<close>

lemma split_stored_join:
  assumes "split_stored words = Some s"
  shows "words = (if minimal s then 1 else 0) # of_nat (length (stark_publics s)) #
           stark_publics s @ proof_body s @ zisk_vk s"
    and "proof_body s \<noteq> []" "length (zisk_vk s) = VADCOP_VK_LEN"
    and "length (publics_full s) = PROGRAM_VK_LEN + ZISK_PUBLICS"
proof -
  obtain m n rest where words: "words = m # n # rest"
    using assms by (auto simp: split_stored_def split: list.splits)
  let ?n = "unat n"
  let ?rest = "drop ?n rest"
  let ?tail = "drop (length ?rest - 4) ?rest"
  have m: "m = 0 \<or> m = 1" and n: "?n = 68 + (if m = 1 then 0 else 1)"
    and len: "?n \<le> length rest" "4 \<le> length ?rest" "take (length ?rest - 4) ?rest \<noteq> []"
    and s: "s = \<lparr>minimal = (m = 1), stark_publics = take ?n rest,
                 proof_body = take (length ?rest - 4) ?rest,
                 zisk_vk = [?tail ! 0, ?tail ! 1, ?tail ! 2, ?tail ! 3]\<rparr>"
    using assms
    by (auto simp: words split_stored_def layout_defs Let_def simp del: nth_drop drop_drop
        split: if_splits)
  have "length ?tail = 4" using len(2) by simp
  then have tail: "[?tail ! 0, ?tail ! 1, ?tail ! 2, ?tail ! 3] = ?tail"
    using nth_four [of ?tail] by simp
  have "stark_publics s @ proof_body s @ zisk_vk s = rest"
    unfolding s stored_proof.simps tail by (simp only: append_take_drop_id)
  moreover have "of_nat (length (stark_publics s)) = n" using len(1) by (simp add: s)
  ultimately show "words = (if minimal s then 1 else 0) # of_nat (length (stark_publics s)) #
      stark_publics s @ proof_body s @ zisk_vk s"
    using m by (auto simp: words s)
  show "proof_body s \<noteq> []" using len(3) by (simp add: s)
  show "length (zisk_vk s) = VADCOP_VK_LEN" by (simp add: s layout_defs)
  show "length (publics_full s) = PROGRAM_VK_LEN + ZISK_PUBLICS"
    using len(1) n by (auto simp: s publics_full_def layout_defs min_def split: if_splits)
qed

section \<open>Laying out a child's words\<close>

text \<open>
  The words of an uncompressed proof with a key and 256 public bytes: what \<open>child_program_vk\<close> and
  \<open>child_public_bytes\<close> read back.
\<close>

definition bytes_words :: "bytes \<Rightarrow> u64 list" where
  "bytes_words bs =
     map (\<lambda>i. ucast (of_le_bytes (take 4 (drop (4 * i) bs)) :: u32)) [0..<ZISK_PUBLICS]"

definition child_words :: "program_vk \<Rightarrow> bytes \<Rightarrow> proof_words" where
  "child_words vk bs =
     [0, 0, 0] @ vk @ bytes_words (bs @ replicate (MAX_PUBLIC_BYTES - length bs) 0) @ VADCOP_FINAL_VK"

lemma public_word_bytes_u32:
  "public_word_bytes (map ucast (ws :: u32 list)) = Some (concat (map (le_bytes 4) ws))"
proof (induction ws)
  case (Cons w ws)
  have w: "unat w < 2 ^ 32" using unsigned_less [of w] by simp
  then have "unat (ucast w :: u64) = unat w"
    by (simp add: unsigned_ucast_eq take_bit_nat_eq_self)
  with w have "\<not> (ucast w :: u64) > 0xFFFFFFFF" by (simp add: word_less_nat_alt)
  moreover have "ucast (ucast w :: u64) = w"
    by (rule bit_word_eqI) (simp add: bit_ucast_iff bit_imp_le_length)
  ultimately show ?case using Cons by simp
qed simp

lemma concat_quads: "concat (map (\<lambda>i. take 4 (drop (4 * i) bs)) [0..<n]) = take (4 * n) bs"
proof (induction n)
  case (Suc n)
  have "take (4 * Suc n) bs = take (4 * n + 4) bs" by (simp add: add.commute)
  also have "\<dots> = take (4 * n) bs @ take 4 (drop (4 * n) bs)" by (rule take_add)
  finally show ?case using Suc by simp
qed simp

lemma bytes_words_read:
  assumes "length bs = MAX_PUBLIC_BYTES"
  shows "public_word_bytes (bytes_words bs) = Some bs"
proof -
  have "bytes_words bs =
      map ucast (map (\<lambda>i. of_le_bytes (take 4 (drop (4 * i) bs)) :: u32) [0..<ZISK_PUBLICS])"
    by (simp add: bytes_words_def comp_def)
  then have "public_word_bytes (bytes_words bs) =
      Some (concat (map (\<lambda>i. le_bytes 4 (of_le_bytes (take 4 (drop (4 * i) bs)) :: u32)) [0..<ZISK_PUBLICS]))"
    by (simp only: public_word_bytes_u32) (simp add: comp_def)
  also have "map (\<lambda>i. le_bytes 4 (of_le_bytes (take 4 (drop (4 * i) bs)) :: u32)) [0..<ZISK_PUBLICS] =
      map (\<lambda>i. take 4 (drop (4 * i) bs)) [0..<ZISK_PUBLICS]"
    using assms by (intro map_cong refl le_bytes_of_le_bytes) (auto simp: layout_defs)
  finally show ?thesis using assms by (simp add: concat_quads layout_defs)
qed

lemma length_bytes_words [simp]: "length (bytes_words bs) = 64"
  by (simp add: bytes_words_def layout_defs)

lemma child_words_read:
  assumes "length vk = 4" "length pb \<le> MAX_PUBLIC_BYTES"
  shows "child_program_vk (child_words vk pb) = Some vk"
    and "child_vadcop_vk (child_words vk pb) = Some VADCOP_FINAL_VK"
    and "child_public_bytes (child_words vk pb) =
      Some (pb @ replicate (MAX_PUBLIC_BYTES - length pb) 0)"
proof -
  let ?bs = "pb @ replicate (MAX_PUBLIC_BYTES - length pb) 0"
  have len: "length (child_words vk pb) = 75"
    using assms(1) by (simp add: child_words_def VADCOP_FINAL_VK_def)
  then have un: "is_uncompressed (child_words vk pb)"
    by (simp add: is_uncompressed_def layout_defs child_words_def)
  show "child_program_vk (child_words vk pb) = Some vk"
    using un assms(1) nth_four [OF assms(1)]
    by (simp add: child_program_vk_def child_words_def layout_defs nth_append)
  show "child_vadcop_vk (child_words vk pb) = Some VADCOP_FINAL_VK"
    using un len assms(1) nth_four [of VADCOP_FINAL_VK]
    by (simp add: child_vadcop_vk_def child_words_def layout_defs VADCOP_FINAL_VK_def Let_def)
  have "map (\<lambda>i. child_words vk pb ! (PUBLICS_OFFSET + i)) [0..<ZISK_PUBLICS] = bytes_words ?bs"
    using assms(1) by (intro nth_equalityI) (auto simp: child_words_def layout_defs nth_append)
  moreover have "length ?bs = MAX_PUBLIC_BYTES" using assms(2) by simp
  ultimately show "child_public_bytes (child_words vk pb) = Some ?bs"
    using un bytes_words_read by (simp add: child_public_bytes_def)
qed

lemma verify_child_words:
  assumes "length vk = 4" "length pb \<le> MAX_PUBLIC_BYTES"
  shows "verify_child Z (child_words vk pb) vk pb = Inr (verify_zisk_proof Z (child_words vk pb))"
proof -
  have "child_words vk pb \<noteq> []" by (simp add: child_words_def)
  then show ?thesis
    using child_words_read [OF assms] assms(2) by (simp add: verify_child_def list_ex_iff)
qed

end
