(* ===== verification/Types.thy ===== *)
theory Types
  imports Recursion
begin

text \<open>
  \<open>crates/common/src/types.rs\<close> and the network parameters of \<open>crates/common/src/lib.rs\<close>: the
  witnesses the guests read and the outputs they publish, each a record with the fields of its
  struct (prefixed by the struct's initials where two structs share a name), the activity test of a
  validator, and the byte layout every output is committed in. For each output the interface
  \<open>public_output\<close> is interpreted on its layout: the layout has one width, fits the 256 public bytes
  of a proof, and determines the output.
\<close>

type_synonym bytes32 = bytes

definition wf32 :: "bytes \<Rightarrow> bool" where "wf32 b \<longleftrightarrow> length b = 32"
definition wf_digest :: "digest \<Rightarrow> bool" where "wf_digest d \<longleftrightarrow> length d = 4"
definition wf_vk :: "program_vk \<Rightarrow> bool" where "wf_vk v \<longleftrightarrow> length v = 4"

section \<open>Network parameters\<close>

datatype consensus_fork = Electra | Fulu

record chain_config =
  slots_per_epoch :: u64
  validators_tree_depth :: nat
  acc_tree_depth :: nat
  beacon_state_validators_field_index :: u64
  fulu_fork_epoch :: u64

definition MAINNET :: chain_config where
  "MAINNET = \<lparr>slots_per_epoch = 32, validators_tree_depth = 40, acc_tree_depth = 22,
     beacon_state_validators_field_index = 11, fulu_fork_epoch = 0\<rparr>"

definition GNOSIS :: chain_config where
  "GNOSIS = \<lparr>slots_per_epoch = 16, validators_tree_depth = 40, acc_tree_depth = 22,
     beacon_state_validators_field_index = 11, fulu_fork_epoch = - 1\<rparr>"

definition fork_at_slot :: "chain_config \<Rightarrow> u64 \<Rightarrow> consensus_fork" where
  "fork_at_slot config slot =
     (let epoch = slot div slots_per_epoch config
      in if epoch \<ge> fulu_fork_epoch config then Fulu else Electra)"

definition VALIDATORS_TREE_DEPTH :: nat where "VALIDATORS_TREE_DEPTH = 40"
definition ACC_TREE_DEPTH :: nat where "ACC_TREE_DEPTH = 22"
definition BEACON_STATE_VALIDATORS_FIELD_INDEX :: u64 where
  "BEACON_STATE_VALIDATORS_FIELD_INDEX = 11"
definition SLOTS_PER_EPOCH :: u64 where "SLOTS_PER_EPOCH = 32"

section \<open>Validators\<close>

record validator_data =
  vd_pubkey :: bytes
  effective_balance :: u64
  activation_epoch :: u64
  exit_epoch :: u64

definition is_active :: "validator_data \<Rightarrow> u64 \<Rightarrow> bool" where
  "is_active v epoch \<longleftrightarrow> activation_epoch v \<le> epoch \<and> epoch < exit_epoch v"

definition active_effective_balance :: "validator_data \<Rightarrow> u64 \<Rightarrow> u64" where
  "active_effective_balance v epoch = (if is_active v epoch then effective_balance v else 0)"

record validator_mutation =
  vm_index :: u64
  is_new :: bool
  old_data :: validator_data
  new_data :: validator_data
  old_field_leaves :: "bytes32 list"
  new_field_leaves :: "bytes32 list"
  old_pubkey_chunks :: "bytes32 list"
  new_pubkey_chunks :: "bytes32 list"
  acc_siblings :: "digest list"

section \<open>Epoch diff\<close>

record epoch_diff_output =
  ed_prev_accumulator_commitment :: digest
  ed_state_root_1 :: bytes32
  ed_epoch_1 :: u64
  ed_accumulator_commitment :: digest
  ed_acc_root :: digest
  ed_total_active_balance :: u64
  ed_state_root_2 :: bytes32
  ed_epoch_2 :: u64

record epoch_diff_witness =
  state_root_1 :: bytes32
  state_root_2 :: bytes32
  acc_root_1 :: digest
  total_active_balance_1 :: u64
  epoch_1 :: u64
  epoch_2 :: u64
  state_to_validators_siblings_1 :: "bytes32 list"
  state_to_validators_siblings_2 :: "bytes32 list"
  validators_list_length_1 :: u64
  validators_list_length_2 :: u64
  mutations :: "validator_mutation list"
  ssz_multi_proof_1 :: "bytes32 list"
  ssz_multi_proof_2 :: "bytes32 list"

definition ed_public_bytes :: "epoch_diff_output \<Rightarrow> recursion_panic + bytes" where
  "ed_public_bytes out = pw_finish
     (pw_u64 (ed_epoch_2 out)
     (pw_bytes32 (ed_state_root_2 out)
     (pw_u64 (ed_total_active_balance out)
     (pw_digest (ed_acc_root out)
     (pw_digest (ed_accumulator_commitment out)
     (pw_u64 (ed_epoch_1 out)
     (pw_bytes32 (ed_state_root_1 out)
     (pw_digest (ed_prev_accumulator_commitment out) pw_new))))))))"

definition wf_ed :: "epoch_diff_output \<Rightarrow> bool" where
  "wf_ed out \<longleftrightarrow> wf_digest (ed_prev_accumulator_commitment out) \<and> wf32 (ed_state_root_1 out) \<and>
     wf_digest (ed_accumulator_commitment out) \<and> wf_digest (ed_acc_root out) \<and> wf32 (ed_state_root_2 out)"

section \<open>Attestations and committees\<close>

record opened_validator =
  ov_index :: u64
  ov_pubkey :: g1_point
  ov_balance :: u64

record attestation_witness =
  data_slot :: u64
  data_index :: u64
  data_beacon_block_root :: bytes32
  data_source_epoch :: u64
  data_source_root :: bytes32
  data_target_epoch :: u64
  data_target_root :: bytes32
  signature :: bytes
  attesting_validators :: "opened_validator list"

record committee_aggregate =
  ca_pubkey :: g1_point
  ca_balance :: u64

record committee_member =
  cm_index :: u64
  cm_pubkey :: g1_point
  cm_balance :: u64
  cm_slot_in_epoch :: u64

record committee_witness =
  cw_accumulator_commitment :: digest
  cw_target_epoch :: u64
  cw_acc_root :: digest
  cw_total_active_balance :: u64
  cw_members :: "committee_member list"
  cw_auxiliaries :: "digest list"

record committee_output =
  co_accumulator_commitment :: digest
  co_target_epoch :: u64
  co_committee_root :: digest

definition co_public_bytes :: "committee_output \<Rightarrow> recursion_panic + bytes" where
  "co_public_bytes out = pw_finish
     (pw_digest (co_committee_root out)
     (pw_u64 (co_target_epoch out)
     (pw_digest (co_accumulator_commitment out) pw_new)))"

definition wf_co :: "committee_output \<Rightarrow> bool" where
  "wf_co out \<longleftrightarrow> wf_digest (co_accumulator_commitment out) \<and> wf_digest (co_committee_root out)"

record slot_complement_witness =
  slot_in_epoch :: u64
  committee :: committee_aggregate
  primary :: "attestation_witness list"
  secondary :: "attestation_witness list"
  absentees :: "opened_validator list"

record slot_proof_output =
  sp_accumulator_commitment :: digest
  sp_committee_root :: digest
  sp_source_epoch :: u64
  sp_source_root :: bytes32
  sp_target_epoch :: u64
  sp_target_root :: bytes32
  sp_attesting_balance :: u64
  sp_slots_mask :: u64

record slot_proof_witness =
  sw_accumulator_commitment :: digest
  sw_committee_root :: digest
  sw_source_epoch :: u64
  sw_source_root :: bytes32
  sw_target_epoch :: u64
  sw_target_root :: bytes32
  sw_signing_domain :: bytes32
  sw_acc_root :: digest
  sw_total_active_balance :: u64
  sw_slots :: "slot_complement_witness list"
  sw_acc_multi_proof :: "digest list"
  sw_committee_multi_proof :: "digest list"

definition sp_public_bytes :: "slot_proof_output \<Rightarrow> recursion_panic + bytes" where
  "sp_public_bytes out = pw_finish
     (pw_u64 (sp_slots_mask out)
     (pw_u64 (sp_attesting_balance out)
     (pw_bytes32 (sp_target_root out)
     (pw_u64 (sp_target_epoch out)
     (pw_bytes32 (sp_source_root out)
     (pw_u64 (sp_source_epoch out)
     (pw_digest (sp_committee_root out)
     (pw_digest (sp_accumulator_commitment out) pw_new))))))))"

definition wf_sp :: "slot_proof_output \<Rightarrow> bool" where
  "wf_sp out \<longleftrightarrow> wf_digest (sp_accumulator_commitment out) \<and> wf_digest (sp_committee_root out) \<and>
     wf32 (sp_source_root out) \<and> wf32 (sp_target_root out)"

section \<open>Justification and finalization\<close>

record justification_output =
  jo_accumulator_commitment :: digest
  jo_committee_root :: digest
  jo_source_epoch :: u64
  jo_source_root :: bytes32
  jo_target_epoch :: u64
  jo_target_root :: bytes32
  jo_attesting_balance :: u64
  jo_slots_mask :: u64
  justified :: bool
  jo_program_vk :: program_vk

record justification_witness =
  jw_accumulator_commitment :: digest
  jw_source_epoch :: u64
  jw_source_root :: bytes32
  jw_target_epoch :: u64
  jw_target_root :: bytes32
  jw_total_active_balance :: u64
  jw_acc_root :: digest
  justification_program_vk :: program_vk
  jw_committee :: "committee_output option"
  jw_committee_proof :: proof_words
  jw_previous :: "justification_output option"
  jw_previous_proof :: proof_words
  slot_proof_outputs :: "slot_proof_output list"
  slot_proofs :: "proof_words list"

definition jo_public_bytes :: "justification_output \<Rightarrow> recursion_panic + bytes" where
  "jo_public_bytes out = pw_finish
     (pw_program_vk (jo_program_vk out)
     (pw_u64 (if justified out then 1 else 0)
     (pw_u64 (jo_slots_mask out)
     (pw_u64 (jo_attesting_balance out)
     (pw_bytes32 (jo_target_root out)
     (pw_u64 (jo_target_epoch out)
     (pw_bytes32 (jo_source_root out)
     (pw_u64 (jo_source_epoch out)
     (pw_digest (jo_committee_root out)
     (pw_digest (jo_accumulator_commitment out) pw_new))))))))))"

definition wf_jo :: "justification_output \<Rightarrow> bool" where
  "wf_jo out \<longleftrightarrow> wf_digest (jo_accumulator_commitment out) \<and> wf_digest (jo_committee_root out) \<and>
     wf32 (jo_source_root out) \<and> wf32 (jo_target_root out) \<and> wf_vk (jo_program_vk out)"

record block_header_fields =
  bh_slot :: u64
  bh_proposer_index :: u64
  bh_parent_root :: bytes32
  bh_state_root :: bytes32
  bh_body_root :: bytes32

record boundary_anchor =
  justified_header :: block_header_fields
  block_roots_siblings :: "bytes32 list"
  state_roots_siblings :: "bytes32 list"

record finalization_output =
  fo_accumulator_commitment :: digest
  fo_next_accumulator_commitment :: digest
  fo_finalized_epoch :: u64
  fo_finalized_root :: bytes32
  fo_finalized_state_root :: bytes32

record finalization_witness =
  fw_boundary :: boundary_anchor
  justification_outputs :: "justification_output list"
  justification_proofs :: "proof_words list"
  fw_epoch_diff_output :: epoch_diff_output
  fw_epoch_diff_proof :: proof_words

definition fo_public_bytes :: "finalization_output \<Rightarrow> recursion_panic + bytes" where
  "fo_public_bytes out = pw_finish
     (pw_bytes32 (fo_finalized_state_root out)
     (pw_bytes32 (fo_finalized_root out)
     (pw_u64 (fo_finalized_epoch out)
     (pw_digest (fo_next_accumulator_commitment out)
     (pw_digest (fo_accumulator_commitment out) pw_new)))))"

definition wf_fo :: "finalization_output \<Rightarrow> bool" where
  "wf_fo out \<longleftrightarrow> wf_digest (fo_accumulator_commitment out) \<and>
     wf_digest (fo_next_accumulator_commitment out) \<and>
     wf32 (fo_finalized_root out) \<and> wf32 (fo_finalized_state_root out)"

section \<open>Streaming\<close>

record group_proof_output =
  gp_accumulator_commitment :: digest
  gp_committee_root :: digest
  gp_source_epoch :: u64
  gp_source_root :: bytes32
  gp_target_epoch :: u64
  gp_target_root :: bytes32
  gp_attesting_balance :: u64
  gp_slots_mask :: u64
  gp_miller_commitment :: digest

definition gp_public_bytes :: "group_proof_output \<Rightarrow> recursion_panic + bytes" where
  "gp_public_bytes out = pw_finish
     (pw_digest (gp_miller_commitment out)
     (pw_u64 (gp_slots_mask out)
     (pw_u64 (gp_attesting_balance out)
     (pw_bytes32 (gp_target_root out)
     (pw_u64 (gp_target_epoch out)
     (pw_bytes32 (gp_source_root out)
     (pw_u64 (gp_source_epoch out)
     (pw_digest (gp_committee_root out)
     (pw_digest (gp_accumulator_commitment out) pw_new)))))))))"

definition wf_gp :: "group_proof_output \<Rightarrow> bool" where
  "wf_gp out \<longleftrightarrow> wf_digest (gp_accumulator_commitment out) \<and> wf_digest (gp_committee_root out) \<and>
     wf32 (gp_source_root out) \<and> wf32 (gp_target_root out) \<and>
     wf_digest (gp_miller_commitment out)"

record aggregate_output =
  ao_accumulator_commitment :: digest
  ao_committee_root :: digest
  ao_previous_accumulator_commitment :: digest
  ao_anchor_state_root :: bytes32
  ao_target_epoch :: u64
  ao_checkpoint_digest :: bytes32
  ao_attesting_balance :: u64
  ao_slots_mask :: u64
  ao_miller_commitment :: digest
  ao_program_vk :: program_vk

definition ao_public_bytes :: "aggregate_output \<Rightarrow> recursion_panic + bytes" where
  "ao_public_bytes out = pw_finish
     (pw_program_vk (ao_program_vk out)
     (pw_digest (ao_miller_commitment out)
     (pw_u64 (ao_slots_mask out)
     (pw_u64 (ao_attesting_balance out)
     (pw_bytes32 (ao_checkpoint_digest out)
     (pw_u64 (ao_target_epoch out)
     (pw_bytes32 (ao_anchor_state_root out)
     (pw_digest (ao_previous_accumulator_commitment out)
     (pw_digest (ao_committee_root out)
     (pw_digest (ao_accumulator_commitment out) pw_new))))))))))"

definition wf_ao :: "aggregate_output \<Rightarrow> bool" where
  "wf_ao out \<longleftrightarrow> wf_digest (ao_accumulator_commitment out) \<and> wf_digest (ao_committee_root out) \<and>
     wf_digest (ao_previous_accumulator_commitment out) \<and> wf32 (ao_anchor_state_root out) \<and>
     wf32 (ao_checkpoint_digest out) \<and> wf_digest (ao_miller_commitment out) \<and>
     wf_vk (ao_program_vk out)"

record aggregate_witness =
  aw_accumulator_commitment :: digest
  aw_source_epoch :: u64
  aw_source_root :: bytes32
  aw_target_epoch :: u64
  aw_target_root :: bytes32
  aggregate_program_vk :: program_vk
  aw_epoch_diff :: "epoch_diff_output option"
  aw_epoch_diff_proof :: proof_words
  aw_committee :: "committee_output option"
  aw_committee_proof :: proof_words
  aw_previous :: "aggregate_output option"
  aw_previous_proof :: proof_words
  aw_previous_miller :: fp12
  aw_groups :: "group_proof_output list"
  aw_group_proofs :: "proof_words list"
  aw_group_millers :: "fp12 list"

record stream_final_output =
  sf_accumulator_commitment :: digest
  sf_next_accumulator_commitment :: digest
  sf_finalized_epoch :: u64
  sf_finalized_root :: bytes32
  sf_finalized_state_root :: bytes32
  sf_justified_epoch :: u64
  sf_justified_root :: bytes32
  sf_program_vk :: program_vk

definition sf_public_bytes :: "stream_final_output \<Rightarrow> recursion_panic + bytes" where
  "sf_public_bytes out = pw_finish
     (pw_program_vk (sf_program_vk out)
     (pw_bytes32 (sf_justified_root out)
     (pw_u64 (sf_justified_epoch out)
     (pw_bytes32 (sf_finalized_state_root out)
     (pw_bytes32 (sf_finalized_root out)
     (pw_u64 (sf_finalized_epoch out)
     (pw_digest (sf_next_accumulator_commitment out)
     (pw_digest (sf_accumulator_commitment out) pw_new))))))))"

definition wf_sf :: "stream_final_output \<Rightarrow> bool" where
  "wf_sf out \<longleftrightarrow> wf_digest (sf_accumulator_commitment out) \<and>
     wf_digest (sf_next_accumulator_commitment out) \<and> wf32 (sf_finalized_root out) \<and>
     wf32 (sf_finalized_state_root out) \<and> wf32 (sf_justified_root out) \<and> wf_vk (sf_program_vk out)"

datatype previous_justification =
    Batch justification_output
  | Stream stream_final_output

fun pj_accumulator_commitment :: "previous_justification \<Rightarrow> digest" where
  "pj_accumulator_commitment (Batch out) = jo_accumulator_commitment out"
| "pj_accumulator_commitment (Stream out) = sf_next_accumulator_commitment out"

fun pj_target_epoch :: "previous_justification \<Rightarrow> u64" where
  "pj_target_epoch (Batch out) = jo_target_epoch out"
| "pj_target_epoch (Stream out) = sf_justified_epoch out"

fun pj_target_root :: "previous_justification \<Rightarrow> bytes32" where
  "pj_target_root (Batch out) = jo_target_root out"
| "pj_target_root (Stream out) = sf_justified_root out"

fun pj_is_justified :: "previous_justification \<Rightarrow> bool" where
  "pj_is_justified (Batch out) = justified out"
| "pj_is_justified (Stream out) = True"

fun pj_public_bytes :: "previous_justification \<Rightarrow> recursion_panic + bytes" where
  "pj_public_bytes (Batch out) = jo_public_bytes out"
| "pj_public_bytes (Stream out) = sf_public_bytes out"

record stream_final_witness =
  sfw_accumulator_commitment :: digest
  sfw_target_epoch :: u64
  sfw_target_root :: bytes32
  sfw_signing_domain :: bytes32
  sfw_acc_root :: digest
  sfw_total_active_balance :: u64
  stream_program_vk :: program_vk
  sfw_epoch_diff :: "epoch_diff_output option"
  sfw_epoch_diff_proof :: proof_words
  sfw_committee :: "committee_output option"
  sfw_committee_proof :: proof_words
  aggregate :: "aggregate_output option"
  aggregate_proof :: proof_words
  aggregate_miller :: fp12
  sfw_groups :: "group_proof_output list"
  sfw_group_proofs :: "proof_words list"
  sfw_group_millers :: "fp12 list"
  sfw_tail :: "slot_complement_witness list"
  tail_acc_multi_proof :: "digest list"
  tail_committee_multi_proof :: "digest list"
  sfw_previous_justification :: previous_justification
  sfw_previous_justification_proof :: proof_words
  sfw_boundary :: boundary_anchor

section \<open>The layouts determine the outputs\<close>

lemma length_digest_bytes: "wf_digest d \<Longrightarrow> length (concat (map u64_to_le_bytes d)) = 32"
  by (simp add: wf_digest_def le64.length_concat_enc)

lemma length_vk_bytes: "wf_vk d \<Longrightarrow> length (concat (map u64_to_le_bytes d)) = 32"
  by (simp add: wf_vk_def le64.length_concat_enc)

lemma digest_bytes_inj:
  "wf_digest d \<Longrightarrow> wf_digest e \<Longrightarrow>
     concat (map u64_to_le_bytes d) @ xs = concat (map u64_to_le_bytes e) @ ys \<longleftrightarrow> d = e \<and> xs = ys"
  using le64.concat_enc_inj [of d e xs ys] by (auto simp: wf_digest_def)

lemma digest_bytes_inj_end:
  "wf_digest d \<Longrightarrow> wf_digest e \<Longrightarrow>
     concat (map u64_to_le_bytes d) = concat (map u64_to_le_bytes e) \<longleftrightarrow> d = e"
  using digest_bytes_inj [of d e "[]" "[]"] by simp

lemma vk_bytes_inj_end:
  "wf_vk d \<Longrightarrow> wf_vk e \<Longrightarrow>
     concat (map u64_to_le_bytes d) = concat (map u64_to_le_bytes e) \<longleftrightarrow> d = e"
  using digest_bytes_inj_end [of d e] by (simp add: wf_vk_def wf_digest_def)

lemma bytes32_inj: "wf32 a \<Longrightarrow> wf32 b \<Longrightarrow> a @ xs = b @ ys \<longleftrightarrow> a = b \<and> xs = ys"
  by (simp add: wf32_def)

lemma length_bytes32: "wf32 a \<Longrightarrow> length a = 32"
  by (simp add: wf32_def)

lemmas public_simps = pw_defs pw_finish_def length_digest_bytes length_vk_bytes length_bytes32
  MAX_PUBLIC_BYTES_def ZISK_PUBLICS_def
  digest_bytes_inj digest_bytes_inj_end vk_bytes_inj_end bytes32_inj

interpretation ed_public: public_output ed_public_bytes wf_ed 184
  by unfold_locales (auto simp: ed_public_bytes_def wf_ed_def public_simps)

interpretation co_public: public_output co_public_bytes wf_co 72
  by unfold_locales (auto simp: co_public_bytes_def wf_co_def public_simps)

interpretation sp_public: public_output sp_public_bytes wf_sp 160
  by unfold_locales (auto simp: sp_public_bytes_def wf_sp_def public_simps)

interpretation jo_public: public_output jo_public_bytes wf_jo 200
  by unfold_locales (auto simp: jo_public_bytes_def wf_jo_def public_simps split: if_splits)

interpretation fo_public: public_output fo_public_bytes wf_fo 136
  by unfold_locales (auto simp: fo_public_bytes_def wf_fo_def public_simps)

interpretation gp_public: public_output gp_public_bytes wf_gp 192
  by unfold_locales (auto simp: gp_public_bytes_def wf_gp_def public_simps)

interpretation ao_public: public_output ao_public_bytes wf_ao 248
  by unfold_locales (auto simp: ao_public_bytes_def wf_ao_def public_simps)

interpretation sf_public: public_output sf_public_bytes wf_sf 208
  by unfold_locales (auto simp: sf_public_bytes_def wf_sf_def public_simps)

end
