(* ===== verification/Ssz.thy ===== *)
theory Ssz
  imports Types
begin

text \<open>
  \<open>crates/common/src/ssz.rs\<close>: SSZ hashing. \<open>sha256_pair\<close> drives the compression function of the
  parameter record over the sixty-four input bytes and the fixed padding block; the container roots
  are trees of it. \<open>open_boundary\<close> opens the finalized epoch's boundary out of the justified
  checkpoint's state, and \<open>verify_field_leaves\<close> binds a validator's data to its SSZ leaves.

  The lemmas: the shared-work pair hash computes exactly the two roots; the padded chunk of an
  integer determines it; accepted field leaves determine the validator's balance, epochs and key.
\<close>

datatype ssz_panic =
    HistoryProofDepth
  | HeaderNotJustifiedRoot
  | BoundaryNotRecorded
  | FinalizedNotAtBoundary
  | AccumulatorStateNotBoundary
  | PubkeyLeafMismatch
  | PubkeyChunk0Mismatch
  | PubkeyChunk1Mismatch
  | PubkeyPaddingNotZero
  | EffectiveBalanceLeafMismatch
  | ActivationEpochLeafMismatch
  | ExitEpochLeafMismatch

section \<open>SHA-256 over a pair\<close>

definition IV :: "u32 list" where
  "IV = [0x6a09e667, 0xbb67ae85, 0x3c6ef372, 0xa54ff53a,
         0x510e527f, 0x9b05688c, 0x1f83d9ab, 0x5be0cd19]"

definition PAD_512 :: "u64 list" where
  "PAD_512 = [0x80, 0, 0, 0, 0, 0, 0, 0x0002000000000000]"

definition initial_state :: "u64 list" where
  "initial_state =
     map (\<lambda>i. ucast (IV ! (2 * i)) OR push_bit 32 (ucast (IV ! (2 * i + 1)))) [0..<4]"

definition block_words :: "bytes \<Rightarrow> nat \<Rightarrow> u64 list" where
  "block_words bs n = map (\<lambda>i. u64_from_le_bytes (take 8 (drop (8 * i) bs))) [0..<n]"

definition u32_to_be_bytes :: "u32 \<Rightarrow> bytes" where
  "u32_to_be_bytes w = rev (le_bytes 4 w)"

definition state_bytes :: "u64 list \<Rightarrow> bytes" where
  "state_bytes state = concat (map (\<lambda>i.
     u32_to_be_bytes (ucast (state ! i)) @ u32_to_be_bytes (ucast (drop_bit 32 (state ! i)))) [0..<4])"

definition sha256_pair :: "zisk \<Rightarrow> bytes32 \<Rightarrow> bytes32 \<Rightarrow> bytes32" where
  "sha256_pair Z left right =
     (let block = block_words left 4 @ block_words right 4;
          state1 = syscall_sha256_f Z initial_state block;
          state2 = syscall_sha256_f Z state1 PAD_512
      in state_bytes state2)"

lemma length_sha256_pair [simp]: "length (sha256_pair Z l r) = 32"
  by (simp add: sha256_pair_def state_bytes_def u32_to_be_bytes_def Let_def upt_four)

section \<open>Containers\<close>

definition u64_to_chunk :: "u64 \<Rightarrow> bytes32" where
  "u64_to_chunk val = u64_to_le_bytes val @ replicate 24 0"

definition validator_hash_tree_root :: "zisk \<Rightarrow> bytes32 list \<Rightarrow> bytes32" where
  "validator_hash_tree_root Z leaves =
     (let n0 = sha256_pair Z (leaves ! 0) (leaves ! 1);
          n1 = sha256_pair Z (leaves ! 2) (leaves ! 3);
          n2 = sha256_pair Z (leaves ! 4) (leaves ! 5);
          n3 = sha256_pair Z (leaves ! 6) (leaves ! 7);
          n4 = sha256_pair Z n0 n1;
          n5 = sha256_pair Z n2 n3
      in sha256_pair Z n4 n5)"

definition shared_sha256_pair ::
  "zisk \<Rightarrow> bytes32 \<Rightarrow> bytes32 \<Rightarrow> bytes32 \<Rightarrow> bytes32 \<Rightarrow> bytes32 \<times> bytes32" where
  "shared_sha256_pair Z old_l old_r new_l new_r =
     (if old_l = new_l \<and> old_r = new_r then
        (let h = sha256_pair Z new_l new_r in (h, h))
      else (sha256_pair Z old_l old_r, sha256_pair Z new_l new_r))"

definition validator_hash_tree_root_pair ::
  "zisk \<Rightarrow> bytes32 list \<Rightarrow> bytes32 list \<Rightarrow> bytes32 \<times> bytes32" where
  "validator_hash_tree_root_pair Z old new =
     (let (old_n0, new_n0) = shared_sha256_pair Z (old ! 0) (old ! 1) (new ! 0) (new ! 1);
          (old_n1, new_n1) = shared_sha256_pair Z (old ! 2) (old ! 3) (new ! 2) (new ! 3);
          (old_n2, new_n2) = shared_sha256_pair Z (old ! 4) (old ! 5) (new ! 4) (new ! 5);
          (old_n3, new_n3) = shared_sha256_pair Z (old ! 6) (old ! 7) (new ! 6) (new ! 7);
          (old_n4, new_n4) = shared_sha256_pair Z old_n0 old_n1 new_n0 new_n1;
          (old_n5, new_n5) = shared_sha256_pair Z old_n2 old_n3 new_n2 new_n3
      in shared_sha256_pair Z old_n4 old_n5 new_n4 new_n5)"

definition list_hash_tree_root :: "zisk \<Rightarrow> bytes32 \<Rightarrow> u64 \<Rightarrow> bytes32" where
  "list_hash_tree_root Z data_tree_root len = sha256_pair Z data_tree_root (u64_to_chunk len)"

definition compute_ssz_merkle_root :: "zisk \<Rightarrow> bytes32 \<Rightarrow> u64 \<Rightarrow> bytes32 list \<Rightarrow> bytes32" where
  "compute_ssz_merkle_root Z lf idx siblings = compute_root (sha256_pair Z) lf idx siblings"

definition verify_ssz_merkle_proof ::
  "zisk \<Rightarrow> bytes32 \<Rightarrow> u64 \<Rightarrow> bytes32 list \<Rightarrow> bytes32 \<Rightarrow> bool" where
  "verify_ssz_merkle_proof Z lf idx siblings root =
     verify_proof (sha256_pair Z) lf idx siblings root"

definition verify_ssz_multi_proof ::
  "zisk \<Rightarrow> (bytes32 \<times> u64) list \<Rightarrow> bytes32 list \<Rightarrow> nat \<Rightarrow> merkle_panic + bytes32" where
  "verify_ssz_multi_proof Z leaves auxiliaries depth =
     batch_root (sha256_pair Z) leaves auxiliaries depth"

definition checkpoint_leaf :: "zisk \<Rightarrow> u64 \<Rightarrow> bytes32 \<Rightarrow> bytes32" where
  "checkpoint_leaf Z epoch root = sha256_pair Z (u64_to_chunk epoch) root"

definition checkpoint_digest :: "zisk \<Rightarrow> u64 \<Rightarrow> bytes32 \<Rightarrow> u64 \<Rightarrow> bytes32 \<Rightarrow> bytes32" where
  "checkpoint_digest Z source_epoch source_root target_epoch target_root =
     sha256_pair Z (checkpoint_leaf Z source_epoch source_root)
       (checkpoint_leaf Z target_epoch target_root)"

definition zero32 :: bytes32 where "zero32 = replicate 32 0"

definition attestation_data_root ::
  "zisk \<Rightarrow> u64 \<Rightarrow> u64 \<Rightarrow> bytes32 \<Rightarrow> u64 \<Rightarrow> bytes32 \<Rightarrow> u64 \<Rightarrow> bytes32 \<Rightarrow> bytes32" where
  "attestation_data_root Z slot index beacon_block_root source_epoch source_root
       target_epoch target_root =
     (let field0 = u64_to_chunk slot;
          field1 = u64_to_chunk index;
          field2 = beacon_block_root;
          field3 = checkpoint_leaf Z source_epoch source_root;
          field4 = checkpoint_leaf Z target_epoch target_root;
          n0 = sha256_pair Z field0 field1;
          n1 = sha256_pair Z field2 field3;
          n2 = sha256_pair Z field4 zero32;
          n3 = sha256_pair Z zero32 zero32;
          n4 = sha256_pair Z n0 n1;
          n5 = sha256_pair Z n2 n3
      in sha256_pair Z n4 n5)"

definition block_header_root ::
  "zisk \<Rightarrow> u64 \<Rightarrow> u64 \<Rightarrow> bytes32 \<Rightarrow> bytes32 \<Rightarrow> bytes32 \<Rightarrow> bytes32" where
  "block_header_root Z slot proposer_index parent_root state_root body_root =
     (let n0 = sha256_pair Z (u64_to_chunk slot) (u64_to_chunk proposer_index);
          n1 = sha256_pair Z parent_root state_root;
          n2 = sha256_pair Z body_root zero32;
          n3 = sha256_pair Z zero32 zero32
      in sha256_pair Z (sha256_pair Z n0 n1) (sha256_pair Z n2 n3))"

section \<open>The boundary\<close>

definition SLOTS_PER_HISTORICAL_ROOT :: u64 where "SLOTS_PER_HISTORICAL_ROOT = 8192"
definition BLOCK_ROOTS_FIELD :: u64 where "BLOCK_ROOTS_FIELD = 5"
definition STATE_ROOTS_FIELD :: u64 where "STATE_ROOTS_FIELD = 6"
definition HISTORY_PROOF_DEPTH :: nat where "HISTORY_PROOF_DEPTH = 13 + 6"

definition state_root_from_history ::
  "zisk \<Rightarrow> u64 \<Rightarrow> u64 \<Rightarrow> bytes32 \<Rightarrow> bytes32 list \<Rightarrow> ssz_panic + bytes32" where
  "state_root_from_history Z field slot entry siblings =
     ensure (length siblings = HISTORY_PROOF_DEPTH) HistoryProofDepth
    (Inr (compute_ssz_merkle_root Z entry
            (field * SLOTS_PER_HISTORICAL_ROOT + slot mod SLOTS_PER_HISTORICAL_ROOT) siblings))"

definition open_boundary ::
  "zisk \<Rightarrow> boundary_anchor \<Rightarrow> u64 \<Rightarrow> bytes32 \<Rightarrow> bytes32 \<Rightarrow> bytes32 \<Rightarrow> u64 \<Rightarrow> ssz_panic + unit" where
  "open_boundary Z anchor finalized_epoch finalized_root justified_root boundary_state_root
       per_epoch =
     (let h = justified_header anchor;
          boundary_slot = finalized_epoch * per_epoch in
     ensure (block_header_root Z (bh_slot h) (bh_proposer_index h) (bh_parent_root h)
               (bh_state_root h) (bh_body_root h) = justified_root) HeaderNotJustifiedRoot
    (ensure (bh_slot h > boundary_slot \<and> bh_slot h - boundary_slot \<le> SLOTS_PER_HISTORICAL_ROOT)
       BoundaryNotRecorded
    (bind_res (state_root_from_history Z BLOCK_ROOTS_FIELD boundary_slot finalized_root
                 (block_roots_siblings anchor)) (\<lambda>from_blocks.
     ensure (from_blocks = bh_state_root h) FinalizedNotAtBoundary
    (bind_res (state_root_from_history Z STATE_ROOTS_FIELD boundary_slot boundary_state_root
                 (state_roots_siblings anchor)) (\<lambda>from_states.
     ensure (from_states = bh_state_root h) AccumulatorStateNotBoundary
    (Inr ())))))))"

section \<open>Field leaves\<close>

definition verify_field_leaves_no_pubkey_hash ::
  "validator_data \<Rightarrow> bytes32 list \<Rightarrow> bytes32 list \<Rightarrow> ssz_panic + unit" where
  "verify_field_leaves_no_pubkey_hash data field_leaves pubkey_chunks =
     ensure (take 32 (pubkey_chunks ! 0) = take 32 (vd_pubkey data)) PubkeyChunk0Mismatch
    (ensure (take 16 (pubkey_chunks ! 1) = take 16 (drop 32 (vd_pubkey data))) PubkeyChunk1Mismatch
    (ensure (drop 16 (pubkey_chunks ! 1) = replicate 16 0) PubkeyPaddingNotZero
    (ensure (field_leaves ! 2 = u64_to_chunk (effective_balance data)) EffectiveBalanceLeafMismatch
    (ensure (field_leaves ! 5 = u64_to_chunk (activation_epoch data)) ActivationEpochLeafMismatch
    (ensure (field_leaves ! 6 = u64_to_chunk (exit_epoch data)) ExitEpochLeafMismatch
    (Inr ()))))))"

definition verify_field_leaves ::
  "zisk \<Rightarrow> validator_data \<Rightarrow> bytes32 list \<Rightarrow> bytes32 list \<Rightarrow> ssz_panic + unit" where
  "verify_field_leaves Z data field_leaves pubkey_chunks =
     (let computed_pubkey_leaf = sha256_pair Z (pubkey_chunks ! 0) (pubkey_chunks ! 1) in
     ensure (field_leaves ! 0 = computed_pubkey_leaf) PubkeyLeafMismatch
    (ensure (take 32 (pubkey_chunks ! 0) = take 32 (vd_pubkey data)) PubkeyChunk0Mismatch
    (ensure (take 16 (pubkey_chunks ! 1) = take 16 (drop 32 (vd_pubkey data))) PubkeyChunk1Mismatch
    (ensure (drop 16 (pubkey_chunks ! 1) = replicate 16 0) PubkeyPaddingNotZero
    (ensure (field_leaves ! 2 = u64_to_chunk (effective_balance data)) EffectiveBalanceLeafMismatch
    (ensure (field_leaves ! 5 = u64_to_chunk (activation_epoch data)) ActivationEpochLeafMismatch
    (ensure (field_leaves ! 6 = u64_to_chunk (exit_epoch data)) ExitEpochLeafMismatch
    (Inr ()))))))))"

section \<open>Lemmas\<close>

interpretation chunk_codec: fixed_codec u64_to_chunk "\<lambda>c. u64_from_le_bytes (take 8 c)" 32 "\<lambda>_. True"
  by unfold_locales (simp_all add: u64_to_chunk_def)

lemma u64_to_chunk_eq_iff [simp]: "u64_to_chunk a = u64_to_chunk b \<longleftrightarrow> a = b"
  by (simp add: chunk_codec.enc_eq_iff)

lemma length_u64_to_chunk [simp]: "length (u64_to_chunk a) = 32"
  by (simp add: u64_to_chunk_def)

lemma shared_sha256_pair_eq:
  "shared_sha256_pair Z a b c d = (sha256_pair Z a b, sha256_pair Z c d)"
  by (simp add: shared_sha256_pair_def Let_def)

lemma validator_hash_tree_root_pair_eq:
  "validator_hash_tree_root_pair Z old new =
     (validator_hash_tree_root Z old, validator_hash_tree_root Z new)"
  by (simp add: validator_hash_tree_root_pair_def validator_hash_tree_root_def
      shared_sha256_pair_eq Let_def)

lemma verify_field_leaves_split:
  "verify_field_leaves Z data leaves chunks = Inr () \<longleftrightarrow>
     leaves ! 0 = sha256_pair Z (chunks ! 0) (chunks ! 1) \<and>
     verify_field_leaves_no_pubkey_hash data leaves chunks = Inr ()"
  by (simp add: verify_field_leaves_def verify_field_leaves_no_pubkey_hash_def Let_def)

lemma verify_field_leavesD:
  assumes "verify_field_leaves_no_pubkey_hash v leaves chunks = Inr ()"
  shows "take 32 (chunks ! 0) = take 32 (vd_pubkey v)"
    and "take 16 (chunks ! 1) = take 16 (drop 32 (vd_pubkey v))"
    and "leaves ! 2 = u64_to_chunk (effective_balance v)"
    and "leaves ! 5 = u64_to_chunk (activation_epoch v)"
    and "leaves ! 6 = u64_to_chunk (exit_epoch v)"
  using assms unfolding verify_field_leaves_no_pubkey_hash_def ensure_Inr by - (elim conjE, assumption)+

text \<open>One set of leaves and chunks opens one validator.\<close>

lemma field_leaves_determine:
  assumes "verify_field_leaves_no_pubkey_hash v leaves chunks = Inr ()"
    and "verify_field_leaves_no_pubkey_hash w leaves chunks = Inr ()"
    and "length (vd_pubkey v) = 48" "length (vd_pubkey w) = 48"
  shows "v = w"
proof -
  have key: "vd_pubkey x = take 32 (vd_pubkey x) @ take 16 (drop 32 (vd_pubkey x))"
    if "length (vd_pubkey x) = 48" for x
    by (rule trans [OF append_take_drop_id [of 32, symmetric]]) (simp add: that)
  have "vd_pubkey v = take 32 (chunks ! 0) @ take 16 (chunks ! 1)"
    unfolding verify_field_leavesD(1,2) [OF assms(1)] by (rule key [OF assms(3)])
  also have "\<dots> = vd_pubkey w"
    unfolding verify_field_leavesD(1,2) [OF assms(2)] by (rule key [OF assms(4), symmetric])
  finally have "vd_pubkey v = vd_pubkey w" .
  moreover have "effective_balance v = effective_balance w"
    "activation_epoch v = activation_epoch w" "exit_epoch v = exit_epoch w"
    using verify_field_leavesD(3-5) [OF assms(1)] verify_field_leavesD(3-5) [OF assms(2)]
    by (metis u64_to_chunk_eq_iff)+
  ultimately show ?thesis by simp
qed

text \<open>The chunks are the key, padded.\<close>

lemma field_chunks_key:
  assumes "verify_field_leaves_no_pubkey_hash v leaves chunks = Inr ()"
    and "length (chunks ! 0) = 32" "length (chunks ! 1) = 32"
  shows "chunks ! 0 = take 32 (vd_pubkey v)"
    and "chunks ! 1 = take 16 (drop 32 (vd_pubkey v)) @ replicate 16 0"
proof -
  have pad: "drop 16 (chunks ! 1) = replicate 16 0"
    using assms(1) unfolding verify_field_leaves_no_pubkey_hash_def ensure_Inr by blast
  show "chunks ! 0 = take 32 (vd_pubkey v)" using verify_field_leavesD(1) [OF assms(1)] assms(2) by simp
  show "chunks ! 1 = take 16 (drop 32 (vd_pubkey v)) @ replicate 16 0"
    using verify_field_leavesD(2) [OF assms(1)] pad append_take_drop_id [of 16 "chunks ! 1"] by simp
qed

lemma state_root_from_history_Inr:
  "state_root_from_history Z field slot entry siblings = Inr r \<longleftrightarrow>
     length siblings = 19 \<and>
     r = compute_ssz_merkle_root Z entry (field * 8192 + slot mod 8192) siblings"
  by (auto simp: state_root_from_history_def HISTORY_PROOF_DEPTH_def SLOTS_PER_HISTORICAL_ROOT_def)

end
