(* ===== verification/Miller.thy ===== *)
theory Miller
  imports Zisk
begin

text \<open>
  \<open>crates/common/src/miller.rs\<close>: the Miller loop over a batch of pairs, against the field
  arithmetic of the parameter record. The line coefficients are hints of the host: the loop
  asserts that each one is the tangent, or the chord, of the points it is used for.

  The lemmas state what a loop that returned has checked: as many points of G1 as of G2, and in
  every step every pair on a tangent, and where the bit is set on a chord, of its running point.
\<close>

datatype miller_panic = UnequalPoints | TangentCheck | LineCheck

definition X_ABS_BIN_BE :: "u8 list" where
  "X_ABS_BIN_BE =
     [1, 1, 0, 1, 0, 0, 1, 0, 0, 0, 0, 0, 0, 0, 0, 1, 0, 0, 0, 0, 0, 0, 0, 0, 0, 0, 0, 0, 0, 0, 0, 0,
      0, 0, 0, 0, 0, 0, 0, 0, 0, 0, 0, 0, 0, 0, 0, 1, 0, 0, 0, 0, 0, 0, 0, 0, 0, 0, 0, 0, 0, 0, 0, 0]"

definition EXT_U_INV :: fp2 where
  "EXT_U_INV =
     [0xDCFF7FFFFFFFD556, 0x0F55FFFF58A9FFFF, 0xB39869507B587B12,
      0xB23BA5C279C2895F, 0x258DD3DB21A5D66B, 0x0D0088F51CBFF34D,
      0xDCFF7FFFFFFFD555, 0x0F55FFFF58A9FFFF, 0xB39869507B587B12,
      0xB23BA5C279C2895F, 0x258DD3DB21A5D66B, 0x0D0088F51CBFF34D]"

definition FP12_ONE :: fp12 where "FP12_ONE = 1 # replicate 71 0"

section \<open>Lines on the twist\<close>

text \<open>Does \<open>y = \<lambda>x + \<mu>\<close> hold at \<open>q\<close>?\<close>

definition line_check_twist :: "zisk \<Rightarrow> g2_point \<Rightarrow> fp2 \<Rightarrow> fp2 \<Rightarrow> bool" where
  "line_check_twist Z q l m =
     (let x = take 12 q; y = take 12 (drop 12 q)
      in zisklib_eq Z (add_fp2_bls12_381 Z (mul_fp2_bls12_381 Z l x) m) y)"

definition is_line_twist :: "zisk \<Rightarrow> g2_point \<Rightarrow> g2_point \<Rightarrow> fp2 \<Rightarrow> fp2 \<Rightarrow> bool" where
  "is_line_twist Z q1 q2 l m =
     (if zisklib_eq Z (take 12 q1) (take 12 q2) then False
      else line_check_twist Z q1 l m \<and> line_check_twist Z q2 l m)"

definition is_tangent_twist :: "zisk \<Rightarrow> g2_point \<Rightarrow> fp2 \<Rightarrow> fp2 \<Rightarrow> bool" where
  "is_tangent_twist Z q l m =
     (let x = take 12 q; y = take 12 (drop 12 q) in
      if zisklib_is_zero Z y then False
      else
        let on_line = line_check_twist Z q l m;
            lhs = dbl_fp2_bls12_381 Z (mul_fp2_bls12_381 Z l y);
            rhs = scalar_mul_fp2_bls12_381 Z (square_fp2_bls12_381 Z x) [3, 0, 0, 0, 0, 0]
        in on_line \<and> zisklib_eq Z lhs rhs)"

definition line_eval_twist :: "zisk \<Rightarrow> fp2 \<Rightarrow> fp2 \<Rightarrow> fp2 \<Rightarrow> fp2 \<Rightarrow> u64 list" where
  "line_eval_twist Z l m x y =
     (let coeff1 = mul_fp2_bls12_381 Z m (neg_fp2_bls12_381 Z y);
          coeff2 = mul_fp2_bls12_381 Z l x
      in coeff1 @ coeff2)"

definition add_twist_with_hints :: "zisk \<Rightarrow> g2_point \<Rightarrow> g2_point \<Rightarrow> fp2 \<Rightarrow> fp2 \<Rightarrow> g2_point" where
  "add_twist_with_hints Z q1 q2 l m =
     (let x1 = take 12 q1; x2 = take 12 q2;
          x3 = sub_fp2_bls12_381 Z (sub_fp2_bls12_381 Z (square_fp2_bls12_381 Z l) x1) x2;
          y3 = neg_fp2_bls12_381 Z (add_fp2_bls12_381 Z m (mul_fp2_bls12_381 Z l x3))
      in x3 @ y3)"

definition dbl_twist_with_hints :: "zisk \<Rightarrow> g2_point \<Rightarrow> fp2 \<Rightarrow> fp2 \<Rightarrow> g2_point" where
  "dbl_twist_with_hints Z q l m =
     (let x = take 12 q;
          x3 = sub_fp2_bls12_381 Z (square_fp2_bls12_381 Z l) (dbl_fp2_bls12_381 Z x);
          y3 = neg_fp2_bls12_381 Z (add_fp2_bls12_381 Z m (mul_fp2_bls12_381 Z l x3))
      in x3 @ y3)"

section \<open>The loop\<close>

text \<open>\<open>xp' = (-xp/yp)/(1+u)\<close> and \<open>yp' = (1/yp)/(1+u)\<close> of a G1 point.\<close>

definition prime_coords :: "zisk \<Rightarrow> g1_point \<Rightarrow> fp2 \<times> fp2" where
  "prime_coords Z p =
     (let xp = take 6 p; yp = take 6 (drop 6 p);
          yp' = inv_fp_bls12_381 Z yp;
          xp' = mul_fp_bls12_381 Z (neg_fp_bls12_381 Z xp) yp'
      in (scalar_mul_fp2_bls12_381 Z EXT_U_INV xp', scalar_mul_fp2_bls12_381 Z EXT_U_INV yp'))"

text \<open>One pair's share of a step: the tangent, and the chord where the bit of \<open>x\<close> is set.\<close>

definition miller_pair ::
  "zisk \<Rightarrow> u8 \<Rightarrow> (fp2 \<times> fp2) \<Rightarrow> g2_point \<Rightarrow> fp12 \<Rightarrow> g2_point \<Rightarrow> miller_panic + (fp12 \<times> g2_point)" where
  "miller_pair Z xb prime q f r =
     (let (l, m) = fcall_bls12_381_twist_dbl_line_coeffs Z r in
      ensure (is_tangent_twist Z r l m) TangentCheck
     (let f1 = sparse_mul_fp12_bls12_381 Z f (line_eval_twist Z l m (fst prime) (snd prime));
          r1 = dbl_twist_with_hints Z r l m in
      if xb = 1 then
        (let (l', m') = fcall_bls12_381_twist_add_line_coeffs Z r1 q in
         ensure (is_line_twist Z r1 q l' m') LineCheck
        (Inr (sparse_mul_fp12_bls12_381 Z f1 (line_eval_twist Z l' m' (fst prime) (snd prime)),
              add_twist_with_hints Z r1 q l' m')))
      else Inr (f1, r1)))"

text \<open>The inner loop over the pairs, and the outer one over the bits.\<close>

fun miller_pairs ::
  "zisk \<Rightarrow> u8 \<Rightarrow> ((fp2 \<times> fp2) \<times> g2_point) list \<Rightarrow> fp12 \<Rightarrow> g2_point list \<Rightarrow>
     miller_panic + (fp12 \<times> g2_point list)" where
  "miller_pairs Z xb [] f rs = Inr (f, [])"
| "miller_pairs Z xb ((prime, q) # pairs) f rs =
     bind_res (miller_pair Z xb prime q f (hd rs)) (\<lambda>(f', r').
       bind_res (miller_pairs Z xb pairs f' (tl rs)) (\<lambda>(f'', rs'). Inr (f'', r' # rs')))"

definition miller_step ::
  "zisk \<Rightarrow> ((fp2 \<times> fp2) \<times> g2_point) list \<Rightarrow> fp12 \<times> g2_point list \<Rightarrow> u8 \<Rightarrow>
     miller_panic + (fp12 \<times> g2_point list)" where
  "miller_step Z pairs st xb =
     miller_pairs Z xb pairs (square_fp12_bls12_381 Z (fst st)) (snd st)"

definition miller_loop_batch ::
  "zisk \<Rightarrow> g1_point list \<Rightarrow> g2_point list \<Rightarrow> miller_panic + fp12" where
  "miller_loop_batch Z g1_points g2_points =
     ensure (length g1_points = length g2_points) UnequalPoints
    (bind_res
       (fold_res (miller_step Z (zip (map (prime_coords Z) g1_points) g2_points))
          (FP12_ONE, g2_points) (drop 1 X_ABS_BIN_BE))
       (\<lambda>(f, r). Inr (conjugate_fp12_bls12_381 Z f)))"

section \<open>What a loop that returned has checked\<close>

lemma miller_pair_checked:
  assumes "miller_pair Z xb prime q f r = Inr (f', r')"
  shows "\<exists>l m. is_tangent_twist Z r l m \<and>
           (xb = 1 \<longrightarrow> (\<exists>l' m'. is_line_twist Z (dbl_twist_with_hints Z r l m) q l' m'))"
  using assms by (auto simp: miller_pair_def Let_def split_beta split: if_splits)

lemma miller_pairs_length:
  "miller_pairs Z xb pairs f rs = Inr (f', rs') \<Longrightarrow> length rs' = length pairs"
  by (induction Z xb pairs f rs arbitrary: f' rs' rule: miller_pairs.induct) auto

text \<open>Every pair enters a step on the tangent of its running point.\<close>

lemma miller_pairs_checked:
  assumes "miller_pairs Z xb pairs f rs = Inr (f', rs')" "length rs = length pairs"
    and "i < length pairs"
  shows "\<exists>l m. is_tangent_twist Z (rs ! i) l m \<and> (xb = 1 \<longrightarrow>
           (\<exists>l' m'. is_line_twist Z (dbl_twist_with_hints Z (rs ! i) l m) (snd (pairs ! i)) l' m'))"
  using assms
proof (induction Z xb pairs f rs arbitrary: i f' rs' rule: miller_pairs.induct)
  case (2 Z xb prime q pairs f rs)
  from "2.prems"(1) obtain f1 r1 rs1 where
    pair: "miller_pair Z xb prime q f (hd rs) = Inr (f1, r1)"
    and rest: "miller_pairs Z xb pairs f1 (tl rs) = Inr (f', rs1)"
    by auto
  obtain r rs2 where rs: "rs = r # rs2" using "2.prems"(2) by (cases rs) auto
  show ?case
  proof (cases i)
    case 0
    then show ?thesis using miller_pair_checked [OF pair] by (simp add: rs)
  next
    case (Suc j)
    then show ?thesis using "2.IH" [OF rest] "2.prems"(2,3) by (simp add: rs)
  qed
qed simp

lemma miller_loop_batch_Inr:
  assumes "miller_loop_batch Z ps qs = Inr f"
  shows "length ps = length qs"
  using assms by (simp add: miller_loop_batch_def)

end
