(* ===== verification/Bls.thy ===== *)
theory Bls
  imports Ssz Miller
begin

text \<open>
  \<open>crates/common/src/bls.rs\<close>: signing roots and domains, the running sum of public keys, the
  Miller-loop half of a batch verification (\<open>miller_accumulator\<close>) and the final exponentiation.

  The lemmas: against any abelian group in which the curve precompile adds points with different
  x-coordinates and \<open>neg_bls12_381\<close> negates, \<open>PointSum\<close> computes the group's sum
  (\<open>point_sum_group\<close>), so a committee aggregate minus the keys subtracted from it is the key of the
  rest. An accumulator that was returned is the Miller loop over one pair per distinct signing root
  and the pair of the signature sum, with every signature decompressed and the sum on the subgroup.
\<close>

definition ETH_BLS_DST :: bytes where
  "ETH_BLS_DST =
     [66, 76, 83, 95, 83, 73, 71, 95, 66, 76, 83, 49, 50, 51, 56, 49, 71, 50, 95, 88, 77, 68, 58,
      83, 72, 65, 45, 50, 53, 54, 95, 83, 83, 87, 85, 95, 82, 79, 95, 80, 79, 80, 95]"

definition DOMAIN_BEACON_ATTESTER :: bytes where "DOMAIN_BEACON_ATTESTER = [1, 0, 0, 0]"

definition G1_GENERATOR :: g1_point where
  "G1_GENERATOR =
     [0xFB3AF00ADB22C6BB, 0x6C55E83FF97A1AEF, 0xA14E3A3F171BAC58,
      0xC3688C4F9774B905, 0x2695638C4FA9AC0F, 0x17F1D3A73197D794,
      0x0CAA232946C5E7E1, 0xD03CC744A2888AE4, 0x00DB18CB2C04B3ED,
      0xFCF5E095D5D00AF6, 0xA09E30ED741D8AE4, 0x08B3F481E3AAA0F1]"

definition G2_IDENTITY :: g2_point where "G2_IDENTITY = replicate 24 0"
definition G1_IDENTITY :: g1_point where "G1_IDENTITY = replicate 12 0"

definition compute_signing_root :: "zisk \<Rightarrow> bytes32 \<Rightarrow> bytes32 \<Rightarrow> bytes32" where
  "compute_signing_root Z data_root domain = sha256_pair Z data_root domain"

definition compute_domain :: "zisk \<Rightarrow> bytes \<Rightarrow> bytes \<Rightarrow> bytes32 \<Rightarrow> bytes32" where
  "compute_domain Z domain_type fork_version genesis_validators_root =
     (let version_chunk = fork_version @ replicate 28 0;
          fork_data_root = sha256_pair Z version_chunk genesis_validators_root
      in domain_type @ take 28 fork_data_root)"

section \<open>The running sum of public keys\<close>

type_synonym point_sum = "g1_point option"

definition point_sum_add :: "zisk \<Rightarrow> point_sum \<Rightarrow> g1_point \<Rightarrow> point_sum option" where
  "point_sum_add Z s point =
     (case s of
        None \<Rightarrow> Some (Some point)
      | Some current \<Rightarrow>
          if take 6 current = take 6 point then None
          else Some (Some (syscall_bls12_381_curve_add Z current point)))"

definition point_sum_sub :: "zisk \<Rightarrow> point_sum \<Rightarrow> g1_point \<Rightarrow> point_sum option" where
  "point_sum_sub Z s point = point_sum_add Z s (neg_bls12_381 Z point)"

fun point_sum_adds :: "zisk \<Rightarrow> point_sum \<Rightarrow> g1_point list \<Rightarrow> point_sum option" where
  "point_sum_adds Z s [] = Some s"
| "point_sum_adds Z s (p # ps) =
     (case point_sum_add Z s p of None \<Rightarrow> None | Some s' \<Rightarrow> point_sum_adds Z s' ps)"

definition aggregate_points :: "zisk \<Rightarrow> g1_point list \<Rightarrow> g1_point option" where
  "aggregate_points Z points =
     (case point_sum_adds Z None points of None \<Rightarrow> None | Some s \<Rightarrow> s)"

definition decompress_pubkey :: "zisk \<Rightarrow> bytes \<Rightarrow> g1_point option" where
  "decompress_pubkey Z compressed =
     (case decompress_bls12_381 Z compressed of
        None \<Rightarrow> None
      | Some (point, is_infinity) \<Rightarrow> if is_infinity then None else Some point)"

section \<open>The pairing, in its two halves\<close>

record signed_message =
  sm_pubkeys :: "g1_point list"
  sm_signing_root :: bytes32
  sm_signatures :: "bytes list"

definition fp12_mul :: "zisk \<Rightarrow> fp12 \<Rightarrow> fp12 \<Rightarrow> fp12" where
  "fp12_mul Z a b = mul_fp12_bls12_381 Z a b"

definition final_exp_is_one :: "zisk \<Rightarrow> fp12 \<Rightarrow> bool" where
  "final_exp_is_one Z f = zisklib_is_one Z (final_exp_bls12_381 Z f)"

fun add_signatures :: "zisk \<Rightarrow> g2_point \<Rightarrow> bytes list \<Rightarrow> g2_point option" where
  "add_signatures Z acc [] = Some acc"
| "add_signatures Z acc (s # ss) =
     (case decompress_twist_bls12_381 Z s of
        None \<Rightarrow> None
      | Some (point, is_infinity) \<Rightarrow>
          if is_infinity then None
          else (case add_complete_safe_twist_bls12_381 Z acc point of
                  None \<Rightarrow> None
                | Some acc' \<Rightarrow> add_signatures Z acc' ss))"

text \<open>The groups, one per distinct root in the order of their first message.\<close>

fun merge_group ::
  "zisk \<Rightarrow> (bytes32 \<times> g1_point) list \<Rightarrow> bytes32 \<Rightarrow> g1_point \<Rightarrow> (bytes32 \<times> g1_point) list option" where
  "merge_group Z [] root agg = Some [(root, agg)]"
| "merge_group Z ((r, a) # groups) root agg =
     (if r = root then
        (case add_complete_safe_bls12_381 Z a agg of
           None \<Rightarrow> None
         | Some merged \<Rightarrow> Some ((r, merged) # groups))
      else (case merge_group Z groups root agg of
              None \<Rightarrow> None
            | Some groups' \<Rightarrow> Some ((r, a) # groups')))"

fun fold_messages ::
  "zisk \<Rightarrow> (bytes32 \<times> g1_point) list \<Rightarrow> g2_point \<Rightarrow> signed_message list \<Rightarrow>
     ((bytes32 \<times> g1_point) list \<times> g2_point) option" where
  "fold_messages Z groups sigsum [] = Some (groups, sigsum)"
| "fold_messages Z groups sigsum (m # ms) =
     (if sm_pubkeys m = [] then None else
      case aggregate_points Z (sm_pubkeys m) of
        None \<Rightarrow> None
      | Some agg \<Rightarrow>
          if sm_signatures m = [] then None else
          (case add_signatures Z sigsum (sm_signatures m) of
             None \<Rightarrow> None
           | Some sigsum' \<Rightarrow>
               (case merge_group Z groups (sm_signing_root m) agg of
                  None \<Rightarrow> None
                | Some groups' \<Rightarrow> fold_messages Z groups' sigsum' ms)))"

definition miller_accumulator :: "zisk \<Rightarrow> signed_message list \<Rightarrow> miller_panic + fp12 option" where
  "miller_accumulator Z messages =
     (if messages = [] then Inr None else
      case fold_messages Z [] G2_IDENTITY messages of
        None \<Rightarrow> Inr None
      | Some (groups, signature_sum) \<Rightarrow>
          if signature_sum = G2_IDENTITY \<or> \<not> is_on_subgroup_twist_bls12_381 Z signature_sum
          then Inr None
          else if list_ex (\<lambda>(root, agg). agg = G1_IDENTITY) groups then Inr None
          else
            let g1_points = map (\<lambda>(root, agg). neg_bls12_381 Z agg) groups @ [G1_GENERATOR];
                g2_points = map (\<lambda>(root, agg). hash_to_curve_g2_bls12_381 Z root ETH_BLS_DST) groups
                              @ [signature_sum]
            in bind_res (miller_loop_batch Z g1_points g2_points) (\<lambda>f. Inr (Some f)))"

definition verify_attestation_batch :: "zisk \<Rightarrow> signed_message list \<Rightarrow> miller_panic + bool" where
  "verify_attestation_batch Z messages =
     bind_res (miller_accumulator Z messages) (\<lambda>res.
       case res of Some f \<Rightarrow> Inr (final_exp_is_one Z f) | None \<Rightarrow> Inr False)"

definition fast_aggregate_verify ::
  "zisk \<Rightarrow> g1_point list \<Rightarrow> bytes32 \<Rightarrow> bytes \<Rightarrow> miller_panic + bool" where
  "fast_aggregate_verify Z pubkeys signing_root sig =
     verify_attestation_batch Z
       [\<lparr>sm_pubkeys = pubkeys, sm_signing_root = signing_root, sm_signatures = [sig]\<rparr>]"

datatype signature_panic = BlsPanic miller_panic | VerificationFailed

definition verify_aggregate_signature ::
  "zisk \<Rightarrow> g1_point list \<Rightarrow> bytes32 \<Rightarrow> bytes \<Rightarrow> signature_panic + unit" where
  "verify_aggregate_signature Z pubkeys signing_root sig =
     bind_res (map_err BlsPanic (fast_aggregate_verify Z pubkeys signing_root sig)) (\<lambda>ok.
     ensure ok VerificationFailed (Inr ()))"

section \<open>The sum is the group's\<close>

text \<open>
  What is relied on of the curve: the points of \<open>C\<close> (on the curve, canonical, none of them the
  identity) stand for elements of an abelian group. The precompile adds two of them whose
  x-coordinates differ, and they are then neither equal nor opposite, so the sum is again in \<open>C\<close>.
  Negation negates. The complete addition takes and returns the identity too, whose limbs are zero.
\<close>

definition curve_law ::
  "zisk \<Rightarrow> g1_point set \<Rightarrow> (g1_point \<Rightarrow> 'g::ab_group_add) \<Rightarrow> bool" where
  "curve_law Z C pt \<longleftrightarrow>
     G1_IDENTITY \<notin> C \<and> pt G1_IDENTITY = 0 \<and>
     (\<forall>p\<in>C. \<forall>q\<in>C. take 6 p \<noteq> take 6 q \<longrightarrow>
        syscall_bls12_381_curve_add Z p q \<in> C \<and> pt (syscall_bls12_381_curve_add Z p q) = pt p + pt q) \<and>
     (\<forall>p\<in>C. neg_bls12_381 Z p \<in> C \<and> pt (neg_bls12_381 Z p) = - pt p) \<and>
     (\<forall>p\<in>insert G1_IDENTITY C. \<forall>q\<in>C. \<forall>r. add_complete_safe_bls12_381 Z p q = Some r \<longrightarrow>
        r \<in> insert G1_IDENTITY C \<and> pt r = pt p + pt q)"

definition sum_pt :: "(g1_point \<Rightarrow> 'g::ab_group_add) \<Rightarrow> point_sum \<Rightarrow> 'g" where
  "sum_pt pt s = (case s of None \<Rightarrow> 0 | Some p \<Rightarrow> pt p)"

lemma sum_pt_simps [simp]: "sum_pt pt None = 0" "sum_pt pt (Some p) = pt p"
  by (simp_all add: sum_pt_def)

lemma curve_law_add:
  "curve_law Z C pt \<Longrightarrow> p \<in> C \<Longrightarrow> q \<in> C \<Longrightarrow> take 6 p \<noteq> take 6 q \<Longrightarrow>
     syscall_bls12_381_curve_add Z p q \<in> C \<and> pt (syscall_bls12_381_curve_add Z p q) = pt p + pt q"
  unfolding curve_law_def by blast

lemma curve_law_complete:
  "curve_law Z C pt \<Longrightarrow> p \<in> insert G1_IDENTITY C \<Longrightarrow> q \<in> C \<Longrightarrow>
     add_complete_safe_bls12_381 Z p q = Some r \<Longrightarrow> r \<in> insert G1_IDENTITY C \<and> pt r = pt p + pt q"
  unfolding curve_law_def by blast

lemma curve_law_neg:
  "curve_law Z C pt \<Longrightarrow> p \<in> C \<Longrightarrow> neg_bls12_381 Z p \<in> C \<and> pt (neg_bls12_381 Z p) = - pt p"
  unfolding curve_law_def by blast

lemma point_sum_add_group:
  assumes "curve_law Z C pt" "set_option s \<subseteq> C" "p \<in> C" "point_sum_add Z s p = Some s'"
  shows "set_option s' \<subseteq> C \<and> sum_pt pt s' = sum_pt pt s + pt p"
  using assms(2-) curve_law_add [OF assms(1)]
  by (auto simp: point_sum_add_def split: option.splits if_splits)

lemma point_sum_sub_group:
  assumes "curve_law Z C pt" "set_option s \<subseteq> C" "p \<in> C" "point_sum_sub Z s p = Some s'"
  shows "set_option s' \<subseteq> C \<and> sum_pt pt s' = sum_pt pt s - pt p"
  using point_sum_add_group [OF assms(1,2), of "neg_bls12_381 Z p" s'] curve_law_neg [OF assms(1,3)]
    assms(4) by (simp add: point_sum_sub_def)

lemma point_sum_adds_group:
  assumes "curve_law Z C pt" "set_option s \<subseteq> C" "set ps \<subseteq> C" "point_sum_adds Z s ps = Some s'"
  shows "set_option s' \<subseteq> C \<and> sum_pt pt s' = sum_pt pt s + sum_list (map pt ps)"
  using assms(2-)
proof (induction ps arbitrary: s)
  case (Cons p ps)
  obtain s1 where s1: "point_sum_add Z s p = Some s1" "point_sum_adds Z s1 ps = Some s'"
    using Cons.prems(3) by (auto split: option.splits)
  have "set_option s1 \<subseteq> C \<and> sum_pt pt s1 = sum_pt pt s + pt p"
    using point_sum_add_group [OF assms(1) Cons.prems(1) _ s1(1)] Cons.prems(2) by simp
  then show ?case using Cons.IH [of s1] Cons.prems(2) s1(2) by (simp add: add.assoc)
qed simp

lemma aggregate_points_group:
  assumes "curve_law Z C pt" "set ps \<subseteq> C" "aggregate_points Z ps = Some a"
  shows "a \<in> C \<and> pt a = sum_list (map pt ps)"
  using point_sum_adds_group [OF assms(1) _ assms(2), of None "Some a"] assms(3)
  by (simp add: aggregate_points_def split: option.splits)

section \<open>The groups\<close>

definition group_value ::
  "(g1_point \<Rightarrow> 'g::ab_group_add) \<Rightarrow> (bytes32 \<times> g1_point) list \<Rightarrow> bytes32 \<Rightarrow> 'g" where
  "group_value pt groups r = sum_pt pt (map_of groups r)"

lemma merge_group_roots:
  "merge_group Z groups root agg = Some groups' \<Longrightarrow>
     map fst groups' =
       (if root \<in> fst ` set groups then map fst groups else map fst groups @ [root])"
  by (induction Z groups root agg arbitrary: groups' rule: merge_group.induct)
    (auto split: option.splits if_splits)

lemma merge_group_value:
  assumes "curve_law Z C pt" "snd ` set groups \<subseteq> insert G1_IDENTITY C" "agg \<in> C"
    and "merge_group Z groups root agg = Some groups'"
  shows "snd ` set groups' \<subseteq> insert G1_IDENTITY C \<and>
    group_value pt groups' r = group_value pt groups r + (if r = root then pt agg else 0)"
  using assms(2-)
proof (induction groups arbitrary: groups')
  case (Cons g groups)
  obtain rg a where g: "g = (rg, a)" by (cases g)
  show ?case
  proof (cases "rg = root")
    case True
    then obtain merged where m: "add_complete_safe_bls12_381 Z a agg = Some merged"
      "groups' = (rg, merged) # groups"
      using Cons.prems(3) by (auto simp: g split: option.splits)
    have "merged \<in> insert G1_IDENTITY C \<and> pt merged = pt a + pt agg"
      by (rule curve_law_complete [OF assms(1) _ Cons.prems(2) m(1)]) (use Cons.prems(1) g in simp)
    then show ?thesis using Cons.prems(1) True by (simp add: g m(2) group_value_def)
  next
    case False
    then obtain gs where "merge_group Z groups root agg = Some gs" "groups' = (rg, a) # gs"
      using Cons.prems(3) by (auto simp: g split: option.splits)
    then show ?thesis using Cons.IH [of gs] Cons.prems(1,2) False by (auto simp: g group_value_def)
  qed
qed (auto simp: group_value_def)

text \<open>The keys that stand behind a root, over all the messages that sign it.\<close>

definition signer_value ::
  "(g1_point \<Rightarrow> 'g::ab_group_add) \<Rightarrow> signed_message list \<Rightarrow> bytes32 \<Rightarrow> 'g" where
  "signer_value pt ms r =
     (\<Sum>m\<leftarrow>filter (\<lambda>m. sm_signing_root m = r) ms. sum_list (map pt (sm_pubkeys m)))"

lemma fold_messages_step:
  assumes "fold_messages Z groups sigsum (m # ms) = Some (groups', sigsum')"
  obtains agg sig1 groups1 where
    "sm_pubkeys m \<noteq> []" "sm_signatures m \<noteq> []"
    "aggregate_points Z (sm_pubkeys m) = Some agg"
    "add_signatures Z sigsum (sm_signatures m) = Some sig1"
    "merge_group Z groups (sm_signing_root m) agg = Some groups1"
    "fold_messages Z groups1 sig1 ms = Some (groups', sigsum')"
  using assms by (auto split: if_splits option.splits)

lemma fold_messages_roots:
  assumes "fold_messages Z groups sigsum ms = Some (groups', sigsum')" "distinct (map fst groups)"
  shows "distinct (map fst groups') \<and>
    fst ` set groups' = fst ` set groups \<union> sm_signing_root ` set ms"
  using assms
proof (induction ms arbitrary: groups sigsum)
  case (Cons m ms)
  from Cons.prems(1) obtain agg sig1 groups1 where
    merge: "merge_group Z groups (sm_signing_root m) agg = Some groups1"
    and rest: "fold_messages Z groups1 sig1 ms = Some (groups', sigsum')"
    by (rule fold_messages_step)
  have roots: "map fst groups1 = (if sm_signing_root m \<in> fst ` set groups then map fst groups
      else map fst groups @ [sm_signing_root m])"
    by (rule merge_group_roots [OF merge])
  then have "distinct (map fst groups1)" using Cons.prems(2) by (auto split: if_splits)
  moreover have "fst ` set groups1 = insert (sm_signing_root m) (fst ` set groups)"
    using arg_cong [OF roots, of set] by (auto split: if_splits)
  ultimately show ?case using Cons.IH [OF rest] by auto
qed simp

lemma fold_messages_value:
  assumes "curve_law Z C pt" "fold_messages Z groups sigsum ms = Some (groups', sigsum')"
    and "snd ` set groups \<subseteq> insert G1_IDENTITY C" "\<forall>m\<in>set ms. set (sm_pubkeys m) \<subseteq> C"
  shows "snd ` set groups' \<subseteq> insert G1_IDENTITY C \<and>
    group_value pt groups' r = group_value pt groups r + signer_value pt ms r"
  using assms(2-)
proof (induction ms arbitrary: groups sigsum)
  case (Cons m ms)
  from Cons.prems(1) obtain agg sig1 groups1 where
    agg: "aggregate_points Z (sm_pubkeys m) = Some agg"
    and merge: "merge_group Z groups (sm_signing_root m) agg = Some groups1"
    and rest: "fold_messages Z groups1 sig1 ms = Some (groups', sigsum')"
    by (rule fold_messages_step)
  have a: "agg \<in> C" "pt agg = sum_list (map pt (sm_pubkeys m))"
    using aggregate_points_group [OF assms(1) _ agg] Cons.prems(3) by simp_all
  from merge_group_value [OF assms(1) Cons.prems(2) a(1) merge]
  have g: "snd ` set groups1 \<subseteq> insert G1_IDENTITY C" "group_value pt groups1 r = group_value pt groups r +
      (if r = sm_signing_root m then pt agg else 0)" by blast+
  show ?case using Cons.IH [OF rest g(1)] Cons.prems(3) g(2) a(2)
    by (auto simp: signer_value_def algebra_simps)
qed (simp add: signer_value_def)

lemma fold_messages_nonempty:
  "fold_messages Z groups sigsum ms = Some res \<Longrightarrow>
     \<forall>m\<in>set ms. sm_pubkeys m \<noteq> [] \<and> sm_signatures m \<noteq> []"
  by (induction ms arbitrary: groups sigsum) (auto split: if_splits option.splits)

text \<open>What an accumulator that was returned covers.\<close>

lemma miller_accumulator_Some:
  assumes "miller_accumulator Z ms = Inr (Some f)"
  obtains groups sigsum where
    "ms \<noteq> []" "fold_messages Z [] G2_IDENTITY ms = Some (groups, sigsum)"
    "sigsum \<noteq> G2_IDENTITY" "is_on_subgroup_twist_bls12_381 Z sigsum"
    "\<forall>g\<in>set groups. snd g \<noteq> G1_IDENTITY"
    "miller_loop_batch Z (map (\<lambda>g. neg_bls12_381 Z (snd g)) groups @ [G1_GENERATOR])
       (map (\<lambda>g. hash_to_curve_g2_bls12_381 Z (fst g) ETH_BLS_DST) groups @ [sigsum]) = Inr f"
proof -
  obtain groups sigsum where
    "ms \<noteq> []" "fold_messages Z [] G2_IDENTITY ms = Some (groups, sigsum)"
    "sigsum \<noteq> G2_IDENTITY" "is_on_subgroup_twist_bls12_381 Z sigsum"
    "\<forall>g\<in>set groups. snd g \<noteq> G1_IDENTITY"
    "miller_loop_batch Z (map (\<lambda>g. neg_bls12_381 Z (snd g)) groups @ [G1_GENERATOR])
       (map (\<lambda>g. hash_to_curve_g2_bls12_381 Z (fst g) ETH_BLS_DST) groups @ [sigsum]) = Inr f"
    using assms
    by (auto simp: miller_accumulator_def Let_def list_ex_iff case_prod_unfold
        split: if_splits option.splits)
  then show thesis by (rule that)
qed

lemma verify_attestation_batch_True:
  "verify_attestation_batch Z ms = Inr True \<longleftrightarrow>
     (\<exists>f. miller_accumulator Z ms = Inr (Some f) \<and> final_exp_is_one Z f)"
  by (auto simp: verify_attestation_batch_def split: option.splits)

end
