(* ===== verification/Counting.thy ===== *)
theory Counting
  imports Prelude
begin

text \<open>
  What stands behind a balance: a choice of one group per slot of the mask, each admissible for its
  slot (\<open>Q\<close>), whose weights together cover the balance.
\<close>

definition supported :: "(nat \<Rightarrow> 'v \<Rightarrow> bool) \<Rightarrow> ('v \<Rightarrow> nat) \<Rightarrow> nat \<Rightarrow> nat set \<Rightarrow> bool" where
  "supported Q weight b T \<longleftrightarrow> (\<exists>F. b \<le> (\<Sum>t\<in>T. weight (F t)) \<and> (\<forall>t\<in>T. Q t (F t)))"

lemma supported_empty [simp, intro]: "supported Q weight 0 {}"
  by (simp add: supported_def)

lemma supported_union:
  assumes "supported Q weight a A" "supported Q weight b B" "A \<inter> B = {}" "finite A" "finite B"
  shows "supported Q weight (a + b) (A \<union> B)"
proof -
  obtain F G where F: "a \<le> (\<Sum>t\<in>A. weight (F t))" "\<forall>t\<in>A. Q t (F t)"
    and G: "b \<le> (\<Sum>t\<in>B. weight (G t))" "\<forall>t\<in>B. Q t (G t)"
    using assms(1,2) by (auto simp: supported_def)
  let ?H = "\<lambda>t. if t \<in> A then F t else G t"
  have "(\<Sum>t\<in>B. weight (?H t)) = (\<Sum>t\<in>B. weight (G t))"
    by (rule sum.cong) (use assms(3) in auto)
  then have "(\<Sum>t\<in>A \<union> B. weight (?H t)) = (\<Sum>t\<in>A. weight (F t)) + (\<Sum>t\<in>B. weight (G t))"
    using assms(3-5) by (simp add: sum.union_disjoint)
  then show ?thesis
    unfolding supported_def using F G by (intro exI [of _ ?H]) auto
qed

lemma supported_bounded:
  assumes "supported Q weight b T" "\<And>t V. Q t V \<Longrightarrow> weight V \<le> W t" "finite T"
  shows "b \<le> sum W T"
proof -
  obtain F where F: "b \<le> (\<Sum>t\<in>T. weight (F t))" "\<forall>t\<in>T. Q t (F t)"
    using assms(1) by (auto simp: supported_def)
  have "(\<Sum>t\<in>T. weight (F t)) \<le> sum W T" by (rule sum_mono) (use F(2) assms(2) in auto)
  with F(1) show ?thesis by simp
qed

lemma supported_mono:
  "supported Q weight b T \<Longrightarrow> (\<And>t V. Q t V \<Longrightarrow> Q' t V) \<Longrightarrow> supported Q' weight b T"
  by (auto simp: supported_def)

text \<open>
  Counting slots once. The justification chain, the running aggregate and the final proof of an
  epoch all fold child outputs into a balance and a slot mask, refusing a child whose mask meets
  the mask so far. The locale \<open>counting_fold\<close> is what they share: from the effect of one step on
  the mask and the balance it proves, once, that the children's slots are disjoint, that the mask
  is their union, and that a bound of every child's balance by the weights of its slots carries
  over to the whole fold.
\<close>

definition slot_set :: "u64 \<Rightarrow> nat set" where
  "slot_set m = {i. bit m i}"

lemma slot_set_0 [simp]: "slot_set 0 = {}"
  by (simp add: slot_set_def)

lemma slot_set_OR [simp]: "slot_set (m OR n) = slot_set m \<union> slot_set n"
  by (auto simp: slot_set_def bit_or_iff)

lemma slot_set_AND [simp]: "slot_set (m AND n) = slot_set m \<inter> slot_set n"
  by (auto simp: slot_set_def bit_and_iff)

lemma slot_set_subset: "slot_set m \<subseteq> {..<64}"
  by (auto simp: slot_set_def dest: bit_imp_le_length)

lemma finite_slot_set [simp]: "finite (slot_set m)"
  using slot_set_subset finite_subset by blast

lemma slot_set_inj: "slot_set m = slot_set n \<Longrightarrow> m = n"
  by (rule bit_word_eqI) (auto simp: slot_set_def)

lemma AND_eq_0_iff: "m AND n = 0 \<longleftrightarrow> slot_set m \<inter> slot_set n = {}"
proof
  assume "m AND n = 0"
  then show "slot_set m \<inter> slot_set n = {}" by (metis slot_set_AND slot_set_0)
next
  assume "slot_set m \<inter> slot_set n = {}"
  then show "m AND n = 0" by (intro slot_set_inj) simp
qed

locale counting_fold =
  fixes step :: "'s \<Rightarrow> 'o \<Rightarrow> 'e + 's"
    and mask_of :: "'s \<Rightarrow> u64" and balance_of :: "'s \<Rightarrow> u64"
    and child_mask :: "'o \<Rightarrow> u64" and child_balance :: "'o \<Rightarrow> u64"
  assumes step_counts: "step s x = Inr s' \<Longrightarrow>
      mask_of s AND child_mask x = 0 \<and> mask_of s' = mask_of s OR child_mask x \<and>
      balance_of s' = balance_of s + child_balance x"
begin

lemma fold_counts:
  assumes "fold_res step s xs = Inr s'"
  shows "slot_set (mask_of s') = slot_set (mask_of s) \<union> (\<Union>x\<in>set xs. slot_set (child_mask x))"
    and "balance_of s' = balance_of s + sum_list (map child_balance xs)"
    and "\<forall>x\<in>set xs. slot_set (mask_of s) \<inter> slot_set (child_mask x) = {}"
    and "sorted_wrt (\<lambda>x y. slot_set (child_mask x) \<inter> slot_set (child_mask y) = {}) xs"
proof -
  have "slot_set (mask_of s') = slot_set (mask_of s) \<union> (\<Union>x\<in>set xs. slot_set (child_mask x)) \<and>
      balance_of s' = balance_of s + sum_list (map child_balance xs) \<and>
      (\<forall>x\<in>set xs. slot_set (mask_of s) \<inter> slot_set (child_mask x) = {}) \<and>
      sorted_wrt (\<lambda>x y. slot_set (child_mask x) \<inter> slot_set (child_mask y) = {}) xs"
    using assms
  proof (induction xs arbitrary: s)
    case (Cons x xs)
    then obtain s1 where s1: "step s x = Inr s1" "fold_res step s1 xs = Inr s'" by auto
    from step_counts [OF s1(1)] Cons.IH [OF s1(2)] show ?case
      by (auto simp: AND_eq_0_iff add.assoc)
  qed simp
  then show "slot_set (mask_of s') = slot_set (mask_of s) \<union> (\<Union>x\<in>set xs. slot_set (child_mask x))"
    and "balance_of s' = balance_of s + sum_list (map child_balance xs)"
    and "\<forall>x\<in>set xs. slot_set (mask_of s) \<inter> slot_set (child_mask x) = {}"
    and "sorted_wrt (\<lambda>x y. slot_set (child_mask x) \<inter> slot_set (child_mask y) = {}) xs"
    by blast+
qed

text \<open>
  Weights on the slots: where every child's balance is within the weights of its slots, so is the
  whole. The weights of all slots fitting 64 bits is what keeps the additions from wrapping.
\<close>

lemma fold_bounded:
  assumes "fold_res step s xs = Inr s'"
    and "unat (balance_of s) \<le> sum W (slot_set (mask_of s))"
    and "\<forall>x\<in>set xs. unat (child_balance x) \<le> sum W (slot_set (child_mask x))"
    and "sum W {..<64} < 2 ^ 64"
  shows "unat (balance_of s') \<le> sum W (slot_set (mask_of s'))"
proof (rule fold_res_invariant [OF assms(1),
      where I = "\<lambda>s. unat (balance_of s) \<le> sum W (slot_set (mask_of s))"])
  fix x s s'
  assume x: "x \<in> set xs" and inv: "unat (balance_of s) \<le> sum W (slot_set (mask_of s))"
    and step: "step s x = Inr s'"
  have disj: "slot_set (mask_of s) \<inter> slot_set (child_mask x) = {}"
    and eqs: "mask_of s' = mask_of s OR child_mask x" "balance_of s' = balance_of s + child_balance x"
    using step_counts [OF step] by (simp_all add: AND_eq_0_iff)
  have W: "sum W (slot_set (mask_of s')) = sum W (slot_set (mask_of s)) + sum W (slot_set (child_mask x))"
    by (simp add: eqs sum.union_disjoint disj)
  have "sum W (slot_set (mask_of s')) \<le> sum W {..<64}"
    by (rule sum_mono2) (auto dest: subsetD [OF slot_set_subset])
  then have "unat (balance_of s) + unat (child_balance x) < 2 ^ 64"
    using inv assms(3) x assms(4) W by fastforce
  then have "unat (balance_of s') = unat (balance_of s) + unat (child_balance x)"
    by (simp add: eqs unat_word_ariths)
  then show "unat (balance_of s') \<le> sum W (slot_set (mask_of s'))"
    using inv assms(3) x W by fastforce
qed (rule assms(2))

text \<open>The groups behind the children stand behind the whole: a slot is counted for one child only.\<close>

lemma fold_supported:
  assumes "fold_res step s xs = Inr s'"
    and "supported Q weight (unat (balance_of s)) (slot_set (mask_of s))"
    and "\<forall>x\<in>set xs. supported Q weight (unat (child_balance x)) (slot_set (child_mask x))"
    and "\<And>t V. Q t V \<Longrightarrow> weight V \<le> W t" "sum W {..<64} < 2 ^ 64"
  shows "supported Q weight (unat (balance_of s')) (slot_set (mask_of s'))"
proof (rule fold_res_invariant [OF assms(1),
      where I = "\<lambda>s. supported Q weight (unat (balance_of s)) (slot_set (mask_of s))"])
  fix x s s'
  assume x: "x \<in> set xs" and inv: "supported Q weight (unat (balance_of s)) (slot_set (mask_of s))"
    and step: "step s x = Inr s'"
  have disj: "slot_set (mask_of s) \<inter> slot_set (child_mask x) = {}"
    and eqs: "mask_of s' = mask_of s OR child_mask x" "balance_of s' = balance_of s + child_balance x"
    using step_counts [OF step] by (simp_all add: AND_eq_0_iff)
  have both: "supported Q weight (unat (balance_of s) + unat (child_balance x)) (slot_set (mask_of s'))"
    using supported_union [OF inv bspec [OF assms(3) x] disj] by (simp add: eqs)
  have "sum W (slot_set (mask_of s')) \<le> sum W {..<64}"
    by (rule sum_mono2) (auto dest: subsetD [OF slot_set_subset])
  then have "unat (balance_of s) + unat (child_balance x) < 2 ^ 64"
    using supported_bounded [OF both assms(4)] assms(5) by fastforce
  then have "unat (balance_of s') = unat (balance_of s) + unat (child_balance x)"
    by (simp add: eqs unat_word_ariths)
  then show "supported Q weight (unat (balance_of s')) (slot_set (mask_of s'))"
    using both by simp
qed (rule assms(2))

end

end
