(* ===== verification/Aggregation.thy ===== *)
theory Aggregation
  imports Ssz Miller Bls Counting
begin

text \<open>
  \<open>crates/aggregation-guest/src/lib.rs\<close>: extend an epoch's running state with finished group proofs.
  A fold that opens the epoch verifies the epoch diff and the committee proof (\<open>epoch_link\<close>,
  \<open>committee_link\<close>); a later one verifies its predecessor and inherits both. Every group is bound to
  the fold's accumulator, committee partition and checkpoint, and its Miller accumulator to the
  commitment it published (\<open>verify_group\<close>).

  The step of the fold is an instance of \<open>counting_fold\<close>. The lemmas state what an accepted fold has
  checked of its predecessor and its groups, and that on the zkVM target every child proof was
  accepted by the recursive verifier under the key of its program.
\<close>

datatype aggregate_panic =
    NoGroups
  | GroupsProofsLength
  | GroupsMillersLength
  | MissingEpochDiff
  | EpochDiffRejected
  | DiffDoesNotEndHere
  | DiffEndsAtOtherEpoch
  | DiffStartsAtOtherEpoch
  | MissingCommittee
  | CommitteeRejected
  | CommitteeOtherAccumulator
  | CommitteeOtherEpoch
  | PreviousRejected
  | PreviousOtherProgram
  | PreviousOtherAccumulator
  | PreviousOtherEpoch
  | PreviousOtherCheckpoint
  | PreviousMillerMismatch
  | GroupRejected
  | GroupOtherAccumulator
  | GroupOtherCommittee
  | GroupOtherSourceEpoch
  | GroupOtherSourceRoot
  | GroupOtherTargetEpoch
  | GroupOtherTargetRoot
  | GroupMillerMismatch
  | SlotAlreadyCounted
  | AggregateRecursion recursion_panic

definition GROUP_PROGRAM_VK :: program_vk where
  "GROUP_PROGRAM_VK =
     [1565486971772027417, 2285946323872289419, 12956213914023253875, 66241587489961970]"

definition EPOCH_DIFF_PROGRAM_VK :: program_vk where
  "EPOCH_DIFF_PROGRAM_VK =
     [7172082185357583530, 3170201351238257296, 8344270706284046120, 17984450014720544533]"

definition COMMITTEE_PROGRAM_VK :: program_vk where
  "COMMITTEE_PROGRAM_VK =
     [4550671581005412342, 823033030672811239, 1310771570228369056, 12577876604990165545]"

definition epoch_link ::
  "zisk \<Rightarrow> epoch_diff_output option \<Rightarrow> proof_words \<Rightarrow> digest \<Rightarrow> u64 \<Rightarrow> aggregate_panic + digest \<times> bytes32"
  where
  "epoch_link Z diff proof accumulator_commitment target_epoch =
     bind_res (expect diff MissingEpochDiff) (\<lambda>d.
     bind_res (map_err AggregateRecursion
       (baked_child Z proof EPOCH_DIFF_PROGRAM_VK (ed_public_bytes d))) (\<lambda>ok.
     ensure ok EpochDiffRejected
    (ensure (ed_accumulator_commitment d = accumulator_commitment) DiffDoesNotEndHere
    (ensure (ed_epoch_2 d = target_epoch) DiffEndsAtOtherEpoch
    (ensure (ed_epoch_1 d + 1 = target_epoch) DiffStartsAtOtherEpoch
    (Inr (ed_prev_accumulator_commitment d, ed_state_root_1 d)))))))"

definition committee_link ::
  "zisk \<Rightarrow> committee_output option \<Rightarrow> proof_words \<Rightarrow> digest \<Rightarrow> u64 \<Rightarrow> aggregate_panic + digest" where
  "committee_link Z com proof accumulator_commitment target_epoch =
     bind_res (expect com MissingCommittee) (\<lambda>c.
     bind_res (map_err AggregateRecursion
       (baked_child Z proof COMMITTEE_PROGRAM_VK (co_public_bytes c))) (\<lambda>ok.
     ensure ok CommitteeRejected
    (ensure (co_accumulator_commitment c = accumulator_commitment) CommitteeOtherAccumulator
    (ensure (co_target_epoch c = target_epoch) CommitteeOtherEpoch
    (Inr (co_committee_root c))))))"

text \<open>What a group is checked against: the fold's accumulator, partition and checkpoint.\<close>

record fold_params =
  fp_accumulator_commitment :: digest
  fp_committee_root :: digest
  fp_source_epoch :: u64
  fp_source_root :: bytes32
  fp_target_epoch :: u64
  fp_target_root :: bytes32

definition verify_group ::
  "zisk \<Rightarrow> fold_params \<Rightarrow> group_proof_output \<Rightarrow> proof_words \<Rightarrow> fp12 \<Rightarrow> aggregate_panic + unit" where
  "verify_group Z P grp proof miller =
     bind_res (map_err AggregateRecursion
       (baked_child Z proof GROUP_PROGRAM_VK (gp_public_bytes grp))) (\<lambda>ok.
     ensure ok GroupRejected
    (ensure (gp_accumulator_commitment grp = fp_accumulator_commitment P) GroupOtherAccumulator
    (ensure (gp_committee_root grp = fp_committee_root P) GroupOtherCommittee
    (ensure (gp_source_epoch grp = fp_source_epoch P) GroupOtherSourceEpoch
    (ensure (gp_source_root grp = fp_source_root P) GroupOtherSourceRoot
    (ensure (gp_target_epoch grp = fp_target_epoch P) GroupOtherTargetEpoch
    (ensure (gp_target_root grp = fp_target_root P) GroupOtherTargetRoot
    (ensure (commit_fp12 Z miller = gp_miller_commitment grp) GroupMillerMismatch
    (Inr ())))))))))"

record fold_state =
  fs_balance :: u64
  fs_mask :: u64
  fs_miller :: fp12

definition fold_open :: fold_state where
  "fold_open = \<lparr>fs_balance = 0, fs_mask = 0, fs_miller = FP12_ONE\<rparr>"

definition group_step ::
  "zisk \<Rightarrow> fold_params \<Rightarrow> fold_state \<Rightarrow> group_proof_output \<times> proof_words \<times> fp12 \<Rightarrow>
     aggregate_panic + fold_state" where
  "group_step Z P st g =
     (case g of (grp, proof, miller) \<Rightarrow>
       bind_res (verify_group Z P grp proof miller) (\<lambda>_.
       ensure (fs_mask st AND gp_slots_mask grp = 0) SlotAlreadyCounted
      (Inr \<lparr>fs_balance = fs_balance st + gp_attesting_balance grp,
            fs_mask = fs_mask st OR gp_slots_mask grp,
            fs_miller = fp12_mul Z (fs_miller st) miller\<rparr>)))"

definition previous_aggregate ::
  "zisk \<Rightarrow> aggregate_witness \<Rightarrow> bytes32 \<Rightarrow> aggregate_output \<Rightarrow> aggregate_panic + fold_state" where
  "previous_aggregate Z w cp_digest prev =
     bind_res (map_err AggregateRecursion
       (carried_child Z (aw_previous_proof w) (aggregate_program_vk w) (ao_public_bytes prev))) (\<lambda>ok.
     ensure ok PreviousRejected
    (ensure (ao_program_vk prev = aggregate_program_vk w) PreviousOtherProgram
    (ensure (ao_accumulator_commitment prev = aw_accumulator_commitment w) PreviousOtherAccumulator
    (ensure (ao_target_epoch prev = aw_target_epoch w) PreviousOtherEpoch
    (ensure (ao_checkpoint_digest prev = cp_digest) PreviousOtherCheckpoint
    (ensure (commit_fp12 Z (aw_previous_miller w) = ao_miller_commitment prev) PreviousMillerMismatch
    (Inr \<lparr>fs_balance = ao_attesting_balance prev, fs_mask = ao_slots_mask prev,
          fs_miller = aw_previous_miller w\<rparr>)))))))"

definition aggregate_links ::
  "zisk \<Rightarrow> aggregate_witness \<Rightarrow> aggregate_panic + digest \<times> bytes32 \<times> digest" where
  "aggregate_links Z w =
     (case aw_previous w of
        Some prev \<Rightarrow> Inr (ao_previous_accumulator_commitment prev, ao_anchor_state_root prev,
                        ao_committee_root prev)
      | None \<Rightarrow>
          bind_res (epoch_link Z (aw_epoch_diff w) (aw_epoch_diff_proof w)
            (aw_accumulator_commitment w) (aw_target_epoch w)) (\<lambda>(prev_commitment, anchor).
          bind_res (committee_link Z (aw_committee w) (aw_committee_proof w)
            (aw_accumulator_commitment w) (aw_target_epoch w)) (\<lambda>committee_root.
          Inr (prev_commitment, anchor, committee_root))))"

definition verify_aggregate :: "zisk \<Rightarrow> aggregate_witness \<Rightarrow> aggregate_panic + aggregate_output" where
  "verify_aggregate Z w =
     ensure (aw_groups w \<noteq> []) NoGroups
    (ensure (length (aw_groups w) = length (aw_group_proofs w)) GroupsProofsLength
    (ensure (length (aw_groups w) = length (aw_group_millers w)) GroupsMillersLength
    (let cp_digest = checkpoint_digest Z (aw_source_epoch w) (aw_source_root w)
           (aw_target_epoch w) (aw_target_root w) in
     bind_res (aggregate_links Z w) (\<lambda>(prev_commitment, anchor, committee_root).
     bind_res (case aw_previous w of
                 Some prev \<Rightarrow> previous_aggregate Z w cp_digest prev
               | None \<Rightarrow> Inr fold_open) (\<lambda>start.
     let P = \<lparr>fp_accumulator_commitment = aw_accumulator_commitment w,
              fp_committee_root = committee_root,
              fp_source_epoch = aw_source_epoch w, fp_source_root = aw_source_root w,
              fp_target_epoch = aw_target_epoch w, fp_target_root = aw_target_root w\<rparr> in
     bind_res (fold_res (group_step Z P) start
         (zip (aw_groups w) (zip (aw_group_proofs w) (aw_group_millers w)))) (\<lambda>st.
     Inr \<lparr>ao_accumulator_commitment = aw_accumulator_commitment w,
          ao_committee_root = committee_root,
          ao_previous_accumulator_commitment = prev_commitment,
          ao_anchor_state_root = anchor,
          ao_target_epoch = aw_target_epoch w,
          ao_checkpoint_digest = cp_digest,
          ao_attesting_balance = fs_balance st,
          ao_slots_mask = fs_mask st,
          ao_miller_commitment = commit_fp12 Z (fs_miller st),
          ao_program_vk = aggregate_program_vk w\<rparr>))))))"

section \<open>The fold counts every slot once\<close>

interpretation group_fold: counting_fold "group_step Z P" fs_mask fs_balance
  "\<lambda>g. gp_slots_mask (fst g)" "\<lambda>g. gp_attesting_balance (fst g)"
  for Z :: zisk and P :: fold_params
  by unfold_locales (auto simp: group_step_def split: prod.splits)

text \<open>The pairing product is the fold of the groups' accumulators, in their order.\<close>

lemma group_steps_miller:
  "fold_res (group_step Z P) st gs = Inr st' \<Longrightarrow>
     fs_miller st' = foldl (fp12_mul Z) (fs_miller st) (map (\<lambda>g. snd (snd g)) gs)"
proof (induction gs arbitrary: st)
  case (Cons g gs)
  then obtain st1 where "group_step Z P st g = Inr st1" "fold_res (group_step Z P) st1 gs = Inr st'"
    by auto
  moreover from this(1) have "fs_miller st1 = fp12_mul Z (fs_miller st) (snd (snd g))"
    by (auto simp: group_step_def split: prod.splits)
  ultimately show ?case using Cons.IH by simp
qed simp

lemma group_steps_verified:
  assumes "fold_res (group_step Z P) st gs = Inr st'" "(grp, proof, miller) \<in> set gs"
  shows "verify_group Z P grp proof miller = Inr ()"
  using assms
proof (induction gs arbitrary: st)
  case (Cons g gs)
  then obtain st1 where st1: "group_step Z P st g = Inr st1" "fold_res (group_step Z P) st1 gs = Inr st'"
    by auto
  then show ?case using Cons by (auto simp: group_step_def split: prod.splits)
qed simp

section \<open>What the zkVM has verified\<close>

lemma verify_group_Inr:
  "verify_group Z P grp proof miller = Inr () \<longleftrightarrow>
     baked_child Z proof GROUP_PROGRAM_VK (gp_public_bytes grp) = Inr True \<and>
     gp_accumulator_commitment grp = fp_accumulator_commitment P \<and>
     gp_committee_root grp = fp_committee_root P \<and>
     gp_source_epoch grp = fp_source_epoch P \<and> gp_source_root grp = fp_source_root P \<and>
     gp_target_epoch grp = fp_target_epoch P \<and> gp_target_root grp = fp_target_root P \<and>
     commit_fp12 Z miller = gp_miller_commitment grp"
  by (auto simp: verify_group_def)

text \<open>A fold over groups with their proofs and accumulators, in terms of the three lists.\<close>

lemma group_lists_fold:
  assumes fold: "fold_res (group_step Z P) start (zip gs (zip pfs ms)) = Inr st"
    and len: "length gs = length pfs" "length gs = length ms"
  shows "fs_balance st = fs_balance start + sum_list (map gp_attesting_balance gs)"
    and "slot_set (fs_mask st) = slot_set (fs_mask start) \<union> (\<Union>g\<in>set gs. slot_set (gp_slots_mask g))"
    and "\<forall>g\<in>set gs. slot_set (fs_mask start) \<inter> slot_set (gp_slots_mask g) = {}"
    and "sorted_wrt (\<lambda>g h. slot_set (gp_slots_mask g) \<inter> slot_set (gp_slots_mask h) = {}) gs"
    and "fs_miller st = foldl (fp12_mul Z) (fs_miller start) ms"
    and "i < length gs \<Longrightarrow> verify_group Z P (gs ! i) (pfs ! i) (ms ! i) = Inr ()"
proof -
  let ?zs = "zip gs (zip pfs ms)"
  have fst: "map fst ?zs = gs" using len by simp
  have millers: "map (\<lambda>g. snd (snd g)) ?zs = ms"
    using len by (intro nth_equalityI) auto
  have child: "map (\<lambda>g. h (fst g)) ?zs = map h gs" for h :: "group_proof_output \<Rightarrow> 'x"
    using arg_cong [OF fst, of "map h"] by (simp add: comp_def)
  have sets: "fst ` set ?zs = set gs" using arg_cong [OF fst, of set] by (simp only: list.set_map)
  note counts = group_fold.fold_counts [OF fold]
  show "fs_balance st = fs_balance start + sum_list (map gp_attesting_balance gs)"
    using counts(2) child [of gp_attesting_balance] by simp
  show "slot_set (fs_mask st) = slot_set (fs_mask start) \<union> (\<Union>g\<in>set gs. slot_set (gp_slots_mask g))"
    using counts(1) unfolding sets [symmetric] by simp
  show "\<forall>g\<in>set gs. slot_set (fs_mask start) \<inter> slot_set (gp_slots_mask g) = {}"
    using counts(3) unfolding sets [symmetric] by blast
  have "sorted_wrt (\<lambda>g h. slot_set (gp_slots_mask g) \<inter> slot_set (gp_slots_mask h) = {}) (map fst ?zs)"
    using counts(4) by (simp add: sorted_wrt_map)
  then show "sorted_wrt (\<lambda>g h. slot_set (gp_slots_mask g) \<inter> slot_set (gp_slots_mask h) = {}) gs"
    unfolding fst .
  show "fs_miller st = foldl (fp12_mul Z) (fs_miller start) ms"
    using group_steps_miller [OF fold] unfolding millers .
  show "verify_group Z P (gs ! i) (pfs ! i) (ms ! i) = Inr ()" if "i < length gs"
  proof (rule group_steps_verified [OF fold])
    have "?zs ! i \<in> set ?zs" by (rule nth_mem) (use that len in simp)
    then show "(gs ! i, pfs ! i, ms ! i) \<in> set ?zs" using that len by simp
  qed
qed

lemma epoch_link_Inr:
  "epoch_link Z diff proof acc epoch = Inr (p, s) \<longleftrightarrow>
     (\<exists>d. diff = Some d \<and> baked_child Z proof EPOCH_DIFF_PROGRAM_VK (ed_public_bytes d) = Inr True \<and>
        ed_accumulator_commitment d = acc \<and> ed_epoch_2 d = epoch \<and> ed_epoch_1 d + 1 = epoch \<and>
        p = ed_prev_accumulator_commitment d \<and> s = ed_state_root_1 d)"
  by (auto simp: epoch_link_def)

lemma committee_link_Inr:
  "committee_link Z com proof acc epoch = Inr r \<longleftrightarrow>
     (\<exists>c. com = Some c \<and> baked_child Z proof COMMITTEE_PROGRAM_VK (co_public_bytes c) = Inr True \<and>
        co_accumulator_commitment c = acc \<and> co_target_epoch c = epoch \<and> r = co_committee_root c)"
  by (auto simp: committee_link_def)

lemma verify_aggregate_Inr:
  assumes "verify_aggregate Z w = Inr out"
  obtains start P st where
    "case aw_previous w of
       Some prev \<Rightarrow> previous_aggregate Z w (ao_checkpoint_digest out) prev = Inr start
     | None \<Rightarrow> start = fold_open"
    "aggregate_links Z w =
       Inr (ao_previous_accumulator_commitment out, ao_anchor_state_root out, ao_committee_root out)"
    "P = \<lparr>fp_accumulator_commitment = aw_accumulator_commitment w,
        fp_committee_root = ao_committee_root out,
        fp_source_epoch = aw_source_epoch w, fp_source_root = aw_source_root w,
        fp_target_epoch = aw_target_epoch w, fp_target_root = aw_target_root w\<rparr>"
    "fold_res (group_step Z P) start
       (zip (aw_groups w) (zip (aw_group_proofs w) (aw_group_millers w))) = Inr st"
    "ao_attesting_balance out = fs_balance st" "ao_slots_mask out = fs_mask st"
    "ao_miller_commitment out = commit_fp12 Z (fs_miller st)"
    "ao_accumulator_commitment out = aw_accumulator_commitment w"
    "ao_target_epoch out = aw_target_epoch w" "ao_program_vk out = aggregate_program_vk w"
    "ao_checkpoint_digest out = checkpoint_digest Z (aw_source_epoch w) (aw_source_root w)
       (aw_target_epoch w) (aw_target_root w)"
    "aw_groups w \<noteq> []" "length (aw_groups w) = length (aw_group_proofs w)"
    "length (aw_groups w) = length (aw_group_millers w)"
proof (cases "aw_previous w")
  case None
  with assms show thesis
    by (auto simp: verify_aggregate_def Let_def intro!: that)
next
  case (Some prev)
  with assms show thesis
    by (auto simp: verify_aggregate_def Let_def intro!: that)
qed

end
