(* ===== verification/Justification.thy ===== *)
theory Justification
  imports Aggregation
begin

text \<open>
  \<open>crates/justification-guest/src/lib.rs\<close>: extend an epoch's running claim with finished slot proofs.
  A link verifies its predecessor, or opens the epoch on a committee proof; every slot proof it
  folds is bound to the link's accumulator, partition and checkpoint; whether two thirds of the
  active balance are behind the claim is computed and published.

  The step is an instance of \<open>counting_fold\<close>; the lemmas state what an accepted link has checked.
\<close>

datatype justification_panic =
    NoSlotProofs
  | SlotProofsLength
  | JustCommitmentMismatch
  | CommitteeLink aggregate_panic
  | PreviousLinkRejected
  | PreviousLinkOtherProgram
  | PreviousLinkOtherAccumulator
  | PreviousLinkOtherTargetEpoch
  | PreviousLinkOtherTargetRoot
  | PreviousLinkOtherSourceEpoch
  | PreviousLinkOtherSourceRoot
  | SlotProofRejected
  | SlotOtherAccumulator
  | SlotOtherCommittee
  | SlotOtherTargetEpoch
  | SlotOtherTargetRoot
  | SlotOtherSourceEpoch
  | SlotOtherSourceRoot
  | SlotCountedTwice
  | JustRecursion recursion_panic

definition SLOT_PROGRAM_VK :: program_vk where
  "SLOT_PROGRAM_VK =
     [11801805035756213316, 6649233382649588221, 16988928389271073279, 190818128282058430]"

text \<open>Two thirds, in 128 bits.\<close>

definition two_thirds :: "u64 \<Rightarrow> u64 \<Rightarrow> bool" where
  "two_thirds attesting active \<longleftrightarrow> (ucast attesting :: u128) * 3 \<ge> (ucast active :: u128) * 2"

definition previous_link ::
  "zisk \<Rightarrow> justification_witness \<Rightarrow> justification_output \<Rightarrow> justification_panic + u64 \<times> u64" where
  "previous_link Z w prev =
     bind_res (map_err JustRecursion
       (carried_child Z (jw_previous_proof w) (justification_program_vk w) (jo_public_bytes prev))) (\<lambda>ok.
     ensure ok PreviousLinkRejected
    (ensure (jo_program_vk prev = justification_program_vk w) PreviousLinkOtherProgram
    (ensure (jo_accumulator_commitment prev = jw_accumulator_commitment w) PreviousLinkOtherAccumulator
    (ensure (jo_target_epoch prev = jw_target_epoch w) PreviousLinkOtherTargetEpoch
    (ensure (jo_target_root prev = jw_target_root w) PreviousLinkOtherTargetRoot
    (ensure (jo_source_epoch prev = jw_source_epoch w) PreviousLinkOtherSourceEpoch
    (ensure (jo_source_root prev = jw_source_root w) PreviousLinkOtherSourceRoot
    (Inr (jo_attesting_balance prev, jo_slots_mask prev)))))))))"

definition verify_slot_child ::
  "zisk \<Rightarrow> fold_params \<Rightarrow> slot_proof_output \<Rightarrow> proof_words \<Rightarrow> justification_panic + unit" where
  "verify_slot_child Z P s proof =
     bind_res (map_err JustRecursion
       (baked_child Z proof SLOT_PROGRAM_VK (sp_public_bytes s))) (\<lambda>ok.
     ensure ok SlotProofRejected
    (ensure (sp_accumulator_commitment s = fp_accumulator_commitment P) SlotOtherAccumulator
    (ensure (sp_committee_root s = fp_committee_root P) SlotOtherCommittee
    (ensure (sp_target_epoch s = fp_target_epoch P) SlotOtherTargetEpoch
    (ensure (sp_target_root s = fp_target_root P) SlotOtherTargetRoot
    (ensure (sp_source_epoch s = fp_source_epoch P) SlotOtherSourceEpoch
    (ensure (sp_source_root s = fp_source_root P) SlotOtherSourceRoot
    (Inr ()))))))))"

definition slot_child_step ::
  "zisk \<Rightarrow> fold_params \<Rightarrow> u64 \<times> u64 \<Rightarrow> slot_proof_output \<times> proof_words \<Rightarrow>
     justification_panic + u64 \<times> u64" where
  "slot_child_step Z P st c =
     bind_res (verify_slot_child Z P (fst c) (snd c)) (\<lambda>_.
     ensure (snd st AND sp_slots_mask (fst c) = 0) SlotCountedTwice
    (Inr (fst st + sp_attesting_balance (fst c), snd st OR sp_slots_mask (fst c))))"

definition just_committee_root :: "zisk \<Rightarrow> justification_witness \<Rightarrow> justification_panic + digest" where
  "just_committee_root Z w =
     (case jw_previous w of
        Some prev \<Rightarrow> Inr (jo_committee_root prev)
      | None \<Rightarrow> map_err CommitteeLink
          (committee_link Z (jw_committee w) (jw_committee_proof w)
             (jw_accumulator_commitment w) (jw_target_epoch w)))"

definition verify_justification ::
  "zisk \<Rightarrow> justification_witness \<Rightarrow> justification_panic + justification_output" where
  "verify_justification Z w =
     ensure (slot_proof_outputs w \<noteq> []) NoSlotProofs
    (ensure (length (slot_proof_outputs w) = length (slot_proofs w)) SlotProofsLength
    (ensure (commitment Z (jw_acc_root w) (jw_total_active_balance w) = jw_accumulator_commitment w)
       JustCommitmentMismatch
    (bind_res (just_committee_root Z w) (\<lambda>committee_root.
     bind_res (case jw_previous w of Some prev \<Rightarrow> previous_link Z w prev | None \<Rightarrow> Inr (0, 0)) (\<lambda>start.
     let P = \<lparr>fp_accumulator_commitment = jw_accumulator_commitment w,
              fp_committee_root = committee_root,
              fp_source_epoch = jw_source_epoch w, fp_source_root = jw_source_root w,
              fp_target_epoch = jw_target_epoch w, fp_target_root = jw_target_root w\<rparr> in
     bind_res (fold_res (slot_child_step Z P) start (zip (slot_proof_outputs w) (slot_proofs w)))
       (\<lambda>(total_attesting_balance, slots_mask).
     Inr \<lparr>jo_accumulator_commitment = jw_accumulator_commitment w,
          jo_committee_root = committee_root,
          jo_source_epoch = jw_source_epoch w, jo_source_root = jw_source_root w,
          jo_target_epoch = jw_target_epoch w, jo_target_root = jw_target_root w,
          jo_attesting_balance = total_attesting_balance,
          jo_slots_mask = slots_mask,
          justified = two_thirds total_attesting_balance (jw_total_active_balance w),
          jo_program_vk = justification_program_vk w\<rparr>))))))"

section \<open>What a link has checked\<close>

interpretation slot_fold: counting_fold "slot_child_step Z P" snd fst
  "\<lambda>c. sp_slots_mask (fst c)" "\<lambda>c. sp_attesting_balance (fst c)"
  for Z :: zisk and P :: fold_params
  by unfold_locales (auto simp: slot_child_step_def)

text \<open>The gate divides exactly: the products fit 128 bits.\<close>

lemma two_thirds_nat: "two_thirds a t \<longleftrightarrow> 2 * unat t \<le> 3 * unat a"
proof -
  have bound: "unat x < 2 ^ 64" for x :: u64 using unsigned_less [of x] by simp
  have "unat ((ucast x :: u128) * n) = unat x * unat n" if "unat n \<le> 3" for x :: u64 and n :: u128
  proof -
    have "unat (ucast x :: u128) = unat x"
      using bound [of x] by (simp add: unsigned_ucast_eq take_bit_nat_eq_self)
    moreover have "unat x * unat n \<le> 2 ^ 64 * 3"
      using bound [of x] that by (intro mult_le_mono) simp_all
    then have "unat x * unat n < 2 ^ 128" by (rule le_less_trans) simp
    ultimately show ?thesis by (simp add: unat_word_ariths)
  qed
  from this [of 2 t] this [of 3 a] show ?thesis
    by (simp add: two_thirds_def word_le_nat_alt mult.commute)
qed

lemma previous_link_Inr:
  "previous_link Z w prev = Inr (b, m) \<longleftrightarrow>
     carried_child Z (jw_previous_proof w) (justification_program_vk w) (jo_public_bytes prev) = Inr True \<and>
     jo_program_vk prev = justification_program_vk w \<and>
     jo_accumulator_commitment prev = jw_accumulator_commitment w \<and>
     jo_target_epoch prev = jw_target_epoch w \<and> jo_target_root prev = jw_target_root w \<and>
     jo_source_epoch prev = jw_source_epoch w \<and> jo_source_root prev = jw_source_root w \<and>
     b = jo_attesting_balance prev \<and> m = jo_slots_mask prev"
  by (auto simp: previous_link_def)

lemma verify_slot_child_Inr:
  "verify_slot_child Z P s proof = Inr () \<longleftrightarrow>
     baked_child Z proof SLOT_PROGRAM_VK (sp_public_bytes s) = Inr True \<and>
     sp_accumulator_commitment s = fp_accumulator_commitment P \<and>
     sp_committee_root s = fp_committee_root P \<and>
     sp_target_epoch s = fp_target_epoch P \<and> sp_target_root s = fp_target_root P \<and>
     sp_source_epoch s = fp_source_epoch P \<and> sp_source_root s = fp_source_root P"
  by (auto simp: verify_slot_child_def)

lemma slot_child_steps_verified:
  assumes "fold_res (slot_child_step Z P) st cs = Inr st'" "(s, proof) \<in> set cs"
  shows "verify_slot_child Z P s proof = Inr ()"
  using assms
proof (induction cs arbitrary: st)
  case (Cons c cs)
  then obtain st1 where "slot_child_step Z P st c = Inr st1" "fold_res (slot_child_step Z P) st1 cs = Inr st'"
    by auto
  then show ?case using Cons by (auto simp: slot_child_step_def)
qed simp

lemma verify_justification_Inr:
  assumes "verify_justification Z w = Inr out"
  obtains start P where
    "case jw_previous w of Some prev \<Rightarrow> previous_link Z w prev = Inr start | None \<Rightarrow> start = (0, 0)"
    "just_committee_root Z w = Inr (jo_committee_root out)"
    "P = \<lparr>fp_accumulator_commitment = jw_accumulator_commitment w,
        fp_committee_root = jo_committee_root out,
        fp_source_epoch = jw_source_epoch w, fp_source_root = jw_source_root w,
        fp_target_epoch = jw_target_epoch w, fp_target_root = jw_target_root w\<rparr>"
    "fold_res (slot_child_step Z P) start (zip (slot_proof_outputs w) (slot_proofs w)) =
       Inr (jo_attesting_balance out, jo_slots_mask out)"
    "slot_proof_outputs w \<noteq> []" "length (slot_proof_outputs w) = length (slot_proofs w)"
    "commitment Z (jw_acc_root w) (jw_total_active_balance w) = jw_accumulator_commitment w"
    "jo_accumulator_commitment out = jw_accumulator_commitment w"
    "jo_source_epoch out = jw_source_epoch w" "jo_source_root out = jw_source_root w"
    "jo_target_epoch out = jw_target_epoch w" "jo_target_root out = jw_target_root w"
    "justified out = two_thirds (jo_attesting_balance out) (jw_total_active_balance w)"
    "jo_program_vk out = justification_program_vk w"
proof (cases "jw_previous w")
  case None
  with assms show thesis
    by (auto simp: verify_justification_def Let_def intro!: that)
next
  case (Some prev)
  with assms show thesis
    by (auto simp: verify_justification_def Let_def intro!: that)
qed

end
