(* ===== verification/Finalization.thy ===== *)
theory Finalization
  imports Justification
begin

text \<open>
  \<open>crates/finalization-guest/src/lib.rs\<close>: two consecutive justified checkpoints, linked by source and
  target, and the epoch diff that carries the accumulator of the first to that of the second, make
  a finalization; the finalized boundary is opened out of the second checkpoint's state.

  The lemmas state the link an accepted finalization establishes, and the hole in it: the loop over
  the child proofs zips them with the outputs without comparing the lengths, so a witness that
  carries no justification proofs passes with two unproven outputs.
\<close>

datatype finalization_panic =
    NotTwoJustifications
  | JustificationRejected
  | JustificationOtherProgram
  | NotASupermajority
  | EpochsNotConsecutive
  | JustifiedFromOtherEpoch
  | JustifiedFromOtherCheckpoint
  | FinalDiffRejected
  | DiffStartsElsewhere
  | DiffEndsElsewhere
  | DiffStartEpoch
  | DiffEndEpoch
  | FinalBoundary ssz_panic
  | FinalRecursion recursion_panic

definition JUSTIFICATION_PROGRAM_VK :: program_vk where
  "JUSTIFICATION_PROGRAM_VK =
     [18190389716866650475, 15570977105188299102, 10271774781051341667, 8543167455539231661]"

definition justification_child ::
  "zisk \<Rightarrow> unit \<Rightarrow> proof_words \<times> justification_output \<Rightarrow> finalization_panic + unit" where
  "justification_child Z u c =
     bind_res (map_err FinalRecursion
       (baked_child Z (fst c) JUSTIFICATION_PROGRAM_VK (jo_public_bytes (snd c)))) (\<lambda>ok.
     ensure ok JustificationRejected
    (ensure (jo_program_vk (snd c) = JUSTIFICATION_PROGRAM_VK) JustificationOtherProgram (Inr ())))"

definition verify_finalization_with_slots ::
  "zisk \<Rightarrow> finalization_witness \<Rightarrow> u64 \<Rightarrow> finalization_panic + finalization_output" where
  "verify_finalization_with_slots Z w per_epoch =
     ensure (length (justification_outputs w) = 2) NotTwoJustifications
    (let just_e = justification_outputs w ! 0; just_e1 = justification_outputs w ! 1;
         diff = fw_epoch_diff_output w in
     bind_res (fold_res (justification_child Z) ()
       (zip (justification_proofs w) (justification_outputs w))) (\<lambda>_.
     ensure (list_all justified (justification_outputs w)) NotASupermajority
    (ensure (jo_target_epoch just_e1 = jo_target_epoch just_e + 1) EpochsNotConsecutive
    (ensure (jo_source_epoch just_e1 = jo_target_epoch just_e) JustifiedFromOtherEpoch
    (ensure (jo_source_root just_e1 = jo_target_root just_e) JustifiedFromOtherCheckpoint
    (bind_res (map_err FinalRecursion
       (baked_child Z (fw_epoch_diff_proof w) EPOCH_DIFF_PROGRAM_VK (ed_public_bytes diff))) (\<lambda>ok.
     ensure ok FinalDiffRejected
    (ensure (ed_prev_accumulator_commitment diff = jo_accumulator_commitment just_e) DiffStartsElsewhere
    (ensure (ed_accumulator_commitment diff = jo_accumulator_commitment just_e1) DiffEndsElsewhere
    (ensure (ed_epoch_1 diff = jo_target_epoch just_e) DiffStartEpoch
    (ensure (ed_epoch_2 diff = jo_target_epoch just_e1) DiffEndEpoch
    (bind_res (map_err FinalBoundary
       (open_boundary Z (fw_boundary w) (jo_target_epoch just_e) (jo_target_root just_e)
          (jo_target_root just_e1) (ed_state_root_1 diff) per_epoch)) (\<lambda>_.
     Inr \<lparr>fo_accumulator_commitment = jo_accumulator_commitment just_e,
          fo_next_accumulator_commitment = jo_accumulator_commitment just_e1,
          fo_finalized_epoch = jo_target_epoch just_e,
          fo_finalized_root = jo_target_root just_e,
          fo_finalized_state_root = ed_state_root_1 diff\<rparr>)))))))))))))"

definition verify_finalization ::
  "zisk \<Rightarrow> finalization_witness \<Rightarrow> finalization_panic + finalization_output" where
  "verify_finalization Z w = verify_finalization_with_slots Z w SLOTS_PER_EPOCH"

section \<open>What an accepted finalization links\<close>

lemma justification_child_Inr:
  "justification_child Z u c = Inr v \<longleftrightarrow>
     baked_child Z (fst c) JUSTIFICATION_PROGRAM_VK (jo_public_bytes (snd c)) = Inr True \<and>
     jo_program_vk (snd c) = JUSTIFICATION_PROGRAM_VK"
  by (auto simp: justification_child_def)

lemma justification_children:
  "fold_res (justification_child Z) () cs = Inr () \<longleftrightarrow>
     (\<forall>(proof, out)\<in>set cs.
        baked_child Z proof JUSTIFICATION_PROGRAM_VK (jo_public_bytes out) = Inr True \<and>
        jo_program_vk out = JUSTIFICATION_PROGRAM_VK)"
proof (induction cs)
  case (Cons c cs)
  show ?case
    by (simp add: justification_child_Inr Cons split_beta)
qed simp

lemma two_elements: "length xs = 2 \<Longrightarrow> xs = [xs ! 0, xs ! 1]"
  by (auto simp: numeral_2_eq_2 length_Suc_conv)

lemma verify_finalization_Inr:
  assumes "verify_finalization_with_slots Z w n = Inr out"
  obtains je je1 diff where
    "justification_outputs w = [je, je1]" "justified je" "justified je1"
    "diff = fw_epoch_diff_output w"
    "fold_res (justification_child Z) () (zip (justification_proofs w) [je, je1]) = Inr ()"
    "jo_target_epoch je1 = jo_target_epoch je + 1"
    "jo_source_epoch je1 = jo_target_epoch je" "jo_source_root je1 = jo_target_root je"
    "baked_child Z (fw_epoch_diff_proof w) EPOCH_DIFF_PROGRAM_VK (ed_public_bytes diff) = Inr True"
    "ed_prev_accumulator_commitment diff = jo_accumulator_commitment je"
    "ed_accumulator_commitment diff = jo_accumulator_commitment je1"
    "ed_epoch_1 diff = jo_target_epoch je" "ed_epoch_2 diff = jo_target_epoch je1"
    "open_boundary Z (fw_boundary w) (jo_target_epoch je) (jo_target_root je) (jo_target_root je1)
       (ed_state_root_1 diff) n = Inr ()"
    "out = \<lparr>fo_accumulator_commitment = jo_accumulator_commitment je,
          fo_next_accumulator_commitment = jo_accumulator_commitment je1,
          fo_finalized_epoch = jo_target_epoch je, fo_finalized_root = jo_target_root je,
          fo_finalized_state_root = ed_state_root_1 diff\<rparr>"
proof -
  have "length (justification_outputs w) = 2"
    using assms by (simp add: verify_finalization_with_slots_def)
  from two_elements [OF this] obtain je je1 where o: "justification_outputs w = [je, je1]" by blast
  then show thesis
    using assms that by (auto simp: verify_finalization_with_slots_def Let_def)
qed

text \<open>What \<open>open_boundary\<close> pins: the header, the window and the two ring-buffer entries.\<close>

lemma open_boundary_Inr:
  "open_boundary Z a e root jroot sroot n = Inr () \<longleftrightarrow>
     (let h = justified_header a; s = e * n in
      block_header_root Z (bh_slot h) (bh_proposer_index h) (bh_parent_root h) (bh_state_root h)
        (bh_body_root h) = jroot \<and>
      s < bh_slot h \<and> bh_slot h - s \<le> SLOTS_PER_HISTORICAL_ROOT \<and>
      state_root_from_history Z BLOCK_ROOTS_FIELD s root (block_roots_siblings a) = Inr (bh_state_root h) \<and>
      state_root_from_history Z STATE_ROOTS_FIELD s sroot (state_roots_siblings a) = Inr (bh_state_root h))"
  by (auto simp: open_boundary_def Let_def)

end
