(* ===== verification/Committee.thy ===== *)
theory Committee
  imports Bls
begin

text \<open>
  \<open>crates/common/src/committee.rs\<close>: the per-slot committee aggregates. \<open>verify_committee\<close> reads the
  flat word array of \<open>committee_encode\<close>: a header of twelve words, fifteen words a member, four a
  multi-proof node. It sums every slot's keys and balances out of the leaves it opens, and
  publishes the root of the 32-slot tree of the sums (\<open>committee_tree_root\<close>).

  The lemmas: the array determines the witness; the tree's root is \<open>tree_root\<close> of the slots' leaves;
  slot by slot, the sums of an accepted witness are the sums over its members assigned there
  (\<open>member_steps_bucket\<close>), each member opened once, with the preimage the accumulator holds.
\<close>

datatype committee_panic =
    TooManySlots
  | ShorterThanHeader
  | CommitteeCommitmentMismatch
  | CountsMismatch
  | CapacityOverflow
  | SliceOutOfRange
  | NotWholeRecords
  | MembersNotIncreasing
  | SlotPastTree
  | CommitteeSharedX
  | CommitteeTreePanic merkle_panic
  | CommitteeAccRootMismatch

definition TREE_DEPTH :: nat where "TREE_DEPTH = 5"
definition MAX_SLOTS :: u64 where "MAX_SLOTS = push_bit TREE_DEPTH 1"

lemma unat_MAX_SLOTS [simp]: "unat MAX_SLOTS = 32"
  by (simp add: MAX_SLOTS_def TREE_DEPTH_def)

definition committee_leaf :: "zisk \<Rightarrow> committee_aggregate \<Rightarrow> digest" where
  "committee_leaf Z agg = leaf Z (ca_pubkey agg) (ca_balance agg)"

text \<open>One level of \<open>chunks_exact(2)\<close>: a last odd node is dropped.\<close>

fun pair_level :: "('a \<Rightarrow> 'a \<Rightarrow> 'a) \<Rightarrow> 'a list \<Rightarrow> 'a list" where
  "pair_level f (a # b # xs) = f a b # pair_level f xs"
| "pair_level f _ = []"

definition slot_leaf :: "zisk \<Rightarrow> committee_aggregate option list \<Rightarrow> nat \<Rightarrow> digest" where
  "slot_leaf Z slots s =
     (if s < length slots then
        (case slots ! s of Some agg \<Rightarrow> committee_leaf Z agg | None \<Rightarrow> ZERO)
      else ZERO)"

definition committee_tree_root ::
  "zisk \<Rightarrow> committee_aggregate option list \<Rightarrow> committee_panic + digest" where
  "committee_tree_root Z slots =
     ensure (length slots \<le> unat MAX_SLOTS) TooManySlots
    (let level = map (slot_leaf Z slots) [0..<unat MAX_SLOTS]
     in Inr (((pair_level (compress Z)) ^^ TREE_DEPTH) level ! 0))"

section \<open>The wire format\<close>

definition HEADER_WORDS :: nat where "HEADER_WORDS = 12"
definition MEMBER_WORDS :: nat where "MEMBER_WORDS = 15"
definition DIGEST_WORDS :: nat where "DIGEST_WORDS = 4"

lemmas wire_defs = HEADER_WORDS_def MEMBER_WORDS_def DIGEST_WORDS_def

definition member_words :: "committee_member \<Rightarrow> u64 list" where
  "member_words m = cm_index m # cm_pubkey m @ [cm_balance m, cm_slot_in_epoch m]"

definition committee_encode :: "committee_witness \<Rightarrow> u64 list" where
  "committee_encode w =
     cw_accumulator_commitment w @ cw_acc_root w @
     [cw_target_epoch w, cw_total_active_balance w,
      of_nat (length (cw_members w)), of_nat (length (cw_auxiliaries w))] @
     concat (map member_words (cw_members w)) @ concat (cw_auxiliaries w)"

definition committee_to_bytes :: "u64 list \<Rightarrow> bytes" where
  "committee_to_bytes words = concat (map u64_to_le_bytes words)"

function chunks :: "nat \<Rightarrow> 'a list \<Rightarrow> 'a list list" where
  "chunks n xs = (if n = 0 \<or> xs = [] then [] else take n xs # chunks n (drop n xs))"
  by pat_completeness auto
termination
  by (relation "measure (\<lambda>(n, xs). length xs)") auto

declare chunks.simps [simp del]

text \<open>\<open>align_to\<close> a run of \<open>n\<close>-word records: every \<open>u64\<close> is aligned, so no prefix is left over.\<close>

definition records :: "nat \<Rightarrow> u64 list \<Rightarrow> committee_panic + u64 list list" where
  "records n words = ensure (length words mod n = 0) NotWholeRecords (Inr (chunks n words))"

definition read_member :: "u64 list \<Rightarrow> committee_member" where
  "read_member ws = \<lparr>cm_index = ws ! 0, cm_pubkey = take 12 (drop 1 ws), cm_balance = ws ! 13,
                     cm_slot_in_epoch = ws ! 14\<rparr>"

section \<open>Verification\<close>

record committee_scan =
  cs_previous :: "u64 option"
  cs_indices :: "u64 list"
  cs_leaves :: "digest list"
  cs_sums :: "point_sum list"
  cs_balances :: "u64 list"

definition committee_scan_init :: committee_scan where
  "committee_scan_init = \<lparr>cs_previous = None, cs_indices = [], cs_leaves = [],
     cs_sums = replicate (unat MAX_SLOTS) None, cs_balances = replicate (unat MAX_SLOTS) 0\<rparr>"

definition member_step ::
  "zisk \<Rightarrow> committee_scan \<Rightarrow> committee_member \<Rightarrow> committee_panic + committee_scan" where
  "member_step Z st m =
     (let slot = unat (cm_slot_in_epoch m) in
     ensure (case cs_previous st of Some p \<Rightarrow> cm_index m > p | None \<Rightarrow> True) MembersNotIncreasing
    (ensure (cm_slot_in_epoch m < MAX_SLOTS) SlotPastTree
    (bind_res (expect (point_sum_add Z (cs_sums st ! slot) (cm_pubkey m)) CommitteeSharedX) (\<lambda>s.
     Inr \<lparr>cs_previous = Some (cm_index m),
          cs_indices = cs_indices st @ [cm_index m],
          cs_leaves = cs_leaves st @ [leaf Z (cm_pubkey m) (cm_balance m)],
          cs_sums = (cs_sums st)[slot := s],
          cs_balances = (cs_balances st)[slot := cs_balances st ! slot + cm_balance m]\<rparr>))))"

definition slot_aggregates :: "committee_scan \<Rightarrow> committee_aggregate option list" where
  "slot_aggregates st =
     map (\<lambda>(s, balance). map_option (\<lambda>pubkey. \<lparr>ca_pubkey = pubkey, ca_balance = balance\<rparr>) s)
       (zip (cs_sums st) (cs_balances st))"

text \<open>
  \<open>Vec::with_capacity\<close> of the leaves panics where their bytes would pass \<open>isize::MAX\<close>; the sizes are
  computed in \<open>usize\<close>, which wraps.
\<close>

definition verify_committee :: "zisk \<Rightarrow> u64 list \<Rightarrow> nat \<Rightarrow> committee_panic + committee_output" where
  "verify_committee Z witness acc_depth =
     ensure (length witness \<ge> HEADER_WORDS) ShorterThanHeader
    (let acc_commitment = take 4 witness;
         acc_root = take 4 (drop 4 witness);
         target_epoch = witness ! 8;
         member_count = witness ! 10;
         auxiliaries = of_nat HEADER_WORDS + member_count * of_nat MEMBER_WORDS :: u64 in
     ensure (commitment Z acc_root (witness ! 9) = acc_commitment) CommitteeCommitmentMismatch
    (ensure (of_nat (length witness) = auxiliaries + witness ! 11 * of_nat DIGEST_WORDS) CountsMismatch
    (ensure (uint member_count * 32 < 2 ^ 63) CapacityOverflow
    (ensure (HEADER_WORDS \<le> unat auxiliaries \<and> unat auxiliaries \<le> length witness) SliceOutOfRange
    (bind_res (records MEMBER_WORDS
        (take (unat auxiliaries - HEADER_WORDS) (drop HEADER_WORDS witness))) (\<lambda>members.
     bind_res (fold_res (member_step Z) committee_scan_init (map read_member members)) (\<lambda>st.
     bind_res (records DIGEST_WORDS (drop (unat auxiliaries) witness)) (\<lambda>aux.
     bind_res (map_err CommitteeTreePanic
        (batch_root_columns (compress Z) (cs_indices st) (cs_leaves st) aux acc_depth)) (\<lambda>r.
     ensure (r = acc_root) CommitteeAccRootMismatch
    (bind_res (committee_tree_root Z (slot_aggregates st)) (\<lambda>committee_root.
     Inr \<lparr>co_accumulator_commitment = acc_commitment, co_target_epoch = target_epoch,
          co_committee_root = committee_root\<rparr>)))))))))))"

definition opened_root ::
  "zisk \<Rightarrow> (u64 \<times> committee_aggregate) list \<Rightarrow> digest list \<Rightarrow> merkle_panic + digest" where
  "opened_root Z opened auxiliaries =
     batch_root (compress Z) (map (\<lambda>(slot, agg). (committee_leaf Z agg, slot)) opened)
       auxiliaries TREE_DEPTH"

section \<open>The tree of the slots\<close>

lemma pair_level_upt:
  "pair_level f (map L [0..<2 * n]) = map (parent_leaves f L) [0..<n]"
proof -
  have "pair_level f (map L [m..<m + 2 * n]) =
      map (\<lambda>j. f (L (m + 2 * j)) (L (m + 2 * j + 1))) [0..<n]" for m
  proof (induction n arbitrary: m)
    case (Suc n)
    have "[m..<Suc (Suc m) + 2 * n] = m # [Suc m..<Suc (Suc m) + 2 * n]"
      by (rule upt_conv_Cons) simp
    also have "[Suc m..<Suc (Suc m) + 2 * n] = Suc m # [Suc (Suc m)..<Suc (Suc m) + 2 * n]"
      by (rule upt_conv_Cons) simp
    finally have "[m..<m + 2 * Suc n] = m # Suc m # [Suc (Suc m)..<Suc (Suc m) + 2 * n]"
      by (simp only: mult_Suc_right add_Suc add_Suc_right numeral_2_eq_2 add_0)
    then have "pair_level f (map L [m..<m + 2 * Suc n]) = f (L m) (L (Suc m)) #
        map (\<lambda>j. f (L (Suc (Suc m) + 2 * j)) (L (Suc (Suc m) + 2 * j + 1))) [0..<n]"
      using Suc [of "Suc (Suc m)"] by simp
    also have "\<dots> = map (\<lambda>j. f (L (m + 2 * j)) (L (m + 2 * j + 1))) (0 # map Suc [0..<n])"
      by (simp add: comp_def)
    also have "0 # map Suc [0..<n] = [0..<Suc n]"
      by (simp only: map_Suc_upt) (rule upt_conv_Cons [symmetric], simp)
    finally show ?case .
  qed simp
  from this [of 0] show ?thesis by (simp add: parent_leaves_def [abs_def])
qed

lemma pair_levels_tree_root:
  "((pair_level f) ^^ d) (map L [0..<2 ^ d]) = [tree_root f L d]"
proof (induction d arbitrary: L)
  case (Suc d)
  then show ?case
    using pair_level_upt [of f L "2 ^ d"] by (simp only: funpow_Suc_right comp_apply power_Suc) simp
qed simp

lemma committee_tree_root_eq:
  "committee_tree_root Z slots = Inr r \<longleftrightarrow>
     length slots \<le> 32 \<and> r = tree_root (compress Z) (slot_leaf Z slots) 5"
  using pair_levels_tree_root [where d = 5 and f = "compress Z" and L = "slot_leaf Z slots"]
  by (auto simp: committee_tree_root_def TREE_DEPTH_def)

section \<open>The wire format determines the witness\<close>

lemma chunks_concat:
  "0 < n \<Longrightarrow> \<forall>xs\<in>set xss. length xs = n \<Longrightarrow> chunks n (concat xss) = xss"
proof (induction xss)
  case (Cons xs xss)
  then have "xs @ concat xss \<noteq> []" by auto
  then show ?case using Cons by (simp add: chunks.simps [of n "xs @ concat xss"])
qed (simp add: chunks.simps)

lemma chunks_length:
  "0 < n \<Longrightarrow> length xs mod n = 0 \<Longrightarrow> ws \<in> set (chunks n xs) \<Longrightarrow> length ws = n"
proof (induction n xs rule: chunks.induct)
  case (1 n xs)
  have ne: "n = 0 \<or> xs = [] \<longleftrightarrow> False"
    using "1.prems"(1,3) by (auto simp: chunks.simps [of n "[]"])
  then have le: "n \<le> length xs"
    using "1.prems"(1,2) by (metis dvd_imp_le length_greater_0_conv mod_0_imp_dvd)
  have "ws = take n xs \<or> ws \<in> set (chunks n (drop n xs))"
    using "1.prems"(3) ne by (simp add: chunks.simps [of n xs])
  moreover have "length (drop n xs) mod n = 0" using "1.prems"(2) le by (simp add: le_mod_geq)
  ultimately show ?case using "1.IH" ne "1.prems"(1) le by auto
qed

definition wf_cw :: "committee_witness \<Rightarrow> bool" where
  "wf_cw w \<longleftrightarrow> wf_digest (cw_accumulator_commitment w) \<and> wf_digest (cw_acc_root w) \<and>
     (\<forall>m\<in>set (cw_members w). length (cm_pubkey m) = 12) \<and>
     (\<forall>a\<in>set (cw_auxiliaries w). wf_digest a) \<and>
     length (cw_members w) < 2 ^ 58 \<and> length (cw_auxiliaries w) < 2 ^ 58"

lemma length_member_words [simp]: "length (cm_pubkey m) = 12 \<Longrightarrow> length (member_words m) = 15"
  by (simp add: member_words_def)

lemma read_member_words [simp]: "length (cm_pubkey m) = 12 \<Longrightarrow> read_member (member_words m) = m"
  by (simp add: read_member_def member_words_def nth_append)

lemma length_concat_uniform: "\<forall>xs\<in>set xss. length xs = n \<Longrightarrow> length (concat xss) = n * length xss"
  by (induction xss) simp_all

text \<open>What \<open>verify_committee\<close> reads back from an encoded witness.\<close>

definition member_block :: "u64 list \<Rightarrow> u64 list list" where
  "member_block words = chunks 15 (take (15 * unat (words ! 10)) (drop 12 words))"

definition auxiliary_block :: "u64 list \<Rightarrow> u64 list list" where
  "auxiliary_block words = chunks 4 (drop (12 + 15 * unat (words ! 10)) words)"

lemma committee_encode_blocks:
  assumes "wf_cw w"
  shows "map read_member (member_block (committee_encode w)) = cw_members w"
    and "auxiliary_block (committee_encode w) = cw_auxiliaries w"
    and "take 4 (committee_encode w) = cw_accumulator_commitment w"
    and "take 4 (drop 4 (committee_encode w)) = cw_acc_root w"
    and "committee_encode w ! 8 = cw_target_epoch w"
    and "committee_encode w ! 9 = cw_total_active_balance w"
proof -
  let ?ms = "concat (map member_words (cw_members w))"
  let ?hd = "cw_accumulator_commitment w @ cw_acc_root w @
     [cw_target_epoch w, cw_total_active_balance w,
      of_nat (length (cw_members w)), of_nat (length (cw_auxiliaries w))]"
  have enc: "committee_encode w = ?hd @ ?ms @ concat (cw_auxiliaries w)"
    by (simp add: committee_encode_def)
  have len: "length (cw_accumulator_commitment w) = 4" "length (cw_acc_root w) = 4"
    using assms by (simp_all add: wf_cw_def wf_digest_def)
  have hd: "length ?hd = 12" using len by simp
  have pk: "\<forall>m\<in>set (cw_members w). length (cm_pubkey m) = 12"
    and au: "\<forall>a\<in>set (cw_auxiliaries w). length a = 4"
    and count: "length (cw_members w) < 2 ^ 58"
    using assms by (simp_all add: wf_cw_def wf_digest_def)
  have block: "\<forall>ws\<in>set (map member_words (cw_members w)). length ws = 15" using pk by simp
  have ms: "length ?ms = 15 * length (cw_members w)"
    using length_concat_uniform [OF block] by simp
  have "committee_encode w ! 10 = of_nat (length (cw_members w))"
    using len by (simp add: enc nth_append)
  then have n: "unat (committee_encode w ! 10) = length (cw_members w)"
    using count by (simp add: unat_of_nat)
  have d12: "drop 12 (committee_encode w) = ?ms @ concat (cw_auxiliaries w)"
    unfolding enc using hd by (metis append_eq_conv_conj)
  have "take (15 * length (cw_members w)) (drop 12 (committee_encode w)) = ?ms"
    unfolding d12 using ms by simp
  then have "member_block (committee_encode w) = map member_words (cw_members w)"
    unfolding member_block_def n using chunks_concat [OF _ block] by simp
  then show "map read_member (member_block (committee_encode w)) = cw_members w"
    using pk by (simp add: comp_def map_idI)
  have "drop (12 + 15 * length (cw_members w)) (committee_encode w) =
      drop (15 * length (cw_members w)) (drop 12 (committee_encode w))"
    by (simp add: add.commute)
  also have "\<dots> = concat (cw_auxiliaries w)" unfolding d12 using ms by simp
  finally show "auxiliary_block (committee_encode w) = cw_auxiliaries w"
    unfolding auxiliary_block_def n using chunks_concat [OF _ au] by simp
  show "take 4 (committee_encode w) = cw_accumulator_commitment w"
    and "take 4 (drop 4 (committee_encode w)) = cw_acc_root w"
    and "committee_encode w ! 8 = cw_target_epoch w"
    and "committee_encode w ! 9 = cw_total_active_balance w"
    using len by (simp_all add: enc nth_append)
qed

text \<open>Verifying an encoded witness is verifying the witness.\<close>

lemma length_committee_encode:
  assumes "wf_cw w"
  shows "length (committee_encode w) = 12 + 15 * length (cw_members w) + 4 * length (cw_auxiliaries w)"
proof -
  have "\<forall>ws\<in>set (map member_words (cw_members w)). length ws = 15"
    and "\<forall>a\<in>set (cw_auxiliaries w). length a = 4"
    using assms by (auto simp: wf_cw_def wf_digest_def)
  from length_concat_uniform [OF this(1)] length_concat_uniform [OF this(2)] assms
  show ?thesis by (simp add: committee_encode_def wf_cw_def wf_digest_def)
qed

lemma committee_encode_counts:
  assumes "wf_cw w"
  shows "committee_encode w ! 10 = of_nat (length (cw_members w))"
    and "committee_encode w ! 11 = of_nat (length (cw_auxiliaries w))"
  using assms by (simp_all add: committee_encode_def nth_append wf_cw_def wf_digest_def)

lemma verify_committee_encode:
  assumes "wf_cw w"
  shows "verify_committee Z (committee_encode w) d =
     ensure (commitment Z (cw_acc_root w) (cw_total_active_balance w) = cw_accumulator_commitment w)
       CommitteeCommitmentMismatch
    (bind_res (fold_res (member_step Z) committee_scan_init (cw_members w)) (\<lambda>st.
     bind_res (map_err CommitteeTreePanic
        (batch_root_columns (compress Z) (cs_indices st) (cs_leaves st) (cw_auxiliaries w) d)) (\<lambda>r.
     ensure (r = cw_acc_root w) CommitteeAccRootMismatch
    (bind_res (committee_tree_root Z (slot_aggregates st)) (\<lambda>committee_root.
     Inr \<lparr>co_accumulator_commitment = cw_accumulator_commitment w,
          co_target_epoch = cw_target_epoch w, co_committee_root = committee_root\<rparr>)))))"
proof -
  let ?n = "length (cw_members w)"
  let ?m = "length (cw_auxiliaries w)"
  let ?ws = "committee_encode w"
  let ?aux = "of_nat 12 + ?ws ! 10 * of_nat 15 :: u64"
  have bounds: "?n < 2 ^ 58" "?m < 2 ^ 58" using assms by (simp_all add: wf_cw_def)
  have n: "unat (?ws ! 10) = ?n"
    using bounds(1) by (simp add: committee_encode_counts [OF assms] unat_of_nat)
  have aux: "?aux = of_nat (12 + 15 * ?n)"
    by (simp add: committee_encode_counts [OF assms])
  have uaux: "unat ?aux = 12 + 15 * ?n"
    unfolding aux using bounds(1) by (subst unat_of_nat) simp
  have counts: "of_nat (length ?ws) = ?aux + ?ws ! 11 * of_nat 4"
    by (simp add: length_committee_encode [OF assms] committee_encode_counts [OF assms])
  have "int ?n * 32 < 2 ^ 63" using bounds(1) by simp
  then have cap: "uint (?ws ! 10) * 32 < 2 ^ 63"
    using n by (metis of_nat_unat)
  have len: "length ?ws = 12 + 15 * ?n + 4 * ?m" by (rule length_committee_encode [OF assms])
  have mem: "records 15 (take (unat ?aux - 12) (drop 12 ?ws)) = Inr (member_block ?ws)"
    unfolding uaux using len by (simp add: records_def member_block_def n)
  have auxs: "records 4 (drop (unat ?aux) ?ws) = Inr (cw_auxiliaries w)"
    unfolding uaux using committee_encode_blocks(2) [OF assms] len
    by (simp add: records_def auxiliary_block_def n)
  show ?thesis
    unfolding verify_committee_def Let_def wire_defs mem auxs
    unfolding uaux
    using committee_encode_blocks [OF assms] counts cap len
    by (simp add: ensure_def)
qed

section \<open>What an accepted witness sums\<close>

definition bucket :: "committee_member list \<Rightarrow> nat \<Rightarrow> committee_member list" where
  "bucket ms s = filter (\<lambda>m. unat (cm_slot_in_epoch m) = s) ms"

lemma bucket_append [simp]: "bucket (xs @ ys) s = bucket xs s @ bucket ys s"
  by (simp add: bucket_def)

lemma point_sum_adds_append:
  "point_sum_adds Z s (ps @ qs) =
     (case point_sum_adds Z s ps of None \<Rightarrow> None | Some s' \<Rightarrow> point_sum_adds Z s' qs)"
  by (induction ps arbitrary: s) (auto split: option.splits)

definition scan_invariant :: "zisk \<Rightarrow> committee_member list \<Rightarrow> committee_scan \<Rightarrow> bool" where
  "scan_invariant Z ms st \<longleftrightarrow>
     cs_previous st = (if ms = [] then None else Some (cm_index (last ms))) \<and>
     cs_indices st = map cm_index ms \<and>
     cs_leaves st = map (\<lambda>m. leaf Z (cm_pubkey m) (cm_balance m)) ms \<and>
     strictly_increasing (map cm_index ms) \<and>
     (\<forall>m\<in>set ms. unat (cm_slot_in_epoch m) < 32) \<and>
     length (cs_sums st) = 32 \<and> length (cs_balances st) = 32 \<and>
     (\<forall>s<32. cs_balances st ! s = sum_list (map cm_balance (bucket ms s)) \<and>
        point_sum_adds Z None (map cm_pubkey (bucket ms s)) = Some (cs_sums st ! s))"

lemma strictly_increasing_snoc:
  "strictly_increasing (ks @ [k]) \<longleftrightarrow> strictly_increasing ks \<and> (ks = [] \<or> last ks < k)"
  by (induction ks rule: strictly_increasing.induct) auto

lemma member_step_invariant:
  assumes "scan_invariant Z ms st" "member_step Z st m = Inr st'"
  shows "scan_invariant Z (ms @ [m]) st'"
proof -
  let ?slot = "unat (cm_slot_in_epoch m)"
  from assms(2) obtain s where
    inc: "case cs_previous st of Some p \<Rightarrow> cm_index m > p | None \<Rightarrow> True"
    and slot: "?slot < 32"
    and s: "point_sum_add Z (cs_sums st ! ?slot) (cm_pubkey m) = Some s"
    and st': "st' = \<lparr>cs_previous = Some (cm_index m),
          cs_indices = cs_indices st @ [cm_index m],
          cs_leaves = cs_leaves st @ [leaf Z (cm_pubkey m) (cm_balance m)],
          cs_sums = (cs_sums st)[?slot := s],
          cs_balances = (cs_balances st)[?slot := cs_balances st ! ?slot + cm_balance m]\<rparr>"
    by (auto simp: member_step_def Let_def word_less_nat_alt)
  have inv: "cs_previous st = (if ms = [] then None else Some (cm_index (last ms)))"
      "cs_indices st = map cm_index ms"
      "cs_leaves st = map (\<lambda>m. leaf Z (cm_pubkey m) (cm_balance m)) ms"
      "strictly_increasing (map cm_index ms)" "\<forall>m\<in>set ms. unat (cm_slot_in_epoch m) < 32"
      "length (cs_sums st) = 32" "length (cs_balances st) = 32"
    and sums: "\<And>k. k < 32 \<Longrightarrow> cs_balances st ! k = sum_list (map cm_balance (bucket ms k))"
      "\<And>k. k < 32 \<Longrightarrow>
        point_sum_adds Z None (map cm_pubkey (bucket ms k)) = Some (cs_sums st ! k)"
    using assms(1) by (simp_all add: scan_invariant_def)
  have "strictly_increasing (map cm_index (ms @ [m]))"
    using inc inv(1,4) by (auto simp: strictly_increasing_snoc last_map split: if_splits)
  moreover have "cs_balances st' ! k = sum_list (map cm_balance (bucket (ms @ [m]) k))"
    if "k < 32" for k
    using that slot inv(7) sums(1) by (simp add: st' bucket_def nth_list_update)
  moreover have "point_sum_adds Z None (map cm_pubkey (bucket (ms @ [m]) k)) = Some (cs_sums st' ! k)"
    if "k < 32" for k
    using that slot s inv(6) sums(2) [OF that]
    by (auto simp: st' bucket_def nth_list_update point_sum_adds_append)
  ultimately show ?thesis
    using inv slot by (simp add: scan_invariant_def st')
qed

lemma member_steps_invariant:
  assumes "fold_res (member_step Z) committee_scan_init ms = Inr st"
  shows "scan_invariant Z ms st"
proof (rule fold_res_prefix_invariant [OF assms])
  show "scan_invariant Z [] committee_scan_init"
    by (simp add: scan_invariant_def committee_scan_init_def bucket_def)
qed (rule member_step_invariant)

lemma verify_committee_Inr:
  assumes "verify_committee Z words d = Inr out"
  obtains st where
    "scan_invariant Z (map read_member (member_block words)) st"
    "commitment Z (take 4 (drop 4 words)) (words ! 9) = take 4 words"
    "batch_root_columns (compress Z) (cs_indices st) (cs_leaves st) (auxiliary_block words) d =
       Inr (take 4 (drop 4 words))"
    "committee_tree_root Z (slot_aggregates st) = Inr (co_committee_root out)"
    "co_accumulator_commitment out = take 4 words" "co_target_epoch out = words ! 8"
proof -
  let ?n = "unat (words ! 10)"
  let ?aux = "of_nat 12 + words ! 10 * of_nat 15 :: u64"
  have "uint (words ! 10) * 32 < 2 ^ 63"
    using assms by (simp add: verify_committee_def Let_def)
  then have "int (?n * 32) < int (2 ^ 63)" by simp
  then have cap: "?n * 32 < 2 ^ 63" by (simp only: of_nat_less_iff)
  then have "unat (words ! 10 * 15) = ?n * 15" by (simp add: unat_word_ariths)
  with cap have aux: "unat ?aux = 12 + 15 * ?n" by (simp add: unat_word_ariths)
  from assms obtain members st auxs r where
    m: "records 15 (take (unat ?aux - 12) (drop 12 words)) = Inr members"
    and st: "fold_res (member_step Z) committee_scan_init (map read_member members) = Inr st"
    and a: "records 4 (drop (unat ?aux) words) = Inr auxs"
    and r: "batch_root_columns (compress Z) (cs_indices st) (cs_leaves st) auxs d = Inr r"
      "r = take 4 (drop 4 words)"
    and c: "commitment Z (take 4 (drop 4 words)) (words ! 9) = take 4 words"
      "committee_tree_root Z (slot_aggregates st) = Inr (co_committee_root out)"
      "co_accumulator_commitment out = take 4 words" "co_target_epoch out = words ! 8"
    unfolding verify_committee_def Let_def wire_defs by auto
  have "members = member_block words" "auxs = auxiliary_block words"
    using m a unfolding aux by (simp_all add: records_def member_block_def auxiliary_block_def)
  then show thesis using that [of st] member_steps_invariant [OF st] r c by simp
qed

text \<open>Slot by slot: an aggregate where the bucket has a member, with the bucket's sums.\<close>

lemma slot_aggregates_nth:
  assumes "scan_invariant Z ms st" "s < 32"
  shows "length (slot_aggregates st) = 32"
    and "slot_aggregates st ! s = map_option
      (\<lambda>p. \<lparr>ca_pubkey = p, ca_balance = sum_list (map cm_balance (bucket ms s))\<rparr>) (cs_sums st ! s)"
  using assms by (simp_all add: scan_invariant_def slot_aggregates_def)

lemma point_sum_adds_Some:
  "point_sum_adds Z (Some p) ps = Some s \<Longrightarrow> s \<noteq> None"
  by (induction ps arbitrary: p) (auto simp: point_sum_add_def split: if_splits)

lemma point_sum_adds_None_iff:
  "point_sum_adds Z None ps = Some s \<Longrightarrow> s = None \<longleftrightarrow> ps = []"
  by (cases ps) (auto simp: point_sum_add_def dest: point_sum_adds_Some)

lemma slot_aggregate_of_bucket:
  assumes "scan_invariant Z ms st" "s < 32"
  shows "slot_aggregates st ! s =
    (if bucket ms s = [] then None
     else map_option
       (\<lambda>p. \<lparr>ca_pubkey = p, ca_balance = sum_list (map cm_balance (bucket ms s))\<rparr>)
       (aggregate_points Z (map cm_pubkey (bucket ms s))))"
    and "bucket ms s \<noteq> [] \<Longrightarrow> aggregate_points Z (map cm_pubkey (bucket ms s)) \<noteq> None"
proof -
  have adds: "point_sum_adds Z None (map cm_pubkey (bucket ms s)) = Some (cs_sums st ! s)"
    using assms by (simp add: scan_invariant_def)
  then have agg: "aggregate_points Z (map cm_pubkey (bucket ms s)) = cs_sums st ! s"
    by (simp add: aggregate_points_def)
  show "bucket ms s \<noteq> [] \<Longrightarrow> aggregate_points Z (map cm_pubkey (bucket ms s)) \<noteq> None"
    using point_sum_adds_None_iff [OF adds] by (simp add: agg)
  show "slot_aggregates st ! s =
    (if bucket ms s = [] then None
     else map_option
       (\<lambda>p. \<lparr>ca_pubkey = p, ca_balance = sum_list (map cm_balance (bucket ms s))\<rparr>)
       (aggregate_points Z (map cm_pubkey (bucket ms s))))"
    using slot_aggregates_nth(2) [OF assms] point_sum_adds_None_iff [OF adds] by (auto simp: agg)
qed

text \<open>The buckets partition the members: their balances add up to all of them.\<close>

lemma sum_buckets:
  assumes "\<forall>m\<in>set ms. unat (cm_slot_in_epoch m) < n"
  shows "(\<Sum>s<n. sum_list (map h (bucket ms s))) = sum_list (map (h :: _ \<Rightarrow> 'b::comm_monoid_add) ms)"
  using assms
proof (induction ms)
  case (Cons m ms)
  let ?t = "unat (cm_slot_in_epoch m)"
  have "(\<Sum>s<n. sum_list (map h (bucket (m # ms) s))) =
      (\<Sum>s<n. (if s = ?t then h m else 0) + sum_list (map h (bucket ms s)))"
    by (rule sum.cong) (auto simp: bucket_def)
  also have "\<dots> = h m + sum_list (map h ms)"
    using Cons by (simp add: sum.distrib sum.delta)
  finally show ?case by simp
qed (simp add: bucket_def)

end
