(* ===== verification/Registry.thy ===== *)
theory Registry
  imports Acc
begin

text \<open>
  The abstract value behind an accumulator: which public key and active effective balance every
  index holds. \<open>registry_root\<close> is the root a full accumulator tree over a registry has,
  \<open>registry_total\<close> the sum of its balances. The lemmas carry the Merkle facts up to registries: a
  batch that opens a registry's root opens its entries (\<open>registry_opening\<close>), each validator at one
  position, and a path that opens one entry writes it (\<open>registry_write\<close>).

  What is relied on of the hash is stated on the inputs that are hashed: \<open>collision_free\<close> on pairs of
  nodes, \<open>leaf_binding\<close> on leaf preimages.
\<close>

type_synonym entry = "g1_point \<times> u64"
type_synonym registry = "nat \<Rightarrow> entry option"

definition entry_leaf :: "zisk \<Rightarrow> entry option \<Rightarrow> digest" where
  "entry_leaf Z e = (case e of None \<Rightarrow> ZERO | Some (p, b) \<Rightarrow> leaf Z p b)"

definition registry_leaf :: "zisk \<Rightarrow> registry \<Rightarrow> nat \<Rightarrow> digest" where
  "registry_leaf Z R i = entry_leaf Z (R i)"

definition registry_root :: "zisk \<Rightarrow> registry \<Rightarrow> nat \<Rightarrow> digest" where
  "registry_root Z R d = tree_root (compress Z) (registry_leaf Z R) d"

definition entry_balance :: "entry option \<Rightarrow> nat" where
  "entry_balance e = (case e of None \<Rightarrow> 0 | Some (p, b) \<Rightarrow> unat b)"

definition registry_total :: "registry \<Rightarrow> nat \<Rightarrow> nat" where
  "registry_total R d = (\<Sum>i<2 ^ d. entry_balance (R i))"

definition leaf_binding :: "zisk \<Rightarrow> entry set \<Rightarrow> bool" where
  "leaf_binding Z S \<longleftrightarrow>
     (\<forall>(p, b)\<in>S. leaf Z p b \<noteq> ZERO) \<and>
     (\<forall>(p, b)\<in>S. \<forall>(q, c)\<in>S. leaf Z p b = leaf Z q c \<longrightarrow> p = q \<and> b = c)"

definition registry_entries :: "registry \<Rightarrow> nat \<Rightarrow> entry set" where
  "registry_entries R d = {e. \<exists>i<2 ^ d. R i = Some e}"

lemma entry_balance_simps [simp]:
  "entry_balance None = 0" "entry_balance (Some (p, b)) = unat b"
  by (simp_all add: entry_balance_def)

lemma entry_leaf_simps [simp]:
  "entry_leaf Z None = ZERO" "entry_leaf Z (Some (p, b)) = leaf Z p b"
  by (simp_all add: entry_leaf_def)

lemma leaf_bindingD:
  assumes "leaf_binding Z S" "(p, b) \<in> S" "entry_leaf Z e = leaf Z p b" "set_option e \<subseteq> S"
  shows "e = Some (p, b)"
proof (cases e)
  case None
  then show ?thesis using assms(1-3) unfolding leaf_binding_def by fastforce
next
  case (Some qc)
  then obtain q c where e: "e = Some (q, c)" by (cases qc) simp
  then have "(q, c) \<in> S" "leaf Z q c = leaf Z p b" using assms(3,4) by simp_all
  then show ?thesis using assms(1,2) e unfolding leaf_binding_def by blast
qed

lemma leaf_binding_mono: "leaf_binding Z S \<Longrightarrow> T \<subseteq> S \<Longrightarrow> leaf_binding Z T"
  unfolding leaf_binding_def by blast

lemma registry_leaf_update:
  "(registry_leaf Z R)(j := entry_leaf Z e) = registry_leaf Z (R(j := e))"
  by (rule ext) (simp add: registry_leaf_def)

lemma registry_total_update:
  assumes "j < 2 ^ d"
  shows "registry_total (R(j := e)) d + entry_balance (R j) = registry_total R d + entry_balance e"
proof -
  have j: "j \<in> {..<2 ^ d}" using assms by simp
  have "registry_total (R(j := e)) d = entry_balance e + (\<Sum>i\<in>{..<2 ^ d} - {j}. entry_balance (R i))"
    unfolding registry_total_def by (subst sum.remove [OF _ j]) (auto intro: sum.cong)
  moreover have "registry_total R d = entry_balance (R j) + (\<Sum>i\<in>{..<2 ^ d} - {j}. entry_balance (R i))"
    unfolding registry_total_def by (rule sum.remove [OF _ j]) simp
  ultimately show ?thesis by simp
qed

section \<open>Opening a batch of entries\<close>

definition opening_pairs :: "zisk \<Rightarrow> registry \<Rightarrow> nat \<Rightarrow> (digest \<times> u64) list \<Rightarrow> digest list \<Rightarrow>
    (digest \<times> digest) set" where
  "opening_pairs Z R d leaves aux =
     batch_pairs (compress Z) d (map snd leaves) (map fst leaves) aux \<union>
     tree_pairs (compress Z) (registry_leaf Z R) d"

lemma registry_opening:
  assumes "batch_root (compress Z) leaves aux d = Inr (registry_root Z R d)"
    and "collision_free (compress Z) (opening_pairs Z R d leaves aux)"
    and "leaf_binding Z S" "registry_entries R d \<subseteq> S" "(p, b) \<in> S"
    and "(leaf Z p b, k) \<in> set leaves"
  shows "R (unat k mod 2 ^ d) = Some (p, b)"
proof -
  have "leaf Z p b = registry_leaf Z R (unat k mod 2 ^ d)"
    using batch_root_binding [OF _ _ assms(6)] assms(1,2)
    by (simp add: registry_root_def opening_pairs_def)
  then have "entry_leaf Z (R (unat k mod 2 ^ d)) = leaf Z p b" by (simp add: registry_leaf_def)
  moreover have "unat k mod 2 ^ d < 2 ^ d" by simp
  then have "set_option (R (unat k mod 2 ^ d)) \<subseteq> S"
    using assms(4) by (force simp: registry_entries_def)
  ultimately show ?thesis using leaf_bindingD assms(3,5) by blast
qed

text \<open>
  Entries opened at different positions are different entries of the registry: their balances add
  up to no more than its total.
\<close>

lemma distinct_positions_balance:
  assumes "distinct (map pos es)" "\<forall>e\<in>set es. pos e < 2 ^ d"
    and "\<forall>e\<in>set es. entry_balance (R (pos e)) = h e"
  shows "sum_list (map h es) \<le> registry_total R d"
proof -
  have "map h es = map (\<lambda>i. entry_balance (R i)) (map pos es)" using assms(3) by simp
  then have "sum_list (map h es) = (\<Sum>i\<in>set (map pos es). entry_balance (R i))"
    using assms(1) by (simp only: sum_list_distinct_conv_sum_set)
  also have "\<dots> \<le> registry_total R d"
    unfolding registry_total_def using assms(2) by (intro sum_mono2) auto
  finally show ?thesis .
qed

section \<open>Writing one entry\<close>

definition path_fine :: "zisk \<Rightarrow> registry \<Rightarrow> nat \<Rightarrow> digest \<Rightarrow> u64 \<Rightarrow> digest list \<Rightarrow> bool" where
  "path_fine Z R d old k siblings \<longleftrightarrow>
     collision_free (compress Z)
       (path_pairs (compress Z) old k siblings \<union> tree_pairs (compress Z) (registry_leaf Z R) d)"

lemma registry_write:
  assumes "compute_root (compress Z) (entry_leaf Z old) k siblings = registry_root Z R d"
    and "length siblings = d" "path_fine Z R d (entry_leaf Z old) k siblings"
    and "leaf_binding Z S" "registry_entries R d \<subseteq> S" "set_option old \<subseteq> S"
  shows "R (unat k mod 2 ^ d) = old"
    and "compute_root (compress Z) (entry_leaf Z new) k siblings =
           registry_root Z (R(unat k mod 2 ^ d := new)) d"
proof -
  let ?j = "unat k mod 2 ^ d"
  from merkle_map.write_refines [of siblings d "compress Z" "entry_leaf Z old" k "registry_leaf Z R"
      "entry_leaf Z new"]
  have w: "registry_leaf Z R ?j = entry_leaf Z old"
    "compute_root (compress Z) (entry_leaf Z new) k siblings =
       tree_root (compress Z) ((registry_leaf Z R)(?j := entry_leaf Z new)) d"
    using assms(1-3) by (simp_all add: registry_root_def path_fine_def)
  then show "compute_root (compress Z) (entry_leaf Z new) k siblings =
      registry_root Z (R(?j := new)) d"
    by (simp add: registry_leaf_update registry_root_def)
  have eq: "entry_leaf Z (R ?j) = entry_leaf Z old" using w(1) by (simp add: registry_leaf_def)
  have "?j < 2 ^ d" by simp
  then have mem: "set_option (R ?j) \<subseteq> S" using assms(5) by (force simp: registry_entries_def)
  show "R ?j = old"
  proof (cases old)
    case (Some pb)
    obtain p b where pb: "old = Some (p, b)" using Some by (cases pb) simp
    show ?thesis
      using leaf_bindingD [OF assms(4) _ _ mem, of p b] assms(6) eq by (simp add: pb)
  next
    case None
    then show ?thesis
      using eq mem assms(4) leaf_bindingD [OF assms(4), of _ _ None]
      by (cases "R ?j") fastforce+
  qed
qed

lemma registry_entries_update:
  "registry_entries (R(j := e)) d \<subseteq> registry_entries R d \<union> set_option e"
  by (auto simp: registry_entries_def)

end
