(* ===== verification/SlotProof.thy ===== *)
theory SlotProof
  imports Committee Registry
begin

text \<open>
  \<open>crates/slot-proof-guest/src/lib.rs\<close>: attestation slots proved by complement. A slot's committee
  comes as one summed key and one summed balance; the validators who signed another message and
  those who did not sign at all are opened out of the accumulator and subtracted. The three entry
  points share \<open>verify_attestations\<close>: the slot proof finishes the pairing, the group proof publishes
  a commitment to its Miller-loop half, the final proof of an epoch runs it inline.

  The code's five checkpoint arguments travel together and are the record \<open>vote_link\<close>; its three
  parallel vectors of keys, roots and signatures are one list of \<open>signed_message\<close>.

  The lemmas give the closed form of an accepted run (\<open>slots_summary\<close>): the balance is the sum of the
  supports, none of which went below zero, the mask is the set of the slots, every named validator
  was opened once, and the messages pair every derived key with the data it is over.
\<close>

datatype slot_panic =
    AccumulatorCommitmentMismatch
  | SlotsNotIncreasing
  | SlotPastCommitteeTree
  | NoPrimaryAggregate
  | PrimaryNamesSigners
  | TwoMessagesOneKey
  | KeySharedX
  | SecondaryNamesNobody
  | SourceEpochMismatch
  | SourceRootMismatch
  | TargetEpochMismatch
  | TargetRootMismatch
  | AbsenteesExceedCommittee
  | CommitteeAggregateIdentity
  | ValidatorNamedTwice
  | SlotMerkle merkle_panic
  | SlotAccRootMismatch
  | OpeningNothing
  | CommitteeMerkle merkle_panic
  | CommitteeRootMismatch
  | SlotMiller miller_panic
  | PairingInputsRejected
  | SignatureVerificationFailed

record vote_link =
  vl_source_epoch :: u64
  vl_source_root :: bytes32
  vl_target_epoch :: u64
  vl_target_root :: bytes32
  vl_signing_domain :: bytes32

record attested =
  att_balance :: u64
  att_mask :: u64
  att_miller :: fp12

definition same_data :: "attestation_witness \<Rightarrow> attestation_witness \<Rightarrow> bool" where
  "same_data a b \<longleftrightarrow>
     data_slot a = data_slot b \<and> data_index a = data_index b \<and>
     data_beacon_block_root a = data_beacon_block_root b \<and>
     data_source_epoch a = data_source_epoch b \<and> data_source_root a = data_source_root b \<and>
     data_target_epoch a = data_target_epoch b \<and> data_target_root a = data_target_root b"

definition push_message ::
  "zisk \<Rightarrow> vote_link \<Rightarrow> attestation_witness list \<Rightarrow> g1_point \<Rightarrow> slot_panic + signed_message" where
  "push_message Z L aggregates aggregate_key =
     (let a = hd aggregates in
     ensure (data_source_epoch a = vl_source_epoch L) SourceEpochMismatch
    (ensure (data_source_root a = vl_source_root L) SourceRootMismatch
    (ensure (data_target_epoch a = vl_target_epoch L) TargetEpochMismatch
    (ensure (data_target_root a = vl_target_root L) TargetRootMismatch
    (let data_root = attestation_data_root Z (data_slot a) (data_index a)
           (data_beacon_block_root a) (data_source_epoch a) (data_source_root a)
           (data_target_epoch a) (data_target_root a)
     in Inr \<lparr>sm_pubkeys = [aggregate_key],
             sm_signing_root = compute_signing_root Z data_root (vl_signing_domain L),
             sm_signatures = map signature aggregates\<rparr>)))))"

section \<open>One slot\<close>

definition opened_leaf :: "zisk \<Rightarrow> opened_validator \<Rightarrow> digest \<times> u64" where
  "opened_leaf Z v = (leaf Z (ov_pubkey v) (ov_balance v), ov_index v)"

text \<open>A signer of another message leaves the primary sum and joins that message's.\<close>

definition move_signer ::
  "zisk \<Rightarrow> point_sum \<times> point_sum \<times> (digest \<times> u64) list \<Rightarrow> opened_validator \<Rightarrow>
     slot_panic + point_sum \<times> point_sum \<times> (digest \<times> u64) list" where
  "move_signer Z st v =
     (case st of (primary_key, keys, opened) \<Rightarrow>
       bind_res (expect (point_sum_sub Z primary_key (ov_pubkey v)) KeySharedX) (\<lambda>primary_key'.
       bind_res (expect (point_sum_add Z keys (ov_pubkey v)) KeySharedX) (\<lambda>keys'.
       Inr (primary_key', keys', opened @ [opened_leaf Z v]))))"

definition secondary_step ::
  "zisk \<Rightarrow> vote_link \<Rightarrow> point_sum \<times> (digest \<times> u64) list \<times> signed_message list \<Rightarrow>
     attestation_witness \<Rightarrow> slot_panic + point_sum \<times> (digest \<times> u64) list \<times> signed_message list" where
  "secondary_step Z L st a =
     (case st of (primary_key, opened, messages) \<Rightarrow>
       bind_res (fold_res (move_signer Z) (primary_key, None, opened) (attesting_validators a))
         (\<lambda>(primary_key', keys, opened').
       bind_res (expect keys SecondaryNamesNobody) (\<lambda>key.
       bind_res (push_message Z L [a] key) (\<lambda>m.
       Inr (primary_key', opened', messages @ [m])))))"

definition absentee_step ::
  "zisk \<Rightarrow> point_sum \<times> (digest \<times> u64) list \<times> u64 \<Rightarrow> opened_validator \<Rightarrow>
     slot_panic + point_sum \<times> (digest \<times> u64) list \<times> u64" where
  "absentee_step Z st v =
     (case st of (primary_key, opened, support) \<Rightarrow>
       bind_res (expect (point_sum_sub Z primary_key (ov_pubkey v)) KeySharedX) (\<lambda>primary_key'.
       bind_res (expect (checked_sub support (ov_balance v)) AbsenteesExceedCommittee) (\<lambda>support'.
       Inr (primary_key', opened @ [opened_leaf Z v], support'))))"

record slots_state =
  ss_balance :: u64
  ss_mask :: u64
  ss_opened :: "(digest \<times> u64) list"
  ss_committee_leaves :: "(digest \<times> u64) list"
  ss_messages :: "signed_message list"
  ss_previous :: "u64 option"

definition slots_init :: slots_state where
  "slots_init = \<lparr>ss_balance = 0, ss_mask = 0, ss_opened = [], ss_committee_leaves = [],
     ss_messages = [], ss_previous = None\<rparr>"

definition slot_step ::
  "zisk \<Rightarrow> vote_link \<Rightarrow> slots_state \<Rightarrow> slot_complement_witness \<Rightarrow> slot_panic + slots_state" where
  "slot_step Z L st sl =
     ensure (case ss_previous st of Some p \<Rightarrow> slot_in_epoch sl > p | None \<Rightarrow> True) SlotsNotIncreasing
    (ensure (slot_in_epoch sl < MAX_SLOTS) SlotPastCommitteeTree
    (let mask = ss_mask st OR push_bit (unat (slot_in_epoch sl)) 1;
         committee_leaves =
           ss_committee_leaves st @ [(committee_leaf Z (committee sl), slot_in_epoch sl)] in
     ensure (primary sl \<noteq> []) NoPrimaryAggregate
    (ensure (list_all (\<lambda>a. attesting_validators a = []) (primary sl)) PrimaryNamesSigners
    (ensure (list_all (\<lambda>a. same_data (hd (primary sl)) a) (tl (primary sl))) TwoMessagesOneKey
    (bind_res (fold_res (secondary_step Z L)
        (Some (ca_pubkey (committee sl)), ss_opened st, ss_messages st) (secondary sl))
        (\<lambda>(primary_key, opened, messages).
     bind_res (fold_res (absentee_step Z) (primary_key, opened, ca_balance (committee sl))
        (absentees sl)) (\<lambda>(primary_key', opened', support).
     bind_res (expect primary_key' CommitteeAggregateIdentity) (\<lambda>key.
     bind_res (push_message Z L (primary sl) key) (\<lambda>m.
     Inr \<lparr>ss_balance = ss_balance st + support, ss_mask = mask, ss_opened = opened',
          ss_committee_leaves = committee_leaves, ss_messages = messages @ [m],
          ss_previous = Some (slot_in_epoch sl)\<rparr>)))))))))"

section \<open>The verification\<close>

definition verify_attestations ::
  "zisk \<Rightarrow> slot_complement_witness list \<Rightarrow> digest \<Rightarrow> digest list \<Rightarrow> digest \<Rightarrow> digest list \<Rightarrow>
     vote_link \<Rightarrow> nat \<Rightarrow> slot_panic + attested" where
  "verify_attestations Z slots acc_root acc_auxiliaries committee_root committee_auxiliaries L acc_depth =
     bind_res (fold_res (slot_step Z L) slots_init slots) (\<lambda>st.
     let opened = sort_key snd (ss_opened st) in
     ensure (strictly_increasing (map snd opened)) ValidatorNamedTwice
    (bind_res
       (if opened \<noteq> [] then
          bind_res (map_err SlotMerkle (batch_root (compress Z) opened acc_auxiliaries acc_depth))
            (\<lambda>r. ensure (r = acc_root) SlotAccRootMismatch (Inr ()))
        else ensure (acc_auxiliaries = []) OpeningNothing (Inr ())) (\<lambda>_.
     bind_res (map_err CommitteeMerkle
       (batch_root (compress Z) (ss_committee_leaves st) committee_auxiliaries TREE_DEPTH)) (\<lambda>r.
     ensure (r = committee_root) CommitteeRootMismatch
    (bind_res (map_err SlotMiller (miller_accumulator Z (ss_messages st))) (\<lambda>acc.
     bind_res (expect acc PairingInputsRejected) (\<lambda>f.
     Inr \<lparr>att_balance = ss_balance st, att_mask = ss_mask st, att_miller = f\<rparr>))))))) "

definition link_of :: "slot_proof_witness \<Rightarrow> vote_link" where
  "link_of w = \<lparr>vl_source_epoch = sw_source_epoch w, vl_source_root = sw_source_root w,
     vl_target_epoch = sw_target_epoch w, vl_target_root = sw_target_root w,
     vl_signing_domain = sw_signing_domain w\<rparr>"

definition attest :: "zisk \<Rightarrow> slot_proof_witness \<Rightarrow> nat \<Rightarrow> slot_panic + attested" where
  "attest Z w acc_depth =
     ensure (commitment Z (sw_acc_root w) (sw_total_active_balance w) = sw_accumulator_commitment w)
       AccumulatorCommitmentMismatch
    (verify_attestations Z (sw_slots w) (sw_acc_root w) (sw_acc_multi_proof w)
       (sw_committee_root w) (sw_committee_multi_proof w) (link_of w) acc_depth)"

definition verify_slot_proof_with_depth ::
  "zisk \<Rightarrow> slot_proof_witness \<Rightarrow> nat \<Rightarrow> slot_panic + slot_proof_output" where
  "verify_slot_proof_with_depth Z w acc_depth =
     bind_res (attest Z w acc_depth) (\<lambda>at.
     ensure (final_exp_is_one Z (att_miller at)) SignatureVerificationFailed
    (Inr \<lparr>sp_accumulator_commitment = sw_accumulator_commitment w,
          sp_committee_root = sw_committee_root w,
          sp_source_epoch = sw_source_epoch w, sp_source_root = sw_source_root w,
          sp_target_epoch = sw_target_epoch w, sp_target_root = sw_target_root w,
          sp_attesting_balance = att_balance at, sp_slots_mask = att_mask at\<rparr>))"

definition verify_slot_proof :: "zisk \<Rightarrow> slot_proof_witness \<Rightarrow> slot_panic + slot_proof_output" where
  "verify_slot_proof Z w = verify_slot_proof_with_depth Z w ACC_TREE_DEPTH"

definition verify_group_proof_with_depth ::
  "zisk \<Rightarrow> slot_proof_witness \<Rightarrow> nat \<Rightarrow> slot_panic + group_proof_output" where
  "verify_group_proof_with_depth Z w acc_depth =
     bind_res (attest Z w acc_depth) (\<lambda>at.
     Inr \<lparr>gp_accumulator_commitment = sw_accumulator_commitment w,
          gp_committee_root = sw_committee_root w,
          gp_source_epoch = sw_source_epoch w, gp_source_root = sw_source_root w,
          gp_target_epoch = sw_target_epoch w, gp_target_root = sw_target_root w,
          gp_attesting_balance = att_balance at, gp_slots_mask = att_mask at,
          gp_miller_commitment = commit_fp12 Z (att_miller at)\<rparr>)"

definition verify_group_proof :: "zisk \<Rightarrow> slot_proof_witness \<Rightarrow> slot_panic + group_proof_output" where
  "verify_group_proof Z w = verify_group_proof_with_depth Z w ACC_TREE_DEPTH"

section \<open>The closed form of an accepted run\<close>

definition named :: "slot_complement_witness \<Rightarrow> opened_validator list" where
  "named sl = concat (map attesting_validators (secondary sl)) @ absentees sl"

definition absent_balance :: "slot_complement_witness \<Rightarrow> nat" where
  "absent_balance sl = sum_list (map (\<lambda>v. unat (ov_balance v)) (absentees sl))"

definition slot_support :: "slot_complement_witness \<Rightarrow> nat" where
  "slot_support sl = unat (ca_balance (committee sl)) - absent_balance sl"

definition key_minus :: "zisk \<Rightarrow> point_sum \<Rightarrow> opened_validator list \<Rightarrow> point_sum option" where
  "key_minus Z s vs = point_sum_adds Z s (map (\<lambda>v. neg_bls12_381 Z (ov_pubkey v)) vs)"

lemma key_minus_simps [simp]:
  "key_minus Z s [] = Some s"
  "key_minus Z s (v # vs) =
     (case point_sum_sub Z s (ov_pubkey v) of None \<Rightarrow> None | Some s' \<Rightarrow> key_minus Z s' vs)"
  by (simp_all add: key_minus_def point_sum_sub_def split: option.split)

lemma key_minus_append:
  "key_minus Z s (vs @ ws) = (case key_minus Z s vs of None \<Rightarrow> None | Some s' \<Rightarrow> key_minus Z s' ws)"
  by (simp add: key_minus_def point_sum_adds_append split: option.split)

lemma absentee_step_Inr:
  "absentee_step Z (pk, opened, support) v = Inr res \<longleftrightarrow>
     (\<exists>p s. point_sum_sub Z pk (ov_pubkey v) = Some p \<and> checked_sub support (ov_balance v) = Some s \<and>
        res = (p, opened @ [opened_leaf Z v], s))"
  by (auto simp: absentee_step_def)

lemma move_signer_Inr:
  "move_signer Z (pk, keys, opened) v = Inr res \<longleftrightarrow>
     (\<exists>p k. point_sum_sub Z pk (ov_pubkey v) = Some p \<and> point_sum_add Z keys (ov_pubkey v) = Some k \<and>
        res = (p, k, opened @ [opened_leaf Z v]))"
  by (auto simp: move_signer_def)

lemma secondary_step_Inr:
  "secondary_step Z L (pk, opened, msgs) a = Inr res \<longleftrightarrow>
     (\<exists>p k opened' m. fold_res (move_signer Z) (pk, None, opened) (attesting_validators a) =
          Inr (p, Some k, opened') \<and> push_message Z L [a] k = Inr m \<and> res = (p, opened', msgs @ [m]))"
  by (auto simp: secondary_step_def)

lemma absentee_steps:
  assumes "fold_res (absentee_step Z) (pk, opened, support) vs = Inr (pk', opened', support')"
  shows "key_minus Z pk vs = Some pk' \<and> opened' = opened @ map (opened_leaf Z) vs \<and>
    unat support' + sum_list (map (\<lambda>v. unat (ov_balance v)) vs) = unat support"
  using assms
proof (induction vs arbitrary: pk opened support)
  case (Cons v vs)
  from Cons.prems obtain p s where
    p: "point_sum_sub Z pk (ov_pubkey v) = Some p" and s: "checked_sub support (ov_balance v) = Some s"
    and rest: "fold_res (absentee_step Z) (p, opened @ [opened_leaf Z v], s) vs =
      Inr (pk', opened', support')"
    by (auto simp: absentee_step_Inr)
  show ?case using Cons.IH [OF rest] p unat_checked_sub [OF s] by simp
qed simp

lemma move_signers:
  assumes "fold_res (move_signer Z) (pk, keys, opened) vs = Inr (pk', keys', opened')"
  shows "key_minus Z pk vs = Some pk' \<and> point_sum_adds Z keys (map ov_pubkey vs) = Some keys' \<and>
    opened' = opened @ map (opened_leaf Z) vs"
  using assms
proof (induction vs arbitrary: pk keys opened)
  case (Cons v vs)
  from Cons.prems obtain p k where
    "point_sum_sub Z pk (ov_pubkey v) = Some p" "point_sum_add Z keys (ov_pubkey v) = Some k"
    and rest: "fold_res (move_signer Z) (p, k, opened @ [opened_leaf Z v]) vs =
      Inr (pk', keys', opened')"
    by (auto simp: move_signer_Inr)
  with Cons.IH [OF rest] show ?case by simp
qed simp

text \<open>A secondary message is over the enumerated signers' key; the primary over the derived one.\<close>

definition secondary_message ::
  "zisk \<Rightarrow> vote_link \<Rightarrow> attestation_witness \<Rightarrow> signed_message \<Rightarrow> bool" where
  "secondary_message Z L a m \<longleftrightarrow>
     (\<exists>key. aggregate_points Z (map ov_pubkey (attesting_validators a)) = Some key \<and>
        push_message Z L [a] key = Inr m)"

definition primary_message ::
  "zisk \<Rightarrow> vote_link \<Rightarrow> slot_complement_witness \<Rightarrow> signed_message \<Rightarrow> bool" where
  "primary_message Z L sl m \<longleftrightarrow>
     (\<exists>key. key_minus Z (Some (ca_pubkey (committee sl))) (named sl) = Some (Some key) \<and>
        push_message Z L (primary sl) key = Inr m)"

definition slot_messages ::
  "zisk \<Rightarrow> vote_link \<Rightarrow> slot_complement_witness \<Rightarrow> signed_message list \<Rightarrow> bool" where
  "slot_messages Z L sl block \<longleftrightarrow>
     (\<exists>ms m. block = ms @ [m] \<and> list_all2 (secondary_message Z L) (secondary sl) ms \<and>
        primary_message Z L sl m)"

lemma secondary_steps:
  assumes "fold_res (secondary_step Z L) (pk, opened, msgs) as = Inr (pk', opened', msgs')"
  shows "key_minus Z pk (concat (map attesting_validators as)) = Some pk' \<and>
    opened' = opened @ map (opened_leaf Z) (concat (map attesting_validators as)) \<and>
    (\<exists>ms. msgs' = msgs @ ms \<and> list_all2 (secondary_message Z L) as ms)"
  using assms
proof (induction as arbitrary: pk opened msgs)
  case (Cons a as)
  from Cons.prems obtain p k opened1 m where
    mv: "fold_res (move_signer Z) (pk, None, opened) (attesting_validators a) = Inr (p, Some k, opened1)"
    and m: "push_message Z L [a] k = Inr m"
    and rest: "fold_res (secondary_step Z L) (p, opened1, msgs @ [m]) as = Inr (pk', opened', msgs')"
    by (auto simp: secondary_step_Inr)
  note mv' = move_signers [OF mv]
  then have "secondary_message Z L a m" using m by (simp add: secondary_message_def aggregate_points_def)
  moreover obtain ms where "msgs' = (msgs @ [m]) @ ms" "list_all2 (secondary_message Z L) as ms"
    using Cons.IH [OF rest] by blast
  ultimately have "\<exists>ms. msgs' = msgs @ ms \<and> list_all2 (secondary_message Z L) (a # as) ms"
    by (intro exI [of _ "m # ms"]) simp
  then show ?case using Cons.IH [OF rest] mv' by (simp add: key_minus_append)
qed simp

lemma slot_step_Inr:
  assumes "slot_step Z L st sl = Inr st'"
  shows "case ss_previous st of Some p \<Rightarrow> slot_in_epoch sl > p | None \<Rightarrow> True"
    and "unat (slot_in_epoch sl) < 32"
    and "ss_previous st' = Some (slot_in_epoch sl)"
    and "ss_mask st' = ss_mask st OR push_bit (unat (slot_in_epoch sl)) 1"
    and "ss_committee_leaves st' =
      ss_committee_leaves st @ [(committee_leaf Z (committee sl), slot_in_epoch sl)]"
    and "ss_opened st' = ss_opened st @ map (opened_leaf Z) (named sl)"
    and "absent_balance sl \<le> unat (ca_balance (committee sl))"
    and "ss_balance st' = ss_balance st + of_nat (slot_support sl)"
    and "\<exists>block. ss_messages st' = ss_messages st @ block \<and> slot_messages Z L sl block"
proof -
  from assms obtain pk opened msgs pk' opened' support key m where
    pre: "case ss_previous st of Some p \<Rightarrow> slot_in_epoch sl > p | None \<Rightarrow> True"
      "slot_in_epoch sl < MAX_SLOTS"
    and sec: "fold_res (secondary_step Z L)
      (Some (ca_pubkey (committee sl)), ss_opened st, ss_messages st) (secondary sl) =
        Inr (pk, opened, msgs)"
    and abs: "fold_res (absentee_step Z) (pk, opened, ca_balance (committee sl)) (absentees sl) =
      Inr (pk', opened', support)"
    and key: "pk' = Some key" and m: "push_message Z L (primary sl) key = Inr m"
    and st': "st' = \<lparr>ss_balance = ss_balance st + support,
          ss_mask = ss_mask st OR push_bit (unat (slot_in_epoch sl)) 1, ss_opened = opened',
          ss_committee_leaves =
            ss_committee_leaves st @ [(committee_leaf Z (committee sl), slot_in_epoch sl)],
          ss_messages = msgs @ [m], ss_previous = Some (slot_in_epoch sl)\<rparr>"
    unfolding slot_step_def Let_def by (auto simp del: push_bit_of_1)
  note s = secondary_steps [OF sec] and a = absentee_steps [OF abs]
  show "case ss_previous st of Some p \<Rightarrow> slot_in_epoch sl > p | None \<Rightarrow> True" by (rule pre)
  show "unat (slot_in_epoch sl) < 32" using pre(2) by (simp add: word_less_nat_alt)
  show "ss_previous st' = Some (slot_in_epoch sl)"
    and "ss_mask st' = ss_mask st OR push_bit (unat (slot_in_epoch sl)) 1"
    and "ss_committee_leaves st' =
      ss_committee_leaves st @ [(committee_leaf Z (committee sl), slot_in_epoch sl)]"
    by (simp_all only: st' slots_state.simps)
  show "ss_opened st' = ss_opened st @ map (opened_leaf Z) (named sl)"
    using s a by (simp add: st' named_def)
  have bal: "unat support + absent_balance sl = unat (ca_balance (committee sl))"
    using a by (simp add: absent_balance_def)
  then show "absent_balance sl \<le> unat (ca_balance (committee sl))" by simp
  have "unat support = slot_support sl" using bal by (simp add: slot_support_def)
  then show "ss_balance st' = ss_balance st + of_nat (slot_support sl)"
    by (simp add: st' flip: \<open>unat support = slot_support sl\<close>)
  have "key_minus Z (Some (ca_pubkey (committee sl))) (named sl) = Some (Some key)"
    using s a key by (simp add: named_def key_minus_append)
  then have "primary_message Z L sl m" using m by (auto simp: primary_message_def)
  then show "\<exists>block. ss_messages st' = ss_messages st @ block \<and> slot_messages Z L sl block"
    using s by (auto simp: st' slot_messages_def)
qed

definition slots_summary ::
  "zisk \<Rightarrow> vote_link \<Rightarrow> slot_complement_witness list \<Rightarrow> slots_state \<Rightarrow> bool" where
  "slots_summary Z L slots st \<longleftrightarrow>
     ss_previous st = (if slots = [] then None else Some (slot_in_epoch (last slots))) \<and>
     strictly_increasing (map slot_in_epoch slots) \<and>
     (\<forall>sl\<in>set slots. unat (slot_in_epoch sl) < 32 \<and>
        absent_balance sl \<le> unat (ca_balance (committee sl))) \<and>
     ss_balance st = of_nat (sum_list (map slot_support slots)) \<and>
     (\<forall>i. bit (ss_mask st) i \<longleftrightarrow> i \<in> (\<lambda>sl. unat (slot_in_epoch sl)) ` set slots) \<and>
     ss_opened st = map (opened_leaf Z) (concat (map named slots)) \<and>
     ss_committee_leaves st =
       map (\<lambda>sl. (committee_leaf Z (committee sl), slot_in_epoch sl)) slots \<and>
     (\<exists>blocks. ss_messages st = concat blocks \<and> list_all2 (slot_messages Z L) slots blocks)"

lemma slot_step_summary:
  assumes "slots_summary Z L slots st" "slot_step Z L st sl = Inr st'"
  shows "slots_summary Z L (slots @ [sl]) st'"
proof -
  note step = slot_step_Inr [OF assms(2)]
  have prev: "ss_previous st = (if slots = [] then None else Some (slot_in_epoch (last slots)))"
    and inc: "strictly_increasing (map slot_in_epoch slots)"
    and ok: "\<forall>sl\<in>set slots. unat (slot_in_epoch sl) < 32 \<and>
        absent_balance sl \<le> unat (ca_balance (committee sl))"
    and bal: "ss_balance st = of_nat (sum_list (map slot_support slots))"
    and mask: "\<And>i. bit (ss_mask st) i \<longleftrightarrow> i \<in> (\<lambda>sl. unat (slot_in_epoch sl)) ` set slots"
    and op: "ss_opened st = map (opened_leaf Z) (concat (map named slots))"
    and cl: "ss_committee_leaves st =
       map (\<lambda>sl. (committee_leaf Z (committee sl), slot_in_epoch sl)) slots"
    using assms(1) unfolding slots_summary_def by blast+
  obtain blocks where bl: "ss_messages st = concat blocks" "list_all2 (slot_messages Z L) slots blocks"
    using assms(1) unfolding slots_summary_def by blast
  obtain block where "ss_messages st' = ss_messages st @ block" "slot_messages Z L sl block"
    using step(9) by blast
  then have "\<exists>bs. ss_messages st' = concat bs \<and> list_all2 (slot_messages Z L) (slots @ [sl]) bs"
    using bl by (intro exI [of _ "blocks @ [block]"]) (simp add: list_all2_appendI)
  moreover have "bit (ss_mask st') i \<longleftrightarrow> i \<in> (\<lambda>sl. unat (slot_in_epoch sl)) ` set (slots @ [sl])" for i
    using step(2) mask by (auto simp: step(4) bit_or_iff bit_push_bit_iff bit_1_iff simp del: push_bit_of_1)
  moreover have "strictly_increasing (map slot_in_epoch (slots @ [sl]))"
    using step(1) inc prev by (auto simp: strictly_increasing_snoc last_map split: if_splits)
  ultimately show ?thesis
    unfolding slots_summary_def using step(2,3,5-8) ok bal op cl by simp
qed

lemma slot_steps_summary:
  assumes "fold_res (slot_step Z L) slots_init slots = Inr st"
  shows "slots_summary Z L slots st"
proof (rule fold_res_prefix_invariant [OF assms])
  show "slots_summary Z L [] slots_init" by (simp add: slots_summary_def slots_init_def)
qed (rule slot_step_summary)

lemma slots_summaryD:
  assumes "slots_summary Z L slots st"
  shows "ss_balance st = of_nat (sum_list (map slot_support slots))"
    and "\<And>i. bit (ss_mask st) i \<longleftrightarrow> i \<in> (\<lambda>sl. unat (slot_in_epoch sl)) ` set slots"
    and "ss_opened st = map (opened_leaf Z) (concat (map named slots))"
    and "ss_committee_leaves st = map (\<lambda>sl. (committee_leaf Z (committee sl), slot_in_epoch sl)) slots"
    and "strictly_increasing (map slot_in_epoch slots)"
    and "\<And>sl. sl \<in> set slots \<Longrightarrow>
      unat (slot_in_epoch sl) < 32 \<and> absent_balance sl \<le> unat (ca_balance (committee sl))"
  using assms unfolding slots_summary_def by blast+

text \<open>Everything an accepted \<open>verify_attestations\<close> has checked.\<close>

lemma verify_attestations_Inr:
  assumes "verify_attestations Z slots acc_root aaux committee_root caux L d = Inr at"
  obtains st where
    "slots_summary Z L slots st" "att_balance at = ss_balance st" "att_mask at = ss_mask st"
    "strictly_increasing (map snd (sort_key snd (ss_opened st)))"
    "ss_opened st \<noteq> [] \<Longrightarrow> batch_root (compress Z) (sort_key snd (ss_opened st)) aaux d = Inr acc_root"
    "batch_root (compress Z) (ss_committee_leaves st) caux 5 = Inr committee_root"
    "miller_accumulator Z (ss_messages st) = Inr (Some (att_miller at))"
proof -
  from assms obtain st f u where
    st: "fold_res (slot_step Z L) slots_init slots = Inr st"
    and inc: "strictly_increasing (map snd (sort_key snd (ss_opened st)))"
    and acc: "(if sort_key snd (ss_opened st) \<noteq> [] then
          bind_res (map_err SlotMerkle (batch_root (compress Z) (sort_key snd (ss_opened st)) aaux d))
            (\<lambda>r. ensure (r = acc_root) SlotAccRootMismatch (Inr ()))
        else ensure (aaux = []) OpeningNothing (Inr ())) = Inr (u :: unit)"
    and com: "batch_root (compress Z) (ss_committee_leaves st) caux 5 = Inr committee_root"
    and mil: "miller_accumulator Z (ss_messages st) = Inr (Some f)"
    and at: "\<lparr>att_balance = ss_balance st, att_mask = ss_mask st, att_miller = f\<rparr> = at"
    unfolding verify_attestations_def Let_def TREE_DEPTH_def
    by (simp only: bind_res_Inr ensure_Inr map_err_Inr expect_Inr sum.inject) (elim exE conjE, blast)
  have "ss_opened st \<noteq> [] \<Longrightarrow>
      batch_root (compress Z) (sort_key snd (ss_opened st)) aaux d = Inr acc_root"
    using acc by (cases "sort_key snd (ss_opened st) = []") (auto dest: arg_cong [where f = length])
  with slot_steps_summary [OF st] inc com mil at show thesis by (intro that [of st]) auto
qed

end
