(* ===== verification/StreamFinal.thy ===== *)
theory StreamFinal
  imports Finalization SlotProof
begin

text \<open>
  \<open>crates/stream-final-guest/src/lib.rs\<close>: the final proof of an epoch. It verifies the running
  aggregate, absorbs the group proofs that came too late, verifies the marginal slot inline, runs
  the one final exponentiation over the product of every accumulator, checks the supermajority,
  and turns the previous epoch's justification into a finalization.

  The checkpoint that is finalized is the source every counted attestation names, because both are
  read off the previous justification. The lemmas state what an accepted run has checked, part by
  part, and that no slot is counted twice across aggregate, groups and tail.
\<close>

datatype stream_panic =
    StreamCommitmentMismatch
  | StreamAggregation aggregate_panic
  | AggregateRejected
  | AggregateOtherProgram
  | AggregateOtherAccumulator
  | AggregateOtherEpoch
  | AggregateOtherCheckpoint
  | AggregateMillerMismatch
  | LateGroupsProofsLength
  | LateGroupsMillersLength
  | TailPanic slot_panic
  | TailAlreadyCounted
  | StreamSignatures
  | InsufficientBalance
  | PreviousJustRejected
  | PreviousJustOtherProgram
  | PreviousFinalOtherProgram
  | PreviousPartial
  | StreamEpochsNotConsecutive
  | StreamDiffStartsElsewhere
  | StreamBoundary ssz_panic
  | StreamRecursion recursion_panic

definition AGGREGATE_PROGRAM_VK :: program_vk where
  "AGGREGATE_PROGRAM_VK =
     [3781962061384985600, 8295092089734019428, 6821034076193943148, 2669516197799956909]"

definition stream_link :: "stream_final_witness \<Rightarrow> vote_link" where
  "stream_link w =
     \<lparr>vl_source_epoch = pj_target_epoch (sfw_previous_justification w),
      vl_source_root = pj_target_root (sfw_previous_justification w),
      vl_target_epoch = sfw_target_epoch w, vl_target_root = sfw_target_root w,
      vl_signing_domain = sfw_signing_domain w\<rparr>"

definition stream_links ::
  "zisk \<Rightarrow> stream_final_witness \<Rightarrow> stream_panic + digest \<times> bytes32 \<times> digest" where
  "stream_links Z w =
     (case aggregate w of
        Some agg \<Rightarrow> Inr (ao_previous_accumulator_commitment agg, ao_anchor_state_root agg,
                       ao_committee_root agg)
      | None \<Rightarrow>
          bind_res (map_err StreamAggregation (epoch_link Z (sfw_epoch_diff w)
            (sfw_epoch_diff_proof w) (sfw_accumulator_commitment w) (sfw_target_epoch w)))
            (\<lambda>(prev_commitment, anchor).
          bind_res (map_err StreamAggregation (committee_link Z (sfw_committee w)
            (sfw_committee_proof w) (sfw_accumulator_commitment w) (sfw_target_epoch w)))
            (\<lambda>committee_root.
          Inr (prev_commitment, anchor, committee_root))))"

definition running_aggregate ::
  "zisk \<Rightarrow> stream_final_witness \<Rightarrow> bytes32 \<Rightarrow> aggregate_output \<Rightarrow> stream_panic + fold_state" where
  "running_aggregate Z w cp_digest agg =
     bind_res (map_err StreamRecursion
       (baked_child Z (aggregate_proof w) AGGREGATE_PROGRAM_VK (ao_public_bytes agg))) (\<lambda>ok.
     ensure ok AggregateRejected
    (ensure (ao_program_vk agg = AGGREGATE_PROGRAM_VK) AggregateOtherProgram
    (ensure (ao_accumulator_commitment agg = sfw_accumulator_commitment w) AggregateOtherAccumulator
    (ensure (ao_target_epoch agg = sfw_target_epoch w) AggregateOtherEpoch
    (ensure (ao_checkpoint_digest agg = cp_digest) AggregateOtherCheckpoint
    (ensure (commit_fp12 Z (aggregate_miller w) = ao_miller_commitment agg) AggregateMillerMismatch
    (Inr \<lparr>fs_balance = ao_attesting_balance agg, fs_mask = ao_slots_mask agg,
          fs_miller = aggregate_miller w\<rparr>)))))))"

text \<open>The marginal slots; their mask is compared and not added, nothing after them reads it.\<close>

definition absorb_tail ::
  "zisk \<Rightarrow> stream_final_witness \<Rightarrow> digest \<Rightarrow> nat \<Rightarrow> fold_state \<Rightarrow> stream_panic + u64 \<times> fp12" where
  "absorb_tail Z w committee_root acc_depth st =
     (if sfw_tail w = [] then Inr (fs_balance st, fs_miller st)
      else
        bind_res (map_err TailPanic (verify_attestations Z (sfw_tail w) (sfw_acc_root w)
          (tail_acc_multi_proof w) committee_root (tail_committee_multi_proof w)
          (stream_link w) acc_depth)) (\<lambda>tail.
        ensure (fs_mask st AND att_mask tail = 0) TailAlreadyCounted
       (Inr (fs_balance st + att_balance tail, fp12_mul Z (fs_miller st) (att_miller tail)))))"

definition previous_proved :: "zisk \<Rightarrow> stream_final_witness \<Rightarrow> stream_panic + unit" where
  "previous_proved Z w =
     (let previous = sfw_previous_justification w; proof = sfw_previous_justification_proof w in
      case previous of
        Batch batch \<Rightarrow>
          bind_res (map_err StreamRecursion
            (baked_child Z proof JUSTIFICATION_PROGRAM_VK (pj_public_bytes previous))) (\<lambda>ok.
          ensure ok PreviousJustRejected
         (ensure (jo_program_vk batch = JUSTIFICATION_PROGRAM_VK) PreviousJustOtherProgram (Inr ())))
      | Stream stream \<Rightarrow>
          bind_res (map_err StreamRecursion
            (carried_child Z proof (stream_program_vk w) (pj_public_bytes previous))) (\<lambda>ok.
          ensure ok PreviousJustRejected
         (ensure (sf_program_vk stream = stream_program_vk w) PreviousFinalOtherProgram (Inr ()))))"

definition verify_stream_final_with ::
  "zisk \<Rightarrow> stream_final_witness \<Rightarrow> nat \<Rightarrow> u64 \<Rightarrow> stream_panic + stream_final_output" where
  "verify_stream_final_with Z w acc_depth per_epoch =
     ensure (commitment Z (sfw_acc_root w) (sfw_total_active_balance w) = sfw_accumulator_commitment w)
       StreamCommitmentMismatch
    (let previous = sfw_previous_justification w;
         source_epoch = pj_target_epoch previous;
         source_root = pj_target_root previous;
         cp_digest = checkpoint_digest Z source_epoch source_root (sfw_target_epoch w)
           (sfw_target_root w) in
     bind_res (stream_links Z w) (\<lambda>(prev_commitment, anchor, committee_root).
     bind_res (case aggregate w of Some agg \<Rightarrow> running_aggregate Z w cp_digest agg
               | None \<Rightarrow> Inr fold_open) (\<lambda>start.
     ensure (length (sfw_groups w) = length (sfw_group_proofs w)) LateGroupsProofsLength
    (ensure (length (sfw_groups w) = length (sfw_group_millers w)) LateGroupsMillersLength
    (let P = \<lparr>fp_accumulator_commitment = sfw_accumulator_commitment w,
              fp_committee_root = committee_root,
              fp_source_epoch = source_epoch, fp_source_root = source_root,
              fp_target_epoch = sfw_target_epoch w, fp_target_root = sfw_target_root w\<rparr> in
     bind_res (map_err StreamAggregation (fold_res (group_step Z P) start
         (zip (sfw_groups w) (zip (sfw_group_proofs w) (sfw_group_millers w))))) (\<lambda>st.
     bind_res (absorb_tail Z w committee_root acc_depth st) (\<lambda>(attesting_balance, miller).
     ensure (final_exp_is_one Z miller) StreamSignatures
    (ensure (two_thirds attesting_balance (sfw_total_active_balance w)) InsufficientBalance
    (bind_res (previous_proved Z w) (\<lambda>_.
     ensure (pj_is_justified previous) PreviousPartial
    (ensure (pj_target_epoch previous + 1 = sfw_target_epoch w) StreamEpochsNotConsecutive
    (ensure (pj_accumulator_commitment previous = prev_commitment) StreamDiffStartsElsewhere
    (bind_res (map_err StreamBoundary
       (open_boundary Z (sfw_boundary w) (pj_target_epoch previous) (pj_target_root previous)
          (sfw_target_root w) anchor per_epoch)) (\<lambda>_.
     Inr \<lparr>sf_accumulator_commitment = prev_commitment,
          sf_next_accumulator_commitment = sfw_accumulator_commitment w,
          sf_finalized_epoch = pj_target_epoch previous,
          sf_finalized_root = pj_target_root previous,
          sf_finalized_state_root = anchor,
          sf_justified_epoch = sfw_target_epoch w,
          sf_justified_root = sfw_target_root w,
          sf_program_vk = stream_program_vk w\<rparr>))))))))))))))"

definition verify_stream_final_with_depth ::
  "zisk \<Rightarrow> stream_final_witness \<Rightarrow> nat \<Rightarrow> stream_panic + stream_final_output" where
  "verify_stream_final_with_depth Z w acc_depth = verify_stream_final_with Z w acc_depth SLOTS_PER_EPOCH"

definition verify_stream_final ::
  "zisk \<Rightarrow> stream_final_witness \<Rightarrow> stream_panic + stream_final_output" where
  "verify_stream_final Z w = verify_stream_final_with_depth Z w ACC_TREE_DEPTH"

section \<open>What an accepted final proof has checked\<close>

lemma absorb_tail_Inr:
  assumes "absorb_tail Z w croot d st = Inr (b, f)" "sfw_tail w \<noteq> []"
  obtains tail where
    "verify_attestations Z (sfw_tail w) (sfw_acc_root w) (tail_acc_multi_proof w) croot
       (tail_committee_multi_proof w) (stream_link w) d = Inr tail"
    "slot_set (fs_mask st) \<inter> slot_set (att_mask tail) = {}"
    "b = fs_balance st + att_balance tail" "f = fp12_mul Z (fs_miller st) (att_miller tail)"
  using assms by (auto simp: absorb_tail_def AND_eq_0_iff)

lemma absorb_tail_counts:
  assumes "absorb_tail Z w croot d st = Inr (b, f)"
  shows "\<exists>tail. case tail of
      None \<Rightarrow> sfw_tail w = [] \<and> b = fs_balance st \<and> f = fs_miller st
    | Some t \<Rightarrow> sfw_tail w \<noteq> [] \<and>
        verify_attestations Z (sfw_tail w) (sfw_acc_root w) (tail_acc_multi_proof w) croot
          (tail_committee_multi_proof w) (stream_link w) d = Inr t \<and>
        slot_set (fs_mask st) \<inter> slot_set (att_mask t) = {} \<and>
        b = fs_balance st + att_balance t \<and> f = fp12_mul Z (fs_miller st) (att_miller t)"
proof (cases "sfw_tail w = []")
  case True
  then show ?thesis using assms by (intro exI [of _ None]) (simp add: absorb_tail_def)
next
  case False
  obtain t where "verify_attestations Z (sfw_tail w) (sfw_acc_root w) (tail_acc_multi_proof w) croot
      (tail_committee_multi_proof w) (stream_link w) d = Inr t"
    "slot_set (fs_mask st) \<inter> slot_set (att_mask t) = {}"
    "b = fs_balance st + att_balance t" "f = fp12_mul Z (fs_miller st) (att_miller t)"
    by (rule absorb_tail_Inr [OF assms False])
  then show ?thesis using False by (intro exI [of _ "Some t"]) simp
qed

text \<open>What the running aggregate brings in.\<close>

lemma running_aggregate_Inr:
  "running_aggregate Z w cp agg = Inr start \<longleftrightarrow>
     baked_child Z (aggregate_proof w) AGGREGATE_PROGRAM_VK (ao_public_bytes agg) = Inr True \<and>
     ao_program_vk agg = AGGREGATE_PROGRAM_VK \<and>
     ao_accumulator_commitment agg = sfw_accumulator_commitment w \<and>
     ao_target_epoch agg = sfw_target_epoch w \<and> ao_checkpoint_digest agg = cp \<and>
     commit_fp12 Z (aggregate_miller w) = ao_miller_commitment agg \<and>
     start = \<lparr>fs_balance = ao_attesting_balance agg, fs_mask = ao_slots_mask agg, fs_miller = aggregate_miller w\<rparr>"
  by (auto simp: running_aggregate_def)

lemma verify_stream_final_Inr:
  assumes "verify_stream_final_with Z w d n = Inr out"
  obtains committee_root start st balance miller P where
    "stream_links Z w =
       Inr (sf_accumulator_commitment out, sf_finalized_state_root out, committee_root)"
    "case aggregate w of
       Some agg \<Rightarrow> running_aggregate Z w
         (checkpoint_digest Z (sf_finalized_epoch out) (sf_finalized_root out) (sf_justified_epoch out)
            (sf_justified_root out)) agg = Inr start
     | None \<Rightarrow> start = fold_open"
    "P = \<lparr>fp_accumulator_commitment = sf_next_accumulator_commitment out,
        fp_committee_root = committee_root,
        fp_source_epoch = sf_finalized_epoch out, fp_source_root = sf_finalized_root out,
        fp_target_epoch = sf_justified_epoch out, fp_target_root = sf_justified_root out\<rparr>"
    "fold_res (group_step Z P) start
       (zip (sfw_groups w) (zip (sfw_group_proofs w) (sfw_group_millers w))) = Inr st"
    "absorb_tail Z w committee_root d st = Inr (balance, miller)"
    "final_exp_is_one Z miller" "two_thirds balance (sfw_total_active_balance w)"
    "previous_proved Z w = Inr ()" "pj_is_justified (sfw_previous_justification w)"
    "sf_finalized_epoch out + 1 = sf_justified_epoch out"
    "sf_finalized_epoch out = pj_target_epoch (sfw_previous_justification w)"
    "sf_finalized_root out = pj_target_root (sfw_previous_justification w)"
    "pj_accumulator_commitment (sfw_previous_justification w) = sf_accumulator_commitment out"
    "open_boundary Z (sfw_boundary w) (sf_finalized_epoch out) (sf_finalized_root out)
       (sf_justified_root out) (sf_finalized_state_root out) n = Inr ()"
    "sf_next_accumulator_commitment out = sfw_accumulator_commitment w"
    "commitment Z (sfw_acc_root w) (sfw_total_active_balance w) = sfw_accumulator_commitment w"
    "sf_justified_epoch out = sfw_target_epoch w" "sf_justified_root out = sfw_target_root w"
    "sf_program_vk out = stream_program_vk w"
    "length (sfw_groups w) = length (sfw_group_proofs w)"
    "length (sfw_groups w) = length (sfw_group_millers w)"
proof (cases "aggregate w")
  case None
  with assms show thesis
    by (auto simp: verify_stream_final_with_def Let_def intro!: that)
next
  case (Some agg)
  with assms show thesis
    by (auto simp: verify_stream_final_with_def Let_def intro!: that)
qed

end
