(* ===== verification/DenseTree.thy ===== *)
theory DenseTree
  imports Committee
begin

text \<open>
  What the stored trees of the host share: the accumulator tree (\<open>witness-gen/src/acc_tree.rs\<close>) and
  the SSZ trees (\<open>state_diff.rs\<close>, \<open>ssz_state.rs\<close>) store only the levels below the next power of two
  of their leaves, and read everything above and beside as the zero hash of its level. Both are
  generic here in the digest, the compression function and the zero leaf.

  The locale \<open>dense_store\<close> states what such a store answers; it gives \<open>Merkle.node_source\<close>, hence
  that every multi-proof collected from the store verifies.
\<close>

section \<open>The code they share\<close>

fun ceil_log2 :: "nat \<Rightarrow> nat" where
  "ceil_log2 n = (if n \<le> 1 then 0 else Suc (ceil_log2 ((n + 1) div 2)))"

declare ceil_log2.simps [simp del]

fun build_levels :: "('a \<Rightarrow> 'a \<Rightarrow> 'a) \<Rightarrow> nat \<Rightarrow> 'a list \<Rightarrow> 'a list list" where
  "build_levels f 0 level = [level]"
| "build_levels f (Suc d) level = level # build_levels f d (pair_level f level)"

fun zero_node :: "('a \<Rightarrow> 'a \<Rightarrow> 'a) \<Rightarrow> 'a \<Rightarrow> nat \<Rightarrow> 'a" where
  "zero_node f z 0 = z"
| "zero_node f z (Suc d) = f (zero_node f z d) (zero_node f z d)"

definition sparse_root :: "('a \<Rightarrow> 'a \<Rightarrow> 'a) \<Rightarrow> 'a list \<Rightarrow> 'a \<Rightarrow> nat \<Rightarrow> nat \<Rightarrow> 'a" where
  "sparse_root f zeros dense_root dense depth =
     foldl (\<lambda>current d. f current (zeros ! d)) dense_root [dense..<depth]"

section \<open>Nodes of a tree\<close>

lemma ceil_log2_bound: "n \<le> 2 ^ ceil_log2 n"
proof (induction n rule: ceil_log2.induct)
  case (1 n)
  show ?case
  proof (cases "n \<le> 1")
    case False
    then have "(n + 1) div 2 \<le> 2 ^ ceil_log2 ((n + 1) div 2)" using 1 by simp
    then have "n \<le> 2 * 2 ^ ceil_log2 ((n + 1) div 2)" by linarith
    then show ?thesis using False by (subst ceil_log2.simps) simp
  qed (simp add: ceil_log2.simps)
qed

lemma level_node_parent:
  "level_node f L (Suc l) i = f (level_node f L l (2 * i)) (level_node f L l (2 * i + 1))"
  by (simp add: level_node_def parent_leaves_def)

lemma level_node_0: "level_node f L 0 i = L i"
  by (simp add: level_node_def)

lemma parent_leaves_level_node: "parent_leaves f (level_node f L l) = level_node f L (Suc l)"
  by (simp add: level_node_def)

lemma level_node_shift: "level_node f (parent_leaves f L) l i = level_node f L (Suc l) i"
  by (simp add: level_node_def funpow_swap1)

lemma div_2_power_Suc: "(k :: nat) div 2 ^ Suc l = k div 2 div 2 ^ l"
  by (simp add: div_mult2_eq)

lemma div_power_2_Suc: "(k :: nat) div 2 ^ Suc l = k div 2 ^ l div 2"
  by (simp only: power_Suc2 div_mult2_eq)

lemma pair_level_nodes:
  "pair_level f (map (level_node f L l) [0..<2 ^ Suc d]) = map (level_node f L (Suc l)) [0..<2 ^ d]"
  by (simp only: power_Suc pair_level_upt parent_leaves_level_node)

lemma length_build_levels [simp]: "length (build_levels f d level) = Suc d"
  by (induction d arbitrary: level) simp_all

lemma build_levels_nth:
  "level = map (level_node f L l) [0..<2 ^ d] \<Longrightarrow> i \<le> d \<Longrightarrow>
     build_levels f d level ! i = map (level_node f L (l + i)) [0..<2 ^ (d - i)]"
proof (induction d arbitrary: level l i)
  case (Suc d)
  have "pair_level f level = map (level_node f L (Suc l)) [0..<2 ^ d]"
    unfolding Suc.prems(1) by (rule pair_level_nodes)
  then show ?case
    using Suc.prems Suc.IH [of "pair_level f level" "Suc l" "i - 1"] by (cases i) simp_all
qed simp

lemma level_node_update_other:
  "k div 2 ^ l \<noteq> i \<Longrightarrow> level_node f (L(k := v)) l i = level_node f L l i"
proof (induction l arbitrary: i)
  case (Suc l)
  then have "k div 2 ^ l div 2 \<noteq> i" by (simp only: div_power_2_Suc) simp
  then have "k div 2 ^ l \<noteq> 2 * i" "k div 2 ^ l \<noteq> 2 * i + 1" by auto
  from Suc.IH [OF this(1)] Suc.IH [OF this(2)] show ?case by (simp only: level_node_parent)
qed (simp add: level_node_0)

text \<open>A node beyond the leaves is the zero hash of its level.\<close>

lemma level_node_zero:
  "(\<And>i. n \<le> i \<Longrightarrow> L i = z) \<Longrightarrow> n \<le> i * 2 ^ l \<Longrightarrow> level_node f L l i = zero_node f z l"
proof (induction l arbitrary: i)
  case 0
  then show ?case by (simp add: level_node_0)
next
  case (Suc l)
  have "n \<le> 2 * i * 2 ^ l" using Suc.prems(2) by (simp add: mult.assoc)
  moreover have "n \<le> (2 * i + 1) * 2 ^ l"
    by (rule order_trans [OF calculation]) (simp add: algebra_simps)
  ultimately show ?case
    using Suc.IH [of "2 * i"] Suc.IH [of "2 * i + 1"] Suc.prems(1)
    by (simp add: level_node_parent)
qed

text \<open>Chaining the zero hashes over the dense root gives the root of the full tree.\<close>

lemma sparse_root_tree:
  assumes "\<And>i. 2 ^ dense \<le> i \<Longrightarrow> L i = z" "dense \<le> depth"
    and "\<And>d. d < depth \<Longrightarrow> zeros ! d = zero_node f z d"
  shows "sparse_root f zeros (level_node f L dense 0) dense depth = tree_root f L depth"
proof -
  have "foldl (\<lambda>current d. f current (zeros ! d)) (level_node f L dense 0) [dense..<n] =
      level_node f L n 0" if "dense \<le> n" "n \<le> depth" for n
    using that
  proof (induction n)
    case (Suc n)
    show ?case
    proof (cases "dense = Suc n")
      case False
      then have n: "dense \<le> n" using Suc.prems(1) by simp
      have "(2 :: nat) ^ dense \<le> 1 * 2 ^ n" using n by simp
      from level_node_zero [of "2 ^ dense" L z 1 n f, OF assms(1) this]
      have "level_node f L n 1 = zero_node f z n" by simp
      then show ?thesis
        using Suc n assms(3) [of n] by (simp add: level_node_parent)
    qed simp
  qed simp
  from this [of depth] assms(2) show ?thesis by (simp add: sparse_root_def level_node_tree_root)
qed

lemma path_siblings_level:
  "path_siblings f L d k =
     map (\<lambda>l. level_node f L l (if even (k div 2 ^ l) then k div 2 ^ l + 1 else k div 2 ^ l - 1)) [0..<d]"
proof (induction d arbitrary: L k)
  case (Suc d)
  have "path_siblings f L (Suc d) k = L (if even k then k + 1 else k - 1) #
      map (\<lambda>l. level_node f (parent_leaves f L) l
        (if even (k div 2 div 2 ^ l) then k div 2 div 2 ^ l + 1 else k div 2 div 2 ^ l - 1)) [0..<d]"
    using Suc by simp
  also have "\<dots> = map (\<lambda>l. level_node f L l
      (if even (k div 2 ^ l) then k div 2 ^ l + 1 else k div 2 ^ l - 1)) (0 # map Suc [0..<d])"
    by (simp add: level_node_shift level_node_0 div_2_power_Suc comp_def del: power_Suc)
  also have "0 # map Suc [0..<d] = [0..<Suc d]"
    by (simp only: map_Suc_upt) (rule upt_conv_Cons [symmetric], simp)
  finally show ?case .
qed simp

section \<open>The interface of a dense store\<close>

definition below_dense :: "nat \<Rightarrow> nat \<Rightarrow> u64 set" where
  "below_dense dense l = {k. unat k < 2 ^ (dense - l)}"

locale dense_store =
  fixes compress :: "'a \<Rightarrow> 'a \<Rightarrow> 'a"
    and zero :: 'a
    and get :: "'t \<Rightarrow> nat \<Rightarrow> u64 \<Rightarrow> 'a"
    and leaf_at :: "'t \<Rightarrow> nat \<Rightarrow> 'a"
    and height :: "'t \<Rightarrow> nat"
    and dense :: "'t \<Rightarrow> nat"
    and invar :: "'t \<Rightarrow> bool"
  assumes dense_le: "invar t \<Longrightarrow> dense t \<le> height t"
    and leaf_beyond: "invar t \<Longrightarrow> 2 ^ dense t \<le> i \<Longrightarrow> leaf_at t i = zero"
    and get_dense: "invar t \<Longrightarrow> l < dense t \<Longrightarrow> unat k < 2 ^ (dense t - l) \<Longrightarrow>
      get t l k = level_node compress (leaf_at t) l (unat k)"
    and get_sparse: "invar t \<Longrightarrow> dense t \<le> l \<Longrightarrow> l < height t \<Longrightarrow>
      get t l k = zero_node compress zero l"
begin

lemma get_beside:
  assumes "invar t" "dense t \<le> l" "l < height t" "0 < unat k"
  shows "get t l k = level_node compress (leaf_at t) l (unat k)"
proof -
  have "2 ^ dense t \<le> (2 :: nat) ^ l" using assms(2) by simp
  also have "\<dots> \<le> unat k * 2 ^ l" using assms(4) by simp
  finally show ?thesis
    using level_node_zero [of "2 ^ dense t" "leaf_at t" zero "unat k" l compress,
        OF leaf_beyond [OF assms(1)]] get_sparse [OF assms(1-3)]
    by simp
qed

end

sublocale dense_store \<subseteq> node_source compress get leaf_at height "\<lambda>t. below_dense (dense t)" invar
proof
  fix t l and k :: u64
  assume ok: "invar t" and l: "l < height t" and k: "k \<in> below_dense (dense t) l"
  show "get t l (k + 1) = level_node compress (leaf_at t) l (unat k + 1)" if ev: "even (unat k)"
  proof (cases "l < dense t")
    case True
    then have "(2 :: nat) ^ (dense t - l) = 2 * 2 ^ (dense t - l - 1)"
      by (cases "dense t - l") simp_all
    then have "unat k + 1 < 2 ^ (dense t - l)"
      using k ev unfolding below_dense_def by (simp, presburger)
    then show ?thesis
      using get_dense [OF ok True, of "k + 1"] even_succ_unat [OF ev] by simp
  next
    case False
    then show ?thesis
      using get_beside [OF ok _ l, of "k + 1"] even_succ_unat [OF ev] by simp
  qed
  show "get t l (k - 1) = level_node compress (leaf_at t) l (unat k - 1)" if od: "odd (unat k)"
  proof (cases "l < dense t")
    case True
    then show ?thesis
      using get_dense [OF ok True, of "k - 1"] odd_pred_unat [OF od] k
      by (simp add: below_dense_def)
  next
    case False
    then show ?thesis using k od by (simp add: below_dense_def)
  qed
  show "drop_bit 1 k \<in> below_dense (dense t) (Suc l)"
  proof (cases "l < dense t")
    case True
    then have "(2 :: nat) ^ (dense t - l) = 2 * 2 ^ (dense t - Suc l)"
      by (metis Suc_diff_Suc power_Suc)
    then show ?thesis
      using k by (simp add: below_dense_def unat_shift1 del: One_nat_def)
  next
    case False
    then have "unat k = 0" using k by (simp add: below_dense_def)
    then show ?thesis by (simp add: below_dense_def unat_shift1 del: One_nat_def)
  qed
next
  fix t and k :: u64
  assume "invar t" "k \<in> below_dense (dense t) (height t)"
  then show "k = 0" using dense_le [of t] by (simp add: below_dense_def unat_eq_0)
qed

lemma unat_xor_1: "unat ((k :: u64) XOR 1) = (if even (unat k) then unat k + 1 else unat k - 1)"
proof -
  have "k XOR 1 = (if even k then k + 1 else k - 1)" by (simp add: xor_one_eq)
  then show ?thesis
    using even_succ_unat [of k] odd_pred_unat [of k] by (simp add: even_unat_word)
qed

end
