(* ===== verification/AccTree.thy ===== *)
theory AccTree
  imports DenseTree Registry
begin

text \<open>
  \<open>crates/witness-gen/src/acc_tree.rs\<close>: the host's accumulator tree. Only the dense levels are stored;
  above and beside them a node is the zero hash of its level. \<open>build_multi_proof\<close> is the scan of
  \<open>Merkle.collect_levels\<close> over \<open>get_node\<close>.

  \<open>acc_tree_ok\<close> is what \<open>verify_consistent\<close> checks, with right zero hashes. The theory interprets
  \<open>node_source\<close> on the tree, so that every multi-proof it builds verifies in the guests, and shows
  that \<open>update_leaf\<close> keeps the tree consistent, returns the path the guests recompute the old root
  from, and leaves the root of the written leaves.

  Indices are \<open>usize\<close>, 64 bits. The parallel iterators are the sequential maps they compute, and
  \<open>crate::pubkey::decompress\<close>, which calls the \<open>blst\<close> library, is a parameter of \<open>build\<close>.
\<close>

datatype tree_panic = InvalidKey | TreeIndexOutOfBounds

datatype consistency_error =
    WrongLevelCount
  | DenseExceedsDepth
  | WrongLevelSize nat
  | LevelDoesNotHash nat

record acc_tree =
  tree_depth :: nat
  dense_depth :: nat
  tree_levels :: "digest list list"
  zero_hashes :: "digest list"

definition compute_zero_hashes :: "zisk \<Rightarrow> nat \<Rightarrow> digest list" where
  "compute_zero_hashes Z depth = map (zero_node (compress Z) ZERO) [0..<depth + 1]"

text \<open>\<open>resize\<close>: cut or pad with zero digests to a length.\<close>

definition resize :: "nat \<Rightarrow> digest list \<Rightarrow> digest list" where
  "resize n xs = take n xs @ replicate (n - length xs) ZERO"

fun build_leaves ::
  "zisk \<Rightarrow> (bytes \<Rightarrow> g1_point option) \<Rightarrow> u64 \<Rightarrow> validator_data list \<Rightarrow> tree_panic + digest list" where
  "build_leaves Z decompress epoch [] = Inr []"
| "build_leaves Z decompress epoch (v # vs) =
     bind_res (expect (decompress (vd_pubkey v)) InvalidKey) (\<lambda>point.
     bind_res (build_leaves Z decompress epoch vs) (\<lambda>ls.
     Inr (leaf Z point (active_effective_balance v epoch) # ls)))"

definition acc_tree_build ::
  "zisk \<Rightarrow> (bytes \<Rightarrow> g1_point option) \<Rightarrow> validator_data list \<Rightarrow> u64 \<Rightarrow> nat \<Rightarrow> tree_panic + acc_tree" where
  "acc_tree_build Z decompress validators epoch depth =
     (let dense = min (max (ceil_log2 (length validators)) 1) depth;
          dense_capacity = 2 ^ dense in
     bind_res (build_leaves Z decompress epoch validators) (\<lambda>leaves.
     Inr \<lparr>tree_depth = depth, dense_depth = dense,
          tree_levels = build_levels (compress Z) dense (resize dense_capacity leaves),
          zero_hashes = compute_zero_hashes Z depth\<rparr>))"

definition from_raw :: "zisk \<Rightarrow> digest list list \<Rightarrow> nat \<Rightarrow> nat \<Rightarrow> acc_tree" where
  "from_raw Z levels depth dense =
     \<lparr>tree_depth = depth, dense_depth = dense, tree_levels = levels,
      zero_hashes = compute_zero_hashes Z depth\<rparr>"

definition size_step :: "acc_tree \<Rightarrow> unit \<Rightarrow> nat \<Rightarrow> consistency_error + unit" where
  "size_step t u d =
     ensure (length (tree_levels t ! d) = 2 ^ (dense_depth t - d)) (WrongLevelSize d) (Inr ())"

definition hash_step :: "zisk \<Rightarrow> acc_tree \<Rightarrow> unit \<Rightarrow> nat \<Rightarrow> consistency_error + unit" where
  "hash_step Z t u d =
     ensure (pair_level (compress Z) (tree_levels t ! d) = tree_levels t ! (d + 1))
       (LevelDoesNotHash d) (Inr ())"

definition verify_consistent :: "zisk \<Rightarrow> acc_tree \<Rightarrow> consistency_error + unit" where
  "verify_consistent Z t =
     ensure (length (tree_levels t) = dense_depth t + 1) WrongLevelCount
    (ensure (dense_depth t \<le> tree_depth t) DenseExceedsDepth
    (bind_res (fold_res (size_step t) () [0..<length (tree_levels t)]) (\<lambda>_.
     fold_res (hash_step Z t) () [0..<dense_depth t])))"

definition acc_tree_root :: "zisk \<Rightarrow> acc_tree \<Rightarrow> digest" where
  "acc_tree_root Z t =
     sparse_root (compress Z) (zero_hashes t) (tree_levels t ! dense_depth t ! 0)
       (dense_depth t) (tree_depth t)"

fun dense_siblings :: "acc_tree \<Rightarrow> u64 \<Rightarrow> nat list \<Rightarrow> tree_panic + digest list" where
  "dense_siblings t idx [] = Inr []"
| "dense_siblings t idx (d # ds) =
     (let sibling_idx = unat (idx XOR 1) in
     ensure (sibling_idx < length (tree_levels t ! d)) TreeIndexOutOfBounds
    (bind_res (dense_siblings t (drop_bit 1 idx) ds) (\<lambda>ss.
     Inr (tree_levels t ! d ! sibling_idx # ss))))"

definition get_siblings :: "acc_tree \<Rightarrow> u64 \<Rightarrow> tree_panic + digest list" where
  "get_siblings t index =
     bind_res (dense_siblings t index [0..<dense_depth t]) (\<lambda>ss.
     Inr (ss @ map (\<lambda>d. zero_hashes t ! d) [dense_depth t..<tree_depth t]))"

definition get_node :: "acc_tree \<Rightarrow> nat \<Rightarrow> u64 \<Rightarrow> digest" where
  "get_node t level idx =
     (if level < dense_depth t then
        (let level_data = tree_levels t ! level in
         if unat idx < length level_data then level_data ! unat idx else zero_hashes t ! level)
      else zero_hashes t ! level)"

definition build_multi_proof :: "acc_tree \<Rightarrow> u64 list \<Rightarrow> digest list" where
  "build_multi_proof t leaf_indices =
     collect_levels (get_node t) [0..<tree_depth t] (remdups_adj (sort leaf_indices))"

definition update_level :: "zisk \<Rightarrow> digest list list \<times> nat \<Rightarrow> nat \<Rightarrow> digest list list \<times> nat" where
  "update_level Z st d =
     (let (levels, idx) = st;
          parent_idx = idx div 2;
          lft = levels ! d ! (parent_idx * 2);
          rgt = levels ! d ! (parent_idx * 2 + 1)
      in (levels[d + 1 := (levels ! (d + 1))[parent_idx := compress Z lft rgt]], parent_idx))"

definition update_leaf ::
  "zisk \<Rightarrow> acc_tree \<Rightarrow> u64 \<Rightarrow> digest \<Rightarrow> tree_panic + acc_tree \<times> digest list" where
  "update_leaf Z t index new_leaf =
     bind_res (get_siblings t index) (\<lambda>siblings.
     ensure (unat index < length (tree_levels t ! 0)) TreeIndexOutOfBounds
    (let levels = (tree_levels t)[0 := (tree_levels t ! 0)[unat index := new_leaf]];
         (levels', _) = foldl (update_level Z) (levels, unat index) [0..<dense_depth t]
     in Inr (t\<lparr>tree_levels := levels'\<rparr>, siblings)))"

section \<open>The tree a consistent store holds\<close>

definition acc_tree_ok :: "zisk \<Rightarrow> acc_tree \<Rightarrow> bool" where
  "acc_tree_ok Z t \<longleftrightarrow>
     verify_consistent Z t = Inr () \<and> zero_hashes t = compute_zero_hashes Z (tree_depth t)"

definition stored_leaf :: "acc_tree \<Rightarrow> nat \<Rightarrow> digest" where
  "stored_leaf t i = (if i < 2 ^ dense_depth t then tree_levels t ! 0 ! i else ZERO)"

lemma fold_res_unit:
  "(\<And>u x. f u x = ensure (P x) (e x) (Inr ())) \<Longrightarrow>
     fold_res f () xs = Inr () \<longleftrightarrow> (\<forall>x\<in>set xs. P x)"
  by (induction xs) simp_all

lemma verify_consistent_iff:
  "verify_consistent Z t = Inr () \<longleftrightarrow>
     length (tree_levels t) = dense_depth t + 1 \<and> dense_depth t \<le> tree_depth t \<and>
     (\<forall>d\<le>dense_depth t. length (tree_levels t ! d) = 2 ^ (dense_depth t - d)) \<and>
     (\<forall>d<dense_depth t. pair_level (compress Z) (tree_levels t ! d) = tree_levels t ! (d + 1))"
proof -
  have "fold_res (size_step t) () xs = Inr () \<longleftrightarrow>
      (\<forall>d\<in>set xs. length (tree_levels t ! d) = 2 ^ (dense_depth t - d))" for xs
    by (rule fold_res_unit) (rule size_step_def)
  moreover have "fold_res (hash_step Z t) () xs = Inr () \<longleftrightarrow>
      (\<forall>d\<in>set xs. pair_level (compress Z) (tree_levels t ! d) = tree_levels t ! (d + 1))" for xs
    by (rule fold_res_unit) (rule hash_step_def)
  ultimately show ?thesis
    by (auto simp: verify_consistent_def less_Suc_eq_le)
qed

lemma zero_hashes_nth:
  "acc_tree_ok Z t \<Longrightarrow> d \<le> tree_depth t \<Longrightarrow> zero_hashes t ! d = zero_node (compress Z) ZERO d"
  by (simp add: acc_tree_ok_def compute_zero_hashes_def nth_append del: upt_Suc)

lemma stored_node:
  assumes "acc_tree_ok Z t" "l \<le> dense_depth t"
  shows "tree_levels t ! l = map (level_node (compress Z) (stored_leaf t) l) [0..<2 ^ (dense_depth t - l)]"
  using assms(2)
proof (induction l)
  case 0
  have "length (tree_levels t ! 0) = 2 ^ dense_depth t"
    using assms(1) by (simp add: acc_tree_ok_def verify_consistent_iff)
  then show ?case by (auto intro!: nth_equalityI simp: level_node_def stored_leaf_def)
next
  case (Suc l)
  let ?N = "level_node (compress Z) (stored_leaf t)"
  have "tree_levels t ! Suc l = pair_level (compress Z) (tree_levels t ! l)"
    using assms(1) Suc.prems by (simp add: acc_tree_ok_def verify_consistent_iff)
  also have "(2 :: nat) ^ (dense_depth t - l) = 2 * 2 ^ (dense_depth t - Suc l)"
    using Suc.prems by (simp add: Suc_diff_Suc flip: power_Suc)
  then have "tree_levels t ! l = map (?N l) [0..<2 * 2 ^ (dense_depth t - Suc l)]"
    using Suc by simp
  also have "pair_level (compress Z) \<dots> = map (parent_leaves (compress Z) (?N l))
      [0..<2 ^ (dense_depth t - Suc l)]"
    by (rule pair_level_upt)
  also have "parent_leaves (compress Z) (?N l) = ?N (Suc l)"
    by (simp add: level_node_def)
  finally show ?case .
qed

lemma stored_leaf_zero: "2 ^ dense_depth t \<le> i \<Longrightarrow> stored_leaf t i = ZERO"
  by (simp add: stored_leaf_def)

text \<open>\<open>get_node\<close> answers with the tree's node wherever the verifier can ask.\<close>

lemma get_node_dense:
  assumes "acc_tree_ok Z t" "l < dense_depth t" "unat k < 2 ^ (dense_depth t - l)"
  shows "get_node t l k = level_node (compress Z) (stored_leaf t) l (unat k)"
  using assms stored_node [OF assms(1), of l] by (simp add: get_node_def)

interpretation acc_source: dense_store "compress Z" ZERO get_node stored_leaf tree_depth dense_depth
  "acc_tree_ok Z" for Z :: zisk
proof
  fix t and l :: nat and k :: u64
  assume ok: "acc_tree_ok Z t"
  show "dense_depth t \<le> tree_depth t"
    using ok by (simp add: acc_tree_ok_def verify_consistent_iff)
  show "2 ^ dense_depth t \<le> i \<Longrightarrow> stored_leaf t i = ZERO" for i by (rule stored_leaf_zero)
  show "l < dense_depth t \<Longrightarrow> unat k < 2 ^ (dense_depth t - l) \<Longrightarrow>
      get_node t l k = level_node (compress Z) (stored_leaf t) l (unat k)"
    by (rule get_node_dense [OF ok])
  show "dense_depth t \<le> l \<Longrightarrow> l < tree_depth t \<Longrightarrow> get_node t l k = zero_node (compress Z) ZERO l"
    by (simp add: get_node_def zero_hashes_nth [OF ok])
qed

section \<open>The root, the paths and the writes\<close>

lemma acc_tree_okD:
  assumes "acc_tree_ok Z t"
  shows "length (tree_levels t) = dense_depth t + 1" "dense_depth t \<le> tree_depth t"
    and "\<And>d. d \<le> dense_depth t \<Longrightarrow> length (tree_levels t ! d) = 2 ^ (dense_depth t - d)"
    and "\<And>d. d < dense_depth t \<Longrightarrow>
      pair_level (compress Z) (tree_levels t ! d) = tree_levels t ! (d + 1)"
  using assms by (simp_all add: acc_tree_ok_def verify_consistent_iff)

lemma acc_tree_root_eq:
  assumes "acc_tree_ok Z t"
  shows "acc_tree_root Z t = tree_root (compress Z) (stored_leaf t) (tree_depth t)"
  using sparse_root_tree [OF stored_leaf_zero acc_tree_okD(2) [OF assms],
      where zeros = "zero_hashes t" and f = "compress Z"] stored_node [OF assms, of "dense_depth t"]
    zero_hashes_nth [OF assms]
  by (simp add: acc_tree_root_def)

lemma dense_siblings_path:
  assumes "acc_tree_ok Z t" "a + n = dense_depth t" "unat k < 2 ^ n"
  shows "dense_siblings t k [a..<dense_depth t] =
    Inr (map (\<lambda>l. level_node (compress Z) (stored_leaf t) (a + l)
      (if even (unat k div 2 ^ l) then unat k div 2 ^ l + 1 else unat k div 2 ^ l - 1)) [0..<n])"
  using assms(2,3)
proof (induction n arbitrary: a k)
  case (Suc n)
  let ?N = "level_node (compress Z) (stored_leaf t)"
  let ?s = "\<lambda>k :: nat. if even k then k + 1 else k - 1"
  have a: "a < dense_depth t" "dense_depth t - a = Suc n" using Suc.prems(1) by simp_all
  have s: "?s (unat k) < 2 ^ Suc n" using Suc.prems(2) by (auto elim!: evenE simp: power_Suc)
  have lev: "tree_levels t ! a = map (?N a) [0..<2 ^ Suc n]"
    using stored_node [OF assms(1), of a] a by simp
  have "unat (drop_bit 1 k) < 2 ^ n"
    using Suc.prems(2) by (simp only: unat_shift1) simp
  from Suc.IH [OF _ this, of "Suc a"] Suc.prems(1)
  have rest: "dense_siblings t (drop_bit 1 k) [Suc a..<dense_depth t] =
      Inr (map (\<lambda>l. ?N (Suc a + l) (?s (unat k div 2 div 2 ^ l))) [0..<n])"
    by (simp add: unat_shift1 del: One_nat_def)
  have upt: "[a..<dense_depth t] = a # [Suc a..<dense_depth t]" using a by (simp add: upt_conv_Cons)
  have upt': "[0..<Suc n] = 0 # map Suc [0..<n]"
    by (simp only: map_Suc_upt) (rule upt_conv_Cons, simp)
  have "tree_levels t ! a ! ?s (unat k) = ?N a (?s (unat k))"
    unfolding lev using s by (simp del: upt_Suc)
  then show ?case
    unfolding upt upt' using s
    by (simp add: unat_xor_1 lev rest div_2_power_Suc comp_def del: upt_Suc One_nat_def power_Suc)
qed simp

text \<open>The siblings of a stored index are its path.\<close>

lemma get_siblings_path:
  assumes "acc_tree_ok Z t" "unat k < 2 ^ dense_depth t"
  shows "get_siblings t k =
    Inr (path_siblings (compress Z) (stored_leaf t) (tree_depth t) (unat k))"
proof -
  let ?N = "level_node (compress Z) (stored_leaf t)"
  let ?s = "\<lambda>l. if even (unat k div 2 ^ l) then unat k div 2 ^ l + 1 else unat k div 2 ^ l - 1"
  have "zero_hashes t ! d = ?N d (?s d)" if "d \<in> set [dense_depth t..<tree_depth t]" for d
  proof -
    have d: "dense_depth t \<le> d" "d \<le> tree_depth t" using that by simp_all
    then have "(2 :: nat) ^ dense_depth t \<le> 2 ^ d" by simp
    moreover from this have "unat k < 2 ^ d" by (rule less_le_trans [OF assms(2)])
    ultimately have "unat k div 2 ^ d = 0" "2 ^ dense_depth t \<le> 1 * (2 :: nat) ^ d"
      by simp_all
    then have "?N d (?s d) = zero_node (compress Z) ZERO d"
      by (simp only:) (intro level_node_zero [where n = "2 ^ dense_depth t"], auto simp: stored_leaf_def)
    then show ?thesis using zero_hashes_nth [OF assms(1) d(2)] by simp
  qed
  then have "map (\<lambda>d. zero_hashes t ! d) [dense_depth t..<tree_depth t] =
      map (\<lambda>d. ?N d (?s d)) [dense_depth t..<tree_depth t]"
    by simp
  moreover have "[0..<tree_depth t] = [0..<dense_depth t] @ [dense_depth t..<tree_depth t]"
    using acc_tree_okD(2) [OF assms(1)] by (metis le0 upt_add_eq_append le_add_diff_inverse)
  ultimately show ?thesis
    using dense_siblings_path [OF assms(1), of 0 "dense_depth t" k] assms(2)
    by (simp add: get_siblings_def path_siblings_level)
qed

text \<open>A store whose levels are the levels of a tree is consistent.\<close>

lemma acc_tree_ok_levels:
  assumes "length (tree_levels t) = dense_depth t + 1" "dense_depth t \<le> tree_depth t"
    and "zero_hashes t = compute_zero_hashes Z (tree_depth t)"
    and "\<And>l. l \<le> dense_depth t \<Longrightarrow>
      tree_levels t ! l = map (level_node (compress Z) L l) [0..<2 ^ (dense_depth t - l)]"
  shows "acc_tree_ok Z t"
    and "i < 2 ^ dense_depth t \<Longrightarrow> stored_leaf t i = L i"
proof -
  have "pair_level (compress Z) (tree_levels t ! d) = tree_levels t ! (d + 1)"
    if d: "d < dense_depth t" for d
  proof -
    have "(2 :: nat) ^ (dense_depth t - d) = 2 * 2 ^ (dense_depth t - (d + 1))"
      using d by (metis Suc_diff_Suc Suc_eq_plus1 power_Suc)
    then have "tree_levels t ! d =
        map (level_node (compress Z) L d) [0..<2 * 2 ^ (dense_depth t - (d + 1))]"
      using assms(4) [of d] d by simp
    moreover have "parent_leaves (compress Z) (level_node (compress Z) L d) =
        level_node (compress Z) L (d + 1)"
      by (simp add: level_node_def)
    ultimately show ?thesis using assms(4) [of "d + 1"] d by (simp add: pair_level_upt)
  qed
  then show "acc_tree_ok Z t"
    using assms by (simp add: acc_tree_ok_def verify_consistent_iff)
  show "i < 2 ^ dense_depth t \<Longrightarrow> stored_leaf t i = L i"
    using assms(4) [of 0] by (simp add: stored_leaf_def level_node_0)
qed

definition updated_to ::
  "zisk \<Rightarrow> acc_tree \<Rightarrow> nat \<Rightarrow> digest \<Rightarrow> nat \<Rightarrow> digest list list \<times> nat \<Rightarrow> bool" where
  "updated_to Z t k v d st \<longleftrightarrow>
     length (fst st) = dense_depth t + 1 \<and> snd st = k div 2 ^ d \<and>
     (\<forall>l\<le>dense_depth t. fst st ! l = map (level_node (compress Z)
        (if l \<le> d then (stored_leaf t)(k := v) else stored_leaf t) l) [0..<2 ^ (dense_depth t - l)])"

lemma update_level_updated:
  assumes "updated_to Z t k v d st" "k < 2 ^ dense_depth t" "d < dense_depth t"
  shows "updated_to Z t k v (Suc d) (update_level Z st d)"
proof -
  let ?L = "(stored_leaf t)(k := v)"
  let ?p = "k div 2 ^ Suc d"
  obtain levels idx where st: "st = (levels, idx)" by (cases st)
  have len: "length levels = dense_depth t + 1" and idx: "idx = k div 2 ^ d"
    and lev: "\<And>l. l \<le> dense_depth t \<Longrightarrow> levels ! l = map (level_node (compress Z)
        (if l \<le> d then ?L else stored_leaf t) l) [0..<2 ^ (dense_depth t - l)]"
    using assms(1) by (simp_all add: updated_to_def st)
  have parent: "idx div 2 = ?p" unfolding idx by (rule div_power_2_Suc [symmetric])
  have pow: "(2 :: nat) ^ (dense_depth t - d) = 2 * 2 ^ (dense_depth t - Suc d)"
    using assms(3) by (metis Suc_diff_Suc power_Suc)
  have "(2 :: nat) ^ dense_depth t = 2 ^ (dense_depth t - Suc d) * 2 ^ Suc d"
    using assms(3) by (simp only: power_add [symmetric]) simp
  then have p: "?p < 2 ^ (dense_depth t - Suc d)"
    using assms(2) by (simp only: less_mult_imp_div_less)
  then have "levels ! d ! (?p * 2) = level_node (compress Z) ?L d (2 * ?p)"
    "levels ! d ! (?p * 2 + 1) = level_node (compress Z) ?L d (2 * ?p + 1)"
    using lev [of d] assms(3) pow by (simp_all add: mult.commute)
  then have val: "compress Z (levels ! d ! (?p * 2)) (levels ! d ! (?p * 2 + 1)) =
      level_node (compress Z) ?L (Suc d) ?p"
    by (simp only: level_node_parent)
  have new: "(levels ! Suc d)[?p := level_node (compress Z) ?L (Suc d) ?p] =
      map (level_node (compress Z) ?L (Suc d)) [0..<2 ^ (dense_depth t - Suc d)]"
  proof (rule nth_equalityI)
    show "length ((levels ! Suc d)[?p := level_node (compress Z) ?L (Suc d) ?p]) =
        length (map (level_node (compress Z) ?L (Suc d)) [0..<2 ^ (dense_depth t - Suc d)])"
      using lev [of "Suc d"] assms(3) by simp
    fix i
    assume "i < length ((levels ! Suc d)[?p := level_node (compress Z) ?L (Suc d) ?p])"
    then have i: "i < 2 ^ (dense_depth t - Suc d)" using lev [of "Suc d"] assms(3) by simp
    then show "(levels ! Suc d)[?p := level_node (compress Z) ?L (Suc d) ?p] ! i =
        map (level_node (compress Z) ?L (Suc d)) [0..<2 ^ (dense_depth t - Suc d)] ! i"
      using lev [of "Suc d"] assms(3)
      by (cases "i = ?p") (simp_all add: level_node_update_other del: fun_upd_apply power_Suc)
  qed
  have "update_level Z st d = (levels[Suc d := map (level_node (compress Z) ?L (Suc d))
      [0..<2 ^ (dense_depth t - Suc d)]], ?p)"
    using new val by (simp add: update_level_def st parent)
  then show ?thesis
    using len lev assms(3) by (simp add: updated_to_def nth_list_update le_Suc_eq)
qed

lemma update_levels_updated:
  assumes "acc_tree_ok Z t" "k < 2 ^ dense_depth t" "d \<le> dense_depth t"
  shows "updated_to Z t k v d
    (foldl (update_level Z) ((tree_levels t)[0 := (tree_levels t ! 0)[k := v]], k) [0..<d])"
  using assms(3)
proof (induction d)
  case 0
  have "(tree_levels t ! 0)[k := v] =
      map (level_node (compress Z) ((stored_leaf t)(k := v)) 0) [0..<2 ^ dense_depth t]"
    using acc_tree_okD(3) [OF assms(1), of 0]
    by (intro nth_equalityI) (auto simp: level_node_0 stored_leaf_def nth_list_update)
  then show ?case
    using acc_tree_okD(1) [OF assms(1)] stored_node [OF assms(1)]
    by (auto simp: updated_to_def nth_list_update)
next
  case (Suc d)
  then show ?case using update_level_updated [OF _ assms(2)] by simp
qed

text \<open>Writing a leaf: the old path comes back, the store holds the written tree and stays consistent.\<close>

lemma update_leaf_ok:
  assumes "acc_tree_ok Z t" "unat k < 2 ^ dense_depth t"
  obtains t' where
    "update_leaf Z t k v =
       Inr (t', path_siblings (compress Z) (stored_leaf t) (tree_depth t) (unat k))"
    "acc_tree_ok Z t'" "tree_depth t' = tree_depth t" "dense_depth t' = dense_depth t"
    "stored_leaf t' = (stored_leaf t)(unat k := v)"
proof -
  let ?L = "(stored_leaf t)(unat k := v)"
  obtain levels' i where f: "foldl (update_level Z)
      ((tree_levels t)[0 := (tree_levels t ! 0)[unat k := v]], unat k) [0..<dense_depth t] = (levels', i)"
    by fastforce
  from update_levels_updated [OF assms order_refl, of v]
  have len: "length levels' = dense_depth t + 1"
    and lev: "\<And>l. l \<le> dense_depth t \<Longrightarrow>
      levels' ! l = map (level_node (compress Z) ?L l) [0..<2 ^ (dense_depth t - l)]"
    unfolding f by (simp_all add: updated_to_def)
  define t' where "t' = t\<lparr>tree_levels := levels'\<rparr>"
  have "zero_hashes t = compute_zero_hashes Z (tree_depth t)"
    using assms(1) by (simp add: acc_tree_ok_def)
  then have ok: "acc_tree_ok Z t'"
    and eq: "\<And>i. i < 2 ^ dense_depth t \<Longrightarrow> stored_leaf t' i = ?L i"
    using acc_tree_ok_levels [of t' Z ?L] len lev acc_tree_okD(2) [OF assms(1)]
    by (simp_all add: t'_def)
  have "stored_leaf t' = ?L"
  proof
    fix i
    show "stored_leaf t' i = ?L i"
      using eq [of i] assms(2) by (cases "i < 2 ^ dense_depth t") (auto simp: stored_leaf_def t'_def)
  qed
  moreover have "update_leaf Z t k v =
      Inr (t', path_siblings (compress Z) (stored_leaf t) (tree_depth t) (unat k))"
    using get_siblings_path [OF assms] acc_tree_okD(3) [OF assms(1), of 0] assms(2) f
    by (simp add: update_leaf_def t'_def)
  ultimately show thesis using ok that [of t'] by (simp add: t'_def)
qed

lemma strictly_increasing_dedup: "sorted ks \<Longrightarrow> strictly_increasing (remdups_adj ks)"
proof (induction ks rule: remdups_adj.induct)
  case (3 x y xs)
  show ?case
  proof (cases "x = y")
    case True
    then show ?thesis using 3 by simp
  next
    case False
    then have "\<forall>z\<in>set (y # xs). x < z" using "3.prems" by (auto intro: order_le_neq_trans)
    then show ?thesis
      using False "3.IH"(2) "3.prems" by (simp add: strictly_increasing_Cons)
  qed
qed simp_all

section \<open>Building the tree\<close>

text \<open>The registry a validator list stands for at an epoch.\<close>

definition validators_registry ::
  "(bytes \<Rightarrow> g1_point option) \<Rightarrow> validator_data list \<Rightarrow> u64 \<Rightarrow> registry" where
  "validators_registry decompress vs epoch i =
     (if i < length vs then
        map_option (\<lambda>p. (p, active_effective_balance (vs ! i) epoch)) (decompress (vd_pubkey (vs ! i)))
      else None)"

lemma build_leaves_Inr:
  assumes "build_leaves Z decompress epoch vs = Inr ls"
  shows "length ls = length vs"
    and "i < length vs \<Longrightarrow> ls ! i = registry_leaf Z (validators_registry decompress vs epoch) i"
proof -
  have "length ls = length vs \<and>
    (\<forall>i<length vs. ls ! i = registry_leaf Z (validators_registry decompress vs epoch) i)"
    using assms
  proof (induction vs arbitrary: ls)
    case (Cons v vs)
    then obtain p ls' where p: "decompress (vd_pubkey v) = Some p"
      and ls': "build_leaves Z decompress epoch vs = Inr ls'"
      and ls: "ls = leaf Z p (active_effective_balance v epoch) # ls'"
      by auto
    show ?case using Cons.IH [OF ls'] p
      by (auto simp: ls nth_Cons registry_leaf_def validators_registry_def split: nat.splits)
  qed simp
  then show "length ls = length vs"
    "i < length vs \<Longrightarrow> ls ! i = registry_leaf Z (validators_registry decompress vs epoch) i"
    by blast+
qed

text \<open>
  What is built is consistent and has the root of the registry of the validators that fit the
  depth: the ones past \<open>2 ^ depth\<close> are cut by \<open>resize\<close>, with no error.
\<close>

lemma acc_tree_build_Inr:
  assumes "acc_tree_build Z decompress vs epoch depth = Inr t"
  shows "acc_tree_ok Z t" "tree_depth t = depth"
    and "acc_tree_root Z t =
      registry_root Z (validators_registry decompress (take (2 ^ depth) vs) epoch) depth"
    and "stored_leaf t = registry_leaf Z (validators_registry decompress (take (2 ^ depth) vs) epoch)"
    and "min (length vs) (2 ^ depth) \<le> 2 ^ dense_depth t"
proof -
  let ?R = "validators_registry decompress (take (2 ^ depth) vs) epoch"
  let ?L = "registry_leaf Z ?R"
  define dense where "dense = min (max (ceil_log2 (length vs)) 1) depth"
  from assms obtain ls where ls: "build_leaves Z decompress epoch vs = Inr ls"
    and t: "t = \<lparr>tree_depth = depth, dense_depth = dense,
          tree_levels = build_levels (compress Z) dense (resize (2 ^ dense) ls),
          zero_hashes = compute_zero_hashes Z depth\<rparr>"
    by (auto simp: acc_tree_build_def Let_def dense_def)
  have fits: "min (length vs) (2 ^ depth) \<le> 2 ^ dense"
  proof (cases "dense = depth")
    case False
    then have "ceil_log2 (length vs) \<le> dense" by (auto simp: dense_def)
    then have "(2::nat) ^ ceil_log2 (length vs) \<le> 2 ^ dense" by simp
    then show ?thesis using ceil_log2_bound [of "length vs"] by linarith
  qed simp
  have le: "dense \<le> depth" by (simp add: dense_def)
  have L: "?L i = (if i < length (take (2 ^ depth) vs) then ls ! i else ZERO)" for i
    using build_leaves_Inr [OF ls]
    by (auto simp: registry_leaf_def validators_registry_def)
  have "resize (2 ^ dense) ls = map ?L [0..<2 ^ dense]"
  proof (rule nth_equalityI)
    fix i assume "i < length (resize (2 ^ dense) ls)"
    then have i: "i < 2 ^ dense" by (auto simp: resize_def)
    moreover have "(2::nat) ^ dense \<le> 2 ^ depth" using le by simp
    ultimately have "i < 2 ^ depth" by linarith
    with i show "resize (2 ^ dense) ls ! i = map ?L [0..<2 ^ dense] ! i"
      using build_leaves_Inr(1) [OF ls] by (auto simp: L resize_def nth_append)
  qed (use build_leaves_Inr(1) [OF ls] in \<open>simp add: resize_def\<close>)
  then have lev: "tree_levels t ! l = map (level_node (compress Z) ?L l) [0..<2 ^ (dense_depth t - l)]"
    if "l \<le> dense_depth t" for l
    using build_levels_nth [of "resize (2 ^ dense) ls" "compress Z" ?L 0 dense l] that
    by (simp add: t level_node_0)
  note ok = acc_tree_ok_levels [OF _ _ _ lev]
  show okt: "acc_tree_ok Z t" using le by (intro ok(1)) (simp_all add: t)
  show d: "tree_depth t = depth" by (simp add: t)
  have "stored_leaf t i = ?L i" for i
  proof (cases "i < 2 ^ dense")
    case True
    then show ?thesis using le by (intro ok(2)) (simp_all add: t)
  next
    case False
    then have "\<not> i < length (take (2 ^ depth) vs)" using fits by (auto simp: min_def split: if_splits)
    then show ?thesis using False stored_leaf_zero [of t i] L [of i] by (auto simp: t)
  qed
  then show "stored_leaf t = ?L" by blast
  then show "acc_tree_root Z t = registry_root Z ?R depth"
    using acc_tree_root_eq [OF okt] by (simp add: d registry_root_def)
  show "min (length vs) (2 ^ depth) \<le> 2 ^ dense_depth t" using fits by (simp add: t)
qed

text \<open>Every multi-proof of stored indices verifies against the root.\<close>

lemma build_multi_proof_verifies:
  assumes "acc_tree_ok Z t" "ks \<noteq> []" "\<forall>k\<in>set ks. unat k < 2 ^ dense_depth t"
  shows "batch_root (compress Z) (map (\<lambda>k. (stored_leaf t (unat k), k)) (remdups_adj (sort ks)))
    (build_multi_proof t ks) (tree_depth t) = Inr (acc_tree_root Z t)"
proof -
  have "set (remdups_adj (sort ks)) \<subseteq> below_dense (dense_depth t) 0" using assms(3) by (auto simp: below_dense_def)
  then show ?thesis
    using acc_source.collected_verifies [OF assms(1), of "remdups_adj (sort ks)"] assms(2)
      strictly_increasing_dedup [of "sort ks"]
    by (simp add: build_multi_proof_def acc_tree_root_eq [OF assms(1)] level_node_tree_root
        remdups_adj_Nil_iff flip: set_empty)
qed

lemma sorted_indices:
  assumes "strictly_increasing ks"
  shows "remdups_adj (sort ks) = ks"
proof -
  have "sorted ks" "distinct ks"
    using assms strictly_increasing_distinct by (auto simp: strictly_increasing_sorted strict_sorted_iff)
  then show ?thesis by (simp add: sorted_sort_id remdups_adj_distinct)
qed

end
