(* ===== verification/Samples.thy ===== *)
theory Samples
  imports StreamFinal EpochDiff AccTree
begin

text \<open>
  A small epoch on the concrete library \<open>toy_zisk\<close>, for the witnesses of the properties: two
  validators in an accumulator of depth 1, both in the committee of slot 0, of whom the second is
  absent. Every guest's run on it is evaluated here once. Depth 1 stands for the 22 levels of the
  deployment, which the guests take as a parameter.
\<close>

section \<open>The hashes that occur\<close>

lemmas eval_poseidon = permute_def toy_zisk_def toy_permute_def leaf_def leaf_state_def pack_point_def
  pack_element_def POINT_ELEMENTS_def PACK_BITS_def DOMAIN_LEAF_def DOMAIN_NODE_def
  DOMAIN_COMMITMENT_def compress_def node_state_def commitment_def commitment_state_def ZERO_def Let_def

lemma replicate_four: "replicate 4 x = [x, x, x, x]"
  by (simp add: numeral_eq_Suc)

definition key_A :: g1_point where "key_A = replicate 12 1"
definition key_B :: g1_point where "key_B = replicate 12 2"
definition key_AB :: g1_point where "key_AB = replicate 12 3"

definition sample_root :: digest where
  "sample_root = [150325231623, 2405203706640, 38483259295488, 615732148727836]"

definition sample_commitment :: digest where
  "sample_commitment = [150325231815, 2405203706640, 38483259295488, 615732148727850]"

definition leaf_A :: digest where
  "leaf_A = [21475033089, 343600529760, 5497608470784, 87961735532551]"

definition leaf_B :: digest where
  "leaf_B = [42950066178, 687201058960, 10995216941568, 175923471065095]"

definition leaf_slot :: digest where
  "leaf_slot = [64425099267, 1030801588720, 16492825412352, 263885206597639]"

lemma toy_leaf_A: "leaf toy_zisk key_A 48 = leaf_A"
  by (simp add: eval_poseidon key_A_def leaf_A_def upt_rec)

lemma toy_leaf_B: "leaf toy_zisk key_B 16 = leaf_B"
  by (simp add: eval_poseidon key_B_def leaf_B_def upt_rec)

lemma toy_leaf_slot: "leaf toy_zisk key_AB 64 = leaf_slot"
  by (simp add: eval_poseidon key_AB_def leaf_slot_def upt_rec)

lemma toy_root: "compress toy_zisk leaf_A leaf_B = sample_root"
  by (simp add: eval_poseidon leaf_A_def leaf_B_def sample_root_def nth_append)

lemma toy_commitment: "commitment toy_zisk sample_root 64 = sample_commitment"
  by (simp add: eval_poseidon sample_root_def sample_commitment_def nth_append)

lemma toy_compress_zero:
  "compress toy_zisk ZERO ZERO = ZERO" "compress toy_zisk leaf_slot ZERO = leaf_slot"
  by (simp_all add: eval_poseidon leaf_slot_def replicate_four nth_append)

lemma native_compress: "compress native_zisk = compress toy_zisk"
  by (intro ext) (simp add: compress_def permute_def native_zisk_def)

lemma native_leaf: "leaf native_zisk = leaf toy_zisk"
  by (intro ext) (simp add: leaf_def permute_def native_zisk_def)

lemma native_commitment: "commitment native_zisk = commitment toy_zisk"
  by (intro ext) (simp add: commitment_def permute_def native_zisk_def)

lemmas toy_hashes = toy_leaf_A toy_leaf_B toy_leaf_slot toy_root toy_commitment toy_compress_zero

text \<open>The curve of the concrete library: the points of the words but zero, in their additive group.\<close>

definition toy_curve :: "g1_point set" where "toy_curve = {toy_point n | n. n \<noteq> 0}"

lemma toy_point_limbs [simp]: "toy_point n ! 0 = min n (- n)" "toy_point n ! 6 = n"
  by (simp_all add: toy_point_def nth_append)

lemma toy_point_x: "take 6 (toy_point n) = replicate 6 (min n (- n))"
  by (simp add: toy_point_def)

lemma toy_point_flat: "min n (- n) = n \<Longrightarrow> toy_point n = replicate 12 n"
  using replicate_add [of 6 6 n] by (simp add: toy_point_def)

lemma toy_points:
  "toy_point 1 = key_A" "toy_point 2 = key_B" "toy_point 3 = key_AB" "toy_point 0 = G1_IDENTITY"
  by (simp_all only: key_A_def key_B_def key_AB_def G1_IDENTITY_def)
    (rule toy_point_flat, simp add: min_def)+

lemma toy_zero: "G1_IDENTITY ! 6 = 0"
  by (simp add: G1_IDENTITY_def)

lemma toy_curve_simps:
  "syscall_bls12_381_curve_add toy_zisk p q = toy_point (p ! 6 + q ! 6)"
  "neg_bls12_381 toy_zisk p = toy_point (- (p ! 6))"
  "add_complete_safe_bls12_381 toy_zisk p q = Some (toy_point (p ! 6 + q ! 6))"
  by (simp_all add: toy_zisk_def)

lemma toy_curve_law: "curve_law toy_zisk toy_curve (\<lambda>p. p ! 6)"
proof -
  have sum: "n + m \<noteq> 0" if "take 6 (toy_point n) \<noteq> take 6 (toy_point m)" for n m :: u64
    using that by (auto simp: toy_point_x add_eq_0_iff min.commute)
  have closed: "toy_point n \<in> insert G1_IDENTITY toy_curve" for n
    by (cases "n = 0") (auto simp: toy_points toy_curve_def)
  have "n = 0" if "G1_IDENTITY = toy_point n" for n
    using toy_zero toy_point_limbs(2) [of n] unfolding that by simp
  then have out: "G1_IDENTITY \<notin> toy_curve" by (auto simp: toy_curve_def)
  have nz: "toy_point n \<in> toy_curve" if "n \<noteq> 0" for n using that by (auto simp: toy_curve_def)
  have add: "toy_point (p ! 6 + q ! 6) \<in> toy_curve"
    if pq: "p \<in> toy_curve" "q \<in> toy_curve" "take 6 p \<noteq> take 6 q" for p q
  proof -
    obtain n m where "p = toy_point n" "q = toy_point m" using pq(1,2) by (auto simp: toy_curve_def)
    then show ?thesis using nz [of "n + m"] sum [of n m] pq(3) by simp
  qed
  have neg: "toy_point (- (p ! 6)) \<in> toy_curve" if "p \<in> toy_curve" for p
    using that nz by (auto simp: toy_curve_def)
  show ?thesis
    unfolding curve_law_def toy_curve_simps
    using out toy_zero add neg closed by simp
qed

lemma toy_key_points: "key_A \<in> toy_curve" "key_B \<in> toy_curve" "key_AB \<in> toy_curve"
proof -
  have "toy_point n \<in> toy_curve" if "n \<noteq> 0" for n using that by (auto simp: toy_curve_def)
  from this [of 1] this [of 2] this [of 3] show "key_A \<in> toy_curve" "key_B \<in> toy_curve" "key_AB \<in> toy_curve"
    by (simp_all add: toy_points)
qed

lemma toy_sums:
  "point_sum_add toy_zisk None p = Some (Some p)"
  "point_sum_add toy_zisk (Some key_A) key_B = Some (Some key_AB)"
  "point_sum_sub toy_zisk (Some key_AB) key_B = Some (Some key_A)"
proof -
  have x: "take 6 (toy_point n) \<noteq> take 6 (toy_point m)" if "min n (- n) \<noteq> min m (- m)" for n m
    using that by (simp add: toy_point_x)
  show "point_sum_add toy_zisk None p = Some (Some p)"
    by (simp add: point_sum_add_def)
  show "point_sum_add toy_zisk (Some key_A) key_B = Some (Some key_AB)"
    using x [of 1 2] unfolding point_sum_add_def toy_curve_simps toy_points [symmetric]
    by (simp add: min_def)
  show "point_sum_sub toy_zisk (Some key_AB) key_B = Some (Some key_A)"
    using x [of 3 "- 2"] unfolding point_sum_sub_def point_sum_add_def toy_curve_simps toy_points [symmetric]
    by (simp add: min_def)
qed

section \<open>The Miller loop of the concrete library\<close>

lemma toy_miller_pairs:
  assumes "length rs = length pairs" "\<forall>r\<in>set rs. length r \<le> 12"
    and "\<forall>p\<in>set pairs. snd p \<noteq> [] \<and> length (snd p) \<le> 12"
  shows "miller_pairs toy_zisk b pairs f rs = Inr (f, map (\<lambda>p. []) pairs)"
  using assms
proof (induction pairs arbitrary: rs)
  case (Cons p pairs)
  obtain prime q where p: "p = (prime, q)" by (cases p)
  obtain r rs' where rs: "rs = r # rs'" using Cons.prems(1) by (cases rs) auto
  have "miller_pair toy_zisk b prime q f r = Inr (f, [])"
    using Cons.prems(2,3)
    by (auto simp: rs p miller_pair_def is_tangent_twist_def is_line_twist_def line_check_twist_def
        toy_zisk_def dbl_twist_with_hints_def add_twist_with_hints_def Let_def)
  then show ?case using Cons by (simp add: p rs)
qed simp

lemma toy_miller_loop:
  assumes "length ps = length qs" "\<forall>q\<in>set qs. q \<noteq> [] \<and> length q \<le> 12"
  shows "miller_loop_batch toy_zisk ps qs = Inr FP12_ONE"
proof -
  define pairs where "pairs = zip (map (prime_coords toy_zisk) ps) qs"
  have len: "length pairs = length qs" using assms(1) by (simp add: pairs_def)
  have ok: "\<forall>p\<in>set pairs. snd p \<noteq> [] \<and> length (snd p) \<le> 12"
    using assms(2) by (auto simp: pairs_def dest: set_zip_rightD)
  have sq: "square_fp12_bls12_381 toy_zisk f = f" for f by (simp add: toy_zisk_def)
  have step: "miller_step toy_zisk pairs (f, rs) b = Inr (f, map (\<lambda>p. []) pairs)"
    if "length rs = length pairs" "\<forall>r\<in>set rs. length r \<le> 12" for f rs b
    using toy_miller_pairs [OF that ok] by (simp add: miller_step_def sq)
  have rest: "fold_res (miller_step toy_zisk pairs) (f, map (\<lambda>p. []) pairs) bs =
      Inr (f, map (\<lambda>p. []) pairs)" for f bs
    by (induction bs) (simp_all add: step)
  obtain b bs where X: "drop 1 X_ABS_BIN_BE = b # bs" by (simp add: X_ABS_BIN_BE_def)
  have "fold_res (miller_step toy_zisk pairs) (FP12_ONE, qs) (drop 1 X_ABS_BIN_BE) =
      Inr (FP12_ONE, map (\<lambda>p. []) pairs)"
    unfolding X using step [of qs] rest assms(2) len by simp
  then show ?thesis
    unfolding miller_loop_batch_def pairs_def using assms(1) by (simp add: toy_zisk_def)
qed

section \<open>The committee\<close>

definition sample_member_A :: committee_member where
  "sample_member_A = \<lparr>cm_index = 0, cm_pubkey = key_A, cm_balance = 48, cm_slot_in_epoch = 0\<rparr>"

definition sample_member_B :: committee_member where
  "sample_member_B = \<lparr>cm_index = 1, cm_pubkey = key_B, cm_balance = 16, cm_slot_in_epoch = 0\<rparr>"

definition sample_committee_witness :: committee_witness where
  "sample_committee_witness =
     \<lparr>cw_accumulator_commitment = sample_commitment, cw_target_epoch = 2,
      cw_acc_root = sample_root, cw_total_active_balance = 64,
      cw_members = [sample_member_A, sample_member_B], cw_auxiliaries = []\<rparr>"

definition sample_committee_output :: committee_output where
  "sample_committee_output =
     \<lparr>co_accumulator_commitment = sample_commitment, co_target_epoch = 2,
      co_committee_root = leaf_slot\<rparr>"

lemma sample_committee_wf: "wf_cw sample_committee_witness"
  by (simp add: wf_cw_def wf_digest_def sample_committee_witness_def sample_commitment_def
      sample_root_def sample_member_A_def sample_member_B_def key_A_def key_B_def)

lemma sample_scan:
  "fold_res (member_step toy_zisk) committee_scan_init [sample_member_A, sample_member_B] =
     Inr \<lparr>cs_previous = Some 1, cs_indices = [0, 1], cs_leaves = [leaf_A, leaf_B],
          cs_sums = (replicate 32 None)[0 := Some key_AB], cs_balances = (replicate 32 0)[0 := 64]\<rparr>"
  by (simp add: member_step_def committee_scan_init_def sample_member_A_def sample_member_B_def
      toy_hashes toy_sums Let_def word_less_nat_alt)

definition sample_aggregate :: committee_aggregate where
  "sample_aggregate = \<lparr>ca_pubkey = key_AB, ca_balance = 64\<rparr>"

lemma toy_slot_tree:
  "L 0 = leaf_slot \<Longrightarrow> (\<And>i. 0 < i \<Longrightarrow> L i = ZERO) \<Longrightarrow> tree_root (compress toy_zisk) L d = leaf_slot"
proof (induction d arbitrary: L)
  case (Suc d)
  have "parent_leaves (compress toy_zisk) L 0 = leaf_slot"
    and "\<And>i. 0 < i \<Longrightarrow> parent_leaves (compress toy_zisk) L i = ZERO"
    using Suc.prems by (simp_all add: parent_leaves_def toy_hashes)
  then show ?case using Suc.IH by simp
qed simp

lemma sample_committee_root:
  "committee_tree_root toy_zisk ((replicate 32 None)[0 := Some sample_aggregate]) = Inr leaf_slot"
  by (auto simp: committee_tree_root_eq slot_leaf_def committee_leaf_def sample_aggregate_def
      toy_hashes intro!: toy_slot_tree [symmetric])

lemma sample_committee:
  "verify_committee toy_zisk (committee_encode sample_committee_witness) 1 = Inr sample_committee_output"
proof -
  have aggs: "slot_aggregates \<lparr>cs_previous = Some 1, cs_indices = [0, 1], cs_leaves = [leaf_A, leaf_B],
      cs_sums = (replicate 32 None)[0 := Some key_AB], cs_balances = (replicate 32 0)[0 := 64]\<rparr> =
    (replicate 32 None)[0 := Some sample_aggregate]"
    by (simp add: slot_aggregates_def numeral_eq_Suc sample_aggregate_def)
  have root: "batch_root_columns (compress toy_zisk) [0, 1] [leaf_A, leaf_B] [] 1 = Inr sample_root"
    by (simp add: batch_root_columns_def toy_hashes)
  have fields: "cw_members sample_committee_witness = [sample_member_A, sample_member_B]"
    "cw_auxiliaries sample_committee_witness = []" "cw_acc_root sample_committee_witness = sample_root"
    "cw_total_active_balance sample_committee_witness = 64"
    "cw_accumulator_commitment sample_committee_witness = sample_commitment"
    "cw_target_epoch sample_committee_witness = 2"
    by (simp_all add: sample_committee_witness_def)
  show ?thesis
    unfolding verify_committee_encode [OF sample_committee_wf] fields sample_scan bind_res_of_Inr
      committee_scan.simps aggs root map_err_of_Inr sample_committee_root
    by (simp add: toy_hashes sample_committee_output_def)
qed

section \<open>The slot\<close>

text \<open>
  The slot proof for any link and signing domain \<open>L\<close>: the committee of slot 0 votes for it, its
  second member absent.
\<close>

definition sample_attestation :: "vote_link \<Rightarrow> attestation_witness" where
  "sample_attestation L = \<lparr>data_slot = 64, data_index = 0, data_beacon_block_root = replicate 32 7,
     data_source_epoch = vl_source_epoch L, data_source_root = vl_source_root L,
     data_target_epoch = vl_target_epoch L, data_target_root = vl_target_root L,
     signature = replicate 96 1, attesting_validators = []\<rparr>"

definition sample_absentee :: opened_validator where
  "sample_absentee = \<lparr>ov_index = 1, ov_pubkey = key_B, ov_balance = 16\<rparr>"

definition sample_slot :: "vote_link \<Rightarrow> slot_complement_witness" where
  "sample_slot L = \<lparr>slot_in_epoch = 0, committee = sample_aggregate, primary = [sample_attestation L],
     secondary = [], absentees = [sample_absentee]\<rparr>"

definition sample_slot_witness :: "vote_link \<Rightarrow> slot_proof_witness" where
  "sample_slot_witness L = \<lparr>sw_accumulator_commitment = sample_commitment,
     sw_committee_root = leaf_slot, sw_source_epoch = vl_source_epoch L,
     sw_source_root = vl_source_root L, sw_target_epoch = vl_target_epoch L,
     sw_target_root = vl_target_root L, sw_signing_domain = vl_signing_domain L,
     sw_acc_root = sample_root, sw_total_active_balance = 64, sw_slots = [sample_slot L],
     sw_acc_multi_proof = [leaf_A], sw_committee_multi_proof = replicate 5 ZERO\<rparr>"

definition sample_slot_output :: "vote_link \<Rightarrow> slot_proof_output" where
  "sample_slot_output L = \<lparr>sp_accumulator_commitment = sample_commitment,
     sp_committee_root = leaf_slot, sp_source_epoch = vl_source_epoch L,
     sp_source_root = vl_source_root L, sp_target_epoch = vl_target_epoch L,
     sp_target_root = vl_target_root L, sp_attesting_balance = 48, sp_slots_mask = 1\<rparr>"

text \<open>The one message: the committee without the absentee, over the attestation's data.\<close>

definition sample_message_root :: "vote_link \<Rightarrow> bytes32" where
  "sample_message_root L = compute_signing_root toy_zisk
     (attestation_data_root toy_zisk 64 0 (replicate 32 7) (vl_source_epoch L) (vl_source_root L)
       (vl_target_epoch L) (vl_target_root L)) (vl_signing_domain L)"

definition sample_message :: "vote_link \<Rightarrow> signed_message" where
  "sample_message L = \<lparr>sm_pubkeys = [key_A], sm_signing_root = sample_message_root L,
     sm_signatures = [replicate 96 1]\<rparr>"

lemma link_of_sample [simp]: "link_of (sample_slot_witness L) = L"
  by (simp add: link_of_def sample_slot_witness_def)

lemma sample_sub: "point_sum_sub toy_zisk (Some key_AB) key_B = Some (Some key_A)"
  by (rule toy_sums(3))

lemma sample_slots:
  "fold_res (slot_step toy_zisk L) slots_init [sample_slot L] =
     Inr \<lparr>ss_balance = 48, ss_mask = 1, ss_opened = [(leaf_B, 1)],
          ss_committee_leaves = [(leaf_slot, 0)], ss_messages = [sample_message L],
          ss_previous = Some 0\<rparr>"
  by (simp add: slot_step_def slots_init_def sample_slot_def sample_absentee_def sample_aggregate_def
      absentee_step_def sample_sub checked_sub_def push_message_def
      sample_attestation_def sample_message_def sample_message_root_def opened_leaf_def
      committee_leaf_def toy_hashes word_less_nat_alt Let_def)

text \<open>A signature of key A alone passes, whatever message it is over.\<close>

lemma toy_miller_message:
  assumes "length root = 32" "s \<noteq> []"
  shows "miller_accumulator toy_zisk
    [\<lparr>sm_pubkeys = [key_A], sm_signing_root = root, sm_signatures = [s]\<rparr>] = Inr (Some FP12_ONE)"
proof -
  define q where "q = hash_to_curve_g2_bls12_381 toy_zisk root ETH_BLS_DST"
  define p :: g2_point where "p = map2 (+) G2_IDENTITY (map ucast (take 12 s))"
  have q: "q \<noteq> [] \<and> length q \<le> 12" using assms(1) by (auto simp: q_def toy_zisk_def)
  have p: "p \<noteq> [] \<and> length p \<le> 12" using assms(2) by (cases s) (auto simp: p_def G2_IDENTITY_def)
  have sub: "is_on_subgroup_twist_bls12_381 toy_zisk p" by (simp add: toy_zisk_def)
  have sig: "add_signatures toy_zisk G2_IDENTITY [s] = Some p"
    by (simp add: toy_zisk_def p_def)
  have agg: "aggregate_points toy_zisk [key_A] = Some key_A"
    by (simp add: aggregate_points_def point_sum_add_def)
  have fold: "fold_messages toy_zisk [] G2_IDENTITY
      [\<lparr>sm_pubkeys = [key_A], sm_signing_root = root, sm_signatures = [s]\<rparr>] = Some ([(root, key_A)], p)"
    by (simp only: fold_messages.simps signed_message.simps agg sig merge_group.simps option.case) simp
  have ne: "p \<noteq> G2_IDENTITY" using p by (auto simp: G2_IDENTITY_def)
  have key: "key_A \<noteq> G1_IDENTITY" by (simp add: key_A_def G1_IDENTITY_def)
  have "miller_loop_batch toy_zisk [neg_bls12_381 toy_zisk key_A, G1_GENERATOR] [q, p] = Inr FP12_ONE"
    by (rule toy_miller_loop) (use q p in auto)
  then show ?thesis
    unfolding miller_accumulator_def fold using ne key sub by (simp add: q_def)
qed

lemma sample_miller: "miller_accumulator toy_zisk [sample_message L] = Inr (Some FP12_ONE)"
  unfolding sample_message_def
  by (rule toy_miller_message) (simp_all add: sample_message_root_def compute_signing_root_def)

lemma sample_attestations:
  "verify_attestations toy_zisk [sample_slot L] sample_root [leaf_A] leaf_slot (replicate 5 ZERO) L 1 =
     Inr \<lparr>att_balance = 48, att_mask = 1, att_miller = FP12_ONE\<rparr>"
proof -
  have acc: "batch_root (compress toy_zisk) [(leaf_B, 1)] [leaf_A] 1 = Inr sample_root"
    by (simp add: batch_root_def batch_root_columns_def toy_hashes)
  have com: "batch_root (compress toy_zisk) [(leaf_slot, 0)] (replicate 5 ZERO) TREE_DEPTH = Inr leaf_slot"
    by (simp add: batch_root_def batch_root_columns_def toy_hashes TREE_DEPTH_def numeral_eq_Suc)
  show ?thesis
    unfolding verify_attestations_def sample_slots bind_res_of_Inr Let_def
      slots_state.simps com map_err_of_Inr sample_miller
    using acc by simp
qed

lemma sample_attest:
  "attest toy_zisk (sample_slot_witness L) 1 =
     Inr \<lparr>att_balance = 48, att_mask = 1, att_miller = FP12_ONE\<rparr>"
proof -
  have fields: "sw_slots (sample_slot_witness L) = [sample_slot L]"
    "sw_acc_root (sample_slot_witness L) = sample_root"
    "sw_acc_multi_proof (sample_slot_witness L) = [leaf_A]"
    "sw_committee_root (sample_slot_witness L) = leaf_slot"
    "sw_committee_multi_proof (sample_slot_witness L) = replicate 5 ZERO"
    "sw_total_active_balance (sample_slot_witness L) = 64"
    "sw_accumulator_commitment (sample_slot_witness L) = sample_commitment"
    by (simp_all add: sample_slot_witness_def)
  show ?thesis
    unfolding attest_def fields link_of_sample sample_attestations by (simp add: toy_hashes)
qed

lemma toy_final_exp: "final_exp_is_one toy_zisk f"
  by (simp add: final_exp_is_one_def toy_zisk_def)

lemma sample_slot_proof:
  "verify_slot_proof_with_depth toy_zisk (sample_slot_witness L) 1 = Inr (sample_slot_output L)"
  unfolding verify_slot_proof_with_depth_def sample_attest bind_res_of_Inr
  by (simp add: sample_slot_output_def sample_slot_witness_def toy_final_exp)

end
