(* ===== verification/SampleEpoch.thy ===== *)
theory SampleEpoch
  imports Samples
begin

text \<open>
  The proofs above the slot on the same two validators: the epoch diff that raised the balance of
  the first from 32 to 48, the justification of the new epoch by the slot proof of \<open>Samples\<close>, the
  finalization of the old one, and the streaming counterpart. Child proofs are the word vectors
  \<open>child_words\<close> of the child's key and bytes, which the concrete verifier accepts.
\<close>

section \<open>Child proofs\<close>

definition sample_proof :: "program_vk \<Rightarrow> recursion_panic + bytes \<Rightarrow> proof_words" where
  "sample_proof vk publics = child_words vk (projr publics)"

lemma sample_child:
  assumes "publics = Inr pb" "length pb \<le> MAX_PUBLIC_BYTES" "length vk = 4"
  shows "carried_child toy_zisk (sample_proof vk publics) vk publics = Inr True"
    and "vk \<noteq> UNSET_VK \<Longrightarrow> baked_child toy_zisk (sample_proof vk publics) vk publics = Inr True"
proof -
  have acc: "verify_zisk_proof toy_zisk p" for p by (simp add: toy_zisk_def)
  have v: "verify_child toy_zisk (child_words vk pb) vk pb = Inr True"
    using verify_child_words [OF assms(3,2)] acc by simp
  then show "carried_child toy_zisk (sample_proof vk publics) vk publics = Inr True"
    by (simp add: carried_child_def sample_proof_def assms(1))
  have "child_words vk pb \<noteq> []" by (simp add: child_words_def)
  then show "vk \<noteq> UNSET_VK \<Longrightarrow> baked_child toy_zisk (sample_proof vk publics) vk publics = Inr True"
    using v by (simp add: baked_child_def sample_proof_def assms(1) verify_baked_child_def)
qed

lemma program_keys:
  "length SLOT_PROGRAM_VK = 4" "SLOT_PROGRAM_VK \<noteq> UNSET_VK"
  "length JUSTIFICATION_PROGRAM_VK = 4" "JUSTIFICATION_PROGRAM_VK \<noteq> UNSET_VK"
  "length EPOCH_DIFF_PROGRAM_VK = 4" "EPOCH_DIFF_PROGRAM_VK \<noteq> UNSET_VK"
  "length COMMITTEE_PROGRAM_VK = 4" "COMMITTEE_PROGRAM_VK \<noteq> UNSET_VK"
  "length GROUP_PROGRAM_VK = 4" "GROUP_PROGRAM_VK \<noteq> UNSET_VK"
  "length AGGREGATE_PROGRAM_VK = 4" "AGGREGATE_PROGRAM_VK \<noteq> UNSET_VK"
  by (simp_all add: SLOT_PROGRAM_VK_def JUSTIFICATION_PROGRAM_VK_def EPOCH_DIFF_PROGRAM_VK_def
      COMMITTEE_PROGRAM_VK_def GROUP_PROGRAM_VK_def AGGREGATE_PROGRAM_VK_def UNSET_VK_def
      replicate_four PROGRAM_VK_LEN_def)

context public_output
begin

lemma sample_output_child:
  assumes "valid x" "width \<le> MAX_PUBLIC_BYTES" "length vk = 4"
  shows "carried_child toy_zisk (sample_proof vk (public_bytes x)) vk (public_bytes x) = Inr True"
    and "vk \<noteq> UNSET_VK \<Longrightarrow>
      baked_child toy_zisk (sample_proof vk (public_bytes x)) vk (public_bytes x) = Inr True"
proof -
  obtain pb where pb: "public_bytes x = Inr pb" using public_total [OF assms(1)] by blast
  then have len: "length pb \<le> MAX_PUBLIC_BYTES" using public_width [OF assms(1) pb] assms(2) by simp
  show "carried_child toy_zisk (sample_proof vk (public_bytes x)) vk (public_bytes x) = Inr True"
    by (rule sample_child(1) [OF pb len assms(3)])
  show "vk \<noteq> UNSET_VK \<Longrightarrow>
      baked_child toy_zisk (sample_proof vk (public_bytes x)) vk (public_bytes x) = Inr True"
    by (rule sample_child(2) [OF pb len assms(3)])
qed

end

lemmas sample_children = ed_public.sample_output_child co_public.sample_output_child
  sp_public.sample_output_child jo_public.sample_output_child gp_public.sample_output_child
  ao_public.sample_output_child sf_public.sample_output_child

lemmas sample_wf_defs = wf_ed_def wf_co_def wf_sp_def wf_jo_def wf_gp_def wf_ao_def wf_sf_def
  wf_digest_def wf32_def wf_vk_def

lemma wf_sample [simp]: "length sample_commitment = 4" "length sample_root = 4" "length leaf_slot = 4"
  by (simp_all add: sample_commitment_def sample_root_def leaf_slot_def)

lemma wf_toy_commitment [simp]: "length (commitment toy_zisk r b) = 4"
  by (simp add: commitment_def permute_def toy_zisk_def toy_permute_def commitment_state_def)

section \<open>The epoch diff\<close>

definition sample_validator :: "u64 \<Rightarrow> validator_data" where
  "sample_validator bal = \<lparr>vd_pubkey = replicate 48 1, effective_balance = bal,
     activation_epoch = 0, exit_epoch = - 1\<rparr>"

definition sample_chunks :: "bytes32 list" where
  "sample_chunks = [replicate 32 1, replicate 16 1 @ replicate 16 0]"

definition sample_fields :: "u64 \<Rightarrow> bytes32 list" where
  "sample_fields bal = [sha256_pair toy_zisk (sample_chunks ! 0) (sample_chunks ! 1), zero32,
     u64_to_chunk bal, zero32, zero32, u64_to_chunk 0, u64_to_chunk (- 1), zero32]"

definition sample_mutation :: validator_mutation where
  "sample_mutation = \<lparr>vm_index = 0, is_new = False, old_data = sample_validator 32,
     new_data = sample_validator 48, old_field_leaves = sample_fields 32,
     new_field_leaves = sample_fields 48, old_pubkey_chunks = sample_chunks,
     new_pubkey_chunks = sample_chunks, acc_siblings = [leaf_B]\<rparr>"

definition sample_old_root :: digest where
  "sample_old_root = compress toy_zisk (leaf toy_zisk key_A 32) leaf_B"

definition sample_old_commitment :: digest where
  "sample_old_commitment = commitment toy_zisk sample_old_root 48"

text \<open>The state root over a validator list whose first entry has a balance.\<close>

definition sample_data_root :: "bytes32 \<Rightarrow> u64 \<Rightarrow> bytes32" where
  "sample_data_root other bal =
     sha256_pair toy_zisk (validator_hash_tree_root toy_zisk (sample_fields bal)) other"

definition sample_state_root :: "bytes32 \<Rightarrow> u64 \<Rightarrow> bytes32" where
  "sample_state_root other bal =
     compute_ssz_merkle_root toy_zisk (list_hash_tree_root toy_zisk (sample_data_root other bal) 2)
       BEACON_STATE_VALIDATORS_FIELD_INDEX [zero32]"

definition sample_diff_witness :: "bytes32 \<Rightarrow> bytes32 \<Rightarrow> epoch_diff_witness" where
  "sample_diff_witness other1 other2 = \<lparr>state_root_1 = sample_state_root other1 32,
     state_root_2 = sample_state_root other2 48, acc_root_1 = sample_old_root,
     total_active_balance_1 = 48, epoch_1 = 1, epoch_2 = 2,
     state_to_validators_siblings_1 = [zero32], state_to_validators_siblings_2 = [zero32],
     validators_list_length_1 = 2, validators_list_length_2 = 2,
     mutations = [sample_mutation], ssz_multi_proof_1 = [other1], ssz_multi_proof_2 = [other2]\<rparr>"

definition sample_diff_output :: "bytes32 \<Rightarrow> bytes32 \<Rightarrow> epoch_diff_output" where
  "sample_diff_output other1 other2 =
     \<lparr>ed_prev_accumulator_commitment = sample_old_commitment,
      ed_state_root_1 = sample_state_root other1 32, ed_epoch_1 = 1,
      ed_accumulator_commitment = sample_commitment, ed_acc_root = sample_root,
      ed_total_active_balance = 64, ed_state_root_2 = sample_state_root other2 48, ed_epoch_2 = 2\<rparr>"

lemma sample_decompress: "decompress_pubkey toy_zisk (replicate 48 1) = Some key_A"
  by (simp add: decompress_pubkey_def toy_zisk_def key_A_def)

lemma sample_active: "active_effective_balance (sample_validator bal) e = (if e < - 1 then bal else 0)"
  by (simp add: active_effective_balance_def is_active_def sample_validator_def)

lemma sample_field_leaves:
  "verify_field_leaves toy_zisk (sample_validator bal) (sample_fields bal) sample_chunks = Inr ()"
  "verify_field_leaves_no_pubkey_hash (sample_validator bal) (sample_fields bal) sample_chunks = Inr ()"
proof -
  have "sample_fields bal ! 0 = sha256_pair toy_zisk (sample_chunks ! 0) (sample_chunks ! 1)"
    "sample_fields bal ! 2 = u64_to_chunk bal" "sample_fields bal ! 5 = u64_to_chunk 0"
    "sample_fields bal ! 6 = u64_to_chunk (- 1)"
    by (simp_all add: sample_fields_def)
  then show "verify_field_leaves_no_pubkey_hash (sample_validator bal) (sample_fields bal) sample_chunks = Inr ()"
    and "verify_field_leaves toy_zisk (sample_validator bal) (sample_fields bal) sample_chunks = Inr ()"
    unfolding verify_field_leaves_no_pubkey_hash_def verify_field_leaves_def Let_def
    by (simp_all only:) (simp_all add: sample_validator_def sample_chunks_def)
qed

lemma sample_mutation_step:
  "mutation_step toy_zisk 1 2 \<lparr>df_acc_root = sample_old_root, df_total = 48, df_old_leaves = [],
      df_new_leaves = []\<rparr> sample_mutation =
   Inr \<lparr>df_acc_root = sample_root, df_total = 64,
      df_old_leaves = [(validator_hash_tree_root toy_zisk (sample_fields 32), 0)],
      df_new_leaves = [(validator_hash_tree_root toy_zisk (sample_fields 48), 0)]\<rparr>"
proof -
  have pk: "vd_pubkey (sample_validator 48) = replicate 48 1" by (simp add: sample_validator_def)
  have same: "sample_fields 32 ! 0 = sample_fields 48 ! 0" by (simp add: sample_fields_def)
  have e: "(1 :: u64) < - 1" "(2 :: u64) < - 1" by (simp_all flip: word_order.not_eq_extremum)
  have r1: "compute_root (compress toy_zisk) (leaf toy_zisk key_A 32) 0 [leaf_B] = sample_old_root"
    by (simp add: sample_old_root_def)
  have "open_existing toy_zisk 1 sample_old_root key_A sample_mutation =
      Inr (validator_hash_tree_root_pair toy_zisk (sample_fields 32) (sample_fields 48))"
    unfolding open_existing_def sample_mutation_def validator_mutation.simps sample_field_leaves
      map_err_of_Inr bind_res_of_Inr Let_def sample_active same
    using e r1 by simp
  then show ?thesis
    unfolding mutation_step_def validator_hash_tree_root_pair_eq
    by (simp add: sample_mutation_def pk sample_decompress sample_active e toy_hashes)
qed

lemma sample_epoch_diff:
  "verify_epoch_diff_with_depth toy_zisk (sample_diff_witness other1 other2) 1 1 =
     Inr (sample_diff_output other1 other2)"
proof -
  have b: "verify_ssz_multi_proof toy_zisk
      [(validator_hash_tree_root toy_zisk (sample_fields bal), 0)] [oth] 1 =
        Inr (sample_data_root oth bal)" for oth bal
    by (simp add: verify_ssz_multi_proof_def batch_root_def batch_root_columns_def sample_data_root_def)
  have st: "list_all (\<lambda>m. length (acc_siblings m) = 1) [sample_mutation]"
    by (simp add: sample_mutation_def)
  have f: "fold_res (mutation_step toy_zisk 1 2) (diff_init (sample_diff_witness other1 other2))
      [sample_mutation] = Inr \<lparr>df_acc_root = sample_root, df_total = 64,
      df_old_leaves = [(validator_hash_tree_root toy_zisk (sample_fields 32), 0)],
      df_new_leaves = [(validator_hash_tree_root toy_zisk (sample_fields 48), 0)]\<rparr>"
    using sample_mutation_step by (simp add: diff_init_def sample_diff_witness_def)
  have fields: "mutations (sample_diff_witness other1 other2) = [sample_mutation]"
    "epoch_1 (sample_diff_witness other1 other2) = 1" "epoch_2 (sample_diff_witness other1 other2) = 2"
    "ssz_multi_proof_1 (sample_diff_witness other1 other2) = [other1]"
    "ssz_multi_proof_2 (sample_diff_witness other1 other2) = [other2]"
    by (simp_all add: sample_diff_witness_def)
  show ?thesis
    unfolding verify_epoch_diff_with_depth_def fields f bind_res_of_Inr diff_state.simps b map_err_of_Inr
    using st by (simp add: sample_diff_witness_def sample_diff_output_def sample_state_root_def
        toy_hashes sample_old_commitment_def Let_def)
qed

section \<open>The justification\<close>

definition link_to :: "bytes32 \<Rightarrow> vote_link" where
  "link_to r = \<lparr>vl_source_epoch = 1, vl_source_root = replicate 32 1, vl_target_epoch = 2,
     vl_target_root = r, vl_signing_domain = zero32\<rparr>"

definition sample_justification_witness :: "bytes32 \<Rightarrow> justification_witness" where
  "sample_justification_witness r = \<lparr>jw_accumulator_commitment = sample_commitment,
     jw_source_epoch = 1, jw_source_root = replicate 32 1, jw_target_epoch = 2,
     jw_target_root = r, jw_total_active_balance = 64, jw_acc_root = sample_root,
     justification_program_vk = JUSTIFICATION_PROGRAM_VK,
     jw_committee = Some sample_committee_output,
     jw_committee_proof = sample_proof COMMITTEE_PROGRAM_VK (co_public_bytes sample_committee_output),
     jw_previous = None, jw_previous_proof = [],
     slot_proof_outputs = [sample_slot_output (link_to r)],
     slot_proofs = [sample_proof SLOT_PROGRAM_VK (sp_public_bytes (sample_slot_output (link_to r)))]\<rparr>"

definition sample_justification_output :: "bytes32 \<Rightarrow> justification_output" where
  "sample_justification_output r = \<lparr>jo_accumulator_commitment = sample_commitment,
     jo_committee_root = leaf_slot, jo_source_epoch = 1, jo_source_root = replicate 32 1,
     jo_target_epoch = 2, jo_target_root = r, jo_attesting_balance = 48,
     jo_slots_mask = 1, justified = True, jo_program_vk = JUSTIFICATION_PROGRAM_VK\<rparr>"

lemma sample_slot_child:
  assumes "length (vl_source_root L) = 32" "length (vl_target_root L) = 32"
  shows "baked_child toy_zisk (sample_proof SLOT_PROGRAM_VK (sp_public_bytes (sample_slot_output L)))
    SLOT_PROGRAM_VK (sp_public_bytes (sample_slot_output L)) = Inr True"
  using assms by (intro sample_children program_keys)
    (simp_all add: sample_wf_defs sample_slot_output_def MAX_PUBLIC_BYTES_def ZISK_PUBLICS_def)

lemma sample_committee_child:
  "baked_child toy_zisk (sample_proof COMMITTEE_PROGRAM_VK (co_public_bytes sample_committee_output))
    COMMITTEE_PROGRAM_VK (co_public_bytes sample_committee_output) = Inr True"
  by (intro sample_children program_keys)
    (simp_all add: sample_wf_defs sample_committee_output_def MAX_PUBLIC_BYTES_def ZISK_PUBLICS_def)

lemma sample_justification:
  assumes "length r = 32"
  shows "verify_justification toy_zisk (sample_justification_witness r) = Inr (sample_justification_output r)"
proof -
  let ?P = "\<lparr>fp_accumulator_commitment = sample_commitment, fp_committee_root = leaf_slot,
    fp_source_epoch = 1, fp_source_root = replicate 32 1, fp_target_epoch = 2,
    fp_target_root = r\<rparr>"
  have com: "just_committee_root toy_zisk (sample_justification_witness r) = Inr leaf_slot"
    using sample_committee_child
    by (simp add: just_committee_root_def sample_justification_witness_def committee_link_Inr)
      (simp add: sample_committee_output_def)
  have "verify_slot_child toy_zisk ?P (sample_slot_output (link_to r))
      (sample_proof SLOT_PROGRAM_VK (sp_public_bytes (sample_slot_output (link_to r)))) = Inr ()"
    unfolding verify_slot_child_Inr using sample_slot_child [of "link_to r"] assms
    by (simp add: sample_slot_output_def link_to_def)
  then have fold: "fold_res (slot_child_step toy_zisk ?P) (0, 0)
      [(sample_slot_output (link_to r),
        sample_proof SLOT_PROGRAM_VK (sp_public_bytes (sample_slot_output (link_to r))))] = Inr (48, 1)"
    by (simp add: slot_child_step_def) (simp add: sample_slot_output_def)
  have tt: "two_thirds 48 64" by (simp add: two_thirds_def)
  have fields: "jw_previous (sample_justification_witness r) = None"
    "jw_accumulator_commitment (sample_justification_witness r) = sample_commitment"
    "jw_source_epoch (sample_justification_witness r) = 1"
    "jw_source_root (sample_justification_witness r) = replicate 32 1"
    "jw_target_epoch (sample_justification_witness r) = 2"
    "jw_target_root (sample_justification_witness r) = r"
    "jw_total_active_balance (sample_justification_witness r) = 64"
    "jw_acc_root (sample_justification_witness r) = sample_root"
    "justification_program_vk (sample_justification_witness r) = JUSTIFICATION_PROGRAM_VK"
    "zip (slot_proof_outputs (sample_justification_witness r)) (slot_proofs (sample_justification_witness r)) =
      [(sample_slot_output (link_to r),
        sample_proof SLOT_PROGRAM_VK (sp_public_bytes (sample_slot_output (link_to r))))]"
    "slot_proof_outputs (sample_justification_witness r) \<noteq> []"
    "length (slot_proof_outputs (sample_justification_witness r)) =
       length (slot_proofs (sample_justification_witness r))"
    by (simp_all add: sample_justification_witness_def)
  show ?thesis
    unfolding verify_justification_def fields com option.case bind_res_of_Inr Let_def fold
    using fields by (simp add: toy_hashes tt sample_justification_output_def)
qed

section \<open>The boundary and the finalization\<close>

text \<open>
  A state that recorded the boundary of epoch 1 in slot 32 of its histories: the block root
  \<open>replicate 32 1\<close> and the state root \<open>s\<close>. Fields 5 and 6 are neighbours' cousins, so each path
  carries the other field's subtree.
\<close>

definition history_root :: "bytes32 \<Rightarrow> bytes32" where
  "history_root v = compute_root (sha256_pair toy_zisk) v 32 (replicate 13 zero32)"

definition fields_45 :: bytes32 where
  "fields_45 = sha256_pair toy_zisk zero32 (history_root (replicate 32 1))"

definition fields_67 :: "bytes32 \<Rightarrow> bytes32" where
  "fields_67 s = sha256_pair toy_zisk (history_root s) zero32"

definition sample_header_state :: "bytes32 \<Rightarrow> bytes32" where
  "sample_header_state s = compute_root (sha256_pair toy_zisk)
     (sha256_pair toy_zisk fields_45 (fields_67 s)) 1 (replicate 4 zero32)"

definition sample_header :: "bytes32 \<Rightarrow> block_header_fields" where
  "sample_header s = \<lparr>bh_slot = 64, bh_proposer_index = 0, bh_parent_root = zero32,
     bh_state_root = sample_header_state s, bh_body_root = zero32\<rparr>"

definition sample_target :: "bytes32 \<Rightarrow> bytes32" where
  "sample_target s =
     block_header_root toy_zisk 64 0 zero32 (sample_header_state s) zero32"

definition sample_boundary :: "bytes32 \<Rightarrow> boundary_anchor" where
  "sample_boundary s = \<lparr>justified_header = sample_header s,
     block_roots_siblings = replicate 13 zero32 @ [zero32, fields_67 s] @ replicate 4 zero32,
     state_roots_siblings = replicate 13 zero32 @ [zero32, fields_45] @ replicate 4 zero32\<rparr>"

lemma compute_root_low_bits:
  "take_bit (length ss) k = take_bit (length ss) (k' :: u64) \<Longrightarrow>
     compute_root f v k ss = compute_root f v k' ss"
proof (induction ss arbitrary: v k k')
  case (Cons s ss)
  have b: "bit k i = bit k' i" if "i < Suc (length ss)" for i
    using Cons.prems that by (metis bit_take_bit_iff length_Cons)
  have par: "k AND 1 = 0 \<longleftrightarrow> k' AND 1 = 0" using b [of 0] by (simp add: and_1_eq_0 even_unat_word bit_0)
  have low: "take_bit (length ss) (drop_bit 1 k) = take_bit (length ss) (drop_bit 1 k')"
    using b by (intro bit_eqI) (auto simp: bit_take_bit_iff bit_drop_bit_eq)
  have "compute_root f w (drop_bit 1 k) ss = compute_root f w (drop_bit 1 k') ss" for w
    by (rule Cons.IH) (rule low)
  then show ?case by (simp only: compute_root.simps par)
qed simp

lemma history_path:
  "compute_root (sha256_pair toy_zisk) v (5 * 8192 + 32) (replicate 13 zero32) = history_root v"
  "compute_root (sha256_pair toy_zisk) v (6 * 8192 + 32) (replicate 13 zero32) = history_root v"
  unfolding history_root_def by (rule compute_root_low_bits; simp add: take_bit_eq_mod)+

lemma sample_open_boundary:
  "open_boundary toy_zisk (sample_boundary s) 1 (replicate 32 1) (sample_target s) s 32 = Inr ()"
proof -
  have b: "compute_ssz_merkle_root toy_zisk (replicate 32 1) (5 * 8192 + 32)
      (block_roots_siblings (sample_boundary s)) = sample_header_state s"
    using history_path(1) [of "replicate 32 1"]
    by (simp add: compute_ssz_merkle_root_def sample_boundary_def compute_root_append
        sample_header_state_def fields_45_def drop_bit_eq_div)
  have s: "compute_ssz_merkle_root toy_zisk s (6 * 8192 + 32)
      (state_roots_siblings (sample_boundary s)) = sample_header_state s"
    using history_path(2) [of s]
    by (simp add: compute_ssz_merkle_root_def sample_boundary_def compute_root_append
        sample_header_state_def fields_67_def drop_bit_eq_div)
  have h: "justified_header (sample_boundary s) = sample_header s" by (simp add: sample_boundary_def)
  show ?thesis
    unfolding open_boundary_Inr state_root_from_history_Inr h Let_def
    using b s
    by (simp add: sample_header_def sample_target_def BLOCK_ROOTS_FIELD_def STATE_ROOTS_FIELD_def
        SLOTS_PER_HISTORICAL_ROOT_def word_less_nat_alt word_le_nat_alt)
      (simp add: sample_boundary_def)
qed

lemma length_sample_target [simp]: "length (sample_target s) = 32"
  by (simp add: sample_target_def block_header_root_def Let_def)

lemma length_sample_state_root [simp]: "length (sample_state_root oth bal) = 32"
  by (simp add: sample_state_root_def compute_ssz_merkle_root_def)

text \<open>Epoch 1, justified over the accumulator the diff starts from.\<close>

definition sample_finalized :: justification_output where
  "sample_finalized = \<lparr>jo_accumulator_commitment = sample_old_commitment,
     jo_committee_root = leaf_slot, jo_source_epoch = 0, jo_source_root = replicate 32 9,
     jo_target_epoch = 1, jo_target_root = replicate 32 1, jo_attesting_balance = 32,
     jo_slots_mask = 1, justified = True, jo_program_vk = JUSTIFICATION_PROGRAM_VK\<rparr>"

definition sample_diff :: epoch_diff_output where
  "sample_diff = sample_diff_output zero32 zero32"

definition sample_anchor :: bytes32 where
  "sample_anchor = sample_state_root zero32 32"

definition sample_justified :: justification_output where
  "sample_justified = sample_justification_output (sample_target sample_anchor)"

definition sample_finalization_witness :: finalization_witness where
  "sample_finalization_witness = \<lparr>fw_boundary = sample_boundary sample_anchor,
     justification_outputs = [sample_finalized, sample_justified],
     justification_proofs =
       [sample_proof JUSTIFICATION_PROGRAM_VK (jo_public_bytes sample_finalized),
        sample_proof JUSTIFICATION_PROGRAM_VK (jo_public_bytes sample_justified)],
     fw_epoch_diff_output = sample_diff,
     fw_epoch_diff_proof = sample_proof EPOCH_DIFF_PROGRAM_VK (ed_public_bytes sample_diff)\<rparr>"

definition sample_finalization_output :: finalization_output where
  "sample_finalization_output = \<lparr>fo_accumulator_commitment = sample_old_commitment,
     fo_next_accumulator_commitment = sample_commitment, fo_finalized_epoch = 1,
     fo_finalized_root = replicate 32 1, fo_finalized_state_root = sample_anchor\<rparr>"

lemma length_sample_old [simp]: "length sample_old_commitment = 4"
  by (simp add: sample_old_commitment_def)

lemma length_sample_anchor [simp]: "length sample_anchor = 32"
  by (simp add: sample_anchor_def)

lemma sample_justification_children:
  "baked_child toy_zisk (sample_proof JUSTIFICATION_PROGRAM_VK (jo_public_bytes sample_finalized))
     JUSTIFICATION_PROGRAM_VK (jo_public_bytes sample_finalized) = Inr True"
  "baked_child toy_zisk (sample_proof JUSTIFICATION_PROGRAM_VK (jo_public_bytes sample_justified))
     JUSTIFICATION_PROGRAM_VK (jo_public_bytes sample_justified) = Inr True"
  by (intro sample_children program_keys;
      simp add: sample_wf_defs sample_finalized_def sample_justified_def sample_justification_output_def
        MAX_PUBLIC_BYTES_def ZISK_PUBLICS_def program_keys)+

lemma sample_diff_child:
  "baked_child toy_zisk (sample_proof EPOCH_DIFF_PROGRAM_VK (ed_public_bytes sample_diff))
     EPOCH_DIFF_PROGRAM_VK (ed_public_bytes sample_diff) = Inr True"
  by (intro sample_children program_keys)
    (simp_all add: sample_wf_defs sample_diff_def sample_diff_output_def MAX_PUBLIC_BYTES_def ZISK_PUBLICS_def)

lemma sample_finalization:
  "verify_finalization toy_zisk sample_finalization_witness = Inr sample_finalization_output"
proof -
  have outs: "justification_outputs sample_finalization_witness = [sample_finalized, sample_justified]"
    and diff: "fw_epoch_diff_output sample_finalization_witness = sample_diff"
    and dp: "fw_epoch_diff_proof sample_finalization_witness =
      sample_proof EPOCH_DIFF_PROGRAM_VK (ed_public_bytes sample_diff)"
    and bd: "fw_boundary sample_finalization_witness = sample_boundary sample_anchor"
    by (simp_all add: sample_finalization_witness_def)
  have kids: "fold_res (justification_child toy_zisk) ()
      (zip (justification_proofs sample_finalization_witness) [sample_finalized, sample_justified]) = Inr ()"
    unfolding justification_children using sample_justification_children
    by (simp add: sample_finalization_witness_def)
      (simp add: sample_finalized_def sample_justified_def sample_justification_output_def)
  have je: "justified sample_finalized" "jo_target_epoch sample_finalized = 1"
    "jo_target_root sample_finalized = replicate 32 1"
    "jo_accumulator_commitment sample_finalized = sample_old_commitment"
    and je1: "justified sample_justified" "jo_target_epoch sample_justified = 2"
    "jo_source_epoch sample_justified = 1" "jo_source_root sample_justified = replicate 32 1"
    "jo_target_root sample_justified = sample_target sample_anchor"
    "jo_accumulator_commitment sample_justified = sample_commitment"
    and d: "ed_prev_accumulator_commitment sample_diff = sample_old_commitment"
    "ed_accumulator_commitment sample_diff = sample_commitment" "ed_epoch_1 sample_diff = 1"
    "ed_epoch_2 sample_diff = 2" "ed_state_root_1 sample_diff = sample_anchor"
    by (simp_all add: sample_finalized_def sample_justified_def sample_justification_output_def
        sample_diff_def sample_diff_output_def sample_anchor_def)
  show ?thesis
    unfolding verify_finalization_def verify_finalization_with_slots_def outs diff dp bd Let_def
      kids bind_res_of_Inr nth_Cons_0 One_nat_def nth_Cons_Suc je je1 d sample_diff_child
      SLOTS_PER_EPOCH_def sample_open_boundary map_err_of_Inr
    by (simp add: je je1 sample_finalization_output_def)
qed

section \<open>The streaming proofs\<close>

lemma length_absorb_toy: "4 \<le> length st \<Longrightarrow> 4 \<le> length (absorb_fp12 toy_zisk f h st)"
  by (induction "toy_zisk" f h st rule: absorb_fp12.induct)
    (subst absorb_fp12.simps, simp add: permute_def toy_zisk_def toy_permute_def)

lemma length_commit_fp12_toy [simp]: "length (commit_fp12 toy_zisk f) = 4"
  using length_absorb_toy by (simp add: commit_fp12_def)

definition sample_group :: "vote_link \<Rightarrow> group_proof_output" where
  "sample_group L = \<lparr>gp_accumulator_commitment = sample_commitment, gp_committee_root = leaf_slot,
     gp_source_epoch = vl_source_epoch L, gp_source_root = vl_source_root L,
     gp_target_epoch = vl_target_epoch L, gp_target_root = vl_target_root L,
     gp_attesting_balance = 48, gp_slots_mask = 1,
     gp_miller_commitment = commit_fp12 toy_zisk FP12_ONE\<rparr>"

lemma sample_group_proof:
  "verify_group_proof_with_depth toy_zisk (sample_slot_witness L) 1 = Inr (sample_group L)"
  unfolding verify_group_proof_with_depth_def sample_attest bind_res_of_Inr
  by (simp add: sample_group_def sample_slot_witness_def)

definition sample_aggregate_witness :: "bytes32 \<Rightarrow> aggregate_witness" where
  "sample_aggregate_witness r = \<lparr>aw_accumulator_commitment = sample_commitment,
     aw_source_epoch = 1, aw_source_root = replicate 32 1, aw_target_epoch = 2, aw_target_root = r,
     aggregate_program_vk = AGGREGATE_PROGRAM_VK,
     aw_epoch_diff = Some sample_diff,
     aw_epoch_diff_proof = sample_proof EPOCH_DIFF_PROGRAM_VK (ed_public_bytes sample_diff),
     aw_committee = Some sample_committee_output,
     aw_committee_proof = sample_proof COMMITTEE_PROGRAM_VK (co_public_bytes sample_committee_output),
     aw_previous = None, aw_previous_proof = [], aw_previous_miller = FP12_ONE,
     aw_groups = [sample_group (link_to r)],
     aw_group_proofs = [sample_proof GROUP_PROGRAM_VK (gp_public_bytes (sample_group (link_to r)))],
     aw_group_millers = [FP12_ONE]\<rparr>"

definition sample_aggregate_output :: "bytes32 \<Rightarrow> aggregate_output" where
  "sample_aggregate_output r = \<lparr>ao_accumulator_commitment = sample_commitment,
     ao_committee_root = leaf_slot, ao_previous_accumulator_commitment = sample_old_commitment,
     ao_anchor_state_root = sample_anchor, ao_target_epoch = 2,
     ao_checkpoint_digest = checkpoint_digest toy_zisk 1 (replicate 32 1) 2 r,
     ao_attesting_balance = 48, ao_slots_mask = 1,
     ao_miller_commitment = commit_fp12 toy_zisk FP12_ONE, ao_program_vk = AGGREGATE_PROGRAM_VK\<rparr>"

lemma sample_group_child:
  assumes "length r = 32"
  shows "baked_child toy_zisk (sample_proof GROUP_PROGRAM_VK (gp_public_bytes (sample_group (link_to r))))
    GROUP_PROGRAM_VK (gp_public_bytes (sample_group (link_to r))) = Inr True"
  using assms by (intro sample_children program_keys)
    (simp_all add: sample_wf_defs sample_group_def link_to_def MAX_PUBLIC_BYTES_def ZISK_PUBLICS_def)

lemma sample_epoch_link:
  "epoch_link toy_zisk (Some sample_diff)
     (sample_proof EPOCH_DIFF_PROGRAM_VK (ed_public_bytes sample_diff)) sample_commitment 2 =
   Inr (sample_old_commitment, sample_anchor)"
  unfolding epoch_link_Inr using sample_diff_child
  by (intro exI [of _ sample_diff]) (simp add: sample_diff_def sample_diff_output_def sample_anchor_def)

lemma sample_committee_link:
  "committee_link toy_zisk (Some sample_committee_output)
     (sample_proof COMMITTEE_PROGRAM_VK (co_public_bytes sample_committee_output)) sample_commitment 2 =
   Inr leaf_slot"
  unfolding committee_link_Inr using sample_committee_child
  by (intro exI [of _ sample_committee_output]) (simp add: sample_committee_output_def)

lemma sample_group_steps:
  assumes "length r = 32"
  shows "fold_res (group_step toy_zisk \<lparr>fp_accumulator_commitment = sample_commitment,
      fp_committee_root = leaf_slot, fp_source_epoch = 1, fp_source_root = replicate 32 1,
      fp_target_epoch = 2, fp_target_root = r\<rparr>) fold_open
    [(sample_group (link_to r),
      sample_proof GROUP_PROGRAM_VK (gp_public_bytes (sample_group (link_to r))), FP12_ONE)] =
   Inr \<lparr>fs_balance = 48, fs_mask = 1, fs_miller = FP12_ONE\<rparr>"
proof -
  have "verify_group toy_zisk \<lparr>fp_accumulator_commitment = sample_commitment,
      fp_committee_root = leaf_slot, fp_source_epoch = 1, fp_source_root = replicate 32 1,
      fp_target_epoch = 2, fp_target_root = r\<rparr> (sample_group (link_to r))
      (sample_proof GROUP_PROGRAM_VK (gp_public_bytes (sample_group (link_to r)))) FP12_ONE = Inr ()"
    unfolding verify_group_Inr using sample_group_child [OF assms]
    by (simp add: sample_group_def link_to_def)
  moreover have "fp12_mul toy_zisk FP12_ONE FP12_ONE = FP12_ONE"
    by (simp add: fp12_mul_def toy_zisk_def)
  ultimately show ?thesis
    by (simp add: group_step_def fold_open_def) (simp add: sample_group_def)
qed

lemma sample_aggregate_proof:
  assumes "length r = 32"
  shows "verify_aggregate toy_zisk (sample_aggregate_witness r) = Inr (sample_aggregate_output r)"
proof -
  have links: "aggregate_links toy_zisk (sample_aggregate_witness r) =
      Inr (sample_old_commitment, sample_anchor, leaf_slot)"
    by (simp add: aggregate_links_def sample_aggregate_witness_def sample_epoch_link sample_committee_link)
  have fields: "aw_previous (sample_aggregate_witness r) = None"
    "aw_accumulator_commitment (sample_aggregate_witness r) = sample_commitment"
    "aw_source_epoch (sample_aggregate_witness r) = 1"
    "aw_source_root (sample_aggregate_witness r) = replicate 32 1"
    "aw_target_epoch (sample_aggregate_witness r) = 2" "aw_target_root (sample_aggregate_witness r) = r"
    "aggregate_program_vk (sample_aggregate_witness r) = AGGREGATE_PROGRAM_VK"
    "zip (aw_groups (sample_aggregate_witness r))
      (zip (aw_group_proofs (sample_aggregate_witness r)) (aw_group_millers (sample_aggregate_witness r))) =
      [(sample_group (link_to r),
        sample_proof GROUP_PROGRAM_VK (gp_public_bytes (sample_group (link_to r))), FP12_ONE)]"
    by (simp_all add: sample_aggregate_witness_def)
  show ?thesis
    unfolding verify_aggregate_def Let_def links fields option.case bind_res_of_Inr prod.case
      sample_group_steps [OF assms]
    by (simp add: sample_aggregate_output_def) (simp add: sample_aggregate_witness_def)
qed

text \<open>The final proof of epoch 2: the marginal slot alone, no aggregate.\<close>

definition sample_stream_witness :: stream_final_witness where
  "sample_stream_witness = \<lparr>sfw_accumulator_commitment = sample_commitment, sfw_target_epoch = 2,
     sfw_target_root = sample_target sample_anchor, sfw_signing_domain = zero32,
     sfw_acc_root = sample_root, sfw_total_active_balance = 64, stream_program_vk = replicate 4 5,
     sfw_epoch_diff = Some sample_diff,
     sfw_epoch_diff_proof = sample_proof EPOCH_DIFF_PROGRAM_VK (ed_public_bytes sample_diff),
     sfw_committee = Some sample_committee_output,
     sfw_committee_proof = sample_proof COMMITTEE_PROGRAM_VK (co_public_bytes sample_committee_output),
     aggregate = None, aggregate_proof = [], aggregate_miller = FP12_ONE,
     sfw_groups = [], sfw_group_proofs = [], sfw_group_millers = [],
     sfw_tail = [sample_slot (link_to (sample_target sample_anchor))],
     tail_acc_multi_proof = [leaf_A], tail_committee_multi_proof = replicate 5 ZERO,
     sfw_previous_justification = Batch sample_finalized,
     sfw_previous_justification_proof =
       sample_proof JUSTIFICATION_PROGRAM_VK (jo_public_bytes sample_finalized),
     sfw_boundary = sample_boundary sample_anchor\<rparr>"

definition sample_stream_output :: stream_final_output where
  "sample_stream_output = \<lparr>sf_accumulator_commitment = sample_old_commitment,
     sf_next_accumulator_commitment = sample_commitment, sf_finalized_epoch = 1,
     sf_finalized_root = replicate 32 1, sf_finalized_state_root = sample_anchor,
     sf_justified_epoch = 2, sf_justified_root = sample_target sample_anchor,
     sf_program_vk = replicate 4 5\<rparr>"

lemma sample_finalized_simps:
  "justified sample_finalized" "jo_target_epoch sample_finalized = 1"
  "jo_target_root sample_finalized = replicate 32 1"
  "jo_accumulator_commitment sample_finalized = sample_old_commitment"
  "jo_program_vk sample_finalized = JUSTIFICATION_PROGRAM_VK"
  by (simp_all add: sample_finalized_def)

lemma sample_stream_final:
  "verify_stream_final_with toy_zisk sample_stream_witness 1 32 = Inr sample_stream_output"
proof -
  let ?w = sample_stream_witness
  have links: "stream_links toy_zisk ?w = Inr (sample_old_commitment, sample_anchor, leaf_slot)"
    by (simp add: stream_links_def sample_stream_witness_def sample_epoch_link sample_committee_link)
  have lk: "stream_link ?w = link_to (sample_target sample_anchor)"
    by (simp add: stream_link_def sample_stream_witness_def sample_finalized_simps link_to_def)
  have one: "fp12_mul toy_zisk FP12_ONE FP12_ONE = FP12_ONE" by (simp add: fp12_mul_def toy_zisk_def)
  have tailf: "sfw_tail ?w = [sample_slot (link_to (sample_target sample_anchor))]"
    "sfw_acc_root ?w = sample_root" "tail_acc_multi_proof ?w = [leaf_A]"
    "tail_committee_multi_proof ?w = replicate 5 ZERO"
    by (simp_all add: sample_stream_witness_def)
  have tail: "absorb_tail toy_zisk ?w leaf_slot 1 fold_open = Inr (48, FP12_ONE)"
    unfolding absorb_tail_def tailf lk sample_attestations by (simp add: fold_open_def one)
  have prev: "previous_proved toy_zisk ?w = Inr ()"
    unfolding previous_proved_def
    by (simp add: sample_stream_witness_def sample_justification_children sample_finalized_simps)
  have tt: "two_thirds 48 64" by (simp add: two_thirds_def)
  have fields: "sfw_previous_justification ?w = Batch sample_finalized"
    "sfw_accumulator_commitment ?w = sample_commitment" "sfw_target_epoch ?w = 2"
    "sfw_target_root ?w = sample_target sample_anchor" "sfw_total_active_balance ?w = 64"
    "stream_program_vk ?w = replicate 4 5" "aggregate ?w = None" "sfw_groups ?w = []"
    "sfw_group_proofs ?w = []" "sfw_group_millers ?w = []"
    "sfw_boundary ?w = sample_boundary sample_anchor"
    by (simp_all add: sample_stream_witness_def)
  show ?thesis
    unfolding verify_stream_final_with_def Let_def links fields tailf option.case bind_res_of_Inr prod.case
      zip.simps fold_res.simps map_err_of_Inr tail prev pj_target_epoch.simps pj_target_root.simps
      pj_is_justified.simps pj_accumulator_commitment.simps sample_finalized_simps sample_open_boundary
    by (simp add: toy_hashes toy_final_exp tt sample_finalized_simps sample_stream_output_def)
qed

end
