(* ===== verification/Common_Properties.thy ===== *)
theory Common_Properties
  imports SampleEpoch
begin

text \<open>
  The properties of the components every guest shares: the accumulator's hash inputs, the Merkle
  verifier and the host's tree behind it, the binding of a child proof, the stored-proof format, the
  SSZ routines, the sums of public keys and the grouping of messages. Each property stands under its
  id with its text, and is followed by the witness that applies it to the sample of \<open>SampleEpoch\<close>.
\<close>

section \<open>The accumulator's hash inputs\<close>

text \<open>C25: A leaf, a commitment and an inner node of the accumulator never hash the same permutation
  input: the three are separated by domain, and inside a domain the input determines the public key
  and balance, the root and total balance, or the two children.\<close>

theorem accumulator_preimages_injective:
  assumes "length p = 12" "length q = 12"
    and "length r = 4" "length r' = 4" "length s = 4" "length s' = 4"
  shows "(leaf_state p a = leaf_state q b \<longleftrightarrow> p = q \<and> a = b) \<and>
    (commitment_state r a = commitment_state s b \<longleftrightarrow> r = s \<and> a = b) \<and>
    (node_state r r' = node_state s s' \<longleftrightarrow> r = s \<and> r' = s') \<and>
    leaf_state p a \<noteq> commitment_state r b \<and> leaf_state p a \<noteq> node_state r r' \<and>
    commitment_state r a \<noteq> node_state s s'"
  using assms leaf_state_inj [OF assms(1,2)] commitment_state_inj [OF assms(3,5)]
    states_disjoint node_state_inj
  by (auto simp: eq_commute)

theorem accumulator_preimages_injective_witness:
  "leaf_state key_A 48 \<noteq> leaf_state key_B 48 \<and> leaf_state key_A 48 \<noteq> node_state ZERO ZERO"
  using accumulator_preimages_injective [of key_A key_B ZERO ZERO ZERO ZERO 48 48]
  by (simp add: key_A_def key_B_def ZERO_def)

text \<open>C26: A digest written for a public output takes 32 bytes and is read back as it was.\<close>

theorem digest_bytes_roundtrip:
  assumes "length d = 4"
  shows "length (to_bytes d) = 32 \<and> from_bytes (to_bytes d) = d"
  using assms by (simp add: from_bytes_to_bytes)

theorem digest_bytes_roundtrip_witness: "from_bytes (to_bytes sample_root) = sample_root"
  using digest_bytes_roundtrip [of sample_root] by simp

section \<open>The batch verifier\<close>

text \<open>C27: A batch opening that reaches the root of a tree opens the tree's leaves: every value is
  the leaf at its index within the depth, and no position is opened twice, as long as the hash does
  not collide on the pairs the opening and the tree hash.\<close>

theorem batch_root_opens_tree:
  assumes "batch_root (compress Z) leaves aux d = Inr (tree_root (compress Z) L d)"
    and "collision_free (compress Z)
      (batch_pairs (compress Z) d (map snd leaves) (map fst leaves) aux \<union> tree_pairs (compress Z) L d)"
  shows "(\<forall>(v, k)\<in>set leaves. v = L (unat k mod 2 ^ d)) \<and>
    distinct (map (\<lambda>(v, k). unat k mod 2 ^ d) leaves)"
  using batch_root_binding [OF assms] batch_root_distinct_positions [OF assms(1)] by blast

definition sample_leaves :: "nat \<Rightarrow> digest" where
  "sample_leaves i = (if i = 0 then leaf_A else if i = 1 then leaf_B else ZERO)"

lemma sample_tree: "tree_root (compress toy_zisk) sample_leaves 1 = sample_root"
  by (simp add: parent_leaves_def sample_leaves_def toy_hashes)

lemma sample_tree_pairs: "tree_pairs (compress toy_zisk) sample_leaves 1 = {(leaf_A, leaf_B)}"
  by (simp add: sample_leaves_def lessThan_Suc)

theorem batch_root_opens_tree_witness: "leaf_B = sample_leaves 1"
proof -
  have "collision_free (compress toy_zisk)
    (batch_pairs (compress toy_zisk) 1 (map snd [(leaf_B, 1)]) (map fst [(leaf_B, 1)]) [leaf_A] \<union>
     tree_pairs (compress toy_zisk) sample_leaves 1)"
    unfolding sample_tree_pairs by (simp add: collision_free_def)
  moreover have "batch_root (compress toy_zisk) [(leaf_B, 1)] [leaf_A] 1 =
      Inr (tree_root (compress toy_zisk) sample_leaves 1)"
    unfolding sample_tree by (simp add: batch_root_def batch_root_columns_def toy_hashes)
  ultimately show ?thesis
    using batch_root_opens_tree [of toy_zisk "[(leaf_B, 1)]" "[leaf_A]" 1 sample_leaves] by simp
qed

section \<open>The host's tree\<close>

text \<open>C28: A tree built from a validator list is consistent, and its root is the root of the registry
  of the validators that fit the depth: those past \<open>2 ^ depth\<close> are left out without an error.\<close>

theorem acc_tree_build_commits:
  assumes "acc_tree_build Z decompress vs epoch depth = Inr t"
  shows "verify_consistent Z t = Inr () \<and> tree_depth t = depth \<and>
    acc_tree_root Z t =
      registry_root Z (validators_registry decompress (take (2 ^ depth) vs) epoch) depth"
  using acc_tree_build_Inr [OF assms] by (simp add: acc_tree_ok_def)

definition sample_validators :: "validator_data list" where
  "sample_validators = [sample_validator 48, (sample_validator 16)\<lparr>vd_pubkey := replicate 48 2\<rparr>]"

definition sample_acc_tree :: acc_tree where
  "sample_acc_tree = \<lparr>tree_depth = 1, dense_depth = 1, tree_levels = [[leaf_A, leaf_B], [sample_root]],
     zero_hashes = [ZERO, ZERO]\<rparr>"

lemma sample_acc_tree_build:
  "acc_tree_build toy_zisk (decompress_pubkey toy_zisk) sample_validators 2 1 = Inr sample_acc_tree"
proof -
  have e: "(2 :: u64) < - 1" by (simp flip: word_order.not_eq_extremum)
  have b: "decompress_pubkey toy_zisk (replicate 48 2) = Some key_B"
    by (simp add: decompress_pubkey_def toy_zisk_def key_B_def)
  have a: "vd_pubkey (sample_validator 48) = replicate 48 1" by (simp add: sample_validator_def)
  have ab: "active_effective_balance ((sample_validator 16)\<lparr>vd_pubkey := replicate 48 2\<rparr>) 2 = 16"
    using e by (simp add: active_effective_balance_def is_active_def sample_validator_def)
  have l: "build_leaves toy_zisk (decompress_pubkey toy_zisk) 2 sample_validators = Inr [leaf_A, leaf_B]"
    by (simp add: sample_validators_def a b sample_decompress sample_active e ab toy_hashes)
  have d: "min (max (ceil_log2 (length sample_validators)) 1) 1 = 1" by simp
  show ?thesis
    unfolding acc_tree_build_def Let_def l d bind_res_of_Inr
    by (simp add: sample_acc_tree_def resize_def toy_hashes compute_zero_hashes_def)
qed

theorem acc_tree_build_commits_witness: "verify_consistent toy_zisk sample_acc_tree = Inr ()"
  using acc_tree_build_commits [OF sample_acc_tree_build] by blast

text \<open>C29: Every multi-proof a consistent tree builds is accepted by the guests' batch verifier, for
  any non-empty set of stored indices in any order and with repetitions: the auxiliaries come in the
  order the verifier consumes them and none is left over.\<close>

theorem multi_proof_verifies:
  assumes "acc_tree_ok Z t" "ks \<noteq> []" "\<forall>k\<in>set ks. unat k < 2 ^ dense_depth t"
  shows "batch_root (compress Z) (map (\<lambda>k. (stored_leaf t (unat k), k)) (remdups_adj (sort ks)))
    (build_multi_proof t ks) (tree_depth t) = Inr (acc_tree_root Z t)"
  by (rule build_multi_proof_verifies [OF assms])

lemma sample_acc_tree_ok: "acc_tree_ok toy_zisk sample_acc_tree"
  using acc_tree_build_Inr(1) [OF sample_acc_tree_build] .

theorem multi_proof_verifies_witness:
  "batch_root (compress toy_zisk) [(leaf_B, 1)] (build_multi_proof sample_acc_tree [1, 1]) 1 =
     Inr sample_root"
  using multi_proof_verifies [OF sample_acc_tree_ok, of "[1, 1]"]
  by (simp add: sample_acc_tree_def stored_leaf_def acc_tree_root_def sparse_root_def)

text \<open>C30: Updating a leaf returns the siblings under which the guests recompute the root before the
  update, and leaves a consistent tree whose root is the one the guests recompute from the new leaf
  along the same siblings; every other leaf is kept.\<close>

theorem update_leaf_refines_path:
  assumes "acc_tree_ok Z t" "unat k < 2 ^ dense_depth t"
  shows "\<exists>t' siblings. update_leaf Z t k new_leaf = Inr (t', siblings) \<and> acc_tree_ok Z t' \<and>
    length siblings = tree_depth t \<and>
    compute_root (compress Z) (stored_leaf t (unat k)) k siblings = acc_tree_root Z t \<and>
    compute_root (compress Z) new_leaf k siblings = acc_tree_root Z t' \<and>
    stored_leaf t' = (stored_leaf t)(unat k := new_leaf)"
proof -
  obtain t' where t': "update_leaf Z t k new_leaf =
      Inr (t', path_siblings (compress Z) (stored_leaf t) (tree_depth t) (unat k))"
    "acc_tree_ok Z t'" "tree_depth t' = tree_depth t"
    "stored_leaf t' = (stored_leaf t)(unat k := new_leaf)"
    using update_leaf_ok [OF assms] by metis
  have "(2 :: nat) ^ dense_depth t \<le> 2 ^ tree_depth t" using acc_tree_okD(2) [OF assms(1)] by simp
  then have k: "unat k < 2 ^ tree_depth t" using assms(2) by linarith
  show ?thesis
    using t' k compute_root_path [OF k, of "compress Z"]
    by (auto simp: acc_tree_root_eq [OF assms(1)] acc_tree_root_eq [OF t'(2)])
qed

theorem update_leaf_refines_path_witness:
  "\<exists>t' siblings. update_leaf toy_zisk sample_acc_tree 1 ZERO = Inr (t', siblings) \<and>
     compute_root (compress toy_zisk) leaf_B 1 siblings = sample_root"
  using update_leaf_refines_path [OF sample_acc_tree_ok, of 1 ZERO]
  by (auto simp: sample_acc_tree_def stored_leaf_def acc_tree_root_def sparse_root_def)

section \<open>Child proofs\<close>

text \<open>C31: In the zkVM a child under a key the guest was baked with is accepted only when there is a
  proof, the key was baked, the proof asks for the pinned aggregation key, carries exactly that
  program key, publishes exactly the expected bytes with zeros after them, and verifies. A missing
  proof never stands for a verified one there, while a native build takes it as one.\<close>

theorem baked_child_requirements:
  shows "(target_zkvm Z \<longrightarrow> verify_baked_child Z proof vk pb = Inr True \<longrightarrow>
      proof \<noteq> [] \<and> vk \<noteq> UNSET_VK \<and> child_vadcop_vk proof = Some VADCOP_FINAL_VK \<and>
      child_program_vk proof = Some vk \<and>
      child_public_bytes proof = Some (pb @ replicate (MAX_PUBLIC_BYTES - length pb) 0) \<and>
      verify_zisk_proof Z proof) \<and>
    verify_baked_child Z [] vk pb = Inr (\<not> target_zkvm Z)"
  using verify_baked_child_zkvm [of Z "proof" vk pb] verify_child_True [of Z "proof" vk pb]
    verify_child_publics [of Z "proof" vk pb] verify_baked_child_empty
  by blast

theorem baked_child_requirements_witness:
  "child_program_vk (sample_proof JUSTIFICATION_PROGRAM_VK (jo_public_bytes sample_finalized)) =
     Some JUSTIFICATION_PROGRAM_VK"
proof -
  let ?p = "sample_proof JUSTIFICATION_PROGRAM_VK (jo_public_bytes sample_finalized)"
  obtain pb where "jo_public_bytes sample_finalized = Inr pb"
    "verify_baked_child toy_zisk ?p JUSTIFICATION_PROGRAM_VK pb = Inr True"
    using sample_justification_children(1) by (auto simp: baked_child_def)
  moreover have "target_zkvm toy_zisk" by (simp add: toy_zisk_def)
  ultimately show ?thesis
    using baked_child_requirements [of toy_zisk ?p JUSTIFICATION_PROGRAM_VK] by blast
qed

text \<open>C32: The bytes a guest publishes fit a proof's public words and determine the output, for every
  output type of the pipeline: two well-formed outputs with the same bytes are the same output.\<close>

theorem public_bytes_determine_output:
  assumes "wf_ed d" "wf_ed d'" "wf_co c" "wf_co c'" "wf_sp s" "wf_sp s'" "wf_jo j" "wf_jo j'"
    and "wf_fo f" "wf_fo f'" "wf_gp g" "wf_gp g'" "wf_ao a" "wf_ao a'" "wf_sf t" "wf_sf t'"
  shows "(ed_public_bytes d = ed_public_bytes d' \<longleftrightarrow> d = d') \<and>
    (co_public_bytes c = co_public_bytes c' \<longleftrightarrow> c = c') \<and>
    (sp_public_bytes s = sp_public_bytes s' \<longleftrightarrow> s = s') \<and>
    (jo_public_bytes j = jo_public_bytes j' \<longleftrightarrow> j = j') \<and>
    (fo_public_bytes f = fo_public_bytes f' \<longleftrightarrow> f = f') \<and>
    (gp_public_bytes g = gp_public_bytes g' \<longleftrightarrow> g = g') \<and>
    (ao_public_bytes a = ao_public_bytes a' \<longleftrightarrow> a = a') \<and>
    (sf_public_bytes t = sf_public_bytes t' \<longleftrightarrow> t = t')"
  using ed_public.public_inj [OF assms(1,2)] co_public.public_inj [OF assms(3,4)]
    sp_public.public_inj [OF assms(5,6)] jo_public.public_inj [OF assms(7,8)]
    fo_public.public_inj [OF assms(9,10)] gp_public.public_inj [OF assms(11,12)]
    ao_public.public_inj [OF assms(13,14)] sf_public.public_inj [OF assms(15,16)]
  by blast

lemma sample_outputs_wf:
  "wf_ed sample_diff" "wf_co sample_committee_output" "wf_sp (sample_slot_output (link_to zero32))"
  "wf_jo sample_finalized" "wf_jo sample_justified" "wf_fo sample_finalization_output"
  "wf_gp (sample_group (link_to zero32))" "wf_ao (sample_aggregate_output zero32)"
  "wf_sf sample_stream_output"
proof -
  have z: "length zero32 = 32" by (simp add: zero32_def)
  have cp: "length (checkpoint_digest Z a r b q) = 32" for Z a r b q
    by (simp add: checkpoint_digest_def)
  show "wf_ed sample_diff" "wf_co sample_committee_output"
    "wf_sp (sample_slot_output (link_to zero32))" "wf_jo sample_finalized" "wf_jo sample_justified"
    "wf_fo sample_finalization_output" "wf_gp (sample_group (link_to zero32))"
    "wf_ao (sample_aggregate_output zero32)" "wf_sf sample_stream_output"
    using z cp by (simp_all add: sample_wf_defs wf_fo_def sample_diff_def sample_diff_output_def
        sample_committee_output_def sample_slot_output_def link_to_def sample_finalized_def
        sample_justified_def sample_justification_output_def sample_finalization_output_def
        sample_group_def sample_aggregate_output_def sample_stream_output_def program_keys)
qed

theorem public_bytes_determine_output_witness:
  "jo_public_bytes sample_finalized \<noteq> jo_public_bytes sample_justified"
proof -
  have "sample_finalized \<noteq> sample_justified"
    by (simp add: sample_finalized_def sample_justified_def sample_justification_output_def)
  then show ?thesis
    using public_bytes_determine_output [OF sample_outputs_wf(1,1,2,2,3,3,4,5,6,6,7,7,8,8,9,9)] by blast
qed

text \<open>One proof stands for one program and one output: whoever accepts the same child proof,
  under whatever key and for whatever well-formed justification, accepted the same key and the same
  justification.\<close>

theorem justification_proof_binds:
  assumes "carried_child Z proof vk (jo_public_bytes x) = Inr True"
    and "carried_child Z' proof vk' (jo_public_bytes y) = Inr True"
    and "proof \<noteq> []" "wf_jo x" "wf_jo y"
  shows "vk = vk' \<and> x = y"
  using assms jo_public.child_binds_output [OF assms(4,5,3)]
  by (auto simp: carried_child_def)

theorem justification_proof_binds_witness:
  "carried_child native_zisk (sample_proof JUSTIFICATION_PROGRAM_VK (jo_public_bytes sample_finalized))
     JUSTIFICATION_PROGRAM_VK (jo_public_bytes sample_justified) \<noteq> Inr True"
proof -
  have "sample_finalized \<noteq> sample_justified"
    by (simp add: sample_finalized_def sample_justified_def sample_justification_output_def)
  moreover have "carried_child toy_zisk (sample_proof JUSTIFICATION_PROGRAM_VK (jo_public_bytes sample_finalized))
      JUSTIFICATION_PROGRAM_VK (jo_public_bytes sample_finalized) = Inr True"
    by (rule jo_public.sample_output_child(1))
      (simp_all add: sample_outputs_wf program_keys MAX_PUBLIC_BYTES_def ZISK_PUBLICS_def)
  moreover have "sample_proof vk pb \<noteq> []" for vk pb by (simp add: sample_proof_def child_words_def)
  ultimately show ?thesis
    using justification_proof_binds [of toy_zisk _ JUSTIFICATION_PROGRAM_VK sample_finalized
        native_zisk JUSTIFICATION_PROGRAM_VK sample_justified] sample_outputs_wf(4,5) by blast
qed

text \<open>C38: Splitting a stored proof loses no word and accepts none it cannot place: the header, the
  public words, the body and the key, put back together, are the stored words, and the publics carry
  the four key words and the 64 public words whichever of the two formats was stored.\<close>

theorem split_stored_partition:
  assumes "split_stored words = Some s"
  shows "words = (if minimal s then 1 else 0) # of_nat (length (stark_publics s)) #
      stark_publics s @ proof_body s @ zisk_vk s \<and>
    proof_body s \<noteq> [] \<and> length (zisk_vk s) = VADCOP_VK_LEN \<and>
    length (publics_full s) = PROGRAM_VK_LEN + ZISK_PUBLICS"
  using split_stored_join [OF assms] by blast

theorem split_stored_partition_witness:
  "\<exists>s. split_stored (1 # 68 # replicate 73 7) = Some s \<and> proof_body s = [7] \<and>
     length (publics_full s) = 68"
proof -
  have "split_stored (1 # 68 # replicate 73 7) = Some \<lparr>minimal = True, stark_publics = replicate 68 7,
      proof_body = [7], zisk_vk = replicate 4 7\<rparr>"
    by (simp add: split_stored_def layout_defs Let_def) (simp add: numeral_eq_Suc)
  then show ?thesis
    using split_stored_partition [of "1 # 68 # replicate 73 7"]
    by (auto simp: layout_defs)
qed

section \<open>SSZ\<close>

text \<open>Hashing an old and a new validator side by side, reusing the subtrees they share, gives
  the two hash-tree roots hashed on their own.\<close>

theorem root_pair_equals_roots:
  "validator_hash_tree_root_pair Z old_leaves new_leaves =
     (validator_hash_tree_root Z old_leaves, validator_hash_tree_root Z new_leaves)"
  by (rule validator_hash_tree_root_pair_eq)

text \<open>C39: What the leaves under a validator's hash-tree root say of the data accepted with them. The
  balance and both epochs are theirs, whichever chunks come with them. The key is theirs exactly when
  the chunks hash to the key's leaf: of two acceptances of the same leaves, one by the check with the
  key hash and one by the check without it, the data are the same if and only if the second would
  pass the check with the hash too.\<close>

theorem field_leaves_determine_data:
  assumes "verify_field_leaves Z v leaves c = Inr ()"
    and "verify_field_leaves_no_pubkey_hash w leaves c' = Inr ()"
    and "length (vd_pubkey v) = 48" "length (vd_pubkey w) = 48"
    and "length (c ! 0) = 32" "length (c ! 1) = 32" "length (c' ! 0) = 32" "length (c' ! 1) = 32"
    and "collision_free (sha256_pair Z) {(c ! 0, c ! 1), (c' ! 0, c' ! 1)}"
  shows "effective_balance w = effective_balance v \<and> activation_epoch w = activation_epoch v \<and>
    exit_epoch w = exit_epoch v \<and> (v = w \<longleftrightarrow> verify_field_leaves Z w leaves c' = Inr ())"
proof -
  have v: "leaves ! 0 = sha256_pair Z (c ! 0) (c ! 1)"
    "verify_field_leaves_no_pubkey_hash v leaves c = Inr ()"
    using assms(1) by (simp_all add: verify_field_leaves_split)
  note keys = field_chunks_key [OF v(2) assms(5,6)] field_chunks_key [OF assms(2) assms(7,8)]
  have same: "effective_balance w = effective_balance v" "activation_epoch w = activation_epoch v"
    "exit_epoch w = exit_epoch v"
    using verify_field_leavesD(3-5) [OF v(2)] verify_field_leavesD(3-5) [OF assms(2)]
    by (metis u64_to_chunk_eq_iff)+
  have "verify_field_leaves Z w leaves c' = Inr ()" if "v = w"
    using keys v(1) assms(2) that by (simp add: verify_field_leaves_split)
  moreover have "v = w" if "verify_field_leaves Z w leaves c' = Inr ()"
  proof -
    have "sha256_pair Z (c ! 0) (c ! 1) = sha256_pair Z (c' ! 0) (c' ! 1)"
      using that v(1) by (simp add: verify_field_leaves_split)
    from collision_freeD [OF assms(9) _ _ this]
    have "c ! 0 = c' ! 0 \<and> c ! 1 = c' ! 1" by blast
    then have "verify_field_leaves_no_pubkey_hash w leaves c = Inr ()"
      using assms(2) by (simp add: verify_field_leaves_no_pubkey_hash_def)
    then show ?thesis using field_leaves_determine [OF v(2) _ assms(3,4)] by blast
  qed
  ultimately show ?thesis using same by blast
qed

text \<open>Another key over the same leaves passes the check without the key hash.\<close>

definition sample_other_key :: validator_data where
  "sample_other_key = (sample_validator 32)\<lparr>vd_pubkey := replicate 48 2\<rparr>"

definition sample_other_chunks :: "bytes32 list" where
  "sample_other_chunks = [replicate 32 2, replicate 16 2 @ replicate 16 0]"

lemma sample_key_hashes:
  "sha256_pair toy_zisk (replicate 32 1) (replicate 16 1 @ replicate 16 0) \<noteq>
   sha256_pair toy_zisk (replicate 32 2) (replicate 16 2 @ replicate 16 0)"
  by code_simp

theorem field_leaves_determine_data_witness:
  "effective_balance sample_other_key = effective_balance (sample_validator 32) \<and>
   verify_field_leaves toy_zisk sample_other_key (sample_fields 32) sample_other_chunks \<noteq> Inr ()"
proof -
  have "sample_fields 32 ! 2 = u64_to_chunk 32" "sample_fields 32 ! 5 = u64_to_chunk 0"
    "sample_fields 32 ! 6 = u64_to_chunk (- 1)"
    by (simp_all add: sample_fields_def)
  then have other: "verify_field_leaves_no_pubkey_hash sample_other_key (sample_fields 32) sample_other_chunks = Inr ()"
    unfolding verify_field_leaves_no_pubkey_hash_def
    by (simp_all only:) (simp_all add: sample_other_key_def sample_other_chunks_def sample_validator_def)
  have free: "collision_free (sha256_pair toy_zisk)
      {(sample_chunks ! 0, sample_chunks ! 1), (sample_other_chunks ! 0, sample_other_chunks ! 1)}"
    using sample_key_hashes by (auto simp: collision_free_def sample_chunks_def sample_other_chunks_def)
  have "sample_validator 32 \<noteq> sample_other_key"
    by (simp add: sample_other_key_def sample_validator_def)
  then show ?thesis
    using field_leaves_determine_data [OF sample_field_leaves(1) other _ _ _ _ _ _ free]
    by (simp add: sample_validator_def sample_other_key_def sample_chunks_def sample_other_chunks_def)
qed

section \<open>Signatures\<close>

lemma prod_ballI: "(\<And>a b. (a, b) \<in> S \<Longrightarrow> P a b) \<Longrightarrow> \<forall>(a, b)\<in>S. P a b"
  by blast

text \<open>C40: The messages of a batch are paired once per distinct signing root, and the key a root is
  paired with is the sum of the keys of every message that signs it: no message is left out, none is
  paired twice, and neither a signature sum outside the subgroup nor an identity key is accepted.\<close>

theorem miller_accumulator_groups:
  assumes "miller_accumulator Z ms = Inr (Some f)"
    and "curve_law Z C pt" "\<forall>m\<in>set ms. set (sm_pubkeys m) \<subseteq> C"
  shows "\<exists>groups sigsum. distinct (map fst groups) \<and>
    fst ` set groups = sm_signing_root ` set ms \<and>
    (\<forall>(root, key)\<in>set groups. key \<in> C \<and> key \<noteq> G1_IDENTITY \<and> pt key = signer_value pt ms root) \<and>
    sigsum \<noteq> G2_IDENTITY \<and> is_on_subgroup_twist_bls12_381 Z sigsum \<and>
    miller_loop_batch Z (map (\<lambda>g. neg_bls12_381 Z (snd g)) groups @ [G1_GENERATOR])
      (map (\<lambda>g. hash_to_curve_g2_bls12_381 Z (fst g) ETH_BLS_DST) groups @ [sigsum]) = Inr f"
proof -
  from assms(1) obtain groups sigsum where "ms \<noteq> []" and fold: "fold_messages Z [] G2_IDENTITY ms = Some (groups, sigsum)"
    and rest: "sigsum \<noteq> G2_IDENTITY" "is_on_subgroup_twist_bls12_381 Z sigsum"
      "\<forall>g\<in>set groups. snd g \<noteq> G1_IDENTITY"
      "miller_loop_batch Z (map (\<lambda>g. neg_bls12_381 Z (snd g)) groups @ [G1_GENERATOR])
       (map (\<lambda>g. hash_to_curve_g2_bls12_381 Z (fst g) ETH_BLS_DST) groups @ [sigsum]) = Inr f"
    by (rule miller_accumulator_Some)
  have roots: "distinct (map fst groups)" "fst ` set groups = sm_signing_root ` set ms"
    using conjunct1 [OF fold_messages_roots [OF fold, simplified list.map distinct.simps]]
      conjunct2 [OF fold_messages_roots [OF fold, simplified list.map distinct.simps]]
    by (simp_all only: list.set image_empty Un_empty_left)
  have none: "snd ` set ([] :: (bytes32 \<times> g1_point) list) \<subseteq> insert G1_IDENTITY C" "group_value pt [] r = 0" for r
    by (simp_all add: group_value_def)
  note folded = fold_messages_value [OF assms(2) fold none(1) assms(3)]
  have val: "snd ` set groups \<subseteq> insert G1_IDENTITY C" "group_value pt groups r = signer_value pt ms r" for r
    using conjunct1 [OF folded] conjunct2 [OF folded, of r] none(2) [of r] by (simp_all only: add_0_left)
  have "pt key = signer_value pt ms root" if "(root, key) \<in> set groups" for root key
    using val(2) [of root] map_of_is_SomeI [OF roots(1) that] by (simp add: group_value_def)
  then have keys: "\<forall>(root, key)\<in>set groups. key \<in> C \<and> key \<noteq> G1_IDENTITY \<and> pt key = signer_value pt ms root"
    using rest(3) val(1) by (intro prod_ballI) force
  show ?thesis
    by (rule exI [of _ groups], rule exI [of _ sigsum], intro conjI roots keys rest(1,2,4))
qed

theorem miller_accumulator_groups_witness:
  "\<exists>groups. fst ` set groups = {sample_message_root (link_to zero32)} \<and>
     (\<forall>(root, key)\<in>set groups. key ! 6 = (1 :: u64))"
proof -
  have "\<forall>m\<in>set [sample_message (link_to zero32)]. set (sm_pubkeys m) \<subseteq> toy_curve"
    by (simp add: sample_message_def toy_key_points)
  from miller_accumulator_groups [OF sample_miller toy_curve_law this]
  have "\<exists>groups. fst ` set groups = sm_signing_root ` set [sample_message (link_to zero32)] \<and>
      (\<forall>(root, key)\<in>set groups. key ! 6 = signer_value (\<lambda>p. p ! 6) [sample_message (link_to zero32)] root)"
    by blast
  then obtain groups where g: "fst ` set groups = {sample_message_root (link_to zero32)}"
    "\<forall>(root, key)\<in>set groups. key ! 6 = signer_value (\<lambda>p. p ! 6) [sample_message (link_to zero32)] root"
    by (auto simp: sample_message_def)
  have "key ! 6 = 1" if k: "(root, key) \<in> set groups" for root key
  proof -
    have "root \<in> fst ` set groups" using k by (rule image_eqI [rotated]) simp
    then have "root = sample_message_root (link_to zero32)" by (simp only: g(1) singleton_iff)
    moreover have "key ! 6 = signer_value (\<lambda>p. p ! 6) [sample_message (link_to zero32)] root"
      using bspec [OF g(2) k] by simp
    moreover have "signer_value (\<lambda>p. p ! 6) [sample_message (link_to zero32)]
        (sample_message_root (link_to zero32)) = 1"
      unfolding signer_value_def sample_message_def by (simp add: key_A_def)
    ultimately show ?thesis by simp
  qed
  then have keys: "\<forall>(root, key)\<in>set groups. key ! 6 = 1" by (rule prod_ballI)
  show ?thesis by (rule exI [of _ groups], rule conjI, rule g(1), rule keys)
qed

section \<open>The committee witness on the wire\<close>

text \<open>The committee guest reads its witness where the prover put it, as a flat array of words:
  on the array the encoder writes, it checks exactly the members, auxiliaries, roots and balance that
  were encoded, whatever the verdict, panics included.\<close>

theorem committee_wire_roundtrip:
  assumes "wf_cw w"
  shows "verify_committee Z (committee_encode w) d =
     ensure (commitment Z (cw_acc_root w) (cw_total_active_balance w) = cw_accumulator_commitment w)
       CommitteeCommitmentMismatch
    (bind_res (fold_res (member_step Z) committee_scan_init (cw_members w)) (\<lambda>st.
     bind_res (map_err CommitteeTreePanic
        (batch_root_columns (compress Z) (cs_indices st) (cs_leaves st) (cw_auxiliaries w) d)) (\<lambda>r.
     ensure (r = cw_acc_root w) CommitteeAccRootMismatch
    (bind_res (committee_tree_root Z (slot_aggregates st)) (\<lambda>committee_root.
     Inr \<lparr>co_accumulator_commitment = cw_accumulator_commitment w,
          co_target_epoch = cw_target_epoch w, co_committee_root = committee_root\<rparr>)))))"
  by (rule verify_committee_encode [OF assms])

theorem committee_wire_roundtrip_witness:
  "verify_committee native_zisk (committee_encode (sample_committee_witness\<lparr>cw_target_epoch := 9\<rparr>)) 1 =
     ensure (commitment native_zisk sample_root 64 = sample_commitment) CommitteeCommitmentMismatch
    (bind_res (fold_res (member_step native_zisk) committee_scan_init [sample_member_A, sample_member_B]) (\<lambda>st.
     bind_res (map_err CommitteeTreePanic
        (batch_root_columns (compress native_zisk) (cs_indices st) (cs_leaves st) [] 1)) (\<lambda>r.
     ensure (r = sample_root) CommitteeAccRootMismatch
    (bind_res (committee_tree_root native_zisk (slot_aggregates st)) (\<lambda>committee_root.
     Inr \<lparr>co_accumulator_commitment = sample_commitment,
          co_target_epoch = 9, co_committee_root = committee_root\<rparr>)))))"
proof -
  have "wf_cw (sample_committee_witness\<lparr>cw_target_epoch := 9\<rparr>)"
    using sample_committee_wf by (simp add: wf_cw_def)
  from committee_wire_roundtrip [OF this, of native_zisk 1] show ?thesis
    by (simp add: sample_committee_witness_def)
qed

end
