(* ===== verification/Supermajority.thy ===== *)
theory Supermajority
  imports SlotProof Justification Registry
begin

text \<open>
  How the committee, slot and justification guests compose. A committee proof partitions the
  accumulator's validators into slots (\<open>bucket\<close>); a slot proof opens slot aggregates of that
  partition; a justification folds slot proofs whose masks are disjoint. \<open>justification_chain\<close> is
  the reachability relation of the fold: a justification is reachable when it opens a chain or
  extends a reachable one. Its invariant bounds the attesting balance by the balances of the counted
  slots' members, hence by the balance of the registry: no stake is counted twice.

  The recursive verifier is a parameter, so that a child proof stands for an accepted run of its
  program is a hypothesis on the outputs (\<open>proved\<close>); the collision freeness of the hash is assumed
  of the inputs the runs hash.
\<close>

section \<open>What the committee proof commits to\<close>

definition bucket_balance :: "committee_member list \<Rightarrow> nat \<Rightarrow> nat" where
  "bucket_balance ms s = sum_list (map (\<lambda>m. unat (cm_balance m)) (bucket ms s))"

definition bucket_aggregate :: "zisk \<Rightarrow> committee_member list \<Rightarrow> nat \<Rightarrow> committee_aggregate option" where
  "bucket_aggregate Z ms s =
     (if bucket ms s = [] then None
      else map_option (\<lambda>p. \<lparr>ca_pubkey = p, ca_balance = sum_list (map cm_balance (bucket ms s))\<rparr>)
        (aggregate_points Z (map cm_pubkey (bucket ms s))))"

definition bucket_leaf :: "zisk \<Rightarrow> committee_member list \<Rightarrow> nat \<Rightarrow> digest" where
  "bucket_leaf Z ms s =
     (case bucket_aggregate Z ms s of None \<Rightarrow> ZERO | Some agg \<Rightarrow> committee_leaf Z agg)"

lemma slot_aggregates_eq:
  assumes "scan_invariant Z ms st"
  shows "slot_aggregates st = map (bucket_aggregate Z ms) [0..<32]"
proof (rule nth_equalityI)
  show "length (slot_aggregates st) = length (map (bucket_aggregate Z ms) [0..<32])"
    using slot_aggregates_nth(1) [OF assms, of 0] by simp
  fix s assume "s < length (slot_aggregates st)"
  then have s: "s < 32" using slot_aggregates_nth(1) [OF assms, of 0] by simp
  show "slot_aggregates st ! s = map (bucket_aggregate Z ms) [0..<32] ! s"
    using slot_aggregate_of_bucket(1) [OF assms s] s by (simp add: bucket_aggregate_def)
qed

lemma unat_sum_list_le: "unat (sum_list (map h xs) :: u64) \<le> sum_list (map (\<lambda>x. unat (h x)) xs)"
proof (induction xs)
  case (Cons x xs)
  have "unat (h x + sum_list (map h xs)) \<le> unat (h x) + unat (sum_list (map h xs))"
    by (simp add: unat_word_ariths)
  then show ?case using Cons by simp
qed simp

lemma bucket_aggregate_balance:
  "bucket_aggregate Z ms s = Some agg \<Longrightarrow> unat (ca_balance agg) \<le> bucket_balance ms s"
  using unat_sum_list_le by (auto simp: bucket_aggregate_def bucket_balance_def split: if_splits)

text \<open>An accepted committee witness, with its members.\<close>

lemma verify_committee_members:
  assumes "verify_committee Z words d = Inr out"
  defines "ms \<equiv> map read_member (member_block words)"
  shows "strictly_increasing (map cm_index ms)"
    and "\<forall>m\<in>set ms. unat (cm_slot_in_epoch m) < 32"
    and "batch_root (compress Z) (map (\<lambda>m. (leaf Z (cm_pubkey m) (cm_balance m), cm_index m)) ms)
      (auxiliary_block words) d = Inr (take 4 (drop 4 words))"
    and "co_committee_root out = tree_root (compress Z) (bucket_leaf Z ms) 5"
    and "s < 32 \<Longrightarrow> bucket ms s \<noteq> [] \<Longrightarrow> bucket_aggregate Z ms s \<noteq> None"
    and "commitment Z (take 4 (drop 4 words)) (words ! 9) = co_accumulator_commitment out"
proof -
  from assms(1) obtain st where inv: "scan_invariant Z ms st"
    and com: "commitment Z (take 4 (drop 4 words)) (words ! 9) = take 4 words"
    and root: "batch_root_columns (compress Z) (cs_indices st) (cs_leaves st) (auxiliary_block words) d =
       Inr (take 4 (drop 4 words))"
    and tree: "committee_tree_root Z (slot_aggregates st) = Inr (co_committee_root out)"
    and acc: "co_accumulator_commitment out = take 4 words"
    unfolding ms_def by (rule verify_committee_Inr)
  show inc: "strictly_increasing (map cm_index ms)"
    and slots: "\<forall>m\<in>set ms. unat (cm_slot_in_epoch m) < 32"
    using inv by (simp_all add: scan_invariant_def)
  have cols: "cs_indices st = map cm_index ms"
    "cs_leaves st = map (\<lambda>m. leaf Z (cm_pubkey m) (cm_balance m)) ms"
    using inv by (simp_all add: scan_invariant_def)
  have "zip (cs_leaves st) (cs_indices st) =
      map (\<lambda>m. (leaf Z (cm_pubkey m) (cm_balance m), cm_index m)) ms"
    by (simp add: cols zip_map_map zip_same_conv_map)
  then show "batch_root (compress Z) (map (\<lambda>m. (leaf Z (cm_pubkey m) (cm_balance m), cm_index m)) ms)
      (auxiliary_block words) d = Inr (take 4 (drop 4 words))"
    using root batch_root_columns_eq [of "cs_indices st" "cs_leaves st"] inc by (simp add: cols)
  have "co_committee_root out = tree_root (compress Z) (slot_leaf Z (slot_aggregates st)) 5"
    using tree by (simp add: committee_tree_root_eq)
  also have "\<dots> = tree_root (compress Z) (bucket_leaf Z ms) 5"
    by (rule tree_root_cong) (simp add: slot_leaf_def slot_aggregates_eq [OF inv] bucket_leaf_def)
  finally show "co_committee_root out = tree_root (compress Z) (bucket_leaf Z ms) 5" .
  show "s < 32 \<Longrightarrow> bucket ms s \<noteq> [] \<Longrightarrow> bucket_aggregate Z ms s \<noteq> None"
    using slot_aggregate_of_bucket(2) [OF inv, of s] by (simp add: bucket_aggregate_def)
  show "commitment Z (take 4 (drop 4 words)) (words ! 9) = co_accumulator_commitment out"
    using com acc by simp
qed

definition member_leaves :: "zisk \<Rightarrow> committee_member list \<Rightarrow> (digest \<times> u64) list" where
  "member_leaves Z ms = map (\<lambda>m. (leaf Z (cm_pubkey m) (cm_balance m), cm_index m)) ms"

text \<open>The members are entries of the registry behind the accumulator, each at its own position.\<close>

lemma committee_members_opened:
  assumes "verify_committee Z words d = Inr out" "take 4 (drop 4 words) = registry_root Z R d"
  defines "ms \<equiv> map read_member (member_block words)"
  assumes "collision_free (compress Z) (opening_pairs Z R d (member_leaves Z ms) (auxiliary_block words))"
    and "leaf_binding Z (registry_entries R d \<union> (\<lambda>m. (cm_pubkey m, cm_balance m)) ` set ms)"
  shows "m \<in> set ms \<Longrightarrow> R (unat (cm_index m) mod 2 ^ d) = Some (cm_pubkey m, cm_balance m)"
    and "distinct (map (\<lambda>m. unat (cm_index m) mod 2 ^ d) ms)"
    and "sum (bucket_balance ms) {..<64} \<le> registry_total R d"
proof -
  note com = verify_committee_members [OF assms(1), folded ms_def]
  have root: "batch_root (compress Z) (member_leaves Z ms) (auxiliary_block words) d =
      Inr (registry_root Z R d)"
    using com(3) assms(2) by (simp add: member_leaves_def)
  show entry: "R (unat (cm_index m) mod 2 ^ d) = Some (cm_pubkey m, cm_balance m)"
    if m: "m \<in> set ms" for m
    by (rule registry_opening [OF root assms(4,5)]) (use m in \<open>auto simp: member_leaves_def\<close>)
  show dist: "distinct (map (\<lambda>m. unat (cm_index m) mod 2 ^ d) ms)"
    using batch_root_distinct_positions [OF root] by (simp add: member_leaves_def comp_def)
  have "sum (bucket_balance ms) {..<64} = sum_list (map (\<lambda>m. unat (cm_balance m)) ms)"
    unfolding bucket_balance_def by (rule sum_buckets) (use com(2) in fastforce)
  also have "\<dots> \<le> registry_total R d"
    by (rule distinct_positions_balance [OF dist]) (use entry in auto)
  finally show "sum (bucket_balance ms) {..<64} \<le> registry_total R d" .
qed

section \<open>What a slot proof counts\<close>

definition slot_leaves :: "zisk \<Rightarrow> slot_complement_witness list \<Rightarrow> (digest \<times> u64) list" where
  "slot_leaves Z slots = map (\<lambda>sl. (committee_leaf Z (committee sl), slot_in_epoch sl)) slots"

definition partition_pairs ::
  "zisk \<Rightarrow> committee_member list \<Rightarrow> slot_proof_witness \<Rightarrow> (digest \<times> digest) set" where
  "partition_pairs Z ms w =
     batch_pairs (compress Z) 5 (map snd (slot_leaves Z (sw_slots w))) (map fst (slot_leaves Z (sw_slots w)))
       (sw_committee_multi_proof w) \<union> tree_pairs (compress Z) (bucket_leaf Z ms) 5"

definition partition_entries ::
  "zisk \<Rightarrow> committee_member list \<Rightarrow> slot_proof_witness \<Rightarrow> entry set" where
  "partition_entries Z ms w =
     (\<lambda>sl. (ca_pubkey (committee sl), ca_balance (committee sl))) ` set (sw_slots w) \<union>
     {(ca_pubkey agg, ca_balance agg) | agg. \<exists>s<32. bucket_aggregate Z ms s = Some agg}"

lemma bucket_leaf_entry:
  assumes "leaf_binding Z S" "(ca_pubkey com, ca_balance com) \<in> S"
    and "\<And>agg. bucket_aggregate Z ms s = Some agg \<Longrightarrow> (ca_pubkey agg, ca_balance agg) \<in> S"
    and "committee_leaf Z com = bucket_leaf Z ms s"
  shows "bucket_aggregate Z ms s = Some com"
proof -
  let ?e = "map_option (\<lambda>agg. (ca_pubkey agg, ca_balance agg)) (bucket_aggregate Z ms s)"
  have "entry_leaf Z ?e = leaf Z (ca_pubkey com) (ca_balance com)"
    using assms(4) by (auto simp: bucket_leaf_def committee_leaf_def split: option.splits)
  moreover have "set_option ?e \<subseteq> S" using assms(3) by auto
  ultimately have "?e = Some (ca_pubkey com, ca_balance com)"
    using leaf_bindingD [OF assms(1,2)] by blast
  then show ?thesis by auto
qed

lemma verify_slot_proof_attests:
  assumes "verify_slot_proof_with_depth Z w d = Inr out"
  obtains at where "attest Z w d = Inr at" "final_exp_is_one Z (att_miller at)"
    "sp_accumulator_commitment out = sw_accumulator_commitment w"
    "sp_committee_root out = sw_committee_root w"
    "sp_attesting_balance out = att_balance at" "sp_slots_mask out = att_mask at"
  using assms by (auto simp: verify_slot_proof_with_depth_def)

lemma attest_Inr:
  "attest Z w d = Inr at \<longleftrightarrow>
     commitment Z (sw_acc_root w) (sw_total_active_balance w) = sw_accumulator_commitment w \<and>
     verify_attestations Z (sw_slots w) (sw_acc_root w) (sw_acc_multi_proof w) (sw_committee_root w)
       (sw_committee_multi_proof w) (link_of w) d = Inr at"
  by (auto simp: attest_def)

text \<open>Each slot's aggregate is the partition's, so its support is within the slot's members' balance.\<close>

lemma slot_proof_partition:
  assumes "attest Z w d = Inr at" "sw_committee_root w = tree_root (compress Z) (bucket_leaf Z ms) 5"
    and "collision_free (compress Z) (partition_pairs Z ms w)"
    and "leaf_binding Z (partition_entries Z ms w)"
  shows "sl \<in> set (sw_slots w) \<Longrightarrow> bucket_aggregate Z ms (unat (slot_in_epoch sl)) = Some (committee sl)"
    and "slot_set (att_mask at) = (\<lambda>sl. unat (slot_in_epoch sl)) ` set (sw_slots w)"
    and "unat (att_balance at) \<le> sum (bucket_balance ms) (slot_set (att_mask at))"
proof -
  from assms(1) have "verify_attestations Z (sw_slots w) (sw_acc_root w) (sw_acc_multi_proof w)
      (sw_committee_root w) (sw_committee_multi_proof w) (link_of w) d = Inr at"
    by (simp add: attest_Inr)
  then obtain st where sum: "slots_summary Z (link_of w) (sw_slots w) st"
    and bal: "att_balance at = ss_balance st" and mask: "att_mask at = ss_mask st"
    and com: "batch_root (compress Z) (ss_committee_leaves st) (sw_committee_multi_proof w) 5 =
      Inr (sw_committee_root w)"
    by (rule verify_attestations_Inr)
  note facts = slots_summaryD [OF sum]
  have leaves: "ss_committee_leaves st = slot_leaves Z (sw_slots w)"
    using facts(4) by (simp add: slot_leaves_def)
  show agg: "bucket_aggregate Z ms (unat (slot_in_epoch sl)) = Some (committee sl)"
    if sl: "sl \<in> set (sw_slots w)" for sl
  proof (rule bucket_leaf_entry [OF assms(4)])
    have lt: "unat (slot_in_epoch sl) < 32" using facts(6) sl by blast
    have "(committee_leaf Z (committee sl), slot_in_epoch sl) \<in> set (slot_leaves Z (sw_slots w))"
      using sl by (simp add: slot_leaves_def)
    then have "committee_leaf Z (committee sl) = bucket_leaf Z ms (unat (slot_in_epoch sl) mod 2 ^ 5)"
      using com assms(2,3) unfolding leaves partition_pairs_def by (intro batch_root_binding) simp_all
    then show "committee_leaf Z (committee sl) = bucket_leaf Z ms (unat (slot_in_epoch sl))"
      using lt by simp
    show "(ca_pubkey (committee sl), ca_balance (committee sl)) \<in> partition_entries Z ms w"
      using sl by (auto simp: partition_entries_def)
    show "\<And>agg. bucket_aggregate Z ms (unat (slot_in_epoch sl)) = Some agg \<Longrightarrow>
        (ca_pubkey agg, ca_balance agg) \<in> partition_entries Z ms w"
      using lt by (auto simp: partition_entries_def)
  qed
  show set: "slot_set (att_mask at) = (\<lambda>sl. unat (slot_in_epoch sl)) ` set (sw_slots w)"
    using facts(2) by (auto simp: slot_set_def mask)
  have dist: "distinct (map (\<lambda>sl. unat (slot_in_epoch sl)) (sw_slots w))"
    using strictly_increasing_distinct [OF facts(5)]
    by (simp add: distinct_map inj_on_def word_unat_eq_iff)
  have "unat (att_balance at) \<le> sum_list (map slot_support (sw_slots w))"
    by (simp add: bal facts(1) unat_of_nat)
  also have "\<dots> \<le> sum_list (map (\<lambda>sl. bucket_balance ms (unat (slot_in_epoch sl))) (sw_slots w))"
  proof (rule sum_list_mono)
    fix sl assume "sl \<in> set (sw_slots w)"
    then show "slot_support sl \<le> bucket_balance ms (unat (slot_in_epoch sl))"
      using bucket_aggregate_balance [OF agg] by (fastforce simp: slot_support_def)
  qed
  also have "\<dots> = sum (bucket_balance ms) (slot_set (att_mask at))"
    unfolding set by (simp add: sum_list_distinct_conv_sum_set [OF dist, of "bucket_balance ms", simplified, symmetric] comp_def)
  finally show "unat (att_balance at) \<le> sum (bucket_balance ms) (slot_set (att_mask at))" .
qed

section \<open>The chain of justifications\<close>

text \<open>
  The justifications that can be reached by folding: \<open>runs\<close> are the witnesses the guest ran on,
  \<open>proved\<close> the slot outputs that have a proof.
\<close>

inductive justification_chain ::
  "zisk \<Rightarrow> justification_witness set \<Rightarrow> (slot_proof_output \<Rightarrow> bool) \<Rightarrow> justification_output \<Rightarrow> bool"
  for Z runs proved where
  chain_opens: "w \<in> runs \<Longrightarrow> jw_previous w = None \<Longrightarrow> verify_justification Z w = Inr out \<Longrightarrow>
    \<forall>s\<in>set (slot_proof_outputs w). proved s \<Longrightarrow> justification_chain Z runs proved out"
| chain_extends: "justification_chain Z runs proved prev \<Longrightarrow>
    w \<in> runs \<Longrightarrow> jw_previous w = Some prev \<Longrightarrow> verify_justification Z w = Inr out \<Longrightarrow>
    \<forall>s\<in>set (slot_proof_outputs w). proved s \<Longrightarrow> justification_chain Z runs proved out"

declare justification_chain.intros [intro]

text \<open>What every link keeps of the one before it, and what it adds.\<close>

lemma justification_link:
  assumes "verify_justification Z w = Inr out"
  shows "jo_accumulator_commitment out = jw_accumulator_commitment w"
    and "jw_previous w = Some prev \<Longrightarrow>
      jo_accumulator_commitment prev = jo_accumulator_commitment out \<and>
      jo_committee_root prev = jo_committee_root out \<and>
      jo_target_epoch prev = jo_target_epoch out \<and> jo_target_root prev = jo_target_root out \<and>
      jo_source_epoch prev = jo_source_epoch out \<and> jo_source_root prev = jo_source_root out"
    and "s \<in> set (slot_proof_outputs w) \<Longrightarrow>
      sp_accumulator_commitment s = jo_accumulator_commitment out \<and>
      sp_committee_root s = jo_committee_root out \<and>
      sp_target_epoch s = jo_target_epoch out \<and> sp_target_root s = jo_target_root out \<and>
      sp_source_epoch s = jo_source_epoch out \<and> sp_source_root s = jo_source_root out"
    and "justified out \<longleftrightarrow> 2 * unat (jw_total_active_balance w) \<le> 3 * unat (jo_attesting_balance out)"
    and "commitment Z (jw_acc_root w) (jw_total_active_balance w) = jo_accumulator_commitment out"
proof -
  from assms obtain start P where
    start: "case jw_previous w of Some prev \<Rightarrow> previous_link Z w prev = Inr start | None \<Rightarrow> start = (0, 0)"
    and com: "just_committee_root Z w = Inr (jo_committee_root out)"
    and P: "P = \<lparr>fp_accumulator_commitment = jw_accumulator_commitment w,
        fp_committee_root = jo_committee_root out,
        fp_source_epoch = jw_source_epoch w, fp_source_root = jw_source_root w,
        fp_target_epoch = jw_target_epoch w, fp_target_root = jw_target_root w\<rparr>"
    and fold: "fold_res (slot_child_step Z P) start (zip (slot_proof_outputs w) (slot_proofs w)) =
       Inr (jo_attesting_balance out, jo_slots_mask out)"
    and len: "length (slot_proof_outputs w) = length (slot_proofs w)"
    and cm: "commitment Z (jw_acc_root w) (jw_total_active_balance w) = jw_accumulator_commitment w"
    and outs: "jo_accumulator_commitment out = jw_accumulator_commitment w"
      "jo_source_epoch out = jw_source_epoch w" "jo_source_root out = jw_source_root w"
      "jo_target_epoch out = jw_target_epoch w" "jo_target_root out = jw_target_root w"
      "justified out = two_thirds (jo_attesting_balance out) (jw_total_active_balance w)"
    by (rule verify_justification_Inr) blast
  show "jo_accumulator_commitment out = jw_accumulator_commitment w" by (rule outs)
  show "commitment Z (jw_acc_root w) (jw_total_active_balance w) = jo_accumulator_commitment out"
    by (simp add: cm outs)
  show "justified out \<longleftrightarrow> 2 * unat (jw_total_active_balance w) \<le> 3 * unat (jo_attesting_balance out)"
    by (simp add: outs two_thirds_nat)
  show "jw_previous w = Some prev \<Longrightarrow>
      jo_accumulator_commitment prev = jo_accumulator_commitment out \<and>
      jo_committee_root prev = jo_committee_root out \<and>
      jo_target_epoch prev = jo_target_epoch out \<and> jo_target_root prev = jo_target_root out \<and>
      jo_source_epoch prev = jo_source_epoch out \<and> jo_source_root prev = jo_source_root out"
    using start com by (cases start) (simp add: previous_link_Inr just_committee_root_def outs)
  assume "s \<in> set (slot_proof_outputs w)"
  then obtain p where "(s, p) \<in> set (zip (slot_proof_outputs w) (slot_proofs w))"
    using len by (metis in_set_impl_in_set_zip1)
  from slot_child_steps_verified [OF fold this]
  show "sp_accumulator_commitment s = jo_accumulator_commitment out \<and>
      sp_committee_root s = jo_committee_root out \<and>
      sp_target_epoch s = jo_target_epoch out \<and> sp_target_root s = jo_target_root out \<and>
      sp_source_epoch s = jo_source_epoch out \<and> sp_source_root s = jo_source_root out"
    by (simp add: verify_slot_child_Inr P outs)
qed

text \<open>Where every child's balance is within the weights of its slots, so is the link's.\<close>

lemma justification_link_bounded:
  assumes "verify_justification Z w = Inr out"
    and "case jw_previous w of None \<Rightarrow> True
      | Some prev \<Rightarrow> unat (jo_attesting_balance prev) \<le> sum W (slot_set (jo_slots_mask prev))"
    and "\<forall>s\<in>set (slot_proof_outputs w).
      unat (sp_attesting_balance s) \<le> sum W (slot_set (sp_slots_mask s))"
    and "sum W {..<64} < 2 ^ 64"
  shows "unat (jo_attesting_balance out) \<le> sum W (slot_set (jo_slots_mask out))"
proof -
  from assms(1) obtain start P where
    start: "case jw_previous w of Some prev \<Rightarrow> previous_link Z w prev = Inr start | None \<Rightarrow> start = (0, 0)"
    and fold: "fold_res (slot_child_step Z P) start (zip (slot_proof_outputs w) (slot_proofs w)) =
       Inr (jo_attesting_balance out, jo_slots_mask out)"
    by (rule verify_justification_Inr) blast
  have "unat (fst start) \<le> sum W (slot_set (snd start))"
    using start assms(2) by (cases start) (auto simp: previous_link_Inr split: option.splits)
  moreover have "\<forall>c\<in>set (zip (slot_proof_outputs w) (slot_proofs w)).
      unat (sp_attesting_balance (fst c)) \<le> sum W (slot_set (sp_slots_mask (fst c)))"
    using assms(3) by (auto dest: set_zip_leftD)
  ultimately show ?thesis using slot_fold.fold_bounded [OF fold _ _ assms(4)] by simp
qed

lemma justification_chain_bounded:
  assumes "justification_chain Z runs proved out"
    and "\<And>s. proved s \<Longrightarrow> sp_accumulator_commitment s = acc_com \<Longrightarrow> sp_committee_root s = com_root \<Longrightarrow>
      unat (sp_attesting_balance s) \<le> sum W (slot_set (sp_slots_mask s))"
    and "sum W {..<64} < 2 ^ 64"
  shows "jo_accumulator_commitment out = acc_com \<Longrightarrow> jo_committee_root out = com_root \<Longrightarrow>
    unat (jo_attesting_balance out) \<le> sum W (slot_set (jo_slots_mask out))"
  using assms(1)
proof induction
  case (chain_opens w out)
  show ?case
    by (rule justification_link_bounded [OF chain_opens(3) _ _ assms(3)])
      (use chain_opens assms(2) justification_link(3) [OF chain_opens(3)] in auto)
next
  case (chain_extends prev w out)
  have "unat (jo_attesting_balance prev) \<le> sum W (slot_set (jo_slots_mask prev))"
    using chain_extends.IH chain_extends.prems
      justification_link(2) [OF chain_extends.hyps(4,3)] by simp
  then show ?case
    by (intro justification_link_bounded [OF chain_extends.hyps(4) _ _ assms(3)])
      (use chain_extends assms(2) justification_link(3) [OF chain_extends.hyps(4)] in auto)
qed

lemma justification_chain_run:
  "justification_chain Z runs proved out \<Longrightarrow> \<exists>w\<in>runs. verify_justification Z w = Inr out"
  by (induction rule: justification_chain.induct) blast+

end
