(* ===== verification/Accountability.thy ===== *)
theory Accountability
  imports Supermajority "HOL-Library.Multiset"
begin

text \<open>
  Who stands behind a justification. The voters of a slot are its members in the committee proof's
  partition less the absentees its slot proof opened, as positions of the registry. Every balance
  that the slot guest publishes and the justification guest adds up is covered by the stake of such
  voters (\<open>supported\<close>), so two justified outputs over one partition share voters with a third of the
  registry's stake.
\<close>

section \<open>The validators a slot proof names\<close>

definition slot_names :: "slot_proof_witness \<Rightarrow> opened_validator list" where
  "slot_names w = concat (map named (sw_slots w))"

definition names_fine :: "zisk \<Rightarrow> registry \<Rightarrow> nat \<Rightarrow> slot_proof_witness \<Rightarrow> bool" where
  "names_fine Z R d w \<longleftrightarrow>
     collision_free (compress Z) (opening_pairs Z R d
       (sort_key snd (map (opened_leaf Z) (slot_names w))) (sw_acc_multi_proof w)) \<and>
     leaf_binding Z (registry_entries R d \<union> (\<lambda>v. (ov_pubkey v, ov_balance v)) ` set (slot_names w))"

lemma attest_names:
  assumes "attest Z w d = Inr at" "sw_acc_root w = registry_root Z R d" "names_fine Z R d w"
  shows "v \<in> set (slot_names w) \<Longrightarrow> R (unat (ov_index v) mod 2 ^ d) = Some (ov_pubkey v, ov_balance v)"
    and "distinct (map (\<lambda>v. unat (ov_index v) mod 2 ^ d) (slot_names w))"
    and "sum_list (map (\<lambda>v. unat (ov_balance v)) (slot_names w)) \<le> registry_total R d"
proof -
  let ?vs = "slot_names w" and ?leaves = "sort_key snd (map (opened_leaf Z) (slot_names w))"
  have "verify_attestations Z (sw_slots w) (sw_acc_root w) (sw_acc_multi_proof w)
      (sw_committee_root w) (sw_committee_multi_proof w) (link_of w) d = Inr at"
    using assms(1) by (simp add: attest_Inr)
  then obtain st where sum: "slots_summary Z (link_of w) (sw_slots w) st"
    and acc: "ss_opened st \<noteq> [] \<Longrightarrow>
      batch_root (compress Z) (sort_key snd (ss_opened st)) (sw_acc_multi_proof w) d = Inr (sw_acc_root w)"
    by (rule verify_attestations_Inr) blast
  have opened: "ss_opened st = map (opened_leaf Z) ?vs"
    using slots_summaryD(3) [OF sum] by (simp add: slot_names_def)
  have root: "batch_root (compress Z) ?leaves (sw_acc_multi_proof w) d = Inr (registry_root Z R d)"
    if "?vs \<noteq> []" using acc that assms(2) opened by simp
  show entry: "R (unat (ov_index v) mod 2 ^ d) = Some (ov_pubkey v, ov_balance v)"
    if v: "v \<in> set ?vs" for v
  proof (rule registry_opening [OF root])
    show "?vs \<noteq> []" using v by auto
    show "(ov_pubkey v, ov_balance v) \<in>
        registry_entries R d \<union> (\<lambda>v. (ov_pubkey v, ov_balance v)) ` set (slot_names w)"
      using v by auto
    show "(leaf Z (ov_pubkey v) (ov_balance v), ov_index v) \<in> set ?leaves"
      using v by (auto simp: opened_leaf_def)
  qed (use assms(3) in \<open>simp_all add: names_fine_def\<close>)
  have "mset (map (\<lambda>(v, k). unat k mod 2 ^ d) ?leaves) =
      mset (map (\<lambda>(v, k). unat k mod 2 ^ d) (map (opened_leaf Z) ?vs))"
    by (simp only: mset_map mset_sort)
  then have "distinct (map (\<lambda>(v, k). unat k mod 2 ^ d) (map (opened_leaf Z) ?vs))" if "?vs \<noteq> []"
    using batch_root_distinct_positions [OF root [OF that]] mset_eq_imp_distinct_iff by blast
  then have "distinct (map (\<lambda>(v, k). unat k mod 2 ^ d) (map (opened_leaf Z) ?vs))"
    by (cases "?vs = []") simp_all
  then show dist: "distinct (map (\<lambda>v. unat (ov_index v) mod 2 ^ d) ?vs)"
    by (simp add: opened_leaf_def comp_def)
  show "sum_list (map (\<lambda>v. unat (ov_balance v)) ?vs) \<le> registry_total R d"
    by (rule distinct_positions_balance [OF dist]) (use entry in auto)
qed

section \<open>The voters of a slot\<close>

text \<open>Positions in the registry, and the stake of a set of them.\<close>

definition slot_positions :: "nat \<Rightarrow> committee_member list \<Rightarrow> nat \<Rightarrow> nat set" where
  "slot_positions d ms t = (\<lambda>m. unat (cm_index m) mod 2 ^ d) ` set (bucket ms t)"

definition absent_positions :: "nat \<Rightarrow> slot_complement_witness \<Rightarrow> nat set" where
  "absent_positions d sl = (\<lambda>v. unat (ov_index v) mod 2 ^ d) ` set (absentees sl)"

definition slot_voters :: "nat \<Rightarrow> committee_member list \<Rightarrow> slot_complement_witness \<Rightarrow> nat set" where
  "slot_voters d ms sl = slot_positions d ms (unat (slot_in_epoch sl)) - absent_positions d sl"

definition stake :: "registry \<Rightarrow> nat set \<Rightarrow> nat" where
  "stake R V = (\<Sum>i\<in>V. entry_balance (R i))"

lemma stake_positions:
  assumes "distinct (map pos xs)" "\<forall>x\<in>set xs. entry_balance (R (pos x)) = h x"
  shows "stake R (pos ` set xs) = sum_list (map h xs)"
proof -
  have "stake R (pos ` set xs) = (\<Sum>x\<in>set xs. entry_balance (R (pos x)))"
    unfolding stake_def using assms(1) by (simp add: distinct_map sum.reindex)
  also have "\<dots> = (\<Sum>x\<in>set xs. h x)" using assms(2) by simp
  finally show ?thesis using assms(1) by (simp add: distinct_map sum_list_distinct_conv_sum_set)
qed

lemma stake_minus: "finite V \<Longrightarrow> stake R V \<le> stake R (V - A) + stake R A'" if "V \<inter> A \<subseteq> A'" "finite A'"
proof -
  assume V: "finite V"
  have "stake R V = stake R (V - A) + stake R (V \<inter> A)"
    unfolding stake_def using V by (simp add: sum.Int_Diff [of V _ A] add.commute)
  also have "stake R (V \<inter> A) \<le> stake R A'"
    unfolding stake_def by (rule sum_mono2) (use that in auto)
  finally show "stake R V \<le> stake R (V - A) + stake R A'" by simp
qed

lemma stake_quorums:
  assumes "V1 \<subseteq> {..<2 ^ d}" "V2 \<subseteq> {..<2 ^ d}"
  shows "stake R V1 + stake R V2 \<le> registry_total R d + stake R (V1 \<inter> V2)"
proof -
  have fin: "finite V1" "finite V2" using assms by (auto intro: finite_subset)
  have "stake R V1 + stake R V2 = stake R (V1 \<union> V2) + stake R (V1 \<inter> V2)"
    unfolding stake_def using fin by (simp add: sum.union_inter)
  also have "stake R (V1 \<union> V2) \<le> registry_total R d"
    unfolding stake_def registry_total_def by (rule sum_mono2) (use assms in auto)
  finally show ?thesis by simp
qed

text \<open>The members of a committee, as entries of the registry.\<close>

definition registered :: "registry \<Rightarrow> nat \<Rightarrow> committee_member list \<Rightarrow> bool" where
  "registered R d ms \<longleftrightarrow>
     (\<forall>m\<in>set ms. R (unat (cm_index m) mod 2 ^ d) = Some (cm_pubkey m, cm_balance m)) \<and>
     distinct (map (\<lambda>m. unat (cm_index m) mod 2 ^ d) ms)"

lemma positions_below: "slot_positions d ms t \<subseteq> {..<2 ^ d}"
  by (auto simp: slot_positions_def)

lemma finite_slot_positions [simp]: "finite (slot_positions d ms t)"
  by (simp add: slot_positions_def)

lemma positions_disjoint:
  "registered R d ms \<Longrightarrow> t \<noteq> t' \<Longrightarrow> slot_positions d ms t \<inter> slot_positions d ms t' = {}"
  by (auto simp: registered_def slot_positions_def bucket_def distinct_map dest: inj_onD)

lemma positions_stake:
  assumes "registered R d ms"
  shows "stake R (slot_positions d ms t) = bucket_balance ms t"
proof -
  have "distinct (map (\<lambda>m. unat (cm_index m) mod 2 ^ d) (bucket ms t))"
    using assms by (simp add: registered_def bucket_def distinct_map_filter)
  then show ?thesis
    unfolding slot_positions_def bucket_balance_def
    by (rule stake_positions) (use assms in \<open>auto simp: registered_def bucket_def\<close>)
qed

text \<open>The balance counted for a slot is the stake of its voters at most.\<close>

lemma support_voters:
  assumes "registered R d ms" "bucket_aggregate Z ms (unat (slot_in_epoch sl)) = Some (committee sl)"
    and "\<forall>v\<in>set (absentees sl). R (unat (ov_index v) mod 2 ^ d) = Some (ov_pubkey v, ov_balance v)"
    and "distinct (map (\<lambda>v. unat (ov_index v) mod 2 ^ d) (absentees sl))"
  shows "slot_support sl \<le> stake R (slot_voters d ms sl)"
proof -
  let ?P = "slot_positions d ms (unat (slot_in_epoch sl))"
  have "stake R (absent_positions d sl) = absent_balance sl"
    unfolding absent_positions_def absent_balance_def
    by (rule stake_positions [OF assms(4)]) (use assms(3) in auto)
  then have "stake R ?P \<le> stake R (slot_voters d ms sl) + absent_balance sl"
    using stake_minus [of ?P "absent_positions d sl" "absent_positions d sl" R]
    by (simp add: slot_voters_def slot_positions_def absent_positions_def)
  then show ?thesis
    using bucket_aggregate_balance [OF assms(2)] positions_stake [OF assms(1)]
    by (simp add: slot_support_def)
qed

lemma voters_below:
  "registered R d ms \<Longrightarrow> stake R (slot_voters d ms sl) \<le> bucket_balance ms (unat (slot_in_epoch sl))"
  unfolding positions_stake [symmetric] stake_def slot_voters_def
  by (rule sum_mono2) (auto simp: slot_positions_def)

section \<open>What a slot run supports\<close>

text \<open>
  \<open>V\<close> are the voters of slot \<open>t\<close> in one of the slot guest's runs, for the checkpoints of \<open>out\<close>.
\<close>

definition voted ::
  "slot_proof_witness set \<Rightarrow> nat \<Rightarrow> committee_member list \<Rightarrow> justification_output \<Rightarrow> nat \<Rightarrow> nat set \<Rightarrow> bool" where
  "voted slot_runs d ms out t V \<longleftrightarrow> (\<exists>w\<in>slot_runs. \<exists>sl\<in>set (sw_slots w).
     sw_source_epoch w = jo_source_epoch out \<and> sw_source_root w = jo_source_root out \<and>
     sw_target_epoch w = jo_target_epoch out \<and> sw_target_root w = jo_target_root out \<and>
     unat (slot_in_epoch sl) = t \<and> V = slot_voters d ms sl)"

lemma voted_positions: "voted slot_runs d ms out t V \<Longrightarrow> V \<subseteq> slot_positions d ms t"
  by (auto simp: voted_def slot_voters_def)

lemma voted_below:
  "registered R d ms \<Longrightarrow> voted slot_runs d ms out t V \<Longrightarrow> stake R V \<le> bucket_balance ms t"
  using voters_below by (auto simp: voted_def)

definition slot_run :: "zisk \<Rightarrow> slot_proof_witness set \<Rightarrow> nat \<Rightarrow> slot_proof_output \<Rightarrow> bool" where
  "slot_run Z slot_runs d s \<longleftrightarrow> (\<exists>w\<in>slot_runs. verify_slot_proof_with_depth Z w d = Inr s)"

definition run_fine :: "zisk \<Rightarrow> registry \<Rightarrow> nat \<Rightarrow> committee_member list \<Rightarrow> slot_proof_witness \<Rightarrow> bool" where
  "run_fine Z R d ms w \<longleftrightarrow> names_fine Z R d w \<and>
     collision_free (compress Z) (partition_pairs Z ms w) \<and> leaf_binding Z (partition_entries Z ms w)"

lemma slot_run_supported:
  assumes "attest Z w d = Inr at" "w \<in> slot_runs" "registered R d ms" "run_fine Z R d ms w"
    and "sw_acc_root w = registry_root Z R d"
    and "sw_committee_root w = tree_root (compress Z) (bucket_leaf Z ms) 5"
    and "sw_source_epoch w = jo_source_epoch out" "sw_source_root w = jo_source_root out"
    and "sw_target_epoch w = jo_target_epoch out" "sw_target_root w = jo_target_root out"
  shows "supported (voted slot_runs d ms out) (stake R) (unat (att_balance at)) (slot_set (att_mask at))"
proof -
  let ?slot = "\<lambda>sl. unat (slot_in_epoch sl)" and ?slots = "sw_slots w"
  have "collision_free (compress Z) (partition_pairs Z ms w)" "leaf_binding Z (partition_entries Z ms w)"
    and names: "names_fine Z R d w"
    using assms(4) by (simp_all add: run_fine_def)
  note part = slot_proof_partition [OF assms(1,6) this(1,2)]
  note opened = attest_names [OF assms(1,5) names]
  have "verify_attestations Z ?slots (sw_acc_root w) (sw_acc_multi_proof w)
      (sw_committee_root w) (sw_committee_multi_proof w) (link_of w) d = Inr at"
    using assms(1) by (simp add: attest_Inr)
  then obtain st where sum: "slots_summary Z (link_of w) ?slots st" and bal: "att_balance at = ss_balance st"
    by (rule verify_attestations_Inr)
  have dist: "distinct (map ?slot ?slots)"
    using strictly_increasing_distinct [OF slots_summaryD(5) [OF sum]]
    by (simp add: distinct_map inj_on_def word_unat_eq_iff)
  have voters: "slot_support sl \<le> stake R (slot_voters d ms sl)" if sl: "sl \<in> set ?slots" for sl
  proof (rule support_voters [OF assms(3) part(1) [OF sl]])
    have sub: "set (absentees sl) \<subseteq> set (slot_names w)"
      using sl by (auto simp: slot_names_def named_def)
    show "\<forall>v\<in>set (absentees sl). R (unat (ov_index v) mod 2 ^ d) = Some (ov_pubkey v, ov_balance v)"
      using opened(1) sub by blast
    have "distinct (map (\<lambda>v. unat (ov_index v) mod 2 ^ d) (named sl))"
      using opened(2) split_list [OF sl] by (auto simp: slot_names_def)
    then show "distinct (map (\<lambda>v. unat (ov_index v) mod 2 ^ d) (absentees sl))"
      by (simp add: named_def)
  qed
  let ?F = "\<lambda>t. slot_voters d ms (inv_into (set ?slots) ?slot t)"
  have inj: "inj_on ?slot (set ?slots)" using dist by (simp add: distinct_map)
  have F: "?F (?slot sl) = slot_voters d ms sl" if "sl \<in> set ?slots" for sl
    using inv_into_f_f [OF inj that] by simp
  have "unat (att_balance at) \<le> sum_list (map slot_support ?slots)"
    by (simp add: bal slots_summaryD(1) [OF sum] unat_of_nat)
  also have "\<dots> \<le> sum_list (map (\<lambda>sl. stake R (slot_voters d ms sl)) ?slots)"
    by (rule sum_list_mono) (rule voters)
  also have "\<dots> = (\<Sum>sl\<in>set ?slots. stake R (?F (?slot sl)))"
    using dist by (simp add: distinct_map sum_list_distinct_conv_sum_set F)
  also have "\<dots> = (\<Sum>t\<in>slot_set (att_mask at). stake R (?F t))"
    unfolding part(2) by (simp add: sum.reindex [OF inj])
  finally have "unat (att_balance at) \<le> (\<Sum>t\<in>slot_set (att_mask at). stake R (?F t))" .
  moreover have "voted slot_runs d ms out t (?F t)" if "t \<in> slot_set (att_mask at)" for t
    using that assms(2,7-) F unfolding part(2) voted_def by blast
  ultimately show ?thesis unfolding supported_def by (intro exI [of _ ?F]) simp
qed

section \<open>Who stands behind a justification\<close>

lemma justification_link_supported:
  assumes "verify_justification Z w = Inr out"
    and "case jw_previous w of None \<Rightarrow> True
      | Some prev \<Rightarrow> supported Q weight (unat (jo_attesting_balance prev)) (slot_set (jo_slots_mask prev))"
    and "\<forall>s\<in>set (slot_proof_outputs w).
      supported Q weight (unat (sp_attesting_balance s)) (slot_set (sp_slots_mask s))"
    and "\<And>t V. Q t V \<Longrightarrow> weight V \<le> W t" "sum W {..<64} < 2 ^ 64"
  shows "supported Q weight (unat (jo_attesting_balance out)) (slot_set (jo_slots_mask out))"
proof -
  from assms(1) obtain start P where
    start: "case jw_previous w of Some prev \<Rightarrow> previous_link Z w prev = Inr start | None \<Rightarrow> start = (0, 0)"
    and fold: "fold_res (slot_child_step Z P) start (zip (slot_proof_outputs w) (slot_proofs w)) =
       Inr (jo_attesting_balance out, jo_slots_mask out)"
    by (rule verify_justification_Inr) blast
  have "supported Q weight (unat (fst start)) (slot_set (snd start))"
    using start assms(2) by (cases start) (auto simp: previous_link_Inr split: option.splits)
  moreover have "\<forall>c\<in>set (zip (slot_proof_outputs w) (slot_proofs w)).
      supported Q weight (unat (sp_attesting_balance (fst c))) (slot_set (sp_slots_mask (fst c)))"
    using assms(3) by (auto dest: set_zip_leftD)
  ultimately show ?thesis using slot_fold.fold_supported [OF fold _ _ assms(4,5)] by simp
qed

lemma justification_chain_supported:
  assumes "justification_chain Z runs proved out"
    and "\<And>s. proved s \<Longrightarrow> sp_accumulator_commitment s = jo_accumulator_commitment out \<Longrightarrow>
      sp_committee_root s = jo_committee_root out \<Longrightarrow>
      sp_source_epoch s = jo_source_epoch out \<Longrightarrow> sp_source_root s = jo_source_root out \<Longrightarrow>
      sp_target_epoch s = jo_target_epoch out \<Longrightarrow> sp_target_root s = jo_target_root out \<Longrightarrow>
      supported Q weight (unat (sp_attesting_balance s)) (slot_set (sp_slots_mask s))"
    and "\<And>t V. Q t V \<Longrightarrow> weight V \<le> W t" "sum W {..<64} < 2 ^ 64"
  shows "supported Q weight (unat (jo_attesting_balance out)) (slot_set (jo_slots_mask out))"
  using assms(1,2)
proof induction
  case (chain_opens w out)
  show ?case
    by (rule justification_link_supported [OF chain_opens(3) _ _ assms(3,4)])
      (use chain_opens justification_link(3) [OF chain_opens(3)] in auto)
next
  case (chain_extends prev w out)
  have "supported Q weight (unat (jo_attesting_balance prev)) (slot_set (jo_slots_mask prev))"
    by (rule chain_extends.IH, rule chain_extends.prems)
      (use justification_link(2) [OF chain_extends.hyps(4,3)] in simp_all)
  then show ?case
    by (intro justification_link_supported [OF chain_extends.hyps(4) _ _ assms(3,4)])
      (use chain_extends justification_link(3) [OF chain_extends.hyps(4)] in auto)
qed

section \<open>The runs behind an epoch\<close>

definition members_of :: "u64 list \<Rightarrow> committee_member list" where
  "members_of words = map read_member (member_block words)"

text \<open>
  What the hash has to be collision free on: the openings of the committee proof on \<open>words\<close>, the
  openings of the slot runs, and the commitments to a root and a total that occur.
\<close>

definition binding_runs ::
  "zisk \<Rightarrow> registry \<Rightarrow> nat \<Rightarrow> u64 list \<Rightarrow> justification_witness set \<Rightarrow> slot_proof_witness set \<Rightarrow> bool" where
  "binding_runs Z R d words runs slot_runs \<longleftrightarrow>
     collision_free (compress Z)
       (opening_pairs Z R d (member_leaves Z (members_of words)) (auxiliary_block words)) \<and>
     leaf_binding Z (registry_entries R d \<union>
       (\<lambda>m. (cm_pubkey m, cm_balance m)) ` set (members_of words)) \<and>
     (\<forall>w\<in>slot_runs. run_fine Z R d (members_of words) w) \<and>
     inj_on (\<lambda>(r, b). commitment Z r b) (insert (registry_root Z R d, words ! 9)
       ((\<lambda>w. (jw_acc_root w, jw_total_active_balance w)) ` runs \<union>
        (\<lambda>w. (sw_acc_root w, sw_total_active_balance w)) ` slot_runs))"

text \<open>A committee proof over the registry, and a chain of justifications against its root.\<close>

definition epoch_of ::
  "zisk \<Rightarrow> registry \<Rightarrow> nat \<Rightarrow> u64 list \<Rightarrow> committee_output \<Rightarrow> justification_witness set \<Rightarrow>
   slot_proof_witness set \<Rightarrow> justification_output \<Rightarrow> bool" where
  "epoch_of Z R d words cout runs slot_runs out \<longleftrightarrow>
     verify_committee Z words d = Inr cout \<and> take 4 (drop 4 words) = registry_root Z R d \<and>
     co_committee_root cout = jo_committee_root out \<and>
     co_accumulator_commitment cout = jo_accumulator_commitment out \<and>
     justification_chain Z runs (slot_run Z slot_runs d) out"

lemma epoch_members:
  assumes "epoch_of Z R d words cout runs slot_runs out" "binding_runs Z R d words runs slot_runs"
  shows "registered R d (members_of words)"
    and "sum (bucket_balance (members_of words)) {..<64} \<le> registry_total R d"
proof -
  have "verify_committee Z words d = Inr cout" "take 4 (drop 4 words) = registry_root Z R d"
    using assms(1) by (simp_all add: epoch_of_def)
  note mem = committee_members_opened [OF this, folded members_of_def]
  show "registered R d (members_of words)"
    and "sum (bucket_balance (members_of words)) {..<64} \<le> registry_total R d"
    using mem assms(2) by (auto simp: registered_def binding_runs_def)
qed

lemma bound_commitments:
  assumes "binding_runs Z R d words runs slot_runs"
  shows "w \<in> runs \<Longrightarrow> commitment Z (jw_acc_root w) (jw_total_active_balance w) =
      commitment Z (registry_root Z R d) (words ! 9) \<Longrightarrow> jw_total_active_balance w = words ! 9"
    and "w' \<in> slot_runs \<Longrightarrow> commitment Z (sw_acc_root w') (sw_total_active_balance w') =
      commitment Z (registry_root Z R d) (words ! 9) \<Longrightarrow> sw_acc_root w' = registry_root Z R d"
proof -
  let ?f = "\<lambda>(r, b). commitment Z r b"
  let ?S = "insert (registry_root Z R d, words ! 9)
       ((\<lambda>w. (jw_acc_root w, jw_total_active_balance w)) ` runs \<union>
        (\<lambda>w. (sw_acc_root w, sw_total_active_balance w)) ` slot_runs)"
  have inj: "inj_on ?f ?S" using assms by (simp add: binding_runs_def)
  have eq: "p = (registry_root Z R d, words ! 9)"
    if "p \<in> ?S" "?f p = ?f (registry_root Z R d, words ! 9)" for p
    by (rule inj_onD [OF inj that(2,1)]) simp
  show "w \<in> runs \<Longrightarrow> commitment Z (jw_acc_root w) (jw_total_active_balance w) =
      commitment Z (registry_root Z R d) (words ! 9) \<Longrightarrow> jw_total_active_balance w = words ! 9"
    using eq [of "(jw_acc_root w, jw_total_active_balance w)"] by simp
  show "w' \<in> slot_runs \<Longrightarrow> commitment Z (sw_acc_root w') (sw_total_active_balance w') =
      commitment Z (registry_root Z R d) (words ! 9) \<Longrightarrow> sw_acc_root w' = registry_root Z R d"
    using eq [of "(sw_acc_root w', sw_total_active_balance w')"] by simp
qed

lemma epoch_total:
  assumes "epoch_of Z R d words cout runs slot_runs out" "binding_runs Z R d words runs slot_runs"
  shows "justified out \<longleftrightarrow> 2 * unat (words ! 9) \<le> 3 * unat (jo_attesting_balance out)"
proof -
  have "justification_chain Z runs (slot_run Z slot_runs d) out"
    using assms(1) by (simp add: epoch_of_def)
  from justification_chain_run [OF this] obtain w where w:
    "w \<in> runs" "verify_justification Z w = Inr out" by blast
  have "commitment Z (registry_root Z R d) (words ! 9) = jo_accumulator_commitment out"
    using assms(1) verify_committee_members(6) [of Z words d cout] by (simp add: epoch_of_def)
  then have "commitment Z (jw_acc_root w) (jw_total_active_balance w) =
      commitment Z (registry_root Z R d) (words ! 9)"
    using justification_link(5) [OF w(2)] by simp
  then have "jw_total_active_balance w = words ! 9"
    by (rule bound_commitments(1) [OF assms(2) w(1)])
  then show ?thesis using justification_link(4) [OF w(2)] by simp
qed

lemma epoch_supported:
  assumes "epoch_of Z R d words cout runs slot_runs out" "binding_runs Z R d words runs slot_runs"
    and "registry_total R d < 2 ^ 64"
  shows "supported (voted slot_runs d (members_of words) out) (stake R)
    (unat (jo_attesting_balance out)) (slot_set (jo_slots_mask out))"
proof (rule justification_chain_supported)
  note mem = epoch_members [OF assms(1,2)]
  show "justification_chain Z runs (slot_run Z slot_runs d) out"
    using assms(1) by (simp add: epoch_of_def)
  show "sum (bucket_balance (members_of words)) {..<64} < 2 ^ 64" using mem(2) assms(3) by simp
  show "\<And>t V. voted slot_runs d (members_of words) out t V \<Longrightarrow> stake R V \<le> bucket_balance (members_of words) t"
    using voted_below [OF mem(1)] .
  fix s assume run: "slot_run Z slot_runs d s"
    and acc: "sp_accumulator_commitment s = jo_accumulator_commitment out"
    and root: "sp_committee_root s = jo_committee_root out"
    and link: "sp_source_epoch s = jo_source_epoch out" "sp_source_root s = jo_source_root out"
      "sp_target_epoch s = jo_target_epoch out" "sp_target_root s = jo_target_root out"
  obtain w where w: "w \<in> slot_runs" "verify_slot_proof_with_depth Z w d = Inr s"
    using run by (auto simp: slot_run_def)
  obtain at where at: "attest Z w d = Inr at" "sp_committee_root s = sw_committee_root w"
    "sp_accumulator_commitment s = sw_accumulator_commitment w"
    "sp_attesting_balance s = att_balance at" "sp_slots_mask s = att_mask at"
    "sp_source_epoch s = sw_source_epoch w" "sp_source_root s = sw_source_root w"
    "sp_target_epoch s = sw_target_epoch w" "sp_target_root s = sw_target_root w"
    using w(2) by (auto simp: verify_slot_proof_with_depth_def)
  have com: "verify_committee Z words d = Inr cout" "take 4 (drop 4 words) = registry_root Z R d"
    "co_committee_root cout = jo_committee_root out"
    "co_accumulator_commitment cout = jo_accumulator_commitment out"
    using assms(1) by (simp_all add: epoch_of_def)
  note cmt = verify_committee_members [OF com(1), folded members_of_def]
  have same: "commitment Z (sw_acc_root w) (sw_total_active_balance w) =
      commitment Z (registry_root Z R d) (words ! 9)"
    using at(1,3) acc com(2,4) cmt(6) by (simp add: attest_Inr)
  have reg: "sw_acc_root w = registry_root Z R d"
    by (rule bound_commitments(2) [OF assms(2) w(1) same])
  have part: "sw_committee_root w = tree_root (compress Z) (bucket_leaf Z (members_of words)) 5"
    using at(2) root com(3) cmt(4) by simp
  have fine: "run_fine Z R d (members_of words) w"
    using assms(2) w(1) by (simp add: binding_runs_def)
  show "supported (voted slot_runs d (members_of words) out) (stake R)
      (unat (sp_attesting_balance s)) (slot_set (sp_slots_mask s))"
    using slot_run_supported [OF at(1) w(1) mem(1) fine reg part, of out] at link by simp
qed

text \<open>The voters behind a justification: their stake covers the balance it publishes.\<close>

lemma epoch_voters:
  assumes "epoch_of Z R d words cout runs slot_runs out" "binding_runs Z R d words runs slot_runs"
    and "registry_total R d < 2 ^ 64"
  obtains V where "V \<subseteq> {..<2 ^ d}" "unat (jo_attesting_balance out) \<le> stake R V"
    "\<forall>i\<in>V. \<exists>t\<in>slot_set (jo_slots_mask out). \<exists>A. voted slot_runs d (members_of words) out t A \<and> i \<in> A"
proof -
  note mem = epoch_members [OF assms(1,2)]
  from epoch_supported [OF assms] obtain F where
    F: "unat (jo_attesting_balance out) \<le> (\<Sum>t\<in>slot_set (jo_slots_mask out). stake R (F t))"
    and v: "\<forall>t\<in>slot_set (jo_slots_mask out). voted slot_runs d (members_of words) out t (F t)"
    by (auto simp: supported_def)
  have sub: "\<forall>t\<in>slot_set (jo_slots_mask out). F t \<subseteq> slot_positions d (members_of words) t"
    using v voted_positions by blast
  have fin: "\<forall>t\<in>slot_set (jo_slots_mask out). finite (F t)"
    using sub finite_subset [OF _ finite_slot_positions] by blast
  have dist: "F t \<inter> F u = {}"
    if "t \<in> slot_set (jo_slots_mask out)" "u \<in> slot_set (jo_slots_mask out)" "t \<noteq> u" for t u
    using sub [rule_format, OF that(1)] sub [rule_format, OF that(2)]
      positions_disjoint [OF mem(1) that(3)] by blast
  let ?V = "\<Union>t\<in>slot_set (jo_slots_mask out). F t"
  have "stake R ?V = (\<Sum>t\<in>slot_set (jo_slots_mask out). stake R (F t))"
    unfolding stake_def by (rule sum.UNION_disjoint) (use fin dist in simp_all)
  moreover have "?V \<subseteq> {..<2 ^ d}" using sub positions_below by fast
  ultimately show thesis using F v by (intro that [of ?V]) auto
qed

end
