(* ===== verification/SampleChain.thy ===== *)
theory SampleChain
  imports SampleEpoch Accountability
begin

text \<open>
  The sample epoch as a whole: the registry of its two validators, and chains of justifications over
  its slot and committee proofs, one for each target root.
\<close>

section \<open>The registry and the committee's openings\<close>

lemma sample_members:
  "map read_member (member_block (committee_encode sample_committee_witness)) =
     [sample_member_A, sample_member_B]"
  using committee_encode_blocks(1) [OF sample_committee_wf] by (simp add: sample_committee_witness_def)

definition sample_registry :: registry where
  "sample_registry i = (if i = 0 then Some (key_A, 48) else if i = 1 then Some (key_B, 16) else None)"

lemma sample_registry_tree:
  "registry_root toy_zisk sample_registry 1 = sample_root"
  "tree_pairs (compress toy_zisk) (registry_leaf toy_zisk sample_registry) 1 = {(leaf_A, leaf_B)}"
  "registry_entries sample_registry 1 = {(key_A, 48), (key_B, 16)}"
  "registry_total sample_registry 1 = 64"
proof -
  have l: "registry_leaf toy_zisk sample_registry 0 = leaf_A"
    "registry_leaf toy_zisk sample_registry (Suc 0) = leaf_B"
    by (simp_all add: registry_leaf_def sample_registry_def toy_hashes)
  show "registry_root toy_zisk sample_registry 1 = sample_root"
    by (simp add: registry_root_def parent_leaves_def l toy_hashes)
  show "tree_pairs (compress toy_zisk) (registry_leaf toy_zisk sample_registry) 1 = {(leaf_A, leaf_B)}"
    by (simp add: l lessThan_Suc)
  show "registry_entries sample_registry 1 = {(key_A, 48), (key_B, 16)}"
    by (auto simp: registry_entries_def sample_registry_def split: if_splits
        intro: exI [of _ 0] exI [of _ 1])
  show "registry_total sample_registry 1 = 64"
    by (simp add: registry_total_def sample_registry_def lessThan_nat_numeral lessThan_Suc pred_numeral_simps)
qed

lemmas sample_registry_facts = sample_registry_tree sample_registry_tree [unfolded One_nat_def]

lemma toy_leaf_values:
  "leaf_A \<noteq> ZERO" "leaf_B \<noteq> ZERO" "leaf_slot \<noteq> ZERO" "leaf_A \<noteq> leaf_B" "leaf_A \<noteq> leaf_slot"
  "leaf_B \<noteq> leaf_slot"
  by (simp_all add: leaf_A_def leaf_B_def leaf_slot_def ZERO_def replicate_four)

lemma toy_keys: "key_A \<noteq> key_B" "key_A \<noteq> key_AB" "key_B \<noteq> key_AB"
  by (simp_all add: key_A_def key_B_def key_AB_def)

lemma sample_leaf_binding: "leaf_binding toy_zisk {(key_A, 48), (key_B, 16), (key_AB, 64)}"
  using toy_leaf_values by (auto simp: leaf_binding_def toy_hashes)

lemma sample_member_opening:
  "collision_free (compress toy_zisk) (opening_pairs toy_zisk sample_registry 1
     (member_leaves toy_zisk [sample_member_A, sample_member_B])
     (auxiliary_block (committee_encode sample_committee_witness)))"
proof -
  have aux: "auxiliary_block (committee_encode sample_committee_witness) = []"
    using committee_encode_blocks(2) [OF sample_committee_wf] by (simp add: sample_committee_witness_def)
  have "opening_pairs toy_zisk sample_registry 1
      (member_leaves toy_zisk [sample_member_A, sample_member_B]) [] = {(leaf_A, leaf_B)}"
    unfolding opening_pairs_def sample_registry_tree
    by (simp add: member_leaves_def sample_member_A_def sample_member_B_def toy_hashes)
  then show ?thesis unfolding aux by (simp add: collision_free_def)
qed

lemma sample_committee_root_words:
  "take 4 (drop 4 (committee_encode sample_committee_witness)) = registry_root toy_zisk sample_registry 1"
  using committee_encode_blocks(4) [OF sample_committee_wf]
  by (simp add: sample_registry_facts) (simp add: sample_committee_witness_def)

lemma sample_member_binding:
  "leaf_binding toy_zisk (registry_entries sample_registry 1 \<union>
     (\<lambda>m. (cm_pubkey m, cm_balance m)) ` set [sample_member_A, sample_member_B])"
  unfolding sample_registry_tree
  by (rule leaf_binding_mono [OF sample_leaf_binding])
    (auto simp: sample_member_A_def sample_member_B_def)

section \<open>The slot run's openings\<close>

lemma sample_slot_names: "slot_names (sample_slot_witness L) = [sample_absentee]"
  by (simp add: slot_names_def sample_slot_witness_def sample_slot_def named_def)

lemma sample_slot_registry:
  "sw_acc_root (sample_slot_witness L) = registry_root toy_zisk sample_registry 1"
  by (simp add: sample_registry_facts) (simp add: sample_slot_witness_def)

lemma sample_names_fine: "names_fine toy_zisk sample_registry 1 (sample_slot_witness L)"
proof -
  have leaf: "opened_leaf toy_zisk sample_absentee = (leaf_B, 1)"
    by (simp add: opened_leaf_def sample_absentee_def toy_hashes)
  have aux: "sw_acc_multi_proof (sample_slot_witness L) = [leaf_A]" by (simp add: sample_slot_witness_def)
  have pairs: "opening_pairs toy_zisk sample_registry 1 (sort_key snd (map (opened_leaf toy_zisk) [sample_absentee]))
      (sw_acc_multi_proof (sample_slot_witness L)) = {(leaf_A, leaf_B)}"
    unfolding opening_pairs_def sample_registry_tree by (simp add: leaf aux)
  have "leaf_binding toy_zisk (registry_entries sample_registry 1 \<union>
      (\<lambda>v. (ov_pubkey v, ov_balance v)) ` set [sample_absentee])"
    unfolding sample_registry_tree
    by (rule leaf_binding_mono [OF sample_leaf_binding]) (auto simp: sample_absentee_def)
  then show ?thesis
    unfolding names_fine_def sample_slot_names pairs by (simp add: collision_free_def)
qed

abbreviation sample_members_list :: "committee_member list" where
  "sample_members_list \<equiv> [sample_member_A, sample_member_B]"

lemma sample_bucket_aggregate:
  "bucket_aggregate toy_zisk sample_members_list s = (if s = 0 then Some sample_aggregate else None)"
proof -
  have "aggregate_points toy_zisk [key_A, key_B] = Some key_AB"
    by (simp add: aggregate_points_def toy_sums)
  then show ?thesis
    by (simp add: bucket_aggregate_def bucket_def sample_member_A_def sample_member_B_def sample_aggregate_def)
qed

lemma sample_bucket_leaf:
  "bucket_leaf toy_zisk sample_members_list s = (if s = 0 then leaf_slot else ZERO)"
  by (simp add: bucket_leaf_def sample_bucket_aggregate committee_leaf_def sample_aggregate_def toy_hashes)

lemma sample_bucket_balance:
  "bucket_balance sample_members_list s = (if s = 0 then 64 else 0)"
  by (simp add: bucket_balance_def bucket_def sample_member_A_def sample_member_B_def)

lemma toy_tree_pairs:
  "L 0 = leaf_slot \<Longrightarrow> (\<And>i. 0 < i \<Longrightarrow> L i = ZERO) \<Longrightarrow>
     tree_pairs (compress toy_zisk) L n \<subseteq> {(leaf_slot, ZERO), (ZERO, ZERO)}"
proof (induction n arbitrary: L)
  case (Suc n)
  have "L (2 * j) = (if j = 0 then leaf_slot else ZERO)" "L (2 * j + 1) = ZERO" for j
    using Suc.prems by simp_all
  moreover have "tree_pairs (compress toy_zisk) (parent_leaves (compress toy_zisk) L) n \<subseteq>
      {(leaf_slot, ZERO), (ZERO, ZERO)}"
    by (rule Suc.IH) (use Suc.prems in \<open>simp_all add: parent_leaves_def toy_hashes\<close>)
  ultimately show ?case by auto
qed simp

lemma sample_partition_pairs:
  "partition_pairs toy_zisk sample_members_list (sample_slot_witness L) \<subseteq> {(leaf_slot, ZERO), (ZERO, ZERO)}"
proof -
  have "tree_pairs (compress toy_zisk) (bucket_leaf toy_zisk sample_members_list) 5 \<subseteq>
      {(leaf_slot, ZERO), (ZERO, ZERO)}"
    by (rule toy_tree_pairs) (simp_all add: sample_bucket_leaf)
  moreover have "batch_pairs (compress toy_zisk) 5 [0] [leaf_slot] (replicate 5 ZERO) = {(leaf_slot, ZERO)}"
    by (simp add: toy_hashes numeral_eq_Suc)
  ultimately show ?thesis
    unfolding partition_pairs_def
    by (simp add: slot_leaves_def sample_slot_witness_def sample_slot_def sample_aggregate_def
        committee_leaf_def toy_hashes)
qed

lemma sample_partition_free:
  "collision_free (compress toy_zisk) (partition_pairs toy_zisk sample_members_list (sample_slot_witness L))"
proof -
  have "collision_free (compress toy_zisk) {(leaf_slot, ZERO), (ZERO, ZERO)}"
    using toy_leaf_values by (auto simp: collision_free_def toy_hashes)
  then show ?thesis
    using sample_partition_pairs [of L] unfolding collision_free_def by blast
qed

lemma sample_partition_entries:
  "leaf_binding toy_zisk (partition_entries toy_zisk sample_members_list (sample_slot_witness L))"
  by (rule leaf_binding_mono [OF sample_leaf_binding])
    (auto simp: partition_entries_def sample_bucket_aggregate sample_slot_witness_def sample_slot_def
      sample_aggregate_def split: if_splits)

lemma sample_run_fine: "run_fine toy_zisk sample_registry 1 sample_members_list (sample_slot_witness L)"
  by (simp only: run_fine_def sample_names_fine sample_partition_free sample_partition_entries conj_assoc simp_thms)

section \<open>The chains\<close>

definition sample_runs :: "bytes32 list \<Rightarrow> justification_witness set" where
  "sample_runs rs = sample_justification_witness ` set rs"

definition sample_slot_runs :: "bytes32 list \<Rightarrow> slot_proof_witness set" where
  "sample_slot_runs rs = (\<lambda>r. sample_slot_witness (link_to r)) ` set rs"

abbreviation sample_words :: "u64 list" where
  "sample_words \<equiv> committee_encode sample_committee_witness"

lemma sample_members_of: "members_of sample_words = sample_members_list"
  by (simp add: members_of_def sample_members)

lemma sample_words_total: "sample_words ! 9 = 64"
  using committee_encode_blocks(6) [OF sample_committee_wf] by (simp add: sample_committee_witness_def)

lemma sample_chain:
  assumes "r \<in> set rs" "length r = 32"
  shows "justification_chain toy_zisk (sample_runs rs) (slot_run toy_zisk (sample_slot_runs rs) 1)
    (sample_justification_output r)"
proof (rule chain_opens)
  show "sample_justification_witness r \<in> sample_runs rs" using assms(1) by (simp add: sample_runs_def)
  show "\<forall>s\<in>set (slot_proof_outputs (sample_justification_witness r)).
      slot_run toy_zisk (sample_slot_runs rs) 1 s"
    using sample_slot_proof assms(1)
    by (auto simp: sample_justification_witness_def slot_run_def sample_slot_runs_def)
qed (simp_all add: sample_justification [OF assms(2)], simp add: sample_justification_witness_def)

lemma sample_epoch_of:
  assumes "r \<in> set rs" "length r = 32"
  shows "epoch_of toy_zisk sample_registry 1 sample_words sample_committee_output (sample_runs rs)
    (sample_slot_runs rs) (sample_justification_output r)"
  using sample_chain [OF assms] sample_committee sample_committee_root_words
  by (simp add: epoch_of_def) (simp add: sample_committee_output_def sample_justification_output_def)

lemma sample_binding_runs:
  "binding_runs toy_zisk sample_registry 1 sample_words (sample_runs rs) (sample_slot_runs rs)"
proof -
  have fine: "\<forall>w\<in>sample_slot_runs rs. run_fine toy_zisk sample_registry 1 sample_members_list w"
    using sample_run_fine by (auto simp: sample_slot_runs_def)
  have one: "insert (sample_root, 64)
       ((\<lambda>w. (jw_acc_root w, jw_total_active_balance w)) ` sample_runs rs \<union>
        (\<lambda>w. (sw_acc_root w, sw_total_active_balance w)) ` sample_slot_runs rs) = {(sample_root, 64)}"
    by (auto simp: sample_runs_def sample_slot_runs_def sample_justification_witness_def
        sample_slot_witness_def)
  show ?thesis
    unfolding binding_runs_def sample_members_of sample_words_total sample_registry_tree(1) one
    using sample_member_opening sample_member_binding fine by simp
qed

lemma sample_total_fits: "registry_total sample_registry 1 < 2 ^ 64"
  by (simp add: sample_registry_facts)

end
