(* ===== verification/Guest_Properties.thy ===== *)
theory Guest_Properties
  imports SampleChain
begin

text \<open>
  The properties of the guests, one circuit at a time: what an accepted committee, slot, group,
  aggregation, epoch-diff, justification, finalization or streaming proof has established, and what
  it has not. The properties that compose several guests are in the root theory.
\<close>

section \<open>The committee guest\<close>

text \<open>C23: An accepted committee proof commits to a partition: its members are read once each, in
  increasing index order, every member falls in one of the 32 slots, and the published root is the
  root of the tree whose leaf at a slot is that slot's keys summed and balances summed, or the zero
  digest where the slot has no member.\<close>

theorem committee_proof_partitions:
  assumes "verify_committee Z words d = Inr out"
  shows "\<exists>ms. ms = map read_member (member_block words) \<and> distinct (map cm_index ms) \<and>
    (\<forall>m\<in>set ms. \<exists>!s. s < 32 \<and> m \<in> set (bucket ms s)) \<and>
    (\<forall>s<32. bucket ms s \<noteq> [] \<longrightarrow> bucket_aggregate Z ms s \<noteq> None) \<and>
    co_committee_root out = tree_root (compress Z) (bucket_leaf Z ms) 5"
proof -
  note com = verify_committee_members [OF assms]
  have one: "\<exists>!s. s < 32 \<and> m \<in> set (bucket (map read_member (member_block words)) s)"
    if "m \<in> set (map read_member (member_block words))" for m
    using that com(2) by (auto simp: bucket_def)
  show ?thesis
    by (intro exI [of _ "map read_member (member_block words)"] conjI refl
        strictly_increasing_distinct [OF com(1)] ballI one com(4) allI impI com(5))
qed

theorem committee_proof_partitions_witness:
  "leaf_slot = tree_root (compress toy_zisk) (bucket_leaf toy_zisk [sample_member_A, sample_member_B]) 5"
  using committee_proof_partitions [OF sample_committee] by (simp add: sample_members sample_committee_output_def)

text \<open>C24: The members of an accepted committee proof are entries of the registry behind the
  accumulator, each at its own position and with its own balance, so the balances of all slots
  together are at most the registry's total.\<close>

theorem committee_members_registered:
  assumes "verify_committee Z words d = Inr out" "take 4 (drop 4 words) = registry_root Z R d"
    and "ms = map read_member (member_block words)"
    and "collision_free (compress Z) (opening_pairs Z R d (member_leaves Z ms) (auxiliary_block words))"
    and "leaf_binding Z (registry_entries R d \<union> (\<lambda>m. (cm_pubkey m, cm_balance m)) ` set ms)"
  shows "(\<forall>m\<in>set ms. R (unat (cm_index m) mod 2 ^ d) = Some (cm_pubkey m, cm_balance m)) \<and>
    distinct (map (\<lambda>m. unat (cm_index m) mod 2 ^ d) ms) \<and>
    (\<Sum>s<32. bucket_balance ms s) \<le> registry_total R d"
proof -
  note opened = committee_members_opened [OF assms(1,2), folded assms(3), OF assms(4,5)]
  have "(\<Sum>s<32. bucket_balance ms s) \<le> sum (bucket_balance ms) {..<64}"
    by (rule sum_mono2) auto
  then show ?thesis using opened by fastforce
qed

theorem committee_members_registered_witness:
  "(\<Sum>s<32. bucket_balance [sample_member_A, sample_member_B] s) \<le> 64"
  using committee_members_registered [OF sample_committee sample_committee_root_words
      sample_members [symmetric] sample_member_opening sample_member_binding]
  by (simp add: sample_registry_facts)

section \<open>The slot and group guests\<close>

lemma distinct_opened:
  assumes "strictly_increasing (map snd (sort_key snd xs))"
  shows "distinct (map snd xs)"
proof -
  have "mset (map snd (sort_key snd xs)) = mset (map snd xs)"
    by (simp only: mset_map mset_sort)
  then show ?thesis using strictly_increasing_distinct [OF assms] mset_eq_imp_distinct_iff by blast
qed

lemma slot_proof_counted:
  assumes "verify_slot_proof_with_depth Z w d = Inr out"
  shows "sp_attesting_balance out = of_nat (sum_list (map slot_support (sw_slots w))) \<and>
    slot_set (sp_slots_mask out) = (\<lambda>sl. unat (slot_in_epoch sl)) ` set (sw_slots w) \<and>
    slot_set (sp_slots_mask out) \<subseteq> {..<32} \<and> distinct (map slot_in_epoch (sw_slots w)) \<and>
    (\<forall>sl\<in>set (sw_slots w). absent_balance sl \<le> unat (ca_balance (committee sl))) \<and>
    distinct (map ov_index (concat (map named (sw_slots w))))"
proof -
  from assms obtain at where at: "attest Z w d = Inr at"
    and out: "sp_attesting_balance out = att_balance at" "sp_slots_mask out = att_mask at"
    by (rule verify_slot_proof_attests)
  from at have "verify_attestations Z (sw_slots w) (sw_acc_root w) (sw_acc_multi_proof w)
      (sw_committee_root w) (sw_committee_multi_proof w) (link_of w) d = Inr at"
    by (simp add: attest_Inr)
  then obtain st where sum: "slots_summary Z (link_of w) (sw_slots w) st"
    and eqs: "att_balance at = ss_balance st" "att_mask at = ss_mask st"
    and inc: "strictly_increasing (map snd (sort_key snd (ss_opened st)))"
    by (rule verify_attestations_Inr)
  note facts = slots_summaryD [OF sum]
  have mask: "slot_set (ss_mask st) = (\<lambda>sl. unat (slot_in_epoch sl)) ` set (sw_slots w)"
    using facts(2) by (auto simp: slot_set_def)
  have "map snd (ss_opened st) = map ov_index (concat (map named (sw_slots w)))"
    by (simp add: facts(3) opened_leaf_def comp_def)
  then show ?thesis
    using facts(1,6) mask strictly_increasing_distinct [OF facts(5)] distinct_opened [OF inc]
    by (auto simp: out eqs)
qed

text \<open>C21: A slot proof counts each of its slots once and each named validator once: the published
  balance is the sum over the slots of the committee balance less the absentees', no absentees
  outweigh their committee, the mask is the set of slots, and no validator is named twice anywhere
  in the proof.\<close>

theorem slot_proof_counts:
  assumes "verify_slot_proof_with_depth Z w d = Inr out"
  shows "sp_attesting_balance out = of_nat (sum_list (map slot_support (sw_slots w))) \<and>
    slot_set (sp_slots_mask out) = (\<lambda>sl. unat (slot_in_epoch sl)) ` set (sw_slots w) \<and>
    slot_set (sp_slots_mask out) \<subseteq> {..<32} \<and> distinct (map slot_in_epoch (sw_slots w)) \<and>
    (\<forall>sl\<in>set (sw_slots w). absent_balance sl \<le> unat (ca_balance (committee sl))) \<and>
    distinct (map ov_index (concat (map named (sw_slots w))))"
  by (rule slot_proof_counted [OF assms])

theorem slot_proof_counts_witness:
  "slot_set (sp_slots_mask (sample_slot_output (link_to zero32))) = {0} \<and>
   sp_attesting_balance (sample_slot_output (link_to zero32)) = of_nat (64 - 16)"
proof -
  have "map slot_support (sw_slots (sample_slot_witness L)) = [48]" for L
    by (simp add: sample_slot_witness_def sample_slot_def slot_support_def absent_balance_def
        sample_absentee_def sample_aggregate_def)
  moreover have "map slot_in_epoch (sw_slots (sample_slot_witness L)) = [0]" for L
    by (simp add: sample_slot_witness_def sample_slot_def)
  ultimately show ?thesis
    using slot_proof_counts [OF sample_slot_proof [of "link_to zero32"]]
    by (simp add: sample_slot_witness_def)
qed

text \<open>C22: Every validator a slot proof names, as an absentee or as the signer of another message, is
  an entry of the registry behind the accumulator with exactly the key and the balance that were
  subtracted, each at its own position: the absentees' balances are within the registry's total.\<close>

theorem slot_proof_opens_registry:
  assumes "verify_slot_proof_with_depth Z w d = Inr out" "sw_acc_root w = registry_root Z R d"
    and "names_fine Z R d w"
  shows "(\<forall>v\<in>set (slot_names w). R (unat (ov_index v) mod 2 ^ d) = Some (ov_pubkey v, ov_balance v)) \<and>
    distinct (map (\<lambda>v. unat (ov_index v) mod 2 ^ d) (slot_names w)) \<and>
    sum_list (map (\<lambda>v. unat (ov_balance v)) (slot_names w)) \<le> registry_total R d"
proof -
  from assms(1) obtain at where "attest Z w d = Inr at" by (rule verify_slot_proof_attests)
  from attest_names [OF this assms(2,3)] show ?thesis by blast
qed

theorem slot_proof_opens_registry_witness: "sample_registry 1 = Some (key_B, 16)"
  using slot_proof_opens_registry [OF sample_slot_proof sample_slot_registry sample_names_fine]
  by (simp add: sample_slot_names sample_absentee_def)

text \<open>The message of an attestation: its data, with the checkpoints the proof is about, under its domain.\<close>

definition vote_root :: "zisk \<Rightarrow> vote_link \<Rightarrow> attestation_witness \<Rightarrow> bytes32" where
  "vote_root Z L a = compute_signing_root Z
     (attestation_data_root Z (data_slot a) (data_index a) (data_beacon_block_root a)
       (vl_source_epoch L) (vl_source_root L) (vl_target_epoch L) (vl_target_root L))
     (vl_signing_domain L)"

lemma push_message_Inr:
  "push_message Z L as key = Inr m \<Longrightarrow>
     sm_pubkeys m = [key] \<and> sm_signing_root m = vote_root Z L (hd as) \<and> sm_signatures m = map signature as"
  by (auto simp: push_message_def vote_root_def Let_def)

lemma key_minus_group:
  assumes "curve_law Z C pt" "p \<in> C" "ov_pubkey ` set vs \<subseteq> C" "key_minus Z (Some p) vs = Some (Some key)"
  shows "key \<in> C \<and> pt key = pt p - sum_list (map (\<lambda>v. pt (ov_pubkey v)) vs)"
proof -
  let ?ps = "map (\<lambda>v. neg_bls12_381 Z (ov_pubkey v)) vs"
  have neg: "neg_bls12_381 Z (ov_pubkey v) \<in> C \<and> pt (neg_bls12_381 Z (ov_pubkey v)) = - pt (ov_pubkey v)"
    if "v \<in> set vs" for v
    by (rule curve_law_neg [OF assms(1)]) (use that assms(3) in auto)
  then have sub: "set ?ps \<subseteq> C" by auto
  have "sum_list (map pt ?ps) = sum_list (map (\<lambda>v. - pt (ov_pubkey v)) vs)"
    using neg by (intro arg_cong [where f = sum_list]) simp
  also have "\<dots> = - sum_list (map (\<lambda>v. pt (ov_pubkey v)) vs)"
    by (simp add: uminus_sum_list_map comp_def)
  finally have "sum_list (map pt ?ps) = - sum_list (map (\<lambda>v. pt (ov_pubkey v)) vs)" .
  then show ?thesis
    using point_sum_adds_group [OF assms(1) _ sub, of "Some p" "Some key"] assms(2,4)
    by (simp add: key_minus_def)
qed

text \<open>Complement proving derives the key it pairs: in an accepted slot proof every slot
  contributes one message under the vote root of its primary attestation, for the source and target
  checkpoints and the domain of the witness, whose one key is, in the group of the curve, the
  committee's key minus the keys of every validator the slot names.\<close>

theorem complement_key:
  assumes "attest Z w d = Inr at" "curve_law Z C pt"
    and "\<forall>sl\<in>set (sw_slots w). ca_pubkey (committee sl) \<in> C \<and> ov_pubkey ` set (named sl) \<subseteq> C"
  shows "\<exists>blocks. miller_accumulator Z (concat blocks) = Inr (Some (att_miller at)) \<and>
    list_all2 (\<lambda>sl block. \<exists>m\<in>set block. \<exists>key. sm_pubkeys m = [key] \<and> key \<in> C \<and>
        sm_signing_root m = vote_root Z (link_of w) (hd (primary sl)) \<and>
        pt key = pt (ca_pubkey (committee sl)) - sum_list (map (\<lambda>v. pt (ov_pubkey v)) (named sl)))
      (sw_slots w) blocks"
proof -
  from assms(1) have "verify_attestations Z (sw_slots w) (sw_acc_root w) (sw_acc_multi_proof w)
      (sw_committee_root w) (sw_committee_multi_proof w) (link_of w) d = Inr at"
    by (simp add: attest_Inr)
  then obtain st where "slots_summary Z (link_of w) (sw_slots w) st"
    and mil: "miller_accumulator Z (ss_messages st) = Inr (Some (att_miller at))"
    by (rule verify_attestations_Inr)
  then obtain blocks where blocks: "ss_messages st = concat blocks"
    "list_all2 (slot_messages Z (link_of w)) (sw_slots w) blocks"
    by (auto simp: slots_summary_def)
  have "list_all2 (\<lambda>sl block. \<exists>m\<in>set block. \<exists>key. sm_pubkeys m = [key] \<and> key \<in> C \<and>
        sm_signing_root m = vote_root Z (link_of w) (hd (primary sl)) \<and>
        pt key = pt (ca_pubkey (committee sl)) - sum_list (map (\<lambda>v. pt (ov_pubkey v)) (named sl)))
      (sw_slots w) blocks"
  proof (rule list.rel_mono_strong [OF blocks(2)])
    fix sl block
    assume sl: "sl \<in> set (sw_slots w)" and "slot_messages Z (link_of w) sl block"
    then obtain ms m where "block = ms @ [m]" and pm: "primary_message Z (link_of w) sl m"
      unfolding slot_messages_def by blast
    from pm obtain key where
      "key_minus Z (Some (ca_pubkey (committee sl))) (named sl) = Some (Some key)"
      "push_message Z (link_of w) (primary sl) key = Inr m"
      unfolding primary_message_def by blast
    moreover have "m \<in> set block" using \<open>block = ms @ [m]\<close> by simp
    ultimately have m: "m \<in> set block"
      "key_minus Z (Some (ca_pubkey (committee sl))) (named sl) = Some (Some key)"
      "push_message Z (link_of w) (primary sl) key = Inr m"
      by blast+
    show "\<exists>m\<in>set block. \<exists>key. sm_pubkeys m = [key] \<and> key \<in> C \<and>
        sm_signing_root m = vote_root Z (link_of w) (hd (primary sl)) \<and>
        pt key = pt (ca_pubkey (committee sl)) - sum_list (map (\<lambda>v. pt (ov_pubkey v)) (named sl))"
      using m(1) push_message_Inr [OF m(3)] key_minus_group [OF assms(2) _ _ m(2)] assms(3) sl by blast
  qed
  then show ?thesis using mil blocks(1) by auto
qed

theorem complement_key_witness:
  "\<exists>blocks. miller_accumulator toy_zisk (concat blocks) = Inr (Some FP12_ONE) \<and>
     list_all2 (\<lambda>sl block. \<exists>m\<in>set block. \<exists>key. sm_pubkeys m = [key] \<and> key ! 6 = (3 :: u64) - 2)
       [sample_slot (link_to zero32)] blocks"
proof -
  let ?w = "sample_slot_witness (link_to zero32)"
  have slots: "sw_slots ?w = [sample_slot (link_to zero32)]" by (simp add: sample_slot_witness_def)
  have val: "ca_pubkey (committee (sample_slot L)) ! 6 -
      sum_list (map (\<lambda>v. ov_pubkey v ! 6) (named (sample_slot L))) = (3 :: u64) - 2" for L
    by (simp add: sample_slot_def sample_aggregate_def named_def sample_absentee_def key_AB_def key_B_def)
  have "\<forall>sl\<in>set (sw_slots ?w). ca_pubkey (committee sl) \<in> toy_curve \<and>
      ov_pubkey ` set (named sl) \<subseteq> toy_curve"
    unfolding slots by (simp add: toy_key_points sample_slot_def sample_aggregate_def named_def
        sample_absentee_def)
  from complement_key [OF sample_attest toy_curve_law this] obtain blocks where
    b: "miller_accumulator toy_zisk (concat blocks) = Inr (Some FP12_ONE)"
    "list_all2 (\<lambda>sl block. \<exists>m\<in>set block. \<exists>key. sm_pubkeys m = [key] \<and> key \<in> toy_curve \<and>
        sm_signing_root m = vote_root toy_zisk (link_of ?w) (hd (primary sl)) \<and>
        key ! 6 = ca_pubkey (committee sl) ! 6 - sum_list (map (\<lambda>v. ov_pubkey v ! 6) (named sl)))
      [sample_slot (link_to zero32)] blocks"
    unfolding slots by (auto simp only: attested.simps)
  have "list_all2 (\<lambda>sl block. \<exists>m\<in>set block. \<exists>key. sm_pubkeys m = [key] \<and> key ! 6 = (3 :: u64) - 2)
       [sample_slot (link_to zero32)] blocks"
    by (rule list.rel_mono_strong [OF b(2)]) (use val in fastforce)
  with b(1) show ?thesis by blast
qed

text \<open>The signing domain decides which network and fork the votes are for, and a slot proof does
  not publish it: the same witness under two domains has, wherever both are accepted, the same
  output, so nothing a parent reads tells them apart.\<close>

theorem slot_proof_hides_domain:
  assumes "verify_slot_proof_with_depth Z w d = Inr out"
    and "verify_slot_proof_with_depth Z (w\<lparr>sw_signing_domain := domain, sw_slots := slots\<rparr>) d = Inr out'"
    and "map (\<lambda>sl. (slot_in_epoch sl, slot_support sl)) slots =
      map (\<lambda>sl. (slot_in_epoch sl, slot_support sl)) (sw_slots w)"
  shows "out' = out \<and> sp_public_bytes out' = sp_public_bytes out"
proof -
  have parts: "map slot_support slots = map slot_support (sw_slots w)"
    "(\<lambda>sl. unat (slot_in_epoch sl)) ` set slots = (\<lambda>sl. unat (slot_in_epoch sl)) ` set (sw_slots w)"
    using arg_cong [OF assms(3), of "map snd"] arg_cong [OF assms(3), of "\<lambda>xs. unat ` fst ` set xs"]
    by (simp_all add: comp_def image_image)
  have "sp_attesting_balance out' = sp_attesting_balance out"
    and "slot_set (sp_slots_mask out') = slot_set (sp_slots_mask out)"
    using slot_proof_counted [OF assms(1)] slot_proof_counted [OF assms(2)] parts by simp_all
  then have "sp_attesting_balance out' = sp_attesting_balance out" "sp_slots_mask out' = sp_slots_mask out"
    using slot_set_inj by blast+
  then show ?thesis
    using assms(1,2) by (auto simp: verify_slot_proof_with_depth_def)
qed

theorem slot_proof_hides_domain_witness:
  "verify_slot_proof_with_depth toy_zisk (sample_slot_witness
     ((link_to zero32)\<lparr>vl_signing_domain := replicate 32 1\<rparr>)) 1 =
   verify_slot_proof_with_depth toy_zisk (sample_slot_witness (link_to zero32)) 1"
proof -
  let ?L = "(link_to zero32)\<lparr>vl_signing_domain := replicate 32 1\<rparr>"
  have w: "sample_slot_witness ?L = (sample_slot_witness (link_to zero32))
      \<lparr>sw_signing_domain := replicate 32 1, sw_slots := [sample_slot ?L]\<rparr>"
    by (simp add: sample_slot_witness_def)
  have "map (\<lambda>sl. (slot_in_epoch sl, slot_support sl)) [sample_slot ?L] =
      map (\<lambda>sl. (slot_in_epoch sl, slot_support sl)) (sw_slots (sample_slot_witness (link_to zero32)))"
    by (simp add: sample_slot_witness_def sample_slot_def slot_support_def absent_balance_def)
  from slot_proof_hides_domain [OF sample_slot_proof sample_slot_proof [of ?L, unfolded w] this]
  show ?thesis unfolding sample_slot_proof by simp
qed

section \<open>The aggregation guest\<close>

text \<open>C20: Folding keeps balance, mask and pairing product in step: a fold's balance is its
  predecessor's plus the groups', its mask the disjoint union of theirs, and the accumulator it
  commits to the product of the predecessor's and the groups', each of which opens the commitment
  its group published. A first fold starts from nothing.\<close>

theorem aggregate_counts_groups:
  assumes "verify_aggregate Z w = Inr out"
    and "(b0, m0, f0) = (case aw_previous w of None \<Rightarrow> (0, 0, FP12_ONE)
      | Some prev \<Rightarrow> (ao_attesting_balance prev, ao_slots_mask prev, aw_previous_miller w))"
  shows "ao_attesting_balance out = b0 + sum_list (map gp_attesting_balance (aw_groups w)) \<and>
    slot_set (ao_slots_mask out) = slot_set m0 \<union> (\<Union>g\<in>set (aw_groups w). slot_set (gp_slots_mask g)) \<and>
    (\<forall>g\<in>set (aw_groups w). slot_set m0 \<inter> slot_set (gp_slots_mask g) = {}) \<and>
    sorted_wrt (\<lambda>g h. slot_set (gp_slots_mask g) \<inter> slot_set (gp_slots_mask h) = {}) (aw_groups w) \<and>
    ao_miller_commitment out = commit_fp12 Z (foldl (fp12_mul Z) f0 (aw_group_millers w)) \<and>
    map (commit_fp12 Z) (aw_group_millers w) = map gp_miller_commitment (aw_groups w)"
proof -
  from assms(1) obtain start P st where
    start: "case aw_previous w of
       Some prev \<Rightarrow> previous_aggregate Z w (ao_checkpoint_digest out) prev = Inr start
     | None \<Rightarrow> start = fold_open"
    and fold: "fold_res (group_step Z P) start
       (zip (aw_groups w) (zip (aw_group_proofs w) (aw_group_millers w))) = Inr st"
    and out: "ao_attesting_balance out = fs_balance st" "ao_slots_mask out = fs_mask st"
      "ao_miller_commitment out = commit_fp12 Z (fs_miller st)"
    and len: "length (aw_groups w) = length (aw_group_proofs w)"
      "length (aw_groups w) = length (aw_group_millers w)"
    by (rule verify_aggregate_Inr) blast
  have s0: "fs_balance start = b0" "fs_mask start = m0" "fs_miller start = f0"
    using start assms(2)
    by (auto simp: previous_aggregate_def fold_open_def split: option.splits)
  note groups = group_lists_fold [OF fold len]
  have "map (commit_fp12 Z) (aw_group_millers w) = map gp_miller_commitment (aw_groups w)"
    using groups(6) len by (intro nth_equalityI) (simp_all add: verify_group_Inr)
  then show ?thesis using groups(1-5) by (simp add: out s0)
qed

theorem aggregate_counts_groups_witness:
  "ao_attesting_balance (sample_aggregate_output zero32) = 0 + (48 + 0) \<and>
   slot_set (ao_slots_mask (sample_aggregate_output zero32)) = slot_set 0 \<union> slot_set 1"
proof -
  have "(0, 0, FP12_ONE) = (case aw_previous (sample_aggregate_witness zero32) of None \<Rightarrow> (0, 0, FP12_ONE)
      | Some prev \<Rightarrow> (ao_attesting_balance prev, ao_slots_mask prev, aw_previous_miller (sample_aggregate_witness zero32)))"
    by (simp add: sample_aggregate_witness_def)
  moreover have "aw_groups (sample_aggregate_witness zero32) = [sample_group (link_to zero32)]"
    by (simp add: sample_aggregate_witness_def)
  moreover have "gp_attesting_balance (sample_group L) = 48" "gp_slots_mask (sample_group L) = 1" for L
    by (simp_all add: sample_group_def)
  moreover have "length zero32 = 32" by (simp add: zero32_def)
  ultimately show ?thesis
    using aggregate_counts_groups [OF sample_aggregate_proof [of zero32]] by simp
qed

section \<open>The epoch-diff guest\<close>

text \<open>C19: An accepted epoch diff is a sequence of writes to the registry behind its first
  accumulator: each mutation replaced exactly the entry the registry held when its turn came, and
  what is published is the root, the total balance and the commitment of the registry with the
  mutations written, in the arithmetic of 64 bits.\<close>

theorem epoch_diff_refines_registry:
  assumes "verify_epoch_diff_with_depth Z w ssz_d d = Inr out"
    and "acc_root_1 w = registry_root Z R d"
    and "total_active_balance_1 w = of_nat (registry_total R d)"
    and "diff_fine Z (epoch_1 w) (epoch_2 w) d R (mutations w)"
    and "leaf_binding Z (registry_entries R d \<union> diff_entries Z (epoch_1 w) (epoch_2 w) (mutations w))"
    and "R' = apply_mutations Z (epoch_2 w) d R (mutations w)"
  shows "replaces Z (epoch_1 w) (epoch_2 w) d R (mutations w) \<and>
    ed_acc_root out = registry_root Z R' d \<and>
    ed_total_active_balance out = of_nat (registry_total R' d) \<and>
    ed_prev_accumulator_commitment out = commitment Z (registry_root Z R d) (of_nat (registry_total R d)) \<and>
    ed_accumulator_commitment out = commitment Z (registry_root Z R' d) (of_nat (registry_total R' d))"
proof -
  from assms(1) obtain st where
    fold: "fold_res (mutation_step Z (epoch_1 w) (epoch_2 w)) (diff_init w) (mutations w) = Inr st"
    and len: "list_all (\<lambda>m. length (acc_siblings m) = d) (mutations w)"
    and out: "ed_acc_root out = df_acc_root st" "ed_total_active_balance out = df_total st"
      "ed_prev_accumulator_commitment out = commitment Z (acc_root_1 w) (total_active_balance_1 w)"
      "ed_accumulator_commitment out = commitment Z (df_acc_root st) (df_total st)"
    by (auto simp: verify_epoch_diff_with_depth_def Let_def)
  have "replaces Z (epoch_1 w) (epoch_2 w) d R (mutations w) \<and>
      df_acc_root st = registry_root Z R' d \<and> df_total st = of_nat (registry_total R' d)"
    unfolding assms(6)
    by (rule mutations_refine [OF fold _ _ _ assms(4) assms(5) subset_refl])
      (use len assms(2,3) in \<open>simp_all add: diff_init_def list_all_iff\<close>)
  then show ?thesis using assms(2,3) by (simp add: out)
qed

definition sample_old_registry :: registry where
  "sample_old_registry = sample_registry(0 := Some (key_A, 32))"

lemma sample_old_leaf:
  "leaf toy_zisk key_A 32 \<noteq> ZERO" "leaf toy_zisk key_A 32 \<noteq> leaf_A" "leaf toy_zisk key_A 32 \<noteq> leaf_B"
  by (simp_all add: eval_poseidon key_A_def leaf_A_def leaf_B_def upt_rec replicate_four)

lemma sample_old_registry_facts:
  "registry_root toy_zisk sample_old_registry 1 = sample_old_root"
  "tree_pairs (compress toy_zisk) (registry_leaf toy_zisk sample_old_registry) 1 =
     {(leaf toy_zisk key_A 32, leaf_B)}"
  "registry_entries sample_old_registry 1 = {(key_A, 32), (key_B, 16)}"
  "registry_total sample_old_registry 1 = 48"
proof -
  have l: "registry_leaf toy_zisk sample_old_registry 0 = leaf toy_zisk key_A 32"
    "registry_leaf toy_zisk sample_old_registry (Suc 0) = leaf_B"
    by (simp_all add: registry_leaf_def sample_old_registry_def sample_registry_def toy_hashes)
  show "registry_root toy_zisk sample_old_registry 1 = sample_old_root"
    by (simp add: registry_root_def parent_leaves_def l sample_old_root_def)
  show "tree_pairs (compress toy_zisk) (registry_leaf toy_zisk sample_old_registry) 1 =
     {(leaf toy_zisk key_A 32, leaf_B)}"
    by (simp add: l lessThan_Suc)
  show "registry_entries sample_old_registry 1 = {(key_A, 32), (key_B, 16)}"
    by (auto simp: registry_entries_def sample_old_registry_def sample_registry_def split: if_splits
        intro: exI [of _ 0] exI [of _ 1])
  show "registry_total sample_old_registry 1 = 48"
    by (simp add: registry_total_def sample_old_registry_def sample_registry_def lessThan_nat_numeral
        lessThan_Suc pred_numeral_simps)
qed

theorem epoch_diff_refines_registry_witness:
  "sample_commitment = commitment toy_zisk (registry_root toy_zisk sample_registry 1) 64"
proof -
  let ?w = "sample_diff_witness zero32 zero32"
  have w: "acc_root_1 ?w = sample_old_root" "total_active_balance_1 ?w = 48" "epoch_1 ?w = 1"
    "epoch_2 ?w = 2" "mutations ?w = [sample_mutation]"
    by (simp_all add: sample_diff_witness_def)
  have e: "(1 :: u64) < - 1" "(2 :: u64) < - 1" by (simp_all flip: word_order.not_eq_extremum)
  have pk: "vd_pubkey (sample_validator 48) = replicate 48 1" by (simp add: sample_validator_def)
  have old: "old_entry toy_zisk 1 sample_mutation = Some (key_A, 32)"
    and new: "new_entry toy_zisk 2 sample_mutation = Some (key_A, 48)"
    by (simp_all add: old_entry_def new_entry_def sample_mutation_def pk sample_decompress sample_active e)
  have sib: "acc_siblings sample_mutation = [leaf_B]" "vm_index sample_mutation = 0"
    by (simp_all add: sample_mutation_def)
  have "path_pairs (compress toy_zisk) (leaf toy_zisk key_A 32) 0 [leaf_B] = {(leaf toy_zisk key_A 32, leaf_B)}"
    by simp
  then have fine: "diff_fine toy_zisk (epoch_1 ?w) (epoch_2 ?w) 1 sample_old_registry (mutations ?w)"
    unfolding w diff_fine.simps path_fine_def old sib entry_leaf_simps sample_old_registry_facts
    by (simp add: collision_free_def)
  have ents: "registry_entries sample_old_registry 1 \<union>
      diff_entries toy_zisk (epoch_1 ?w) (epoch_2 ?w) (mutations ?w) = {(key_A, 32), (key_B, 16), (key_A, 48)}"
    unfolding w sample_old_registry_facts by (auto simp: diff_entries_def old new)
  have bind: "leaf_binding toy_zisk (registry_entries sample_old_registry 1 \<union>
      diff_entries toy_zisk (epoch_1 ?w) (epoch_2 ?w) (mutations ?w))"
    unfolding ents using toy_leaf_values sample_old_leaf
    by (auto simp: leaf_binding_def toy_hashes)
  have applied: "sample_registry =
      apply_mutations toy_zisk (epoch_2 ?w) 1 sample_old_registry (mutations ?w)"
    unfolding w by (simp add: new acc_position_def sib sample_old_registry_def)
      (auto simp: sample_registry_def)
  have "ed_accumulator_commitment (sample_diff_output zero32 zero32) =
      commitment toy_zisk (registry_root toy_zisk sample_registry 1) (of_nat (registry_total sample_registry 1))"
    using epoch_diff_refines_registry [OF sample_epoch_diff _ _ fine bind applied]
    by (simp add: w sample_old_registry_facts [unfolded One_nat_def])
  then show ?thesis by (simp add: sample_diff_output_def sample_registry_facts)
qed

text \<open>C36: The two SSZ openings of an epoch diff are independent of each other: an accepted diff stays
  accepted, with the same accumulator output, for every second state whose validator list opens the
  listed new leaves, whatever the list holds anywhere else. A validator that changed and is not
  listed is not noticed, so the diff proves the listed writes and no complete registry delta.\<close>

theorem epoch_diff_ignores_unlisted:
  assumes "verify_epoch_diff_with_depth Z w ssz_d d = Inr out"
    and "verify_ssz_multi_proof Z
      (map (\<lambda>m. (validator_hash_tree_root Z (new_field_leaves m), vm_index m)) (mutations w)) proof2 ssz_d =
      Inr data_root2"
  shows "verify_epoch_diff_with_depth Z
      (w\<lparr>ssz_multi_proof_2 := proof2, validators_list_length_2 := len2,
         state_to_validators_siblings_2 := siblings2,
         state_root_2 := compute_ssz_merkle_root Z (list_hash_tree_root Z data_root2 len2)
           BEACON_STATE_VALIDATORS_FIELD_INDEX siblings2\<rparr>) ssz_d d =
    Inr (out\<lparr>ed_state_root_2 := compute_ssz_merkle_root Z (list_hash_tree_root Z data_root2 len2)
           BEACON_STATE_VALIDATORS_FIELD_INDEX siblings2\<rparr>)"
proof -
  from assms(1) obtain st r1 r2 where
    fold: "fold_res (mutation_step Z (epoch_1 w) (epoch_2 w)) (diff_init w) (mutations w) = Inr st"
    and rest: "list_all (\<lambda>m. length (acc_siblings m) = d) (mutations w)"
      "verify_ssz_multi_proof Z (df_old_leaves st) (ssz_multi_proof_1 w) ssz_d = Inr r1"
      "compute_ssz_merkle_root Z (list_hash_tree_root Z r1 (validators_list_length_1 w))
         BEACON_STATE_VALIDATORS_FIELD_INDEX (state_to_validators_siblings_1 w) = state_root_1 w"
    and out: "out = \<lparr>ed_prev_accumulator_commitment = commitment Z (acc_root_1 w) (total_active_balance_1 w),
          ed_state_root_1 = state_root_1 w, ed_epoch_1 = epoch_1 w,
          ed_accumulator_commitment = commitment Z (df_acc_root st) (df_total st),
          ed_acc_root = df_acc_root st, ed_total_active_balance = df_total st,
          ed_state_root_2 = state_root_2 w, ed_epoch_2 = epoch_2 w\<rparr>"
    by (auto simp: verify_epoch_diff_with_depth_def Let_def)
  have "df_new_leaves st =
      map (\<lambda>m. (validator_hash_tree_root Z (new_field_leaves m), vm_index m)) (mutations w)"
    using mutation_steps_leaves(2) [OF fold] by (simp add: diff_init_def)
  then have second: "verify_ssz_multi_proof Z (df_new_leaves st) proof2 ssz_d = Inr data_root2"
    using assms(2) by simp
  have init: "diff_init (w\<lparr>ssz_multi_proof_2 := p, validators_list_length_2 := l,
      state_to_validators_siblings_2 := s, state_root_2 := r\<rparr>) = diff_init w" for p l s r
    by (simp add: diff_init_def)
  show ?thesis
    unfolding verify_epoch_diff_with_depth_def init using fold rest second by (simp add: out Let_def)
qed

theorem epoch_diff_ignores_unlisted_witness:
  "\<exists>out. verify_epoch_diff_with_depth toy_zisk (sample_diff_witness zero32 (replicate 32 1)) 1 1 = Inr out \<and>
     ed_accumulator_commitment out = ed_accumulator_commitment (sample_diff_output zero32 zero32)"
proof -
  let ?w = "sample_diff_witness zero32 zero32"
  have leaves: "map (\<lambda>m. (validator_hash_tree_root toy_zisk (new_field_leaves m), vm_index m)) (mutations ?w) =
      [(validator_hash_tree_root toy_zisk (sample_fields 48), 0)]"
    by (simp add: sample_diff_witness_def sample_mutation_def)
  have "verify_ssz_multi_proof toy_zisk
      (map (\<lambda>m. (validator_hash_tree_root toy_zisk (new_field_leaves m), vm_index m)) (mutations ?w))
      [replicate 32 1] 1 = Inr (sample_data_root (replicate 32 1) 48)"
    unfolding leaves
    by (simp add: verify_ssz_multi_proof_def batch_root_def batch_root_columns_def sample_data_root_def)
  from epoch_diff_ignores_unlisted [OF sample_epoch_diff this, of 2 "[zero32]"]
  show ?thesis
    by (simp add: sample_diff_witness_def sample_state_root_def)
qed

text \<open>A diff with no mutation is a panic, not an identity: an epoch in which no validator
  changes has no diff proof.\<close>

lemma epoch_diff_needs_mutations:
  assumes "mutations w = []"
  shows "verify_epoch_diff_with_depth Z w ssz_d d = Inl (DiffMerkle EmptyLeafSet)"
  using assms by (simp add: verify_epoch_diff_with_depth_def diff_init_def verify_ssz_multi_proof_def
      batch_root_def batch_root_columns_def)

lemma epoch_diff_needs_mutations_sample:
  "verify_epoch_diff toy_zisk ((sample_diff_witness zero32 zero32)\<lparr>mutations := []\<rparr>) =
     Inl (DiffMerkle EmptyLeafSet)"
  unfolding verify_epoch_diff_def by (rule epoch_diff_needs_mutations) simp

section \<open>The justification guest\<close>

text \<open>C37: The supermajority gate is exact on every pair of 64-bit balances: it is decided in 128
  bits, where neither product wraps.\<close>

theorem two_thirds_exact:
  "two_thirds attesting active \<longleftrightarrow> 2 * unat active \<le> 3 * unat attesting"
  by (rule two_thirds_nat)

section \<open>The finalization guest\<close>

text \<open>C17: What an accepted finalization links, when a proof comes with each output: both
  justifications are proved by the justification program and pinned to it, both are supermajorities,
  the second is of the next epoch and names the first as its source, the proved epoch diff carries
  the first's accumulator to the second's over exactly these two epochs, and the justified header
  records the finalized root and the diff's first state at the boundary slot.\<close>

theorem finalization_links:
  assumes "verify_finalization_with_slots Z w n = Inr out"
    and "length (justification_proofs w) = 2"
  shows "\<exists>je je1 diff. justification_outputs w = [je, je1] \<and> diff = fw_epoch_diff_output w \<and>
    (\<forall>(proof, just)\<in>set (zip (justification_proofs w) [je, je1]).
       baked_child Z proof JUSTIFICATION_PROGRAM_VK (jo_public_bytes just) = Inr True) \<and>
    (\<forall>just\<in>{je, je1}. justified just \<and> jo_program_vk just = JUSTIFICATION_PROGRAM_VK) \<and>
    jo_target_epoch je1 = jo_target_epoch je + 1 \<and>
    jo_source_epoch je1 = jo_target_epoch je \<and> jo_source_root je1 = jo_target_root je \<and>
    baked_child Z (fw_epoch_diff_proof w) EPOCH_DIFF_PROGRAM_VK (ed_public_bytes diff) = Inr True \<and>
    ed_prev_accumulator_commitment diff = jo_accumulator_commitment je \<and>
    ed_accumulator_commitment diff = jo_accumulator_commitment je1 \<and>
    ed_epoch_1 diff = jo_target_epoch je \<and> ed_epoch_2 diff = jo_target_epoch je1 \<and>
    open_boundary Z (fw_boundary w) (jo_target_epoch je) (jo_target_root je) (jo_target_root je1)
      (fo_finalized_state_root out) n = Inr () \<and>
    fo_finalized_epoch out = jo_target_epoch je \<and> fo_finalized_root out = jo_target_root je \<and>
    fo_finalized_state_root out = ed_state_root_1 diff \<and>
    fo_accumulator_commitment out = jo_accumulator_commitment je \<and>
    fo_next_accumulator_commitment out = jo_accumulator_commitment je1"
proof -
  from assms(1) obtain je je1 diff where
    o: "justification_outputs w = [je, je1]" "justified je" "justified je1"
    "diff = fw_epoch_diff_output w"
    and kids: "fold_res (justification_child Z) () (zip (justification_proofs w) [je, je1]) = Inr ()"
    and link: "jo_target_epoch je1 = jo_target_epoch je + 1"
    "jo_source_epoch je1 = jo_target_epoch je" "jo_source_root je1 = jo_target_root je"
    "baked_child Z (fw_epoch_diff_proof w) EPOCH_DIFF_PROGRAM_VK (ed_public_bytes diff) = Inr True"
    "ed_prev_accumulator_commitment diff = jo_accumulator_commitment je"
    "ed_accumulator_commitment diff = jo_accumulator_commitment je1"
    "ed_epoch_1 diff = jo_target_epoch je" "ed_epoch_2 diff = jo_target_epoch je1"
    "open_boundary Z (fw_boundary w) (jo_target_epoch je) (jo_target_root je) (jo_target_root je1)
       (ed_state_root_1 diff) n = Inr ()"
    and out: "out = \<lparr>fo_accumulator_commitment = jo_accumulator_commitment je,
          fo_next_accumulator_commitment = jo_accumulator_commitment je1,
          fo_finalized_epoch = jo_target_epoch je, fo_finalized_root = jo_target_root je,
          fo_finalized_state_root = ed_state_root_1 diff\<rparr>"
    by (rule verify_finalization_Inr)
  from two_elements [OF assms(2)] obtain p p1 where p: "justification_proofs w = [p, p1]" by blast
  have ch: "\<forall>(proof, just)\<in>set (zip (justification_proofs w) [je, je1]).
      baked_child Z proof JUSTIFICATION_PROGRAM_VK (jo_public_bytes just) = Inr True \<and>
      jo_program_vk just = JUSTIFICATION_PROGRAM_VK"
    using kids by (simp only: justification_children)
  then have "\<forall>just\<in>{je, je1}. justified just \<and> jo_program_vk just = JUSTIFICATION_PROGRAM_VK"
    using o(2,3) by (simp add: p)
  then show ?thesis
    using o(1,4) ch link by (intro exI [of _ je] exI [of _ je1] exI [of _ diff]) (simp add: out p)
qed

theorem finalization_links_witness:
  "\<exists>je je1. justification_outputs sample_finalization_witness = [je, je1] \<and>
     jo_source_root je1 = jo_target_root je \<and> jo_target_root je = fo_finalized_root sample_finalization_output"
proof -
  have "length (justification_proofs sample_finalization_witness) = 2"
    by (simp add: sample_finalization_witness_def)
  from finalization_links [OF sample_finalization [unfolded verify_finalization_def] this]
  show ?thesis by metis
qed

text \<open>C35: The guest pairs proofs and outputs with \<open>zip\<close> and does not compare their numbers: dropping
  the justification proofs of an accepted witness leaves it accepted with the same output, also
  after the balances, masks, committee roots and program keys of its outputs are rewritten. Without
  proofs, nothing a finalization says of its two justifications has been proved.\<close>

theorem finalization_without_proofs:
  assumes "verify_finalization_with_slots Z w n = Inr out"
  shows "verify_finalization_with_slots Z (w\<lparr>justification_proofs := [],
      justification_outputs := map (\<lambda>just. just\<lparr>jo_program_vk := vk, jo_attesting_balance := bal,
        jo_slots_mask := msk, jo_committee_root := croot\<rparr>) (justification_outputs w)\<rparr>) n = Inr out"
proof -
  obtain je je1 where two: "justification_outputs w = [je, je1]"
    and kids: "fold_res (justification_child Z) () (zip (justification_proofs w) [je, je1]) = Inr ()"
    using assms by (rule verify_finalization_Inr)
  have "verify_finalization_with_slots Z (w\<lparr>justification_proofs := [],
      justification_outputs := map (\<lambda>just. just\<lparr>jo_program_vk := vk, jo_attesting_balance := bal,
        jo_slots_mask := msk, jo_committee_root := croot\<rparr>) (justification_outputs w)\<rparr>) n =
    verify_finalization_with_slots Z w n"
    by (simp add: verify_finalization_with_slots_def Let_def two kids)
  then show ?thesis using assms by (rule trans)
qed

theorem finalization_without_proofs_witness:
  "verify_finalization toy_zisk (sample_finalization_witness\<lparr>justification_proofs := [],
      justification_outputs := map (\<lambda>just. just\<lparr>jo_program_vk := UNSET_VK, jo_attesting_balance := 0,
        jo_slots_mask := 0, jo_committee_root := ZERO\<rparr>) (justification_outputs sample_finalization_witness)\<rparr>) =
   Inr sample_finalization_output"
  unfolding verify_finalization_def
  by (rule finalization_without_proofs [OF sample_finalization [unfolded verify_finalization_def]])

section \<open>The final streaming guest\<close>

text \<open>C18: What an accepted final proof has established. The balance it counted is the running
  aggregate's plus every late group's plus the tail's, of aggregate, groups and tail that share no
  slot, and it is at least two thirds of the balance the accumulator commits to; the product of their
  Miller values exponentiates to one; aggregate and groups are proved under their pinned keys, for
  this accumulator, committee and pair of checkpoints, and open the Miller values they published. The
  previous epoch's justification is proved, complete, of the epoch before and against the accumulator
  the epoch diff starts from, and the finalized checkpoint is that justification's target, which
  every counted vote names as source.\<close>

theorem stream_final_links:
  assumes "verify_stream_final_with Z w d n = Inr out"
    and "(b0, m0, f0) = (case aggregate w of None \<Rightarrow> (0, 0, FP12_ONE)
      | Some agg \<Rightarrow> (ao_attesting_balance agg, ao_slots_mask agg, aggregate_miller w))"
    and "F = foldl (fp12_mul Z) f0 (sfw_group_millers w)"
    and "T = slot_set m0 \<union> (\<Union>g\<in>set (sfw_groups w). slot_set (gp_slots_mask g))"
  shows "\<exists>committee_root tail balance miller.
    stream_links Z w = Inr (sf_accumulator_commitment out, sf_finalized_state_root out, committee_root) \<and>
    (\<forall>agg. aggregate w = Some agg \<longrightarrow>
       baked_child Z (aggregate_proof w) AGGREGATE_PROGRAM_VK (ao_public_bytes agg) = Inr True \<and>
       ao_accumulator_commitment agg = sf_next_accumulator_commitment out \<and>
       ao_target_epoch agg = sf_justified_epoch out \<and>
       ao_checkpoint_digest agg = checkpoint_digest Z (sf_finalized_epoch out) (sf_finalized_root out)
         (sf_justified_epoch out) (sf_justified_root out) \<and>
       commit_fp12 Z f0 = ao_miller_commitment agg) \<and>
    length (sfw_group_proofs w) = length (sfw_groups w) \<and>
    map (commit_fp12 Z) (sfw_group_millers w) = map gp_miller_commitment (sfw_groups w) \<and>
    (\<forall>i<length (sfw_groups w). let g = sfw_groups w ! i in
       baked_child Z (sfw_group_proofs w ! i) GROUP_PROGRAM_VK (gp_public_bytes g) = Inr True \<and>
       gp_committee_root g = committee_root \<and>
       gp_accumulator_commitment g = sf_next_accumulator_commitment out \<and>
       gp_source_root g = sf_finalized_root out \<and> gp_target_root g = sf_justified_root out \<and>
       slot_set m0 \<inter> slot_set (gp_slots_mask g) = {}) \<and>
    sorted_wrt (\<lambda>g h. slot_set (gp_slots_mask g) \<inter> slot_set (gp_slots_mask h) = {}) (sfw_groups w) \<and>
    (case tail of
       None \<Rightarrow> sfw_tail w = [] \<and>
         balance = b0 + sum_list (map gp_attesting_balance (sfw_groups w)) \<and> miller = F
     | Some t \<Rightarrow> sfw_tail w \<noteq> [] \<and>
         verify_attestations Z (sfw_tail w) (sfw_acc_root w) (tail_acc_multi_proof w) committee_root
           (tail_committee_multi_proof w) (stream_link w) d = Inr t \<and> T \<inter> slot_set (att_mask t) = {} \<and>
         balance = b0 + sum_list (map gp_attesting_balance (sfw_groups w)) + att_balance t \<and>
         miller = fp12_mul Z F (att_miller t)) \<and>
    final_exp_is_one Z miller \<and> 2 * unat (sfw_total_active_balance w) \<le> 3 * unat balance \<and>
    commitment Z (sfw_acc_root w) (sfw_total_active_balance w) = sf_next_accumulator_commitment out \<and>
    previous_proved Z w = Inr () \<and> pj_is_justified (sfw_previous_justification w) \<and>
    pj_accumulator_commitment (sfw_previous_justification w) = sf_accumulator_commitment out \<and>
    sf_finalized_epoch out + 1 = sf_justified_epoch out \<and>
    stream_link w = \<lparr>vl_source_epoch = sf_finalized_epoch out, vl_source_root = sf_finalized_root out,
      vl_target_epoch = sf_justified_epoch out, vl_target_root = sf_justified_root out,
      vl_signing_domain = sfw_signing_domain w\<rparr> \<and>
    open_boundary Z (sfw_boundary w) (sf_finalized_epoch out) (sf_finalized_root out)
      (sf_justified_root out) (sf_finalized_state_root out) n = Inr ()"
proof -
  from assms(1) obtain committee_root start st balance miller P where
    links: "stream_links Z w =
       Inr (sf_accumulator_commitment out, sf_finalized_state_root out, committee_root)"
    and start: "case aggregate w of
       Some agg \<Rightarrow> running_aggregate Z w
         (checkpoint_digest Z (sf_finalized_epoch out) (sf_finalized_root out) (sf_justified_epoch out)
            (sf_justified_root out)) agg = Inr start
     | None \<Rightarrow> start = fold_open"
    and P: "P = \<lparr>fp_accumulator_commitment = sf_next_accumulator_commitment out,
        fp_committee_root = committee_root,
        fp_source_epoch = sf_finalized_epoch out, fp_source_root = sf_finalized_root out,
        fp_target_epoch = sf_justified_epoch out, fp_target_root = sf_justified_root out\<rparr>"
    and fold: "fold_res (group_step Z P) start
       (zip (sfw_groups w) (zip (sfw_group_proofs w) (sfw_group_millers w))) = Inr st"
    and tail: "absorb_tail Z w committee_root d st = Inr (balance, miller)"
    and rest: "final_exp_is_one Z miller" "two_thirds balance (sfw_total_active_balance w)"
    "previous_proved Z w = Inr ()" "pj_is_justified (sfw_previous_justification w)"
    "sf_finalized_epoch out + 1 = sf_justified_epoch out"
    "sf_finalized_epoch out = pj_target_epoch (sfw_previous_justification w)"
    "sf_finalized_root out = pj_target_root (sfw_previous_justification w)"
    "pj_accumulator_commitment (sfw_previous_justification w) = sf_accumulator_commitment out"
    "open_boundary Z (sfw_boundary w) (sf_finalized_epoch out) (sf_finalized_root out)
       (sf_justified_root out) (sf_finalized_state_root out) n = Inr ()"
    "sf_next_accumulator_commitment out = sfw_accumulator_commitment w"
    "commitment Z (sfw_acc_root w) (sfw_total_active_balance w) = sfw_accumulator_commitment w"
    "sf_justified_epoch out = sfw_target_epoch w" "sf_justified_root out = sfw_target_root w"
    and len: "length (sfw_groups w) = length (sfw_group_proofs w)"
    "length (sfw_groups w) = length (sfw_group_millers w)"
    by (rule verify_stream_final_Inr) blast
  have s0: "fs_balance start = b0" "fs_mask start = m0" "fs_miller start = f0"
    using start assms(2) by (auto simp: running_aggregate_Inr fold_open_def split: option.splits)
  note groups = group_lists_fold [OF fold len]
  have verified: "verify_group Z P (sfw_groups w ! i) (sfw_group_proofs w ! i) (sfw_group_millers w ! i) = Inr ()"
    if "i < length (sfw_groups w)" for i by (rule groups(6) [OF that])
  have commits: "map (commit_fp12 Z) (sfw_group_millers w) = map gp_miller_commitment (sfw_groups w)"
    using verified len by (intro nth_equalityI) (simp_all add: verify_group_Inr)
  have agg: "baked_child Z (aggregate_proof w) AGGREGATE_PROGRAM_VK (ao_public_bytes agg) = Inr True \<and>
       ao_accumulator_commitment agg = sf_next_accumulator_commitment out \<and>
       ao_target_epoch agg = sf_justified_epoch out \<and>
       ao_checkpoint_digest agg = checkpoint_digest Z (sf_finalized_epoch out) (sf_finalized_root out)
         (sf_justified_epoch out) (sf_justified_root out) \<and>
       commit_fp12 Z f0 = ao_miller_commitment agg" if "aggregate w = Some agg" for agg
    using start assms(2) rest(10,12) that by (simp add: running_aggregate_Inr)
  obtain tail where tailed: "case tail of
      None \<Rightarrow> sfw_tail w = [] \<and> balance = fs_balance st \<and> miller = fs_miller st
    | Some t \<Rightarrow> sfw_tail w \<noteq> [] \<and>
        verify_attestations Z (sfw_tail w) (sfw_acc_root w) (tail_acc_multi_proof w) committee_root
          (tail_committee_multi_proof w) (stream_link w) d = Inr t \<and>
        slot_set (fs_mask st) \<inter> slot_set (att_mask t) = {} \<and>
        balance = fs_balance st + att_balance t \<and> miller = fp12_mul Z (fs_miller st) (att_miller t)"
    using absorb_tail_counts [OF tail] by blast
  have each: "let g = sfw_groups w ! i in
       baked_child Z (sfw_group_proofs w ! i) GROUP_PROGRAM_VK (gp_public_bytes g) = Inr True \<and>
       gp_committee_root g = committee_root \<and>
       gp_accumulator_commitment g = sf_next_accumulator_commitment out \<and>
       gp_source_root g = sf_finalized_root out \<and> gp_target_root g = sf_justified_root out \<and>
       slot_set m0 \<inter> slot_set (gp_slots_mask g) = {}" if "i < length (sfw_groups w)" for i
    using verified [OF that] groups(3) that by (simp add: verify_group_Inr P s0 Let_def)
  have counted: "case tail of
       None \<Rightarrow> sfw_tail w = [] \<and>
         balance = b0 + sum_list (map gp_attesting_balance (sfw_groups w)) \<and> miller = F
     | Some t \<Rightarrow> sfw_tail w \<noteq> [] \<and>
         verify_attestations Z (sfw_tail w) (sfw_acc_root w) (tail_acc_multi_proof w) committee_root
           (tail_committee_multi_proof w) (stream_link w) d = Inr t \<and> T \<inter> slot_set (att_mask t) = {} \<and>
         balance = b0 + sum_list (map gp_attesting_balance (sfw_groups w)) + att_balance t \<and>
         miller = fp12_mul Z F (att_miller t)"
    using tailed groups(1,2,5) by (cases tail) (simp_all add: s0 assms(3,4))
  show ?thesis
    by (rule exI [of _ committee_root], rule exI [of _ tail], rule exI [of _ balance], rule exI [of _ miller],
      intro conjI allI impI)
      (rule counted each commits links groups(4) rest(1,3-5,8,9) agg [THEN conjunct1] | assumption
        | use agg rest len in \<open>simp add: two_thirds_nat stream_link_def\<close>)+
qed

theorem stream_final_links_witness:
  "\<exists>committee_root t.
     verify_attestations toy_zisk [sample_slot (link_to (sample_target sample_anchor))] sample_root [leaf_A]
       committee_root (replicate 5 ZERO) (stream_link sample_stream_witness) 1 = Inr t \<and>
     2 * 64 \<le> 3 * unat (att_balance t) \<and> final_exp_is_one toy_zisk (fp12_mul toy_zisk FP12_ONE (att_miller t)) \<and>
     pj_accumulator_commitment (Batch sample_finalized) = sf_accumulator_commitment sample_stream_output"
proof -
  let ?w = sample_stream_witness
  have w: "aggregate ?w = None" "sfw_groups ?w = []" "sfw_group_millers ?w = []"
    "sfw_tail ?w = [sample_slot (link_to (sample_target sample_anchor))]"
    "sfw_acc_root ?w = sample_root" "tail_acc_multi_proof ?w = [leaf_A]"
    "tail_committee_multi_proof ?w = replicate 5 ZERO" "sfw_total_active_balance ?w = 64"
    "sfw_previous_justification ?w = Batch sample_finalized"
    by (simp_all add: sample_stream_witness_def)
  have start: "(0, 0, FP12_ONE) = (case aggregate ?w of None \<Rightarrow> (0, 0, FP12_ONE)
      | Some agg \<Rightarrow> (ao_attesting_balance agg, ao_slots_mask agg, aggregate_miller ?w))"
    by (simp add: w)
  from stream_final_links [OF sample_stream_final start refl refl]
  show ?thesis by (auto simp: w split: option.splits) blast
qed

end
