(* ===== verification/FcrTypes.thy ===== *)
theory FcrTypes
  imports Types
begin

text \<open>
  \<open>crates/fcr-types/src/lib.rs\<close>: the witnesses and outputs of the fast-confirmation circuits and the
  bytes the outputs publish, and the functions of the third-party crate \<open>fast_confirmation\<close> that the
  circuits and the verifier call, a parameter as the zkVM's library is.
\<close>

section \<open>The fast confirmation crate\<close>

text \<open>
  \<open>fast_confirmation::arith\<close> and \<open>estimate_committee_weight_between_slots\<close>, which takes its slots per
  epoch as a type argument. A \<open>Result\<close> is an option: every caller turns the error into one value.
\<close>

record fast_confirmation =
  counts_toward_support :: "u64 \<Rightarrow> bool \<Rightarrow> bool \<Rightarrow> bool \<Rightarrow> bool \<Rightarrow> bool"
  estimate_committee_weight :: "u64 \<Rightarrow> u64 \<Rightarrow> u64 \<Rightarrow> u64 \<Rightarrow> u64 option"
  compute_proposer_score :: "u64 \<Rightarrow> u64 \<Rightarrow> u64 \<Rightarrow> u64 option"
  max_adversarial_weight :: "u64 \<Rightarrow> u64 \<Rightarrow> u64 option"
  adversarial_weight :: "u64 \<Rightarrow> u64 \<Rightarrow> u64"
  arith_safety_threshold :: "u64 \<Rightarrow> u64 \<Rightarrow> u64 \<Rightarrow> u64 \<Rightarrow> u64 option"
  is_one_confirmed :: "bool \<Rightarrow> u64 \<Rightarrow> u64 \<Rightarrow> bool"

section \<open>The batch circuit\<close>

record block_header_witness =
  bh_slot :: u64
  bh_proposer_index :: u64
  bh_parent_root :: bytes32
  bh_state_root :: bytes32
  bh_body_root :: bytes32

record fcr_slot_witness =
  fs_complement :: slot_complement_witness
  head_header :: "block_header_witness option"

record fcr_batch_witness =
  fb_accumulator_commitment :: digest
  fb_acc_root :: digest
  fb_total_active_balance :: u64
  fb_committee_root :: digest
  fb_acc_multi_proof :: "digest list"
  fb_committee_multi_proof :: "digest list"
  fb_signing_domain :: bytes32
  parent_head_root :: bytes32
  parent_head_slot :: u64
  fb_byzantine_threshold :: u64
  fb_proposer_score_boost :: u64
  current_slot :: u64
  fb_slots :: "fcr_slot_witness list"

record fcr_batch_output =
  bo_accumulator_commitment :: digest
  bo_committee_root :: digest
  bo_parent_head_root :: bytes32
  bo_head_root :: bytes32
  bo_head_slot :: u64
  bo_support :: u64
  bo_total_active_balance :: u64
  bo_first_slot :: u64
  bo_slot_count :: u64
  bo_threshold :: u64
  bo_confirmed :: bool
  bo_byzantine_threshold :: u64
  bo_proposer_score_boost :: u64
  bo_empty_slot_support :: u64

definition bo_public_bytes :: "fcr_batch_output \<Rightarrow> recursion_panic + bytes" where
  "bo_public_bytes out = pw_finish
     (pw_u64 (bo_empty_slot_support out)
     (pw_u64 (bo_proposer_score_boost out)
     (pw_u64 (bo_byzantine_threshold out)
     (pw_u64 (if bo_confirmed out then 1 else 0)
     (pw_u64 (bo_threshold out)
     (pw_u64 (bo_slot_count out)
     (pw_u64 (bo_first_slot out)
     (pw_u64 (bo_total_active_balance out)
     (pw_u64 (bo_support out)
     (pw_u64 (bo_head_slot out)
     (pw_bytes32 (bo_head_root out)
     (pw_bytes32 (bo_parent_head_root out)
     (pw_digest (bo_committee_root out)
     (pw_digest (bo_accumulator_commitment out) pw_new))))))))))))))"

definition wf_bo :: "fcr_batch_output \<Rightarrow> bool" where
  "wf_bo out \<longleftrightarrow> wf_digest (bo_accumulator_commitment out) \<and> wf_digest (bo_committee_root out) \<and>
     wf32 (bo_parent_head_root out) \<and> wf32 (bo_head_root out)"

section \<open>The committee circuit\<close>

record fcr_committee_witness =
  fc_accumulator_commitment :: digest
  fc_acc_root :: digest
  fc_total_active_balance :: u64
  fc_seed :: bytes32
  fc_epoch :: u64
  fc_active :: "opened_validator list"
  fc_acc_multi_proof :: "digest list"

record fcr_committee_output =
  fco_accumulator_commitment :: digest
  fco_seed :: bytes32
  fco_epoch :: u64
  fco_committee_root :: digest
  active_count :: u64

definition fco_public_bytes :: "fcr_committee_output \<Rightarrow> recursion_panic + bytes" where
  "fco_public_bytes out = pw_finish
     (pw_u64 (active_count out)
     (pw_digest (fco_committee_root out)
     (pw_u64 (fco_epoch out)
     (pw_bytes32 (fco_seed out)
     (pw_digest (fco_accumulator_commitment out) pw_new)))))"

definition wf_fco :: "fcr_committee_output \<Rightarrow> bool" where
  "wf_fco out \<longleftrightarrow> wf_digest (fco_accumulator_commitment out) \<and> wf32 (fco_seed out) \<and>
     wf_digest (fco_committee_root out)"

section \<open>The layouts determine the outputs\<close>

interpretation bo_public: public_output bo_public_bytes wf_bo 208
  by unfold_locales (auto simp: bo_public_bytes_def wf_bo_def public_simps split: if_splits)

interpretation fco_public: public_output fco_public_bytes wf_fco 112
  by unfold_locales (auto simp: fco_public_bytes_def wf_fco_def public_simps)

end
