(* ===== verification/FcrProof.thy ===== *)
theory FcrProof
  imports FcrTypes SlotProof
begin

text \<open>
  \<open>crates/fcr-proof-guest/src/lib.rs\<close>: a batch of consecutive slots, each counted by complement for
  the head of its own slot. Unlike the finality guests, a vote for another head leaves the support
  with its signers' balances, no checkpoint is pinned, and the threshold of the rule is computed by
  the third-party crate.

  The lemmas: an accepted batch covers a contiguous run of slots, its headers form a chain from the
  parent head, and what it counts is within the balances of the committees it opened.
\<close>

datatype fcr_batch_panic =
    FbCommitmentMismatch
  | BatchEmpty
  | SlotsNotContiguous
  | FbSlotPastTree
  | HeaderOffChain
  | HeaderNotAdvancing
  | FbNoPrimary
  | FbPrimaryNamesSigners
  | FbTwoMessages
  | MessageForOtherSlot
  | HeaderForOtherSlot
  | MinorityExceedsCommittee
  | FbSharedX
  | FbSecondaryNamesNobody
  | FbAbsentees slot_panic
  | FbCommitteeIdentity
  | FbNamedTwice
  | FbMerkle merkle_panic
  | FbAccRootMismatch
  | FbOpeningNothing
  | FbCommitteeMerkle merkle_panic
  | FbCommitteeRootMismatch
  | FbMiller miller_panic
  | FbPairingRejected
  | FbSignature
  | WeightOverflow
  | ProposerScoreOverflow
  | AdversarialOverflow
  | ThresholdOverflow

definition fb_message ::
  "zisk \<Rightarrow> bytes32 \<Rightarrow> attestation_witness list \<Rightarrow> g1_point \<Rightarrow> signed_message" where
  "fb_message Z domain aggregates aggregate_key =
     (let a = hd aggregates;
          data_root = attestation_data_root Z (data_slot a) (data_index a)
            (data_beacon_block_root a) (data_source_epoch a) (data_source_root a)
            (data_target_epoch a) (data_target_root a)
      in \<lparr>sm_pubkeys = [aggregate_key],
          sm_signing_root = compute_signing_root Z data_root domain,
          sm_signatures = map signature aggregates\<rparr>)"

text \<open>A minority head vote: its signers leave the derived key and the counted balance.\<close>

definition minority_signer ::
  "zisk \<Rightarrow> point_sum \<times> point_sum \<times> (digest \<times> u64) list \<times> u64 \<Rightarrow> opened_validator \<Rightarrow>
     fcr_batch_panic + point_sum \<times> point_sum \<times> (digest \<times> u64) list \<times> u64" where
  "minority_signer Z st v =
     (case st of (primary_key, keys, opened, counted) \<Rightarrow>
       bind_res (expect (point_sum_sub Z primary_key (ov_pubkey v)) FbSharedX) (\<lambda>primary_key'.
       bind_res (expect (point_sum_add Z keys (ov_pubkey v)) FbSharedX) (\<lambda>keys'.
       bind_res (expect (checked_sub counted (ov_balance v)) MinorityExceedsCommittee) (\<lambda>counted'.
       Inr (primary_key', keys', opened @ [opened_leaf Z v], counted')))))"

definition minority_step ::
  "zisk \<Rightarrow> bytes32 \<Rightarrow> point_sum \<times> (digest \<times> u64) list \<times> signed_message list \<times> u64 \<Rightarrow>
     attestation_witness \<Rightarrow>
     fcr_batch_panic + point_sum \<times> (digest \<times> u64) list \<times> signed_message list \<times> u64" where
  "minority_step Z domain st a =
     (case st of (primary_key, opened, messages, counted) \<Rightarrow>
       bind_res (fold_res (minority_signer Z) (primary_key, None, opened, counted)
         (attesting_validators a)) (\<lambda>(primary_key', keys, opened', counted').
       bind_res (expect keys FbSecondaryNamesNobody) (\<lambda>key.
       Inr (primary_key', opened', messages @ [fb_message Z domain [a] key], counted'))))"

record batch_state =
  bs_support :: u64
  bs_empty :: u64
  bs_opened :: "(digest \<times> u64) list"
  bs_committee_leaves :: "(digest \<times> u64) list"
  bs_messages :: "signed_message list"
  bs_head_root :: bytes32
  bs_head_slot :: u64
  bs_previous :: "u64 option"

text \<open>The head after a slot: a header must extend the one before it.\<close>

definition header_root :: "zisk \<Rightarrow> block_header_witness \<Rightarrow> bytes32" where
  "header_root Z h = block_header_root Z (bh_slot h) (bh_proposer_index h) (bh_parent_root h)
     (bh_state_root h) (bh_body_root h)"

definition advance_head ::
  "zisk \<Rightarrow> bytes32 \<times> u64 \<Rightarrow> block_header_witness option \<Rightarrow> fcr_batch_panic + bytes32 \<times> u64" where
  "advance_head Z head header =
     (case header of
        None \<Rightarrow> Inr head
      | Some h \<Rightarrow>
          ensure (bh_parent_root h = fst head) HeaderOffChain
         (ensure (bh_slot h > snd head) HeaderNotAdvancing
         (Inr (header_root Z h, bh_slot h))))"

definition batch_step ::
  "zisk \<Rightarrow> bytes32 \<Rightarrow> batch_state \<Rightarrow> fcr_slot_witness \<Rightarrow> fcr_batch_panic + batch_state" where
  "batch_step Z domain st e =
     (let sl = fs_complement e in
     ensure (case bs_previous st of Some p \<Rightarrow> slot_in_epoch sl = p + 1 | None \<Rightarrow> True) SlotsNotContiguous
    (ensure (slot_in_epoch sl < MAX_SLOTS) FbSlotPastTree
    (bind_res (advance_head Z (bs_head_root st, bs_head_slot st) (head_header e)) (\<lambda>(head, head_slot).
     ensure (primary sl \<noteq> []) FbNoPrimary
    (ensure (list_all (\<lambda>a. attesting_validators a = []) (primary sl)) FbPrimaryNamesSigners
    (ensure (list_all (\<lambda>a. same_data (hd (primary sl)) a) (tl (primary sl))) FbTwoMessages
    (ensure (data_slot (hd (primary sl)) mod SLOTS_PER_EPOCH = slot_in_epoch sl) MessageForOtherSlot
    (ensure (case head_header e of Some h \<Rightarrow> bh_slot h = data_slot (hd (primary sl)) | None \<Rightarrow> True)
       HeaderForOtherSlot
    (bind_res (fold_res (minority_step Z domain)
        (Some (ca_pubkey (committee sl)), bs_opened st, bs_messages st, ca_balance (committee sl))
        (secondary sl)) (\<lambda>(primary_key, opened, messages, counted).
     bind_res (map_err FbAbsentees
        (fold_res (absentee_step Z) (primary_key, opened, counted) (absentees sl)))
        (\<lambda>(primary_key', opened', counted').
     bind_res (expect primary_key' FbCommitteeIdentity) (\<lambda>key.
     let for_head = data_beacon_block_root (hd (primary sl)) = head in
     Inr \<lparr>bs_support = bs_support st + (if for_head \<and> head_header e \<noteq> None then counted' else 0),
          bs_empty = bs_empty st + (if for_head \<and> head_header e = None then counted' else 0),
          bs_opened = opened',
          bs_committee_leaves =
            bs_committee_leaves st @ [(committee_leaf Z (committee sl), slot_in_epoch sl)],
          bs_messages = messages @ [fb_message Z domain (primary sl) key],
          bs_head_root = head, bs_head_slot = head_slot,
          bs_previous = Some (slot_in_epoch sl)\<rparr>))))))))))))"

definition batch_init :: "fcr_batch_witness \<Rightarrow> batch_state" where
  "batch_init w = \<lparr>bs_support = 0, bs_empty = 0, bs_opened = [], bs_committee_leaves = [],
     bs_messages = [], bs_head_root = parent_head_root w, bs_head_slot = parent_head_slot w,
     bs_previous = None\<rparr>"

section \<open>The threshold\<close>

definition batch_threshold ::
  "fast_confirmation \<Rightarrow> fcr_batch_witness \<Rightarrow> u64 \<Rightarrow> fcr_batch_panic + u64" where
  "batch_threshold F w empty_support =
     bind_res (expect (estimate_committee_weight F SLOTS_PER_EPOCH (fb_total_active_balance w)
         (parent_head_slot w + 1) (current_slot w - 1)) WeightOverflow) (\<lambda>maximum_support.
     bind_res (expect (compute_proposer_score F (fb_total_active_balance w) SLOTS_PER_EPOCH
         (fb_proposer_score_boost w)) ProposerScoreOverflow) (\<lambda>proposer_score.
     bind_res (expect (max_adversarial_weight F maximum_support (fb_byzantine_threshold w))
         AdversarialOverflow) (\<lambda>weight.
     let adversarial = adversarial_weight F weight 0;
         support_discount = adversarial_weight F empty_support adversarial in
     expect (arith_safety_threshold F maximum_support proposer_score adversarial support_discount)
       ThresholdOverflow)))"

section \<open>The batch\<close>

definition batch_slots ::
  "zisk \<Rightarrow> fcr_batch_witness \<Rightarrow> nat \<Rightarrow> fcr_batch_panic + batch_state" where
  "batch_slots Z w acc_depth =
     ensure (commitment Z (fb_acc_root w) (fb_total_active_balance w) = fb_accumulator_commitment w)
       FbCommitmentMismatch
    (ensure (fb_slots w \<noteq> []) BatchEmpty
    (bind_res (fold_res (batch_step Z (fb_signing_domain w)) (batch_init w) (fb_slots w)) (\<lambda>st.
     let opened = sort_key snd (bs_opened st) in
     ensure (strictly_increasing (map snd opened)) FbNamedTwice
    (bind_res
       (if opened \<noteq> [] then
          bind_res (map_err FbMerkle (batch_root (compress Z) opened (fb_acc_multi_proof w) acc_depth))
            (\<lambda>r. ensure (r = fb_acc_root w) FbAccRootMismatch (Inr ()))
        else ensure (fb_acc_multi_proof w = []) FbOpeningNothing (Inr ())) (\<lambda>_.
     bind_res (map_err FbCommitteeMerkle
       (batch_root (compress Z) (bs_committee_leaves st) (fb_committee_multi_proof w) TREE_DEPTH)) (\<lambda>r.
     ensure (r = fb_committee_root w) FbCommitteeRootMismatch
    (bind_res (map_err FbMiller (miller_accumulator Z (bs_messages st))) (\<lambda>acc.
     bind_res (expect acc FbPairingRejected) (\<lambda>f.
     ensure (final_exp_is_one Z f) FbSignature (Inr st)))))))))) "

definition batch_output :: "fast_confirmation \<Rightarrow> fcr_batch_witness \<Rightarrow> batch_state \<Rightarrow> u64 \<Rightarrow> fcr_batch_output" where
  "batch_output F w st threshold =
     \<lparr>bo_accumulator_commitment = fb_accumulator_commitment w,
      bo_committee_root = fb_committee_root w,
      bo_parent_head_root = parent_head_root w,
      bo_head_root = bs_head_root st, bo_head_slot = bs_head_slot st,
      bo_support = bs_support st,
      bo_total_active_balance = fb_total_active_balance w,
      bo_first_slot = data_slot (hd (primary (fs_complement (hd (fb_slots w))))),
      bo_slot_count = of_nat (length (fb_slots w)),
      bo_threshold = threshold,
      bo_confirmed = is_one_confirmed F False (bs_support st) threshold,
      bo_byzantine_threshold = fb_byzantine_threshold w,
      bo_proposer_score_boost = fb_proposer_score_boost w,
      bo_empty_slot_support = bs_empty st\<rparr>"

definition verify_fcr_batch_with_depth ::
  "zisk \<Rightarrow> fast_confirmation \<Rightarrow> fcr_batch_witness \<Rightarrow> nat \<Rightarrow> fcr_batch_panic + fcr_batch_output" where
  "verify_fcr_batch_with_depth Z F w acc_depth =
     bind_res (batch_slots Z w acc_depth) (\<lambda>st.
     bind_res (batch_threshold F w (bs_empty st)) (\<lambda>threshold.
     Inr (batch_output F w st threshold)))"

definition verify_fcr_batch ::
  "zisk \<Rightarrow> fast_confirmation \<Rightarrow> fcr_batch_witness \<Rightarrow> fcr_batch_panic + fcr_batch_output" where
  "verify_fcr_batch Z F w = verify_fcr_batch_with_depth Z F w ACC_TREE_DEPTH"

section \<open>The closed form of an accepted batch\<close>

definition named_balance :: "slot_complement_witness \<Rightarrow> nat" where
  "named_balance sl = sum_list (map (\<lambda>v. unat (ov_balance v)) (named sl))"

definition slot_counted :: "slot_complement_witness \<Rightarrow> nat" where
  "slot_counted sl = unat (ca_balance (committee sl)) - named_balance sl"

definition head_after :: "zisk \<Rightarrow> bytes32 \<Rightarrow> fcr_slot_witness \<Rightarrow> bytes32" where
  "head_after Z head e = (case head_header e of None \<Rightarrow> head | Some h \<Rightarrow> header_root Z h)"

text \<open>What the votes for the head of their own slot add, over slots with or without a block.\<close>

definition slot_adds :: "zisk \<Rightarrow> bool \<Rightarrow> bytes32 \<Rightarrow> fcr_slot_witness \<Rightarrow> nat" where
  "slot_adds Z with_block head e =
     (if (head_header e \<noteq> None) = with_block \<and>
         data_beacon_block_root (hd (primary (fs_complement e))) = head_after Z head e
      then slot_counted (fs_complement e) else 0)"

fun head_support :: "zisk \<Rightarrow> bool \<Rightarrow> bytes32 \<Rightarrow> fcr_slot_witness list \<Rightarrow> nat" where
  "head_support Z with_block head [] = 0"
| "head_support Z with_block head (e # es) =
     slot_adds Z with_block head e + head_support Z with_block (head_after Z head e) es"

lemma head_support_snoc:
  "head_support Z b head (es @ [e]) = head_support Z b head es + slot_adds Z b (foldl (head_after Z) head es) e"
  by (induction es arbitrary: head) simp_all

lemma head_support_bound:
  "head_support Z True head es + head_support Z False head es \<le>
     sum_list (map (\<lambda>e. slot_counted (fs_complement e)) es)"
proof (induction es arbitrary: head)
  case (Cons e es)
  have "slot_adds Z True head e + slot_adds Z False head e \<le> slot_counted (fs_complement e)"
    by (simp add: slot_adds_def)
  then show ?case using Cons [of "head_after Z head e"] by simp
qed simp

lemma minority_signer_Inr:
  "minority_signer Z (pk, keys, opened, counted) v = Inr res \<longleftrightarrow>
     (\<exists>p k c. point_sum_sub Z pk (ov_pubkey v) = Some p \<and> point_sum_add Z keys (ov_pubkey v) = Some k \<and>
        checked_sub counted (ov_balance v) = Some c \<and> res = (p, k, opened @ [opened_leaf Z v], c))"
  by (auto simp: minority_signer_def)

lemma minority_step_Inr:
  "minority_step Z domain (pk, opened, msgs, counted) a = Inr res \<longleftrightarrow>
     (\<exists>p k opened' c. fold_res (minority_signer Z) (pk, None, opened, counted) (attesting_validators a) =
          Inr (p, Some k, opened', c) \<and> res = (p, opened', msgs @ [fb_message Z domain [a] k], c))"
  by (auto simp: minority_step_def)

lemma minority_signers:
  assumes "fold_res (minority_signer Z) (pk, keys, opened, counted) vs = Inr (pk', keys', opened', counted')"
  shows "opened' = opened @ map (opened_leaf Z) vs \<and>
    unat counted' + sum_list (map (\<lambda>v. unat (ov_balance v)) vs) = unat counted"
  using assms
proof (induction vs arbitrary: pk keys opened counted)
  case (Cons v vs)
  from Cons.prems obtain p k c where c: "checked_sub counted (ov_balance v) = Some c"
    and rest: "fold_res (minority_signer Z) (p, k, opened @ [opened_leaf Z v], c) vs =
      Inr (pk', keys', opened', counted')"
    by (auto simp: minority_signer_Inr)
  from Cons.IH [OF rest] unat_checked_sub [OF c] show ?case by simp
qed simp

lemma minority_steps:
  assumes "fold_res (minority_step Z domain) (pk, opened, msgs, counted) as = Inr (pk', opened', msgs', counted')"
  shows "opened' = opened @ map (opened_leaf Z) (concat (map attesting_validators as)) \<and>
    unat counted' + sum_list (map (\<lambda>v. unat (ov_balance v)) (concat (map attesting_validators as))) = unat counted"
  using assms
proof (induction "as" arbitrary: pk opened msgs counted)
  case (Cons a "as")
  from Cons.prems obtain p k o1 m c where
    one: "fold_res (minority_signer Z) (pk, None, opened, counted) (attesting_validators a) = Inr (p, k, o1, c)"
    and rest: "fold_res (minority_step Z domain) (p, o1, m, c) as = Inr (pk', opened', msgs', counted')"
    by (auto simp: minority_step_Inr)
  from Cons.IH [OF rest] minority_signers [OF one] show ?case by simp
qed simp

definition batch_summary :: "zisk \<Rightarrow> fcr_batch_witness \<Rightarrow> fcr_slot_witness list \<Rightarrow> batch_state \<Rightarrow> bool" where
  "batch_summary Z w es st \<longleftrightarrow>
     bs_previous st = (if es = [] then None else Some (slot_in_epoch (fs_complement (last es)))) \<and>
     (\<forall>i<length es. slot_in_epoch (fs_complement (es ! i)) =
        slot_in_epoch (fs_complement (hd es)) + of_nat i) \<and>
     (\<forall>e\<in>set es. unat (slot_in_epoch (fs_complement e)) < 32 \<and>
        named_balance (fs_complement e) \<le> unat (ca_balance (committee (fs_complement e))) \<and>
        data_slot (hd (primary (fs_complement e))) mod 32 = slot_in_epoch (fs_complement e)) \<and>
     (\<forall>i<length es. \<forall>h. head_header (es ! i) = Some h \<longrightarrow>
        bh_parent_root h = foldl (head_after Z) (parent_head_root w) (take i es) \<and>
        bh_slot h = data_slot (hd (primary (fs_complement (es ! i))))) \<and>
     bs_head_root st = foldl (head_after Z) (parent_head_root w) es \<and>
     bs_support st = of_nat (head_support Z True (parent_head_root w) es) \<and>
     bs_empty st = of_nat (head_support Z False (parent_head_root w) es) \<and>
     bs_opened st = map (opened_leaf Z) (concat (map (\<lambda>e. named (fs_complement e)) es)) \<and>
     bs_committee_leaves st =
       map (\<lambda>e. (committee_leaf Z (committee (fs_complement e)), slot_in_epoch (fs_complement e))) es"

lemma batch_step_Inr:
  assumes "batch_step Z domain st e = Inr st'"
  defines "sl \<equiv> fs_complement e"
  shows "case bs_previous st of Some p \<Rightarrow> slot_in_epoch sl = p + 1 | None \<Rightarrow> True"
    and "unat (slot_in_epoch sl) < 32" "bs_previous st' = Some (slot_in_epoch sl)"
    and "head_header e = Some h \<Longrightarrow> bh_parent_root h = bs_head_root st \<and> bh_slot h = data_slot (hd (primary sl))"
    and "bs_head_root st' = head_after Z (bs_head_root st) e"
    and "data_slot (hd (primary sl)) mod 32 = slot_in_epoch sl"
    and "named_balance sl \<le> unat (ca_balance (committee sl))"
    and "bs_support st' = bs_support st + of_nat (slot_adds Z True (bs_head_root st) e)"
    and "bs_empty st' = bs_empty st + of_nat (slot_adds Z False (bs_head_root st) e)"
    and "bs_opened st' = bs_opened st @ map (opened_leaf Z) (named sl)"
    and "bs_committee_leaves st' = bs_committee_leaves st @ [(committee_leaf Z (committee sl), slot_in_epoch sl)]"
proof -
  from assms(1) obtain head head_slot pk opened msgs counted pk' opened' counted' key where
    prev: "case bs_previous st of Some p \<Rightarrow> slot_in_epoch sl = p + 1 | None \<Rightarrow> True"
    and lt: "slot_in_epoch sl < MAX_SLOTS"
    and adv: "advance_head Z (bs_head_root st, bs_head_slot st) (head_header e) = Inr (head, head_slot)"
    and ds: "data_slot (hd (primary sl)) mod SLOTS_PER_EPOCH = slot_in_epoch sl"
    and hs: "case head_header e of Some h \<Rightarrow> bh_slot h = data_slot (hd (primary sl)) | None \<Rightarrow> True"
    and min: "fold_res (minority_step Z domain) (Some (ca_pubkey (committee sl)), bs_opened st, bs_messages st,
      ca_balance (committee sl)) (secondary sl) = Inr (pk, opened, msgs, counted)"
    and abs: "fold_res (absentee_step Z) (pk, opened, counted) (absentees sl) = Inr (pk', opened', counted')"
    and st': "st' = \<lparr>bs_support = bs_support st +
          (if data_beacon_block_root (hd (primary sl)) = head \<and> head_header e \<noteq> None then counted' else 0),
        bs_empty = bs_empty st +
          (if data_beacon_block_root (hd (primary sl)) = head \<and> head_header e = None then counted' else 0),
        bs_opened = opened',
        bs_committee_leaves = bs_committee_leaves st @ [(committee_leaf Z (committee sl), slot_in_epoch sl)],
        bs_messages = msgs @ [fb_message Z domain (primary sl) key],
        bs_head_root = head, bs_head_slot = head_slot, bs_previous = Some (slot_in_epoch sl)\<rparr>"
    unfolding sl_def by (auto simp: batch_step_def Let_def)
  have head: "head = head_after Z (bs_head_root st) e"
    and parent: "head_header e = Some h \<Longrightarrow> bh_parent_root h = bs_head_root st" for h
    using adv by (auto simp: advance_head_def head_after_def split: option.splits)
  note m = minority_steps [OF min]
  note a = absentee_steps [OF abs]
  have bal: "unat counted' + named_balance sl = unat (ca_balance (committee sl))"
    using m a by (simp add: named_balance_def named_def)
  have counted: "counted' = of_nat (slot_counted sl)"
    using bal by (simp add: slot_counted_def flip: bal)
  show "case bs_previous st of Some p \<Rightarrow> slot_in_epoch sl = p + 1 | None \<Rightarrow> True" by (rule prev)
  show "unat (slot_in_epoch sl) < 32"
    using lt by (simp add: MAX_SLOTS_def TREE_DEPTH_def word_less_nat_alt)
  show "bs_previous st' = Some (slot_in_epoch sl)" "bs_head_root st' = head_after Z (bs_head_root st) e"
    using head by (simp_all add: st')
  show "head_header e = Some h \<Longrightarrow> bh_parent_root h = bs_head_root st \<and> bh_slot h = data_slot (hd (primary sl))"
    using parent hs by simp
  show "data_slot (hd (primary sl)) mod 32 = slot_in_epoch sl" using ds by (simp add: SLOTS_PER_EPOCH_def)
  show "named_balance sl \<le> unat (ca_balance (committee sl))" using bal by simp
  show "bs_support st' = bs_support st + of_nat (slot_adds Z True (bs_head_root st) e)"
    and "bs_empty st' = bs_empty st + of_nat (slot_adds Z False (bs_head_root st) e)"
    using head counted by (auto simp: st' slot_adds_def sl_def)
  show "bs_opened st' = bs_opened st @ map (opened_leaf Z) (named sl)"
    using m a by (simp add: st' named_def)
  show "bs_committee_leaves st' = bs_committee_leaves st @ [(committee_leaf Z (committee sl), slot_in_epoch sl)]"
    by (simp add: st')
qed

lemma batch_step_summary:
  assumes "batch_summary Z w es st" "batch_step Z domain st e = Inr st'"
  shows "batch_summary Z w (es @ [e]) st'"
proof -
  note step = batch_step_Inr [OF assms(2)]
  have inv: "bs_previous st = (if es = [] then None else Some (slot_in_epoch (fs_complement (last es))))"
    "\<forall>i<length es. slot_in_epoch (fs_complement (es ! i)) = slot_in_epoch (fs_complement (hd es)) + of_nat i"
    "bs_head_root st = foldl (head_after Z) (parent_head_root w) es"
    using assms(1) by (simp_all add: batch_summary_def)
  have slots: "slot_in_epoch (fs_complement ((es @ [e]) ! i)) =
      slot_in_epoch (fs_complement (hd (es @ [e]))) + of_nat i" if "i < Suc (length es)" for i
  proof (cases "i < length es")
    case True
    then have "es \<noteq> []" by auto
    then show ?thesis using inv(2) True by (simp only: nth_append hd_append) simp
  next
    case False
    then have i: "i = length es" using that by simp
    show ?thesis
    proof (cases "es = []")
      case False
      then have "slot_in_epoch (fs_complement e) = slot_in_epoch (fs_complement (es ! (length es - 1))) + 1"
        using step(1) inv(1) by (simp add: last_conv_nth)
      also have "\<dots> = slot_in_epoch (fs_complement (hd es)) + of_nat (length es)"
        using inv(2) False by (cases es) auto
      finally show ?thesis using False by (simp add: i)
    qed (simp add: i)
  qed
  show ?thesis
    using assms(1) step slots unfolding batch_summary_def
    by (auto simp: head_support_snoc nth_append less_Suc_eq)
qed

lemma batch_steps_summary:
  assumes "fold_res (batch_step Z domain) (batch_init w) es = Inr st"
  shows "batch_summary Z w es st"
proof (rule fold_res_prefix_invariant [OF assms])
  show "batch_summary Z w [] (batch_init w)" by (simp add: batch_summary_def batch_init_def)
qed (rule batch_step_summary)

lemma batch_slots_Inr:
  assumes "batch_slots Z w d = Inr st"
  shows "batch_summary Z w (fb_slots w) st" "fb_slots w \<noteq> []"
    and "commitment Z (fb_acc_root w) (fb_total_active_balance w) = fb_accumulator_commitment w"
    and "batch_root (compress Z) (bs_committee_leaves st) (fb_committee_multi_proof w) 5 = Inr (fb_committee_root w)"
    and "strictly_increasing (map snd (sort_key snd (bs_opened st)))"
    and "bs_opened st \<noteq> [] \<Longrightarrow>
      batch_root (compress Z) (sort_key snd (bs_opened st)) (fb_acc_multi_proof w) d = Inr (fb_acc_root w)"
  using assms
  by (auto simp: batch_slots_def Let_def TREE_DEPTH_def intro: batch_steps_summary
      dest: arg_cong [where f = length] split: if_splits)

end
