(* ===== verification/Shuffle.thy ===== *)
theory Shuffle
  imports Ssz
begin

text \<open>
  The swap-or-not shuffle of \<open>crates/fcr-committee-guest/src/lib.rs\<close>, one validator at a time: the
  one-block SHA-256, the pivots, \<open>committee_position\<close> (a validator's place in the shuffled list) and
  its reference \<open>shuffled_index\<close>, and the slot of a position. A \<open>usize\<close> is a natural number: every
  quantity is below twice the length of a vector, which is below \<open>2 ^ 63\<close>.

  The lemmas: a round is an involution on the positions, so \<open>committee_position\<close> and
  \<open>shuffled_index\<close> are inverse bijections; a position's slot is the equal slice it falls in.
\<close>

section \<open>SHA-256 of a short message\<close>

definition u64_to_be_bytes :: "u64 \<Rightarrow> bytes" where
  "u64_to_be_bytes w = rev (u64_to_le_bytes w)"

definition short_block :: "bytes \<Rightarrow> bytes" where
  "short_block msg =
     take 56 (msg @ [0x80] @ replicate (63 - length msg) 0) @
     u64_to_be_bytes (of_nat (length msg) * 8)"

definition sha256_short :: "zisk \<Rightarrow> bytes \<Rightarrow> bytes32" where
  "sha256_short Z msg = state_bytes (syscall_sha256_f Z initial_state (block_words (short_block msg) 8))"

lemma length_state_bytes [simp]: "length (state_bytes st) = 32"
  by (simp add: state_bytes_def u32_to_be_bytes_def upt_four)

lemma length_sha256_short [simp]: "length (sha256_short Z msg) = 32"
  by (simp add: sha256_short_def)

section \<open>The rounds\<close>

definition ROUNDS :: nat where
  "ROUNDS = 90"

definition pivots :: "zisk \<Rightarrow> bytes32 \<Rightarrow> nat \<Rightarrow> u64 list" where
  "pivots Z seed n =
     map (\<lambda>r. u64_from_le_bytes (take 8 (sha256_short Z (seed @ [of_nat r]))) mod of_nat n) [0..<ROUNDS]"

text \<open>The round's bit at a position: one bit of the hash of the position's block of 256.\<close>

definition round_source :: "zisk \<Rightarrow> bytes32 \<Rightarrow> nat \<Rightarrow> nat \<Rightarrow> bytes32" where
  "round_source Z seed r position =
     sha256_short Z (seed @ [of_nat r] @ le_bytes 4 (of_nat (position div 256) :: u32))"

definition round_bit :: "bytes32 \<Rightarrow> nat \<Rightarrow> bool" where
  "round_bit source position \<longleftrightarrow>
     drop_bit (position mod 8) (source ! (position mod 256 div 8)) AND 1 = 1"

definition shuffle_round :: "zisk \<Rightarrow> bytes32 \<Rightarrow> nat \<Rightarrow> u64 list \<Rightarrow> nat \<Rightarrow> nat \<Rightarrow> nat" where
  "shuffle_round Z seed n pvs r index =
     (let flip = (unat (pvs ! r) + n - index) mod n;
          position = (if index > flip then index else flip);
          source = round_source Z seed r position
      in if round_bit source position then flip else index)"

definition committee_position :: "zisk \<Rightarrow> nat \<Rightarrow> nat \<Rightarrow> bytes32 \<Rightarrow> u64 list \<Rightarrow> nat" where
  "committee_position Z index n seed pvs =
     foldl (\<lambda>index r. shuffle_round Z seed n pvs r index) index (rev [0..<ROUNDS])"

definition shuffled_index :: "zisk \<Rightarrow> nat \<Rightarrow> nat \<Rightarrow> bytes32 \<Rightarrow> u64 list \<Rightarrow> nat" where
  "shuffled_index Z index n seed pvs =
     foldl (\<lambda>index r. shuffle_round Z seed n pvs r index) index [0..<ROUNDS]"

section \<open>The slots\<close>

definition slot_of_position :: "nat \<Rightarrow> nat \<Rightarrow> u64 \<Rightarrow> u64" where
  "slot_of_position p n spe =
     (let s = (spe * (of_nat p + 1) - 1) div of_nat n
      in if s \<ge> spe then spe - 1 else s)"

section \<open>A round is an involution\<close>

definition flip_of :: "nat \<Rightarrow> nat \<Rightarrow> nat \<Rightarrow> nat" where
  "flip_of n pivot index = (pivot + n - index) mod n"

lemma flip_below [simp]: "0 < n \<Longrightarrow> flip_of n pivot index < n"
  by (simp add: flip_of_def)

lemma flip_cases:
  "index < n \<Longrightarrow> pivot < n \<Longrightarrow>
     flip_of n pivot index = (if index \<le> pivot then pivot - index else pivot + n - index)"
  by (auto simp: flip_of_def mod_if)

lemma flip_flip: "index < n \<Longrightarrow> pivot < n \<Longrightarrow> flip_of n pivot (flip_of n pivot index) = index"
  by (simp add: flip_cases) linarith

lemma length_pivots [simp]: "length (pivots Z seed n) = ROUNDS"
  by (simp add: pivots_def)

lemma pivot_below:
  assumes "0 < n" "n < 2 ^ 64" "r < ROUNDS"
  shows "unat (pivots Z seed n ! r) < n"
proof -
  have n: "unat (of_nat n :: u64) = n" using assms(2) by (simp add: unat_of_nat)
  have "unat (w mod of_nat n :: u64) < n" for w
    unfolding unat_mod_distrib n using assms(1) by simp
  then show ?thesis using assms(3) by (simp add: pivots_def)
qed

lemma shuffle_round_flip:
  "shuffle_round Z seed n pvs r index =
     (let flip = flip_of n (unat (pvs ! r)) index; position = max index flip
      in if round_bit (round_source Z seed r position) position then flip else index)"
  by (simp add: shuffle_round_def flip_of_def max_def Let_def not_le)

lemma shuffle_round_below [simp]: "index < n \<Longrightarrow> shuffle_round Z seed n pvs r index < n"
  by (simp add: shuffle_round_flip Let_def)

lemma shuffle_round_involution:
  assumes "index < n" "unat (pvs ! r) < n"
  shows "shuffle_round Z seed n pvs r (shuffle_round Z seed n pvs r index) = index"
  using flip_flip [OF assms] by (simp add: shuffle_round_flip Let_def max.commute)

text \<open>Rounds that are involutions, run forwards and then backwards, cancel.\<close>

lemma foldl_cancel:
  assumes "\<And>r x. r \<in> set rs \<Longrightarrow> x \<in> A \<Longrightarrow> f x r \<in> A \<and> f (f x r) r = x" "x \<in> A"
  shows "foldl f (foldl f x rs) (rev rs) = x" "foldl f x rs \<in> A"
  using assms by (induction rs arbitrary: x) auto

lemma rounds_cancel:
  assumes "0 < n" "n < 2 ^ 64" "index < n"
  shows "committee_position Z (shuffled_index Z index n seed (pivots Z seed n)) n seed (pivots Z seed n) = index"
    and "shuffled_index Z (committee_position Z index n seed (pivots Z seed n)) n seed (pivots Z seed n) = index"
    and "committee_position Z index n seed (pivots Z seed n) < n"
    and "shuffled_index Z index n seed (pivots Z seed n) < n"
proof -
  let ?f = "\<lambda>index r. shuffle_round Z seed n (pivots Z seed n) r index"
  have step: "?f x r \<in> {..<n} \<and> ?f (?f x r) r = x" if "r \<in> {..<ROUNDS}" "x \<in> {..<n}" for r x
    using that shuffle_round_involution pivot_below [OF assms(1,2)] by simp
  have fold: "foldl ?f (foldl ?f index rs) (rev rs) = index \<and> foldl ?f index rs \<in> {..<n}"
    if "set rs = {..<ROUNDS}" for rs
    using foldl_cancel [of rs "{..<n}" ?f index] step assms(3) unfolding that by blast
  have "set [0..<ROUNDS] = {..<ROUNDS}" "set (rev [0..<ROUNDS]) = {..<ROUNDS}"
    by (auto simp: atLeast0LessThan)
  then show "committee_position Z (shuffled_index Z index n seed (pivots Z seed n)) n seed (pivots Z seed n) = index"
    and "shuffled_index Z (committee_position Z index n seed (pivots Z seed n)) n seed (pivots Z seed n) = index"
    and "committee_position Z index n seed (pivots Z seed n) < n"
    and "shuffled_index Z index n seed (pivots Z seed n) < n"
    unfolding committee_position_def shuffled_index_def
    using fold [of "[0..<ROUNDS]"] fold [of "rev [0..<ROUNDS]"] by simp_all
qed

section \<open>A slot is a slice\<close>

text \<open>
  A position's slot is the one whose slice of the shuffled list it falls in; the cut of an
  oversized quotient never applies.
\<close>

lemma slot_of_position_nat:
  assumes "p < n" "0 < unat spe" "unat spe * n < 2 ^ 64"
  shows "unat (slot_of_position p n spe) = (unat spe * (p + 1) - 1) div n"
    and "(unat spe * (p + 1) - 1) div n < unat spe"
proof -
  let ?k = "unat spe * (p + 1)"
  have k: "1 \<le> ?k" "?k \<le> unat spe * n"
    using assms(1,2) by (simp, intro mult_le_mono2, simp)
  have "n \<le> unat spe * n" using assms(2) by simp
  then have n: "n < 2 ^ 64" using assms(3) by linarith
  have "spe * (of_nat p + 1) = of_nat ?k" by (simp add: distrib_left)
  then have "spe * (of_nat p + 1) - 1 = of_nat (?k - 1)" using k(1) by (simp only: of_nat_diff of_nat_1)
  moreover have "?k - 1 < 2 ^ 64" using k assms(3) by linarith
  then have "unat (of_nat (?k - 1) :: u64) = ?k - 1" "unat (of_nat n :: u64) = n"
    using n by (simp_all only: unat_of_nat) simp_all
  ultimately have "unat ((spe * (of_nat p + 1) - 1) div of_nat n) = (?k - 1) div n"
    by (simp only: unat_div_distrib)
  moreover show below: "(?k - 1) div n < unat spe"
    using k assms(1) by (simp add: div_less_iff_less_mult)
  ultimately show "unat (slot_of_position p n spe) = (?k - 1) div n"
    by (simp add: slot_of_position_def Let_def word_le_nat_alt)
qed

lemma slice_nat:
  assumes "p < n" "0 < (spe :: nat)"
  shows "(spe * (p + 1) - 1) div n = s \<longleftrightarrow> n * s div spe \<le> p \<and> p < n * (s + 1) div spe"
proof -
  let ?k = "spe * (p + 1)"
  have "(?k - 1) div n = s \<longleftrightarrow> s * n \<le> ?k - 1 \<and> ?k - 1 < (s + 1) * n"
    using assms(1) less_eq_div_iff_mult_less_eq [of n s "?k - 1"] div_less_iff_less_mult [of n "?k - 1" "s + 1"]
    by auto
  also have "\<dots> \<longleftrightarrow> n * s < ?k \<and> ?k \<le> n * (s + 1)"
    using assms(2) by (auto simp: mult.commute)
  also have "n * s < ?k \<longleftrightarrow> n * s div spe < p + 1"
    using assms(2) by (simp add: div_less_iff_less_mult mult.commute)
  also have "?k \<le> n * (s + 1) \<longleftrightarrow> p + 1 \<le> n * (s + 1) div spe"
    using assms(2) by (simp add: less_eq_div_iff_mult_less_eq mult.commute)
  finally show ?thesis by auto
qed

lemma slot_slice:
  assumes "p < n" "0 < unat spe" "unat spe * n < 2 ^ 64"
  shows "unat (slot_of_position p n spe) = s \<longleftrightarrow>
    n * s div unat spe \<le> p \<and> p < n * (s + 1) div unat spe"
  unfolding slot_of_position_nat(1) [OF assms] by (rule slice_nat [OF assms(1,2)])

end
