(* ===== verification/ShuffleList.thy ===== *)
theory ShuffleList
  imports Shuffle
begin

text \<open>
  The whole-list shuffle of \<open>crates/fcr-rule-guest/src/lib.rs\<close>: \<open>shuffle_list\<close> runs swap-or-not over a
  list and hashes once per 256 positions, keeping the current hash and its current byte between
  iterations; \<open>assignment_table\<close> cuts the shuffled list into committees. SHA-256 is the syscall's, as
  in the zkVM build. \<open>j & 0xff\<close>, \<open>j >> 8\<close> on a \<open>usize\<close> are \<open>mod 256\<close>, \<open>div 256\<close>.

  The lemmas: the padding loop stops and gives whole blocks; the cached hash and byte are always
  those of the position at hand, so a round permutes the list by the round of the per-index
  shuffle, and the whole is the list read at \<open>shuffled_index\<close>.
\<close>

section \<open>SHA-256 by the compression syscall\<close>

lemma pad_count: "(120 - m) mod 64 = (if m \<le> 56 then 56 - m else 120 - m)" if "m < 64" for m :: nat
proof (cases "m \<le> 56")
  case True
  then have "120 - m = 64 + (56 - m)" by simp
  then have "(120 - m) mod 64 = (56 - m) mod 64" by (simp only: mod_add_self1)
  then show ?thesis using True by simp
qed simp

lemma pad_count_step:
  assumes "m < 64" "m \<noteq> (56::nat)"
  shows "(120 - m) mod 64 = Suc ((120 - (if Suc m = 64 then 0 else Suc m)) mod 64)"
proof -
  consider "m < 56" | "56 < m" "m < 63" | "m = 63" using assms by linarith
  then show ?thesis
  proof cases
    case 1
    then show ?thesis using pad_count [of m] pad_count [of "Suc m"] by (simp split: if_splits)
  qed (simp_all add: pad_count)
qed

lemma pad_count_Suc:
  "L mod 64 \<noteq> (56::nat) \<Longrightarrow> (120 - L mod 64) mod 64 = Suc ((120 - Suc L mod 64) mod 64)"
  using pad_count_step [of "L mod 64"] by (simp add: mod_Suc)

function pad_zeros :: "bytes \<Rightarrow> bytes" where
  "pad_zeros padded = (if length padded mod 64 = 56 then padded else pad_zeros (padded @ [0]))"
  by pat_completeness auto
termination
  by (relation "measure (\<lambda>padded. (120 - length padded mod 64) mod 64)") (simp_all add: pad_count_Suc)

declare pad_zeros.simps [simp del]

fun chunks_exact :: "nat \<Rightarrow> 'a list \<Rightarrow> 'a list list" where
  "chunks_exact n xs =
     (if n = 0 \<or> length xs < n then [] else take n xs # chunks_exact n (drop n xs))"

declare chunks_exact.simps [simp del]

definition sha256_padded :: "bytes \<Rightarrow> bytes" where
  "sha256_padded data = pad_zeros (data @ [0x80]) @ u64_to_be_bytes (of_nat (length data) * 8)"

definition sha256_syscall :: "zisk \<Rightarrow> bytes \<Rightarrow> bytes32" where
  "sha256_syscall Z data =
     state_bytes (foldl (\<lambda>state chunk. syscall_sha256_f Z state (block_words chunk 8))
       initial_state (chunks_exact 64 (sha256_padded data)))"

lemma pad_zeros_eq:
  "pad_zeros padded = padded @ replicate ((120 - length padded mod 64) mod 64) 0"
proof (induction padded rule: pad_zeros.induct)
  case (1 padded)
  show ?case
  proof (cases "length padded mod 64 = 56")
    case False
    then have "pad_zeros padded = pad_zeros (padded @ [0])" by (simp add: pad_zeros.simps [of padded])
    then show ?thesis using 1 [OF False] pad_count_Suc [OF False] by simp
  qed (simp add: pad_zeros.simps)
qed

lemma length_u64_to_be_bytes [simp]: "length (u64_to_be_bytes w) = 8"
  by (simp add: u64_to_be_bytes_def)

lemma sha256_padded_blocks: "length (sha256_padded data) mod 64 = 0"
proof -
  have "(L + (120 - L mod 64) mod 64) mod 64 = 56" for L :: nat
  proof -
    have "(L mod 64 + (120 - L mod 64) mod 64) mod 64 = 56"
    proof (cases "L mod 64 \<le> 56")
      case False
      then have "L mod 64 + (120 - L mod 64) = 120" by simp
      then show ?thesis using False by (simp add: pad_count)
    qed (simp add: pad_count)
    then show ?thesis by (simp add: mod_add_left_eq)
  qed
  from this [of "length (data @ [0x80])"]
  have "length (pad_zeros (data @ [0x80])) mod 64 = 56" by (simp add: pad_zeros_eq)
  then show ?thesis unfolding sha256_padded_def by (simp add: mod_add_eq [symmetric, of _ 8 64])
qed

lemma sha256_syscall_short:
  assumes "length data \<le> 55"
  shows "sha256_syscall Z data = sha256_short Z data"
proof -
  have "sha256_padded data = data @ [0x80] @ replicate (55 - length data) 0 @
      u64_to_be_bytes (of_nat (length data) * 8)"
    using assms pad_count [of "Suc (length data)"] by (simp add: sha256_padded_def pad_zeros_eq)
  also have "\<dots> = short_block data"
    using assms by (simp add: short_block_def take_Cons' min_def)
  finally have pad: "sha256_padded data = short_block data" .
  have "length (short_block data) = 64" by (simp add: short_block_def)
  then have "chunks_exact 64 (short_block data) = [short_block data]"
    by (simp add: chunks_exact.simps [of 64])
  then show ?thesis by (simp add: sha256_syscall_def sha256_short_def pad)
qed

section \<open>The list shuffle\<close>

definition list_source :: "zisk \<Rightarrow> bytes32 \<Rightarrow> nat \<Rightarrow> nat \<Rightarrow> bytes32" where
  "list_source Z seed r j =
     sha256_syscall Z (seed @ [of_nat r] @ le_bytes 4 (of_nat (j div 256) :: u32))"

definition swap :: "'a list \<Rightarrow> nat \<Rightarrow> nat \<Rightarrow> 'a list" where
  "swap xs i j = xs[i := xs ! j, j := xs ! i]"

text \<open>One iteration: refresh the cached hash and byte where \<open>j\<close> enters them, then swap on its bit.\<close>

definition pair_step ::
  "zisk \<Rightarrow> bytes32 \<Rightarrow> nat \<Rightarrow> 'a list \<times> bytes32 \<times> u8 \<Rightarrow> nat \<times> nat \<Rightarrow> 'a list \<times> bytes32 \<times> u8" where
  "pair_step Z seed r st ij =
     (case st of (xs, source, byte_v) \<Rightarrow> case ij of (i, j) \<Rightarrow>
        let source = (if j mod 256 = 255 then list_source Z seed r j else source);
            byte_v = (if j mod 8 = 7 then source ! (j mod 256 div 8) else byte_v)
        in (if drop_bit (j mod 8) byte_v AND 1 = 1 then swap xs i j else xs, source, byte_v))"

definition pair_loop ::
  "zisk \<Rightarrow> bytes32 \<Rightarrow> nat \<Rightarrow> nat \<Rightarrow> (nat \<times> nat) list \<Rightarrow> 'a list \<Rightarrow> 'a list" where
  "pair_loop Z seed r start pairs xs =
     (let source = list_source Z seed r start;
          byte_v = source ! (start mod 256 div 8)
      in fst (foldl (pair_step Z seed r) (xs, source, byte_v) pairs))"

definition list_round :: "zisk \<Rightarrow> bytes32 \<Rightarrow> nat \<Rightarrow> 'a list \<Rightarrow> 'a list" where
  "list_round Z seed r xs =
     (let list_size = length xs;
          pivot = unat (u64_from_le_bytes (take 8 (sha256_syscall Z (seed @ [of_nat r]))) mod of_nat list_size);
          mirror = (pivot + 1) div 2;
          xs = pair_loop Z seed r pivot (map (\<lambda>i. (i, pivot - i)) [0..<mirror]) xs;
          mirror = (pivot + list_size + 1) div 2;
          end = list_size - 1
      in pair_loop Z seed r end
           (map (\<lambda>loop_iter. (pivot + 1 + loop_iter, end - loop_iter)) [0..<mirror - (pivot + 1)]) xs)"

text \<open>The rounds, for \<open>rounds\<close> at least one: up from 0, or down from \<open>rounds - 1\<close>.\<close>

definition shuffle_list :: "zisk \<Rightarrow> 'a list \<Rightarrow> nat \<Rightarrow> bytes32 \<Rightarrow> bool \<Rightarrow> 'a list" where
  "shuffle_list Z input rounds seed forwards =
     (if input = [] then input
      else foldl (\<lambda>xs r. list_round Z seed r xs) input
        (if forwards then [0..<rounds] else rev [0..<rounds]))"

section \<open>The cached hash is the position's\<close>

lemma length_swap [simp]: "length (swap xs i j) = length xs"
  by (simp add: swap_def)

definition plain_step :: "(nat \<Rightarrow> bool) \<Rightarrow> 'a list \<Rightarrow> nat \<times> nat \<Rightarrow> 'a list" where
  "plain_step c xs ij = (case ij of (i, j) \<Rightarrow> if c j then swap xs i j else xs)"

definition list_bit :: "zisk \<Rightarrow> bytes32 \<Rightarrow> nat \<Rightarrow> nat \<Rightarrow> bool" where
  "list_bit Z seed r j = round_bit (list_source Z seed r j) j"

lemma same_block:
  assumes "Suc j mod 256 \<noteq> 0"
  shows "list_source Z seed r j = list_source Z seed r (Suc j)"
  using assms by (simp add: list_source_def div_Suc)

lemma low_byte: "j mod 256 mod 8 = j mod (8::nat)"
  by (rule mod_mod_cancel) simp

lemma same_byte:
  assumes "Suc j mod 8 \<noteq> 0"
  shows "Suc j mod 256 = Suc (j mod 256)" and "Suc j mod 256 div 8 = j mod 256 div 8"
proof -
  have "Suc (j mod 256) mod 8 \<noteq> 0" using assms low_byte [of j] by (metis mod_Suc_eq)
  moreover show "Suc j mod 256 = Suc (j mod 256)"
    using calculation by (auto simp: mod_Suc [of j 256])
  ultimately show "Suc j mod 256 div 8 = j mod 256 div 8"
    by (simp add: div_Suc)
qed

lemma pair_step_cached:
  assumes "(if j mod 256 = 255 then list_source Z seed r j else source) = list_source Z seed r j"
    and "(if j mod 8 = 7 then list_source Z seed r j ! (j mod 256 div 8) else byte_v) =
      list_source Z seed r j ! (j mod 256 div 8)"
  shows "pair_step Z seed r (xs, source, byte_v) (i, j) =
    (plain_step (list_bit Z seed r) xs (i, j), list_source Z seed r j,
     list_source Z seed r j ! (j mod 256 div 8))"
  unfolding pair_step_def prod.case Let_def assms plain_step_def list_bit_def round_bit_def ..

text \<open>Positions are visited in descending order, so the loop is the one that hashes every time.\<close>

lemma pair_loop_cache:
  assumes "m \<le> Suc start"
  shows "foldl (pair_step Z seed r) (xs, list_source Z seed r start, list_source Z seed r start ! (start mod 256 div 8))
      (map (\<lambda>k. (a + k, start - k)) [0..<m]) =
    (foldl (plain_step (list_bit Z seed r)) xs (map (\<lambda>k. (a + k, start - k)) [0..<m]),
     list_source Z seed r (start - (m - 1)),
     list_source Z seed r (start - (m - 1)) ! ((start - (m - 1)) mod 256 div 8))"
  using assms
proof (induction m)
  case (Suc m)
  let ?j = "start - m" and ?prev = "start - (m - 1)"
  have prev: "m = 0 \<and> ?prev = ?j \<or> ?prev = Suc ?j" using Suc.prems by (cases m) auto
  have src: "(if ?j mod 256 = 255 then list_source Z seed r ?j else list_source Z seed r ?prev) =
      list_source Z seed r ?j"
    using prev same_block [of ?j Z seed r] by (auto simp: mod_Suc)
  have byte: "(if ?j mod 8 = 7 then list_source Z seed r ?j ! (?j mod 256 div 8)
      else list_source Z seed r ?prev ! (?prev mod 256 div 8)) = list_source Z seed r ?j ! (?j mod 256 div 8)"
    using prev same_block [of ?j Z seed r] same_byte [of ?j] by (auto simp: mod_Suc [of ?j 8])
  show ?case
    using Suc by (simp add: pair_step_cached [OF src byte, simplified])
qed simp

lemma pair_loop_plain:
  assumes "m \<le> Suc start"
  shows "pair_loop Z seed r start (map (\<lambda>k. (a + k, start - k)) [0..<m]) xs =
    foldl (plain_step (list_bit Z seed r)) xs (map (\<lambda>k. (a + k, start - k)) [0..<m])"
  unfolding pair_loop_def Let_def pair_loop_cache [OF assms] by simp

section \<open>A round of the list is a round of the positions\<close>

lemma length_plain_steps [simp]: "length (foldl (plain_step c) xs pairs) = length xs"
  by (induction pairs rule: rev_induct) (simp_all add: plain_step_def split: prod.split)

text \<open>Conditional swaps of disjoint pairs, read at a position: \<open>\<sigma>\<close> is what they do to positions.\<close>

lemma plain_steps_nth:
  assumes "distinct (map fst pairs @ map snd pairs)" "\<forall>(i, j)\<in>set pairs. i < length xs \<and> j < length xs"
    and "\<forall>(i, j)\<in>set pairs. \<sigma> i = (if c j then j else i) \<and> \<sigma> j = (if c j then i else j)"
    and "t < length xs"
  shows "foldl (plain_step c) xs pairs ! t =
    (if t \<in> fst ` set pairs \<union> snd ` set pairs then xs ! \<sigma> t else xs ! t)"
  using assms
proof (induction pairs arbitrary: t rule: rev_induct)
  case (snoc p pairs)
  obtain i j where p: "p = (i, j)" by (cases p)
  let ?ys = "foldl (plain_step c) xs pairs"
  have fresh: "i \<notin> fst ` set pairs \<union> snd ` set pairs" "j \<notin> fst ` set pairs \<union> snd ` set pairs" "i \<noteq> j"
    using snoc.prems(1) by (auto simp: p image_iff)
  have bounds: "i < length xs" "j < length xs" using snoc.prems(2) by (simp_all add: p)
  have IH: "?ys ! t = (if t \<in> fst ` set pairs \<union> snd ` set pairs then xs ! \<sigma> t else xs ! t)"
    if "t < length xs" for t
    using snoc.IH [OF _ _ _ that] snoc.prems(1-3) by (auto simp: p)
  have s: "\<sigma> i = (if c j then j else i)" "\<sigma> j = (if c j then i else j)"
    using snoc.prems(3) by (simp_all add: p)
  have "foldl (plain_step c) xs (pairs @ [p]) ! t = (if c j then swap ?ys i j else ?ys) ! t"
    by (simp add: p plain_step_def)
  also have "\<dots> = (if c j \<and> t = i then ?ys ! j else if c j \<and> t = j then ?ys ! i else ?ys ! t)"
    using bounds snoc.prems(4) fresh(3) by (auto simp: swap_def nth_list_update)
  finally show ?case
    using IH [OF bounds(1)] IH [OF bounds(2)] IH [OF snoc.prems(4)] fresh s by (auto simp: p)
qed simp

lemma pair_loop_nth:
  assumes "\<forall>k<m. a + k < start - k" "start < length xs"
    and "\<forall>k<m. \<sigma> (a + k) = (if list_bit Z seed r (start - k) then start - k else a + k) \<and>
      \<sigma> (start - k) = (if list_bit Z seed r (start - k) then a + k else start - k)"
    and "t < length xs"
  shows "pair_loop Z seed r start (map (\<lambda>k. (a + k, start - k)) [0..<m]) xs ! t =
    (if \<exists>k<m. t = a + k \<or> t = start - k then xs ! \<sigma> t else xs ! t)"
proof -
  let ?ps = "map (\<lambda>k. (a + k, start - k)) [0..<m]"
  have below: "k \<le> start" if "k < m" for k using assms(1) that by (cases "k \<le> start") auto
  have m: "m \<le> Suc start" using below [of "m - 1"] by (cases m) auto
  have last: "a + k < start - k'" if "k < m" "k' < m" for k k'
  proof (cases "k \<le> k'")
    case True
    then show ?thesis using assms(1) that(2) by (meson add_left_mono le_less_trans)
  next
    case False
    then have "start - k \<le> start - k'" by simp
    then show ?thesis using assms(1) that(1) by fastforce
  qed
  have "inj_on (\<lambda>k. start - k) {0..<m}"
  proof (rule inj_onI)
    fix x y assume "x \<in> {0..<m}" "y \<in> {0..<m}" "start - x = start - y"
    then show "x = y" using below [of x] below [of y] by simp
  qed
  moreover have "(\<lambda>k. a + k) ` {0..<m} \<inter> (\<lambda>k. start - k) ` {0..<m} = {}"
    using last by fastforce
  ultimately have "distinct (map fst ?ps @ map snd ?ps)"
    by (simp add: distinct_map comp_def)
  moreover have "\<forall>(i, j)\<in>set ?ps. i < length xs \<and> j < length xs"
    using assms(1,2) by fastforce
  moreover have "\<forall>(i, j)\<in>set ?ps. \<sigma> i = (if list_bit Z seed r j then j else i) \<and>
      \<sigma> j = (if list_bit Z seed r j then i else j)"
    using assms(3) by auto
  ultimately have "foldl (plain_step (list_bit Z seed r)) xs ?ps ! t =
      (if t \<in> fst ` set ?ps \<union> snd ` set ?ps then xs ! \<sigma> t else xs ! t)"
    by (rule plain_steps_nth) (rule assms(4))
  moreover have "t \<in> fst ` set ?ps \<union> snd ` set ?ps \<longleftrightarrow> (\<exists>k<m. t = a + k \<or> t = start - k)"
    by (auto simp: image_iff)
  ultimately show ?thesis by (simp only: pair_loop_plain [OF m])
qed

lemma length_pair_loop [simp]:
  "m \<le> Suc start \<Longrightarrow>
     length (pair_loop Z seed r start (map (\<lambda>k. (a + k, start - k)) [0..<m]) xs) = length xs"
  by (simp add: pair_loop_plain)

lemma less_half: "k < m div 2 \<longleftrightarrow> 2 * k + 2 \<le> m" for k m :: nat
  by linarith

lemma lower_pairs:
  "(\<exists>k<(p + 1) div 2. u = 0 + k \<or> u = p - k) \<longleftrightarrow> u \<le> p \<and> p - u \<noteq> (u :: nat)"
proof
  assume "u \<le> p \<and> p - u \<noteq> u"
  then show "\<exists>k<(p + 1) div 2. u = 0 + k \<or> u = p - k"
    by (intro exI [of _ "min u (p - u)"]) (auto simp: less_half min_def)
qed (auto simp: less_half)

lemma upper_pairs:
  assumes "p < n"
  shows "(\<exists>k<(p + n + 1) div 2 - (p + 1). u = (p + 1) + k \<or> u = (n - 1) - k) \<longleftrightarrow>
    p < u \<and> u < n \<and> p + n - u \<noteq> (u :: nat)"
proof
  assume u: "p < u \<and> u < n \<and> p + n - u \<noteq> u"
  then show "\<exists>k<(p + n + 1) div 2 - (p + 1). u = (p + 1) + k \<or> u = (n - 1) - k"
    by (intro exI [of _ "min (u - (p + 1)) (n - 1 - u)"]) (auto simp: less_diff_conv less_half min_def)
next
  assume "\<exists>k<(p + n + 1) div 2 - (p + 1). u = (p + 1) + k \<or> u = (n - 1) - k"
  then obtain k where "2 * (k + (p + 1)) + 2 \<le> p + n + 1" "u = (p + 1) + k \<or> u = (n - 1) - k"
    unfolding less_diff_conv less_half by blast
  then show "p < u \<and> u < n \<and> p + n - u \<noteq> u" by auto
qed

lemma list_source_eq:
  "length seed = 32 \<Longrightarrow> list_source Z seed r j = round_source Z seed r j"
  by (simp add: list_source_def round_source_def sha256_syscall_short)

lemma list_round_nth:
  assumes "length seed = 32" "xs \<noteq> []" "length xs < 2 ^ 64" "r < ROUNDS" "t < length xs"
  shows "length (list_round Z seed r xs) = length xs"
    and "list_round Z seed r xs ! t =
      xs ! shuffle_round Z seed (length xs) (pivots Z seed (length xs)) r t"
proof -
  let ?n = "length xs" and ?pvs = "pivots Z seed (length xs)"
  define pv where "pv = unat (?pvs ! r)"
  have pv: "unat (u64_from_le_bytes (take 8 (sha256_syscall Z (seed @ [of_nat r]))) mod of_nat ?n) = pv"
    using assms(1,4) by (simp add: pv_def pivots_def sha256_syscall_short)
  have pvn: "pv < ?n"
    unfolding pv_def using assms(2-4) by (intro pivot_below) auto
  let ?m1 = "(pv + 1) div 2" and ?m2 = "(pv + ?n + 1) div 2 - (pv + 1)"
  let ?ps1 = "map (\<lambda>k. (0 + k, pv - k)) [0..<?m1]"
  let ?ps2 = "map (\<lambda>k. ((pv + 1) + k, (?n - 1) - k)) [0..<?m2]"
  define ys where "ys = pair_loop Z seed r pv ?ps1 xs"
  have eq: "list_round Z seed r xs = pair_loop Z seed r (?n - 1) ?ps2 ys"
    by (simp add: list_round_def pv ys_def Let_def)
  let ?s = "shuffle_round Z seed ?n ?pvs r"
  have sigma: "?s i = (if list_bit Z seed r (max i (flip_of ?n pv i)) then flip_of ?n pv i else i)" for i
    by (simp add: shuffle_round_flip list_bit_def list_source_eq [OF assms(1)] Let_def pv_def)
  have len: "length ys = ?n"
    unfolding ys_def by (rule length_pair_loop) simp
  have lo: "flip_of ?n pv i = pv - i" if "i \<le> pv" for i using that pvn by (simp add: flip_cases)
  have hi: "flip_of ?n pv i = pv + ?n - i" if "pv < i" "i < ?n" for i using that pvn by (simp add: flip_cases)
  have first: "ys ! u = (if u \<le> pv then xs ! ?s u else xs ! u)" if u: "u < ?n" for u
  proof -
    have "ys ! u = (if \<exists>k<?m1. u = 0 + k \<or> u = pv - k then xs ! ?s u else xs ! u)"
      unfolding ys_def
    proof (rule pair_loop_nth)
      show "\<forall>k<?m1. ?s (0 + k) = (if list_bit Z seed r (pv - k) then pv - k else 0 + k) \<and>
          ?s (pv - k) = (if list_bit Z seed r (pv - k) then 0 + k else pv - k)"
        by (auto simp: sigma lo max_def)
    qed (use u pvn in auto)
    moreover have "(\<exists>k<?m1. u = 0 + k \<or> u = pv - k) \<longleftrightarrow> u \<le> pv \<and> pv - u \<noteq> u"
      by (rule lower_pairs)
    moreover have "?s u = u" if "u \<le> pv" "pv - u = u" using that by (simp add: sigma lo)
    ultimately show ?thesis by auto
  qed
  have m2: "?m2 \<le> Suc (?n - 1)" using pvn by linarith
  show "length (list_round Z seed r xs) = length xs"
    unfolding eq by (simp only: length_pair_loop [OF m2] len)
  have "pair_loop Z seed r (?n - 1) ?ps2 ys ! t =
      (if \<exists>k<?m2. t = (pv + 1) + k \<or> t = (?n - 1) - k then ys ! ?s t else ys ! t)"
  proof (rule pair_loop_nth)
    have flip: "flip_of ?n pv ((pv + 1) + k) = (?n - 1) - k" "flip_of ?n pv ((?n - 1) - k) = (pv + 1) + k"
      "max ((pv + 1) + k) ((?n - 1) - k) = (?n - 1) - k" if "k < ?m2" for k
      using that pvn by (simp_all add: hi)
    show "\<forall>k<?m2. ?s ((pv + 1) + k) =
        (if list_bit Z seed r ((?n - 1) - k) then (?n - 1) - k else (pv + 1) + k) \<and>
      ?s ((?n - 1) - k) = (if list_bit Z seed r ((?n - 1) - k) then (pv + 1) + k else (?n - 1) - k)"
      using flip by (simp only: sigma max.commute) simp
  qed (use assms(5) pvn len in auto)
  moreover have "(\<exists>k<?m2. t = (pv + 1) + k \<or> t = (?n - 1) - k) \<longleftrightarrow> pv < t \<and> pv + ?n - t \<noteq> t"
    using upper_pairs [OF pvn, of t] assms(5) by simp
  moreover have "?s t = t" if "pv < t" "pv + ?n - t = t" using that assms(5) by (simp add: sigma hi)
  moreover have "ys ! ?s t = xs ! ?s t" if "pv < t"
  proof -
    have "pv < flip_of ?n pv t" using that assms(5) pvn by (simp add: hi)
    then have "pv < ?s t" using that by (simp add: sigma)
    then show ?thesis using first [of "?s t"] assms(5) by simp
  qed
  ultimately show "list_round Z seed r xs ! t = xs ! ?s t"
    unfolding eq using first [OF assms(5)] assms(5) by (cases "pv < t") auto
qed

text \<open>Rounds from the last to the first compose to the per-index shuffle.\<close>

lemma list_rounds_nth:
  assumes "length seed = 32" "xs \<noteq> []" "length xs < 2 ^ 64" "set rs \<subseteq> {..<ROUNDS}" "t < length xs"
  shows "length (foldl (\<lambda>xs r. list_round Z seed r xs) xs (rev rs)) = length xs \<and>
    foldl (\<lambda>xs r. list_round Z seed r xs) xs (rev rs) ! t =
      xs ! foldl (\<lambda>i r. shuffle_round Z seed (length xs) (pivots Z seed (length xs)) r i) t rs"
  using assms(4,5)
proof (induction rs arbitrary: t)
  case (Cons r rs)
  let ?L = "foldl (\<lambda>xs r. list_round Z seed r xs) xs (rev rs)"
  have len: "length ?L = length xs" using Cons by simp
  then have ne: "?L \<noteq> []" "length ?L < 2 ^ 64" using assms(2,3) by auto
  have r: "r < ROUNDS" and t: "t < length ?L" using Cons.prems len by simp_all
  note one = list_round_nth [OF assms(1) ne r t, of Z, unfolded len]
  have "shuffle_round Z seed (length xs) (pivots Z seed (length xs)) r t < length xs"
    using Cons.prems(2) by simp
  from Cons.IH [OF _ this] Cons.prems(1) one show ?case by simp
qed simp

lemma shuffle_list_nth:
  assumes "length seed = 32" "length xs < 2 ^ 64" "t < length xs"
  shows "length (shuffle_list Z xs ROUNDS seed False) = length xs"
    and "shuffle_list Z xs ROUNDS seed False ! t =
      xs ! shuffled_index Z t (length xs) seed (pivots Z seed (length xs))"
proof -
  have ne: "xs \<noteq> []" using assms(3) by auto
  have "set [0..<ROUNDS] \<subseteq> {..<ROUNDS}" by auto
  note list_rounds_nth [OF assms(1) ne assms(2) this assms(3), of Z]
  then show "length (shuffle_list Z xs ROUNDS seed False) = length xs"
    and "shuffle_list Z xs ROUNDS seed False ! t =
      xs ! shuffled_index Z t (length xs) seed (pivots Z seed (length xs))"
    using ne by (simp_all add: shuffle_list_def shuffled_index_def)
qed

section \<open>The committees of an epoch\<close>

definition TARGET_COMMITTEE_SIZE :: nat where "TARGET_COMMITTEE_SIZE = 128"
definition MAX_COMMITTEES_PER_SLOT :: nat where "MAX_COMMITTEES_PER_SLOT = 64"
definition RULE_SLOTS_PER_EPOCH :: nat where "RULE_SLOTS_PER_EPOCH = 32"
definition NO_SLOT :: u32 where "NO_SLOT = - 1"

datatype table_panic = IndexOutOfTable

definition table_write :: "u32 \<Rightarrow> u32 list \<Rightarrow> u32 \<Rightarrow> table_panic + u32 list" where
  "table_write slot table v =
     ensure (unat v < length table) IndexOutOfTable (Inr (table[unat v := slot]))"

definition committee_slot :: "u64 \<Rightarrow> nat \<Rightarrow> nat \<Rightarrow> u32" where
  "committee_slot epoch_start per_slot c = ucast (epoch_start + of_nat (c div per_slot))"

definition committee_write ::
  "u32 list \<Rightarrow> u64 \<Rightarrow> nat \<Rightarrow> nat \<Rightarrow> nat \<Rightarrow> u32 list \<Rightarrow> nat \<Rightarrow> table_panic + u32 list" where
  "committee_write shuffled epoch_start committees_per_slot len count table c =
     (let start = len * c div count; end = len * (c + 1) div count;
          slot = committee_slot epoch_start committees_per_slot c
      in fold_res (table_write slot) table (take (end - start) (drop start shuffled)))"

definition committees_per_slot :: "nat \<Rightarrow> nat" where
  "committees_per_slot len =
     max 1 (min MAX_COMMITTEES_PER_SLOT (len div RULE_SLOTS_PER_EPOCH div TARGET_COMMITTEE_SIZE))"

definition assignment_table ::
  "zisk \<Rightarrow> u32 list \<Rightarrow> bytes32 \<Rightarrow> u64 \<Rightarrow> nat \<Rightarrow> table_panic + u32 list" where
  "assignment_table Z active seed epoch n =
     (let len = length active;
          per_slot = committees_per_slot len;
          count = per_slot * RULE_SLOTS_PER_EPOCH;
          shuffled = shuffle_list Z active ROUNDS seed False;
          table = replicate n NO_SLOT;
          epoch_start = epoch * of_nat RULE_SLOTS_PER_EPOCH
      in fold_res (committee_write shuffled epoch_start per_slot len count) table [0..<count])"

text \<open>The writes of one committee, and of them all: each active validator is written once.\<close>

lemma table_writes:
  assumes "\<forall>v\<in>set vs. unat v < length table"
  shows "fold_res (table_write slot) table vs =
    Inr (map (\<lambda>i. if i \<in> unat ` set vs then slot else table ! i) [0..<length table])"
  using assms
proof (induction vs arbitrary: table)
  case Nil
  then show ?case by (simp add: map_nth)
next
  case (Cons v vs)
  have "unat v < length table" using Cons.prems by simp
  moreover have "\<forall>w\<in>set vs. unat w < length (table[unat v := slot])" using Cons.prems by simp
  ultimately show ?case using Cons.IH by (auto simp: table_write_def nth_list_update)
qed

text \<open>The committee a position of the shuffled list falls in.\<close>

definition committee_of :: "nat \<Rightarrow> nat \<Rightarrow> nat \<Rightarrow> nat" where
  "committee_of count len p = (count * (p + 1) - 1) div len"

lemma set_slice:
  assumes "b \<le> length xs"
  shows "set (take (b - a) (drop a xs)) = (!) xs ` {a..<b}"
proof -
  have "take (b - a) (drop a xs) = map ((!) xs) [a..<b]"
    using assms by (intro nth_equalityI) auto
  then show ?thesis by simp
qed

lemma committee_writes:
  assumes "distinct shuffled" "\<forall>v\<in>set shuffled. unat v < n" "0 < count" "m \<le> count"
  shows "\<exists>T. fold_res (committee_write shuffled epoch_start per_slot (length shuffled) count)
        (replicate n NO_SLOT) [0..<m] = Inr T \<and> length T = n \<and>
      (\<forall>p<length shuffled * m div count.
         T ! unat (shuffled ! p) = committee_slot epoch_start per_slot (committee_of count (length shuffled) p)) \<and>
      (\<forall>i<n. i \<notin> unat ` (!) shuffled ` {..<length shuffled * m div count} \<longrightarrow> T ! i = NO_SLOT)"
  using assms(4)
proof (induction m)
  case 0
  then show ?case by simp
next
  case (Suc m)
  let ?len = "length shuffled"
  let ?a = "?len * m div count" and ?b = "?len * (m + 1) div count"
  from Suc obtain T where T: "fold_res (committee_write shuffled epoch_start per_slot ?len count)
        (replicate n NO_SLOT) [0..<m] = Inr T" "length T = n"
    and old: "\<forall>p<?a. T ! unat (shuffled ! p) = committee_slot epoch_start per_slot (committee_of count ?len p)"
    and rest: "\<forall>i<n. i \<notin> unat ` (!) shuffled ` {..<?a} \<longrightarrow> T ! i = NO_SLOT" by auto
  have ab: "?a \<le> ?b" by (intro div_le_mono) simp
  have "?b \<le> ?len * count div count" using Suc.prems by (intro div_le_mono mult_le_mono2) simp
  then have b: "?b \<le> ?len" using assms(3) by simp
  let ?vs = "take (?b - ?a) (drop ?a shuffled)"
  have vs: "set ?vs = (!) shuffled ` {?a..<?b}" by (rule set_slice [OF b])
  have "\<forall>v\<in>set ?vs. unat v < length T"
    using assms(2) b T(2) unfolding vs by auto
  from table_writes [OF this, of "committee_slot epoch_start per_slot m"] T
  have step: "fold_res (committee_write shuffled epoch_start per_slot ?len count)
        (replicate n NO_SLOT) [0..<Suc m] =
      Inr (map (\<lambda>i. if i \<in> unat ` (!) shuffled ` {?a..<?b} then committee_slot epoch_start per_slot m else T ! i) [0..<n])"
    (is "_ = Inr ?T") unfolding vs by (simp add: fold_res_append committee_write_def Let_def)
  have inj: "unat (shuffled ! p) \<in> unat ` (!) shuffled ` {?a..<?b} \<longleftrightarrow> p \<in> {?a..<?b}" if "p < ?len" for p
  proof -
    have "inj_on (\<lambda>p. unat (shuffled ! p)) {..<?len}"
      using assms(1) by (auto simp: inj_on_def word_unat_eq_iff [symmetric] nth_eq_iff_index_eq)
    moreover have "{?a..<?b} \<subseteq> {..<?len}" using b by auto
    ultimately show ?thesis
      using inj_on_image_mem_iff [of "\<lambda>p. unat (shuffled ! p)" "{..<?len}" p "{?a..<?b}"] that
      by (simp add: image_image)
  qed
  have new: "?T ! unat (shuffled ! p) = committee_slot epoch_start per_slot (committee_of count ?len p)" if p: "p < ?b" for p
  proof -
    have "p < ?len" using p b by simp
    moreover have "unat (shuffled ! p) < n" using assms(2) calculation by simp
    moreover have "committee_of count ?len p = m" if "?a \<le> p"
      unfolding committee_of_def slice_nat [OF \<open>p < ?len\<close> assms(3)] using that p by simp
    ultimately show ?thesis using inj old p by auto
  qed
  have "?T ! i = NO_SLOT" if "i < n" "i \<notin> unat ` (!) shuffled ` {..<?b}" for i
  proof -
    have "i \<notin> unat ` (!) shuffled ` {?a..<?b}" "i \<notin> unat ` (!) shuffled ` {..<?a}"
      using that(2) ab by auto
    then show ?thesis using that(1) rest by simp
  qed
  then show ?case using step new by (intro exI [of _ ?T]) simp
qed

lemma distinct_shuffle_list:
  assumes "length seed = 32" "length xs < 2 ^ 64" "distinct xs"
  shows "distinct (shuffle_list Z xs ROUNDS seed False)"
    and "set (shuffle_list Z xs ROUNDS seed False) = set xs"
proof -
  let ?n = "length xs" and ?f = "\<lambda>t. shuffled_index Z t (length xs) seed (pivots Z seed (length xs))"
  have n: "0 < ?n" if "t < ?n" for t by (rule le_less_trans [OF le0 that])
  have inj: "inj_on ?f {..<?n}"
    by (rule inj_on_inverseI [where g = "\<lambda>t. committee_position Z t ?n seed (pivots Z seed ?n)"])
      (use rounds_cancel(1) [OF n assms(2)] in auto)
  have into: "?f ` {..<?n} \<subseteq> {..<?n}" using rounds_cancel(4) [OF n assms(2)] by auto
  then have onto: "?f ` {..<?n} = {..<?n}" using inj by (intro endo_inj_surj) simp_all
  have eq: "shuffle_list Z xs ROUNDS seed False = map (\<lambda>t. xs ! ?f t) [0..<?n]"
  proof (cases "xs = []")
    case False
    then have "0 < ?n" by simp
    from shuffle_list_nth(1) [OF assms(1,2) this] show ?thesis
      by (intro nth_equalityI) (use shuffle_list_nth(2) [OF assms(1,2)] in auto)
  qed (simp add: shuffle_list_def)
  show "distinct (shuffle_list Z xs ROUNDS seed False)"
  proof -
    have "inj_on ((!) xs) (?f ` {..<?n})"
      unfolding onto by (rule inj_on_nth [OF assms(3)]) simp
    from comp_inj_on [OF inj this] show ?thesis
      unfolding eq by (simp add: distinct_map comp_def atLeast0LessThan)
  qed
  have "set (shuffle_list Z xs ROUNDS seed False) = (!) xs ` ?f ` {..<?n}"
    unfolding eq by (auto simp: atLeast0LessThan)
  then show "set (shuffle_list Z xs ROUNDS seed False) = set xs"
    unfolding onto by (auto simp: set_conv_nth)
qed

text \<open>A committee's slot is the slot of its positions.\<close>

lemma committee_slot_of_position:
  assumes "p < len" "0 < per_slot" "RULE_SLOTS_PER_EPOCH * len < 2 ^ 64"
  shows "committee_of (per_slot * RULE_SLOTS_PER_EPOCH) len p div per_slot =
    unat (slot_of_position p len 32)"
proof -
  let ?c = "committee_of (per_slot * RULE_SLOTS_PER_EPOCH) len p" and ?count = "per_slot * RULE_SLOTS_PER_EPOCH"
  have slice: "len * ?c div ?count \<le> p" "p < len * (?c + 1) div ?count"
    using slice_nat [OF assms(1), of ?count ?c] assms(2) by (simp_all add: committee_of_def RULE_SLOTS_PER_EPOCH_def)
  let ?s = "?c div per_slot"
  have cut: "len * (per_slot * s) div ?count = len * s div RULE_SLOTS_PER_EPOCH" for s
    using assms(2) by (simp add: mult.left_commute [of len] mult.assoc)
  have "len * ?s div RULE_SLOTS_PER_EPOCH \<le> len * ?c div ?count"
    unfolding cut [symmetric] by (intro div_le_mono mult_le_mono2) simp
  moreover have "len * (?c + 1) div ?count \<le> len * (?s + 1) div RULE_SLOTS_PER_EPOCH"
  proof -
    have "?c + 1 \<le> per_slot * (?s + 1)"
      using assms(2) by (simp add: Suc_leI dividend_less_times_div)
    then show ?thesis unfolding cut [symmetric] by (intro div_le_mono mult_le_mono2)
  qed
  ultimately have "len * ?s div RULE_SLOTS_PER_EPOCH \<le> p \<and> p < len * (?s + 1) div RULE_SLOTS_PER_EPOCH"
    using slice by linarith
  then have "unat (slot_of_position p len 32) = ?s"
    using slot_slice [OF assms(1), of 32 ?s] assms(3) by (simp add: RULE_SLOTS_PER_EPOCH_def)
  then show ?thesis by simp
qed

text \<open>
  The table of the rule's guest and the per-validator assignment of the committee guest agree.
\<close>

lemma assignment_table_slot:
  assumes "length seed = 32" "RULE_SLOTS_PER_EPOCH * length active < 2 ^ 64"
    and "distinct active" "\<forall>v\<in>set active. unat v < n"
  obtains T where "assignment_table Z active seed epoch n = Inr T" "length T = n"
    "\<And>k. k < length active \<Longrightarrow> T ! unat (active ! k) = ucast (epoch * 32 + slot_of_position
       (committee_position Z k (length active) seed (pivots Z seed (length active))) (length active) 32)"
    "\<And>i. i < n \<Longrightarrow> i \<notin> unat ` set active \<Longrightarrow> T ! i = NO_SLOT"
proof -
  let ?len = "length active" and ?per = "committees_per_slot (length active)"
  let ?count = "?per * RULE_SLOTS_PER_EPOCH" and ?sh = "shuffle_list Z active ROUNDS seed False"
  have fits: "?len < 2 ^ 64" using assms(2) by (simp add: RULE_SLOTS_PER_EPOCH_def)
  note sh = distinct_shuffle_list [OF assms(1) fits assms(3), of Z]
  have len: "length ?sh = ?len" using sh assms(3) by (metis distinct_card)
  have per: "0 < ?per" by (simp add: committees_per_slot_def)
  then have count: "0 < ?count" by (simp add: RULE_SLOTS_PER_EPOCH_def)
  from committee_writes [OF sh(1) _ count order.refl, of n "epoch * 32" ?per, unfolded sh(2) len, OF assms(4)]
  obtain T where T: "fold_res (committee_write ?sh (epoch * 32) ?per ?len ?count) (replicate n NO_SLOT)
      [0..<?count] = Inr T" "length T = n"
    and slots: "\<And>p. p < ?len \<Longrightarrow> T ! unat (?sh ! p) = committee_slot (epoch * 32) ?per (committee_of ?count ?len p)"
    and rest: "\<And>i. i < n \<Longrightarrow> i \<notin> unat ` (!) ?sh ` {..<?len} \<Longrightarrow> T ! i = NO_SLOT"
    using count by auto
  show thesis
  proof (rule that [OF _ T(2)])
    show "assignment_table Z active seed epoch n = Inr T"
      using T(1) by (simp add: assignment_table_def Let_def RULE_SLOTS_PER_EPOCH_def)
    fix k assume k: "k < ?len"
    let ?p = "committee_position Z k ?len seed (pivots Z seed ?len)"
    have pos: "0 < ?len" by (rule le_less_trans [OF le0 k])
    note cancel = rounds_cancel [OF pos fits k, of Z seed]
    have "?sh ! ?p = active ! k"
      using shuffle_list_nth(2) [OF assms(1) fits cancel(3), of Z] cancel(2) by simp
    then have "T ! unat (active ! k) = committee_slot (epoch * 32) ?per (committee_of ?count ?len ?p)"
      using slots [OF cancel(3)] by simp
    also have "\<dots> = ucast (epoch * 32 + of_nat (unat (slot_of_position ?p ?len 32)))"
      unfolding committee_slot_def committee_slot_of_position [OF cancel(3) per assms(2)] ..
    finally show "T ! unat (active ! k) = ucast (epoch * 32 + slot_of_position ?p ?len 32)" by simp
  next
    fix i assume "i < n" "i \<notin> unat ` set active"
    moreover have "(!) ?sh ` {..<?len} = set active"
      using sh(2) len by (auto simp: set_conv_nth)
    ultimately show "T ! i = NO_SLOT" using rest by simp
  qed
qed

end
