(* ===== verification/FcrCommittee.thy ===== *)
theory FcrCommittee
  imports FcrTypes ShuffleList Committee Registry
begin

text \<open>
  \<open>crates/fcr-committee-guest/src/lib.rs\<close>: the committee proof of the fast confirmation rule, which
  opens every active validator and computes the epoch's assignment in circuit.

  The lemmas: the three checks on the opened set pin it to the registry's active validators, each
  once and in index order; the bucket of a slot is the slice of the shuffled active set; hence the
  committee root is a function of the registry and the seed.
\<close>

datatype fcr_committee_panic =
    FcCommitmentMismatch
  | ActiveSetEmpty
  | FcTooManySlots
  | ActiveNotIncreasing
  | ActiveWithoutBalance
  | ActiveBalancesOverflow
  | ActiveSumMismatch
  | FcMerkle merkle_panic
  | FcAccRootMismatch
  | DoesNotCount
  | FcSlotOutOfRange
  | FcSharedX
  | FcIdentityCommittee
  | FcCommitteeTree committee_panic

definition active_step ::
  "zisk \<Rightarrow> (digest \<times> u64) list \<times> u64 \<times> u64 option \<Rightarrow> opened_validator \<Rightarrow>
     fcr_committee_panic + (digest \<times> u64) list \<times> u64 \<times> u64 option" where
  "active_step Z st v =
     (case st of (leaves, summed, previous) \<Rightarrow>
       ensure (case previous of Some p \<Rightarrow> ov_index v > p | None \<Rightarrow> True) ActiveNotIncreasing
      (ensure (ov_balance v > 0) ActiveWithoutBalance
      (bind_res (expect (checked_add summed (ov_balance v)) ActiveBalancesOverflow) (\<lambda>summed'.
       Inr (leaves @ [(leaf Z (ov_pubkey v) (ov_balance v), ov_index v)], summed',
            Some (ov_index v))))))"

definition assign_step ::
  "zisk \<Rightarrow> fast_confirmation \<Rightarrow> nat \<Rightarrow> bytes32 \<Rightarrow> u64 list \<Rightarrow> u64 \<Rightarrow>
     (point_sum \<times> u64) option list \<Rightarrow> nat \<times> opened_validator \<Rightarrow>
     fcr_committee_panic + (point_sum \<times> u64) option list" where
  "assign_step Z F n seed pvs spe sums iv =
     (case iv of (index, v) \<Rightarrow>
       let position = committee_position Z index n seed pvs;
           slot = slot_of_position position n spe in
       ensure (counts_toward_support F (ov_balance v) False False True True) DoesNotCount
      (ensure (unat slot < length sums) FcSlotOutOfRange
      (let (keys, balance) = (case sums ! unat slot of None \<Rightarrow> (None, 0) | Some entry \<Rightarrow> entry) in
       bind_res (expect (point_sum_add Z keys (ov_pubkey v)) FcSharedX) (\<lambda>keys'.
       Inr (sums[unat slot := Some (keys', balance + ov_balance v)])))))"

definition close_slot ::
  "(point_sum \<times> u64) option \<Rightarrow> fcr_committee_panic + committee_aggregate option" where
  "close_slot entry =
     (case entry of None \<Rightarrow> Inr None
      | Some (keys, balance) \<Rightarrow>
          bind_res (expect keys FcIdentityCommittee) (\<lambda>pubkey.
          Inr (Some \<lparr>ca_pubkey = pubkey, ca_balance = balance\<rparr>)))"

definition close_step ::
  "committee_aggregate option list \<Rightarrow> (point_sum \<times> u64) option \<Rightarrow>
     fcr_committee_panic + committee_aggregate option list" where
  "close_step slots entry = bind_res (close_slot entry) (\<lambda>s. Inr (slots @ [s]))"

definition verify_fcr_committee_with_depth ::
  "zisk \<Rightarrow> fast_confirmation \<Rightarrow> fcr_committee_witness \<Rightarrow> u64 \<Rightarrow> nat \<Rightarrow>
     fcr_committee_panic + fcr_committee_output" where
  "verify_fcr_committee_with_depth Z F w spe acc_depth =
     ensure (commitment Z (fc_acc_root w) (fc_total_active_balance w) = fc_accumulator_commitment w)
       FcCommitmentMismatch
    (ensure (fc_active w \<noteq> []) ActiveSetEmpty
    (ensure (spe \<le> MAX_SLOTS) FcTooManySlots
    (bind_res (fold_res (active_step Z) ([], 0, None) (fc_active w)) (\<lambda>(leaves, summed, previous).
     ensure (summed = fc_total_active_balance w) ActiveSumMismatch
    (bind_res (map_err FcMerkle (batch_root (compress Z) leaves (fc_acc_multi_proof w) acc_depth)) (\<lambda>r.
     ensure (r = fc_acc_root w) FcAccRootMismatch
    (let n = length (fc_active w);
         pvs = pivots Z (fc_seed w) n in
     bind_res (fold_res (assign_step Z F n (fc_seed w) pvs spe) (replicate (unat spe) None)
         (zip [0..<n] (fc_active w))) (\<lambda>sums.
     bind_res (fold_res close_step [] sums) (\<lambda>slots.
     bind_res (map_err FcCommitteeTree (committee_tree_root Z slots)) (\<lambda>root.
     Inr \<lparr>fco_accumulator_commitment = fc_accumulator_commitment w, fco_seed = fc_seed w,
          fco_epoch = fc_epoch w, fco_committee_root = root, active_count = of_nat n\<rparr>))))))))))"

definition verify_fcr_committee ::
  "zisk \<Rightarrow> fast_confirmation \<Rightarrow> fcr_committee_witness \<Rightarrow> u64 \<Rightarrow>
     fcr_committee_panic + fcr_committee_output" where
  "verify_fcr_committee Z F w spe = verify_fcr_committee_with_depth Z F w spe ACC_TREE_DEPTH"

section \<open>The opened set\<close>

definition active_leaf :: "zisk \<Rightarrow> opened_validator \<Rightarrow> digest \<times> u64" where
  "active_leaf Z v = (leaf Z (ov_pubkey v) (ov_balance v), ov_index v)"

lemma active_steps:
  assumes "fold_res (active_step Z) ([], 0, None) vs = Inr (leaves, summed, previous)"
  shows "leaves = map (active_leaf Z) vs \<and>
    unat summed = sum_list (map (\<lambda>v. unat (ov_balance v)) vs) \<and>
    (\<forall>v\<in>set vs. 0 < unat (ov_balance v)) \<and> strictly_increasing (map ov_index vs)"
proof -
  let ?I = "\<lambda>vs (leaves, summed, previous). leaves = map (active_leaf Z) vs \<and>
    unat summed = sum_list (map (\<lambda>v. unat (ov_balance v)) vs) \<and>
    (\<forall>v\<in>set vs. 0 < unat (ov_balance v)) \<and> strictly_increasing (map ov_index vs) \<and>
    previous = (if vs = [] then None else Some (ov_index (last vs)))"
  have "?I vs (leaves, summed, previous)"
  proof (rule fold_res_prefix_invariant [OF assms, where I = ?I])
    fix seen v rest s s'
    assume "?I seen s" "active_step Z s v = Inr s'"
    then show "?I (seen @ [v]) s'"
      by (cases s) (auto simp: active_step_def active_leaf_def strictly_increasing_snoc last_map
          unat_checked_add word_less_nat_alt split: if_splits)
  qed simp
  then show ?thesis by simp
qed

text \<open>
  Opened positions whose balances, none zero, add up to the registry's total are all the positions
  with a balance; in increasing index order they are their sorted list.
\<close>

definition active_positions :: "registry \<Rightarrow> nat \<Rightarrow> nat list" where
  "active_positions R d = filter (\<lambda>i. 0 < entry_balance (R i)) [0..<2 ^ d]"

lemma full_sum_all_positions:
  fixes h :: "nat \<Rightarrow> nat"
  assumes "A \<subseteq> {..<N}" "sum h A = sum h {..<N}"
  shows "i < N \<Longrightarrow> 0 < h i \<Longrightarrow> i \<in> A"
proof (rule ccontr)
  assume i: "i < N" "0 < h i" "i \<notin> A"
  have "sum h (insert i A) \<le> sum h {..<N}" by (rule sum_mono2) (use assms(1) i in auto)
  moreover have "finite A" using assms(1) finite_subset by blast
  ultimately show False using assms(2) i by simp
qed

lemma opened_active_set:
  assumes "map (\<lambda>v. unat (ov_index v) mod 2 ^ d) vs = ps" "strictly_increasing (map ov_index vs)"
    and "\<forall>v\<in>set vs. \<forall>v'\<in>set vs. unat (ov_index v) div 2 ^ d = unat (ov_index v') div 2 ^ d"
    and "\<forall>v\<in>set vs. R (unat (ov_index v) mod 2 ^ d) = Some (ov_pubkey v, ov_balance v)"
    and "\<forall>v\<in>set vs. 0 < unat (ov_balance v)"
    and "sum_list (map (\<lambda>v. unat (ov_balance v)) vs) = registry_total R d"
  shows "ps = active_positions R d"
proof (rule sorted_distinct_set_unique)
  have "sorted_wrt (\<lambda>v v'. unat (ov_index v) mod 2 ^ d < unat (ov_index v') mod 2 ^ d) vs"
  proof (rule sorted_wrt_mono_rel)
    show "sorted_wrt (\<lambda>v v'. ov_index v < ov_index v') vs"
      using assms(2) by (simp add: strictly_increasing_sorted sorted_wrt_map)
    fix v v' assume v: "v \<in> set vs" "v' \<in> set vs" "ov_index v < ov_index v'"
    have "unat (ov_index v) div 2 ^ d = unat (ov_index v') div 2 ^ d" using assms(3) v by blast
    moreover have "unat (ov_index v) < unat (ov_index v')" using v(3) by (simp add: word_less_nat_alt)
    ultimately show "unat (ov_index v) mod 2 ^ d < unat (ov_index v') mod 2 ^ d"
      by (metis div_mult_mod_eq nat_add_left_cancel_less)
  qed
  then have inc: "sorted_wrt (<) ps"
    unfolding assms(1) [symmetric] by (simp add: sorted_wrt_map)
  then show "sorted ps" "distinct ps" by (simp_all add: strict_sorted_iff)
  show "sorted (active_positions R d)" "distinct (active_positions R d)"
    by (simp_all add: active_positions_def sorted_wrt_filter)
  have sub: "set ps \<subseteq> {..<2 ^ d}" unfolding assms(1) [symmetric] by auto
  have bal: "sum (\<lambda>i. entry_balance (R i)) (set ps) = registry_total R d"
  proof -
    have "sum (\<lambda>i. entry_balance (R i)) (set ps) = sum_list (map (\<lambda>i. entry_balance (R i)) ps)"
      using \<open>distinct ps\<close> by (simp add: sum_list_distinct_conv_sum_set)
    also have "\<dots> = sum_list (map (\<lambda>v. unat (ov_balance v)) vs)"
      unfolding assms(1) [symmetric] map_map
      by (rule arg_cong [where f = sum_list], rule map_cong) (use assms(4) in auto)
    finally show ?thesis using assms(6) by simp
  qed
  have "i \<in> set ps" if "i < 2 ^ d" "0 < entry_balance (R i)" for i
    using full_sum_all_positions [OF sub] bal that by (simp add: registry_total_def)
  moreover have "0 < entry_balance (R i)" if "i \<in> set ps" for i
    using that assms(4,5) unfolding assms(1) [symmetric] by auto
  ultimately show "set ps = set (active_positions R d)"
    using sub by (auto simp: active_positions_def)
qed

section \<open>The buckets\<close>

text \<open>
  The validators of a slot, in index order: those whose position in the shuffled set falls in it.
\<close>

definition assigned_slot :: "zisk \<Rightarrow> bytes32 \<Rightarrow> u64 \<Rightarrow> nat \<Rightarrow> nat \<Rightarrow> nat" where
  "assigned_slot Z seed spe n k =
     unat (slot_of_position (committee_position Z k n seed (pivots Z seed n)) n spe)"

definition fcr_bucket ::
  "zisk \<Rightarrow> bytes32 \<Rightarrow> u64 \<Rightarrow> nat \<Rightarrow> (nat \<times> opened_validator) list \<Rightarrow> nat \<Rightarrow> opened_validator list" where
  "fcr_bucket Z seed spe n ivs s = map snd (filter (\<lambda>(k, v). assigned_slot Z seed spe n k = s) ivs)"

definition fcr_entry :: "zisk \<Rightarrow> opened_validator list \<Rightarrow> (point_sum \<times> u64) option \<Rightarrow> bool" where
  "fcr_entry Z vs e \<longleftrightarrow> (if vs = [] then e = None
     else \<exists>s. point_sum_adds Z None (map ov_pubkey vs) = Some s \<and>
       e = Some (s, sum_list (map ov_balance vs)))"

lemma fcr_bucket_append [simp]:
  "fcr_bucket Z seed spe n (xs @ ys) s = fcr_bucket Z seed spe n xs s @ fcr_bucket Z seed spe n ys s"
  by (simp add: fcr_bucket_def)

lemma fcr_entry_snoc:
  assumes "fcr_entry Z vs e" "point_sum_add Z (case e of None \<Rightarrow> None | Some x \<Rightarrow> fst x) (ov_pubkey v) = Some keys"
  shows "fcr_entry Z (vs @ [v])
    (Some (keys, (case e of None \<Rightarrow> 0 | Some x \<Rightarrow> snd x) + ov_balance v))"
  using assms by (cases "vs = []") (auto simp: fcr_entry_def point_sum_adds_append)

lemma assign_steps:
  assumes "fold_res (assign_step Z F n seed (pivots Z seed n) spe) (replicate (unat spe) None) ivs = Inr sums"
  shows "length sums = unat spe" and "s < unat spe \<Longrightarrow> fcr_entry Z (fcr_bucket Z seed spe n ivs s) (sums ! s)"
    and "(k, v) \<in> set ivs \<Longrightarrow> assigned_slot Z seed spe n k < unat spe"
proof -
  let ?I = "\<lambda>ivs sums. length sums = unat spe \<and>
    (\<forall>s<unat spe. fcr_entry Z (fcr_bucket Z seed spe n ivs s) (sums ! s)) \<and>
    (\<forall>(k, v)\<in>set ivs. assigned_slot Z seed spe n k < unat spe)"
  have "?I ivs sums"
  proof (rule fold_res_prefix_invariant [OF assms, where I = ?I])
    show "?I [] (replicate (unat spe) None)" by (simp add: fcr_bucket_def fcr_entry_def)
    fix seen iv rest sums sums'
    assume I: "?I seen sums" and step: "assign_step Z F n seed (pivots Z seed n) spe sums iv = Inr sums'"
    obtain k v where iv: "iv = (k, v)" by (cases iv)
    let ?s = "assigned_slot Z seed spe n k"
    let ?e = "sums ! ?s"
    from step obtain keys where slot: "?s < length sums"
      and keys: "point_sum_add Z (case ?e of None \<Rightarrow> None | Some x \<Rightarrow> fst x) (ov_pubkey v) = Some keys"
      and sums': "sums' = sums[?s := Some (keys, (case ?e of None \<Rightarrow> 0 | Some x \<Rightarrow> snd x) + ov_balance v)]"
      by (auto simp: assign_step_def iv assigned_slot_def Let_def split: option.splits prod.splits)
    have "fcr_entry Z (fcr_bucket Z seed spe n (seen @ [iv]) s) (sums' ! s)" if "s < unat spe" for s
      using I that slot fcr_entry_snoc [OF _ keys]
      by (auto simp: sums' iv fcr_bucket_def nth_list_update)
    then show "?I (seen @ [iv]) sums'" using I slot by (simp add: sums' iv)
  qed
  then show "length sums = unat spe" and "s < unat spe \<Longrightarrow> fcr_entry Z (fcr_bucket Z seed spe n ivs s) (sums ! s)"
    and "(k, v) \<in> set ivs \<Longrightarrow> assigned_slot Z seed spe n k < unat spe" by auto
qed

definition fcr_aggregate :: "zisk \<Rightarrow> opened_validator list \<Rightarrow> committee_aggregate option" where
  "fcr_aggregate Z vs =
     (if vs = [] then None
      else map_option (\<lambda>p. \<lparr>ca_pubkey = p, ca_balance = sum_list (map ov_balance vs)\<rparr>)
        (aggregate_points Z (map ov_pubkey vs)))"

lemma close_steps:
  assumes "fold_res close_step [] sums = Inr slots"
  shows "length slots = length sums" and "s < length sums \<Longrightarrow> close_slot (sums ! s) = Inr (slots ! s)"
proof -
  let ?I = "\<lambda>es slots. length slots = length es \<and> (\<forall>s<length es. close_slot (es ! s) = Inr (slots ! s))"
  have "?I sums slots"
  proof (rule fold_res_prefix_invariant [OF assms, where I = ?I])
    fix seen e rest slots slots'
    assume "?I seen slots" "close_step slots e = Inr slots'"
    then show "?I (seen @ [e]) slots'" by (auto simp: close_step_def nth_append less_Suc_eq)
  qed simp
  then show "length slots = length sums" and "s < length sums \<Longrightarrow> close_slot (sums ! s) = Inr (slots ! s)"
    by auto
qed

lemma close_slot_aggregate:
  assumes "fcr_entry Z vs e" "close_slot e = Inr slot"
  shows "slot = fcr_aggregate Z vs" and "vs \<noteq> [] \<Longrightarrow> slot \<noteq> None"
  using assms by (auto simp: fcr_entry_def close_slot_def fcr_aggregate_def aggregate_points_def
      split: if_splits)

section \<open>What an accepted committee proof establishes\<close>

definition fcr_leaf :: "zisk \<Rightarrow> opened_validator list \<Rightarrow> digest" where
  "fcr_leaf Z vs = (case fcr_aggregate Z vs of None \<Rightarrow> ZERO | Some agg \<Rightarrow> committee_leaf Z agg)"

definition enumerated :: "opened_validator list \<Rightarrow> (nat \<times> opened_validator) list" where
  "enumerated vs = zip [0..<length vs] vs"

lemma verify_fcr_committee_Inr:
  assumes "verify_fcr_committee_with_depth Z F w spe d = Inr out"
  defines "vs \<equiv> fc_active w" and "n \<equiv> length (fc_active w)"
  shows "commitment Z (fc_acc_root w) (fc_total_active_balance w) = fco_accumulator_commitment out"
    and "vs \<noteq> []" "unat spe \<le> 32" "fco_seed out = fc_seed w" "fco_epoch out = fc_epoch w"
    and "active_count out = of_nat n"
    and "\<forall>v\<in>set vs. 0 < unat (ov_balance v)" "strictly_increasing (map ov_index vs)"
    and "unat (fc_total_active_balance w) = sum_list (map (\<lambda>v. unat (ov_balance v)) vs)"
    and "batch_root (compress Z) (map (active_leaf Z) vs) (fc_acc_multi_proof w) d = Inr (fc_acc_root w)"
    and "k < n \<Longrightarrow> assigned_slot Z (fc_seed w) spe n k < unat spe"
    and "s < unat spe \<Longrightarrow> fcr_bucket Z (fc_seed w) spe n (enumerated vs) s \<noteq> [] \<Longrightarrow>
      fcr_aggregate Z (fcr_bucket Z (fc_seed w) spe n (enumerated vs) s) \<noteq> None"
    and "fco_committee_root out = tree_root (compress Z) (\<lambda>s. if s < unat spe
      then fcr_leaf Z (fcr_bucket Z (fc_seed w) spe n (enumerated vs) s) else ZERO) 5"
proof -
  from assms(1) obtain leaves summed previous sums slots where
    com: "commitment Z (fc_acc_root w) (fc_total_active_balance w) = fc_accumulator_commitment w"
    and ne: "vs \<noteq> []" and spe: "spe \<le> MAX_SLOTS"
    and acts: "fold_res (active_step Z) ([], 0, None) vs = Inr (leaves, fc_total_active_balance w, previous)"
    and root: "batch_root (compress Z) leaves (fc_acc_multi_proof w) d = Inr (fc_acc_root w)"
    and sums: "fold_res (assign_step Z F n (fc_seed w) (pivots Z (fc_seed w) n) spe) (replicate (unat spe) None)
      (enumerated vs) = Inr sums"
    and slots: "fold_res close_step [] sums = Inr slots"
    and tree: "committee_tree_root Z slots = Inr (fco_committee_root out)"
    and out: "fco_accumulator_commitment out = fc_accumulator_commitment w" "fco_seed out = fc_seed w"
      "fco_epoch out = fc_epoch w" "active_count out = of_nat n"
    by (auto simp: verify_fcr_committee_with_depth_def Let_def vs_def n_def enumerated_def)
  note opened = active_steps [OF acts]
  show "commitment Z (fc_acc_root w) (fc_total_active_balance w) = fco_accumulator_commitment out"
    using com out by simp
  show "vs \<noteq> []" by (rule ne)
  show "fco_seed out = fc_seed w" "fco_epoch out = fc_epoch w" "active_count out = of_nat n" by (rule out)+
  show "\<forall>v\<in>set vs. 0 < unat (ov_balance v)" "strictly_increasing (map ov_index vs)"
    and "unat (fc_total_active_balance w) = sum_list (map (\<lambda>v. unat (ov_balance v)) vs)"
    and "batch_root (compress Z) (map (active_leaf Z) vs) (fc_acc_multi_proof w) d = Inr (fc_acc_root w)"
    using opened root by auto
  show 32: "unat spe \<le> 32" using spe by (simp add: MAX_SLOTS_def TREE_DEPTH_def word_le_nat_alt)
  note buckets = assign_steps [OF sums]
  note closed = close_steps [OF slots]
  have agg: "slots ! s = fcr_aggregate Z (fcr_bucket Z (fc_seed w) spe n (enumerated vs) s)"
    "fcr_bucket Z (fc_seed w) spe n (enumerated vs) s \<noteq> [] \<Longrightarrow> slots ! s \<noteq> None" if "s < unat spe" for s
    using close_slot_aggregate [OF buckets(2) [OF that] closed(2)] that buckets(1) by auto
  show "k < n \<Longrightarrow> assigned_slot Z (fc_seed w) spe n k < unat spe"
  proof -
    assume k: "k < n"
    then have "(k, vs ! k) \<in> set (enumerated vs)"
      by (auto simp: enumerated_def set_zip n_def vs_def intro!: exI [of _ k])
    then show ?thesis by (rule buckets(3))
  qed
  show "s < unat spe \<Longrightarrow> fcr_bucket Z (fc_seed w) spe n (enumerated vs) s \<noteq> [] \<Longrightarrow>
      fcr_aggregate Z (fcr_bucket Z (fc_seed w) spe n (enumerated vs) s) \<noteq> None"
    using agg by auto
  have "fco_committee_root out = tree_root (compress Z) (slot_leaf Z slots) 5"
    using tree by (simp add: committee_tree_root_eq)
  also have "\<dots> = tree_root (compress Z) (\<lambda>s. if s < unat spe
      then fcr_leaf Z (fcr_bucket Z (fc_seed w) spe n (enumerated vs) s) else ZERO) 5"
    by (rule tree_root_cong) (use closed(1) buckets(1) agg in \<open>simp add: slot_leaf_def fcr_leaf_def\<close>)
  finally show "fco_committee_root out = tree_root (compress Z) (\<lambda>s. if s < unat spe
      then fcr_leaf Z (fcr_bucket Z (fc_seed w) spe n (enumerated vs) s) else ZERO) 5" .
qed

section \<open>The committee root of a registry\<close>

text \<open>
  The specification: the active entries of a registry in position order, each in the slot its
  position in the shuffled set falls in, summed per slot.
\<close>

definition slot_entries :: "zisk \<Rightarrow> registry \<Rightarrow> nat \<Rightarrow> bytes32 \<Rightarrow> u64 \<Rightarrow> nat \<Rightarrow> entry list" where
  "slot_entries Z R d seed spe s =
     (let ps = active_positions R d
      in map (\<lambda>k. the (R (ps ! k)))
           (filter (\<lambda>k. assigned_slot Z seed spe (length ps) k = s) [0..<length ps]))"

definition entries_leaf :: "zisk \<Rightarrow> entry list \<Rightarrow> digest" where
  "entries_leaf Z es =
     (if es = [] then ZERO
      else case aggregate_points Z (map fst es) of
        None \<Rightarrow> ZERO
      | Some p \<Rightarrow> committee_leaf Z \<lparr>ca_pubkey = p, ca_balance = sum_list (map snd es)\<rparr>)"

definition registry_committee_root :: "zisk \<Rightarrow> registry \<Rightarrow> nat \<Rightarrow> bytes32 \<Rightarrow> u64 \<Rightarrow> digest" where
  "registry_committee_root Z R d seed spe =
     tree_root (compress Z)
       (\<lambda>s. if s < unat spe then entries_leaf Z (slot_entries Z R d seed spe s) else ZERO) 5"

definition entry_of :: "opened_validator \<Rightarrow> entry" where
  "entry_of v = (ov_pubkey v, ov_balance v)"

lemma fcr_leaf_entries: "fcr_leaf Z vs = entries_leaf Z (map entry_of vs)"
  by (simp add: fcr_leaf_def fcr_aggregate_def entries_leaf_def entry_of_def comp_def split: option.split)

lemma bucket_entries:
  assumes "map (\<lambda>v. unat (ov_index v) mod 2 ^ d) vs = active_positions R d"
    and "\<forall>v\<in>set vs. R (unat (ov_index v) mod 2 ^ d) = Some (entry_of v)"
  shows "map entry_of (fcr_bucket Z seed spe (length vs) (enumerated vs) s) = slot_entries Z R d seed spe s"
proof -
  let ?ps = "active_positions R d"
  have len: "length ?ps = length vs" using assms(1) by (metis length_map)
  have pos: "?ps ! k = unat (ov_index (vs ! k)) mod 2 ^ d" if "k < length vs" for k
    using that unfolding assms(1) [symmetric] by simp
  have enum: "enumerated vs = map (\<lambda>k. (k, vs ! k)) [0..<length vs]"
    unfolding enumerated_def by (rule nth_equalityI) simp_all
  have "map entry_of (fcr_bucket Z seed spe (length vs) (enumerated vs) s) =
      map (\<lambda>k. entry_of (vs ! k)) (filter (\<lambda>k. assigned_slot Z seed spe (length vs) k = s) [0..<length vs])"
    by (simp add: fcr_bucket_def enum filter_map comp_def)
  also have "\<dots> = slot_entries Z R d seed spe s"
    unfolding slot_entries_def Let_def len
    by (rule map_cong [OF refl]) (use assms(2) pos in auto)
  finally show ?thesis .
qed

text \<open>Hash hypotheses: the openings of the run and of the registry's tree are collision free.\<close>

definition fcr_fine :: "zisk \<Rightarrow> registry \<Rightarrow> nat \<Rightarrow> fcr_committee_witness \<Rightarrow> bool" where
  "fcr_fine Z R d w \<longleftrightarrow>
     collision_free (compress Z)
       (opening_pairs Z R d (map (active_leaf Z) (fc_active w)) (fc_acc_multi_proof w)) \<and>
     leaf_binding Z (registry_entries R d \<union> entry_of ` set (fc_active w))"

lemma fcr_active_registry:
  assumes "verify_fcr_committee_with_depth Z F w spe d = Inr out" "fcr_fine Z R d w"
    and "fc_acc_root w = registry_root Z R d" "registry_total R d = unat (fc_total_active_balance w)"
  shows "map (\<lambda>v. unat (ov_index v) mod 2 ^ d) (fc_active w) = active_positions R d"
    and "\<forall>v\<in>set (fc_active w). R (unat (ov_index v) mod 2 ^ d) = Some (entry_of v)"
    and "fco_committee_root out = registry_committee_root Z R d (fc_seed w) spe"
proof -
  note acc = verify_fcr_committee_Inr [OF assms(1)]
  let ?vs = "fc_active w" and ?leaves = "map (active_leaf Z) (fc_active w)"
  have root: "batch_root (compress Z) ?leaves (fc_acc_multi_proof w) d = Inr (registry_root Z R d)"
    using acc(10) assms(3) by simp
  show ent: "\<forall>v\<in>set ?vs. R (unat (ov_index v) mod 2 ^ d) = Some (entry_of v)"
  proof
    fix v assume v: "v \<in> set ?vs"
    show "R (unat (ov_index v) mod 2 ^ d) = Some (entry_of v)"
      unfolding entry_of_def
    proof (rule registry_opening [OF root])
      show "leaf_binding Z (registry_entries R d \<union> entry_of ` set (fc_active w))"
        and "collision_free (compress Z) (opening_pairs Z R d ?leaves (fc_acc_multi_proof w))"
        using assms(2) by (simp_all add: fcr_fine_def)
      show "(ov_pubkey v, ov_balance v) \<in> registry_entries R d \<union> entry_of ` set (fc_active w)"
        using v by (auto simp: entry_of_def)
      show "(leaf Z (ov_pubkey v) (ov_balance v), ov_index v) \<in> set ?leaves"
        using v by (auto simp: active_leaf_def)
    qed simp
  qed
  show pos: "map (\<lambda>v. unat (ov_index v) mod 2 ^ d) ?vs = active_positions R d"
  proof (rule opened_active_set [OF refl acc(8)])
    show "\<forall>v\<in>set ?vs. \<forall>v'\<in>set ?vs. unat (ov_index v) div 2 ^ d = unat (ov_index v') div 2 ^ d"
      using batch_root_same_top [OF acc(10)] by (fastforce simp: active_leaf_def)
  qed (use ent acc(7,9) assms(4) in \<open>simp_all add: entry_of_def\<close>)
  show "fco_committee_root out = registry_committee_root Z R d (fc_seed w) spe"
    unfolding acc(13) registry_committee_root_def fcr_leaf_entries bucket_entries [OF pos ent] ..
qed

text \<open>The validators of a slot are those the shuffle puts in the slot's slice.\<close>

lemma assigned_slice:
  assumes "0 < n" "0 < unat spe" "unat spe * n < 2 ^ 64"
  shows "{k. k < n \<and> assigned_slot Z seed spe n k = s} =
    (\<lambda>p. shuffled_index Z p n seed (pivots Z seed n)) ` {n * s div unat spe..<min n (n * (s + 1) div unat spe)}"
    (is "?A = ?f ` ?S")
proof -
  have "n \<le> unat spe * n" using assms(2) by simp
  then have n: "n < 2 ^ 64" using assms(3) by linarith
  let ?g = "\<lambda>k. committee_position Z k n seed (pivots Z seed n)"
  note cancel = rounds_cancel [OF assms(1) n, of _ Z seed]
  have iff: "assigned_slot Z seed spe n k = s \<longleftrightarrow> ?g k \<in> ?S" if "k < n" for k
    using slot_slice [OF cancel(3) [OF that] assms(2,3), of s] cancel(3) [OF that]
    by (auto simp: assigned_slot_def)
  show ?thesis
  proof
    show "?A \<subseteq> ?f ` ?S"
    proof
      fix k assume "k \<in> ?A"
      then have "k = ?f (?g k)" "?g k \<in> ?S" using cancel(2) [of k] iff by auto
      then show "k \<in> ?f ` ?S" by (rule image_eqI)
    qed
    show "?f ` ?S \<subseteq> ?A"
      using cancel(1,4) iff by auto
  qed
qed

end
