(* ===== verification/FcrSupport.thy ===== *)
theory FcrSupport
  imports FcrProof FcrCommittee Supermajority
begin

text \<open>
  How the two circuits of the fast confirmation rule compose: a batch whose committee root is the
  root of a proven assignment counts, slot by slot, stake of the validators the shuffle put in that
  slot.
\<close>

definition slot_stake :: "zisk \<Rightarrow> registry \<Rightarrow> nat \<Rightarrow> bytes32 \<Rightarrow> u64 \<Rightarrow> nat \<Rightarrow> nat" where
  "slot_stake Z R d seed spe s = sum_list (map (\<lambda>e. unat (snd e)) (slot_entries Z R d seed spe s))"

text \<open>The slots partition the active entries.\<close>

lemma sum_list_by_class:
  fixes h :: "'a \<Rightarrow> nat"
  assumes "finite T"
  shows "(\<Sum>s\<in>T. sum_list (map h (filter (\<lambda>x. f x = s) xs))) \<le> sum_list (map h xs)"
proof (induction xs)
  case (Cons x xs)
  have "(\<Sum>s\<in>T. sum_list (map h (filter (\<lambda>y. f y = s) (x # xs)))) =
      (\<Sum>s\<in>T. (if f x = s then h x else 0) + sum_list (map h (filter (\<lambda>y. f y = s) xs)))"
    by (rule sum.cong) simp_all
  also have "\<dots> = (\<Sum>s\<in>T. if f x = s then h x else 0) +
      (\<Sum>s\<in>T. sum_list (map h (filter (\<lambda>y. f y = s) xs)))"
    by (rule sum.distrib)
  also have "(\<Sum>s\<in>T. if f x = s then h x else 0) \<le> h x" using assms by simp
  finally show ?case using Cons by simp
qed simp

lemma active_positions_total: "sum_list (map (\<lambda>i. entry_balance (R i)) (active_positions R d)) = registry_total R d"
proof -
  have "sum_list (map (\<lambda>i. entry_balance (R i)) (filter (\<lambda>i. 0 < entry_balance (R i)) xs)) =
      sum_list (map (\<lambda>i. entry_balance (R i)) xs)" for xs
    by (induction xs) auto
  then show ?thesis
    by (simp add: active_positions_def registry_total_def sum_list_distinct_conv_sum_set atLeast0LessThan)
qed

lemma slot_stakes_total:
  assumes "finite T"
  shows "(\<Sum>s\<in>T. slot_stake Z R d seed spe s) \<le> registry_total R d"
proof -
  let ?ps = "active_positions R d"
  let ?f = "assigned_slot Z seed spe (length ?ps)" and ?h = "\<lambda>k. entry_balance (R (?ps ! k))"
  have active: "unat (snd (the (R (?ps ! k)))) = ?h k" if "k < length ?ps" for k
  proof -
    have "?ps ! k \<in> set ?ps" using that by simp
    then have "0 < ?h k" by (simp add: active_positions_def)
    then show ?thesis by (cases "R (?ps ! k)") auto
  qed
  have "slot_stake Z R d seed spe s = sum_list (map ?h (filter (\<lambda>k. ?f k = s) [0..<length ?ps]))" for s
    unfolding slot_stake_def slot_entries_def Let_def map_map comp_def
    by (rule arg_cong [where f = sum_list], rule map_cong [OF refl]) (simp add: active)
  then have "(\<Sum>s\<in>T. slot_stake Z R d seed spe s) \<le> sum_list (map ?h [0..<length ?ps])"
    using sum_list_by_class [OF assms, where h = ?h and f = ?f and xs = "[0..<length ?ps]"] by simp
  also have "map ?h [0..<length ?ps] = map (\<lambda>i. entry_balance (R i)) ?ps"
    by (rule nth_equalityI) simp_all
  finally show ?thesis by (simp only: active_positions_total)
qed

section \<open>The committees a batch opens\<close>

definition entries_aggregate :: "zisk \<Rightarrow> entry list \<Rightarrow> entry option" where
  "entries_aggregate Z es =
     (if es = [] then None
      else map_option (\<lambda>p. (p, sum_list (map snd es))) (aggregate_points Z (map fst es)))"

lemma entries_leaf_aggregate: "entries_leaf Z es = entry_leaf Z (entries_aggregate Z es)"
  by (simp add: entries_leaf_def entries_aggregate_def committee_leaf_def split: option.split)

definition batch_leaves :: "zisk \<Rightarrow> fcr_batch_witness \<Rightarrow> (digest \<times> u64) list" where
  "batch_leaves Z w = map (\<lambda>e. (committee_leaf Z (committee (fs_complement e)),
     slot_in_epoch (fs_complement e))) (fb_slots w)"

definition registry_slot_leaf :: "zisk \<Rightarrow> registry \<Rightarrow> nat \<Rightarrow> bytes32 \<Rightarrow> u64 \<Rightarrow> nat \<Rightarrow> digest" where
  "registry_slot_leaf Z R d seed spe s =
     (if s < unat spe then entries_leaf Z (slot_entries Z R d seed spe s) else ZERO)"

definition batch_fine ::
  "zisk \<Rightarrow> registry \<Rightarrow> nat \<Rightarrow> bytes32 \<Rightarrow> u64 \<Rightarrow> fcr_batch_witness \<Rightarrow> bool" where
  "batch_fine Z R d seed spe w \<longleftrightarrow>
     collision_free (compress Z)
       (batch_pairs (compress Z) 5 (map snd (batch_leaves Z w)) (map fst (batch_leaves Z w))
          (fb_committee_multi_proof w) \<union> tree_pairs (compress Z) (registry_slot_leaf Z R d seed spe) 5) \<and>
     leaf_binding Z
       ((\<lambda>e. (ca_pubkey (committee (fs_complement e)), ca_balance (committee (fs_complement e)))) ` set (fb_slots w) \<union>
        {x. \<exists>s<32. entries_aggregate Z (slot_entries Z R d seed spe s) = Some x})"

lemma batch_committees:
  assumes "batch_slots Z w d = Inr st" "batch_fine Z R d seed spe w"
    and "fb_committee_root w = registry_committee_root Z R d seed spe"
    and "e \<in> set (fb_slots w)"
  defines "s \<equiv> unat (slot_in_epoch (fs_complement e))"
  shows "entries_aggregate Z (slot_entries Z R d seed spe s) =
      Some (ca_pubkey (committee (fs_complement e)), ca_balance (committee (fs_complement e)))"
proof -
  let ?c = "committee (fs_complement e)" and ?k = "slot_in_epoch (fs_complement e)"
  note acc = batch_slots_Inr [OF assms(1)]
  have leaves: "bs_committee_leaves st = batch_leaves Z w"
    and lt: "s < 32"
    using acc(1) assms(4) by (auto simp: batch_summary_def batch_leaves_def s_def)
  have root: "batch_root (compress Z) (batch_leaves Z w) (fb_committee_multi_proof w) 5 =
      Inr (tree_root (compress Z) (registry_slot_leaf Z R d seed spe) 5)"
    using acc(4) assms(3) leaves by (simp add: registry_committee_root_def registry_slot_leaf_def [abs_def])
  have "(committee_leaf Z ?c, ?k) \<in> set (batch_leaves Z w)"
    using assms(4) by (simp add: batch_leaves_def)
  then have "committee_leaf Z ?c = registry_slot_leaf Z R d seed spe (unat ?k mod 2 ^ 5)"
    using assms(2) by (intro batch_root_binding [OF root]) (simp_all add: batch_fine_def)
  then have leaf: "committee_leaf Z ?c = registry_slot_leaf Z R d seed spe s"
    using lt by (simp add: s_def)
  let ?S = "(\<lambda>e. (ca_pubkey (committee (fs_complement e)), ca_balance (committee (fs_complement e)))) ` set (fb_slots w) \<union>
        {x. \<exists>s<32. entries_aggregate Z (slot_entries Z R d seed spe s) = Some x}"
  let ?e = "if s < unat spe then entries_aggregate Z (slot_entries Z R d seed spe s) else None"
  have "leaf_binding Z ?S" using assms(2) by (simp add: batch_fine_def)
  moreover have "(ca_pubkey ?c, ca_balance ?c) \<in> ?S" using assms(4) by auto
  moreover have "entry_leaf Z ?e = leaf Z (ca_pubkey ?c) (ca_balance ?c)"
    using leaf by (simp add: registry_slot_leaf_def entries_leaf_aggregate committee_leaf_def split: if_splits)
  moreover have "set_option ?e \<subseteq> ?S" using lt by auto
  ultimately have "?e = Some (ca_pubkey ?c, ca_balance ?c)" by (rule leaf_bindingD)
  then show ?thesis by (simp split: if_splits)
qed

lemma batch_support_stakes:
  assumes "batch_slots Z w d = Inr st" "batch_fine Z R d seed spe w"
    and "fb_committee_root w = registry_committee_root Z R d seed spe"
  shows "unat (bs_support st) + unat (bs_empty st) \<le>
    sum_list (map (\<lambda>e. slot_stake Z R d seed spe (unat (slot_in_epoch (fs_complement e)))) (fb_slots w))"
proof -
  let ?slot = "\<lambda>e. unat (slot_in_epoch (fs_complement e))" and ?es = "fb_slots w"
  have sum: "batch_summary Z w ?es st" using batch_slots_Inr [OF assms(1)] by blast
  have one: "slot_counted (fs_complement e) \<le> slot_stake Z R d seed spe (?slot e)" if e: "e \<in> set ?es" for e
  proof -
    have "ca_balance (committee (fs_complement e)) = sum_list (map snd (slot_entries Z R d seed spe (?slot e)))"
      using batch_committees [OF assms(1-3) e] by (auto simp: entries_aggregate_def split: if_splits)
    then show ?thesis
      using unat_sum_list_le [of snd "slot_entries Z R d seed spe (?slot e)"]
      by (simp add: slot_counted_def slot_stake_def)
  qed
  have "unat (bs_support st) + unat (bs_empty st) \<le>
      head_support Z True (parent_head_root w) ?es + head_support Z False (parent_head_root w) ?es"
    using sum by (simp add: batch_summary_def unat_of_nat add_mono)
  also have "\<dots> \<le> sum_list (map (\<lambda>e. slot_counted (fs_complement e)) ?es)" by (rule head_support_bound)
  also have "\<dots> \<le> sum_list (map (\<lambda>e. slot_stake Z R d seed spe (?slot e)) ?es)"
    by (rule sum_list_mono) (rule one)
  finally show ?thesis .
qed

text \<open>Entries at distinct slots hold at most the registry's total.\<close>

lemma distinct_slot_stakes:
  assumes "distinct (map f es)"
  shows "sum_list (map (\<lambda>e. slot_stake Z R d seed spe (f e)) es) = (\<Sum>s\<in>f ` set es. slot_stake Z R d seed spe s)"
    and "sum_list (map (\<lambda>e. slot_stake Z R d seed spe (f e)) es) \<le> registry_total R d"
proof -
  show eq: "sum_list (map (\<lambda>e. slot_stake Z R d seed spe (f e)) es) = (\<Sum>s\<in>f ` set es. slot_stake Z R d seed spe s)"
    using sum_list_distinct_conv_sum_set [OF assms, of "slot_stake Z R d seed spe"] by (simp add: comp_def)
  show "sum_list (map (\<lambda>e. slot_stake Z R d seed spe (f e)) es) \<le> registry_total R d"
    unfolding eq by (rule slot_stakes_total) simp
qed

lemma batch_support_bounded:
  assumes "batch_slots Z w d = Inr st" "batch_fine Z R d seed spe w"
    and "fb_committee_root w = registry_committee_root Z R d seed spe"
  defines "slots \<equiv> (\<lambda>e. unat (slot_in_epoch (fs_complement e))) ` set (fb_slots w)"
  shows "unat (bs_support st) + unat (bs_empty st) \<le> (\<Sum>s\<in>slots. slot_stake Z R d seed spe s)"
    and "(\<Sum>s\<in>slots. slot_stake Z R d seed spe s) \<le> registry_total R d"
proof -
  let ?slot = "\<lambda>e. unat (slot_in_epoch (fs_complement e))" and ?es = "fb_slots w"
  have "strictly_increasing (map snd (bs_committee_leaves st))"
    using batch_slots_Inr(4) [OF assms(1)] by (simp add: batch_root_def)
  then have "distinct (map (\<lambda>e. slot_in_epoch (fs_complement e)) ?es)"
    using batch_slots_Inr(1) [OF assms(1)] strictly_increasing_distinct
    by (simp add: batch_summary_def comp_def)
  then have "distinct (map ?slot ?es)" by (simp add: distinct_map inj_on_def word_unat_eq_iff)
  note stakes = distinct_slot_stakes [OF this, of Z R d seed spe]
  show "unat (bs_support st) + unat (bs_empty st) \<le> (\<Sum>s\<in>slots. slot_stake Z R d seed spe s)"
    and "(\<Sum>s\<in>slots. slot_stake Z R d seed spe s) \<le> registry_total R d"
    using batch_support_stakes [OF assms(1-3)] stakes by (simp_all add: slots_def)
qed

end
