(* ===== verification/FcrVerifier.thy ===== *)
theory FcrVerifier
  imports FcrTypes
begin

text \<open>
  \<open>crates/fcr-verifier/src/lib.rs\<close>: joining batch outputs into a window and judging it. The additions
  and subtractions on slots that the code does not check wrap, as in a release build.

  The lemmas: joining succeeds exactly on runs in which every batch continues the one before it.
\<close>

datatype fcr_error =
    FvEmpty
  | FvAccumulatorMismatch
  | FvCommitteeRootMismatch
  | FvTotalActiveBalanceMismatch
  | FvChainBroken u64
  | FvSlotGap u64 u64
  | FvOverflow
  | FvAssignmentNotProven
  | FvAssignmentRootMismatch
  | FvUnsupportedSlotsPerEpoch u64

section \<open>The window\<close>

record fcr_window =
  wn_accumulator_commitment :: digest
  wn_committee_root :: digest
  wn_total_active_balance :: u64
  wn_first_slot :: u64
  wn_last_slot :: u64
  wn_parent_head_root :: bytes32
  wn_head_root :: bytes32
  wn_head_slot :: u64
  wn_support :: u64

definition wn_slot_count :: "fcr_window \<Rightarrow> u64" where
  "wn_slot_count win = wn_last_slot win - wn_first_slot win + 1"

definition window_open :: "fcr_batch_output \<Rightarrow> fcr_window" where
  "window_open b =
     \<lparr>wn_accumulator_commitment = bo_accumulator_commitment b,
      wn_committee_root = bo_committee_root b,
      wn_total_active_balance = bo_total_active_balance b,
      wn_first_slot = bo_first_slot b,
      wn_last_slot = bo_first_slot b + bo_slot_count b - 1,
      wn_parent_head_root = bo_parent_head_root b,
      wn_head_root = bo_head_root b,
      wn_head_slot = bo_head_slot b,
      wn_support = bo_support b\<rparr>"

definition window_step :: "fcr_window \<Rightarrow> fcr_batch_output \<Rightarrow> fcr_error + fcr_window" where
  "window_step win b =
     ensure (bo_accumulator_commitment b = wn_accumulator_commitment win) FvAccumulatorMismatch
    (ensure (bo_committee_root b = wn_committee_root win) FvCommitteeRootMismatch
    (ensure (bo_total_active_balance b = wn_total_active_balance win) FvTotalActiveBalanceMismatch
    (ensure (bo_parent_head_root b = wn_head_root win) (FvChainBroken (bo_first_slot b))
    (let expected = wn_last_slot win + 1 in
     ensure (bo_first_slot b = expected) (FvSlotGap expected (bo_first_slot b))
    (bind_res (expect (checked_add (wn_support win) (bo_support b)) FvOverflow) (\<lambda>support.
     Inr (win\<lparr>wn_support := support,
              wn_last_slot := bo_first_slot b + bo_slot_count b - 1,
              wn_head_root := bo_head_root b,
              wn_head_slot := bo_head_slot b\<rparr>)))))))"

fun accumulate :: "fcr_batch_output list \<Rightarrow> fcr_error + fcr_window" where
  "accumulate [] = Inl FvEmpty"
| "accumulate (b # bs) = fold_res window_step (window_open b) bs"

section \<open>The verdict\<close>

record assignment =
  as_root :: digest
  shuffle_proven :: bool

definition assignment_from_committee_proof :: "fcr_committee_output \<Rightarrow> assignment" where
  "assignment_from_committee_proof p = \<lparr>as_root = fco_committee_root p, shuffle_proven = True\<rparr>"

definition assignment_proven :: "digest \<Rightarrow> assignment" where
  "assignment_proven root = \<lparr>as_root = root, shuffle_proven = True\<rparr>"

definition assignment_unproven :: "digest \<Rightarrow> assignment" where
  "assignment_unproven root = \<lparr>as_root = root, shuffle_proven = False\<rparr>"

record fcr_params =
  pr_slots_per_epoch :: u64
  pr_byzantine_threshold :: u64
  pr_proposer_score_boost :: u64

definition default_params :: fcr_params where
  "default_params = \<lparr>pr_slots_per_epoch = 32, pr_byzantine_threshold = 25, pr_proposer_score_boost = 40\<rparr>"

definition estimate_committee_weight_between_slots ::
  "fast_confirmation \<Rightarrow> u64 \<Rightarrow> u64 \<Rightarrow> u64 \<Rightarrow> u64 \<Rightarrow> fcr_error + u64" where
  "estimate_committee_weight_between_slots F t start_slot end_slot spe =
     (if spe \<in> {32, 16, 8, 4}
      then expect (estimate_committee_weight F spe t start_slot end_slot) FvOverflow
      else Inl (FvUnsupportedSlotsPerEpoch spe))"

definition safety_threshold ::
  "fast_confirmation \<Rightarrow> fcr_window \<Rightarrow> u64 \<Rightarrow> u64 \<Rightarrow> fcr_params \<Rightarrow> fcr_error + u64" where
  "safety_threshold F win parent_slot current params =
     (let t = wn_total_active_balance win; spe = pr_slots_per_epoch params in
     bind_res (estimate_committee_weight_between_slots F t (saturating_add parent_slot 1)
       (saturating_sub current 1) spe) (\<lambda>maximum_support.
     bind_res (expect (compute_proposer_score F t spe (pr_proposer_score_boost params)) FvOverflow)
       (\<lambda>proposer_score.
     bind_res (expect (max_adversarial_weight F maximum_support (pr_byzantine_threshold params)) FvOverflow)
       (\<lambda>weight.
     expect (arith_safety_threshold F maximum_support proposer_score (adversarial_weight F weight 0) 0)
       FvOverflow))))"

definition is_confirmed ::
  "fast_confirmation \<Rightarrow> fcr_window \<Rightarrow> assignment \<Rightarrow> u64 \<Rightarrow> u64 \<Rightarrow> fcr_params \<Rightarrow> fcr_error + bool" where
  "is_confirmed F win a parent_slot current params =
     ensure (as_root a = wn_committee_root win) FvAssignmentRootMismatch
    (ensure (shuffle_proven a) FvAssignmentNotProven
    (bind_res (safety_threshold F win parent_slot current params) (\<lambda>threshold.
     Inr (is_one_confirmed F False (wn_support win) threshold))))"

section \<open>When batches join\<close>

definition continues :: "fcr_batch_output \<Rightarrow> fcr_batch_output \<Rightarrow> bool" where
  "continues a b \<longleftrightarrow>
     bo_accumulator_commitment b = bo_accumulator_commitment a \<and>
     bo_committee_root b = bo_committee_root a \<and>
     bo_total_active_balance b = bo_total_active_balance a \<and>
     bo_parent_head_root b = bo_head_root a \<and>
     bo_first_slot b = bo_first_slot a + bo_slot_count a"

definition window_of :: "fcr_batch_output list \<Rightarrow> fcr_window" where
  "window_of bs = (window_open (hd bs))\<lparr>wn_support := sum_list (map bo_support bs),
     wn_last_slot := bo_first_slot (last bs) + bo_slot_count (last bs) - 1,
     wn_head_root := bo_head_root (last bs), wn_head_slot := bo_head_slot (last bs)\<rparr>"

lemma window_of_one: "window_of [b] = window_open b"
  by (simp add: window_of_def window_open_def)

lemma successively_snoc:
  "successively P (xs @ [x]) \<longleftrightarrow> successively P xs \<and> (xs = [] \<or> P (last xs) x)"
  by (simp add: successively_append_iff)

lemma continues_first:
  "bs \<noteq> [] \<Longrightarrow> successively continues bs \<Longrightarrow>
     bo_accumulator_commitment (last bs) = bo_accumulator_commitment (hd bs) \<and>
     bo_committee_root (last bs) = bo_committee_root (hd bs) \<and>
     bo_total_active_balance (last bs) = bo_total_active_balance (hd bs)"
proof (induction bs rule: rev_induct)
  case (snoc b bs)
  then show ?case
    by (cases "bs = []") (simp_all add: successively_snoc continues_def hd_append)
qed simp

lemma continues_all:
  assumes "successively continues bs"
  shows "\<forall>b\<in>set bs. bo_committee_root b = bo_committee_root (hd bs)"
  using assms
proof (induction bs rule: rev_induct)
  case (snoc b bs)
  show ?case
  proof (cases "bs = []")
    case False
    then have step: "continues (last bs) b" "successively continues bs"
      using snoc.prems by (simp_all add: successively_snoc)
    have "bo_committee_root b = bo_committee_root (hd bs)"
      using step(1) continues_first [OF False step(2)] by (simp only: continues_def)
    moreover have "hd (bs @ [b]) = hd bs" using False by simp
    ultimately show ?thesis using snoc.IH [OF step(2)] unfolding set_append by auto
  qed simp
qed simp

lemma window_support_sum:
  "sum_list (map (\<lambda>b. unat (bo_support b)) bs) < 2 ^ 64 \<Longrightarrow>
     unat (sum_list (map bo_support bs)) = sum_list (map (\<lambda>b. unat (bo_support b)) bs)"
proof (induction bs)
  case (Cons b bs)
  then show ?case by (simp add: unat_word_ariths)
qed simp

lemma window_step_Inr:
  assumes "bs \<noteq> []" "successively continues bs"
    and "sum_list (map (\<lambda>b. unat (bo_support b)) bs) < 2 ^ 64"
  shows "window_step (window_of bs) b = Inr win \<longleftrightarrow>
    continues (last bs) b \<and> sum_list (map (\<lambda>b. unat (bo_support b)) (bs @ [b])) < 2 ^ 64 \<and>
    win = window_of (bs @ [b])"
proof -
  have support: "unat (wn_support (window_of bs)) = sum_list (map (\<lambda>b. unat (bo_support b)) bs)"
    using window_support_sum [OF assms(3)] by (simp add: window_of_def)
  have fields: "wn_accumulator_commitment (window_of bs) = bo_accumulator_commitment (last bs)"
    "wn_committee_root (window_of bs) = bo_committee_root (last bs)"
    "wn_total_active_balance (window_of bs) = bo_total_active_balance (last bs)"
    "wn_head_root (window_of bs) = bo_head_root (last bs)"
    "wn_last_slot (window_of bs) + 1 = bo_first_slot (last bs) + bo_slot_count (last bs)"
    using continues_first [OF assms(1,2)] by (simp_all add: window_of_def window_open_def)
  have upd: "(window_of bs)\<lparr>wn_support := wn_support (window_of bs) + bo_support b,
      wn_last_slot := bo_first_slot b + bo_slot_count b - 1,
      wn_head_root := bo_head_root b, wn_head_slot := bo_head_slot b\<rparr> = window_of (bs @ [b])"
    using assms(1) by (simp add: window_of_def hd_append)
  show ?thesis
    unfolding window_step_def Let_def ensure_Inr bind_res_Inr expect_Inr checked_add_Some fields support
      continues_def sum_list_append map_append
    using upd by auto
qed

lemma accumulate_iff:
  "accumulate bs = Inr win \<longleftrightarrow> bs \<noteq> [] \<and> successively continues bs \<and>
     sum_list (map (\<lambda>b. unat (bo_support b)) bs) < 2 ^ 64 \<and> win = window_of bs"
proof (cases bs)
  case (Cons b rest)
  have "fold_res window_step (window_open b) rest = Inr win \<longleftrightarrow> successively continues (b # rest) \<and>
      sum_list (map (\<lambda>b. unat (bo_support b)) (b # rest)) < 2 ^ 64 \<and> win = window_of (b # rest)" for win
  proof (induction rest arbitrary: win rule: rev_induct)
    case Nil
    have "unat (bo_support b) < 2 ^ 64" using unsigned_less [of "bo_support b"] by simp
    then show ?case by (auto simp: window_of_one)
  next
    case (snoc c rest)
    have "fold_res window_step (window_open b) (rest @ [c]) = Inr win \<longleftrightarrow>
        (\<exists>w. fold_res window_step (window_open b) rest = Inr w \<and> window_step w c = Inr win)"
      by (auto simp: fold_res_append)
    also have "\<dots> \<longleftrightarrow> successively continues (b # rest) \<and>
        sum_list (map (\<lambda>b. unat (bo_support b)) (b # rest)) < 2 ^ 64 \<and>
        window_step (window_of (b # rest)) c = Inr win"
      unfolding snoc.IH by blast
    finally show ?case
      using window_step_Inr [of "b # rest" c win] successively_snoc [of continues "b # rest" c] by auto
  qed
  then show ?thesis by (simp add: Cons)
qed simp

text \<open>A window's slots are the batches' slots.\<close>

lemma continues_last_slot:
  "bs \<noteq> [] \<Longrightarrow> successively continues bs \<Longrightarrow>
     bo_first_slot (last bs) + bo_slot_count (last bs) = bo_first_slot (hd bs) + sum_list (map bo_slot_count bs)"
proof (induction bs rule: rev_induct)
  case (snoc b bs)
  then show ?case
    by (cases "bs = []") (simp_all add: successively_snoc continues_def hd_append add.assoc)
qed simp

lemma window_slot_count:
  assumes "accumulate bs = Inr win"
  shows "wn_slot_count win = sum_list (map bo_slot_count bs)"
proof -
  have "bs \<noteq> []" "successively continues bs" "win = window_of bs" using assms by (simp_all add: accumulate_iff)
  then show ?thesis using continues_last_slot [of bs]
    by (simp add: wn_slot_count_def window_of_def window_open_def)
qed

end
