(* ===== verification/SampleFcr.thy ===== *)
theory SampleFcr
  imports SampleChain FcrSupport FcrVerifier
begin

text \<open>
  A sample of the fast confirmation circuits on the concrete library: the two validators of the
  sample registry as the active set of an epoch of one slot, and a batch of that slot in which the
  head of slot 64 is proposed and voted for. \<open>toy_rule\<close> stands in for the third-party crate: a slot's
  weight is its share of the total, the threshold half of the weights less the discount.
\<close>

definition toy_rule :: fast_confirmation where
  "toy_rule = \<lparr>counts_toward_support = (\<lambda>balance slashed equivocating active voted. 0 < balance),
     estimate_committee_weight = (\<lambda>spe t start end. Some ((end - start + 1) * (t div spe))),
     compute_proposer_score = (\<lambda>t spe boost. Some (t div spe * boost div 100)),
     max_adversarial_weight = (\<lambda>weight percent. Some (weight div 100 * percent)),
     adversarial_weight = (\<lambda>a b. saturating_sub a b),
     arith_safety_threshold = (\<lambda>m p a discount. Some (saturating_sub (m + p + 2 * a) discount div 2)),
     is_one_confirmed = (\<lambda>optimistic support threshold. \<not> optimistic \<and> threshold < support)\<rparr>"

definition sample_opened_A :: opened_validator where
  "sample_opened_A = \<lparr>ov_index = 0, ov_pubkey = key_A, ov_balance = 48\<rparr>"

definition sample_opened_B :: opened_validator where
  "sample_opened_B = \<lparr>ov_index = 1, ov_pubkey = key_B, ov_balance = 16\<rparr>"

definition sample_seed :: bytes32 where "sample_seed = replicate 32 9"

definition sample_fc_witness :: fcr_committee_witness where
  "sample_fc_witness = \<lparr>fc_accumulator_commitment = sample_commitment, fc_acc_root = sample_root,
     fc_total_active_balance = 64, fc_seed = sample_seed, fc_epoch = 2,
     fc_active = [sample_opened_A, sample_opened_B], fc_acc_multi_proof = []\<rparr>"

definition sample_fc_output :: fcr_committee_output where
  "sample_fc_output = \<lparr>fco_accumulator_commitment = sample_commitment, fco_seed = sample_seed,
     fco_epoch = 2, fco_committee_root = leaf_slot, active_count = 2\<rparr>"

lemma one_slot:
  assumes "p < n" "n < 2 ^ 64"
  shows "slot_of_position p n 1 = 0"
proof -
  have "unat (slot_of_position p n 1) = (unat (1::u64) * (p + 1) - 1) div n"
    by (rule slot_of_position_nat(1) [OF assms(1)]) (use assms(2) in simp_all)
  then have "unat (slot_of_position p n 1) = 0" using assms(1) by simp
  then show ?thesis by (simp only: unat_eq_zero)
qed

lemma sample_assign:
  "fold_res (assign_step toy_zisk toy_rule 2 seed (pivots toy_zisk seed 2) 1) [None]
     [(0, sample_opened_A), (1, sample_opened_B)] = Inr [Some (Some key_AB, 64)]"
proof -
  have "committee_position toy_zisk k 2 seed (pivots toy_zisk seed 2) < 2" if "k < 2" for k
    by (rule rounds_cancel(3)) (use that in simp_all)
  then have "slot_of_position (committee_position toy_zisk k 2 seed (pivots toy_zisk seed 2)) 2 1 = 0" if "k < 2" for k
    using that by (intro one_slot) simp_all
  from this [of 0] this [of 1] show ?thesis
    by (simp add: assign_step_def toy_rule_def sample_opened_A_def sample_opened_B_def toy_sums
        Let_def)
qed

lemma sample_fc_committee:
  "verify_fcr_committee_with_depth toy_zisk toy_rule sample_fc_witness 1 1 = Inr sample_fc_output"
proof -
  have fields: "fc_active sample_fc_witness = [sample_opened_A, sample_opened_B]"
    "fc_acc_root sample_fc_witness = sample_root" "fc_total_active_balance sample_fc_witness = 64"
    "fc_accumulator_commitment sample_fc_witness = sample_commitment"
    "fc_acc_multi_proof sample_fc_witness = []" "fc_seed sample_fc_witness = sample_seed"
    "fc_epoch sample_fc_witness = 2"
    by (simp_all add: sample_fc_witness_def)
  have scan: "fold_res (active_step toy_zisk) ([], 0, None) [sample_opened_A, sample_opened_B] =
      Inr ([(leaf_A, 0), (leaf_B, 1)], 64, Some 1)"
    by (simp add: active_step_def sample_opened_A_def sample_opened_B_def toy_hashes checked_add_def)
  have root: "batch_root (compress toy_zisk) [(leaf_A, 0), (leaf_B, 1)] [] 1 = Inr sample_root"
    by (simp add: batch_root_def batch_root_columns_def toy_hashes)
  have n: "length [sample_opened_A, sample_opened_B] = 2"
    "zip [0..<2] [sample_opened_A, sample_opened_B] = [(0, sample_opened_A), (1, sample_opened_B)]"
    "replicate (unat (1::u64)) None = [None]"
    by (simp_all add: numeral_2_eq_2)
  have close: "fold_res close_step [] [Some (Some key_AB, 64)] = Inr [Some sample_aggregate]"
    by (simp add: close_step_def close_slot_def sample_aggregate_def)
  have tree: "committee_tree_root toy_zisk [Some sample_aggregate] = Inr leaf_slot"
    by (auto simp: committee_tree_root_eq slot_leaf_def committee_leaf_def sample_aggregate_def
        toy_hashes intro!: toy_slot_tree [symmetric])
  have one: "(1::u64) \<le> MAX_SLOTS" by (simp add: MAX_SLOTS_def TREE_DEPTH_def word_le_nat_alt)
  show ?thesis
    unfolding verify_fcr_committee_with_depth_def fields scan bind_res_of_Inr prod.case root
      map_err_of_Inr n Let_def sample_assign close tree
    using one by (simp add: toy_hashes sample_fc_output_def)
qed

lemma sample_fcr_fine: "fcr_fine toy_zisk sample_registry 1 sample_fc_witness"
proof -
  have leaves: "map (active_leaf toy_zisk) (fc_active sample_fc_witness) = [(leaf_A, 0), (leaf_B, 1)]"
    by (simp add: active_leaf_def sample_fc_witness_def sample_opened_A_def sample_opened_B_def toy_hashes)
  have aux: "fc_acc_multi_proof sample_fc_witness = []" by (simp add: sample_fc_witness_def)
  have pairs: "opening_pairs toy_zisk sample_registry 1 [(leaf_A, 0), (leaf_B, 1)] [] = {(leaf_A, leaf_B)}"
    unfolding opening_pairs_def sample_registry_tree by simp
  have "leaf_binding toy_zisk (registry_entries sample_registry 1 \<union> entry_of ` set (fc_active sample_fc_witness))"
    unfolding sample_registry_tree
    by (rule leaf_binding_mono [OF sample_leaf_binding])
      (auto simp: sample_fc_witness_def sample_opened_A_def sample_opened_B_def entry_of_def)
  then show ?thesis
    unfolding fcr_fine_def leaves aux pairs by (simp add: collision_free_def)
qed

lemma sample_fcr_registry:
  "fc_acc_root sample_fc_witness = registry_root toy_zisk sample_registry 1"
  "registry_total sample_registry 1 = unat (fc_total_active_balance sample_fc_witness)"
  unfolding sample_registry_tree by (simp_all add: sample_fc_witness_def)

lemma sample_active_positions: "active_positions sample_registry 1 = [0, 1]"
  by (simp add: active_positions_def sample_registry_def upt_rec)


section \<open>The batch\<close>

text \<open>Slot 64 with a block on the parent head, the committee voting for it, its second member absent.\<close>

definition sample_header :: block_header_witness where
  "sample_header = \<lparr>bh_slot = 64, bh_proposer_index = 0, bh_parent_root = replicate 32 5,
     bh_state_root = replicate 32 0, bh_body_root = replicate 32 0\<rparr>"

definition sample_head :: bytes32 where
  "sample_head = header_root toy_zisk sample_header"

definition sample_head_vote :: attestation_witness where
  "sample_head_vote = \<lparr>data_slot = 64, data_index = 0, data_beacon_block_root = sample_head,
     data_source_epoch = 1, data_source_root = replicate 32 1,
     data_target_epoch = 2, data_target_root = replicate 32 2,
     signature = replicate 96 1, attesting_validators = []\<rparr>"

definition sample_fcr_slot :: fcr_slot_witness where
  "sample_fcr_slot =
     \<lparr>fs_complement = \<lparr>slot_in_epoch = 0, committee = sample_aggregate, primary = [sample_head_vote],
        secondary = [], absentees = [sample_absentee]\<rparr>,
      head_header = Some sample_header\<rparr>"

definition sample_batch_witness :: "u64 \<Rightarrow> fcr_batch_witness" where
  "sample_batch_witness current =
     \<lparr>fb_accumulator_commitment = sample_commitment, fb_acc_root = sample_root,
      fb_total_active_balance = 64, fb_committee_root = leaf_slot, fb_acc_multi_proof = [leaf_A],
      fb_committee_multi_proof = replicate 5 ZERO, fb_signing_domain = replicate 32 3,
      parent_head_root = replicate 32 5, parent_head_slot = 63, fb_byzantine_threshold = 25,
      fb_proposer_score_boost = 40, current_slot = current, fb_slots = [sample_fcr_slot]\<rparr>"

definition sample_batch_state :: batch_state where
  "sample_batch_state = \<lparr>bs_support = 48, bs_empty = 0, bs_opened = [(leaf_B, 1)],
     bs_committee_leaves = [(leaf_slot, 0)],
     bs_messages = [fb_message toy_zisk (replicate 32 3) [sample_head_vote] key_A],
     bs_head_root = sample_head, bs_head_slot = 64, bs_previous = Some 0\<rparr>"

lemma sample_batch_step:
  "batch_step toy_zisk (replicate 32 3) (batch_init (sample_batch_witness c)) sample_fcr_slot =
     Inr sample_batch_state"
proof -
  have head: "advance_head toy_zisk (replicate 32 5, 63) (Some sample_header) = Inr (sample_head, 64)"
    by (simp add: advance_head_def sample_header_def sample_head_def word_less_nat_alt)
  have away: "absentee_step toy_zisk (Some key_AB, [], 64) sample_absentee =
      Inr (Some key_A, [(leaf_B, 1)], 48)"
    by (simp add: absentee_step_def sample_sub checked_sub_def opened_leaf_def sample_absentee_def toy_hashes
        word_le_nat_alt)
  show ?thesis
    unfolding batch_step_def Let_def
    by (simp add: batch_init_def sample_batch_witness_def sample_fcr_slot_def head away sample_aggregate_def
        sample_batch_state_def committee_leaf_def toy_hashes MAX_SLOTS_def TREE_DEPTH_def SLOTS_PER_EPOCH_def)
      (simp add: sample_head_vote_def sample_header_def)
qed

lemma sample_batch_slots:
  "batch_slots toy_zisk (sample_batch_witness c) 1 = Inr sample_batch_state"
proof -
  have fields: "fb_slots (sample_batch_witness c) = [sample_fcr_slot]"
    "fb_signing_domain (sample_batch_witness c) = replicate 32 3"
    "fb_acc_root (sample_batch_witness c) = sample_root"
    "fb_total_active_balance (sample_batch_witness c) = 64"
    "fb_accumulator_commitment (sample_batch_witness c) = sample_commitment"
    "fb_acc_multi_proof (sample_batch_witness c) = [leaf_A]"
    "fb_committee_multi_proof (sample_batch_witness c) = replicate 5 ZERO"
    "fb_committee_root (sample_batch_witness c) = leaf_slot"
    by (simp_all add: sample_batch_witness_def)
  have run: "fold_res (batch_step toy_zisk (replicate 32 3)) (batch_init (sample_batch_witness c)) [sample_fcr_slot] =
      Inr sample_batch_state"
    by (simp add: sample_batch_step)
  have acc: "batch_root (compress toy_zisk) [(leaf_B, 1)] [leaf_A] 1 = Inr sample_root"
    by (simp add: batch_root_def batch_root_columns_def toy_hashes)
  have com: "batch_root (compress toy_zisk) [(leaf_slot, 0)] (replicate 5 ZERO) TREE_DEPTH = Inr leaf_slot"
    by (simp add: batch_root_def batch_root_columns_def toy_hashes TREE_DEPTH_def numeral_eq_Suc)
  have st: "bs_opened sample_batch_state = [(leaf_B, 1)]"
    "bs_committee_leaves sample_batch_state = [(leaf_slot, 0)]"
    "bs_messages sample_batch_state = [fb_message toy_zisk (replicate 32 3) [sample_head_vote] key_A]"
    by (simp_all add: sample_batch_state_def)
  have miller: "miller_accumulator toy_zisk [fb_message toy_zisk (replicate 32 3) [sample_head_vote] key_A] =
      Inr (Some FP12_ONE)"
    unfolding fb_message_def Let_def
    by (simp add: sample_head_vote_def toy_miller_message compute_signing_root_def)
  show ?thesis
    unfolding batch_slots_def fields run bind_res_of_Inr Let_def st miller com map_err_of_Inr
    using acc by (simp add: toy_hashes toy_final_exp)
qed

definition sample_batch_output :: "u64 \<Rightarrow> fcr_batch_output" where
  "sample_batch_output threshold =
     \<lparr>bo_accumulator_commitment = sample_commitment, bo_committee_root = leaf_slot,
      bo_parent_head_root = replicate 32 5, bo_head_root = sample_head, bo_head_slot = 64, bo_support = 48,
      bo_total_active_balance = 64, bo_first_slot = 64, bo_slot_count = 1, bo_threshold = threshold,
      bo_confirmed = (threshold < 48), bo_byzantine_threshold = 25, bo_proposer_score_boost = 40,
      bo_empty_slot_support = 0\<rparr>"

lemma sample_batch:
  "verify_fcr_batch_with_depth toy_zisk toy_rule (sample_batch_witness 65) 1 = Inr (sample_batch_output 1)"
  "verify_fcr_batch_with_depth toy_zisk toy_rule (sample_batch_witness 127) 1 = Inr (sample_batch_output 88)"
  unfolding verify_fcr_batch_with_depth_def sample_batch_slots bind_res_of_Inr
  by (simp_all add: batch_threshold_def batch_output_def sample_batch_output_def sample_batch_state_def
      sample_batch_witness_def toy_rule_def SLOTS_PER_EPOCH_def saturating_sub_def sample_fcr_slot_def
      sample_head_vote_def)


section \<open>The batch against the assignment\<close>

lemma sample_assigned_slot: "k < 2 \<Longrightarrow> assigned_slot toy_zisk seed 1 2 k = 0"
proof -
  assume "k < 2"
  then have "committee_position toy_zisk k 2 seed (pivots toy_zisk seed 2) < 2"
    by (intro rounds_cancel(3)) simp_all
  then have "slot_of_position (committee_position toy_zisk k 2 seed (pivots toy_zisk seed 2)) 2 1 = 0"
    by (rule one_slot) simp
  then show ?thesis by (simp only: assigned_slot_def unsigned_0)
qed

lemma sample_slot_entries:
  "slot_entries toy_zisk sample_registry 1 seed 1 s = (if s = 0 then [(key_A, 48), (key_B, 16)] else [])"
proof -
  have len: "length [0, 1::nat] = 2" "[0..<2] = [0, 1]" by (simp_all add: upt_rec)
  have slots: "assigned_slot toy_zisk seed 1 2 0 = 0" "assigned_slot toy_zisk seed 1 2 1 = 0"
    by (rule sample_assigned_slot, simp)+
  have "the (sample_registry ([0, 1] ! 0)) = (key_A, 48)" "the (sample_registry ([0, 1] ! 1)) = (key_B, 16)"
    by (simp_all add: sample_registry_def)
  then show ?thesis
    unfolding slot_entries_def sample_active_positions Let_def len filter.simps slots by simp
qed

lemma sample_slot_aggregate:
  "entries_aggregate toy_zisk (slot_entries toy_zisk sample_registry 1 seed 1 s) =
     (if s = 0 then Some (key_AB, 64) else None)"
  unfolding sample_slot_entries
  by (simp add: entries_aggregate_def aggregate_points_def toy_sums)

lemma sample_registry_slot_leaf:
  "registry_slot_leaf toy_zisk sample_registry 1 seed 1 = (\<lambda>s. if s = 0 then leaf_slot else ZERO)"
  unfolding registry_slot_leaf_def entries_leaf_aggregate sample_slot_aggregate
  by (rule ext) (simp add: toy_hashes)

lemma sample_batch_fine:
  "batch_fine toy_zisk sample_registry 1 seed 1 (sample_batch_witness c)"
proof -
  let ?w = "sample_batch_witness c"
  have leaves: "batch_leaves toy_zisk ?w = [(leaf_slot, 0)]"
    by (simp add: batch_leaves_def sample_batch_witness_def sample_fcr_slot_def sample_aggregate_def
        committee_leaf_def toy_hashes)
  have "tree_pairs (compress toy_zisk) (registry_slot_leaf toy_zisk sample_registry 1 seed 1) 5 \<subseteq>
      {(leaf_slot, ZERO), (ZERO, ZERO)}"
    unfolding sample_registry_slot_leaf by (rule toy_tree_pairs) simp_all
  moreover have "batch_pairs (compress toy_zisk) 5 [0] [leaf_slot] (replicate 5 ZERO) = {(leaf_slot, ZERO)}"
    by (simp add: toy_hashes numeral_eq_Suc)
  moreover have "fb_committee_multi_proof ?w = replicate 5 ZERO" by (simp add: sample_batch_witness_def)
  ultimately have pairs: "batch_pairs (compress toy_zisk) 5 (map snd (batch_leaves toy_zisk ?w))
      (map fst (batch_leaves toy_zisk ?w)) (fb_committee_multi_proof ?w) \<union>
      tree_pairs (compress toy_zisk) (registry_slot_leaf toy_zisk sample_registry 1 seed 1) 5 \<subseteq>
      {(leaf_slot, ZERO), (ZERO, ZERO)}"
    by (simp add: leaves)
  have "collision_free (compress toy_zisk) {(leaf_slot, ZERO), (ZERO, ZERO)}"
    using toy_leaf_values by (auto simp: collision_free_def toy_hashes)
  then have "collision_free (compress toy_zisk) P" if "P \<subseteq> {(leaf_slot, ZERO), (ZERO, ZERO)}" for P
    using that unfolding collision_free_def by blast
  note free = this [OF pairs]
  show ?thesis
    unfolding batch_fine_def
  proof (rule conjI [OF free])
    show "leaf_binding toy_zisk
       ((\<lambda>e. (ca_pubkey (committee (fs_complement e)), ca_balance (committee (fs_complement e)))) `
          set (fb_slots ?w) \<union>
        {x. \<exists>s<32. entries_aggregate toy_zisk (slot_entries toy_zisk sample_registry 1 seed 1 s) = Some x})"
      unfolding sample_slot_aggregate
      by (rule leaf_binding_mono [OF sample_leaf_binding])
        (auto simp: sample_batch_witness_def sample_fcr_slot_def sample_aggregate_def
          split: if_splits)
  qed
qed

lemma sample_batch_root:
  "fb_committee_root (sample_batch_witness c) = registry_committee_root toy_zisk sample_registry 1 sample_seed 1"
  using fcr_active_registry(3) [OF sample_fc_committee sample_fcr_fine sample_fcr_registry]
  by (simp add: sample_batch_witness_def sample_fc_output_def sample_fc_witness_def)

end
