(* ===== verification/FcrWindow.thy ===== *)
theory FcrWindow
  imports FcrSupport FcrVerifier
begin

text \<open>
  Windows of accepted batches. The verifier compares slots of the chain, the circuit opens slots of an
  epoch; the two agree modulo 32, so in a window of at most 32 slots no committee is opened twice and
  the joined support is within the registry's total.
\<close>

definition slot_number :: "fcr_slot_witness \<Rightarrow> nat" where
  "slot_number e = unat (slot_in_epoch (fs_complement e))"

lemma unat_mod_32: "unat (a + b :: u64) mod 32 = (unat a + unat b) mod 32"
proof -
  have "(32::nat) dvd 2 ^ 64" by simp
  then show ?thesis by (simp add: unat_word_ariths mod_mod_cancel)
qed

lemma batch_output_slots:
  assumes "verify_fcr_batch_with_depth Z F w d = Inr b"
  shows "map slot_number (fb_slots w) = map (\<lambda>k. (unat (bo_first_slot b) + k) mod 32) [0..<length (fb_slots w)]"
    and "fb_slots w \<noteq> []" "unat (bo_slot_count b) = length (fb_slots w)"
    and "bo_committee_root b = fb_committee_root w"
proof -
  from assms obtain st threshold where st: "batch_slots Z w d = Inr st"
    and b: "b = batch_output F w st threshold"
    by (auto simp: verify_fcr_batch_with_depth_def)
  let ?es = "fb_slots w" and ?slot = "\<lambda>e. slot_in_epoch (fs_complement e)"
  note acc = batch_slots_Inr [OF st]
  show ne: "?es \<noteq> []" by (rule acc(2))
  show "bo_committee_root b = fb_committee_root w" by (simp add: b batch_output_def)
  have first: "?slot (hd ?es) = bo_first_slot b mod 32"
    using acc(1) ne by (simp add: batch_summary_def b batch_output_def)
  have below: "\<forall>e\<in>set ?es. slot_number e < 32"
    using acc(1) by (simp add: batch_summary_def slot_number_def)
  have slots: "?slot (?es ! k) = ?slot (hd ?es) + of_nat k" "slot_number (?es ! k) < 32" if "k < length ?es" for k
    using acc(1) that bspec [OF below nth_mem [OF that]] by (simp_all add: batch_summary_def)
  have len: "length ?es \<le> 32"
  proof -
    have "strictly_increasing (map snd (bs_committee_leaves st))"
      using acc(4) by (simp add: batch_root_def)
    then have "distinct (map ?slot ?es)"
      using acc(1) strictly_increasing_distinct by (simp add: batch_summary_def comp_def)
    then have "distinct (map slot_number ?es)"
      by (simp add: distinct_map inj_on_def slot_number_def word_unat_eq_iff)
    moreover have "set (map slot_number ?es) \<subseteq> {..<32}" using below by auto
    ultimately show ?thesis
      using card_mono [of "{..<32}" "set (map slot_number ?es)"] by (simp only: distinct_card) simp
  qed
  have number: "slot_number (?es ! k) = (unat (bo_first_slot b) + k) mod 32" if k: "k < length ?es" for k
  proof -
    have "slot_number (?es ! k) = unat (?slot (hd ?es) + of_nat k) mod 32"
      using slots [OF k] by (simp add: slot_number_def)
    also have "\<dots> = (unat (bo_first_slot b) mod 32 + k) mod 32"
      unfolding unat_mod_32 first using k len by (simp add: unat_mod_distrib unat_of_nat)
    finally show ?thesis by (simp add: mod_simps)
  qed
  then show "map slot_number ?es = map (\<lambda>k. (unat (bo_first_slot b) + k) mod 32) [0..<length ?es]"
    by (intro nth_equalityI) simp_all
  show "unat (bo_slot_count b) = length ?es" using len by (simp add: b batch_output_def unat_of_nat)
qed

text \<open>The witnesses of a run of batches, and the slots they list.\<close>

definition batches_accepted ::
  "zisk \<Rightarrow> fast_confirmation \<Rightarrow> nat \<Rightarrow> fcr_batch_witness list \<Rightarrow> fcr_batch_output list \<Rightarrow> bool" where
  "batches_accepted Z F d ws bs \<longleftrightarrow> list_all2 (\<lambda>w b. verify_fcr_batch_with_depth Z F w d = Inr b) ws bs"

definition window_entries :: "fcr_batch_witness list \<Rightarrow> fcr_slot_witness list" where
  "window_entries ws = concat (map fb_slots ws)"

lemma map_mod_shift:
  "map (\<lambda>k. (a + k) mod n) [0..<i] @ map (\<lambda>k. (b + k) mod n) [0..<j] = map (\<lambda>k. (a + k) mod n) [0..<i + j]"
  if "b mod n = (a + i) mod n" for a b i j n :: nat
proof (rule nth_equalityI)
  fix t assume t: "t < length (map (\<lambda>k. (a + k) mod n) [0..<i] @ map (\<lambda>k. (b + k) mod n) [0..<j])"
  have "(b + k) mod n = (a + i + k) mod n" for k using that by (metis mod_add_left_eq)
  then show "(map (\<lambda>k. (a + k) mod n) [0..<i] @ map (\<lambda>k. (b + k) mod n) [0..<j]) ! t =
      map (\<lambda>k. (a + k) mod n) [0..<i + j] ! t"
    using t by (auto simp: nth_append)
qed simp

lemma window_slot_numbers:
  assumes "batches_accepted Z F d ws bs" "bs \<noteq> []" "successively continues bs"
  shows "map slot_number (window_entries ws) =
    map (\<lambda>k. (unat (bo_first_slot (hd bs)) + k) mod 32) [0..<length (window_entries ws)]"
  using assms unfolding batches_accepted_def
proof (induction ws bs rule: list_all2_induct)
  case (Cons w ws b bs)
  note one = batch_output_slots [OF Cons.hyps(1)]
  show ?case
  proof (cases "bs = []")
    case True
    then have "ws = []" using Cons.hyps(2) by simp
    then show ?thesis using one(1) by (simp add: window_entries_def)
  next
    case False
    then have next_b: "continues b (hd bs)" and rest: "successively continues bs"
      using Cons.prems(2) by (cases bs; simp)+
    have "unat (bo_first_slot (hd bs)) mod 32 = (unat (bo_first_slot b) + length (fb_slots w)) mod 32"
      using next_b one(3) by (simp add: continues_def unat_mod_32)
    from map_mod_shift [OF this] show ?thesis
      using one(1) Cons.IH [OF False rest] by (simp add: window_entries_def)
  qed
qed simp

lemma distinct_mod_shift: "n \<le> m \<Longrightarrow> distinct (map (\<lambda>k. (a + k) mod m) [0..<n])" for a n m :: nat
proof -
  assume n: "n \<le> m"
  have "inj_on (\<lambda>k. (a + k) mod m) {0..<n}"
  proof (rule inj_onI)
    fix i j assume ij: "i \<in> {0..<n}" "j \<in> {0..<n}" and eq: "(a + i) mod m = (a + j) mod m"
    have "j' \<le> i'" if "(a + i') mod m = (a + j') mod m" "j' < m" for i' j'
    proof (rule ccontr)
      assume "\<not> j' \<le> i'"
      then have "m dvd a + j' - (a + i')" using that(1) mod_eq_dvd_iff_nat [of "a + i'" "a + j'" m] by simp
      then show False using \<open>\<not> j' \<le> i'\<close> that(2) by (auto dest: dvd_imp_le)
    qed
    from this [OF eq] this [OF eq [symmetric]] show "i = j" using ij n by simp
  qed
  then show "distinct (map (\<lambda>k. (a + k) mod m) [0..<n])" by (simp add: distinct_map)
qed

lemma window_support_stakes:
  assumes "batches_accepted Z F d ws bs" "\<forall>w\<in>set ws. batch_fine Z R d seed spe w"
    and "\<forall>b\<in>set bs. bo_committee_root b = registry_committee_root Z R d seed spe"
  shows "sum_list (map (\<lambda>b. unat (bo_support b)) bs) \<le>
    sum_list (map (\<lambda>e. slot_stake Z R d seed spe (slot_number e)) (window_entries ws))"
  using assms unfolding batches_accepted_def
proof (induction ws bs rule: list_all2_induct)
  case (Cons w ws b bs)
  from Cons.hyps(1) obtain st threshold where st: "batch_slots Z w d = Inr st"
    and b: "b = batch_output F w st threshold"
    by (auto simp: verify_fcr_batch_with_depth_def)
  have "fb_committee_root w = registry_committee_root Z R d seed spe"
    using Cons.prems(2) by (simp add: b batch_output_def)
  from batch_support_stakes [OF st _ this] Cons.prems(1)
  have "unat (bo_support b) \<le> sum_list (map (\<lambda>e. slot_stake Z R d seed spe (slot_number e)) (fb_slots w))"
    by (simp add: b batch_output_def slot_number_def)
  then show ?case using Cons by (simp add: window_entries_def)
qed simp

lemma window_entries_length:
  assumes "batches_accepted Z F d ws bs"
  shows "length (window_entries ws) = sum_list (map (\<lambda>b. unat (bo_slot_count b)) bs)"
  using assms unfolding batches_accepted_def
proof (induction ws bs rule: list_all2_induct)
  case (Cons w ws b bs)
  then show ?case using batch_output_slots(3) [OF Cons.hyps(1)] by (simp add: window_entries_def)
qed (simp add: window_entries_def)

end
