(* ===== verification/Fcr_Properties.thy ===== *)
theory Fcr_Properties
  imports SampleFcr FcrWindow
begin

text \<open>
  The properties of the fast-confirmation circuits, their verifier and the shuffle they rest on.
\<close>

section \<open>The window of batches\<close>

text \<open>C7: Stake is counted once across a window: batches that the circuit accepted against the
  assignment of one registry and that the verifier joins into a window of at most an epoch's slots
  have a support within the registry's total. The verifier itself only compares the chain's slots;
  that no committee is counted twice comes from the circuits' slots agreeing with them modulo 32.\<close>

theorem window_support_within_total:
  assumes "accumulate bs = Inr win" "batches_accepted Z F d ws bs"
    and "\<forall>w\<in>set ws. batch_fine Z R d seed spe w"
    and "wn_committee_root win = registry_committee_root Z R d seed spe"
    and "sum_list (map (\<lambda>b. unat (bo_slot_count b)) bs) \<le> 32"
  shows "unat (wn_support win) \<le> registry_total R d"
proof -
  have bs: "bs \<noteq> []" "successively continues bs" "win = window_of bs"
    "sum_list (map (\<lambda>b. unat (bo_support b)) bs) < 2 ^ 64"
    using assms(1) by (simp_all add: accumulate_iff)
  have "bo_committee_root (hd bs) = wn_committee_root win"
    by (simp add: bs(3) window_of_def window_open_def)
  then have roots: "\<forall>b\<in>set bs. bo_committee_root b = registry_committee_root Z R d seed spe"
    using continues_all [OF bs(2)] by (simp only: assms(4))
  have len: "length (window_entries ws) = sum_list (map (\<lambda>b. unat (bo_slot_count b)) bs)"
    using window_entries_length [OF assms(2)] .
  have "distinct (map slot_number (window_entries ws))"
    unfolding window_slot_numbers [OF assms(2) bs(1,2)]
    by (rule distinct_mod_shift) (use len assms(5) in simp)
  from distinct_slot_stakes(2) [OF this, of Z R d seed spe] window_support_stakes [OF assms(2,3) roots]
  have "sum_list (map (\<lambda>b. unat (bo_support b)) bs) \<le> registry_total R d" by linarith
  moreover have "wn_support win = sum_list (map bo_support bs)" by (simp add: bs(3) window_of_def)
  ultimately show ?thesis using window_support_sum [OF bs(4)] by simp
qed

theorem window_support_within_total_witness:
  "unat (wn_support (window_open (sample_batch_output 1))) \<le> 64"
proof -
  have run: "accumulate [sample_batch_output 1] = Inr (window_open (sample_batch_output 1))" by simp
  have ok: "batches_accepted toy_zisk toy_rule 1 [sample_batch_witness 65] [sample_batch_output 1]"
    unfolding batches_accepted_def using sample_batch(1) by simp
  have root: "wn_committee_root (window_open (sample_batch_output 1)) =
      registry_committee_root toy_zisk sample_registry 1 sample_seed 1"
    using sample_batch_root [of 65]
    by (simp add: window_open_def sample_batch_output_def sample_batch_witness_def)
  have fine: "\<forall>w\<in>set [sample_batch_witness 65]. batch_fine toy_zisk sample_registry 1 sample_seed 1 w"
    using sample_batch_fine by simp
  have "sum_list (map (\<lambda>b. unat (bo_slot_count b)) [sample_batch_output 1]) \<le> 32"
    by (simp add: sample_batch_output_def)
  from window_support_within_total [OF run ok fine root this] show ?thesis
    by (simp only: sample_registry_tree)
qed

text \<open>C14: The verifier joins batches exactly when they are not empty, each continues the one before
  it (same accumulator, committee root and total, the head chained, the slots contiguous) and the
  supports do not overflow; the window's support and slots are then the batches' together.\<close>

theorem window_joins:
  "accumulate bs = Inr win \<longleftrightarrow> bs \<noteq> [] \<and> successively continues bs \<and>
     sum_list (map (\<lambda>b. unat (bo_support b)) bs) < 2 ^ 64 \<and>
     win = (window_open (hd bs))\<lparr>wn_support := sum_list (map bo_support bs),
       wn_last_slot := bo_first_slot (hd bs) + sum_list (map bo_slot_count bs) - 1,
       wn_head_root := bo_head_root (last bs), wn_head_slot := bo_head_slot (last bs)\<rparr>"
  unfolding accumulate_iff window_of_def using continues_last_slot [of bs] by auto

section \<open>The batch\<close>

text \<open>C9: What an accepted batch has counted is stake of the assignment: when its committee root is
  the one a committee proof computed for the same registry, its support and the support of its
  empty slots together are within the balances of the validators the shuffle put in its slots.\<close>

theorem batch_support_within_assignment:
  assumes "verify_fcr_batch_with_depth Z F w d = Inr b"
    and "verify_fcr_committee_with_depth Z F cw spe d = Inr com"
    and "bo_committee_root b = fco_committee_root com"
    and "fc_acc_root cw = registry_root Z R d" "registry_total R d = unat (fc_total_active_balance cw)"
    and "fcr_fine Z R d cw" "batch_fine Z R d (fc_seed cw) spe w"
  shows "unat (bo_support b) + unat (bo_empty_slot_support b) \<le>
      (\<Sum>s\<in>slot_number ` set (fb_slots w). slot_stake Z R d (fc_seed cw) spe s) \<and>
    (\<Sum>s\<in>slot_number ` set (fb_slots w). slot_stake Z R d (fc_seed cw) spe s) \<le> registry_total R d"
proof -
  from assms(1) obtain st threshold where st: "batch_slots Z w d = Inr st"
    and b: "b = batch_output F w st threshold"
    by (auto simp: verify_fcr_batch_with_depth_def)
  have "fb_committee_root w = registry_committee_root Z R d (fc_seed cw) spe"
    using fcr_active_registry(3) [OF assms(2,6,4,5)] assms(3) by (simp add: b batch_output_def)
  from batch_support_bounded [OF st assms(7) this]
  show ?thesis
    by (simp add: b batch_output_def slot_number_def [abs_def])
qed

theorem batch_support_within_assignment_witness:
  "unat (bo_support (sample_batch_output 1)) + unat (bo_empty_slot_support (sample_batch_output 1)) \<le>
     (\<Sum>s\<in>slot_number ` set (fb_slots (sample_batch_witness 65)).
        slot_stake toy_zisk sample_registry 1 (fc_seed sample_fc_witness) 1 s)"
proof -
  have "bo_committee_root (sample_batch_output 1) = fco_committee_root sample_fc_output"
    by (simp add: sample_batch_output_def sample_fc_output_def)
  from batch_support_within_assignment [OF sample_batch(1) sample_fc_committee this
      sample_fcr_registry sample_fcr_fine sample_batch_fine]
  show ?thesis by (rule conjunct1)
qed

text \<open>C13: The slots of an accepted batch are contiguous from the first one, and its heads form a
  chain: every header it carries has as parent the head before its slot, from the parent head on, is
  for the slot its votes are for, and the last one gives the published head.\<close>

theorem batch_chain:
  assumes "verify_fcr_batch_with_depth Z F w d = Inr b"
  shows "unat (bo_slot_count b) = length (fb_slots w) \<and>
    (\<forall>i<length (fb_slots w). slot_number (fb_slots w ! i) = (unat (bo_first_slot b) + i) mod 32) \<and>
    (\<forall>i<length (fb_slots w). \<forall>h. head_header (fb_slots w ! i) = Some h \<longrightarrow>
      bh_parent_root h = foldl (head_after Z) (bo_parent_head_root b) (take i (fb_slots w)) \<and>
      bh_slot h = data_slot (hd (primary (fs_complement (fb_slots w ! i))))) \<and>
    bo_head_root b = foldl (head_after Z) (bo_parent_head_root b) (fb_slots w)"
proof -
  from assms obtain st threshold where st: "batch_slots Z w d = Inr st"
    and b: "b = batch_output F w st threshold"
    by (auto simp: verify_fcr_batch_with_depth_def)
  note slots = batch_output_slots [OF assms]
  have "slot_number (fb_slots w ! i) = (unat (bo_first_slot b) + i) mod 32" if "i < length (fb_slots w)" for i
    using arg_cong [OF slots(1), of "\<lambda>xs. xs ! i"] that by simp
  then show ?thesis
    using batch_slots_Inr(1) [OF st] slots(3) by (simp add: batch_summary_def b batch_output_def)
qed

theorem batch_chain_witness:
  "bh_parent_root sample_header = bo_parent_head_root (sample_batch_output 1)"
  using batch_chain [OF sample_batch(1)]
  by (simp add: sample_batch_witness_def sample_fcr_slot_def)

text \<open>C15: The window the threshold is sized over is the prover's to choose: \<open>current_slot\<close> is neither
  checked against the batch's slots nor published, so any other value whose threshold can be
  computed is accepted too, with an output that differs in the threshold and the verdict only.\<close>

theorem batch_window_unchecked:
  assumes "verify_fcr_batch_with_depth Z F w d = Inr b"
    and "batch_threshold F (w\<lparr>current_slot := c\<rparr>) (bo_empty_slot_support b) = Inr t"
  shows "verify_fcr_batch_with_depth Z F (w\<lparr>current_slot := c\<rparr>) d =
    Inr (b\<lparr>bo_threshold := t, bo_confirmed := is_one_confirmed F False (bo_support b) t\<rparr>)"
proof -
  from assms(1) obtain st threshold where st: "batch_slots Z w d = Inr st"
    and b: "b = batch_output F w st threshold"
    by (auto simp: verify_fcr_batch_with_depth_def)
  have "batch_slots Z (w\<lparr>current_slot := c\<rparr>) d = Inr st"
    using st by (cases w) (simp only: batch_slots_def batch_init_def fcr_batch_witness.simps)
  then show ?thesis
    using assms(2) by (simp add: verify_fcr_batch_with_depth_def b batch_output_def)
qed

theorem batch_window_unchecked_witness:
  "bo_confirmed (sample_batch_output 1) \<and> \<not> bo_confirmed (sample_batch_output 88) \<and>
   verify_fcr_batch_with_depth toy_zisk toy_rule (sample_batch_witness 65) 1 = Inr (sample_batch_output 1)"
proof -
  have "batch_threshold toy_rule ((sample_batch_witness 127)\<lparr>current_slot := 65\<rparr>)
      (bo_empty_slot_support (sample_batch_output 88)) = Inr 1"
    by (simp add: batch_threshold_def sample_batch_output_def sample_batch_witness_def toy_rule_def
        SLOTS_PER_EPOCH_def saturating_sub_def)
  from batch_window_unchecked [OF sample_batch(2) this]
  have "verify_fcr_batch_with_depth toy_zisk toy_rule (sample_batch_witness 65) 1 = Inr (sample_batch_output 1)"
    by (simp add: sample_batch_witness_def sample_batch_output_def toy_rule_def)
  then show ?thesis by (simp add: sample_batch_output_def)
qed

section \<open>The committee\<close>

text \<open>C8: The committee proof refines its specification: for a witness over the root and total of a
  registry, the opened validators are exactly the registry's active positions in order, with their
  keys and balances, and the committee root is the one of the registry under the seed, so a prover
  has no choice in the partition.\<close>

theorem fcr_committee_refines_registry:
  assumes "verify_fcr_committee_with_depth Z F w spe d = Inr out" "fcr_fine Z R d w"
    and "fc_acc_root w = registry_root Z R d" "registry_total R d = unat (fc_total_active_balance w)"
  shows "map (\<lambda>v. unat (ov_index v) mod 2 ^ d) (fc_active w) = active_positions R d \<and>
    (\<forall>v\<in>set (fc_active w). R (unat (ov_index v) mod 2 ^ d) = Some (ov_pubkey v, ov_balance v)) \<and>
    active_count out = of_nat (length (active_positions R d)) \<and>
    fco_committee_root out = registry_committee_root Z R d (fco_seed out) spe"
proof -
  note act = fcr_active_registry [OF assms]
  note acc = verify_fcr_committee_Inr [OF assms(1)]
  have "active_count out = of_nat (length (active_positions R d))"
    using acc(6) by (simp flip: act(1))
  then show ?thesis using act acc(4) by (simp add: entry_of_def)
qed

theorem fcr_committee_refines_registry_witness:
  "fco_committee_root sample_fc_output =
     registry_committee_root toy_zisk sample_registry 1 (fco_seed sample_fc_output) 1"
  using fcr_committee_refines_registry [OF sample_fc_committee sample_fcr_fine sample_fcr_registry] by blast

text \<open>C12: The slots of the epoch are the slices of the shuffled active set: a validator's position in
  the shuffled set is the inverse of the shuffle at its index, and its slot is the slice that holds
  the position, so the slots partition the active set and none is left out.\<close>

theorem slots_are_slices:
  assumes "0 < n" "0 < unat spe" "unat spe * n < 2 ^ 64"
  shows "{k. k < n \<and> assigned_slot Z seed spe n k = s} =
      (\<lambda>p. shuffled_index Z p n seed (pivots Z seed n)) `
        {n * s div unat spe..<min n (n * (s + 1) div unat spe)} \<and>
    bij_betw (\<lambda>p. shuffled_index Z p n seed (pivots Z seed n)) {..<n} {..<n} \<and>
    (\<forall>k<n. assigned_slot Z seed spe n k < unat spe)"
proof -
  have "n \<le> unat spe * n" using assms(2) by simp
  then have n: "n < 2 ^ 64" using assms(3) by linarith
  note cancel = rounds_cancel [OF assms(1) n, of _ Z seed]
  have "bij_betw (\<lambda>p. shuffled_index Z p n seed (pivots Z seed n)) {..<n} {..<n}"
    by (rule bij_betw_byWitness [where f' = "\<lambda>p. committee_position Z p n seed (pivots Z seed n)"])
      (use cancel in auto)
  moreover have "assigned_slot Z seed spe n k < unat spe" if "k < n" for k
    using slot_of_position_nat [OF cancel(3) [OF that] assms(2,3)] by (simp add: assigned_slot_def)
  ultimately show ?thesis using assigned_slice [OF assms] by simp
qed

theorem slots_are_slices_witness:
  "bij_betw (\<lambda>p. shuffled_index toy_zisk p 5 sample_seed (pivots toy_zisk sample_seed 5)) {..<5} {..<5}"
  using slots_are_slices [of 5 32] by simp

section \<open>The shuffle\<close>

text \<open>C10: The in-place shuffle of the rule guest, with its two mirrored swap loops per round and its
  cached hash and byte, is the reference: its result at \<open>t\<close> is the input at the shuffled index of \<open>t\<close>,
  so the input at \<open>k\<close> ends at the position the committee guest computes for \<open>k\<close>.\<close>

theorem shuffle_list_is_reference:
  assumes "length seed = 32" "length xs < 2 ^ 64"
  shows "shuffle_list Z xs ROUNDS seed False =
      map (\<lambda>t. xs ! shuffled_index Z t (length xs) seed (pivots Z seed (length xs))) [0..<length xs] \<and>
    (\<forall>k<length xs. shuffle_list Z xs ROUNDS seed False !
      committee_position Z k (length xs) seed (pivots Z seed (length xs)) = xs ! k)"
proof -
  have len: "length (shuffle_list Z xs ROUNDS seed False) = length xs"
    using shuffle_list_nth(1) [OF assms] by (cases xs) (auto simp: shuffle_list_def)
  have inverse: "shuffle_list Z xs ROUNDS seed False !
      committee_position Z k (length xs) seed (pivots Z seed (length xs)) = xs ! k" if k: "k < length xs" for k
  proof -
    have "0 < length xs" using k by linarith
    note cancel = rounds_cancel [OF this assms(2) k, of Z seed]
    show ?thesis using shuffle_list_nth(2) [OF assms cancel(3)] cancel(2) by simp
  qed
  have "shuffle_list Z xs ROUNDS seed False =
      map (\<lambda>t. xs ! shuffled_index Z t (length xs) seed (pivots Z seed (length xs))) [0..<length xs]"
    by (rule nth_equalityI) (simp_all add: len shuffle_list_nth(2) [OF assms])
  then show ?thesis using inverse by blast
qed

theorem shuffle_list_is_reference_witness:
  "\<exists>t. shuffle_list toy_zisk [7, 8, 9 :: u32] ROUNDS sample_seed False ! t = 8"
proof -
  have n: "length [7, 8, 9 :: u32] < 2 ^ 64" "1 < length [7, 8, 9 :: u32]" by simp_all
  have "length sample_seed = 32" by (simp add: sample_seed_def)
  from shuffle_list_is_reference [OF this n(1), of toy_zisk, THEN conjunct2, rule_format, OF n(2)]
  show ?thesis by auto
qed

text \<open>C11: The assignment table of the rule guest, cut into committees of the spec, and the slot
  the committee guest computes from a position agree on every active validator; every other entry
  of the table says that the validator has no slot.\<close>

theorem assignments_agree:
  assumes "length seed = 32" "RULE_SLOTS_PER_EPOCH * length active < 2 ^ 64"
    and "distinct active" "\<forall>v\<in>set active. unat v < n"
  shows "\<exists>T. assignment_table Z active seed epoch n = Inr T \<and> length T = n \<and>
    (\<forall>k<length active. T ! unat (active ! k) =
       ucast (epoch * 32 + of_nat (assigned_slot Z seed 32 (length active) k))) \<and>
    (\<forall>i<n. i \<notin> unat ` set active \<longrightarrow> T ! i = NO_SLOT)"
proof -
  obtain T where "assignment_table Z active seed epoch n = Inr T" "length T = n"
    "\<And>k. k < length active \<Longrightarrow> T ! unat (active ! k) = ucast (epoch * 32 + slot_of_position
       (committee_position Z k (length active) seed (pivots Z seed (length active))) (length active) 32)"
    "\<And>i. i < n \<Longrightarrow> i \<notin> unat ` set active \<Longrightarrow> T ! i = NO_SLOT"
    using assignment_table_slot [OF assms, of Z epoch] by metis
  then show ?thesis by (intro exI [of _ T]) (simp add: assigned_slot_def)
qed

theorem assignments_agree_witness:
  "\<exists>T. assignment_table toy_zisk [0, 2] sample_seed 3 3 = Inr T \<and> length T = 3 \<and>
     T ! unat (0::u32) = ucast (3 * 32 + of_nat (assigned_slot toy_zisk sample_seed 32 2 0) :: u64)"
proof -
  have "length sample_seed = 32" "RULE_SLOTS_PER_EPOCH * length [0, 2 :: u32] < 2 ^ 64" "distinct [0, 2 :: u32]"
    "\<forall>v\<in>set [0, 2 :: u32]. unat v < 3"
    by (simp_all add: sample_seed_def RULE_SLOTS_PER_EPOCH_def)
  from assignments_agree [OF this, of toy_zisk 3] obtain T where
    "assignment_table toy_zisk [0, 2] sample_seed 3 3 = Inr T" "length T = 3"
    and T: "\<forall>k<length [0, 2 :: u32]. T ! unat ([0, 2 :: u32] ! k) =
      ucast (3 * 32 + of_nat (assigned_slot toy_zisk sample_seed 32 (length [0, 2 :: u32]) k) :: u64)"
    by blast
  moreover from spec [OF T, of 0] have "T ! unat (0 :: u32) =
      ucast (3 * 32 + of_nat (assigned_slot toy_zisk sample_seed 32 2 0) :: u64)"
    by (simp add: numeral_2_eq_2)
  ultimately show ?thesis by blast
qed

text \<open>C16: The padding loop of the rule guest's SHA-256 ends and gives whole blocks of 64 bytes,
  of which the last eight hold the bit length; for messages of one block the syscalls compute what
  the committee guest's single-block hash computes.\<close>

theorem sha256_padding_ends:
  "length (sha256_padded data) mod 64 = 0 \<and>
   (\<exists>k<64. sha256_padded data = data @ [0x80] @ replicate k 0 @ u64_to_be_bytes (of_nat (length data) * 8)) \<and>
   (length data \<le> 55 \<longrightarrow> sha256_syscall Z data = sha256_short Z data)"
proof -
  have "(120 - length (data @ [0x80]) mod 64) mod 64 < (64::nat)" by simp
  then have "\<exists>k<64. sha256_padded data = data @ [0x80] @ replicate k 0 @ u64_to_be_bytes (of_nat (length data) * 8)"
    unfolding sha256_padded_def pad_zeros_eq by (intro exI [of _ "(120 - length (data @ [0x80]) mod 64) mod 64"]) simp
  then show ?thesis using sha256_padded_blocks sha256_syscall_short by blast
qed

theorem sha256_padding_ends_witness:
  "sha256_syscall toy_zisk [1, 2] = sha256_short toy_zisk [1, 2]"
  using sha256_padding_ends [of "[1, 2]"] by simp

end
