(* ===== verification/HostTypes.thy ===== *)
theory HostTypes
  imports BTree AccTree
begin

text \<open>
  What the host reads from a beacon node (\<open>witness-gen/src/beacon_api.rs\<close>: validators, committees,
  attestations), the conversion of a validator to the circuits' view (\<open>state_diff.rs\<close>), and the
  decompression of its key (\<open>pubkey.rs\<close>). The library \<open>blst\<close> is a parameter: the uncompressed
  96 bytes of a key that is well formed and in the group.
\<close>

record validator_response =
  vr_index :: u64
  vr_pubkey :: bytes
  vr_effective_balance :: u64
  vr_activation_epoch :: u64
  vr_exit_epoch :: u64
  withdrawal_credentials :: bytes32
  slashed :: bool
  activation_eligibility_epoch :: u64
  withdrawable_epoch :: u64

record committee_response =
  cr_slot :: u64
  cr_index :: u64
  cr_validators :: "u64 list"

record single_attester =
  sa_committee_index :: u64
  sa_attester_index :: u64

record attestation_response =
  aggregation_bits :: bytes
  committee_bits :: bytes
  ar_single_attester :: "single_attester option"
  ar_data_slot :: u64
  ar_data_index :: u64
  ar_data_beacon_block_root :: bytes32
  ar_data_source_epoch :: u64
  ar_data_source_root :: bytes32
  ar_data_target_epoch :: u64
  ar_data_target_root :: bytes32
  ar_signature :: bytes

definition validator_response_to_data :: "validator_response \<Rightarrow> validator_data" where
  "validator_response_to_data v =
     \<lparr>vd_pubkey = vr_pubkey v, effective_balance = vr_effective_balance v,
      activation_epoch = vr_activation_epoch v, exit_epoch = vr_exit_epoch v\<rparr>"

section \<open>Public keys\<close>

type_synonym blst_key = "bytes \<Rightarrow> bytes option"

definition u64_from_be_bytes :: "bytes \<Rightarrow> u64" where
  "u64_from_be_bytes bs = u64_from_le_bytes (rev bs)"

definition be_bytes_to_limbs :: "bytes \<Rightarrow> u64 list" where
  "be_bytes_to_limbs bs = rev (map (\<lambda>i. u64_from_be_bytes (take 8 (drop (8 * i) bs))) [0..<6])"

definition host_decompress :: "blst_key \<Rightarrow> bytes \<Rightarrow> g1_point option" where
  "host_decompress blst compressed =
     map_option (\<lambda>u. be_bytes_to_limbs (take 48 u) @ be_bytes_to_limbs (drop 48 u)) (blst compressed)"

lemma length_host_decompress: "host_decompress blst c = Some p \<Longrightarrow> length p = 12"
  by (auto simp: host_decompress_def be_bytes_to_limbs_def)

section \<open>The tree of a registry\<close>

text \<open>
  A consistent host tree that holds, for every validator of the node's list, the leaf of its key and
  its balance at an epoch.
\<close>

definition host_registry :: "blst_key \<Rightarrow> validator_response list \<Rightarrow> u64 \<Rightarrow> registry" where
  "host_registry blst vs epoch =
     validators_registry (host_decompress blst) (map validator_response_to_data vs) epoch"

definition tree_holds :: "zisk \<Rightarrow> blst_key \<Rightarrow> acc_tree \<Rightarrow> validator_response list \<Rightarrow> u64 \<Rightarrow> bool" where
  "tree_holds Z blst t vs epoch \<longleftrightarrow> acc_tree_ok Z t \<and> length vs \<le> 2 ^ dense_depth t \<and>
     (\<forall>i<2 ^ dense_depth t. stored_leaf t i = registry_leaf Z (host_registry blst vs epoch) i)"

lemma host_registry_Some:
  "i < length vs \<Longrightarrow> host_decompress blst (vr_pubkey (vs ! i)) = Some p \<Longrightarrow>
     host_registry blst vs epoch i =
       Some (p, active_effective_balance (validator_response_to_data (vs ! i)) epoch)"
  by (simp add: host_registry_def validators_registry_def validator_response_to_data_def)

end
