(* ===== verification/HostCommittee.thy ===== *)
theory HostCommittee
  imports HostTypes
begin

text \<open>
  \<open>crates/witness-gen/src/committee.rs\<close>: the host sums an epoch's committees out of the registry and
  assembles the witness of the committee proof, the committee tree and its openings. The parallel
  maps are the sequential ones.

  The lemmas: what is built has one member per assigned validator, in index order, and the sums of
  the slots; the committee guest accepts the witness and publishes the host's output; the committee
  tree answers as a \<open>node_source\<close>, so its openings verify.
\<close>

datatype host_committee_error =
    HcTooManySlots
  | HcDivisionByZero
  | InTwoCommittees u64
  | NotRegistered u64
  | HcSlotOutOfBounds
  | HcBadKey u64
  | ProofOutOfBounds

record epoch_committees =
  ec_members :: "u64 list list"
  ec_table :: "(u64 \<times> u64, u64 list) btree"
  ec_aggregates :: "committee_aggregate option list"
  ec_witness :: committee_witness
  ec_output :: committee_output
  ec_levels :: "digest list list"

definition ec_root :: "epoch_committees \<Rightarrow> digest" where
  "ec_root ec = ec_levels ec ! TREE_DEPTH ! 0"

definition ec_aggregate :: "epoch_committees \<Rightarrow> u64 \<Rightarrow> committee_aggregate option" where
  "ec_aggregate ec slot =
     (if unat slot < length (ec_aggregates ec) then ec_aggregates ec ! unat slot else None)"

definition ec_committee :: "epoch_committees \<Rightarrow> u64 \<Rightarrow> u64 \<Rightarrow> u64 list option" where
  "ec_committee ec slot index = bt_get (ec_table ec) (slot, index)"

text \<open>An access past a level is a panic.\<close>

definition level_at :: "digest list list \<Rightarrow> nat \<Rightarrow> u64 \<Rightarrow> digest option" where
  "level_at levels l k = (if unat k < length (levels ! l) then Some (levels ! l ! unat k) else None)"

definition ec_multi_proof :: "epoch_committees \<Rightarrow> u64 list \<Rightarrow> host_committee_error + digest list" where
  "ec_multi_proof ec slots =
     (let nodes = collect_levels (level_at (ec_levels ec)) [0..<TREE_DEPTH] slots in
     ensure (None \<notin> set nodes) ProofOutOfBounds (Inr (map the nodes)))"

section \<open>Building\<close>

definition assign_index ::
  "u64 \<Rightarrow> (u64, u64) btree \<Rightarrow> u64 \<Rightarrow> host_committee_error + (u64, u64) btree" where
  "assign_index slot assigned index =
     ensure (bt_get assigned index = None) (InTwoCommittees index)
    (Inr (bt_insert index slot assigned))"

definition assign_response ::
  "u64 \<Rightarrow> (u64, u64) btree \<times> (u64 \<times> u64, u64 list) btree \<Rightarrow> committee_response \<Rightarrow>
     host_committee_error + (u64, u64) btree \<times> (u64 \<times> u64, u64 list) btree" where
  "assign_response spe st response =
     (case st of (assigned, table) \<Rightarrow>
       ensure (spe \<noteq> 0) HcDivisionByZero
      (bind_res (fold_res (assign_index (cr_slot response mod spe)) assigned (cr_validators response))
        (\<lambda>assigned'.
       Inr (assigned', bt_insert (cr_slot response, cr_index response) (cr_validators response) table))))"

record gathering =
  gt_members :: "u64 list list"
  gt_positions :: "nat list list"
  gt_witnesses :: "committee_member list"

definition gather_init :: gathering where
  "gather_init = \<lparr>gt_members = replicate (unat MAX_SLOTS) [], gt_positions = replicate (unat MAX_SLOTS) [],
     gt_witnesses = []\<rparr>"

definition gather_step ::
  "blst_key \<Rightarrow> u64 \<Rightarrow> validator_response list \<Rightarrow> gathering \<Rightarrow> u64 \<times> u64 \<Rightarrow>
     host_committee_error + gathering" where
  "gather_step blst balance_epoch validators st e =
     (case e of (index, slot) \<Rightarrow>
       ensure (unat index < length validators) (NotRegistered index)
      (let response = validators ! unat index in
       ensure (unat slot < length (gt_members st)) HcSlotOutOfBounds
      (bind_res (expect (host_decompress blst (vr_pubkey response)) (HcBadKey index)) (\<lambda>point.
       Inr \<lparr>gt_members = (gt_members st)[unat slot := gt_members st ! unat slot @ [index]],
            gt_positions = (gt_positions st)
              [unat slot := gt_positions st ! unat slot @ [length (gt_witnesses st)]],
            gt_witnesses = gt_witnesses st @
              [\<lparr>cm_index = index, cm_pubkey = point,
                cm_balance = active_effective_balance (validator_response_to_data response) balance_epoch,
                cm_slot_in_epoch = slot\<rparr>]\<rparr>))))"

fun slot_sum ::
  "zisk \<Rightarrow> committee_member list \<Rightarrow> point_sum \<times> u64 \<Rightarrow> nat list \<Rightarrow> (point_sum \<times> u64) option" where
  "slot_sum Z ms st [] = Some st"
| "slot_sum Z ms st (position # ps) =
     (case point_sum_add Z (fst st) (cm_pubkey (ms ! position)) of
        None \<Rightarrow> None
      | Some s \<Rightarrow> slot_sum Z ms (s, snd st + cm_balance (ms ! position)) ps)"

definition slot_aggregate ::
  "zisk \<Rightarrow> committee_member list \<Rightarrow> nat list \<Rightarrow> committee_aggregate option" where
  "slot_aggregate Z ms slot =
     (case slot_sum Z ms (None, 0) slot of
        None \<Rightarrow> None
      | Some (s, balance) \<Rightarrow> map_option (\<lambda>pubkey. \<lparr>ca_pubkey = pubkey, ca_balance = balance\<rparr>) s)"

definition aggregate_leaf :: "zisk \<Rightarrow> committee_aggregate option \<Rightarrow> digest" where
  "aggregate_leaf Z slot = (case slot of Some agg \<Rightarrow> committee_leaf Z agg | None \<Rightarrow> ZERO)"

definition host_committee_build ::
  "zisk \<Rightarrow> blst_key \<Rightarrow> committee_response list \<Rightarrow> validator_response list \<Rightarrow> acc_tree \<Rightarrow> u64 \<Rightarrow>
     u64 \<Rightarrow> u64 \<Rightarrow> u64 \<Rightarrow> host_committee_error + epoch_committees" where
  "host_committee_build Z blst committees validators tree spe target_epoch balance_epoch total_balance =
     ensure (spe \<le> MAX_SLOTS) HcTooManySlots
    (bind_res (fold_res (assign_response spe) ([], []) committees) (\<lambda>(assigned, table).
     bind_res (fold_res (gather_step blst balance_epoch validators) gather_init assigned) (\<lambda>st.
     let ms = gt_witnesses st;
         aggregates = map (slot_aggregate Z ms) (gt_positions st);
         levels = build_levels (compress Z) TREE_DEPTH (map (aggregate_leaf Z) aggregates);
         acc_root = acc_tree_root Z tree;
         acc_commitment = commitment Z acc_root total_balance
     in Inr
       \<lparr>ec_members = gt_members st, ec_table = table, ec_aggregates = aggregates,
        ec_witness = \<lparr>cw_accumulator_commitment = acc_commitment, cw_target_epoch = target_epoch,
          cw_acc_root = acc_root, cw_total_active_balance = total_balance, cw_members = ms,
          cw_auxiliaries = build_multi_proof tree (map cm_index ms)\<rparr>,
        ec_output = \<lparr>co_accumulator_commitment = acc_commitment, co_target_epoch = target_epoch,
          co_committee_root = levels ! TREE_DEPTH ! 0\<rparr>,
        ec_levels = levels\<rparr>)))"

definition host_opened ::
  "blst_key \<Rightarrow> u64 \<Rightarrow> validator_response \<Rightarrow> u64 \<Rightarrow> host_committee_error + opened_validator" where
  "host_opened blst index response balance_epoch =
     bind_res (expect (host_decompress blst (vr_pubkey response)) (HcBadKey index)) (\<lambda>point.
     Inr \<lparr>ov_index = index, ov_pubkey = point,
          ov_balance = active_effective_balance (validator_response_to_data response) balance_epoch\<rparr>)"

section \<open>The assignment\<close>

definition assigned_below :: "u64 \<Rightarrow> (u64, u64) btree \<Rightarrow> bool" where
  "assigned_below spe assigned \<longleftrightarrow> bt_ok assigned \<and> (\<forall>(index, slot)\<in>set assigned. slot < spe)"

lemma assign_index_Inr [simp]:
  "assign_index slot a index = Inr a' \<longleftrightarrow> bt_get a index = None \<and> a' = bt_insert index slot a"
  by (auto simp: assign_index_def)

lemma assign_indices:
  assumes "fold_res (assign_index slot) assigned indices = Inr assigned'" "assigned_below spe assigned" "slot < spe"
  shows "assigned_below spe assigned'"
    and "\<forall>k. bt_get assigned' k = (if k \<in> set indices then Some slot else bt_get assigned k)"
    and "distinct indices" "\<forall>k\<in>set indices. bt_get assigned k = None"
proof -
  have "assigned_below spe assigned' \<and>
    (\<forall>k. bt_get assigned' k = (if k \<in> set indices then Some slot else bt_get assigned k)) \<and>
    distinct indices \<and> (\<forall>k\<in>set indices. bt_get assigned k = None)"
    using assms
  proof (induction indices arbitrary: assigned)
    case (Cons index indices)
    from Cons.prems(1) have new: "bt_get assigned index = None"
      and rest: "fold_res (assign_index slot) (bt_insert index slot assigned) indices = Inr assigned'"
      by auto
    have "assigned_below spe (bt_insert index slot assigned)"
      using Cons.prems(2,3) by (auto simp: assigned_below_def set_bt_insert)
    from Cons.IH [OF rest this Cons.prems(3)] new show ?case by (auto split: if_splits)
  qed simp
  then show "assigned_below spe assigned'"
    and "\<forall>k. bt_get assigned' k = (if k \<in> set indices then Some slot else bt_get assigned k)"
    and "distinct indices" "\<forall>k\<in>set indices. bt_get assigned k = None" by blast+
qed

text \<open>Every validator of the responses is assigned the slot of the one response that names it.\<close>

lemma assign_responses:
  assumes "fold_res (assign_response spe) ([], []) committees = Inr (assigned, table)"
  shows "assigned_below spe assigned" and "bt_ok table"
    and "(\<exists>slot. bt_get assigned k = Some slot) \<longleftrightarrow> (\<exists>r\<in>set committees. k \<in> set (cr_validators r))"
    and "r \<in> set committees \<Longrightarrow> k \<in> set (cr_validators r) \<Longrightarrow> bt_get assigned k = Some (cr_slot r mod spe)"
    and "distinct (concat (map cr_validators committees))"
proof -
  let ?I = "\<lambda>(rs :: committee_response list) (assigned, table). assigned_below spe assigned \<and> bt_ok table \<and>
    (\<forall>k. (\<exists>slot. bt_get assigned k = Some slot) \<longleftrightarrow> (\<exists>r\<in>set rs. k \<in> set (cr_validators r))) \<and>
    (\<forall>r\<in>set rs. \<forall>k\<in>set (cr_validators r). bt_get assigned k = Some (cr_slot r mod spe)) \<and>
    distinct (concat (map cr_validators rs))"
  have "?I committees (assigned, table)"
  proof (rule fold_res_prefix_invariant [OF assms, where I = ?I])
    show "?I [] ([], [])" by (simp add: assigned_below_def)
    fix seen rest :: "committee_response list" and r s s'
    assume I: "?I seen s" and step: "assign_response spe s r = Inr s'"
    obtain a t where s: "s = (a, t)" by (cases s)
    from step obtain a' where spe: "spe \<noteq> 0" and s': "s' = (a', bt_insert (cr_slot r, cr_index r) (cr_validators r) t)"
      and run: "fold_res (assign_index (cr_slot r mod spe)) a (cr_validators r) = Inr a'"
      by (auto simp: assign_response_def s)
    have "unat (cr_slot r mod spe) < unat spe"
      using spe unat_eq_zero [of spe] by (simp add: unat_mod_distrib)
    then have lt: "cr_slot r mod spe < spe" by (simp add: word_less_nat_alt)
    have below: "assigned_below spe a" using I by (simp add: s)
    note out = assign_indices [OF run below lt]
    have old: "bt_get a k = None" if "k \<in> set (cr_validators r)" for k using out(4) that by blast
    have fresh: "set (concat (map cr_validators seen)) \<inter> set (cr_validators r) = {}"
      using I old unfolding s by fastforce
    show "?I (seen @ [r]) s'"
      unfolding s' prod.case
    proof (intro conjI)
      show "assigned_below spe a'" by (rule out(1))
      show "bt_ok (bt_insert (cr_slot r, cr_index r) (cr_validators r) t)" using I by (simp add: s)
      show "\<forall>k. (\<exists>slot. bt_get a' k = Some slot) \<longleftrightarrow> (\<exists>r\<in>set (seen @ [r]). k \<in> set (cr_validators r))"
        using I out(2) by (auto simp: s)
      show "\<forall>r'\<in>set (seen @ [r]). \<forall>k\<in>set (cr_validators r'). bt_get a' k = Some (cr_slot r' mod spe)"
        using I out(2) fresh by (auto simp: s)
      show "distinct (concat (map cr_validators (seen @ [r])))"
        using I out(3) fresh by (auto simp: s)
    qed
  qed
  then show "assigned_below spe assigned" and "bt_ok table"
    and "(\<exists>slot. bt_get assigned k = Some slot) \<longleftrightarrow> (\<exists>r\<in>set committees. k \<in> set (cr_validators r))"
    and "r \<in> set committees \<Longrightarrow> k \<in> set (cr_validators r) \<Longrightarrow> bt_get assigned k = Some (cr_slot r mod spe)"
    and "distinct (concat (map cr_validators committees))" by auto
qed

section \<open>The members and their sums\<close>

definition gathered ::
  "blst_key \<Rightarrow> u64 \<Rightarrow> validator_response list \<Rightarrow> (u64 \<times> u64) list \<Rightarrow> gathering \<Rightarrow> bool" where
  "gathered blst epoch validators es st \<longleftrightarrow>
     map (\<lambda>m. (cm_index m, cm_slot_in_epoch m)) (gt_witnesses st) = es \<and>
     (\<forall>m\<in>set (gt_witnesses st). unat (cm_slot_in_epoch m) < 32 \<and> unat (cm_index m) < length validators \<and>
        host_decompress blst (vr_pubkey (validators ! unat (cm_index m))) = Some (cm_pubkey m) \<and>
        cm_balance m = active_effective_balance
          (validator_response_to_data (validators ! unat (cm_index m))) epoch) \<and>
     length (gt_members st) = 32 \<and> length (gt_positions st) = 32 \<and>
     (\<forall>s<32. gt_members st ! s = map cm_index (bucket (gt_witnesses st) s) \<and>
        map (\<lambda>p. gt_witnesses st ! p) (gt_positions st ! s) = bucket (gt_witnesses st) s \<and>
        (\<forall>p\<in>set (gt_positions st ! s). p < length (gt_witnesses st)))"

lemma gather_step_gathered:
  assumes "gathered blst epoch validators es st" "gather_step blst epoch validators st e = Inr st'"
  shows "gathered blst epoch validators (es @ [e]) st'"
proof -
  obtain index slot where e: "e = (index, slot)" by (cases e)
  let ?ms = "gt_witnesses st"
  from assms(1) have inv: "map (\<lambda>m. (cm_index m, cm_slot_in_epoch m)) ?ms = es"
      "length (gt_members st) = 32" "length (gt_positions st) = 32"
    and mem: "\<forall>m\<in>set ?ms. unat (cm_slot_in_epoch m) < 32 \<and> unat (cm_index m) < length validators \<and>
        host_decompress blst (vr_pubkey (validators ! unat (cm_index m))) = Some (cm_pubkey m) \<and>
        cm_balance m = active_effective_balance
          (validator_response_to_data (validators ! unat (cm_index m))) epoch"
    and buckets: "\<And>s. s < 32 \<Longrightarrow> gt_members st ! s = map cm_index (bucket ?ms s)"
      "\<And>s. s < 32 \<Longrightarrow> map (\<lambda>p. ?ms ! p) (gt_positions st ! s) = bucket ?ms s"
      "\<And>s p. s < 32 \<Longrightarrow> p \<in> set (gt_positions st ! s) \<Longrightarrow> p < length ?ms"
    by (auto simp: gathered_def)
  from assms(2) obtain point where
    known: "unat index < length validators" and slot: "unat slot < 32"
    and point: "host_decompress blst (vr_pubkey (validators ! unat index)) = Some point"
    and st': "st' = \<lparr>gt_members = (gt_members st)[unat slot := gt_members st ! unat slot @ [index]],
            gt_positions = (gt_positions st)[unat slot := gt_positions st ! unat slot @ [length ?ms]],
            gt_witnesses = ?ms @ [\<lparr>cm_index = index, cm_pubkey = point,
                cm_balance = active_effective_balance (validator_response_to_data (validators ! unat index)) epoch,
                cm_slot_in_epoch = slot\<rparr>]\<rparr>"
    by (auto simp: gather_step_def e Let_def inv(2))
  define m where "m = \<lparr>cm_index = index, cm_pubkey = point,
     cm_balance = active_effective_balance (validator_response_to_data (validators ! unat index)) epoch,
     cm_slot_in_epoch = slot\<rparr>"
  have fields: "gt_witnesses st' = ?ms @ [m]"
    "gt_members st' = (gt_members st)[unat slot := gt_members st ! unat slot @ [index]]"
    "gt_positions st' = (gt_positions st)[unat slot := gt_positions st ! unat slot @ [length ?ms]]"
    by (simp_all add: st' m_def)
  have last: "bucket [m] s = (if s = unat slot then [m] else [])" for s
    by (simp add: bucket_def m_def)
  have index: "cm_index m = index" by (simp add: m_def)
  have old: "map (\<lambda>p. (?ms @ [m]) ! p) (gt_positions st ! s) = bucket ?ms s" if "s < 32" for s
    using buckets(2) [OF that] buckets(3) [OF that]
    by (metis (no_types, lifting) map_cong nth_append)
  have "gt_members st' ! s = map cm_index (bucket (?ms @ [m]) s) \<and>
      map (\<lambda>p. (?ms @ [m]) ! p) (gt_positions st' ! s) = bucket (?ms @ [m]) s \<and>
      (\<forall>p\<in>set (gt_positions st' ! s). p < length (?ms @ [m]))" if s: "s < 32" for s
  proof (cases "s = unat slot")
    case True
    then show ?thesis
      using s old [OF s] buckets(1) [OF s] buckets(3) [OF s] inv(2,3)
      by (auto simp: fields last index less_Suc_eq)
  next
    case False
    then show ?thesis
      using s old [OF s] buckets(1) [OF s] buckets(3) [OF s] inv(2,3)
      by (auto simp: fields last less_Suc_eq)
  qed
  then show ?thesis
    unfolding gathered_def fields(1)
    using inv mem known slot point by (auto simp: e m_def fields(2,3))
qed

lemma gather_steps:
  assumes "fold_res (gather_step blst epoch validators) gather_init es = Inr st"
  shows "gathered blst epoch validators es st"
proof (rule fold_res_prefix_invariant [OF assms])
  show "gathered blst epoch validators [] gather_init"
    by (simp add: gathered_def gather_init_def bucket_def)
qed (rule gather_step_gathered)

lemma slot_sum_adds:
  "slot_sum Z ms (s, b) ps = map_option (\<lambda>s'. (s', b + sum_list (map (\<lambda>p. cm_balance (ms ! p)) ps)))
     (point_sum_adds Z s (map (\<lambda>p. cm_pubkey (ms ! p)) ps))"
proof (induction ps arbitrary: s b)
  case (Cons p ps)
  then show ?case by (auto split: option.splits simp: add.assoc)
qed simp

definition members_aggregate :: "zisk \<Rightarrow> committee_member list \<Rightarrow> committee_aggregate option" where
  "members_aggregate Z ms =
     (case point_sum_adds Z None (map cm_pubkey ms) of
        None \<Rightarrow> None
      | Some s \<Rightarrow> map_option (\<lambda>p. \<lparr>ca_pubkey = p, ca_balance = sum_list (map cm_balance ms)\<rparr>) s)"

lemma slot_aggregate_bucket:
  assumes "map (\<lambda>p. ms ! p) ps = bucket ms s"
  shows "slot_aggregate Z ms ps =
    members_aggregate Z (bucket ms s)"
  unfolding slot_aggregate_def members_aggregate_def slot_sum_adds assms [symmetric] map_map comp_def
  by (simp split: option.split)

section \<open>The guest accepts the witness\<close>

text \<open>Members in order, in a slot, whose keys can be added slot by slot, pass the guest's scan.\<close>

lemma member_steps_complete:
  assumes "strictly_increasing (map cm_index ms)" "\<forall>m\<in>set ms. unat (cm_slot_in_epoch m) < 32"
    and "\<forall>s<32. point_sum_adds Z None (map cm_pubkey (bucket ms s)) \<noteq> None"
  shows "\<exists>st. fold_res (member_step Z) committee_scan_init ms = Inr st"
  using assms
proof (induction ms rule: rev_induct)
  case (snoc m ms)
  let ?s = "unat (cm_slot_in_epoch m)"
  have prefix: "\<forall>s<32. point_sum_adds Z None (map cm_pubkey (bucket ms s)) \<noteq> None"
    using snoc.prems(3) by (auto simp: point_sum_adds_append split: option.splits)
  have "strictly_increasing (map cm_index ms)" "\<forall>m\<in>set ms. unat (cm_slot_in_epoch m) < 32"
    using snoc.prems(1,2) by (simp_all add: strictly_increasing_snoc)
  from snoc.IH [OF this prefix] obtain st where st: "fold_res (member_step Z) committee_scan_init ms = Inr st"
    by blast
  note inv = member_steps_invariant [OF st]
  have slot: "?s < 32" using snoc.prems(2) by simp
  have adds: "point_sum_adds Z None (map cm_pubkey (bucket ms ?s)) = Some (cs_sums st ! ?s)"
    and prev: "cs_previous st = (if ms = [] then None else Some (cm_index (last ms)))"
    using inv slot by (simp_all add: scan_invariant_def)
  have "point_sum_adds Z None (map cm_pubkey (bucket (ms @ [m]) ?s)) \<noteq> None"
    using snoc.prems(3) slot by blast
  then obtain k where k: "point_sum_add Z (cs_sums st ! ?s) (cm_pubkey m) = Some k"
    using adds by (auto simp: bucket_def point_sum_adds_append split: option.splits)
  have "case cs_previous st of Some p \<Rightarrow> cm_index m > p | None \<Rightarrow> True"
    using snoc.prems(1) prev by (auto simp: strictly_increasing_snoc last_map)
  then have "\<exists>st'. member_step Z st m = Inr st'"
    using slot k by (simp add: member_step_def Let_def word_less_nat_alt)
  then show ?case using st by (auto simp: fold_res_append)
qed simp

lemma host_committee_Inr:
  assumes "host_committee_build Z blst committees validators t spe e epoch total_balance = Inr ec"
  defines "ms \<equiv> cw_members (ec_witness ec)"
  obtains assigned st where
    "fold_res (assign_response spe) ([], []) committees = Inr (assigned, ec_table ec)"
    "gathered blst epoch validators assigned st" "gt_witnesses st = ms" "gt_members st = ec_members ec"
    "unat spe \<le> 32" "strictly_increasing (map cm_index ms)"
    "ec_aggregates ec = map (\<lambda>s. members_aggregate Z (bucket ms s)) [0..<32]"
    "ec_levels ec = build_levels (compress Z) 5 (map (aggregate_leaf Z) (ec_aggregates ec))"
    "ec_witness ec = \<lparr>cw_accumulator_commitment = commitment Z (acc_tree_root Z t) total_balance,
       cw_target_epoch = e, cw_acc_root = acc_tree_root Z t, cw_total_active_balance = total_balance,
       cw_members = ms, cw_auxiliaries = build_multi_proof t (map cm_index ms)\<rparr>"
    "ec_output ec = \<lparr>co_accumulator_commitment = commitment Z (acc_tree_root Z t) total_balance,
       co_target_epoch = e, co_committee_root = ec_levels ec ! 5 ! 0\<rparr>"
proof -
  from assms(1) obtain assigned table st where
    asg: "fold_res (assign_response spe) ([], []) committees = Inr (assigned, table)"
    and run: "fold_res (gather_step blst epoch validators) gather_init assigned = Inr st"
    and spe: "spe \<le> MAX_SLOTS"
    and ec: "ec_members ec = gt_members st" "ec_table ec = table"
      "ec_aggregates ec = map (slot_aggregate Z (gt_witnesses st)) (gt_positions st)"
      "ec_levels ec = build_levels (compress Z) 5 (map (aggregate_leaf Z) (ec_aggregates ec))"
      "ec_witness ec = \<lparr>cw_accumulator_commitment = commitment Z (acc_tree_root Z t) total_balance,
         cw_target_epoch = e, cw_acc_root = acc_tree_root Z t, cw_total_active_balance = total_balance,
         cw_members = gt_witnesses st, cw_auxiliaries = build_multi_proof t (map cm_index (gt_witnesses st))\<rparr>"
      "ec_output ec = \<lparr>co_accumulator_commitment = commitment Z (acc_tree_root Z t) total_balance,
         co_target_epoch = e, co_committee_root = ec_levels ec ! 5 ! 0\<rparr>"
    by (auto simp: host_committee_build_def Let_def TREE_DEPTH_def)
  note g = gather_steps [OF run]
  have ms: "gt_witnesses st = ms" by (simp add: ms_def ec)
  have keys: "map cm_index ms = map fst assigned"
    using g by (auto simp: gathered_def ms [symmetric] dest: arg_cong [where f = "map fst"])
  have "sorted_wrt (<) (map fst assigned)"
    using assign_responses(1) [OF asg] by (simp add: assigned_below_def bt_ok_def)
  then have inc: "strictly_increasing (map cm_index ms)" by (simp add: keys strictly_increasing_sorted)
  have "ec_aggregates ec = map (\<lambda>s. members_aggregate Z (bucket ms s)) [0..<32]"
  proof (rule nth_equalityI)
    show "length (ec_aggregates ec) = length (map (\<lambda>s. members_aggregate Z (bucket ms s)) [0..<32])"
      using g by (simp add: ec(3) gathered_def)
  next
    fix s assume "s < length (ec_aggregates ec)"
    then have s: "s < 32" "s < length (gt_positions st)" using g by (simp_all add: ec(3) gathered_def)
    have pos: "map (\<lambda>p. ms ! p) (gt_positions st ! s) = bucket ms s"
      using g s(1) by (simp add: gathered_def ms)
    show "ec_aggregates ec ! s = map (\<lambda>s. members_aggregate Z (bucket ms s)) [0..<32] ! s"
      using s slot_aggregate_bucket [OF pos, of Z] by (simp add: ec(3) ms)
  qed
  moreover have "unat spe \<le> 32" using spe by (simp add: word_le_nat_alt)
  ultimately show thesis
    using that [of assigned st] asg g ec ms inc by simp
qed

lemma members_aggregate_scan:
  assumes "scan_invariant Z ms st" "s < 32"
  shows "slot_aggregates st ! s = members_aggregate Z (bucket ms s)"
  using slot_aggregates_nth(2) [OF assms] assms by (simp add: members_aggregate_def scan_invariant_def)

text \<open>The host's committee tree is the circuit's.\<close>

lemma ec_levels_node:
  assumes "length aggs = 32" "i \<le> 5"
  shows "build_levels (compress Z) 5 (map (aggregate_leaf Z) aggs) ! i =
    map (level_node (compress Z) (slot_leaf Z aggs) i) [0..<2 ^ (5 - i)]"
proof -
  have "map (aggregate_leaf Z) aggs = map (level_node (compress Z) (slot_leaf Z aggs) 0) [0..<2 ^ 5]"
    by (rule nth_equalityI) (use assms(1) in
      \<open>simp_all add: level_node_0 slot_leaf_def aggregate_leaf_def split: option.split\<close>)
  from build_levels_nth [OF this assms(2)] show ?thesis by simp
qed

lemma committee_tree_of_levels:
  assumes "length aggs = 32"
  shows "committee_tree_root Z aggs = Inr (build_levels (compress Z) 5 (map (aggregate_leaf Z) aggs) ! 5 ! 0)"
  using ec_levels_node [OF assms, of 5] assms
  by (simp add: committee_tree_root_eq level_node_tree_root)

text \<open>
  The keys of a slot can be added: that no sum meets a shared x-coordinate is what the circuit
  needs, and what the host's aggregate says of a slot with members.
\<close>

definition slots_summed :: "epoch_committees \<Rightarrow> bool" where
  "slots_summed ec \<longleftrightarrow> (\<forall>s<32. bucket (cw_members (ec_witness ec)) s \<noteq> [] \<longrightarrow> ec_aggregates ec ! s \<noteq> None)"

lemma host_committee_accepted:
  assumes "host_committee_build Z blst committees validators t spe e epoch total_balance = Inr ec"
    and "tree_holds Z blst t validators epoch" "slots_summed ec"
    and "cw_members (ec_witness ec) \<noteq> []" "wf_cw (ec_witness ec)"
  shows "verify_committee Z (committee_encode (ec_witness ec)) (tree_depth t) = Inr (ec_output ec)"
proof -
  obtain assigned st where
    g: "gathered blst epoch validators assigned st" "gt_witnesses st = cw_members (ec_witness ec)"
    and inc: "strictly_increasing (map cm_index (cw_members (ec_witness ec)))"
    and aggs: "ec_aggregates ec = map (\<lambda>s. members_aggregate Z (bucket (cw_members (ec_witness ec)) s)) [0..<32]"
    and levels: "ec_levels ec = build_levels (compress Z) 5 (map (aggregate_leaf Z) (ec_aggregates ec))"
    and w: "ec_witness ec = \<lparr>cw_accumulator_commitment = commitment Z (acc_tree_root Z t) total_balance,
       cw_target_epoch = e, cw_acc_root = acc_tree_root Z t, cw_total_active_balance = total_balance,
       cw_members = cw_members (ec_witness ec),
       cw_auxiliaries = build_multi_proof t (map cm_index (cw_members (ec_witness ec)))\<rparr>"
    and out: "ec_output ec = \<lparr>co_accumulator_commitment = commitment Z (acc_tree_root Z t) total_balance,
       co_target_epoch = e, co_committee_root = ec_levels ec ! 5 ! 0\<rparr>"
    by (rule host_committee_Inr [OF assms(1)])
  let ?ms = "cw_members (ec_witness ec)" and ?ks = "map cm_index (cw_members (ec_witness ec))"
  have mem: "\<forall>m\<in>set ?ms. unat (cm_slot_in_epoch m) < 32"
    and leaves: "\<forall>m\<in>set ?ms. unat (cm_index m) < 2 ^ dense_depth t \<and>
      stored_leaf t (unat (cm_index m)) = leaf Z (cm_pubkey m) (cm_balance m)"
    using g assms(2) by (auto simp: gathered_def tree_holds_def registry_leaf_def host_registry_Some)
  have sums: "\<forall>s<32. point_sum_adds Z None (map cm_pubkey (bucket ?ms s)) \<noteq> None"
  proof (intro allI impI)
    fix s :: nat assume s: "s < 32"
    show "point_sum_adds Z None (map cm_pubkey (bucket ?ms s)) \<noteq> None"
    proof (cases "bucket ?ms s = []")
      case False
      then have "members_aggregate Z (bucket ?ms s) \<noteq> None"
        using assms(3) s by (simp add: slots_summed_def aggs)
      then show ?thesis by (auto simp: members_aggregate_def split: option.splits)
    qed simp
  qed
  obtain sc where sc: "fold_res (member_step Z) committee_scan_init ?ms = Inr sc"
    using member_steps_complete [OF inc mem sums] by blast
  note inv = member_steps_invariant [OF sc]
  have cols: "cs_indices sc = ?ks" "cs_leaves sc = map (\<lambda>k. stored_leaf t (unat k)) ?ks"
    using inv leaves by (simp_all add: scan_invariant_def)
  have "batch_root (compress Z) (map (\<lambda>k. (stored_leaf t (unat k), k)) ?ks) (build_multi_proof t ?ks)
      (tree_depth t) = Inr (acc_tree_root Z t)"
    using build_multi_proof_verifies [of Z t ?ks] sorted_indices [OF inc] assms(2,4) leaves
    by (simp add: tree_holds_def)
  then have opened: "batch_root_columns (compress Z) (cs_indices sc) (cs_leaves sc)
      (cw_auxiliaries (ec_witness ec)) (tree_depth t) = Inr (acc_tree_root Z t)"
    unfolding cols by (subst w) (simp add: batch_root_def comp_def)
  have "slot_aggregates sc = ec_aggregates ec"
    by (rule nth_equalityI)
      (use inv members_aggregate_scan [OF inv] in \<open>simp_all add: aggs slot_aggregates_def scan_invariant_def\<close>)
  then have root: "committee_tree_root Z (slot_aggregates sc) = Inr (ec_levels ec ! 5 ! 0)"
    using committee_tree_of_levels [of "ec_aggregates ec" Z] by (simp add: aggs levels)
  have fields: "cw_acc_root (ec_witness ec) = acc_tree_root Z t"
    "cw_total_active_balance (ec_witness ec) = total_balance" "cw_target_epoch (ec_witness ec) = e"
    "cw_accumulator_commitment (ec_witness ec) = commitment Z (acc_tree_root Z t) total_balance"
    by (subst w, simp)+
  show ?thesis
    unfolding verify_committee_encode [OF assms(5)] sc bind_res_of_Inr opened map_err_of_Inr root fields
    by (simp add: out)
qed

section \<open>The openings of the committee tree\<close>

text \<open>As a tree of the accumulator's shape, dense to its root.\<close>

definition committee_store :: "zisk \<Rightarrow> epoch_committees \<Rightarrow> acc_tree" where
  "committee_store Z ec = \<lparr>tree_depth = 5, dense_depth = 5, tree_levels = ec_levels ec,
     zero_hashes = compute_zero_hashes Z 5\<rparr>"

lemma collect_level_map:
  "(\<And>k. k \<in> set ks \<Longrightarrow> (even (unat k) \<longrightarrow> g (k + 1) = h (g' (k + 1))) \<and>
     (odd (unat k) \<longrightarrow> g (k - 1) = h (g' (k - 1)))) \<Longrightarrow>
   collect_level g ks = (fst (collect_level g' ks), map h (snd (collect_level g' ks)))"
proof (induction g' ks rule: collect_level.induct)
  case (2 g' k ks)
  have one: "k AND 1 = 0 \<Longrightarrow> g (k + 1) = h (g' (k + 1))" "k AND 1 \<noteq> 0 \<Longrightarrow> g (k - 1) = h (g' (k - 1))"
    using "2.prems" [of k] by (simp_all add: and_1_eq_0)
  have mono: "x \<in> set (tl ks) \<Longrightarrow> x \<in> set ks" for x by (cases ks) simp_all
  show ?case
    using "2.IH" "2.prems" one mono
    by (cases "k AND 1 = 0"; cases "ks \<noteq> [] \<and> hd ks = k + 1") (auto simp: Let_def split_beta)
qed simp

lemma committee_levels_map:
  assumes "\<And>i. i \<le> 5 \<Longrightarrow> length (levels ! i) = 2 ^ (5 - i)" "l + d = 5"
    and "\<And>i k. i < 5 \<Longrightarrow> unat k < 2 ^ (5 - i) \<Longrightarrow> node i k = levels ! i ! unat k"
    and "\<forall>k\<in>set ks. unat k < 2 ^ (5 - l)"
  shows "collect_levels (level_at levels) [l..<5] ks = map Some (collect_levels node [l..<5] ks)"
  using assms(2,4)
proof (induction d arbitrary: l ks)
  case (Suc d)
  have upt: "[l..<5] = l # [Suc l..<5]" using Suc.prems(1) by (intro upt_conv_Cons) simp
  have pow: "(2::nat) ^ (5 - l) = 2 * 2 ^ (5 - Suc l)" using Suc.prems(1) by (simp add: Suc_diff_Suc flip: power_Suc)
  have len: "length (levels ! l) = 2 ^ (5 - l)" using assms(1) [of l] Suc.prems(1) by simp
  have node: "unat k < 2 ^ (5 - l) \<Longrightarrow> node l k = levels ! l ! unat k" for k
    using assms(3) [of l k] Suc.prems(1) by simp
  have level: "collect_level (level_at levels l) ks =
      (fst (collect_level (node l) ks), map Some (snd (collect_level (node l) ks)))"
  proof (rule collect_level_map)
    fix k assume "k \<in> set ks"
    then have k: "unat k < 2 * 2 ^ (5 - Suc l)" using Suc.prems(2) pow by simp
    have "even (unat k) \<Longrightarrow> unat (k + 1) < 2 ^ (5 - l)"
      using even_succ_unat [of k] k unfolding pow by (simp, presburger)
    moreover have "odd (unat k) \<Longrightarrow> unat (k - 1) < 2 ^ (5 - l)"
      using odd_pred_unat [of k] k unfolding pow by simp
    ultimately show "(even (unat k) \<longrightarrow> level_at levels l (k + 1) = Some (node l (k + 1))) \<and>
        (odd (unat k) \<longrightarrow> level_at levels l (k - 1) = Some (node l (k - 1)))"
      by (simp add: level_at_def len node)
  qed
  have "\<forall>k\<in>set (fst (collect_level (node l) ks)). unat k < 2 ^ (5 - Suc l)"
    using collect_level_next_set [of _ "node l" ks] Suc.prems(2)
    by (fastforce simp: unat_shift1 pow simp del: One_nat_def)
  from Suc.IH [OF _ this] Suc.prems(1) show ?case by (simp add: upt level Let_def split_beta)
qed simp

lemma ec_multi_proof_verifies:
  assumes "host_committee_build Z blst committees validators t spe e epoch total_balance = Inr ec"
    and "slots \<noteq> []" "strictly_increasing slots" "\<forall>s\<in>set slots. unat s < 32"
  shows "\<exists>aux. ec_multi_proof ec slots = Inr aux \<and>
    batch_root (compress Z) (map (\<lambda>s. (aggregate_leaf Z (ec_aggregate ec s), s)) slots) aux 5 =
      Inr (co_committee_root (ec_output ec))"
proof -
  obtain assigned st where
    aggs: "ec_aggregates ec = map (\<lambda>s. members_aggregate Z (bucket (cw_members (ec_witness ec)) s)) [0..<32]"
    and levels: "ec_levels ec = build_levels (compress Z) 5 (map (aggregate_leaf Z) (ec_aggregates ec))"
    and out: "ec_output ec = \<lparr>co_accumulator_commitment = commitment Z (acc_tree_root Z t) total_balance,
       co_target_epoch = e, co_committee_root = ec_levels ec ! 5 ! 0\<rparr>"
    by (rule host_committee_Inr [OF assms(1)])
  let ?L = "slot_leaf Z (ec_aggregates ec)" and ?t = "committee_store Z ec"
  have len: "length (ec_aggregates ec) = 32" by (simp add: aggs)
  note node = ec_levels_node [OF len, of _ Z, folded levels]
  have params: "tree_depth ?t = 5" "dense_depth ?t = 5" "tree_levels ?t = ec_levels ec"
    by (simp_all add: committee_store_def)
  have zeros: "zero_hashes ?t = compute_zero_hashes Z (tree_depth ?t)" by (simp add: committee_store_def)
  have "length (ec_levels ec) = 6" by (simp add: levels)
  with zeros have ok: "acc_tree_ok Z ?t" and stored: "\<And>i. i < 2 ^ dense_depth ?t \<Longrightarrow> stored_leaf ?t i = ?L i"
    using acc_tree_ok_levels [of ?t Z ?L] node by (simp_all add: params)
  have sizes: "length (ec_levels ec ! i) = 2 ^ (5 - i)" if "i \<le> 5" for i using node [OF that] by simp
  have "collect_levels (level_at (ec_levels ec)) [0..<5] slots =
      map Some (collect_levels (get_node ?t) [0..<5] slots)"
  proof (rule committee_levels_map [where d = 5])
    fix i and k :: u64 assume i: "i < 5" "unat k < 2 ^ (5 - i)"
    then show "get_node ?t i k = ec_levels ec ! i ! unat k"
      using get_node_dense [OF ok, of i k] stored_node [OF ok, of i] by (simp add: params)
  qed (use sizes assms(4) in auto)
  then have "ec_multi_proof ec slots = Inr (build_multi_proof ?t slots)"
    by (auto simp: ec_multi_proof_def TREE_DEPTH_def build_multi_proof_def sorted_indices [OF assms(3)] params comp_def)
  moreover have "stored_leaf ?t (unat s) = aggregate_leaf Z (ec_aggregate ec s)" if "s \<in> set slots" for s
    using stored [of "unat s"] assms(4) that
    by (auto simp: params slot_leaf_def aggregate_leaf_def ec_aggregate_def len split: option.split)
  moreover have "acc_tree_root Z ?t = co_committee_root (ec_output ec)"
    by (simp add: acc_tree_root_def sparse_root_def params out)
  ultimately show ?thesis
    using build_multi_proof_verifies [OF ok assms(2)] assms(4)
    by (simp add: params sorted_indices [OF assms(3)] cong: map_cong)
qed

end
