(* ===== verification/SampleHost.thy ===== *)
theory SampleHost
  imports SampleEpoch HostCommittee
begin

text \<open>
  The host's side of the small epoch: the node's two validators, the tree they are held in, and the
  committees of slot 64, from which the host builds the committee witness of \<open>Samples\<close>.
\<close>

definition toy_blst :: blst_key where
  "toy_blst c = (if length c = 48 then Some (concat (replicate 12 [0, 0, 0, 0, 0, 0, 0, hd c])) else None)"

lemma replicate_twelve: "replicate 12 x = [x, x, x, x, x, x, x, x, x, x, x, x]"
  by (simp add: numeral_eq_Suc)

lemma sample_host_keys:
  "host_decompress toy_blst (replicate 48 1) = Some key_A"
  "host_decompress toy_blst (replicate 48 2) = Some key_B"
proof -
  have "hd (replicate 48 b) = b" for b :: u8 by (simp add: hd_replicate)
  then show "host_decompress toy_blst (replicate 48 1) = Some key_A"
    "host_decompress toy_blst (replicate 48 2) = Some key_B"
    by (simp_all add: host_decompress_def toy_blst_def be_bytes_to_limbs_def u64_from_be_bytes_def
      u64_from_le_bytes_def key_A_def key_B_def upt_rec replicate_twelve)
qed

definition sample_response :: "u64 \<Rightarrow> bytes \<Rightarrow> u64 \<Rightarrow> validator_response" where
  "sample_response i pk bal = \<lparr>vr_index = i, vr_pubkey = pk, vr_effective_balance = bal,
     vr_activation_epoch = 0, vr_exit_epoch = - 1, withdrawal_credentials = replicate 32 0,
     slashed = False, activation_eligibility_epoch = 0, withdrawable_epoch = - 1\<rparr>"

definition sample_responses :: "validator_response list" where
  "sample_responses = [sample_response 0 (replicate 48 1) 48, sample_response 1 (replicate 48 2) 16]"

definition sample_store :: acc_tree where
  "sample_store = \<lparr>tree_depth = 1, dense_depth = 1, tree_levels = [[leaf_A, leaf_B], [sample_root]],
     zero_hashes = [ZERO, ZERO]\<rparr>"

lemma sample_response_active:
  "active_effective_balance (validator_response_to_data (sample_response i pk bal)) 2 = bal"
proof -
  have "(2 :: u64) < - 1" by (simp flip: word_order.not_eq_extremum)
  then show ?thesis
    by (simp add: active_effective_balance_def is_active_def validator_response_to_data_def sample_response_def)
qed

lemma sample_tree_holds: "tree_holds toy_zisk toy_blst sample_store sample_responses 2"
proof -
  have levels: "tree_levels sample_store ! l =
      map (level_node (compress toy_zisk) (\<lambda>i. [leaf_A, leaf_B] ! i) l) [0..<2 ^ (dense_depth sample_store - l)]"
    if "l \<le> dense_depth sample_store" for l
    using that by (cases l) (simp_all add: sample_store_def level_node_0 level_node_parent [where l = 0, simplified] toy_hashes upt_rec)
  note ok = acc_tree_ok_levels [OF _ _ _ levels]
  have k: "host_decompress toy_blst (vr_pubkey (sample_responses ! 0)) = Some key_A"
      "host_decompress toy_blst (vr_pubkey (sample_responses ! 1)) = Some key_B"
    by (simp_all add: sample_responses_def sample_response_def sample_host_keys)
  have "registry_leaf toy_zisk (host_registry toy_blst sample_responses 2) 0 = leaf_A"
    "registry_leaf toy_zisk (host_registry toy_blst sample_responses 2) 1 = leaf_B"
    using host_registry_Some [OF _ k(1)] host_registry_Some [OF _ k(2)]
    by (simp_all add: registry_leaf_def sample_responses_def sample_response_active toy_hashes)
  then show ?thesis
    unfolding tree_holds_def
    using ok by (auto simp: sample_store_def sample_responses_def compute_zero_hashes_def toy_hashes less_Suc_eq numeral_2_eq_2)
qed

definition sample_committees :: "committee_response list" where
  "sample_committees = [\<lparr>cr_slot = 64, cr_index = 0, cr_validators = [1, 0]\<rparr>]"

definition sample_aggregates :: "committee_aggregate option list" where
  "sample_aggregates = Some sample_aggregate # replicate 31 None"

definition sample_ec :: epoch_committees where
  "sample_ec =
     \<lparr>ec_members = [0, 1] # replicate 31 [], ec_table = [((64, 0), [1, 0])],
      ec_aggregates = sample_aggregates, ec_witness = sample_committee_witness,
      ec_output = \<lparr>co_accumulator_commitment = sample_commitment, co_target_epoch = 2,
        co_committee_root = build_levels (compress toy_zisk) 5 (map (aggregate_leaf toy_zisk) sample_aggregates) ! 5 ! 0\<rparr>,
      ec_levels = build_levels (compress toy_zisk) 5 (map (aggregate_leaf toy_zisk) sample_aggregates)\<rparr>"

lemma replicate_slots: "replicate 32 x = x # replicate 31 x"
  using replicate_Suc [of 31 x] by simp

lemma sample_gather:
  "fold_res (gather_step toy_blst 2 sample_responses) gather_init [(0, 0), (1, 0)] =
     Inr \<lparr>gt_members = [0, 1] # replicate 31 [], gt_positions = [0, 1] # replicate 31 [],
       gt_witnesses = [sample_member_A, sample_member_B]\<rparr>"
proof -
  have r: "sample_responses ! 0 = sample_response 0 (replicate 48 1) 48"
    "sample_responses ! 1 = sample_response 1 (replicate 48 2) 16" "length sample_responses = 2"
    by (simp_all add: sample_responses_def)
  have k: "vr_pubkey (sample_response i pk bal) = pk" for i pk bal by (simp add: sample_response_def)
  have "gather_step toy_blst 2 sample_responses gather_init (0, 0) =
      Inr \<lparr>gt_members = [0] # replicate 31 [], gt_positions = [0] # replicate 31 [], gt_witnesses = [sample_member_A]\<rparr>"
    by (simp add: gather_step_def gather_init_def r k sample_host_keys sample_response_active sample_member_A_def
        replicate_slots MAX_SLOTS_def TREE_DEPTH_def Let_def del: replicate_Suc)
  moreover have "gather_step toy_blst 2 sample_responses
      \<lparr>gt_members = [0] # replicate 31 [], gt_positions = [0] # replicate 31 [], gt_witnesses = [sample_member_A]\<rparr> (1, 0) =
      Inr \<lparr>gt_members = [0, 1] # replicate 31 [], gt_positions = [0, 1] # replicate 31 [],
       gt_witnesses = [sample_member_A, sample_member_B]\<rparr>"
    by (simp add: gather_step_def sample_responses_def k sample_host_keys sample_response_active sample_member_B_def Let_def)
  ultimately show ?thesis by simp
qed

lemma sample_host_build:
  "host_committee_build toy_zisk toy_blst sample_committees sample_responses sample_store 32 2 2 64 = Inr sample_ec"
proof -
  have assign: "fold_res (assign_response 32) ([], []) sample_committees = Inr ([(0, 0), (1, 0)], [((64, 0), [1, 0])])"
    by (simp add: sample_committees_def assign_response_def assign_index_def bt_get_def)
  have aggs: "slot_aggregate toy_zisk [sample_member_A, sample_member_B] [0, 1] = Some sample_aggregate"
    "slot_aggregate toy_zisk [sample_member_A, sample_member_B] [] = None"
    by (simp_all add: slot_aggregate_def sample_aggregate_def sample_member_A_def sample_member_B_def toy_sums)
  have "32 \<le> MAX_SLOTS" by (simp add: MAX_SLOTS_def TREE_DEPTH_def)
  moreover have "map (slot_aggregate toy_zisk [sample_member_A, sample_member_B]) ([0, 1] # replicate 31 []) = sample_aggregates"
    by (simp only: list.map map_replicate aggs sample_aggregates_def)
  moreover have "acc_tree_root toy_zisk sample_store = sample_root"
    by (simp add: acc_tree_root_def sparse_root_def sample_store_def)
  moreover have "build_multi_proof sample_store (map cm_index [sample_member_A, sample_member_B]) = []"
    by (simp add: build_multi_proof_def sample_store_def sample_member_A_def sample_member_B_def)
  ultimately show ?thesis
    unfolding host_committee_build_def assign sample_gather bind_res_of_Inr prod.case
    by (simp only: ensure_def if_True gathering.simps Let_def toy_hashes TREE_DEPTH_def sample_ec_def sample_committee_witness_def)
qed

lemma sample_slots_summed: "slots_summed sample_ec"
  by (auto simp: slots_summed_def sample_ec_def sample_committee_witness_def sample_aggregates_def bucket_def
      sample_member_A_def sample_member_B_def split: if_splits)

end
