(* ===== verification/Collector.thy ===== *)
theory Collector
  imports HostCommittee SlotProof
begin

text \<open>
  \<open>crates/witness-gen/src/attestation_collector.rs\<close>: the attestations of one target checkpoint, filed
  under the slot they attest to, and the complement that proves a slot.

  The signature operations of \<open>blst\<close> are the parameter \<open>blst_sig\<close>: decoding (with its check), encoding
  and addition. An \<open>AggregateSignature\<close> made from a signature and read back is the signature. The
  state is passed explicitly; \<open>ingest\<close> returns the state it left behind also when it fails. The number
  of slots of an epoch is a non-zero constant of the network. \<open>binary_search_by_key\<close> on the members,
  whose indices increase, is the search for the index.
\<close>

record 's blst_sig =
  sig_from_bytes :: "bytes \<Rightarrow> 's option"
  sig_to_bytes :: "'s \<Rightarrow> bytes"
  sig_add :: "'s \<Rightarrow> 's \<Rightarrow> 's option"

datatype collect_error =
    CommitteeNotFound
  | BadSignature
  | SumFailed

type_synonym attestation_key = "u64 \<times> u64 \<times> bytes32 \<times> u64 \<times> bytes32 \<times> u64 \<times> bytes32"

record 's aggregate =
  ag_attestation :: attestation_witness
  ag_signature :: 's
  ag_signers :: "u64 set"

record 's summed =
  su_attestation :: attestation_witness
  su_signature :: 's
  su_signers :: "(u64, 's) btree"

record slot_complement =
  sc_slot :: u64
  sc_witness :: slot_complement_witness
  sc_marginal_balance :: u64
  sc_named_indices :: "u64 list"

record 's slot_stream =
  st_target_epoch :: u64
  st_target_root :: bytes32
  st_source_epoch :: u64
  st_source_root :: bytes32
  st_slots_per_epoch :: u64
  st_committees :: epoch_committees
  pending :: "(u64, 's aggregate list) btree"
  summed :: "(u64, (attestation_key \<times> u64, 's summed) btree) btree"
  closed :: "u64 set"

section \<open>Sums of signatures\<close>

definition summed_aggregate :: "'s blst_sig \<Rightarrow> 's summed \<Rightarrow> 's aggregate" where
  "summed_aggregate B s =
     \<lparr>ag_attestation = su_attestation s\<lparr>signature := sig_to_bytes B (su_signature s)\<rparr>,
      ag_signature = su_signature s, ag_signers = set (bt_keys (su_signers s))\<rparr>"

fun residual_sum ::
  "'s blst_sig \<Rightarrow> u64 set \<Rightarrow> 's option \<times> u64 set \<Rightarrow> (u64 \<times> 's) list \<Rightarrow> ('s option \<times> u64 set) option" where
  "residual_sum B covered st [] = Some st"
| "residual_sum B covered (acc, signers) ((index, sg) # rest) =
     (if index \<in> covered then residual_sum B covered (acc, signers) rest
      else case acc of
          None \<Rightarrow> residual_sum B covered (Some sg, insert index signers) rest
        | Some s \<Rightarrow>
            (case sig_add B s sg of
               None \<Rightarrow> None
             | Some s' \<Rightarrow> residual_sum B covered (Some s', insert index signers) rest))"

definition residual :: "'s blst_sig \<Rightarrow> 's summed \<Rightarrow> u64 set \<Rightarrow> 's aggregate option" where
  "residual B s covered =
     (if list_all (\<lambda>index. index \<notin> covered) (bt_keys (su_signers s)) then Some (summed_aggregate B s)
      else case residual_sum B covered (None, {}) (su_signers s) of
          Some (Some sg, signers) \<Rightarrow>
            Some \<lparr>ag_attestation = su_attestation s\<lparr>signature := sig_to_bytes B sg\<rparr>,
                  ag_signature = sg, ag_signers = signers\<rparr>
        | _ \<Rightarrow> None)"

fun add_signatures_opt :: "'s blst_sig \<Rightarrow> 's \<Rightarrow> 's list \<Rightarrow> 's option" where
  "add_signatures_opt B s [] = Some s"
| "add_signatures_opt B s (x # xs) =
     (case sig_add B s x of None \<Rightarrow> None | Some s' \<Rightarrow> add_signatures_opt B s' xs)"

definition merge_aggregates :: "'s blst_sig \<Rightarrow> 's aggregate list \<Rightarrow> attestation_witness option" where
  "merge_aggregates B aggs =
     (case aggs of
        [] \<Rightarrow> None
      | first # rest \<Rightarrow>
          map_option (\<lambda>s. (ag_attestation first)\<lparr>signature := sig_to_bytes B s\<rparr>)
            (add_signatures_opt B (ag_signature first) (map ag_signature rest)))"

definition data_key :: "attestation_witness \<Rightarrow> attestation_key" where
  "data_key a = (data_slot a, data_index a, data_beacon_block_root a, data_source_epoch a,
     data_source_root a, data_target_epoch a, data_target_root a)"

section \<open>Feeding the stream\<close>

definition stream_new :: "u64 \<Rightarrow> epoch_committees \<Rightarrow> u64 \<Rightarrow> bytes32 \<Rightarrow> bytes32 \<Rightarrow> 's slot_stream" where
  "stream_new spe committees target_epoch target_root source_root =
     \<lparr>st_target_epoch = target_epoch, st_target_root = target_root,
      st_source_epoch = (if target_epoch = 0 then 0 else target_epoch - 1),
      st_source_root = source_root, st_slots_per_epoch = spe, st_committees = committees,
      pending = [], summed = [], closed = {}\<rparr>"

definition get_bit :: "bytes \<Rightarrow> nat \<Rightarrow> bool" where
  "get_bit bitfield idx =
     (if idx div 8 \<ge> length bitfield then False
      else (drop_bit (idx mod 8) (bitfield ! (idx div 8))) AND 1 = 1)"

definition bits_set :: "bytes \<Rightarrow> nat \<Rightarrow> u64 list \<Rightarrow> u64 list" where
  "bits_set bits offset members =
     map snd (filter (\<lambda>(j, v). get_bit bits (offset + j)) (zip [0..<length members] members))"

definition electra_step ::
  "attestation_response \<Rightarrow> epoch_committees \<Rightarrow> nat \<times> u64 list \<Rightarrow> nat \<Rightarrow> nat \<times> u64 list" where
  "electra_step att committees st committee_index =
     (if \<not> get_bit (committee_bits att) committee_index then st
      else case ec_committee committees (ar_data_slot att) (of_nat committee_index) of
          None \<Rightarrow> st
        | Some members \<Rightarrow>
            (fst st + length members, snd st @ bits_set (aggregation_bits att) (fst st) members))"

definition resolve_attesting_validators ::
  "attestation_response \<Rightarrow> epoch_committees \<Rightarrow> collect_error + u64 list" where
  "resolve_attesting_validators att committees =
     (case ar_single_attester att of
        Some single \<Rightarrow>
          bind_res (expect (ec_committee committees (ar_data_slot att) (sa_committee_index single))
              CommitteeNotFound) (\<lambda>members.
          Inr (if sa_attester_index single \<in> set members then [sa_attester_index single] else []))
      | None \<Rightarrow>
          if committee_bits att = [] then
            bind_res (expect (ec_committee committees (ar_data_slot att) (ar_data_index att))
                CommitteeNotFound) (\<lambda>members.
            Inr (bits_set (aggregation_bits att) 0 members))
          else Inr (snd (foldl (electra_step att committees) (0, []) [0..<length (committee_bits att) * 8])))"

definition attestation_of :: "attestation_response \<Rightarrow> attestation_witness" where
  "attestation_of att =
     \<lparr>data_slot = ar_data_slot att, data_index = ar_data_index att,
      data_beacon_block_root = ar_data_beacon_block_root att,
      data_source_epoch = ar_data_source_epoch att, data_source_root = ar_data_source_root att,
      data_target_epoch = ar_data_target_epoch att, data_target_root = ar_data_target_root att,
      signature = ar_signature att, attesting_validators = []\<rparr>"

definition entry_or :: "'v \<Rightarrow> ('k, 'v) btree \<Rightarrow> 'k \<Rightarrow> 'v" where
  "entry_or d m k = (case bt_get m k of Some v \<Rightarrow> v | None \<Rightarrow> d)"

text \<open>One unaggregated attestation into its committee's bucket.\<close>

definition sum_bucket ::
  "'s blst_sig \<Rightarrow> attestation_witness \<Rightarrow> u64 \<Rightarrow> 's \<Rightarrow> 's summed option \<Rightarrow> collect_error + 's summed" where
  "sum_bucket B attestation attester sg entry =
     (case entry of
        None \<Rightarrow> Inr \<lparr>su_attestation = attestation, su_signature = sg, su_signers = [(attester, sg)]\<rparr>
      | Some running \<Rightarrow>
          if bt_get (su_signers running) attester \<noteq> None then Inr running
          else
            bind_res (expect (sig_add B (su_signature running) sg) SumFailed) (\<lambda>s.
            Inr (running\<lparr>su_signature := s, su_signers := bt_insert attester sg (su_signers running)\<rparr>)))"

definition sum_single ::
  "'s blst_sig \<Rightarrow> 's slot_stream \<Rightarrow> attestation_witness \<Rightarrow> u64 \<Rightarrow> u64 \<Rightarrow> collect_error + 's slot_stream" where
  "sum_single B st attestation committee_index attester =
     bind_res (expect (sig_from_bytes B (signature attestation)) BadSignature) (\<lambda>sg.
     let messages = entry_or [] (summed st) (data_slot attestation);
         k = (data_key attestation, committee_index) in
     bind_res (sum_bucket B attestation attester sg (bt_get messages k)) (\<lambda>bucket.
     Inr (st\<lparr>summed := bt_insert (data_slot attestation) (bt_insert k bucket messages) (summed st)\<rparr>)))"

definition ingest_one ::
  "'s blst_sig \<Rightarrow> 's slot_stream \<Rightarrow> attestation_response \<Rightarrow> collect_error + 's slot_stream" where
  "ingest_one B st att =
     (if ar_data_target_epoch att \<noteq> st_target_epoch st \<or> ar_data_target_root att \<noteq> st_target_root st \<or>
         ar_data_source_epoch att \<noteq> st_source_epoch st \<or> ar_data_source_root att \<noteq> st_source_root st
      then Inr st
      else if ar_data_slot att \<in> closed st then Inr st
      else
        bind_res (resolve_attesting_validators att (st_committees st)) (\<lambda>signers.
        if signers = [] then Inr st
        else case ar_single_attester att of
            Some single \<Rightarrow>
              sum_single B st (attestation_of att) (sa_committee_index single) (sa_attester_index single)
          | None \<Rightarrow>
              (case sig_from_bytes B (ar_signature att) of
                 None \<Rightarrow> Inr st
               | Some sg \<Rightarrow>
                   Inr (st\<lparr>pending := bt_insert (ar_data_slot att)
                     (entry_or [] (pending st) (ar_data_slot att) @
                       [\<lparr>ag_attestation = attestation_of att, ag_signature = sg, ag_signers = set signers\<rparr>])
                     (pending st)\<rparr>))))"

fun ingest ::
  "'s blst_sig \<Rightarrow> 's slot_stream \<Rightarrow> attestation_response list \<Rightarrow> collect_error option \<times> 's slot_stream" where
  "ingest B st [] = (None, st)"
| "ingest B st (att # atts) =
     (case ingest_one B st att of Inl e \<Rightarrow> (Some e, st) | Inr st' \<Rightarrow> ingest B st' atts)"

section \<open>Closing a slot\<close>

type_synonym 's cover = "'s aggregate list \<times> u64 set"

definition pack_at ::
  "'k::linorder \<Rightarrow> ('k, u64 set) btree \<times> ('k \<times> 's aggregate) list \<Rightarrow> 's aggregate \<Rightarrow>
     ('k, u64 set) btree \<times> ('k \<times> 's aggregate) list" where
  "pack_at key st a =
     (case st of (packed, chosen) \<Rightarrow>
       let signers = entry_or {} packed key in
       if signers \<inter> ag_signers a \<noteq> {} then (bt_insert key signers packed, chosen)
       else (bt_insert key (signers \<union> ag_signers a) packed, chosen @ [(key, a)]))"

definition pack_step ::
  "(attestation_key, u64 set) btree \<times> (attestation_key \<times> 's aggregate) list \<Rightarrow> 's aggregate \<Rightarrow>
     (attestation_key, u64 set) btree \<times> (attestation_key \<times> 's aggregate) list" where
  "pack_step st a = pack_at (data_key (ag_attestation a)) st a"

definition pack_aggregates ::
  "'s aggregate list \<Rightarrow> (attestation_key, u64 set) btree \<times> (attestation_key \<times> 's aggregate) list" where
  "pack_aggregates theirs =
     foldl pack_step ([], []) (sort_key (\<lambda>a. - int (card (ag_signers a))) theirs)"

definition residuals ::
  "'s blst_sig \<Rightarrow> ('k, u64 set) btree \<Rightarrow> ('k \<times> u64, 's summed) btree \<Rightarrow>
     ('k \<times> 's aggregate) list" where
  "residuals B packed messages =
     List.map_filter (\<lambda>((key, _), s). map_option (Pair key) (residual B s (entry_or {} packed key))) messages"

definition push_chosen ::
  "('k::linorder, 's cover) btree \<Rightarrow> 'k \<times> 's aggregate \<Rightarrow> ('k, 's cover) btree" where
  "push_chosen m e =
     (case e of (key, a) \<Rightarrow>
       case entry_or ([], {}) m key of (aggs, signers) \<Rightarrow> bt_insert key (aggs @ [a], signers) m)"

definition push_residual ::
  "('k::linorder, 's cover) btree \<Rightarrow> 'k \<times> 's aggregate \<Rightarrow> ('k, 's cover) btree" where
  "push_residual m e =
     (case e of (key, a) \<Rightarrow>
       case entry_or ([], {}) m key of (aggs, signers) \<Rightarrow>
         if signers \<inter> ag_signers a \<noteq> {} then bt_insert key (aggs, signers) m
         else bt_insert key (aggs @ [a], signers \<union> ag_signers a) m)"

definition covers ::
  "'s blst_sig \<Rightarrow> 's aggregate list \<Rightarrow> (attestation_key \<times> u64, 's summed) btree \<Rightarrow> (attestation_key, 's cover) btree" where
  "covers B theirs messages =
     (case pack_aggregates theirs of (packed, chosen) \<Rightarrow>
       let ours = residuals B packed messages;
           by_message = map (\<lambda>(key, signers). (key, ([], signers))) packed in
       foldl push_residual (foldl push_chosen by_message chosen) ours)"

text \<open>\<open>max_by_key\<close> returns the last of several greatest elements.\<close>

definition max_step ::
  "('k \<times> 's cover) option \<Rightarrow> 'k \<times> 's cover \<Rightarrow> ('k \<times> 's cover) option" where
  "max_step best e =
     (case best of
        None \<Rightarrow> Some e
      | Some b \<Rightarrow> if card (snd (snd b)) \<le> card (snd (snd e)) then Some e else Some b)"

definition opened :: "epoch_committees \<Rightarrow> u64 \<Rightarrow> opened_validator option" where
  "opened committees index =
     map_option (\<lambda>m. \<lparr>ov_index = cm_index m, ov_pubkey = cm_pubkey m, ov_balance = cm_balance m\<rparr>)
       (find (\<lambda>m. cm_index m = index) (cw_members (ec_witness committees)))"

definition named_aggregate :: "epoch_committees \<Rightarrow> 's aggregate \<Rightarrow> attestation_witness option" where
  "named_aggregate committees a =
     map_option (\<lambda>vs. (ag_attestation a)\<lparr>attesting_validators := vs\<rparr>)
       (those (map (opened committees) (sorted_list_of_set (ag_signers a))))"

definition peek :: "'s blst_sig \<Rightarrow> 's slot_stream \<Rightarrow> u64 \<Rightarrow> slot_complement option" where
  "peek B st slot =
     (let slot_in_ep = slot mod st_slots_per_epoch st; cs = st_committees st in
     case ec_aggregate cs slot_in_ep of
       None \<Rightarrow> None
     | Some agg \<Rightarrow>
     (let members = ec_members cs ! unat slot_in_ep;
          messages = entry_or [] (summed st) slot;
          theirs = entry_or [] (pending st) slot in
     if messages = [] \<and> theirs = [] then None
     else (let by_message = covers B theirs messages in
     case foldl max_step None by_message of
       None \<Rightarrow> None
     | Some (primary_key, primary_aggregates, primary_signers) \<Rightarrow>
     (let others = bt_values (bt_remove primary_key by_message);
          secondary_signers = \<Union> (set (map snd others)) in
     case those (map (named_aggregate cs) (concat (map fst others))) of
       None \<Rightarrow> None
     | Some secondary_witnesses \<Rightarrow>
     (case those (map (opened cs)
         (filter (\<lambda>i. i \<notin> primary_signers \<and> i \<notin> secondary_signers) members)) of
       None \<Rightarrow> None
     | Some absent \<Rightarrow>
     (case merge_aggregates B primary_aggregates of
       None \<Rightarrow> None
     | Some w \<Rightarrow>
         Some \<lparr>sc_slot = slot,
               sc_witness = \<lparr>slot_in_epoch = slot_in_ep, committee = agg, primary = [w],
                 secondary = secondary_witnesses, absentees = absent\<rparr>,
               sc_marginal_balance = ca_balance agg - sum_list (map ov_balance absent),
               sc_named_indices =
                 sorted_list_of_set (secondary_signers \<union> set (map ov_index absent))\<rparr>))))))"

definition forget :: "'s slot_stream \<Rightarrow> u64 \<Rightarrow> 's slot_stream" where
  "forget st slot =
     st\<lparr>pending := bt_remove slot (pending st), summed := bt_remove slot (summed st),
        closed := insert slot (closed st)\<rparr>"

definition stream_close :: "'s blst_sig \<Rightarrow> 's slot_stream \<Rightarrow> u64 \<Rightarrow> slot_complement option \<times> 's slot_stream" where
  "stream_close B st slot =
     (case peek B st slot of None \<Rightarrow> (None, st) | Some c \<Rightarrow> (Some c, forget st slot))"

definition aggregates :: "'s slot_stream \<Rightarrow> u64 \<Rightarrow> nat" where
  "aggregates st slot = (case bt_get (pending st) slot of None \<Rightarrow> 0 | Some as \<Rightarrow> length as)"

definition open_slots :: "'s slot_stream \<Rightarrow> u64 list" where
  "open_slots st = remdups_adj (sort (remdups_adj (bt_keys (pending st) @ bt_keys (summed st))))"

text \<open>
  The whole epoch at once: the blocks of two epochs, as the node answers for each slot, then every
  slot of the first. A block the node does not have is skipped; a failing \<open>ingest\<close> ends the run.
\<close>

fun feed_blocks ::
  "'s blst_sig \<Rightarrow> (u64 \<Rightarrow> attestation_response list option) \<Rightarrow> 's slot_stream \<Rightarrow> u64 list \<Rightarrow>
     collect_error + 's slot_stream" where
  "feed_blocks B api st [] = Inr st"
| "feed_blocks B api st (slot # slots) =
     (case api slot of
        None \<Rightarrow> feed_blocks B api st slots
      | Some atts \<Rightarrow>
          (case ingest B st atts of
             (Some e, st') \<Rightarrow> Inl e
           | (None, st') \<Rightarrow> feed_blocks B api st' slots))"

fun close_all :: "'s blst_sig \<Rightarrow> 's slot_stream \<Rightarrow> u64 list \<Rightarrow> slot_complement list" where
  "close_all B st [] = []"
| "close_all B st (slot # slots) =
     (case stream_close B st slot of
        (None, st') \<Rightarrow> close_all B st' slots
      | (Some c, st') \<Rightarrow> c # close_all B st' slots)"

definition slot_range :: "u64 \<Rightarrow> u64 \<Rightarrow> u64 list" where
  "slot_range first end = map of_nat [unat first..<unat end]"

definition collect_per_slot_for_checkpoint ::
  "'s blst_sig \<Rightarrow> (u64 \<Rightarrow> attestation_response list option) \<Rightarrow> u64 \<Rightarrow> epoch_committees \<Rightarrow> u64 \<Rightarrow>
     bytes32 \<Rightarrow> bytes32 \<Rightarrow> collect_error + slot_complement list" where
  "collect_per_slot_for_checkpoint B api spe committees target_epoch target_root source_root =
     bind_res (feed_blocks B api (stream_new spe committees target_epoch target_root source_root)
         (slot_range (target_epoch * spe) ((target_epoch + 2) * spe))) (\<lambda>st.
     Inr (close_all B st (slot_range (target_epoch * spe) ((target_epoch + 1) * spe))))"

end
