(* ===== verification/CollectorCover.thy ===== *)
theory CollectorCover
  imports Collector
begin

text \<open>
  What \<open>peek\<close> chooses. The covers of a slot stand for a list of aggregates by message
  (\<open>represents\<close>), those of one message pairwise disjoint; a complement consists of one message's
  cover as its primary, the others named, and the members nobody covers.
\<close>

definition of_message :: "'k \<Rightarrow> ('k \<times> 's aggregate) list \<Rightarrow> 's aggregate list" where
  "of_message k es = map snd (filter (\<lambda>e. fst e = k) es)"

definition all_signers :: "'s aggregate list \<Rightarrow> u64 set" where
  "all_signers aggs = \<Union> (ag_signers ` set aggs)"

definition disjoint_signers :: "'s aggregate list \<Rightarrow> bool" where
  "disjoint_signers aggs \<longleftrightarrow> sorted_wrt (\<lambda>a b. ag_signers a \<inter> ag_signers b = {}) aggs"

definition represents :: "('k::linorder, 's cover) btree \<Rightarrow> ('k \<times> 's aggregate) list \<Rightarrow> bool" where
  "represents m es \<longleftrightarrow> bt_ok m \<and> (\<forall>k. disjoint_signers (of_message k es)) \<and>
     (\<forall>k. bt_get m k = (if of_message k es = [] then None
       else Some (of_message k es, all_signers (of_message k es))))"

definition packed_ok :: "('k::linorder, u64 set) btree \<Rightarrow> ('k \<times> 's aggregate) list \<Rightarrow> bool" where
  "packed_ok packed chosen \<longleftrightarrow> bt_ok packed \<and> (\<forall>k. disjoint_signers (of_message k chosen)) \<and>
     (\<forall>k. bt_get packed k = (if of_message k chosen = [] then None else Some (all_signers (of_message k chosen))))"

lemma of_message_simps [simp]:
  "of_message k [] = []"
  "of_message k (es @ es') = of_message k es @ of_message k es'"
  "of_message k (e # es) = (if fst e = k then snd e # of_message k es else of_message k es)"
  by (simp_all add: of_message_def)

lemma set_of_message: "set (of_message k es) = {a. (k, a) \<in> set es}"
  by (force simp: of_message_def)

lemma of_message_signers: "e \<in> set es \<Longrightarrow> ag_signers (snd e) \<subseteq> \<Union> (ag_signers ` set (of_message (fst e) es))"
  unfolding set_of_message by (cases e) auto

lemma all_signers_simps [simp]:
  "all_signers [] = {}" "all_signers (as @ bs) = all_signers as \<union> all_signers bs"
  "all_signers (a # as) = ag_signers a \<union> all_signers as"
  by (simp_all add: all_signers_def)

lemma disjoint_signers_snoc [simp]:
  "disjoint_signers (as @ [a]) \<longleftrightarrow> disjoint_signers as \<and> all_signers as \<inter> ag_signers a = {}"
  by (auto simp: disjoint_signers_def sorted_wrt_append all_signers_def)

lemma disjoint_signers_Nil [simp]: "disjoint_signers []"
  by (simp add: disjoint_signers_def)

lemma packed_entry:
  "packed_ok packed chosen \<Longrightarrow> entry_or {} packed k = all_signers (of_message k chosen)"
  by (simp add: packed_ok_def entry_or_def)

lemma pack_at_ok:
  assumes "packed_ok packed chosen" "pack_at k (packed, chosen) a = (packed', chosen')"
  shows "packed_ok packed' chosen' \<and> (chosen' = chosen \<or> chosen' = chosen @ [(k, a)])"
proof -
  have entry: "entry_or {} packed k = all_signers (of_message k chosen)" by (rule packed_entry [OF assms(1)])
  have "all_signers (of_message k chosen) \<inter> ag_signers a \<noteq> {} \<Longrightarrow> of_message k chosen \<noteq> []" by auto
  then show ?thesis
    using assms unfolding packed_ok_def by (auto simp: pack_at_def Let_def entry split: if_splits)
qed

lemma pack_aggregates_ok:
  assumes "pack_aggregates theirs = (packed, chosen)"
  shows "packed_ok packed chosen \<and> (\<forall>(k, a)\<in>set chosen. k = data_key (ag_attestation a) \<and> a \<in> set theirs)"
proof -
  have "packed_ok (fst st) (snd st) \<and> (\<forall>(k, a)\<in>set (snd st). k = data_key (ag_attestation a) \<and> a \<in> set aggs)"
    if "st = foldl pack_step ([], []) aggs" for st and aggs :: "'a aggregate list"
    using that
  proof (induction aggs arbitrary: st rule: rev_induct)
    case Nil
    then show ?case by (simp add: packed_ok_def)
  next
    case (snoc a aggs)
    obtain packed chosen where st: "foldl pack_step ([], []) aggs = (packed, chosen)" by fastforce
    obtain packed' chosen' where st': "st = (packed', chosen')" by fastforce
    have "pack_at (data_key (ag_attestation a)) (packed, chosen) a = (packed', chosen')" using snoc.prems unfolding st' foldl_append st by (simp add: pack_step_def)
    from pack_at_ok [OF _ this] snoc.IH [OF refl] show ?case by (auto simp: st st')
  qed
  from this [OF refl, of "sort_key (\<lambda>a. - int (card (ag_signers a))) theirs"] assms
  show ?thesis by (simp add: pack_aggregates_def)
qed

lemma bt_get_map_entries: "bt_get (map (\<lambda>(k, v). (k, f v)) m) k = map_option f (bt_get m k)"
  by (induction m) (auto simp: bt_get_def)

text \<open>After the chosen aggregates of the packing have been pushed.\<close>

lemma push_chosen_all:
  assumes "bt_ok m" "\<forall>k. bt_get m k = (if of_message k (done @ es) = [] then None
      else Some (of_message k done, all_signers (of_message k (done @ es))))"
  shows "bt_ok (foldl push_chosen m es) \<and>
    (\<forall>k. bt_get (foldl push_chosen m es) k = (if of_message k (done @ es) = [] then None
      else Some (of_message k (done @ es), all_signers (of_message k (done @ es)))))"
  using assms
proof (induction es arbitrary: m "done")
  case (Cons e es)
  obtain k a where e: "e = (k, a)" by (cases e)
  have entry: "entry_or ([], {}) m k = (of_message k done, all_signers (of_message k (done @ e # es)))"
    using Cons.prems(2) by (simp add: entry_or_def e)
  show ?case
    using Cons.IH [of "push_chosen m e" "done @ [e]"] Cons.prems entry by (auto simp: push_chosen_def e)
qed simp

lemma push_residual_represents:
  assumes "represents m es" "e = (k, a)"
  shows "represents (push_residual m e)
    (if all_signers (of_message k es) \<inter> ag_signers a = {} then es @ [e] else es)"
proof -
  have entry: "entry_or ([], {}) m k = (of_message k es, all_signers (of_message k es))"
    using assms(1) by (simp add: represents_def entry_or_def)
  have "all_signers (of_message k es) \<inter> ag_signers a \<noteq> {} \<Longrightarrow> of_message k es \<noteq> []" by auto
  then show ?thesis
    using assms(1) unfolding represents_def by (auto simp: push_residual_def entry assms(2))
qed

section \<open>Sums of valid signatures\<close>

text \<open>
  Signatures are elements of a group, which \<open>sig_add\<close> adds. A signature over a message by a set of
  validators is valid when it is the sum of theirs; \<open>sg k v\<close> is what \<open>v\<close> signs \<open>k\<close> with.
\<close>

definition sig_law :: "'s blst_sig \<Rightarrow> ('s \<Rightarrow> 'g::comm_monoid_add) \<Rightarrow> bool" where
  "sig_law B val \<longleftrightarrow> (\<forall>a b c. sig_add B a b = Some c \<longrightarrow> val c = val a + val b)"

definition aggregate_valid :: "('s \<Rightarrow> 'g::comm_monoid_add) \<Rightarrow> (attestation_key \<Rightarrow> u64 \<Rightarrow> 'g) \<Rightarrow> 's aggregate \<Rightarrow> bool" where
  "aggregate_valid val sg a \<longleftrightarrow>
     val (ag_signature a) = (\<Sum>v\<in>ag_signers a. sg (data_key (ag_attestation a)) v)"

definition summed_valid :: "('s \<Rightarrow> 'g::comm_monoid_add) \<Rightarrow> (attestation_key \<Rightarrow> u64 \<Rightarrow> 'g) \<Rightarrow> 's summed \<Rightarrow> bool" where
  "summed_valid val sg s \<longleftrightarrow> bt_ok (su_signers s) \<and>
     (\<forall>(i, x)\<in>set (su_signers s). val x = sg (data_key (su_attestation s)) i) \<and>
     val (su_signature s) = (\<Sum>v\<in>set (bt_keys (su_signers s)). sg (data_key (su_attestation s)) v)"

definition val_option :: "('s \<Rightarrow> 'g::comm_monoid_add) \<Rightarrow> 's option \<Rightarrow> 'g" where
  "val_option val s = (case s of None \<Rightarrow> 0 | Some x \<Rightarrow> val x)"

lemma val_option_simps [simp]: "val_option val None = 0" "val_option val (Some x) = val x"
  by (simp_all add: val_option_def)

lemma sig_lawD: "sig_law B val \<Longrightarrow> sig_add B a b = Some c \<Longrightarrow> val c = val a + val b"
  by (simp add: sig_law_def)

lemma data_key_signature [simp]: "data_key (a\<lparr>signature := s\<rparr>) = data_key a"
  by (simp add: data_key_def)

lemma residual_sum_ok:
  assumes "residual_sum B covered (acc, signers) es = Some (acc', signers')"
  shows "signers' = signers \<union> (fst ` set es - covered)"
    and "(acc = None \<longleftrightarrow> signers = {}) \<Longrightarrow> (acc' = None \<longleftrightarrow> signers' = {})"
    and "sig_law B val \<Longrightarrow> distinct (map fst es) \<Longrightarrow> \<forall>(i, x)\<in>set es. val x = f i \<Longrightarrow>
      val_option val acc' = val_option val acc + (\<Sum>i\<in>fst ` set es - covered. f i)"
proof -
  have "signers' = signers \<union> (fst ` set es - covered) \<and>
    ((acc = None \<longleftrightarrow> signers = {}) \<longrightarrow> (acc' = None \<longleftrightarrow> signers' = {})) \<and>
    (sig_law B val \<longrightarrow> distinct (map fst es) \<longrightarrow> (\<forall>(i, x)\<in>set es. val x = f i) \<longrightarrow>
      val_option val acc' = val_option val acc + (\<Sum>i\<in>fst ` set es - covered. f i))"
    using assms
  proof (induction es arbitrary: acc signers)
    case (Cons e es)
    obtain i x where e: "e = (i, x)" by (cases e)
    show ?case
    proof (cases "i \<in> covered")
      case True
      then have "fst ` set (e # es) - covered = fst ` set es - covered" by (auto simp: e)
      then show ?thesis using Cons.IH [of acc signers] Cons.prems True by (auto simp: e)
    next
      case False
      then obtain acc1 where acc1: "residual_sum B covered (Some acc1, insert i signers) es = Some (acc', signers')"
        and add: "acc = None \<and> acc1 = x \<or> (\<exists>s. acc = Some s \<and> sig_add B s x = Some acc1)"
        using Cons.prems by (auto simp: e split: option.splits)
      have set: "fst ` set (e # es) - covered = insert i (fst ` set es - covered)" using False by (auto simp: e)
      have "sig_law B val \<Longrightarrow> val acc1 = val_option val acc + val x" using add by (auto dest: sig_lawD)
      then show ?thesis
        using Cons.IH [OF acc1] unfolding set by (auto simp: e add.assoc)
    qed
  qed simp
  then show "signers' = signers \<union> (fst ` set es - covered)"
    and "(acc = None \<longleftrightarrow> signers = {}) \<Longrightarrow> (acc' = None \<longleftrightarrow> signers' = {})"
    and "sig_law B val \<Longrightarrow> distinct (map fst es) \<Longrightarrow> \<forall>(i, x)\<in>set es. val x = f i \<Longrightarrow>
      val_option val acc' = val_option val acc + (\<Sum>i\<in>fst ` set es - covered. f i)" by blast+
qed

text \<open>The residual is what the packing does not carry, under the same message, validly summed.\<close>

lemma residual_Some:
  assumes "residual B s covered = Some a"
  shows "ag_signers a = set (bt_keys (su_signers s)) - covered"
    and "\<exists>x. ag_attestation a = su_attestation s\<lparr>signature := x\<rparr>"
    and "su_signers s \<noteq> [] \<Longrightarrow> ag_signers a \<noteq> {}"
    and "sig_law B val \<Longrightarrow> summed_valid val sg s \<Longrightarrow> aggregate_valid val sg a"
proof -
  let ?keys = "set (bt_keys (su_signers s))"
  have keys: "fst ` set (su_signers s) = ?keys" by (simp add: bt_keys_def)
  have "ag_signers a = ?keys - covered \<and> (\<exists>x. ag_attestation a = su_attestation s\<lparr>signature := x\<rparr>) \<and>
    (su_signers s \<noteq> [] \<longrightarrow> ag_signers a \<noteq> {}) \<and>
    (sig_law B val \<longrightarrow> summed_valid val sg s \<longrightarrow> aggregate_valid val sg a)"
  proof (cases "list_all (\<lambda>index. index \<notin> covered) (bt_keys (su_signers s))")
    case True
    then have "?keys - covered = ?keys" by (auto simp: list_all_iff)
    moreover have "a = summed_aggregate B s" using True assms by (simp add: residual_def)
    ultimately show ?thesis
      by (auto simp: summed_aggregate_def summed_valid_def aggregate_valid_def bt_keys_def)
  next
    case False
    then obtain x signers where sum: "residual_sum B covered (None, {}) (su_signers s) = Some (Some x, signers)"
      and a: "a = \<lparr>ag_attestation = su_attestation s\<lparr>signature := sig_to_bytes B x\<rparr>,
                  ag_signature = x, ag_signers = signers\<rparr>"
      using assms by (auto simp: residual_def split: option.splits prod.splits)
    note r = residual_sum_ok [OF sum]
    have "aggregate_valid val sg a" if "sig_law B val" "summed_valid val sg s"
      using r(3) [OF that(1), of "sg (data_key (su_attestation s))"] r(1) that(2) bt_ok_distinct [of "su_signers s"]
      by (simp add: aggregate_valid_def summed_valid_def a keys)
    then show ?thesis using r(1,2) by (auto simp: a keys)
  qed
  then show "ag_signers a = ?keys - covered" "\<exists>x. ag_attestation a = su_attestation s\<lparr>signature := x\<rparr>"
    and "su_signers s \<noteq> [] \<Longrightarrow> ag_signers a \<noteq> {}"
    and "sig_law B val \<Longrightarrow> summed_valid val sg s \<Longrightarrow> aggregate_valid val sg a" by blast+
qed

lemma sum_disjoint_signers:
  assumes "disjoint_signers aggs"
  shows "sum f (all_signers aggs) = (\<Sum>a\<leftarrow>aggs. sum f (ag_signers a))"
  using assms
proof (induction aggs)
  case (Cons a aggs)
  have "ag_signers a \<inter> all_signers aggs = {}" using Cons.prems by (auto simp: disjoint_signers_def all_signers_def)
  then have "sum f (all_signers (a # aggs)) = sum f (ag_signers a) + sum f (all_signers aggs)"
    by (simp add: sum.union_disjoint)
  then show ?case using Cons by (simp add: disjoint_signers_def)
qed simp

lemma add_signatures_opt_val:
  "sig_law B val \<Longrightarrow> add_signatures_opt B s xs = Some s' \<Longrightarrow> val s' = val s + sum_list (map val xs)"
proof (induction xs arbitrary: s)
  case (Cons x xs)
  then obtain t where "sig_add B s x = Some t" "add_signatures_opt B t xs = Some s'"
    by (auto split: option.splits)
  then show ?case using Cons.IH [OF Cons.prems(1)] Cons.prems(1) by (simp add: sig_lawD add.assoc)
qed simp

text \<open>A merged cover is signed by each of its validators once.\<close>

lemma merge_aggregates_Some:
  assumes "merge_aggregates B aggs = Some w"
  obtains x where "aggs \<noteq> []" "w = (ag_attestation (hd aggs))\<lparr>signature := sig_to_bytes B x\<rparr>"
    and "sig_law B val \<Longrightarrow> disjoint_signers aggs \<Longrightarrow>
      \<forall>a\<in>set aggs. aggregate_valid val sg a \<and> data_key (ag_attestation a) = k \<Longrightarrow>
      val x = (\<Sum>v\<in>all_signers aggs. sg k v)"
proof -
  obtain first rest x where aggs: "aggs = first # rest"
    and x: "add_signatures_opt B (ag_signature first) (map ag_signature rest) = Some x"
    and w: "w = (ag_attestation first)\<lparr>signature := sig_to_bytes B x\<rparr>"
    using assms by (auto simp: merge_aggregates_def split: list.splits)
  have "val x = (\<Sum>v\<in>all_signers aggs. sg k v)"
    if "sig_law B val" "disjoint_signers aggs"
      and valid: "\<forall>a\<in>set aggs. aggregate_valid val sg a \<and> data_key (ag_attestation a) = k"
  proof -
    have "val x = sum_list (map (val \<circ> ag_signature) aggs)"
      using add_signatures_opt_val [OF that(1) x] by (simp add: aggs)
    also have "\<dots> = (\<Sum>a\<leftarrow>aggs. \<Sum>v\<in>ag_signers a. sg k v)"
      using valid by (intro arg_cong [where f = sum_list] map_cong) (auto simp: aggregate_valid_def)
    finally show ?thesis by (simp only: sum_disjoint_signers [OF that(2)])
  qed
  then show thesis using that [of x] by (simp add: aggs w)
qed


section \<open>The covers of a slot\<close>

text \<open>Committees partition a slot, so the buckets of one message have no signer in common.\<close>

definition buckets_disjoint :: "('k \<times> u64, 's summed) btree \<Rightarrow> bool" where
  "buckets_disjoint messages \<longleftrightarrow> sorted_wrt (\<lambda>e e'. fst (fst e) = fst (fst e') \<longrightarrow>
     set (bt_keys (su_signers (snd e))) \<inter> set (bt_keys (su_signers (snd e'))) = {}) messages"

definition apart :: "'k \<times> 's aggregate \<Rightarrow> 'k \<times> 's aggregate \<Rightarrow> bool" where
  "apart e e' \<longleftrightarrow> (fst e = fst e' \<longrightarrow> ag_signers (snd e) \<inter> ag_signers (snd e') = {})"

lemma push_residuals_represents:
  assumes "represents m es" "sorted_wrt apart rs" "\<forall>r\<in>set rs. \<forall>e\<in>set es. apart e r"
  shows "represents (foldl push_residual m rs) (es @ rs)"
  using assms
proof (induction rs arbitrary: m es)
  case (Cons r rs)
  obtain k a where r: "r = (k, a)" by (cases r)
  have "all_signers (of_message k es) \<inter> ag_signers a = {}"
    using Cons.prems(3) by (fastforce simp: r all_signers_def set_of_message apart_def)
  then have "represents (push_residual m r) (es @ [r])"
    using push_residual_represents [OF Cons.prems(1) r] by simp
  from Cons.IH [OF this] Cons.prems(2,3) show ?case by (auto simp: apart_def)
qed simp

lemma residuals_Cons:
  "residuals B packed (((k, c), s) # messages) =
     (case residual B s (entry_or {} packed k) of None \<Rightarrow> residuals B packed messages
      | Some a \<Rightarrow> (k, a) # residuals B packed messages)"
  by (simp add: residuals_def List.map_filter_def split: option.split)

lemma residuals_Nil [simp]: "residuals B packed [] = []"
  by (simp add: residuals_def List.map_filter_def)

lemma in_residuals:
  "(k, a) \<in> set (residuals B packed messages) \<longleftrightarrow>
     (\<exists>c s. ((k, c), s) \<in> set messages \<and> residual B s (entry_or {} packed k) = Some a)"
  by (force simp: residuals_def List.map_filter_def)

lemma residuals_apart:
  "buckets_disjoint messages \<Longrightarrow> sorted_wrt apart (residuals B packed messages)"
proof (induction messages)
  case (Cons e messages)
  obtain k c s where e: "e = ((k, c), s)" by (metis prod.collapse)
  have ih: "sorted_wrt apart (residuals B packed messages)"
    using Cons by (simp add: buckets_disjoint_def)
  show ?case
  proof (cases "residual B s (entry_or {} packed k)")
    case (Some a)
    have "apart (k, a) r" if rs: "r \<in> set (residuals B packed messages)" for r
    proof -
      obtain k' b where r: "r = (k', b)" by (cases r)
      obtain c' s' where s': "((k', c'), s') \<in> set messages" "residual B s' (entry_or {} packed k') = Some b"
        using rs by (auto simp: r in_residuals)
      have "k = k' \<Longrightarrow> set (bt_keys (su_signers s)) \<inter> set (bt_keys (su_signers s')) = {}"
        using Cons.prems s'(1) by (force simp: e buckets_disjoint_def)
      then show ?thesis
        using residual_Some(1) [OF Some] residual_Some(1) [OF s'(2)] by (auto simp: apart_def r)
    qed
    then show ?thesis using ih by (simp add: e residuals_Cons Some)
  qed (use ih in \<open>simp add: e residuals_Cons\<close>)
qed simp

lemma covers_represents:
  assumes "buckets_disjoint messages" "pack_aggregates theirs = (packed, chosen)"
  shows "represents (covers B theirs messages) (chosen @ residuals B packed messages)"
proof -
  let ?init = "map (\<lambda>(key, signers). (key, ([] :: 'a aggregate list, signers))) packed"
  have packed: "packed_ok packed chosen" using pack_aggregates_ok [OF assms(2)] by blast
  have fsts: "map fst ?init = map fst packed" by (induction packed) auto
  have "bt_ok packed" using packed by (simp add: packed_ok_def)
  then have "bt_ok ?init" unfolding bt_ok_def fsts .
  moreover have "\<forall>k. bt_get ?init k = (if of_message k ([] @ chosen) = [] then None
      else Some (of_message k [], all_signers (of_message k ([] @ chosen))))"
    using packed unfolding packed_ok_def bt_get_map_entries by simp
  ultimately have "represents (foldl push_chosen ?init chosen) chosen"
    using push_chosen_all [of ?init "[]" chosen] packed by (simp add: represents_def packed_ok_def)
  moreover have "apart e r" if rs: "r \<in> set (residuals B packed messages)" "e \<in> set chosen" for e r
  proof -
    obtain k a where r: "r = (k, a)" by (cases r)
    obtain s where s: "residual B s (all_signers (of_message k chosen)) = Some a"
      using rs(1) packed_entry [OF packed, of k] by (auto simp: r in_residuals)
    have "fst e = k \<Longrightarrow> ag_signers (snd e) \<subseteq> all_signers (of_message k chosen)"
      using of_message_signers [OF rs(2)] by (auto simp: all_signers_def)
    then show ?thesis using residual_Some(1) [OF s] by (auto simp: apart_def r)
  qed
  ultimately have "represents (foldl push_residual (foldl push_chosen ?init chosen)
      (residuals B packed messages)) (chosen @ residuals B packed messages)"
    by (intro push_residuals_represents residuals_apart assms) auto
  then show ?thesis by (simp add: covers_def assms(2) Let_def)
qed

lemma covers_entries:
  assumes "pack_aggregates theirs = (packed, chosen)" "(k, a) \<in> set (chosen @ residuals B packed messages)"
    and "\<forall>((k, c), s)\<in>set messages. data_key (su_attestation s) = k"
  shows "k = data_key (ag_attestation a) \<and>
    (a \<in> set theirs \<or> (\<exists>c s covered. ((k, c), s) \<in> set messages \<and> residual B s covered = Some a))"
proof (cases "(k, a) \<in> set chosen")
  case True
  then show ?thesis using pack_aggregates_ok [OF assms(1)] by blast
next
  case False
  then obtain c s where s: "((k, c), s) \<in> set messages" "residual B s (entry_or {} packed k) = Some a"
    using assms(2) by (auto simp: in_residuals)
  obtain x where "ag_attestation a = su_attestation s\<lparr>signature := x\<rparr>" using residual_Some(2) [OF s(2)] by blast
  then have "k = data_key (ag_attestation a)" using assms(3) s(1) by force
  then show ?thesis using s by blast
qed

text \<open>Whoever sent an unaggregated attestation is in the cover of its message.\<close>

lemma residuals_cover_singles:
  assumes "\<forall>a b. sig_add B a b \<noteq> None" "packed_ok packed chosen"
    and "((k, c), s) \<in> set messages" "v \<in> set (bt_keys (su_signers s))"
  shows "v \<in> all_signers (of_message k (chosen @ residuals B packed messages))"
proof (cases "v \<in> entry_or {} packed k")
  case True
  then show ?thesis using packed_entry [OF assms(2), of k] by simp
next
  case False
  have total: "residual_sum B covered (acc, S) es \<noteq> None" for covered acc S es
    by (induction es arbitrary: acc S) (auto split: option.split simp: assms(1))
  obtain acc S where sum: "residual_sum B (entry_or {} packed k) (None, {}) (su_signers s) = Some (acc, S)"
    using total by (metis not_None_eq surj_pair)
  have "v \<in> S" using residual_sum_ok(1) [OF sum] False assms(4) by (simp add: bt_keys_def)
  then have "acc \<noteq> None" using residual_sum_ok(2) [OF sum] by auto
  then obtain a where a: "residual B s (entry_or {} packed k) = Some a"
    using sum by (cases "list_all (\<lambda>index. index \<notin> entry_or {} packed k) (bt_keys (su_signers s))")
      (auto simp: residual_def)
  have "v \<in> ag_signers a" using residual_Some(1) [OF a] False assms(4) by simp
  then show ?thesis using a assms(3) by (auto simp: all_signers_def set_of_message in_residuals)
qed

end
