(* ===== verification/CollectorStream.thy ===== *)
theory CollectorStream
  imports CollectorCover
begin

text \<open>
  The stream as a state machine: what \<open>new\<close>, \<open>ingest\<close>, \<open>close\<close> and \<open>forget\<close> reach, and the invariant
  of the states reached. A closed slot holds nothing and takes nothing; what an open slot holds was
  sent for the target, by validators of a committee of the slot, and is the sum of their signatures.
\<close>

section \<open>The committees\<close>

definition slot_validators :: "epoch_committees \<Rightarrow> u64 \<Rightarrow> u64 set" where
  "slot_validators cs slot = {v. \<exists>c vs. ec_committee cs slot c = Some vs \<and> v \<in> set vs}"

definition committees_ok :: "u64 \<Rightarrow> epoch_committees \<Rightarrow> bool" where
  "committees_ok spe cs \<longleftrightarrow>
     (\<forall>slot. slot_validators cs slot \<subseteq> set (ec_members cs ! unat (slot mod spe))) \<and>
     (\<forall>slot c c' vs vs'. ec_committee cs slot c = Some vs \<longrightarrow> ec_committee cs slot c' = Some vs' \<longrightarrow> c \<noteq> c' \<longrightarrow>
        set vs \<inter> set vs' = {}) \<and>
     (\<forall>s<32. ec_members cs ! s = map cm_index (bucket (cw_members (ec_witness cs)) s)) \<and>
     distinct (map cm_index (cw_members (ec_witness cs)))"

lemma assign_table:
  assumes "fold_res (assign_response spe) ([], []) committees = Inr (assigned, table)" "bt_get table k = Some vs"
  shows "\<exists>r\<in>set committees. k = (cr_slot r, cr_index r) \<and> vs = cr_validators r"
proof -
  have "\<forall>slot c vs. bt_get (snd (assigned, table)) (slot, c) = Some vs \<longrightarrow>
      (\<exists>r\<in>set committees. slot = cr_slot r \<and> c = cr_index r \<and> vs = cr_validators r)"
  proof (rule fold_res_prefix_invariant [OF assms(1), where I = "\<lambda>rs st. \<forall>slot c vs. bt_get (snd st) (slot, c) = Some vs \<longrightarrow>
      (\<exists>r\<in>set rs. slot = cr_slot r \<and> c = cr_index r \<and> vs = cr_validators r)"])
    fix seen :: "committee_response list" and r :: committee_response and s s'
    assume I: "\<forall>slot c vs. bt_get (snd s) (slot, c) = Some vs \<longrightarrow>
        (\<exists>r\<in>set seen. slot = cr_slot r \<and> c = cr_index r \<and> vs = cr_validators r)"
      and step: "assign_response spe s r = Inr s'"
    have "snd s' = bt_insert (cr_slot r, cr_index r) (cr_validators r) (snd s)"
      using step by (cases s) (auto simp: assign_response_def)
    then show "\<forall>slot c vs. bt_get (snd s') (slot, c) = Some vs \<longrightarrow>
        (\<exists>r\<in>set (seen @ [r]). slot = cr_slot r \<and> c = cr_index r \<and> vs = cr_validators r)"
      using I by (auto split: if_splits)
  qed simp
  then show ?thesis using assms(2) by (cases k) auto
qed

lemma distinct_concat_apart:
  "distinct (concat (map f xs)) \<Longrightarrow> x \<in> set xs \<Longrightarrow> y \<in> set xs \<Longrightarrow> x \<noteq> y \<Longrightarrow> set (f x) \<inter> set (f y) = {}"
  by (induction xs) auto

lemma host_committees_ok:
  assumes "host_committee_build Z blst committees validators t spe e epoch total_balance = Inr cs"
  shows "committees_ok spe cs"
proof -
  let ?ms = "cw_members (ec_witness cs)"
  obtain assigned st where asg: "fold_res (assign_response spe) ([], []) committees = Inr (assigned, ec_table cs)"
    and g: "gathered blst epoch validators assigned st" "gt_witnesses st = ?ms" "gt_members st = ec_members cs"
    and spe: "unat spe \<le> 32" and inc: "strictly_increasing (map cm_index ?ms)"
    by (rule host_committee_Inr [OF assms])
  note a = assign_responses [OF asg]
  have table: "\<exists>r\<in>set committees. slot = cr_slot r \<and> c = cr_index r \<and> vs = cr_validators r"
    if "ec_committee cs slot c = Some vs" for slot c vs
    using assign_table [OF asg, of "(slot, c)" vs] that by (auto simp: ec_committee_def)
  have members: "\<forall>s<32. ec_members cs ! s = map cm_index (bucket ?ms s)"
    using g by (simp add: gathered_def)
  have "v \<in> set (ec_members cs ! unat (slot mod spe))" if v: "v \<in> slot_validators cs slot" for v slot
  proof -
    obtain c vs where "ec_committee cs slot c = Some vs" "v \<in> set vs" using v by (auto simp: slot_validators_def)
    then obtain r where r: "r \<in> set committees" "slot = cr_slot r" "v \<in> set (cr_validators r)" using table by blast
    have "(v, slot mod spe) \<in> set assigned"
      using a(4) [OF r(1,3)] a(1) by (simp add: r(2) assigned_below_def flip: bt_get_iff)
    moreover have "map (\<lambda>m. (cm_index m, cm_slot_in_epoch m)) ?ms = assigned" using g by (simp add: gathered_def)
    ultimately obtain m where m: "m \<in> set ?ms" "cm_index m = v" "cm_slot_in_epoch m = slot mod spe" by auto
    then have "unat (slot mod spe) < 32" using g by (auto simp: gathered_def)
    then show ?thesis using members m by (force simp: bucket_def)
  qed
  moreover have "set vs \<inter> set vs' = {}"
    if vs: "ec_committee cs slot c = Some vs" "ec_committee cs slot c' = Some vs'" "c \<noteq> c'" for slot c c' vs vs'
  proof -
    obtain r r' where "r \<in> set committees" "c = cr_index r" "vs = cr_validators r"
      "r' \<in> set committees" "c' = cr_index r'" "vs' = cr_validators r'"
      using table [OF vs(1)] table [OF vs(2)] by blast
    then show ?thesis using distinct_concat_apart [OF a(5), of r r'] vs(3) by auto
  qed
  ultimately show ?thesis
    unfolding committees_ok_def using members strictly_increasing_distinct [OF inc] by blast
qed

section \<open>The invariant\<close>

definition for_target :: "'s slot_stream \<Rightarrow> u64 \<Rightarrow> attestation_witness \<Rightarrow> bool" where
  "for_target st slot a \<longleftrightarrow> data_slot a = slot \<and> attesting_validators a = [] \<and>
     data_target_epoch a = st_target_epoch st \<and> data_target_root a = st_target_root st \<and>
     data_source_epoch a = st_source_epoch st \<and> data_source_root a = st_source_root st"

definition aggregate_ok ::
  "('s \<Rightarrow> 'g::comm_monoid_add) \<Rightarrow> (attestation_key \<Rightarrow> u64 \<Rightarrow> 'g) \<Rightarrow> 's slot_stream \<Rightarrow> u64 \<Rightarrow> 's aggregate \<Rightarrow> bool" where
  "aggregate_ok val sg st slot a \<longleftrightarrow> for_target st slot (ag_attestation a) \<and> aggregate_valid val sg a \<and>
     ag_signers a \<noteq> {} \<and> ag_signers a \<subseteq> slot_validators (st_committees st) slot"

definition bucket_ok ::
  "('s \<Rightarrow> 'g::comm_monoid_add) \<Rightarrow> (attestation_key \<Rightarrow> u64 \<Rightarrow> 'g) \<Rightarrow> 's slot_stream \<Rightarrow> u64 \<Rightarrow> attestation_key \<times> u64 \<Rightarrow>
     's summed \<Rightarrow> bool" where
  "bucket_ok val sg st slot k s \<longleftrightarrow> for_target st slot (su_attestation s) \<and> summed_valid val sg s \<and>
     data_key (su_attestation s) = fst k \<and> su_signers s \<noteq> [] \<and>
     (\<exists>vs. ec_committee (st_committees st) slot (snd k) = Some vs \<and> set (bt_keys (su_signers s)) \<subseteq> set vs)"

definition stream_ok ::
  "('s \<Rightarrow> 'g::comm_monoid_add) \<Rightarrow> (attestation_key \<Rightarrow> u64 \<Rightarrow> 'g) \<Rightarrow> 's slot_stream \<Rightarrow> bool" where
  "stream_ok val sg st \<longleftrightarrow> bt_ok (pending st) \<and> bt_ok (summed st) \<and>
     (\<forall>slot as. bt_get (pending st) slot = Some as \<longrightarrow>
        slot \<notin> closed st \<and> as \<noteq> [] \<and> (\<forall>a\<in>set as. aggregate_ok val sg st slot a)) \<and>
     (\<forall>slot ms. bt_get (summed st) slot = Some ms \<longrightarrow>
        slot \<notin> closed st \<and> ms \<noteq> [] \<and> bt_ok ms \<and> (\<forall>(k, s)\<in>set ms. bucket_ok val sg st slot k s))"

text \<open>The signature an attestation carries is valid for those it resolves to.\<close>

definition attestation_valid ::
  "'s blst_sig \<Rightarrow> ('s \<Rightarrow> 'g::comm_monoid_add) \<Rightarrow> (attestation_key \<Rightarrow> u64 \<Rightarrow> 'g) \<Rightarrow> epoch_committees \<Rightarrow>
     attestation_response \<Rightarrow> bool" where
  "attestation_valid B val sg cs att \<longleftrightarrow>
     (\<forall>x signers. sig_from_bytes B (ar_signature att) = Some x \<longrightarrow>
        resolve_attesting_validators att cs = Inr signers \<longrightarrow> signers \<noteq> [] \<longrightarrow>
        val x = (\<Sum>v\<in>set signers. sg (data_key (attestation_of att)) v))"

lemma slot_validatorsI: "ec_committee cs slot c = Some vs \<Longrightarrow> set vs \<subseteq> slot_validators cs slot"
  by (auto simp: slot_validators_def)

lemma set_bits_set: "set (bits_set bits offset members) \<subseteq> set members"
  by (auto simp: bits_set_def dest: set_zip_rightD)

lemma electra_step_members:
  assumes "set (snd st) \<subseteq> slot_validators cs (ar_data_slot att)"
  shows "set (snd (electra_step att cs st i)) \<subseteq> slot_validators cs (ar_data_slot att)"
proof (cases "ec_committee cs (ar_data_slot att) (of_nat i)")
  case (Some vs)
  have "set (bits_set (aggregation_bits att) (fst st) vs) \<subseteq> slot_validators cs (ar_data_slot att)"
    using slot_validatorsI [OF Some] set_bits_set by blast
  then show ?thesis using assms by (simp add: electra_step_def Some)
qed (use assms in \<open>simp add: electra_step_def\<close>)

lemma electra_steps_members:
  "set (snd (foldl (electra_step att cs) (0, []) is)) \<subseteq> slot_validators cs (ar_data_slot att)"
  by (induction "is" rule: rev_induct) (simp_all add: electra_step_members)

lemma resolve_members:
  assumes "resolve_attesting_validators att cs = Inr signers"
  shows "set signers \<subseteq> slot_validators cs (ar_data_slot att)"
proof (cases "ar_single_attester att")
  case None
  show ?thesis
  proof (cases "committee_bits att = []")
    case True
    then obtain vs where "ec_committee cs (ar_data_slot att) (ar_data_index att) = Some vs"
      "signers = bits_set (aggregation_bits att) 0 vs"
      using assms None by (auto simp: resolve_attesting_validators_def)
    then show ?thesis using set_bits_set slot_validatorsI by fastforce
  next
    case False
    then show ?thesis
      using assms None electra_steps_members by (auto simp: resolve_attesting_validators_def)
  qed
next
  case (Some single)
  then show ?thesis
    using assms
    by (auto simp: resolve_attesting_validators_def dest!: slot_validatorsI split: if_splits)
qed

lemma resolve_single:
  assumes "resolve_attesting_validators att cs = Inr signers" "ar_single_attester att = Some single" "signers \<noteq> []"
  obtains vs where "ec_committee cs (ar_data_slot att) (sa_committee_index single) = Some vs"
    "sa_attester_index single \<in> set vs" "signers = [sa_attester_index single]"
  using assms by (auto simp: resolve_attesting_validators_def split: if_splits)


lemma stream_okD:
  assumes "stream_ok val sg st"
  shows "bt_ok (entry_or [] (summed st) slot)"
    and "(k, s) \<in> set (entry_or [] (summed st) slot) \<Longrightarrow> bucket_ok val sg st slot k s"
    and "a \<in> set (entry_or [] (pending st) slot) \<Longrightarrow> aggregate_ok val sg st slot a"
proof -
  have "bt_ok (entry_or [] (summed st) slot) \<and>
      (\<forall>e\<in>set (entry_or [] (summed st) slot). bucket_ok val sg st slot (fst e) (snd e))"
  proof (cases "bt_get (summed st) slot")
    case (Some ms)
    then show ?thesis using assms by (force simp: stream_ok_def entry_or_def)
  qed (simp add: entry_or_def)
  then show "bt_ok (entry_or [] (summed st) slot)"
    and "(k, s) \<in> set (entry_or [] (summed st) slot) \<Longrightarrow> bucket_ok val sg st slot k s" by force+
  show "a \<in> set (entry_or [] (pending st) slot) \<Longrightarrow> aggregate_ok val sg st slot a"
    using assms by (cases "bt_get (pending st) slot") (auto simp: stream_ok_def entry_or_def)
qed

lemma ingest_one_fields:
  assumes "ingest_one B st att = Inr st'"
  shows "closed st' = closed st" "st_committees st' = st_committees st"
    "st_slots_per_epoch st' = st_slots_per_epoch st"
    and "for_target st' = for_target st"
  using assms
  by (auto simp: ingest_one_def sum_single_def for_target_def [abs_def] Let_def
      split: if_splits option.splits)

lemma for_target_attestation:
  "ar_data_target_epoch att = st_target_epoch st \<Longrightarrow> ar_data_target_root att = st_target_root st \<Longrightarrow>
   ar_data_source_epoch att = st_source_epoch st \<Longrightarrow> ar_data_source_root att = st_source_root st \<Longrightarrow>
   for_target st (ar_data_slot att) (attestation_of att)"
  by (simp add: for_target_def attestation_of_def)

lemma sum_bucket_ok:
  assumes "sum_bucket B a v x entry = Inr s"
    and "for_target st slot a" "ec_committee (st_committees st) slot c = Some vs" "v \<in> set vs"
    and "\<And>s. entry = Some s \<Longrightarrow> bucket_ok val sg st slot (data_key a, c) s"
    and "sig_law B val" "val x = sg (data_key a) v"
  shows "bucket_ok val sg st slot (data_key a, c) s"
proof (cases entry)
  case None
  then show ?thesis
    using assms by (auto simp: sum_bucket_def bucket_ok_def summed_valid_def bt_ok_def bt_keys_def)
next
  case (Some running)
  note old = assms(5) [OF Some]
  show ?thesis
  proof (cases "bt_get (su_signers running) v = None")
    case False
    then show ?thesis using assms(1) old by (simp add: sum_bucket_def Some)
  next
    case True
    then obtain y where y: "sig_add B (su_signature running) x = Some y"
      and s: "s = running\<lparr>su_signature := y, su_signers := bt_insert v x (su_signers running)\<rparr>"
      using assms(1) by (auto simp: sum_bucket_def Some)
    have ok: "bt_ok (su_signers running)" and key: "data_key (su_attestation running) = data_key a"
      using old by (simp_all add: bucket_ok_def summed_valid_def)
    have keys: "set (bt_keys (bt_insert v x m)) = insert v (set (bt_keys m))" for m :: "(u64, 'a) btree"
      by (simp add: bt_keys_def set_bt_insert_keys)
    have fresh: "v \<notin> set (bt_keys (su_signers running))" using True by (simp add: bt_get_None bt_keys_def)
    have "val y = (\<Sum>i\<in>insert v (set (bt_keys (su_signers running))). sg (data_key a) i)"
      using old sig_lawD [OF assms(6) y] assms(7) fresh
      by (simp add: bucket_ok_def summed_valid_def add.commute)
    moreover have "su_signers s \<noteq> []" using keys [of "su_signers running"] by (auto simp: s bt_keys_def)
    ultimately show ?thesis
      using old assms(3,4,7) set_bt_insert [OF ok]
      unfolding bucket_ok_def summed_valid_def by (auto simp: s keys ok key)
  qed
qed

lemma sum_single_ok:
  assumes "stream_ok val sg st" "sum_single B st a c v = Inr st'"
    and "for_target st (data_slot a) a" "data_slot a \<notin> closed st"
    and "ec_committee (st_committees st) (data_slot a) c = Some vs" "v \<in> set vs"
    and "sig_law B val" "\<And>x. sig_from_bytes B (signature a) = Some x \<Longrightarrow> val x = sg (data_key a) v"
  shows "stream_ok val sg st'"
proof -
  let ?slot = "data_slot a" and ?k = "(data_key a, c)"
  let ?messages = "entry_or [] (summed st) ?slot"
  obtain x bucket where x: "sig_from_bytes B (signature a) = Some x"
    and bucket: "sum_bucket B a v x (bt_get ?messages ?k) = Inr bucket"
    and st': "st' = st\<lparr>summed := bt_insert ?slot (bt_insert ?k bucket ?messages) (summed st)\<rparr>"
    using assms(2) by (auto simp: sum_single_def Let_def)
  have ms: "bt_ok ?messages" "\<forall>(k, s)\<in>set ?messages. bucket_ok val sg st ?slot k s"
    using stream_okD [OF assms(1)] by blast+
  have "bucket_ok val sg st ?slot ?k bucket"
  proof (rule sum_bucket_ok [OF bucket assms(3,5,6) _ assms(7)])
    fix s assume "bt_get ?messages ?k = Some s"
    then have "(?k, s) \<in> set ?messages" by (simp only: bt_get_iff [OF ms(1)])
    then show "bucket_ok val sg st ?slot ?k s" by (rule stream_okD(2) [OF assms(1)])
  qed (rule assms(8) [OF x])
  then have "\<forall>(k, s)\<in>set (bt_insert ?k bucket ?messages). bucket_ok val sg st ?slot k s"
    using ms(2) unfolding set_bt_insert [OF ms(1)] by blast
  moreover have "bt_insert ?k bucket ?messages \<noteq> []" by simp
  moreover have "bucket_ok val sg st' = bucket_ok val sg st" "aggregate_ok val sg st' = aggregate_ok val sg st"
    by (simp_all add: st' bucket_ok_def [abs_def] aggregate_ok_def [abs_def] for_target_def)
  ultimately show ?thesis
    using assms(1,4) ms(1) unfolding stream_ok_def by (simp add: st')
qed

lemma ingest_one_ok:
  assumes "stream_ok val sg st" "ingest_one B st att = Inr st'"
    and "sig_law B val" "attestation_valid B val sg (st_committees st) att"
  shows "stream_ok val sg st'"
proof (cases "ar_data_target_epoch att \<noteq> st_target_epoch st \<or> ar_data_target_root att \<noteq> st_target_root st \<or>
    ar_data_source_epoch att \<noteq> st_source_epoch st \<or> ar_data_source_root att \<noteq> st_source_root st \<or>
    ar_data_slot att \<in> closed st")
  case True
  then show ?thesis using assms(1,2) by (auto simp: ingest_one_def split: if_splits)
next
  case False
  then have target: "for_target st (ar_data_slot att) (attestation_of att)"
    and opn: "ar_data_slot att \<notin> closed st" by (auto intro: for_target_attestation)
  obtain signers where signers: "resolve_attesting_validators att (st_committees st) = Inr signers"
    using False assms(2) by (auto simp: ingest_one_def)
  have slot: "data_slot (attestation_of att) = ar_data_slot att"
    and sig: "signature (attestation_of att) = ar_signature att" by (simp_all add: attestation_of_def)
  show ?thesis
  proof (cases "signers = []")
    case True
    then show ?thesis using False assms(1,2) signers by (simp add: ingest_one_def)
  next
    case some: False
    show ?thesis
    proof (cases "ar_single_attester att")
      case (Some single)
      obtain vs where vs: "ec_committee (st_committees st) (ar_data_slot att) (sa_committee_index single) = Some vs"
        "sa_attester_index single \<in> set vs" "signers = [sa_attester_index single]"
        by (rule resolve_single [OF signers Some some])
      have "sum_single B st (attestation_of att) (sa_committee_index single) (sa_attester_index single) = Inr st'"
        using False some Some signers assms(2) by (simp add: ingest_one_def)
      then show ?thesis
        using assms(4) signers vs target opn
        by (intro sum_single_ok [OF assms(1)]) (auto simp: slot sig attestation_valid_def assms(3))
    next
      case None
      show ?thesis
      proof (cases "sig_from_bytes B (ar_signature att)")
        case None
        then show ?thesis
          using False some signers assms(1,2) \<open>ar_single_attester att = None\<close> by (simp add: ingest_one_def)
      next
        case (Some x)
        let ?a = "\<lparr>ag_attestation = attestation_of att, ag_signature = x, ag_signers = set signers\<rparr>"
        have st': "st' = st\<lparr>pending := bt_insert (ar_data_slot att)
            (entry_or [] (pending st) (ar_data_slot att) @ [?a]) (pending st)\<rparr>"
          using False some signers assms(2) None Some by (simp add: ingest_one_def)
        have "aggregate_ok val sg st (ar_data_slot att) ?a"
          using target some assms(4) signers Some resolve_members [OF signers]
          by (auto simp: aggregate_ok_def aggregate_valid_def attestation_valid_def)
        moreover have "\<forall>a\<in>set (entry_or [] (pending st) (ar_data_slot att)). aggregate_ok val sg st (ar_data_slot att) a"
          using stream_okD(3) [OF assms(1)] by blast
        moreover have "bucket_ok val sg st' = bucket_ok val sg st" "aggregate_ok val sg st' = aggregate_ok val sg st"
          by (simp_all add: st' bucket_ok_def [abs_def] aggregate_ok_def [abs_def] for_target_def)
        ultimately show ?thesis
          using assms(1) opn unfolding stream_ok_def by (simp add: st')
      qed
    qed
  qed
qed

lemma ingest_ok:
  assumes "stream_ok val sg st" "sig_law B val" "\<forall>att\<in>set atts. attestation_valid B val sg (st_committees st) att"
  shows "stream_ok val sg (snd (ingest B st atts))"
    and "closed (snd (ingest B st atts)) = closed st" "st_committees (snd (ingest B st atts)) = st_committees st"
    and "st_slots_per_epoch (snd (ingest B st atts)) = st_slots_per_epoch st"
    and "for_target (snd (ingest B st atts)) = for_target st"
proof -
  have "stream_ok val sg (snd (ingest B st atts)) \<and> closed (snd (ingest B st atts)) = closed st \<and>
    st_committees (snd (ingest B st atts)) = st_committees st \<and>
    st_slots_per_epoch (snd (ingest B st atts)) = st_slots_per_epoch st \<and>
    for_target (snd (ingest B st atts)) = for_target st"
    using assms(1,3)
  proof (induction atts arbitrary: st)
    case (Cons att atts)
    show ?case
    proof (cases "ingest_one B st att")
      case (Inr st')
      note f = ingest_one_fields [OF Inr]
      from Cons.IH [of st'] ingest_one_ok [OF Cons.prems(1) Inr assms(2)] Cons.prems(2) show ?thesis
        by (simp add: Inr f)
    qed (use Cons.prems in simp)
  qed simp
  then show "stream_ok val sg (snd (ingest B st atts))"
    and "closed (snd (ingest B st atts)) = closed st" "st_committees (snd (ingest B st atts)) = st_committees st"
    and "st_slots_per_epoch (snd (ingest B st atts)) = st_slots_per_epoch st"
    and "for_target (snd (ingest B st atts)) = for_target st" by blast+
qed

lemma forget_ok: "stream_ok val sg st \<Longrightarrow> stream_ok val sg (forget st slot)"
  by (simp add: stream_ok_def forget_def bucket_ok_def aggregate_ok_def for_target_def)

lemma stream_new_ok: "stream_ok val sg (stream_new spe cs e r s)"
  by (simp add: stream_ok_def stream_new_def)

end
