(* ===== verification/CollectorPeek.thy ===== *)
theory CollectorPeek
  imports CollectorStream
begin

text \<open>
  The complement a slot is closed into (\<open>peek_Some\<close>): the cover of one message as the primary, the
  covers of the others named, the rest of the members absent. From it, who is named: where no
  validator has sent two messages of the slot, exactly the members outside the primary cover, once.
\<close>

lemma those_Some: "those xs = Some ys \<longleftrightarrow> xs = map Some ys"
  by (induction xs arbitrary: ys) (auto split: option.splits simp: Cons_eq_map_conv)

lemma opened_Some:
  "opened cs i = Some v \<longleftrightarrow> (\<exists>m. find (\<lambda>m. cm_index m = i) (cw_members (ec_witness cs)) = Some m \<and>
     v = \<lparr>ov_index = cm_index m, ov_pubkey = cm_pubkey m, ov_balance = cm_balance m\<rparr>)"
  by (auto simp: opened_def)

lemma opened_index: "opened cs i = Some v \<Longrightarrow> ov_index v = i"
  by (auto simp: opened_Some find_Some_iff)

lemma opened_all:
  "map (opened cs) is = map Some vs \<Longrightarrow> map ov_index vs = is"
  by (induction "is" arbitrary: vs) (auto simp: Cons_eq_map_conv opened_index)

lemma map_Some_source:
  assumes "map Some ys = map f xs" "y \<in> set ys"
  obtains x where "x \<in> set xs" "f x = Some y"
proof -
  have "Some y \<in> set (map f xs)" unfolding assms(1) [symmetric] using assms(2) by simp
  then show thesis using that by fastforce
qed

lemma opened_named:
  assumes "map Some vs = map (opened cs) is" "v \<in> set vs"
  shows "opened cs (ov_index v) = Some v"
proof -
  obtain i where "opened cs i = Some v" using map_Some_source [OF assms] by blast
  then show ?thesis using opened_index by fastforce
qed

lemma named_aggregate_Some:
  assumes "named_aggregate cs a = Some w"
  shows "map ov_index (attesting_validators w) = sorted_list_of_set (ag_signers a)"
    and "w = (ag_attestation a)\<lparr>attesting_validators := attesting_validators w\<rparr>"
    and "map Some (attesting_validators w) = map (opened cs) (sorted_list_of_set (ag_signers a))"
proof -
  obtain vs where "map (opened cs) (sorted_list_of_set (ag_signers a)) = map Some vs"
    "w = (ag_attestation a)\<lparr>attesting_validators := vs\<rparr>"
    using assms by (auto simp: named_aggregate_def those_Some)
  then show "map ov_index (attesting_validators w) = sorted_list_of_set (ag_signers a)"
    "w = (ag_attestation a)\<lparr>attesting_validators := attesting_validators w\<rparr>"
    "map Some (attesting_validators w) = map (opened cs) (sorted_list_of_set (ag_signers a))"
    by (simp_all add: opened_all)
qed

lemma max_steps_Some:
  assumes "foldl max_step best m = Some e"
  shows "e \<in> set_option best \<union> set m"
    and "\<forall>b\<in>set_option best \<union> set m. card (snd (snd b)) \<le> card (snd (snd e))"
proof -
  have "e \<in> set_option best \<union> set m \<and> (\<forall>b\<in>set_option best \<union> set m. card (snd (snd b)) \<le> card (snd (snd e)))"
    using assms
  proof (induction m arbitrary: best)
    case (Cons x m)
    show ?case
    proof (cases best)
      case None
      then show ?thesis using Cons.IH [of "Some x"] Cons.prems by (simp add: max_step_def)
    next
      case (Some b)
      then show ?thesis
        using Cons.IH [of "max_step best x"] Cons.prems
        by (cases "card (snd (snd b)) \<le> card (snd (snd x))") (auto simp: max_step_def intro: order_trans)
    qed
  qed simp
  then show "e \<in> set_option best \<union> set m"
    and "\<forall>b\<in>set_option best \<union> set m. card (snd (snd b)) \<le> card (snd (snd e))" by blast+
qed

lemma represents_map:
  assumes "represents m es"
  shows "m = map (\<lambda>k. (k, of_message k es, all_signers (of_message k es))) (bt_keys m)"
    and "distinct (bt_keys m)" "k \<in> set (bt_keys m) \<longleftrightarrow> of_message k es \<noteq> []"
proof -
  have ok: "bt_ok m" using assms by (simp add: represents_def)
  show "distinct (bt_keys m)" using bt_ok_distinct [OF ok] by (simp add: bt_keys_def)
  have get: "bt_get m k = (if of_message k es = [] then None
      else Some (of_message k es, all_signers (of_message k es)))" for k
    using assms by (simp add: represents_def)
  then show "k \<in> set (bt_keys m) \<longleftrightarrow> of_message k es \<noteq> []"
    using bt_get_None [of m k] by (auto simp: bt_keys_def split: if_splits)
  have "e = (fst e, of_message (fst e) es, all_signers (of_message (fst e) es))" if "e \<in> set m" for e
    using that get [of "fst e"] bt_get_iff [OF ok, of "fst e" "snd e"] by (auto split: if_splits)
  then show "m = map (\<lambda>k. (k, of_message k es, all_signers (of_message k es))) (bt_keys m)"
    unfolding bt_keys_def map_map by (intro map_idI [symmetric]) simp
qed

definition heard :: "'s slot_stream \<Rightarrow> u64 \<Rightarrow> attestation_key \<Rightarrow> u64 \<Rightarrow> bool" where
  "heard st slot k v \<longleftrightarrow>
     (\<exists>a\<in>set (entry_or [] (pending st) slot). data_key (ag_attestation a) = k \<and> v \<in> ag_signers a) \<or>
     (\<exists>((k', c), s)\<in>set (entry_or [] (summed st) slot). k' = k \<and> v \<in> set (bt_keys (su_signers s)))"

definition no_equivocation :: "'s slot_stream \<Rightarrow> u64 \<Rightarrow> bool" where
  "no_equivocation st slot \<longleftrightarrow> (\<forall>k k' v. heard st slot k v \<longrightarrow> heard st slot k' v \<longrightarrow> k = k')"

text \<open>The covers that \<open>peek\<close> works on.\<close>

definition slot_covers :: "'s blst_sig \<Rightarrow> 's slot_stream \<Rightarrow> u64 \<Rightarrow> (attestation_key \<times> 's aggregate) list" where
  "slot_covers B st slot =
     (case pack_aggregates (entry_or [] (pending st) slot) of (packed, chosen) \<Rightarrow>
       chosen @ residuals B packed (entry_or [] (summed st) slot))"

lemma slot_covers_represents:
  assumes "stream_ok val sg st" "committees_ok spe (st_committees st)"
  shows "represents (covers B (entry_or [] (pending st) slot) (entry_or [] (summed st) slot)) (slot_covers B st slot)"
proof -
  let ?messages = "entry_or [] (summed st) slot"
  obtain packed chosen where pack: "pack_aggregates (entry_or [] (pending st) slot) = (packed, chosen)" by fastforce
  have "buckets_disjoint ?messages"
    unfolding buckets_disjoint_def
  proof (rule sorted_wrt_mono_rel)
    show "sorted_wrt (\<lambda>e e'. fst e < fst e') ?messages"
      using stream_okD(1) [OF assms(1), of slot] by (simp add: bt_ok_def sorted_wrt_map)
    fix e e' assume e: "e \<in> set ?messages" "e' \<in> set ?messages" "fst e < fst e'"
    obtain k c s where ek: "e = ((k, c), s)" by (metis prod.collapse)
    obtain k' c' s' where ek': "e' = ((k', c'), s')" by (metis prod.collapse)
    obtain vs where vs: "ec_committee (st_committees st) slot c = Some vs" "set (bt_keys (su_signers s)) \<subseteq> set vs"
      using stream_okD(2) [OF assms(1), of "(k, c)" s slot] e(1) by (auto simp: ek bucket_ok_def)
    obtain vs' where vs': "ec_committee (st_committees st) slot c' = Some vs'" "set (bt_keys (su_signers s')) \<subseteq> set vs'"
      using stream_okD(2) [OF assms(1), of "(k', c')" s' slot] e(2) by (auto simp: ek' bucket_ok_def)
    show "fst (fst e) = fst (fst e') \<longrightarrow> set (bt_keys (su_signers (snd e))) \<inter> set (bt_keys (su_signers (snd e'))) = {}"
    proof
      assume "fst (fst e) = fst (fst e')"
      then have "c \<noteq> c'" using e(3) by (auto simp: ek ek')
      then have "set vs \<inter> set vs' = {}" using assms(2) vs(1) vs'(1) unfolding committees_ok_def by blast
      then show "set (bt_keys (su_signers (snd e))) \<inter> set (bt_keys (su_signers (snd e'))) = {}"
        using vs(2) vs'(2) by (auto simp: ek ek')
    qed
  qed
  from covers_represents [OF this pack] show ?thesis by (simp add: slot_covers_def pack)
qed

lemma slot_covers_entry:
  assumes "stream_ok val sg st" "(k, a) \<in> set (slot_covers B st slot)"
  shows "k = data_key (ag_attestation a)" "for_target st slot (ag_attestation a)"
    and "ag_signers a \<subseteq> slot_validators (st_committees st) slot"
    and "sig_law B val \<Longrightarrow> aggregate_valid val sg a" "v \<in> ag_signers a \<Longrightarrow> heard st slot k v"
    and "ag_signers a \<noteq> {}"
proof -
  obtain packed chosen where pack: "pack_aggregates (entry_or [] (pending st) slot) = (packed, chosen)" by fastforce
  have keys: "\<forall>((k, c), s)\<in>set (entry_or [] (summed st) slot). data_key (su_attestation s) = k"
    using stream_okD(2) [OF assms(1)] unfolding bucket_ok_def by fastforce
  have e: "k = data_key (ag_attestation a) \<and>
    (a \<in> set (entry_or [] (pending st) slot) \<or>
     (\<exists>c s covered. ((k, c), s) \<in> set (entry_or [] (summed st) slot) \<and> residual B s covered = Some a))"
    using covers_entries [OF pack _ keys] assms(2) by (auto simp: slot_covers_def pack)
  then show "k = data_key (ag_attestation a)" ..
  have "for_target st slot (ag_attestation a) \<and> ag_signers a \<subseteq> slot_validators (st_committees st) slot \<and>
      (sig_law B val \<longrightarrow> aggregate_valid val sg a) \<and> (v \<in> ag_signers a \<longrightarrow> heard st slot k v) \<and> ag_signers a \<noteq> {}"
  proof (cases "a \<in> set (entry_or [] (pending st) slot)")
    case True
    then show ?thesis using stream_okD(3) [OF assms(1) True] e by (auto simp: aggregate_ok_def heard_def)
  next
    case False
    then obtain c s covered where s: "((k, c), s) \<in> set (entry_or [] (summed st) slot)"
      and r: "residual B s covered = Some a" using e by blast
    note b = stream_okD(2) [OF assms(1) s]
    obtain x where x: "ag_attestation a = su_attestation s\<lparr>signature := x\<rparr>" using residual_Some(2) [OF r] by blast
    obtain vs where "ec_committee (st_committees st) slot c = Some vs" "set (bt_keys (su_signers s)) \<subseteq> set vs"
      using b by (auto simp: bucket_ok_def)
    then have "set (bt_keys (su_signers s)) \<subseteq> slot_validators (st_committees st) slot" using slot_validatorsI by blast
    moreover have "v \<in> ag_signers a \<Longrightarrow> heard st slot k v"
      using s residual_Some(1) [OF r] unfolding heard_def by fastforce
    ultimately show ?thesis
      using b residual_Some(1,3,4) [OF r] by (auto simp: bucket_ok_def for_target_def x)
  qed
  then show "for_target st slot (ag_attestation a)" "ag_signers a \<subseteq> slot_validators (st_committees st) slot"
    "sig_law B val \<Longrightarrow> aggregate_valid val sg a" "v \<in> ag_signers a \<Longrightarrow> heard st slot k v"
    "ag_signers a \<noteq> {}" by blast+
qed

text \<open>The primary message, the others in order, and the parts of the complement.\<close>

lemma peek_Some:
  assumes "stream_ok val sg st" "committees_ok (st_slots_per_epoch st) (st_committees st)" "peek B st slot = Some c"
  defines "es \<equiv> slot_covers B st slot" and "cs \<equiv> st_committees st" and "s \<equiv> slot mod st_slots_per_epoch st"
  defines "signers \<equiv> (\<lambda>k. all_signers (of_message k es))"
  obtains k ks agg w secs absent where
    "of_message k es \<noteq> []" "k \<notin> set ks" "distinct ks" "\<forall>k'. of_message k' es \<noteq> [] \<longrightarrow> k' = k \<or> k' \<in> set ks"
    "\<forall>k'. card (signers k') \<le> card (signers k)"
    "ec_aggregate cs s = Some agg" "merge_aggregates B (of_message k es) = Some w"
    "map Some secs = map (named_aggregate cs) (concat (map (\<lambda>k'. of_message k' es) ks))"
    "map Some absent = map (opened cs)
       (filter (\<lambda>i. i \<notin> signers k \<and> i \<notin> \<Union> (signers ` set ks)) (ec_members cs ! unat s))"
    "c = \<lparr>sc_slot = slot,
       sc_witness = \<lparr>slot_in_epoch = s, committee = agg, primary = [w], secondary = secs, absentees = absent\<rparr>,
       sc_marginal_balance = ca_balance agg - sum_list (map ov_balance absent),
       sc_named_indices = sorted_list_of_set (\<Union> (signers ` set ks) \<union> set (map ov_index absent))\<rparr>"
proof -
  let ?m = "covers B (entry_or [] (pending st) slot) (entry_or [] (summed st) slot)"
  note rep = slot_covers_represents [OF assms(1,2), of B slot, folded es_def]
  note m = represents_map [OF rep]
  from assms(3) obtain agg k aggs ss secs absent w where
    agg: "ec_aggregate cs s = Some agg" and best: "foldl max_step None ?m = Some (k, aggs, ss)"
    and secs: "those (map (named_aggregate cs) (concat (map fst (bt_values (bt_remove k ?m))))) = Some secs"
    and absent: "those (map (opened cs) (filter (\<lambda>i. i \<notin> ss \<and> i \<notin> \<Union> (set (map snd (bt_values (bt_remove k ?m)))))
        (ec_members cs ! unat s))) = Some absent"
    and w: "merge_aggregates B aggs = Some w"
    and c: "c = \<lparr>sc_slot = slot,
       sc_witness = \<lparr>slot_in_epoch = s, committee = agg, primary = [w], secondary = secs, absentees = absent\<rparr>,
       sc_marginal_balance = ca_balance agg - sum_list (map ov_balance absent),
       sc_named_indices = sorted_list_of_set (\<Union> (set (map snd (bt_values (bt_remove k ?m)))) \<union> set (map ov_index absent))\<rparr>"
    unfolding peek_def Let_def cs_def s_def by (auto split: option.splits if_splits prod.splits)
  have "(k, aggs, ss) \<in> set ?m" using max_steps_Some(1) [OF best] by simp
  then have k: "of_message k es \<noteq> []" and aggs: "aggs = of_message k es" "ss = signers k"
    using m(3) by (subst (asm) m(1); auto simp: signers_def)+
  define ks where "ks = filter (\<lambda>k'. k' \<noteq> k) (bt_keys ?m)"
  have "bt_remove k ?m = map (\<lambda>k. (k, of_message k es, signers k)) ks"
    by (subst m(1)) (simp add: bt_remove_def filter_map comp_def ks_def signers_def)
  then have vals: "bt_values (bt_remove k ?m) = map (\<lambda>k. (of_message k es, signers k)) ks"
    by (simp add: bt_values_def)
  have "card (signers k') \<le> card (signers k)" for k'
  proof (cases "of_message k' es = []")
    case False
    then have "(k', of_message k' es, signers k') \<in> set ?m" using m(3) by (subst m(1)) (simp add: signers_def)
    then show ?thesis using max_steps_Some(2) [OF best] by (force simp: aggs)
  qed (simp add: signers_def)
  then show thesis
    using that [of k ks agg w secs absent] k agg w secs absent c m(2,3) aggs
    by (simp add: vals those_Some ks_def comp_def image_image)
qed


section \<open>Who is named\<close>

lemma sorted_list_of_set_distinct_concat:
  assumes "distinct ks" "\<And>k. k \<in> set ks \<Longrightarrow> disjoint_signers (f k)"
    and "\<And>k k'. k \<in> set ks \<Longrightarrow> k' \<in> set ks \<Longrightarrow> k \<noteq> k' \<Longrightarrow> all_signers (f k) \<inter> all_signers (f k') = {}"
  shows "disjoint_signers (concat (map f ks))"
  using assms
proof (induction ks)
  case (Cons k ks)
  have ih: "disjoint_signers (concat (map f ks))" using Cons by simp
  have "all_signers (f k) \<inter> all_signers (f k') = {}" if "k' \<in> set ks" for k'
    using Cons.prems(1,3) that by auto
  then have "\<forall>a\<in>set (f k). \<forall>b\<in>set (concat (map f ks)). ag_signers a \<inter> ag_signers b = {}"
    by (fastforce simp: all_signers_def)
  then show ?case using ih Cons.prems(2) [of k] by (simp add: disjoint_signers_def sorted_wrt_append)
qed simp

lemma distinct_signer_lists:
  "disjoint_signers aggs \<Longrightarrow> distinct (concat (map (\<lambda>a. sorted_list_of_set (ag_signers a)) aggs))"
proof (induction aggs)
  case (Cons a aggs)
  then have "ag_signers a \<inter> all_signers aggs = {}" by (auto simp: disjoint_signers_def all_signers_def)
  then show ?case using Cons by (auto simp: disjoint_signers_def all_signers_def)
qed simp

lemma named_lists:
  assumes "map Some secs = map (named_aggregate cs) os"
  shows "map ov_index (concat (map attesting_validators secs)) = concat (map (\<lambda>a. sorted_list_of_set (ag_signers a)) os)"
  using assms
proof (induction os arbitrary: secs)
  case (Cons a os)
  then obtain w ws where "secs = w # ws" "named_aggregate cs a = Some w" "map Some ws = map (named_aggregate cs) os"
    by (metis (no_types, lifting) list.simps(9) map_eq_Cons_conv)
  then show ?case using Cons.IH by (simp add: named_aggregate_Some(1))
qed simp

definition complement_named :: "slot_complement \<Rightarrow> u64 list" where
  "complement_named c = map ov_index (named (sc_witness c))"

lemma peek_named:
  assumes "stream_ok val sg st" "committees_ok (st_slots_per_epoch st) (st_committees st)" "peek B st slot = Some c"
    and "unat (slot mod st_slots_per_epoch st) < 32" "no_equivocation st slot" "sig_law B val"
  defines "members \<equiv> ec_members (st_committees st) ! unat (slot mod st_slots_per_epoch st)"
  obtains P a x where
    "P \<subseteq> set members" "P \<noteq> {}" "distinct (complement_named c)" "set (complement_named c) = set members - P"
    "sc_named_indices c = sorted_list_of_set (set members - P)"
    "primary (sc_witness c) = [a]" "attesting_validators a = []" "for_target st slot a"
    "signature a = sig_to_bytes B x" "val x = (\<Sum>v\<in>P. sg (data_key a) v)"
    "\<forall>v\<in>P. heard st slot (data_key a) v"
    "\<forall>v\<in>set (named (sc_witness c)). opened (st_committees st) (ov_index v) = Some v"
    "ec_aggregate (st_committees st) (slot mod st_slots_per_epoch st) = Some (committee (sc_witness c))"
    "\<forall>a\<in>set (secondary (sc_witness c)). \<exists>b vs. for_target st slot b \<and> a = b\<lparr>attesting_validators := vs\<rparr>"
    "sc_marginal_balance c =
       ca_balance (committee (sc_witness c)) - sum_list (map ov_balance (absentees (sc_witness c)))"
proof -
  let ?es = "slot_covers B st slot" and ?s = "slot mod st_slots_per_epoch st"
  let ?signers = "\<lambda>k. all_signers (of_message k ?es)"
  note rep = slot_covers_represents [OF assms(1,2), of B slot]
  note entry = slot_covers_entry [OF assms(1)]
  obtain k ks agg w secs absent where k: "of_message k ?es \<noteq> []" and ks: "k \<notin> set ks" "distinct ks"
    and "\<forall>k'. of_message k' ?es \<noteq> [] \<longrightarrow> k' = k \<or> k' \<in> set ks" "\<forall>k'. card (?signers k') \<le> card (?signers k)"
    and agg: "ec_aggregate (st_committees st) ?s = Some agg"
    and w: "merge_aggregates B (of_message k ?es) = Some w"
    and secs: "map Some secs = map (named_aggregate (st_committees st)) (concat (map (\<lambda>k'. of_message k' ?es) ks))"
    and absent: "map Some absent = map (opened (st_committees st))
       (filter (\<lambda>i. i \<notin> ?signers k \<and> i \<notin> \<Union> (?signers ` set ks)) (ec_members (st_committees st) ! unat ?s))"
    and c: "c = \<lparr>sc_slot = slot,
       sc_witness = \<lparr>slot_in_epoch = ?s, committee = agg, primary = [w], secondary = secs, absentees = absent\<rparr>,
       sc_marginal_balance = ca_balance agg - sum_list (map ov_balance absent),
       sc_named_indices = sorted_list_of_set (\<Union> (?signers ` set ks) \<union> set (map ov_index absent))\<rparr>"
    by (rule peek_Some [OF assms(1-3)])
  have disj: "disjoint_signers (of_message k' ?es)" for k' using rep unfolding represents_def by blast
  have member: "?signers k' \<subseteq> set members" for k'
    using entry(3) assms(2) unfolding all_signers_def set_of_message members_def committees_ok_def by blast
  have hear: "heard st slot k' v" if "v \<in> ?signers k'" for k' v
    using that entry(5) unfolding all_signers_def set_of_message by blast
  have apart: "?signers k1 \<inter> ?signers k2 = {}" if "k1 \<noteq> k2" for k1 k2
    using hear assms(5) that unfolding no_equivocation_def by blast
  have idx: "map ov_index absent = filter (\<lambda>i. i \<notin> ?signers k \<and> i \<notin> \<Union> (?signers ` set ks)) members"
    using opened_all [OF absent [symmetric]] by (simp only: members_def)
  have named: "complement_named c = concat (map (\<lambda>a. sorted_list_of_set (ag_signers a))
      (concat (map (\<lambda>k'. of_message k' ?es) ks))) @ map ov_index absent"
    using named_lists [OF secs] by (simp add: complement_named_def c named_def)
  have others: "set (concat (map (\<lambda>a. sorted_list_of_set (ag_signers a)) (concat (map (\<lambda>k'. of_message k' ?es) ks)))) =
      \<Union> (?signers ` set ks)"
    by (auto simp: all_signers_def)
  have distinct_members: "distinct members"
    using assms(2,4) unfolding members_def committees_ok_def bucket_def
    by (simp add: distinct_map inj_on_def)
  have "disjoint_signers (concat (map (\<lambda>k'. of_message k' ?es) ks))"
    by (rule sorted_list_of_set_distinct_concat) (simp_all add: ks disj apart)
  then have distinct: "distinct (complement_named c)"
    unfolding named distinct_append others idx using distinct_signer_lists distinct_members by auto
  have set: "set (complement_named c) = set members - ?signers k"
  proof -
    have "\<Union> (?signers ` set ks) \<subseteq> set members" using member by blast
    moreover have "?signers k \<inter> ?signers k' = {}" if "k' \<in> set ks" for k'
      by (rule apart) (use that ks(1) in blast)
    then have "?signers k \<inter> \<Union> (?signers ` set ks) = {}" by blast
    ultimately show ?thesis unfolding named set_append others idx set_filter by blast
  qed
  have "sc_named_indices c = sorted_list_of_set (set (complement_named c))"
    unfolding named set_append others by (simp add: c)
  obtain x where x: "w = (ag_attestation (hd (of_message k ?es)))\<lparr>signature := sig_to_bytes B x\<rparr>"
    and val: "\<forall>a\<in>set (of_message k ?es). aggregate_valid val sg a \<and> data_key (ag_attestation a) = k \<Longrightarrow>
      val x = (\<Sum>v\<in>?signers k. sg k v)"
    using merge_aggregates_Some [OF w, of val sg k] assms(6) disj by metis
  have hd: "(k, hd (of_message k ?es)) \<in> set ?es" using k hd_in_set set_of_message by fastforce
  have key: "data_key w = k" using entry(1) [OF hd] by (simp add: x)
  have nonempty: "?signers k \<noteq> {}" using entry(6) [OF hd] hd unfolding all_signers_def set_of_message by blast
  have "opened (st_committees st) (ov_index v) = Some v" if v: "v \<in> set (named (sc_witness c))" for v
  proof (cases "v \<in> set absent")
    case True
    then show ?thesis by (rule opened_named [OF absent])
  next
    case False
    then obtain s where s: "s \<in> set secs" "v \<in> set (attesting_validators s)" using v by (auto simp: c named_def)
    obtain a where "a \<in> set (concat (map (\<lambda>k'. of_message k' ?es) ks))"
      and a: "named_aggregate (st_committees st) a = Some s" by (rule map_Some_source [OF secs s(1)])
    show ?thesis by (rule opened_named [OF named_aggregate_Some(3) [OF a] s(2)])
  qed
  note opened = this
  have "\<exists>b vs. for_target st slot b \<and> s = b\<lparr>attesting_validators := vs\<rparr>" if s: "s \<in> set secs" for s
  proof -
    obtain a where "a \<in> set (concat (map (\<lambda>k'. of_message k' ?es) ks))"
      and a: "named_aggregate (st_committees st) a = Some s" by (rule map_Some_source [OF secs s])
    then obtain k' where "(k', a) \<in> set ?es" by (auto simp: set_of_message)
    then show ?thesis using entry(2) named_aggregate_Some(2) [OF a] by blast
  qed
  note links = this
  show thesis
  proof (rule that [of "?signers k" w x])
    show "for_target st slot w" "attesting_validators w = []"
      using entry(2) [OF hd] by (auto simp: x for_target_def)
    show "val x = (\<Sum>v\<in>?signers k. sg (data_key w) v)"
      using val entry(1,4) assms(6) by (simp add: key set_of_message)
  qed (use member nonempty distinct set \<open>sc_named_indices c = _\<close> hear key agg opened links in \<open>simp_all add: c x\<close>)
qed

end
