(* ===== verification/CollectorRun.thy ===== *)
theory CollectorRun
  imports CollectorPeek
begin

text \<open>
  The runs of a stream: any order of feeding, closing and forgetting. A slot is closed into a
  complement at most once, and what a complement's derived key adds up to.
\<close>

inductive stream_run ::
  "'s blst_sig \<Rightarrow> 's slot_stream \<Rightarrow> attestation_response list \<Rightarrow> slot_complement list \<Rightarrow> 's slot_stream \<Rightarrow> bool"
  for B :: "'s blst_sig" and st0 :: "'s slot_stream" where
  run_new: "stream_run B st0 [] [] st0"
| run_ingest: "stream_run B st0 fed cs st \<Longrightarrow> stream_run B st0 (fed @ atts) cs (snd (ingest B st atts))"
| run_close: "stream_run B st0 fed cs st \<Longrightarrow> stream_close B st slot = (Some c, st') \<Longrightarrow>
    stream_run B st0 fed (cs @ [c]) st'"
| run_forget: "stream_run B st0 fed cs st \<Longrightarrow> stream_run B st0 fed cs (forget st slot)"

lemma forget_fields [simp]:
  "closed (forget st slot) = insert slot (closed st)" "st_committees (forget st slot) = st_committees st"
  "st_slots_per_epoch (forget st slot) = st_slots_per_epoch st"
  by (simp_all add: forget_def)

lemma forget_target [simp]: "for_target (forget st slot) = for_target st"
  by (simp add: for_target_def [abs_def] forget_def)

lemma stream_close_Some:
  "stream_close B st slot = (Some c, st') \<longleftrightarrow> peek B st slot = Some c \<and> st' = forget st slot"
  by (auto simp: stream_close_def split: option.splits)

lemma peek_closed:
  assumes "stream_ok val sg st" "slot \<in> closed st"
  shows "peek B st slot = None"
proof -
  have "bt_get (pending st) slot = None" "bt_get (summed st) slot = None"
    using assms by (metis option.exhaust stream_ok_def)+
  then show ?thesis by (auto simp: peek_def Let_def entry_or_def split: option.split)
qed

lemma peek_slot:
  assumes "stream_ok val sg st" "committees_ok (st_slots_per_epoch st) (st_committees st)" "peek B st slot = Some c"
  shows "slot_validators (st_committees st) slot \<noteq> {}" "sc_slot c = slot"
    and "slot_in_epoch (sc_witness c) = slot mod st_slots_per_epoch st"
proof -
  let ?es = "slot_covers B st slot"
  obtain k ks agg w secs absent where k: "of_message k ?es \<noteq> []"
    and "k \<notin> set ks" "distinct ks"
    and "\<forall>k'. of_message k' ?es \<noteq> [] \<longrightarrow> k' = k \<or> k' \<in> set ks"
    and "\<forall>k'. card (all_signers (of_message k' ?es)) \<le> card (all_signers (of_message k ?es))"
    and "ec_aggregate (st_committees st) (slot mod st_slots_per_epoch st) = Some agg"
    and "merge_aggregates B (of_message k ?es) = Some w"
    and "map Some secs = map (named_aggregate (st_committees st)) (concat (map (\<lambda>k'. of_message k' ?es) ks))"
    and "map Some absent = map (opened (st_committees st))
       (filter (\<lambda>i. i \<notin> all_signers (of_message k ?es) \<and> i \<notin> \<Union> ((\<lambda>k. all_signers (of_message k ?es)) ` set ks))
         (ec_members (st_committees st) ! unat (slot mod st_slots_per_epoch st)))"
    and c: "c = \<lparr>sc_slot = slot,
       sc_witness = \<lparr>slot_in_epoch = slot mod st_slots_per_epoch st, committee = agg, primary = [w],
         secondary = secs, absentees = absent\<rparr>,
       sc_marginal_balance = ca_balance agg - sum_list (map ov_balance absent),
       sc_named_indices = sorted_list_of_set
         (\<Union> ((\<lambda>k. all_signers (of_message k ?es)) ` set ks) \<union> set (map ov_index absent))\<rparr>"
    by (rule peek_Some [OF assms])
  then show "sc_slot c = slot" "slot_in_epoch (sc_witness c) = slot mod st_slots_per_epoch st" by simp_all
  have "(k, hd (of_message k ?es)) \<in> set ?es" using k hd_in_set set_of_message by fastforce
  then show "slot_validators (st_committees st) slot \<noteq> {}"
    using slot_covers_entry(3,6) [OF assms(1)] by blast
qed

lemma stream_run_ok:
  assumes "stream_run B st0 fed cs st" "st0 = stream_new spe ec e r s" "committees_ok spe ec"
    and "sig_law B val" "\<forall>att\<in>set fed. attestation_valid B val sg ec att"
  shows "stream_ok val sg st" "st_committees st = ec" "st_slots_per_epoch st = spe"
    and "sc_slot ` set cs \<subseteq> closed st" "distinct (map sc_slot cs)"
    and "c \<in> set cs \<Longrightarrow> slot_validators ec (sc_slot c) \<noteq> {} \<and> slot_in_epoch (sc_witness c) = sc_slot c mod spe"
    and "for_target st = for_target st0"
proof -
  have "stream_ok val sg st \<and> st_committees st = ec \<and> st_slots_per_epoch st = spe \<and>
    sc_slot ` set cs \<subseteq> closed st \<and> distinct (map sc_slot cs) \<and>
    (\<forall>c\<in>set cs. slot_validators ec (sc_slot c) \<noteq> {} \<and> slot_in_epoch (sc_witness c) = sc_slot c mod spe) \<and>
    for_target st = for_target st0"
    using assms(1,5)
  proof induction
    case run_new
    show ?case using stream_new_ok [of val sg] by (simp add: assms(2)) (simp add: stream_new_def)
  next
    case (run_ingest fed cs st atts)
    then show ?case using ingest_ok [OF _ assms(4), of sg st atts] by auto
  next
    case (run_close fed cs st slot c st')
    then have ok: "stream_ok val sg st" and ec: "st_committees st = ec" "st_slots_per_epoch st = spe" by auto
    have c: "peek B st slot = Some c" and st': "st' = forget st slot"
      using run_close.hyps(2) by (simp_all add: stream_close_Some)
    have "committees_ok (st_slots_per_epoch st) (st_committees st)" using assms(3) ec by simp
    note p = peek_slot [OF ok this c]
    have "slot \<notin> closed st" using peek_closed [OF ok, of slot B] c by auto
    then show ?case using run_close p ec forget_ok [OF ok, of slot] by (auto simp: st')
  next
    case (run_forget fed cs st slot)
    then show ?case using forget_ok by auto
  qed
  then show "stream_ok val sg st" "st_committees st = ec" "st_slots_per_epoch st = spe"
    "sc_slot ` set cs \<subseteq> closed st" "distinct (map sc_slot cs)"
    "c \<in> set cs \<Longrightarrow> slot_validators ec (sc_slot c) \<noteq> {} \<and> slot_in_epoch (sc_witness c) = sc_slot c mod spe"
    "for_target st = for_target st0" by blast+
qed

text \<open>The key a validator has in the committee proof's members.\<close>

definition member_key :: "epoch_committees \<Rightarrow> u64 \<Rightarrow> g1_point" where
  "member_key cs i = (case opened cs i of Some v \<Rightarrow> ov_pubkey v | None \<Rightarrow> [])"

lemma opened_member:
  assumes "distinct (map cm_index (cw_members (ec_witness cs)))" "m \<in> set (cw_members (ec_witness cs))"
  shows "opened cs (cm_index m) =
    Some \<lparr>ov_index = cm_index m, ov_pubkey = cm_pubkey m, ov_balance = cm_balance m\<rparr>"
proof -
  have "find (\<lambda>x. cm_index x = cm_index m) ms = Some m" if "distinct (map cm_index ms)" "m \<in> set ms" for ms
    using that by (induction ms) (auto simp: image_iff)
  then show ?thesis using assms by (simp add: opened_def)
qed

lemma slot_key:
  assumes "committees_ok spe cs" "s < 32" "curve_law Z C pt"
    and "members_aggregate Z (bucket (cw_members (ec_witness cs)) s) = Some agg"
    and "\<forall>m\<in>set (cw_members (ec_witness cs)). cm_pubkey m \<in> C"
  shows "ca_pubkey agg \<in> C" "pt (ca_pubkey agg) = (\<Sum>i\<in>set (ec_members cs ! s). pt (member_key cs i))"
proof -
  let ?b = "bucket (cw_members (ec_witness cs)) s"
  have sub: "set ?b \<subseteq> set (cw_members (ec_witness cs))" by (auto simp: bucket_def)
  have dist: "distinct (map cm_index (cw_members (ec_witness cs)))" using assms(1) by (simp add: committees_ok_def)
  have ag: "aggregate_points Z (map cm_pubkey ?b) = Some (ca_pubkey agg)"
    using assms(4) by (auto simp: members_aggregate_def aggregate_points_def split: option.splits)
  have "set (map cm_pubkey ?b) \<subseteq> C" using assms(5) sub by auto
  note a = aggregate_points_group [OF assms(3) this ag]
  then show "ca_pubkey agg \<in> C" by simp
  have members: "ec_members cs ! s = map cm_index ?b" using assms(1,2) by (simp add: committees_ok_def)
  have "distinct (map cm_index ?b)" using dist by (simp add: bucket_def distinct_map inj_on_def)
  then have "(\<Sum>i\<in>set (map cm_index ?b). pt (member_key cs i)) =
      sum_list (map (\<lambda>i. pt (member_key cs i)) (map cm_index ?b))" by (rule sum.distinct_set_conv_list)
  also have "\<dots> = sum_list (map (\<lambda>m. pt (cm_pubkey m)) ?b)"
    using opened_member [OF dist] sub
    by (intro arg_cong [where f = sum_list]) (auto simp: member_key_def)
  finally show "pt (ca_pubkey agg) = (\<Sum>i\<in>set (ec_members cs ! s). pt (member_key cs i))"
    using a by (simp add: members comp_def)
qed

lemma derived_key:
  assumes "curve_law Z C pt" "key_minus Z (Some p) vs = Some (Some key)" "p \<in> C" "ov_pubkey ` set vs \<subseteq> C"
  shows "pt key = pt p - sum_list (map (\<lambda>v. pt (ov_pubkey v)) vs)"
proof -
  have "set (map (\<lambda>v. neg_bls12_381 Z (ov_pubkey v)) vs) \<subseteq> C"
    using curve_law_neg [OF assms(1)] assms(4) by auto
  then have "pt key = pt p + sum_list (map pt (map (\<lambda>v. neg_bls12_381 Z (ov_pubkey v)) vs))"
    using point_sum_adds_group [OF assms(1) _ _ assms(2) [unfolded key_minus_def]] assms(3) by simp
  also have "map pt (map (\<lambda>v. neg_bls12_381 Z (ov_pubkey v)) vs) = map (\<lambda>v. - pt (ov_pubkey v)) vs"
    using curve_law_neg [OF assms(1)] assms(4) by auto
  also have "sum_list (map (\<lambda>v. - pt (ov_pubkey v)) vs) = - sum_list (map (\<lambda>v. pt (ov_pubkey v)) vs)"
    by (induction vs) simp_all
  finally show ?thesis by simp
qed

text \<open>The key the guest derives from a complement is the sum of the keys its cover was signed with.\<close>

lemma complement_derived_key:
  assumes "committees_ok spe cs" "s < 32" "curve_law Z C pt"
    and "members_aggregate Z (bucket (cw_members (ec_witness cs)) s) = Some (committee w)"
    and "\<forall>m\<in>set (cw_members (ec_witness cs)). cm_pubkey m \<in> C"
    and "distinct (map ov_index (named w))" "set (map ov_index (named w)) = set (ec_members cs ! s) - P"
    and "P \<subseteq> set (ec_members cs ! s)" "\<forall>v\<in>set (named w). opened cs (ov_index v) = Some v"
    and "key_minus Z (Some (ca_pubkey (committee w))) (named w) = Some (Some key)"
  shows "pt key = (\<Sum>i\<in>P. pt (member_key cs i))"
proof -
  note slot = slot_key [OF assms(1-5)]
  have keys: "\<forall>v\<in>set (named w). ov_pubkey v = member_key cs (ov_index v)"
    using assms(9) by (auto simp: member_key_def)
  have "\<exists>m\<in>set (cw_members (ec_witness cs)). ov_pubkey v = cm_pubkey m" if "v \<in> set (named w)" for v
    using assms(9) that by (auto simp: opened_Some find_Some_iff) (metis nth_mem opened_validator.select_convs(2))
  then have "ov_pubkey ` set (named w) \<subseteq> C" using assms(5) by fastforce
  note key = derived_key [OF assms(3,10) slot(1) this]
  have "sum_list (map (\<lambda>v. pt (ov_pubkey v)) (named w)) =
      sum_list (map (\<lambda>i. pt (member_key cs i)) (map ov_index (named w)))"
    using keys by (auto intro: arg_cong [where f = sum_list])
  also have "\<dots> = (\<Sum>i\<in>set (ec_members cs ! s) - P. pt (member_key cs i))"
    using sum.distinct_set_conv_list [OF assms(6), of "\<lambda>i. pt (member_key cs i)"] assms(7) by simp
  finally show ?thesis
    using key slot(2) sum.subset_diff [OF assms(8), of "\<lambda>i. pt (member_key cs i)"] by simp
qed


text \<open>A slot with a committee is a slot of one of the node's responses.\<close>

lemma slot_of_response:
  assumes "host_committee_build Z blst committees validators t spe e epoch total_balance = Inr cs"
    and "slot_validators cs slot \<noteq> {}"
  shows "\<exists>r\<in>set committees. cr_slot r = slot"
proof -
  obtain assigned st where asg: "fold_res (assign_response spe) ([], []) committees = Inr (assigned, ec_table cs)"
    by (rule host_committee_Inr [OF assms(1)])
  obtain c vs where "bt_get (ec_table cs) (slot, c) = Some vs"
    using assms(2) by (auto simp: slot_validators_def ec_committee_def)
  from assign_table [OF asg this] show ?thesis by auto
qed

section \<open>A validator that votes twice\<close>

lemma single_covered:
  assumes "\<forall>a b. sig_add B a b \<noteq> None" "((k, c), s) \<in> set (entry_or [] (summed st) slot)"
    and "v \<in> set (bt_keys (su_signers s))"
  shows "v \<in> all_signers (of_message k (slot_covers B st slot))"
proof -
  obtain packed chosen where pack: "pack_aggregates (entry_or [] (pending st) slot) = (packed, chosen)" by fastforce
  have "packed_ok packed chosen" using pack_aggregates_ok [OF pack] by blast
  from residuals_cover_singles [OF assms(1) this assms(2,3)] show ?thesis by (simp add: slot_covers_def pack)
qed

lemma peek_equivocator:
  assumes "stream_ok val sg st" "committees_ok (st_slots_per_epoch st) (st_committees st)" "peek B st slot = Some c"
    and "sig_law B val" "\<forall>a b. sig_add B a b \<noteq> None" "k1 \<noteq> k2"
    and "((k1, c1), s1) \<in> set (entry_or [] (summed st) slot)" "v \<in> set (bt_keys (su_signers s1))"
    and "((k2, c2), s2) \<in> set (entry_or [] (summed st) slot)" "v \<in> set (bt_keys (su_signers s2))"
  shows "v \<in> set (complement_named c) \<and>
    (\<not> distinct (complement_named c) \<or>
     (\<exists>P a x. primary (sc_witness c) = [a] \<and> signature a = sig_to_bytes B x \<and>
        val x = (\<Sum>i\<in>P. sg (data_key a) i) \<and> v \<in> P))"
proof -
  let ?es = "slot_covers B st slot" and ?s = "slot mod st_slots_per_epoch st"
  let ?signers = "\<lambda>k. all_signers (of_message k ?es)"
  note rep = slot_covers_represents [OF assms(1,2), of B slot]
  note entry = slot_covers_entry [OF assms(1)]
  note v1 = single_covered [OF assms(5,7,8)] and v2 = single_covered [OF assms(5,9,10)]
  obtain k ks agg w secs absent where k: "of_message k ?es \<noteq> []" and ks: "k \<notin> set ks" "distinct ks"
    and all: "\<forall>k'. of_message k' ?es \<noteq> [] \<longrightarrow> k' = k \<or> k' \<in> set ks"
    and "\<forall>k'. card (?signers k') \<le> card (?signers k)"
    and agg: "ec_aggregate (st_committees st) ?s = Some agg"
    and w: "merge_aggregates B (of_message k ?es) = Some w"
    and secs: "map Some secs = map (named_aggregate (st_committees st)) (concat (map (\<lambda>k'. of_message k' ?es) ks))"
    and absent: "map Some absent = map (opened (st_committees st))
       (filter (\<lambda>i. i \<notin> ?signers k \<and> i \<notin> \<Union> (?signers ` set ks)) (ec_members (st_committees st) ! unat ?s))"
    and c: "c = \<lparr>sc_slot = slot,
       sc_witness = \<lparr>slot_in_epoch = ?s, committee = agg, primary = [w], secondary = secs, absentees = absent\<rparr>,
       sc_marginal_balance = ca_balance agg - sum_list (map ov_balance absent),
       sc_named_indices = sorted_list_of_set (\<Union> (?signers ` set ks) \<union> set (map ov_index absent))\<rparr>"
    by (rule peek_Some [OF assms(1-3)])
  let ?os = "concat (map (\<lambda>k'. of_message k' ?es) ks)" and ?f = "\<lambda>a. sorted_list_of_set (ag_signers a)"
  have named: "complement_named c = concat (map ?f ?os) @ map ov_index absent"
    using named_lists [OF secs] by (simp add: complement_named_def c named_def)
  have in_named: "v \<in> set (complement_named c)" if "k' \<in> set ks" "v \<in> ?signers k'" for k'
    using that unfolding named by (auto simp: all_signers_def)
  have keys: "k1 = k \<or> k1 \<in> set ks" "k2 = k \<or> k2 \<in> set ks"
    using all v1 v2 by (metis all_signers_simps(1) empty_iff)+
  have disj: "disjoint_signers (of_message k ?es)" using rep unfolding represents_def by blast
  obtain x where x: "w = (ag_attestation (hd (of_message k ?es)))\<lparr>signature := sig_to_bytes B x\<rparr>"
    and val: "\<forall>a\<in>set (of_message k ?es). aggregate_valid val sg a \<and> data_key (ag_attestation a) = k \<Longrightarrow>
      val x = (\<Sum>v\<in>?signers k. sg k v)"
    using merge_aggregates_Some [OF w, of val sg k] assms(4) disj by metis
  have "(k, hd (of_message k ?es)) \<in> set ?es" using k hd_in_set set_of_message by fastforce
  then have key: "data_key w = k" using entry(1) by (simp add: x)
  have covered: "primary (sc_witness c) = [w] \<and> signature w = sig_to_bytes B x \<and>
      val x = (\<Sum>i\<in>?signers k. sg (data_key w) i)"
    using val entry(1,4) assms(4) unfolding set_of_message by (simp add: key c) (simp add: x)
  show ?thesis
  proof (cases "k1 = k \<or> k2 = k")
    case True
    then have "v \<in> ?signers k" using v1 v2 by blast
    moreover have "v \<in> set (complement_named c)" using True assms(6) keys in_named v1 v2 by metis
    ultimately show ?thesis using covered by blast
  next
    case False
    then have in_ks: "k1 \<in> set ks" "k2 \<in> set ks" using keys by blast+
    obtain a1 a2 where a: "a1 \<in> set (of_message k1 ?es)" "v \<in> ag_signers a1"
      "a2 \<in> set (of_message k2 ?es)" "v \<in> ag_signers a2"
      using v1 v2 unfolding all_signers_def by blast
    have "a1 \<noteq> a2" using entry(1) a(1,3) assms(6) unfolding set_of_message by blast
    moreover have "a1 \<in> set ?os" "a2 \<in> set ?os" using a(1,3) in_ks by auto
    ultimately have "\<not> distinct (concat (map ?f ?os))"
      using distinct_concat_apart [of ?f ?os a1 a2] a(2,4) by auto
    then have "\<not> distinct (complement_named c)" unfolding named distinct_append by blast
    then show ?thesis using in_named [OF in_ks(1) v1] by blast
  qed
qed


end
