(* ===== verification/HostSlot.thy ===== *)
theory HostSlot
  imports CollectorRun Supermajority
begin

text \<open>
  \<open>crates/witness-gen/src/witness_slot_proof.rs\<close>: the slot proof's witnesses, one per complement. The
  lemmas: up to the pairing the slot guest accepts what the host assembles, and counts the host's
  marginal balance.
\<close>

record slot_witness_data =
  swd_slot :: u64
  swd_witness :: slot_proof_witness
  swd_marginal_balance :: u64

datatype host_slot_error = CollectFailed collect_error | CommitteeOpening host_committee_error

definition slot_witness ::
  "zisk \<Rightarrow> acc_tree \<Rightarrow> epoch_committees \<Rightarrow> u64 \<Rightarrow> bytes32 \<Rightarrow> bytes32 \<Rightarrow> u64 \<Rightarrow> bytes32 \<Rightarrow> slot_complement \<Rightarrow>
     host_slot_error + slot_witness_data" where
  "slot_witness Z t cs target_epoch target_root source_root total_balance domain c =
     (let acc_root = acc_tree_root Z t in
     bind_res (map_err CommitteeOpening (ec_multi_proof cs [slot_in_epoch (sc_witness c)])) (\<lambda>aux.
     Inr \<lparr>swd_slot = sc_slot c,
          swd_witness = \<lparr>sw_accumulator_commitment = commitment Z acc_root total_balance,
            sw_committee_root = ec_root cs,
            sw_source_epoch = (if target_epoch = 0 then 0 else target_epoch - 1),
            sw_source_root = source_root, sw_target_epoch = target_epoch, sw_target_root = target_root,
            sw_signing_domain = domain, sw_acc_root = acc_root, sw_total_active_balance = total_balance,
            sw_slots = [sc_witness c], sw_acc_multi_proof = build_multi_proof t (sc_named_indices c),
            sw_committee_multi_proof = aux\<rparr>,
          swd_marginal_balance = sc_marginal_balance c\<rparr>))"

definition build_per_slot ::
  "zisk \<Rightarrow> 's blst_sig \<Rightarrow> (u64 \<Rightarrow> attestation_response list option) \<Rightarrow> u64 \<Rightarrow> acc_tree \<Rightarrow> epoch_committees \<Rightarrow>
     u64 \<Rightarrow> bytes32 \<Rightarrow> bytes32 \<Rightarrow> u64 \<Rightarrow> bytes32 \<Rightarrow> host_slot_error + slot_witness_data list" where
  "build_per_slot Z B api spe t cs target_epoch target_root source_root total_balance domain =
     bind_res (map_err CollectFailed
       (collect_per_slot_for_checkpoint B api spe cs target_epoch target_root source_root)) (\<lambda>per_slot.
     fold_res (\<lambda>result c.
         bind_res (slot_witness Z t cs target_epoch target_root source_root total_balance domain c) (\<lambda>w.
         Inr (result @ [w]))) [] per_slot)"

section \<open>The guest's fold over a complement\<close>

definition for_link :: "vote_link \<Rightarrow> attestation_witness \<Rightarrow> bool" where
  "for_link L a \<longleftrightarrow> data_source_epoch a = vl_source_epoch L \<and> data_source_root a = vl_source_root L \<and>
     data_target_epoch a = vl_target_epoch L \<and> data_target_root a = vl_target_root L"

lemma push_message_ok: "for_link L (hd aggs) \<Longrightarrow> \<exists>m. push_message Z L aggs key = Inr m"
  by (simp add: push_message_def for_link_def Let_def)

lemma move_signers_complete:
  "key_minus Z pk vs = Some pk' \<Longrightarrow> point_sum_adds Z keys (map ov_pubkey vs) = Some keys' \<Longrightarrow>
     fold_res (move_signer Z) (pk, keys, ops) vs = Inr (pk', keys', ops @ map (opened_leaf Z) vs)"
proof (induction vs arbitrary: pk keys ops)
  case (Cons v vs)
  then obtain p k where "point_sum_sub Z pk (ov_pubkey v) = Some p" "key_minus Z p vs = Some pk'"
    "point_sum_add Z keys (ov_pubkey v) = Some k" "point_sum_adds Z k (map ov_pubkey vs) = Some keys'"
    by (auto split: option.splits)
  then show ?case using Cons.IH by (simp add: move_signer_def)
qed simp

lemma secondary_steps_complete:
  assumes "key_minus Z pk (concat (map attesting_validators as)) = Some pk'"
    and "\<forall>a\<in>set as. for_link L a \<and> aggregate_points Z (map ov_pubkey (attesting_validators a)) \<noteq> None"
  shows "\<exists>ms. fold_res (secondary_step Z L) (pk, ops, msgs) as =
    Inr (pk', ops @ map (opened_leaf Z) (concat (map attesting_validators as)), msgs @ ms)"
  using assms
proof (induction as arbitrary: pk ops msgs)
  case (Cons a as)
  then obtain p where p: "key_minus Z pk (attesting_validators a) = Some p"
    "key_minus Z p (concat (map attesting_validators as)) = Some pk'"
    by (auto simp: key_minus_append split: option.splits)
  obtain key where "point_sum_adds Z None (map ov_pubkey (attesting_validators a)) = Some (Some key)"
    using Cons.prems(2) by (auto simp: aggregate_points_def split: option.splits)
  note moved = move_signers_complete [OF p(1) this, of ops]
  obtain m where m: "push_message Z L [a] key = Inr m" using push_message_ok [of L "[a]" Z key] Cons.prems(2) by auto
  have "secondary_step Z L (pk, ops, msgs) a =
      Inr (p, ops @ map (opened_leaf Z) (attesting_validators a), msgs @ [m])"
    using moved m by (simp add: secondary_step_def)
  then show ?case
    using Cons.IH [OF p(2), of "ops @ map (opened_leaf Z) (attesting_validators a)" "msgs @ [m]"] Cons.prems(2)
    by auto
qed simp

lemma absentee_steps_complete:
  assumes "key_minus Z pk vs = Some pk'" "sum_list (map (\<lambda>v. unat (ov_balance v)) vs) \<le> unat support"
  shows "fold_res (absentee_step Z) (pk, ops, support) vs =
    Inr (pk', ops @ map (opened_leaf Z) vs, support - sum_list (map ov_balance vs))"
  using assms
proof (induction vs arbitrary: pk ops support)
  case (Cons v vs)
  then obtain p where p: "point_sum_sub Z pk (ov_pubkey v) = Some p" "key_minus Z p vs = Some pk'"
    by (auto split: option.splits)
  have le: "ov_balance v \<le> support" using Cons.prems(2) by (simp add: word_le_nat_alt)
  then have "unat (support - ov_balance v) = unat support - unat (ov_balance v)" by (rule unat_sub)
  then have "sum_list (map (\<lambda>v. unat (ov_balance v)) vs) \<le> unat (support - ov_balance v)" using Cons.prems(2) by simp
  from Cons.IH [OF p(2) this] p(1) le show ?case
    by (simp add: absentee_step_def checked_sub_def diff_diff_eq)
qed simp

text \<open>The keys of a complement can be summed: no sum meets a shared x-coordinate or the identity.\<close>

definition keys_summable :: "zisk \<Rightarrow> slot_complement_witness \<Rightarrow> bool" where
  "keys_summable Z w \<longleftrightarrow>
     (\<exists>key. key_minus Z (Some (ca_pubkey (committee w))) (named w) = Some (Some key)) \<and>
     (\<forall>a\<in>set (secondary w). aggregate_points Z (map ov_pubkey (attesting_validators a)) \<noteq> None)"

lemma slot_step_complete:
  assumes "keys_summable Z w" "\<forall>a\<in>set (secondary w). for_link L a" "for_link L p"
    and "primary w = [p]" "attesting_validators p = []" "unat (slot_in_epoch w) < 32"
    and "sum_list (map (\<lambda>v. unat (ov_balance v)) (absentees w)) \<le> unat (ca_balance (committee w))"
  obtains messages where "slot_step Z L slots_init w = Inr
    \<lparr>ss_balance = ca_balance (committee w) - sum_list (map ov_balance (absentees w)),
     ss_mask = push_bit (unat (slot_in_epoch w)) 1, ss_opened = map (opened_leaf Z) (named w),
     ss_committee_leaves = [(committee_leaf Z (committee w), slot_in_epoch w)],
     ss_messages = messages, ss_previous = Some (slot_in_epoch w)\<rparr>"
proof -
  obtain key where key: "key_minus Z (Some (ca_pubkey (committee w))) (named w) = Some (Some key)"
    using assms(1) by (auto simp: keys_summable_def)
  then obtain pk where pk: "key_minus Z (Some (ca_pubkey (committee w)))
      (concat (map attesting_validators (secondary w))) = Some pk" "key_minus Z pk (absentees w) = Some (Some key)"
    by (auto simp: named_def key_minus_append split: option.splits)
  obtain ms where sec: "fold_res (secondary_step Z L) (Some (ca_pubkey (committee w)), [], []) (secondary w) =
      Inr (pk, map (opened_leaf Z) (concat (map attesting_validators (secondary w))), ms)"
    using secondary_steps_complete [OF pk(1), of L "[]" "[]"] assms(1,2) by (auto simp: keys_summable_def)
  note abs = absentee_steps_complete [OF pk(2) assms(7)]
  obtain m where m: "push_message Z L [p] key = Inr m" using push_message_ok [of L "[p]" Z key] assms(3) by auto
  have "slot_in_epoch w < MAX_SLOTS" using assms(6) by (simp add: word_less_nat_alt)
  then show thesis
    using that [of "ms @ [m]"] sec abs m assms(4,5)
    by (simp add: slot_step_def slots_init_def Let_def named_def del: push_bit_of_1)
qed


lemma sort_key_snd_map: "sort_key snd (map (\<lambda>k. (f k, k)) ks) = map (\<lambda>k. (f k, k)) (sort ks)"
proof -
  have "insort_key snd (f k, k) (map (\<lambda>k. (f k, k)) ks) = map (\<lambda>k. (f k, k)) (insort k ks)" for k ks
    by (induction ks) auto
  then show ?thesis by (induction ks) simp_all
qed

lemma collect_levels_Nil [simp]: "collect_levels g ls [] = []"
  by (induction ls) simp_all

text \<open>The members of a proof the host built are leaves of its tree.\<close>

lemma member_leaves:
  assumes "host_committee_build Z blst committees validators t spe e epoch total_balance = Inr cs"
    and "tree_holds Z blst t validators epoch" "opened cs i = Some v"
  shows "unat i < 2 ^ dense_depth t" "stored_leaf t (unat i) = leaf Z (ov_pubkey v) (ov_balance v)"
proof -
  obtain assigned st where g: "gathered blst epoch validators assigned st" "gt_witnesses st = cw_members (ec_witness cs)"
    by (rule host_committee_Inr [OF assms(1)])
  obtain m where m: "m \<in> set (cw_members (ec_witness cs))" "cm_index m = i"
    "v = \<lparr>ov_index = cm_index m, ov_pubkey = cm_pubkey m, ov_balance = cm_balance m\<rparr>"
    using assms(3) by (auto simp: opened_Some find_Some_iff) (metis nth_mem)
  have "unat (cm_index m) < 2 ^ dense_depth t \<and> stored_leaf t (unat (cm_index m)) = leaf Z (cm_pubkey m) (cm_balance m)"
    using g assms(2) m(1) by (auto simp: gathered_def tree_holds_def registry_leaf_def host_registry_Some)
  then show "unat i < 2 ^ dense_depth t" "stored_leaf t (unat i) = leaf Z (ov_pubkey v) (ov_balance v)"
    using m by simp_all
qed

lemma opened_openings:
  assumes "\<forall>v\<in>set vs. opened cs (ov_index v) = Some v" "distinct (map ov_index vs)"
    and "\<And>i v. opened cs i = Some v \<Longrightarrow> stored_leaf t (unat i) = leaf Z (ov_pubkey v) (ov_balance v)"
  shows "sort_key snd (map (opened_leaf Z) vs) =
    map (\<lambda>k. (stored_leaf t (unat k), k)) (sorted_list_of_set (set (map ov_index vs)))"
proof -
  have "map (opened_leaf Z) vs = map (\<lambda>k. (stored_leaf t (unat k), k)) (map ov_index vs)"
    using assms(1,3) by (auto simp: opened_leaf_def)
  then show ?thesis
    using assms(2) by (simp only: sort_key_snd_map sorted_list_of_set_sort_remdups distinct_remdups_id)
qed

text \<open>
  Up to the pairing: the guest's \<open>attest\<close> on the witness of one complement is the Miller loop over
  the complement's messages, and where that succeeds it counts the marginal balance for the slot.
\<close>

lemma slot_witness_attested:
  assumes build: "host_committee_build Z blst committees validators t spe te epoch total_balance = Inr cs"
    and tree: "tree_holds Z blst t validators epoch"
    and swd: "slot_witness Z t cs te tr sr total_balance domain c = Inr swd"
    and sums: "keys_summable Z (sc_witness c)"
    and slot: "unat (slot_in_epoch (sc_witness c)) < 32"
    and agg: "ec_aggregate cs (slot_in_epoch (sc_witness c)) = Some (committee (sc_witness c))"
    and links: "primary (sc_witness c) = [p]" "attesting_validators p = []" "for_link (link_of (swd_witness swd)) p"
      "\<forall>a\<in>set (secondary (sc_witness c)). for_link (link_of (swd_witness swd)) a"
    and named: "\<forall>v\<in>set (named (sc_witness c)). opened cs (ov_index v) = Some v"
      "distinct (complement_named c)" "sc_named_indices c = sorted_list_of_set (set (complement_named c))"
    and marginal: "sc_marginal_balance c =
      ca_balance (committee (sc_witness c)) - sum_list (map ov_balance (absentees (sc_witness c)))"
    and fits: "sum_list (map (\<lambda>v. unat (ov_balance v)) (absentees (sc_witness c))) \<le>
      unat (ca_balance (committee (sc_witness c)))"
  shows "\<exists>messages. slot_messages Z (link_of (swd_witness swd)) (sc_witness c) messages \<and>
    attest Z (swd_witness swd) (tree_depth t) =
      bind_res (map_err SlotMiller (miller_accumulator Z messages)) (\<lambda>acc.
      bind_res (expect acc PairingInputsRejected) (\<lambda>f.
      Inr \<lparr>att_balance = swd_marginal_balance swd, att_mask = push_bit (unat (slot_in_epoch (sc_witness c))) 1,
           att_miller = f\<rparr>))"
proof -
  let ?w = "sc_witness c" and ?L = "link_of (swd_witness swd)"
  obtain aux where aux: "ec_multi_proof cs [slot_in_epoch ?w] = Inr aux"
    and W: "sw_slots (swd_witness swd) = [?w]" "sw_acc_root (swd_witness swd) = acc_tree_root Z t"
      "sw_total_active_balance (swd_witness swd) = total_balance"
      "sw_accumulator_commitment (swd_witness swd) = commitment Z (acc_tree_root Z t) total_balance"
      "sw_committee_root (swd_witness swd) = ec_root cs"
      "sw_acc_multi_proof (swd_witness swd) = build_multi_proof t (sc_named_indices c)"
      "sw_committee_multi_proof (swd_witness swd) = aux" "swd_marginal_balance swd = sc_marginal_balance c"
    using swd by (auto simp: slot_witness_def Let_def)
  obtain messages where step: "slot_step Z ?L slots_init ?w = Inr
    \<lparr>ss_balance = ca_balance (committee ?w) - sum_list (map ov_balance (absentees ?w)),
     ss_mask = push_bit (unat (slot_in_epoch ?w)) 1, ss_opened = map (opened_leaf Z) (named ?w),
     ss_committee_leaves = [(committee_leaf Z (committee ?w), slot_in_epoch ?w)],
     ss_messages = messages, ss_previous = Some (slot_in_epoch ?w)\<rparr>"
    by (rule slot_step_complete [OF sums links(4,3,1,2) slot fits])
  let ?ks = "sc_named_indices c"
  have opened: "sort_key snd (map (opened_leaf Z) (named ?w)) = map (\<lambda>k. (stored_leaf t (unat k), k)) ?ks"
    using opened_openings [OF named(1) _ member_leaves(2) [OF build tree]] named(2,3)
    by (simp add: complement_named_def)
  have inc: "strictly_increasing ?ks" by (simp add: named(3) strictly_increasing_sorted)
  have below: "\<forall>k\<in>set ?ks. unat k < 2 ^ dense_depth t"
    using named(1,3) member_leaves(1) [OF build tree] by (auto simp: complement_named_def)
  have acc: "batch_root (compress Z) (map (\<lambda>k. (stored_leaf t (unat k), k)) ?ks) (build_multi_proof t ?ks)
      (tree_depth t) = Inr (acc_tree_root Z t)" if "?ks \<noteq> []"
    using build_multi_proof_verifies [OF _ that below] tree sorted_indices [OF inc] by (simp add: tree_holds_def)
  have "build_multi_proof t [] = []" by (simp add: build_multi_proof_def)
  moreover have "batch_root (compress Z) [(committee_leaf Z (committee ?w), slot_in_epoch ?w)] aux TREE_DEPTH =
      Inr (ec_root cs)"
  proof -
    have "co_committee_root (ec_output cs) = ec_root cs"
      by (rule host_committee_Inr [OF build]) (simp add: ec_root_def TREE_DEPTH_def)
    then show ?thesis
      using ec_multi_proof_verifies [OF build, of "[slot_in_epoch ?w]"] slot aux agg
      by (simp add: aggregate_leaf_def TREE_DEPTH_def)
  qed
  moreover have "strictly_increasing (map snd (map (\<lambda>k. (stored_leaf t (unat k), k)) ?ks))"
    using inc by (simp add: comp_def)
  ultimately have "attest Z (swd_witness swd) (tree_depth t) =
      bind_res (map_err SlotMiller (miller_accumulator Z messages)) (\<lambda>acc.
      bind_res (expect acc PairingInputsRejected) (\<lambda>f.
      Inr \<lparr>att_balance = swd_marginal_balance swd, att_mask = push_bit (unat (slot_in_epoch ?w)) 1, att_miller = f\<rparr>))"
    using acc unfolding attest_def verify_attestations_def Let_def W
    by (cases "?ks = []") (simp_all add: step opened marginal del: push_bit_of_1)
  moreover have "slot_messages Z ?L ?w messages"
    using slot_step_Inr(9) [OF step] by (auto simp: slots_init_def)
  ultimately show ?thesis by blast
qed


lemma slot_balance_bound:
  assumes "committees_ok spe cs" "s < 32"
    and "members_aggregate Z (bucket (cw_members (ec_witness cs)) s) = Some agg"
    and "bucket_balance (cw_members (ec_witness cs)) s < 2 ^ 64"
    and "\<forall>v\<in>set vs. opened cs (ov_index v) = Some v" "distinct (map ov_index vs)"
    and "set (map ov_index vs) \<subseteq> set (ec_members cs ! s)"
  shows "sum_list (map (\<lambda>v. unat (ov_balance v)) vs) \<le> unat (ca_balance agg)"
proof -
  let ?b = "bucket (cw_members (ec_witness cs)) s" and ?f = "\<lambda>i. unat (ov_balance (the (opened cs i)))"
  have dist: "distinct (map cm_index (cw_members (ec_witness cs)))" using assms(1) by (simp add: committees_ok_def)
  have sub: "set ?b \<subseteq> set (cw_members (ec_witness cs))" by (auto simp: bucket_def)
  have members: "ec_members cs ! s = map cm_index ?b" using assms(1,2) by (simp add: committees_ok_def)
  have "distinct (map cm_index ?b)" using dist by (simp add: bucket_def distinct_map inj_on_def)
  then have "sum ?f (set (map cm_index ?b)) = sum_list (map ?f (map cm_index ?b))"
    by (rule sum.distinct_set_conv_list)
  also have "\<dots> = sum_list (map (\<lambda>m. unat (cm_balance m)) ?b)"
    using opened_member [OF dist] sub by (intro arg_cong [where f = sum_list]) auto
  finally have total: "sum ?f (set (ec_members cs ! s)) = bucket_balance (cw_members (ec_witness cs)) s"
    by (simp add: members bucket_balance_def)
  have "ca_balance agg = sum_list (map cm_balance ?b)"
    using assms(3) by (auto simp: members_aggregate_def split: option.splits)
  also have "\<dots> = of_nat (bucket_balance (cw_members (ec_witness cs)) s)"
  proof -
    have "sum_list (map cm_balance ms) = of_nat (sum_list (map (\<lambda>m. unat (cm_balance m)) ms))" for ms
      by (induction ms) simp_all
    then show ?thesis by (simp add: bucket_balance_def)
  qed
  finally have "unat (ca_balance agg) = bucket_balance (cw_members (ec_witness cs)) s"
    using assms(4) by (simp add: unat_of_nat)
  moreover have "sum_list (map (\<lambda>v. unat (ov_balance v)) vs) = sum_list (map ?f (map ov_index vs))"
    using assms(5) by (auto intro!: arg_cong [where f = sum_list])
  moreover have "sum_list (map ?f (map ov_index vs)) = sum ?f (set (map ov_index vs))"
    by (rule sum.distinct_set_conv_list [OF assms(6), symmetric])
  moreover have "sum ?f (set (map ov_index vs)) \<le> sum ?f (set (ec_members cs ! s))"
    by (rule sum_mono2) (use assms(7) in simp_all)
  ultimately show ?thesis using total by simp
qed


text \<open>
  The whole way for a slot without an equivocator: from the node's attestations through the
  collector to the guest.
\<close>

lemma slot_witness_accepted:
  assumes build: "host_committee_build Z blst committees validators t spe te epoch total_balance = Inr cs"
    and tree: "tree_holds Z blst t validators epoch"
    and run: "stream_run B (stream_new spe cs te tr sr) fed done st"
    and law: "sig_law B val" and valid: "\<forall>att\<in>set fed. attestation_valid B val sg cs att"
    and peek: "peek B st slot = Some c" and honest: "no_equivocation st slot" and spe: "spe \<noteq> 0"
    and swd: "slot_witness Z t cs te tr sr total_balance domain c = Inr swd"
    and sums: "keys_summable Z (sc_witness c)"
    and fits: "bucket_balance (cw_members (ec_witness cs)) (unat (slot mod spe)) < 2 ^ 64"
  shows "\<exists>messages. slot_messages Z (link_of (swd_witness swd)) (sc_witness c) messages \<and>
    attest Z (swd_witness swd) (tree_depth t) =
      bind_res (map_err SlotMiller (miller_accumulator Z messages)) (\<lambda>acc.
      bind_res (expect acc PairingInputsRejected) (\<lambda>f.
      Inr \<lparr>att_balance = swd_marginal_balance swd, att_mask = push_bit (unat (slot mod spe)) 1, att_miller = f\<rparr>))"
proof -
  note ok = host_committees_ok [OF build]
  note r = stream_run_ok [OF run refl ok law valid]
  have spe32: "unat spe \<le> 32"
    by (rule host_committee_Inr [OF build])
  have "unat (slot mod spe) < unat spe" using spe unat_eq_zero [of spe] by (simp add: unat_mod_distrib)
  then have slot32: "unat (slot mod spe) < 32" using spe32 by simp
  have ok': "committees_ok (st_slots_per_epoch st) (st_committees st)" using ok r(2,3) by simp
  obtain P a x where
    dist: "distinct (complement_named c)" and set: "set (complement_named c) = set (ec_members cs ! unat (slot mod spe)) - P"
    and idx: "sc_named_indices c = sorted_list_of_set (set (ec_members cs ! unat (slot mod spe)) - P)"
    and a: "primary (sc_witness c) = [a]" "attesting_validators a = []" "for_target st slot a"
    and opens: "\<forall>v\<in>set (named (sc_witness c)). opened cs (ov_index v) = Some v"
    and agg: "ec_aggregate cs (slot mod spe) = Some (committee (sc_witness c))"
    and sec: "\<forall>a\<in>set (secondary (sc_witness c)). \<exists>b vs. for_target st slot b \<and> a = b\<lparr>attesting_validators := vs\<rparr>"
    and marginal: "sc_marginal_balance c =
       ca_balance (committee (sc_witness c)) - sum_list (map ov_balance (absentees (sc_witness c)))"
    using peek_named [OF r(1) ok' peek _ honest law, unfolded r(2,3), OF slot32] by metis
  have in_epoch: "slot_in_epoch (sc_witness c) = slot mod spe"
    using peek_slot(3) [OF r(1) ok' peek] by (simp add: r(3))
  have "link_of (swd_witness swd) = \<lparr>vl_source_epoch = (if te = 0 then 0 else te - 1), vl_source_root = sr,
      vl_target_epoch = te, vl_target_root = tr, vl_signing_domain = domain\<rparr>"
    using swd by (auto simp: slot_witness_def Let_def link_of_def)
  then have target: "for_link (link_of (swd_witness swd)) b" if "for_target st slot b" for b
    using that unfolding r(7) by (simp add: for_link_def for_target_def stream_new_def)
  have links: "\<forall>a\<in>set (secondary (sc_witness c)). for_link (link_of (swd_witness swd)) a"
  proof
    fix s assume "s \<in> set (secondary (sc_witness c))"
    then obtain b vs where b: "for_target st slot b" "s = b\<lparr>attesting_validators := vs\<rparr>" using sec by blast
    show "for_link (link_of (swd_witness swd)) s" using target [OF b(1)] by (simp add: for_link_def b(2))
  qed
  have agg': "members_aggregate Z (bucket (cw_members (ec_witness cs)) (unat (slot mod spe))) = Some (committee (sc_witness c))"
    by (rule host_committee_Inr [OF build]) (use agg slot32 in \<open>simp add: ec_aggregate_def\<close>)
  have absent: "set (absentees (sc_witness c)) \<subseteq> set (named (sc_witness c))"
    "distinct (map ov_index (absentees (sc_witness c)))"
    using dist by (auto simp: complement_named_def named_def)
  then have "set (map ov_index (absentees (sc_witness c))) \<subseteq> set (ec_members cs ! unat (slot mod spe))"
    using set by (auto simp: complement_named_def)
  note bound = slot_balance_bound [OF ok slot32 agg' fits _ absent(2) this]
  show ?thesis
    using slot_witness_attested [OF build tree swd sums _ _ a(1,2) target [OF a(3)] links opens dist _ marginal]
      slot32 agg set idx bound opens absent(1) by (simp add: in_epoch subset_iff)
qed

end
