(* ===== verification/SampleCollector.thy ===== *)
theory SampleCollector
  imports SampleHost HostSlot
begin

text \<open>
  The collector on the small epoch: the first validator's unaggregated attestation for slot 64, and a
  second one of its over another block. A signature is a 64-bit number, the signature of a validator
  its index plus one.
\<close>

definition toy_sig :: "u64 blst_sig" where
  "toy_sig = \<lparr>sig_from_bytes = (\<lambda>bs. case bs of [] \<Rightarrow> None | b # _ \<Rightarrow> Some (ucast b)),
     sig_to_bytes = (\<lambda>x. [ucast x]), sig_add = (\<lambda>a b. Some (a + b))\<rparr>"

definition toy_signs :: "attestation_key \<Rightarrow> u64 \<Rightarrow> u64" where "toy_signs k v = v + 1"

lemma toy_sig_law: "sig_law toy_sig (\<lambda>x. x)"
  by (simp add: sig_law_def toy_sig_def)

definition sample_vote :: "bytes32 \<Rightarrow> attestation_response" where
  "sample_vote head = \<lparr>aggregation_bits = [], committee_bits = [],
     ar_single_attester = Some \<lparr>sa_committee_index = 0, sa_attester_index = 0\<rparr>,
     ar_data_slot = 64, ar_data_index = 0, ar_data_beacon_block_root = head,
     ar_data_source_epoch = 1, ar_data_source_root = zero32, ar_data_target_epoch = 2,
     ar_data_target_root = zero32, ar_signature = [1]\<rparr>"

definition sample_new :: "u64 slot_stream" where
  "sample_new = stream_new 32 sample_ec 2 zero32 zero32"

definition sample_bucket :: "bytes32 \<Rightarrow> u64 summed" where
  "sample_bucket head = \<lparr>su_attestation = attestation_of (sample_vote head), su_signature = 1, su_signers = [(0, 1)]\<rparr>"

definition sample_key :: "bytes32 \<Rightarrow> attestation_key" where
  "sample_key head = (64, 0, head, 1, zero32, 2, zero32)"

lemma sample_data_key: "data_key (attestation_of (sample_vote head)) = sample_key head"
  by (simp add: data_key_def attestation_of_def sample_vote_def sample_key_def)

lemma sample_resolve: "resolve_attesting_validators (sample_vote head) sample_ec = Inr [0]"
  by (simp add: resolve_attesting_validators_def sample_vote_def ec_committee_def sample_ec_def bt_get_def)

lemma sample_valid: "attestation_valid toy_sig (\<lambda>x. x) toy_signs sample_ec (sample_vote head)"
  by (simp add: attestation_valid_def sample_resolve toy_signs_def) (simp add: toy_sig_def sample_vote_def)

definition head_A :: bytes32 where "head_A = 0 # replicate 31 0"
definition head_B :: bytes32 where "head_B = 1 # replicate 31 0"

definition sample_stream :: "u64 slot_stream" where
  "sample_stream = sample_new\<lparr>summed := [(64, [((sample_key head_A, 0), sample_bucket head_A)])]\<rparr>"

definition sample_stream2 :: "u64 slot_stream" where
  "sample_stream2 = sample_new\<lparr>summed := [(64, [((sample_key head_A, 0), sample_bucket head_A),
     ((sample_key head_B, 0), sample_bucket head_B)])]\<rparr>"

lemma sample_new_fields: "st_target_epoch sample_new = 2" "st_target_root sample_new = zero32"
  "st_source_epoch sample_new = 1" "st_source_root sample_new = zero32" "st_slots_per_epoch sample_new = 32"
  "st_committees sample_new = sample_ec" "pending sample_new = []" "summed sample_new = []" "closed sample_new = {}"
  by (simp_all add: sample_new_def stream_new_def)

lemma sample_vote_fields: "ar_data_slot (sample_vote head) = 64" "ar_data_source_epoch (sample_vote head) = 1"
  "ar_data_source_root (sample_vote head) = zero32" "ar_data_target_epoch (sample_vote head) = 2"
  "ar_data_target_root (sample_vote head) = zero32" "signature (attestation_of (sample_vote head)) = [1]"
  "ar_single_attester (sample_vote head) = Some \<lparr>sa_committee_index = 0, sa_attester_index = 0\<rparr>"
  "data_slot (attestation_of (sample_vote head)) = 64"
  by (simp_all add: sample_vote_def attestation_of_def)

lemma sample_ingest: "ingest toy_sig sample_new [sample_vote head_A] = (None, sample_stream)"
  by (simp add: ingest_one_def sample_new_fields sample_vote_fields sample_resolve sum_single_def Let_def
      sample_data_key entry_or_def sum_bucket_def sample_stream_def sample_bucket_def)
    (simp add: toy_sig_def)

lemma sample_keys_less: "sample_key head_A < sample_key head_B" "sample_key head_A \<noteq> sample_key head_B"
  by (simp_all add: sample_key_def head_A_def head_B_def)

lemma sample_ingest2: "ingest toy_sig sample_new [sample_vote head_A, sample_vote head_B] = (None, sample_stream2)"
proof -
  have "ingest_one toy_sig sample_new (sample_vote head_A) = Inr sample_stream"
    using sample_ingest by (simp split: sum.splits)
  moreover have "ingest_one toy_sig sample_stream (sample_vote head_B) = Inr sample_stream2"
    using sample_keys_less
    by (simp add: ingest_one_def sample_new_fields sample_vote_fields sample_resolve sum_single_def Let_def
      sample_data_key entry_or_def sum_bucket_def sample_stream_def sample_stream2_def sample_bucket_def bt_get_def)
      (auto simp add: toy_sig_def)
  ultimately show ?thesis by simp
qed

lemma sample_run:
  "stream_run toy_sig (stream_new 32 sample_ec 2 zero32 zero32) [sample_vote head_A] [] sample_stream"
  using run_ingest [OF run_new, of toy_sig sample_new "[sample_vote head_A]"] sample_ingest by (simp add: sample_new_def)

lemma sample_run2:
  "stream_run toy_sig (stream_new 32 sample_ec 2 zero32 zero32) [sample_vote head_A, sample_vote head_B] [] sample_stream2"
  using run_ingest [OF run_new, of toy_sig sample_new "[sample_vote head_A, sample_vote head_B]"] sample_ingest2
  by (simp add: sample_new_def)

section \<open>The complements\<close>

lemma sample_opened:
  "opened sample_ec 0 = Some \<lparr>ov_index = 0, ov_pubkey = key_A, ov_balance = 48\<rparr>"
  "opened sample_ec 1 = Some sample_absentee"
  by (simp_all add: opened_def sample_ec_def sample_committee_witness_def sample_member_A_def sample_member_B_def
      sample_absentee_def)

definition sample_complement :: slot_complement where
  "sample_complement = \<lparr>sc_slot = 64,
     sc_witness = \<lparr>slot_in_epoch = 0, committee = sample_aggregate, primary = [attestation_of (sample_vote head_A)],
       secondary = [], absentees = [sample_absentee]\<rparr>,
     sc_marginal_balance = 48, sc_named_indices = [1]\<rparr>"

lemma sample_residual: "residual toy_sig (sample_bucket head) {} =
    Some \<lparr>ag_attestation = attestation_of (sample_vote head), ag_signature = 1, ag_signers = {0}\<rparr>"
  by (simp add: residual_def sample_bucket_def bt_keys_def summed_aggregate_def)
    (simp add: attestation_of_def sample_vote_def toy_sig_def)

lemma sample_committee_fields: "ec_aggregate sample_ec 0 = Some sample_aggregate" "ec_members sample_ec ! 0 = [0, 1]"
  by (simp_all add: ec_aggregate_def sample_ec_def sample_aggregates_def)

lemma data_key_exists: "\<exists>a b c d e f g. (k :: attestation_key) = (a, b, c, d, e, f, g)"
  by (cases k) auto

lemma sample_peek: "peek toy_sig sample_stream 64 = Some sample_complement"
  by (simp add: peek_def Let_def sample_stream_def sample_new_fields sample_committee_fields entry_or_def bt_get_def
      covers_def pack_aggregates_def residuals_def List.map_filter_def sample_residual push_residual_def max_step_def
      bt_remove_def bt_values_def sample_opened sample_complement_def sample_absentee_def merge_aggregates_def data_key_exists)
    (simp add: attestation_of_def sample_vote_def toy_sig_def sample_aggregate_def)

lemma sample_peek2: "\<exists>c. peek toy_sig sample_stream2 64 = Some c"
  using sample_keys_less
  by (simp add: peek_def Let_def sample_stream2_def sample_new_fields sample_committee_fields entry_or_def bt_get_def
      covers_def pack_aggregates_def residuals_def List.map_filter_def sample_residual push_residual_def max_step_def
      bt_remove_def bt_values_def sample_opened merge_aggregates_def named_aggregate_def data_key_exists)

end
