(* ===== verification/Host_Properties.thy ===== *)
theory Host_Properties
  imports SampleCollector
begin

text \<open>The properties of the host that builds the circuits' witnesses.\<close>

section \<open>The committee proof\<close>

text \<open>C6: The committee guest accepts the committee witness the host builds, and publishes the host's
  output: where the host's tree holds the registry, some slot has a member and every such slot has a
  sum. The members of the witness are the validators of the node's committees, each once, in index
  order, with the slot of the one committee that names them.\<close>

theorem host_committee_proved:
  assumes "host_committee_build Z blst committees validators t spe e epoch total_balance = Inr ec"
    and "tree_holds Z blst t validators epoch" "slots_summed ec"
    and "cw_members (ec_witness ec) \<noteq> []" "wf_cw (ec_witness ec)"
  shows "verify_committee Z (committee_encode (ec_witness ec)) (tree_depth t) = Inr (ec_output ec) \<and>
    strictly_increasing (map cm_index (cw_members (ec_witness ec))) \<and>
    (\<forall>k slot. (\<exists>m\<in>set (cw_members (ec_witness ec)). cm_index m = k \<and> cm_slot_in_epoch m = slot) \<longleftrightarrow>
       (\<exists>r\<in>set committees. k \<in> set (cr_validators r) \<and> slot = cr_slot r mod spe))"
proof -
  obtain assigned st where asg: "fold_res (assign_response spe) ([], []) committees = Inr (assigned, ec_table ec)"
    and g: "gathered blst epoch validators assigned st" "gt_witnesses st = cw_members (ec_witness ec)"
    and inc: "strictly_increasing (map cm_index (cw_members (ec_witness ec)))"
    by (rule host_committee_Inr [OF assms(1)])
  note a = assign_responses [OF asg]
  have ms: "(\<exists>m\<in>set (cw_members (ec_witness ec)). cm_index m = k \<and> cm_slot_in_epoch m = slot) \<longleftrightarrow>
      (k, slot) \<in> set assigned" for k slot
  proof -
    have "map (\<lambda>m. (cm_index m, cm_slot_in_epoch m)) (cw_members (ec_witness ec)) = assigned"
      using g by (simp add: gathered_def)
    then show ?thesis by auto
  qed
  have "(k, slot) \<in> set assigned \<longleftrightarrow>
      (\<exists>r\<in>set committees. k \<in> set (cr_validators r) \<and> slot = cr_slot r mod spe)" for k slot
    using a(1) a(3) [of k] a(4) [of _ k] by (metis assigned_below_def bt_get_iff option.inject)
  then show ?thesis using host_committee_accepted [OF assms] inc ms by simp
qed

theorem host_committee_proved_witness:
  "verify_committee toy_zisk (committee_encode sample_committee_witness) 1 = Inr (ec_output sample_ec)"
  using host_committee_proved [OF sample_host_build sample_tree_holds sample_slots_summed] sample_committee_wf
  by (simp add: sample_ec_def sample_committee_witness_def sample_store_def)

text \<open>C34: The openings of the host's committee tree are accepted: for any increasing list of slots of
  the epoch the auxiliaries open the leaves of the slots' aggregates, or the zero leaf of a slot
  without members, under the root the committee proof publishes.\<close>

theorem committee_openings_verify:
  assumes "host_committee_build Z blst committees validators t spe e epoch total_balance = Inr ec"
    and "slots \<noteq> []" "strictly_increasing slots" "\<forall>s\<in>set slots. unat s < 32"
  shows "\<exists>aux. ec_multi_proof ec slots = Inr aux \<and>
    batch_root (compress Z) (map (\<lambda>s. (aggregate_leaf Z (ec_aggregate ec s), s)) slots) aux TREE_DEPTH =
      Inr (co_committee_root (ec_output ec))"
  using ec_multi_proof_verifies [OF assms] by (simp add: TREE_DEPTH_def)

theorem committee_openings_verify_witness:
  "\<exists>aux. batch_root (compress toy_zisk) [(leaf_slot, 0), (ZERO, 3)] aux 5 =
     Inr (co_committee_root (ec_output sample_ec))"
proof -
  have "aggregate_leaf toy_zisk (ec_aggregate sample_ec 0) = leaf_slot"
    "aggregate_leaf toy_zisk (ec_aggregate sample_ec 3) = ZERO"
    by (simp_all add: aggregate_leaf_def ec_aggregate_def sample_ec_def sample_aggregates_def
        sample_aggregate_def committee_leaf_def toy_hashes)
  then show ?thesis
    using committee_openings_verify [OF sample_host_build, of "[0, 3]"] by (auto simp: TREE_DEPTH_def)
qed


section \<open>The collector\<close>

text \<open>C5: However feeding, closing and forgetting are interleaved, and whatever is fed, no slot is
  closed into a complement twice, a closed slot is never offered again, and as long as the node's
  committees are of one epoch no two complements count the same slot of the epoch, which is what the
  circuits that add them up require.\<close>

theorem slot_closed_once:
  assumes "host_committee_build Z blst committees validators t spe e epoch total_balance = Inr cs"
    and "stream_run B (stream_new spe cs te tr sr) fed complements st"
    and "\<forall>r\<in>set committees. cr_slot r div spe = ep"
  shows "distinct (map (slot_in_epoch \<circ> sc_witness) complements) \<and>
    (\<forall>c\<in>set complements. peek B st (sc_slot c) = None)"
proof -
  have law: "sig_law B (\<lambda>_. 0 :: nat)" by (simp add: sig_law_def)
  have valid: "\<forall>att\<in>set fed. attestation_valid B (\<lambda>_. 0 :: nat) (\<lambda>_ _. 0) cs att"
    by (simp add: attestation_valid_def)
  note r = stream_run_ok [OF assms(2) refl host_committees_ok [OF assms(1)] law valid]
  have epoch: "sc_slot c div spe = ep" if "c \<in> set complements" for c
  proof -
    have "slot_validators cs (sc_slot c) \<noteq> {}" using r(6) [OF that] by simp
    from slot_of_response [OF assms(1) this] assms(3) show ?thesis by auto
  qed
  have inj: "distinct complements" "inj_on sc_slot (set complements)" using r(5) by (simp_all add: distinct_map)
  have "inj_on (slot_in_epoch \<circ> sc_witness) (set complements)"
  proof (rule inj_onI)
    fix c c' assume c: "c \<in> set complements" "c' \<in> set complements"
      and eq: "(slot_in_epoch \<circ> sc_witness) c = (slot_in_epoch \<circ> sc_witness) c'"
    have "sc_slot c mod spe = sc_slot c' mod spe" using r(6) [OF c(1)] r(6) [OF c(2)] eq by simp
    then have "sc_slot c = sc_slot c'"
      using epoch [OF c(1)] epoch [OF c(2)] div_mult_mod_eq [of "sc_slot c" spe] div_mult_mod_eq [of "sc_slot c'" spe]
      by simp
    then show "c = c'" using inj_onD [OF inj(2)] c by blast
  qed
  then have "distinct (map (slot_in_epoch \<circ> sc_witness) complements)" using inj(1) by (simp only: distinct_map)
  moreover have "\<forall>c\<in>set complements. peek B st (sc_slot c) = None"
    using peek_closed [OF r(1)] r(4) by blast
  ultimately show ?thesis by blast
qed

lemma sample_closed:
  "stream_run toy_sig (stream_new 32 sample_ec 2 zero32 zero32) [sample_vote head_A] [sample_complement]
     (forget sample_stream 64)"
  using run_close [OF sample_run, of 64] sample_peek by (simp add: stream_close_Some)

theorem slot_closed_once_witness: "peek toy_sig (forget sample_stream 64) 64 = None"
  using slot_closed_once [OF sample_host_build sample_closed, of 2]
  by (simp add: sample_committees_def sample_complement_def)

text \<open>C4: A complement says the truth about who is behind its signature. Where no validator sent two
  messages of the slot, there is a non-empty set of committee members such that the primary
  aggregate is the sum of exactly their signatures over one message each sent, everybody else is
  named exactly once, and the key the guest derives, the committee's less the named, is the sum of
  exactly their keys.\<close>

theorem complement_matches_cover:
  assumes "host_committee_build Z blst committees validators t spe e epoch total_balance = Inr cs"
    and "stream_run B (stream_new spe cs te tr sr) fed complements st"
    and "sig_law B val" "\<forall>att\<in>set fed. attestation_valid B val sg cs att"
    and "peek B st slot = Some c" "no_equivocation st slot" "spe \<noteq> 0"
    and "curve_law Z C pt" "\<forall>m\<in>set (cw_members (ec_witness cs)). cm_pubkey m \<in> C"
    and "w = sc_witness c" "key_minus Z (Some (ca_pubkey (committee w))) (named w) = Some (Some key)"
    and "members = ec_members cs ! unat (slot mod spe)" "k = data_key (hd (primary w))"
  shows "\<exists>P x. P \<noteq> {} \<and> P \<subseteq> set members \<and> (\<forall>v\<in>P. heard st slot k v) \<and>
    distinct (map ov_index (named w)) \<and> set (map ov_index (named w)) = set members - P \<and>
    sc_named_indices c = sorted_list_of_set (set members - P) \<and>
    signature (hd (primary w)) = sig_to_bytes B x \<and> val x = (\<Sum>v\<in>P. sg k v) \<and>
    pt key = (\<Sum>v\<in>P. pt (member_key cs v))"
proof -
  note ok = host_committees_ok [OF assms(1)]
  note r = stream_run_ok [OF assms(2) refl ok assms(3,4)]
  have ok': "committees_ok (st_slots_per_epoch st) (st_committees st)" using ok r(2,3) by simp
  have "unat spe \<le> 32" by (rule host_committee_Inr [OF assms(1)])
  moreover have "unat (slot mod spe) < unat spe"
    using assms(7) unat_eq_zero [of spe] by (simp add: unat_mod_distrib)
  ultimately have slot32: "unat (slot mod spe) < 32" by simp
  obtain P a x where P: "P \<subseteq> set members" "P \<noteq> {}" "\<forall>v\<in>P. heard st slot (data_key a) v"
    and named: "distinct (complement_named c)" "set (complement_named c) = set members - P"
      "sc_named_indices c = sorted_list_of_set (set members - P)"
    and a: "primary (sc_witness c) = [a]" "signature a = sig_to_bytes B x" "val x = (\<Sum>v\<in>P. sg (data_key a) v)"
    and opens: "\<forall>v\<in>set (named (sc_witness c)). opened cs (ov_index v) = Some v"
    and agg: "ec_aggregate cs (slot mod spe) = Some (committee (sc_witness c))"
    using peek_named [OF r(1) ok' assms(5) _ assms(6,3), unfolded r(2,3), OF slot32]
    unfolding assms(12) by metis
  have "members_aggregate Z (bucket (cw_members (ec_witness cs)) (unat (slot mod spe))) = Some (committee w)"
    by (rule host_committee_Inr [OF assms(1)]) (use agg slot32 in \<open>simp add: ec_aggregate_def assms(10)\<close>)
  from complement_derived_key [OF ok slot32 assms(8) this assms(9)] assms(11) P(1) named(1,2) opens
  have "pt key = (\<Sum>v\<in>P. pt (member_key cs v))"
    by (simp add: complement_named_def assms(10,12))
  then show ?thesis
    using P named a by (intro exI [of _ P] exI [of _ x]) (simp add: complement_named_def assms(10,13))
qed

lemma sample_no_equivocation: "no_equivocation sample_stream 64"
  by (simp add: no_equivocation_def heard_def sample_stream_def sample_new_fields entry_or_def bt_get_def)

lemma sample_sums: "keys_summable toy_zisk (sc_witness sample_complement)"
  using sample_sub by (simp add: keys_summable_def sample_complement_def named_def sample_aggregate_def sample_absentee_def)

theorem complement_matches_cover_witness:
  "\<exists>P x. P \<noteq> {} \<and> {1} = {0, 1} - P \<and> x = (\<Sum>v\<in>P. v + 1) \<and>
     key_A ! 6 = (\<Sum>v\<in>P. member_key sample_ec v ! 6)"
proof -
  have key: "key_minus toy_zisk (Some (ca_pubkey (committee (sc_witness sample_complement))))
      (named (sc_witness sample_complement)) = Some (Some key_A)"
    using sample_sub by (simp add: sample_complement_def named_def sample_aggregate_def sample_absentee_def)
  have keys: "\<forall>m\<in>set (cw_members (ec_witness sample_ec)). cm_pubkey m \<in> toy_curve"
    by (simp add: sample_ec_def sample_committee_witness_def sample_member_A_def sample_member_B_def
        toy_key_points)
  have valid: "\<forall>att\<in>set [sample_vote head_A]. attestation_valid toy_sig (\<lambda>x. x) toy_signs sample_ec att"
    using sample_valid by simp
  have "map ov_index (named (sc_witness sample_complement)) = [1]"
    by (simp add: sample_complement_def named_def sample_absentee_def)
  moreover have "ec_members sample_ec ! unat (64 mod 32 :: u64) = [0, 1]" by (simp add: sample_committee_fields)
  moreover obtain P x where "P \<noteq> {}"
    "set (map ov_index (named (sc_witness sample_complement))) = set (ec_members sample_ec ! unat (64 mod 32 :: u64)) - P"
    "x = (\<Sum>v\<in>P. toy_signs (data_key (hd (primary (sc_witness sample_complement)))) v)"
    "key_A ! 6 = (\<Sum>v\<in>P. member_key sample_ec v ! 6)"
    using complement_matches_cover [OF sample_host_build sample_run toy_sig_law valid sample_peek
        sample_no_equivocation _ toy_curve_law keys refl key refl refl] by auto
  ultimately show ?thesis
    by (intro exI [of _ P] exI [of _ x] conjI) (simp_all add: toy_signs_def)
qed

text \<open>C3: Where no validator of the slot sent two messages, the slot guest run on the slot proof's
  witness is the Miller loop over exactly the complement's messages, the ones the guest's rule gives:
  one per other message with the key of its opened signers, then the primary one with the
  committee's key less the named. No check before it fails, the openings of validators and committee
  included, and when the loop succeeds the guest has counted the host's marginal balance and the
  slot's bit. The keys must be summable, and the balances of the slot fit 64 bits.\<close>

theorem slot_witness_reaches_pairing:
  assumes "host_committee_build Z blst committees validators t spe te epoch total_balance = Inr cs"
    and "tree_holds Z blst t validators epoch"
    and "stream_run B (stream_new spe cs te tr sr) fed complements st"
    and "sig_law B val" "\<forall>att\<in>set fed. attestation_valid B val sg cs att"
    and "peek B st slot = Some c" "no_equivocation st slot" "spe \<noteq> 0"
    and "slot_witness Z t cs te tr sr total_balance domain c = Inr swd" "keys_summable Z (sc_witness c)"
    and "bucket_balance (cw_members (ec_witness cs)) (unat (slot mod spe)) < 2 ^ 64"
  shows "\<exists>messages. slot_messages Z (link_of (swd_witness swd)) (sc_witness c) messages \<and>
    attest Z (swd_witness swd) (tree_depth t) =
      bind_res (map_err SlotMiller (miller_accumulator Z messages)) (\<lambda>acc.
      bind_res (expect acc PairingInputsRejected) (\<lambda>f.
      Inr \<lparr>att_balance = swd_marginal_balance swd, att_mask = push_bit (unat (slot mod spe)) 1, att_miller = f\<rparr>))"
  by (rule slot_witness_accepted [OF assms])

lemma sample_complement_miller:
  assumes "slot_messages toy_zisk L (sc_witness sample_complement) messages"
  shows "miller_accumulator toy_zisk messages = Inr (Some FP12_ONE)"
proof -
  have w: "secondary (sc_witness sample_complement) = []"
    "primary (sc_witness sample_complement) = [attestation_of (sample_vote head_A)]"
    "key_minus toy_zisk (Some (ca_pubkey (committee (sc_witness sample_complement))))
      (named (sc_witness sample_complement)) = Some (Some key_A)"
    using sample_sub by (simp_all add: sample_complement_def named_def sample_aggregate_def sample_absentee_def)
  obtain m where m: "messages = [m]" "push_message toy_zisk L [attestation_of (sample_vote head_A)] key_A = Inr m"
    using assms by (auto simp: slot_messages_def primary_message_def w)
  have "m = \<lparr>sm_pubkeys = [key_A], sm_signing_root = sm_signing_root m, sm_signatures = [[1]]\<rparr>"
    "length (sm_signing_root m) = 32"
    using m(2) by (auto simp: push_message_def Let_def attestation_of_def sample_vote_def compute_signing_root_def)
  then show ?thesis using toy_miller_message [of "sm_signing_root m" "[1]"] m(1) by simp
qed

theorem slot_witness_reaches_pairing_witness:
  "\<exists>swd. slot_witness toy_zisk sample_store sample_ec 2 zero32 zero32 64 zero32 sample_complement = Inr swd \<and>
     attest toy_zisk (swd_witness swd) 1 = Inr \<lparr>att_balance = 48, att_mask = 1, att_miller = FP12_ONE\<rparr>"
proof -
  obtain aux where "ec_multi_proof sample_ec [0] = Inr aux"
    using ec_multi_proof_verifies [OF sample_host_build, of "[0]"] by auto
  then obtain swd where swd: "slot_witness toy_zisk sample_store sample_ec 2 zero32 zero32 64 zero32 sample_complement = Inr swd"
    and marginal: "swd_marginal_balance swd = 48"
    by (auto simp: slot_witness_def sample_complement_def Let_def)
  have valid: "\<forall>att\<in>set [sample_vote head_A]. attestation_valid toy_sig (\<lambda>x. x) toy_signs sample_ec att"
    using sample_valid by simp
  have bal: "bucket_balance (cw_members (ec_witness sample_ec)) (unat (64 mod 32 :: u64)) < 2 ^ 64"
    by (simp add: bucket_balance_def bucket_def sample_ec_def sample_committee_witness_def sample_member_A_def
        sample_member_B_def)
  have "tree_depth sample_store = 1" by (simp add: sample_store_def)
  then obtain messages where "slot_messages toy_zisk (link_of (swd_witness swd)) (sc_witness sample_complement) messages"
    "attest toy_zisk (swd_witness swd) 1 =
      bind_res (map_err SlotMiller (miller_accumulator toy_zisk messages)) (\<lambda>acc.
      bind_res (expect acc PairingInputsRejected) (\<lambda>f.
      Inr \<lparr>att_balance = 48, att_mask = 1, att_miller = f\<rparr>))"
    using slot_witness_reaches_pairing [OF sample_host_build sample_tree_holds sample_run toy_sig_law valid
        sample_peek sample_no_equivocation _ swd sample_sums bal] by (auto simp: marginal)
  then show ?thesis using swd sample_complement_miller by simp
qed

text \<open>C33: A validator that sends unaggregated attestations over two messages of a slot spoils the slot's
  complement, as long as signatures can be added: it is named, and either named twice, which the
  guest refuses, or its signature is in the primary aggregate whose derived key leaves it out.\<close>

theorem equivocator_spoils_complement:
  assumes "host_committee_build Z blst committees validators t spe e epoch total_balance = Inr cs"
    and "stream_run B (stream_new spe cs te tr sr) fed complements st"
    and "sig_law B val" "\<forall>att\<in>set fed. attestation_valid B val sg cs att" "\<forall>a b. sig_add B a b \<noteq> None"
    and "peek B st slot = Some c" "messages = entry_or [] (summed st) slot" "k1 \<noteq> k2"
    and "((k1, c1), s1) \<in> set messages" "v \<in> set (bt_keys (su_signers s1))"
    and "((k2, c2), s2) \<in> set messages" "v \<in> set (bt_keys (su_signers s2))"
  shows "v \<in> set (map ov_index (named (sc_witness c))) \<and>
    (\<not> distinct (map ov_index (named (sc_witness c))) \<or>
     (\<exists>P a x. primary (sc_witness c) = [a] \<and> signature a = sig_to_bytes B x \<and>
        val x = (\<Sum>i\<in>P. sg (data_key a) i) \<and> v \<in> P))"
proof -
  note ok = host_committees_ok [OF assms(1)]
  note r = stream_run_ok [OF assms(2) refl ok assms(3,4)]
  have "committees_ok (st_slots_per_epoch st) (st_committees st)" using ok r(2,3) by simp
  from peek_equivocator [OF r(1) this assms(6,3,5,8) assms(9) [unfolded assms(7)] assms(10)
      assms(11) [unfolded assms(7)] assms(12)]
  show ?thesis by (simp only: complement_named_def)
qed

theorem equivocator_spoils_complement_witness:
  "\<exists>c. peek toy_sig sample_stream2 64 = Some c \<and> 0 \<in> set (map ov_index (named (sc_witness c)))"
proof -
  obtain c where c: "peek toy_sig sample_stream2 64 = Some c" using sample_peek2 by blast
  have valid: "\<forall>att\<in>set [sample_vote head_A, sample_vote head_B]. attestation_valid toy_sig (\<lambda>x. x) toy_signs sample_ec att"
    using sample_valid by simp
  have "((sample_key head_A, 0), sample_bucket head_A) \<in> set (entry_or [] (summed sample_stream2) 64)"
    "((sample_key head_B, 0), sample_bucket head_B) \<in> set (entry_or [] (summed sample_stream2) 64)"
    "0 \<in> set (bt_keys (su_signers (sample_bucket head)))" for head
    by (simp_all add: sample_stream2_def entry_or_def bt_get_def sample_bucket_def bt_keys_def)
  from equivocator_spoils_complement [OF sample_host_build sample_run2 toy_sig_law valid _ c refl
      sample_keys_less(2) this(1,3,2,3)] c
  show ?thesis by (auto simp: toy_sig_def)
qed

end
