(* ===== verification/StateDiff.thy ===== *)
theory StateDiff
  imports HostTypes
begin

text \<open>
  \<open>crates/witness-gen/src/state_diff.rs\<close>: the SSZ leaves of a validator of the node, the positions
  that changed between two registries (\<open>find_mutations\<close>), and the sparse SSZ tree with its
  multi-proof (\<open>build_validators_ssz_tree\<close>).

  The lemmas: the positions are increasing, and a validator that is not listed has the same SSZ
  leaves and the same active balance on both sides. The collection over sets of known indices is
  the flat scan of \<open>Merkle.collect_levels\<close>, so the SSZ tree is a \<open>dense_store\<close> and its multi-proof
  verifies in the guest.
\<close>

section \<open>Validators\<close>

definition validator_response_to_pubkey_chunks :: "validator_response \<Rightarrow> bytes32 list" where
  "validator_response_to_pubkey_chunks v =
     [take 32 (vr_pubkey v), take 16 (drop 32 (vr_pubkey v)) @ replicate 16 0]"

definition validator_response_to_field_leaves :: "zisk \<Rightarrow> validator_response \<Rightarrow> bytes32 list" where
  "validator_response_to_field_leaves Z v =
     (let chunks = validator_response_to_pubkey_chunks v;
          pubkey_leaf = sha256_pair Z (chunks ! 0) (chunks ! 1)
      in [pubkey_leaf,
          withdrawal_credentials v,
          u64_to_chunk (vr_effective_balance v),
          u64_to_chunk (if slashed v then 1 else 0),
          u64_to_chunk (activation_eligibility_epoch v),
          u64_to_chunk (vr_activation_epoch v),
          u64_to_chunk (vr_exit_epoch v),
          u64_to_chunk (withdrawable_epoch v)])"

definition build_validator_roots :: "zisk \<Rightarrow> validator_response list \<Rightarrow> bytes32 list" where
  "build_validator_roots Z vs =
     map (\<lambda>v. validator_hash_tree_root Z (validator_response_to_field_leaves Z v)) vs"

section \<open>What changed\<close>

definition ssz_changed :: "validator_response \<Rightarrow> validator_response \<Rightarrow> bool" where
  "ssz_changed old new \<longleftrightarrow>
     vr_effective_balance old \<noteq> vr_effective_balance new
   \<or> withdrawal_credentials old \<noteq> withdrawal_credentials new
   \<or> vr_activation_epoch old \<noteq> vr_activation_epoch new
   \<or> vr_exit_epoch old \<noteq> vr_exit_epoch new
   \<or> slashed old \<noteq> slashed new
   \<or> activation_eligibility_epoch old \<noteq> activation_eligibility_epoch new
   \<or> withdrawable_epoch old \<noteq> withdrawable_epoch new"

definition activity_changed :: "validator_response \<Rightarrow> u64 \<Rightarrow> u64 \<Rightarrow> bool" where
  "activity_changed new e1 e2 \<longleftrightarrow>
     (let was_active = (vr_activation_epoch new \<le> e1 \<and> e1 < vr_exit_epoch new);
          is_active = (vr_activation_epoch new \<le> e2 \<and> e2 < vr_exit_epoch new)
      in was_active \<noteq> is_active)"

definition find_mutations ::
  "validator_response list \<Rightarrow> validator_response list \<Rightarrow> u64 \<Rightarrow> u64 \<Rightarrow> u64 list" where
  "find_mutations olds news e1 e2 =
     map of_nat (filter (\<lambda>i. ssz_changed (olds ! i) (news ! i) \<or> activity_changed (news ! i) e1 e2)
       [0..<min (length olds) (length news)])
   @ map of_nat [length olds..<length news]"

section \<open>The SSZ tree\<close>

datatype ssz_tree_panic = SszLeafOutOfBounds

record ssz_tree =
  st_levels :: "bytes32 list list"
  st_zero_hashes :: "bytes32 list"
  st_dense_depth :: nat
  st_depth :: nat

definition ssz_zero_hashes :: "zisk \<Rightarrow> nat \<Rightarrow> bytes32 list" where
  "ssz_zero_hashes Z depth = map (zero_node (sha256_pair Z) zero32) [0..<depth + 1]"

definition ssz_dense_depth :: "nat \<Rightarrow> nat \<Rightarrow> nat" where
  "ssz_dense_depth n depth = min (max (if n = 0 then 1 else ceil_log2 n) 1) depth"

text \<open>The loop that copies the roots into the zeroed leaves indexes out of bounds past the capacity.\<close>

definition dense_leaves :: "nat \<Rightarrow> bytes32 list \<Rightarrow> ssz_tree_panic + bytes32 list" where
  "dense_leaves dense_capacity roots =
     ensure (length roots \<le> dense_capacity) SszLeafOutOfBounds
    (Inr (roots @ replicate (dense_capacity - length roots) zero32))"

definition ssz_tree_build :: "zisk \<Rightarrow> bytes32 list \<Rightarrow> nat \<Rightarrow> ssz_tree_panic + ssz_tree" where
  "ssz_tree_build Z validator_roots depth =
     (let dense = ssz_dense_depth (length validator_roots) depth;
          dense_capacity = 2 ^ dense in
     bind_res (dense_leaves dense_capacity validator_roots) (\<lambda>leaves.
     Inr \<lparr>st_levels = build_levels (sha256_pair Z) dense leaves,
          st_zero_hashes = ssz_zero_hashes Z depth,
          st_dense_depth = dense,
          st_depth = depth\<rparr>))"

definition ssz_tree_root :: "zisk \<Rightarrow> ssz_tree \<Rightarrow> bytes32" where
  "ssz_tree_root Z t =
     sparse_root (sha256_pair Z) (st_zero_hashes t) (st_levels t ! st_dense_depth t ! 0)
       (st_dense_depth t) (st_depth t)"

definition get_node_hash :: "ssz_tree \<Rightarrow> nat \<Rightarrow> u64 \<Rightarrow> bytes32" where
  "get_node_hash t level idx =
     (if level < st_dense_depth t then
        (let level_data = st_levels t ! level in
         if unat idx < length level_data then level_data ! unat idx else st_zero_hashes t ! level)
      else st_zero_hashes t ! level)"

definition missing_children :: "(u64 \<Rightarrow> 'a) \<Rightarrow> u64 set \<Rightarrow> u64 \<Rightarrow> 'a list" where
  "missing_children get known parent_idx =
     (let left_idx = parent_idx * 2;
          right_idx = parent_idx * 2 + 1
      in (if left_idx \<notin> known then [get left_idx] else [])
       @ (if right_idx \<notin> known then [get right_idx] else []))"

text \<open>A \<open>BTreeSet\<close> is a set that is walked in increasing order.\<close>

fun known_levels :: "(nat \<Rightarrow> u64 \<Rightarrow> 'a) \<Rightarrow> nat list \<Rightarrow> u64 set \<Rightarrow> 'a list" where
  "known_levels get [] known = []"
| "known_levels get (level # levels) known =
     (let parent_indices = (\<lambda>idx. idx div 2) ` known
      in concat (map (missing_children (get level) known) (sorted_list_of_set parent_indices))
       @ known_levels get levels parent_indices)"

definition build_validators_ssz_tree ::
  "zisk \<Rightarrow> bytes32 list \<Rightarrow> nat \<Rightarrow> u64 list \<Rightarrow> ssz_tree_panic + bytes32 \<times> bytes32 list" where
  "build_validators_ssz_tree Z validator_roots depth leaf_indices =
     bind_res (ssz_tree_build Z validator_roots depth) (\<lambda>t.
     Inr (ssz_tree_root Z t, known_levels (get_node_hash t) [0..<depth] (set leaf_indices)))"

section \<open>Mutations are complete\<close>

lemma unat_index: "n < 2 ^ 64 \<Longrightarrow> unat (of_nat n :: u64) = n"
  by (simp add: unat_of_nat)

lemma of_nat_increasing:
  "sorted_wrt (<) ns \<Longrightarrow> \<forall>n\<in>set ns. n < 2 ^ 64 \<Longrightarrow> strictly_increasing (map of_nat ns)"
  by (induction ns)
    (auto simp: strictly_increasing_Cons word_less_nat_alt unat_index)

lemma find_mutations_increasing:
  assumes "length news < 2 ^ 64"
  shows "strictly_increasing (find_mutations olds news e1 e2)"
proof -
  let ?c = "\<lambda>i. ssz_changed (olds ! i) (news ! i) \<or> activity_changed (news ! i) e1 e2"
  let ?ns = "filter ?c [0..<min (length olds) (length news)] @ [length olds..<length news]"
  have "sorted_wrt (<) ?ns" by (auto simp: sorted_wrt_append intro: sorted_wrt_filter)
  moreover have "\<forall>n\<in>set ?ns. n < 2 ^ 64" using assms by auto
  ultimately have "strictly_increasing (map of_nat ?ns)" by (rule of_nat_increasing)
  then show ?thesis by (simp add: find_mutations_def)
qed

lemma find_mutations_below:
  assumes "k \<in> set (find_mutations olds news e1 e2)" "length news < 2 ^ 64"
  shows "unat k < length news"
  using assms by (auto simp: find_mutations_def unat_index)

lemma find_mutations_mem:
  assumes "i < length news" "length news < 2 ^ 64"
  shows "of_nat i \<in> set (find_mutations olds news e1 e2) \<longleftrightarrow>
    length olds \<le> i \<or> ssz_changed (olds ! i) (news ! i) \<or> activity_changed (news ! i) e1 e2"
proof -
  let ?c = "\<lambda>i. ssz_changed (olds ! i) (news ! i) \<or> activity_changed (news ! i) e1 e2"
  let ?ns = "filter ?c [0..<min (length olds) (length news)] @ [length olds..<length news]"
  have "inj_on (of_nat :: nat \<Rightarrow> u64) {..<length news}"
    using assms(2) by (intro inj_on_inverseI [of _ unat]) (simp add: unat_index)
  moreover have "set ?ns \<subseteq> {..<length news}" by auto
  ultimately have "(of_nat i :: u64) \<in> of_nat ` set ?ns \<longleftrightarrow> i \<in> set ?ns"
    using assms(1) by (intro inj_on_image_mem_iff) simp_all
  moreover have "set (find_mutations olds news e1 e2) = of_nat ` set ?ns"
    by (simp add: find_mutations_def image_Un)
  ultimately show ?thesis using assms(1) by auto
qed

text \<open>A validator that is not listed has the same leaves in both states, and the same active balance.\<close>

lemma unlisted_same:
  assumes "i < length news" "length news < 2 ^ 64"
    and "of_nat i \<notin> set (find_mutations olds news e1 e2)"
    and "vr_pubkey (olds ! i) = vr_pubkey (news ! i)"
  shows "i < length olds"
    and "validator_response_to_field_leaves Z (olds ! i) = validator_response_to_field_leaves Z (news ! i)"
    and "active_effective_balance (validator_response_to_data (olds ! i)) e1 =
      active_effective_balance (validator_response_to_data (news ! i)) e2"
proof -
  have c: "i < length olds" "\<not> ssz_changed (olds ! i) (news ! i)" "\<not> activity_changed (news ! i) e1 e2"
    using find_mutations_mem [OF assms(1,2), of olds e1 e2] assms(3) by auto
  then show "i < length olds" by simp
  show "validator_response_to_field_leaves Z (olds ! i) = validator_response_to_field_leaves Z (news ! i)"
    using c(2) assms(4)
    by (simp add: ssz_changed_def validator_response_to_field_leaves_def
        validator_response_to_pubkey_chunks_def)
  show "active_effective_balance (validator_response_to_data (olds ! i)) e1 =
      active_effective_balance (validator_response_to_data (news ! i)) e2"
    using c(2,3)
    by (auto simp: ssz_changed_def activity_changed_def active_effective_balance_def is_active_def
        validator_response_to_data_def)
qed

section \<open>The set of known indices is the flat scan\<close>

lemma div_2_word: "(k :: u64) div 2 = drop_bit 1 k"
  by (simp add: drop_bit_eq_div)

lemma even_child:
  assumes "even (unat (k :: u64))"
  shows "drop_bit 1 k * 2 = k" "drop_bit 1 (k + 1) = drop_bit 1 k"
proof -
  have b: "2 * (unat k div 2) = unat k" using assms by simp
  moreover have "unat k < 2 ^ 64" using unsigned_less [of k] by simp
  ultimately show "drop_bit 1 k * 2 = k"
    unfolding word_unat_eq_iff unat_word_ariths unat_shift1 by (simp add: mult.commute)
  show "drop_bit 1 (k + 1) = drop_bit 1 k"
    unfolding word_unat_eq_iff unat_shift1 even_succ_unat [OF assms] using assms by simp
qed

lemma odd_child:
  assumes "odd (unat (k :: u64))"
  shows "drop_bit 1 k * 2 = k - 1" "drop_bit 1 (k - 1) = drop_bit 1 k"
proof -
  have e: "even (unat (k - 1))" using odd_pred_unat [OF assms] assms by simp
  from even_child(2) [OF e] show p: "drop_bit 1 (k - 1) = drop_bit 1 k" by simp
  from even_child(1) [OF e] show "drop_bit 1 k * 2 = k - 1" unfolding p .
qed

lemma collect_level_parents: "set (fst (collect_level get ks)) = drop_bit 1 ` set ks"
proof (induction get ks rule: collect_level.induct)
  case (2 get k ks)
  show ?case
  proof (cases "k AND 1 = 0 \<and> ks \<noteq> [] \<and> hd ks = k + 1")
    case True
    then obtain ks' where ks: "ks = (k + 1) # ks'" by (cases ks) auto
    have "even (unat k)" using True by (simp add: and_1_eq_0)
    then show ?thesis
      using "2.IH"(1) True by (simp add: ks Let_def split_beta even_child(2) del: One_nat_def)
  next
    case False
    then show ?thesis using "2.IH"(2,3) by (auto simp: Let_def split_beta)
  qed
qed simp

lemma collect_level_sets:
  assumes "strictly_increasing ks" "set ks \<subseteq> K"
    and "\<forall>m\<in>K. drop_bit 1 m \<in> drop_bit 1 ` set ks \<longrightarrow> m \<in> set ks"
  shows "snd (collect_level get ks) =
    concat (map (missing_children get K) (fst (collect_level get ks)))"
  using assms
proof (induction get ks rule: collect_level.induct)
  case (2 get k ks)
  define pair where "pair \<longleftrightarrow> k AND 1 = 0 \<and> ks \<noteq> [] \<and> hd ks = k + 1"
  define rest where "rest = (if pair then tl ks else ks)"
  define p where "p = drop_bit 1 k"
  define probe where "probe = (if pair then [] else [get (if even (unat k) then k + 1 else k - 1)])"
  have inc: "strictly_increasing ks" and gt: "\<And>m. m \<in> set ks \<Longrightarrow> k < m"
    using "2.prems"(1) by (auto simp: strictly_increasing_Cons)
  have f: "fst (collect_level get (k # ks)) = p # fst (collect_level get rest)"
    and s: "snd (collect_level get (k # ks)) = probe @ snd (collect_level get rest)"
    by (auto simp: rest_def pair_def p_def probe_def and_1_eq_0 Let_def split_beta)
  have later: "p < drop_bit 1 m" if "m \<in> set rest" for m
    using collect_level_increasing [OF "2.prems"(1), of get] that
    unfolding f strictly_increasing_Cons collect_level_parents by blast
  have sub: "set rest \<subseteq> set ks" by (cases ks) (auto simp: rest_def)
  have split: "set (k # ks) \<subseteq> insert k (insert (k + 1) (set rest))" if pair
    using that by (cases ks) (auto simp: rest_def pair_def)
  have mem: "m \<in> set (k # ks)" if "m \<in> K" "drop_bit 1 m = p" for m
    using "2.prems"(3) that by (auto simp: p_def)
  have rest_closed: "\<forall>m\<in>K. drop_bit 1 m \<in> drop_bit 1 ` set rest \<longrightarrow> m \<in> set rest"
  proof (intro ballI impI)
    fix m assume m: "m \<in> K" "drop_bit 1 m \<in> drop_bit 1 ` set rest"
    have "m \<in> set (k # ks)" using "2.prems"(3) m sub by auto
    moreover have "drop_bit 1 m \<noteq> p" using m(2) later by (auto simp: less_le)
    moreover have "drop_bit 1 (k + 1) = p" if pair
      using that even_child(2) [of k] by (simp add: pair_def p_def and_1_eq_0)
    ultimately show "m \<in> set rest" using split by (cases pair) (auto simp: p_def rest_def)
  qed
  have rest_inc: "strictly_increasing rest" and rest_known: "set rest \<subseteq> K"
    using inc strictly_increasing_tl [OF inc] sub "2.prems"(2) by (auto simp: rest_def)
  have ih: "snd (collect_level get rest) =
      concat (map (missing_children get K) (fst (collect_level get rest)))"
  proof (cases pair)
    case True
    then have r: "rest = tl ks" and c: "k AND 1 = 0" "ks \<noteq> [] \<and> hd ks = k + 1"
      by (simp_all add: rest_def pair_def)
    show ?thesis
      unfolding r by (rule "2.IH"(1) [OF c rest_inc [unfolded r] rest_known [unfolded r] rest_closed [unfolded r]])
  next
    case False
    then have r: "rest = ks" by (simp add: rest_def)
    note hyps = rest_inc [unfolded r] rest_known [unfolded r] rest_closed [unfolded r]
    show ?thesis
    proof (cases "k AND 1 = 0")
      case True
      with False have c: "\<not> (ks \<noteq> [] \<and> hd ks = k + 1)" by (simp add: pair_def)
      show ?thesis unfolding r by (rule "2.IH"(2) [OF True c hyps])
    next
      case False
      show ?thesis unfolding r by (rule "2.IH"(3) [OF False hyps])
    qed
  qed
  have "missing_children get K p = probe"
  proof (cases "even (unat k)")
    case True
    have "k + 1 \<in> K \<longleftrightarrow> pair"
    proof
      assume "k + 1 \<in> K"
      then have "k + 1 \<in> set (k # ks)" using mem [of "k + 1"] even_child(2) [OF True] by (simp add: p_def)
      then have "k + 1 \<in> set ks" by simp
      then obtain k' ks' where ks: "ks = k' # ks'" and m: "k + 1 = k' \<or> k' < k + 1"
        using inc by (cases ks) (auto simp: strictly_increasing_Cons)
      have "k < k'" using gt by (simp add: ks)
      then have "k + 1 \<le> k'" by (rule inc_le)
      then show pair using True m by (auto simp: pair_def and_1_eq_0 ks)
    next
      assume pair
      then have "k + 1 \<in> set ks" by (cases ks) (simp_all add: pair_def)
      then show "k + 1 \<in> K" using "2.prems"(2) by auto
    qed
    then show ?thesis
      using True "2.prems"(2) even_child(1) [OF True] by (simp add: missing_children_def probe_def p_def)
  next
    case False
    have "1 \<le> k" using False by (simp add: word_le_nat_alt odd_pos Suc_leI)
    then have "k - 1 < k" by (simp add: word_less_nat_alt odd_pred_unat [OF False] odd_pos [OF False])
    have "k - 1 \<notin> K"
    proof
      assume "k - 1 \<in> K"
      then have "k - 1 \<in> set (k # ks)" by (rule mem) (simp add: p_def odd_child(2) [OF False] del: One_nat_def)
      then show False using gt [of "k - 1"] \<open>k - 1 < k\<close> by auto
    qed
    moreover have "\<not> pair" using False by (simp add: pair_def and_1_eq_0)
    ultimately show ?thesis
      using False "2.prems"(2) odd_child(1) [OF False] by (simp add: missing_children_def probe_def p_def)
  qed
  then show ?case unfolding f s using ih by simp
qed simp

lemma known_levels_collect:
  "strictly_increasing ks \<Longrightarrow> known_levels get levels (set ks) = collect_levels get levels ks"
proof (induction levels arbitrary: ks)
  case (Cons level levels)
  let ?next = "fst (collect_level (get level) ks)"
  have inc: "strictly_increasing ?next" by (rule collect_level_increasing [OF Cons.prems])
  then have "sorted ?next" "distinct ?next"
    by (auto simp: strictly_increasing_sorted strict_sorted_iff)
  then have "sorted_list_of_set ((\<lambda>idx. idx div 2) ` set ks) = ?next"
    unfolding div_2_word collect_level_parents [of "get level", symmetric]
    by (rule sorted_list_of_set.idem_if_sorted_distinct)
  moreover have "(\<lambda>idx. idx div 2) ` set ks = set ?next"
    by (simp add: div_2_word collect_level_parents)
  ultimately show ?case
    using Cons.IH [OF inc] collect_level_sets [OF Cons.prems order_refl, of "get level"]
    by (simp add: Let_def split_beta)
qed simp

section \<open>The SSZ tree\<close>

text \<open>The leaves a list of roots stands for.\<close>

definition ssz_leaf :: "bytes32 list \<Rightarrow> nat \<Rightarrow> bytes32" where
  "ssz_leaf roots i = (if i < length roots then roots ! i else zero32)"

definition ssz_tree_leaf :: "ssz_tree \<Rightarrow> nat \<Rightarrow> bytes32" where
  "ssz_tree_leaf t i = (if i < 2 ^ st_dense_depth t then st_levels t ! 0 ! i else zero32)"

definition ssz_tree_ok :: "zisk \<Rightarrow> ssz_tree \<Rightarrow> bool" where
  "ssz_tree_ok Z t \<longleftrightarrow> st_dense_depth t \<le> st_depth t \<and>
     st_zero_hashes t = ssz_zero_hashes Z (st_depth t) \<and>
     (\<forall>l\<le> st_dense_depth t. st_levels t ! l =
        map (level_node (sha256_pair Z) (ssz_tree_leaf t) l) [0..<2 ^ (st_dense_depth t - l)])"

lemma ssz_zero_hashes_nth: "d \<le> depth \<Longrightarrow> ssz_zero_hashes Z depth ! d = zero_node (sha256_pair Z) zero32 d"
  by (simp add: ssz_zero_hashes_def nth_append del: upt_Suc)

interpretation ssz_source: dense_store "sha256_pair Z" zero32 get_node_hash ssz_tree_leaf st_depth
  st_dense_depth "ssz_tree_ok Z" for Z :: zisk
proof
  fix t and l :: nat and k :: u64
  assume ok: "ssz_tree_ok Z t"
  show "st_dense_depth t \<le> st_depth t" using ok by (simp add: ssz_tree_ok_def)
  show "2 ^ st_dense_depth t \<le> i \<Longrightarrow> ssz_tree_leaf t i = zero32" for i
    by (simp add: ssz_tree_leaf_def)
  show "l < st_dense_depth t \<Longrightarrow> unat k < 2 ^ (st_dense_depth t - l) \<Longrightarrow>
      get_node_hash t l k = level_node (sha256_pair Z) (ssz_tree_leaf t) l (unat k)"
    using ok by (simp add: get_node_hash_def ssz_tree_ok_def)
  show "st_dense_depth t \<le> l \<Longrightarrow> l < st_depth t \<Longrightarrow>
      get_node_hash t l k = zero_node (sha256_pair Z) zero32 l"
    using ok by (simp add: get_node_hash_def ssz_tree_ok_def ssz_zero_hashes_nth)
qed

lemma ssz_tree_root_eq:
  assumes "ssz_tree_ok Z t"
  shows "ssz_tree_root Z t = tree_root (sha256_pair Z) (ssz_tree_leaf t) (st_depth t)"
proof -
  have z: "ssz_tree_leaf t i = zero32" if "2 ^ st_dense_depth t \<le> i" for i
    using that by (simp add: ssz_tree_leaf_def)
  have "st_levels t ! st_dense_depth t ! 0 =
      level_node (sha256_pair Z) (ssz_tree_leaf t) (st_dense_depth t) 0"
    using assms by (simp add: ssz_tree_ok_def)
  then show ?thesis
    unfolding ssz_tree_root_def using assms
    by (simp only:) (rule sparse_root_tree [OF z],
      simp_all add: ssz_tree_ok_def ssz_zero_hashes_nth)
qed

lemma ssz_dense_depth_fits:
  assumes "n \<le> 2 ^ depth"
  shows "n \<le> 2 ^ ssz_dense_depth n depth"
proof (cases "ssz_dense_depth n depth = depth")
  case False
  then have "n = 0 \<or> ceil_log2 n \<le> ssz_dense_depth n depth"
    by (auto simp: ssz_dense_depth_def min_def max_def split: if_splits)
  then have "n = 0 \<or> (2 :: nat) ^ ceil_log2 n \<le> 2 ^ ssz_dense_depth n depth"
    by (auto intro: power_increasing)
  then show ?thesis using ceil_log2_bound [of n] by (auto intro: order_trans)
qed (use assms in simp)

lemma dense_leaves_Inr:
  "length roots \<le> n \<Longrightarrow> dense_leaves n roots = Inr (map (ssz_leaf roots) [0..<n])"
  by (auto simp: dense_leaves_def ssz_leaf_def nth_append intro!: nth_equalityI)

lemma ssz_tree_build_ok:
  assumes "length roots \<le> 2 ^ depth"
  obtains t where "ssz_tree_build Z roots depth = Inr t" "ssz_tree_ok Z t" "st_depth t = depth"
    "st_dense_depth t = ssz_dense_depth (length roots) depth" "ssz_tree_leaf t = ssz_leaf roots"
proof -
  let ?d = "ssz_dense_depth (length roots) depth"
  let ?leaves = "map (ssz_leaf roots) [0..<2 ^ ?d]"
  define t where "t = \<lparr>st_levels = build_levels (sha256_pair Z) ?d ?leaves,
    st_zero_hashes = ssz_zero_hashes Z depth, st_dense_depth = ?d, st_depth = depth\<rparr>"
  note fits = ssz_dense_depth_fits [OF assms]
  have leaves: "?leaves = map (level_node (sha256_pair Z) (ssz_leaf roots) 0) [0..<2 ^ ?d]"
    by (simp add: level_node_0)
  have lev: "st_levels t ! l = map (level_node (sha256_pair Z) (ssz_leaf roots) l) [0..<2 ^ (?d - l)]"
    if "l \<le> ?d" for l
    using build_levels_nth [OF leaves that] by (simp add: t_def)
  have eq: "ssz_tree_leaf t = ssz_leaf roots"
  proof
    fix i
    show "ssz_tree_leaf t i = ssz_leaf roots i"
      using lev [of 0] fits by (auto simp: ssz_tree_leaf_def level_node_0 t_def ssz_leaf_def)
  qed
  show thesis
  proof (rule that)
    show "ssz_tree_build Z roots depth = Inr t"
      by (simp add: ssz_tree_build_def dense_leaves_Inr [OF fits] t_def Let_def)
    show "ssz_tree_ok Z t"
      using lev unfolding ssz_tree_ok_def eq by (simp add: t_def ssz_dense_depth_def)
    show "ssz_tree_leaf t = ssz_leaf roots" by (rule eq)
  qed (simp_all add: t_def)
qed

text \<open>
  The root is the root of the full tree over the roots and zeros, and the multi-proof of listed
  positions below the stored capacity is accepted by the guest's verifier with that root.
\<close>

lemma build_validators_ssz_tree_Inr:
  assumes "length roots \<le> 2 ^ depth"
  obtains aux where "build_validators_ssz_tree Z roots depth idx =
      Inr (tree_root (sha256_pair Z) (ssz_leaf roots) depth, aux)"
    "idx \<noteq> [] \<Longrightarrow> strictly_increasing idx \<Longrightarrow>
      \<forall>k\<in>set idx. unat k < 2 ^ ssz_dense_depth (length roots) depth \<Longrightarrow>
      verify_ssz_multi_proof Z (map (\<lambda>k. (ssz_leaf roots (unat k), k)) idx) aux depth =
        Inr (tree_root (sha256_pair Z) (ssz_leaf roots) depth)"
proof -
  obtain t where t: "ssz_tree_build Z roots depth = Inr t" "ssz_tree_ok Z t" "st_depth t = depth"
    "st_dense_depth t = ssz_dense_depth (length roots) depth" "ssz_tree_leaf t = ssz_leaf roots"
    using ssz_tree_build_ok [OF assms] by blast
  show thesis
  proof (rule that)
    show "build_validators_ssz_tree Z roots depth idx = Inr (tree_root (sha256_pair Z) (ssz_leaf roots) depth,
        known_levels (get_node_hash t) [0..<depth] (set idx))"
      using ssz_tree_root_eq [OF t(2)] t by (simp add: build_validators_ssz_tree_def)
    assume "idx \<noteq> []" "strictly_increasing idx"
      "\<forall>k\<in>set idx. unat k < 2 ^ ssz_dense_depth (length roots) depth"
    then show "verify_ssz_multi_proof Z (map (\<lambda>k. (ssz_leaf roots (unat k), k)) idx)
        (known_levels (get_node_hash t) [0..<depth] (set idx)) depth =
      Inr (tree_root (sha256_pair Z) (ssz_leaf roots) depth)"
      using ssz_source.collected_verifies [OF t(2), of idx]
      by (auto simp: t(3-5) below_dense_def verify_ssz_multi_proof_def known_levels_collect
          level_node_tree_root)
  qed
qed

end
