(* ===== verification/SszFields.thy ===== *)
theory SszFields
  imports StateDiff
begin

text \<open>
  \<open>crates/witness-gen/src/ssz_state.rs\<close>, the hash tree roots: merkleization of chunks
  (\<open>merkleize_chunks\<close>) and the root of every field of a \<open>BeaconState\<close> from its serialized bytes.

  A slice \<open>&data[a..b]\<close> is \<open>slice_at\<close>, which is \<open>Inl\<close> where Rust panics. The lemmas: the
  merkleization is the root of the full tree over the chunks and zeros; a header's root is the root
  the guests compute; the root of the serialized registry is the root the epoch diff builds from the
  node's answers.
\<close>

datatype state_panic =
    SliceOutOfRange
  | IndexOutOfRange
  | ChunkOutOfBounds ssz_tree_panic
  | UnexpectedFieldIndex nat
  | StateTooSmall
  | StateDoesNotRecordSlot

section \<open>Slices\<close>

definition slice_at :: "bytes \<Rightarrow> nat \<Rightarrow> nat \<Rightarrow> state_panic + bytes" where
  "slice_at data a b = ensure (a \<le> b \<and> b \<le> length data) SliceOutOfRange (Inr (take (b - a) (drop a data)))"

fun map_res :: "('a \<Rightarrow> 'e + 'b) \<Rightarrow> 'a list \<Rightarrow> 'e + 'b list" where
  "map_res f [] = Inr []"
| "map_res f (x # xs) = bind_res (f x) (\<lambda>y. bind_res (map_res f xs) (\<lambda>ys. Inr (y # ys)))"

section \<open>Merkleization\<close>

definition merkleize_chunks :: "zisk \<Rightarrow> bytes32 list \<Rightarrow> nat \<Rightarrow> state_panic + bytes32" where
  "merkleize_chunks Z cs depth =
     (if depth = 0 then Inr (if cs = [] then zero32 else hd cs)
      else
        (let zeros = ssz_zero_hashes Z depth in
         if cs = [] then Inr (zeros ! depth)
         else
           (let dense = min (max (ceil_log2 (length cs)) 1) depth in
            bind_res (map_err ChunkOutOfBounds (dense_leaves (2 ^ dense) cs)) (\<lambda>leaves.
            let top = ((pair_level (sha256_pair Z)) ^^ dense) leaves
            in Inr (sparse_root (sha256_pair Z) zeros (top ! 0) dense depth)))))"

definition merkleize_fixed_fields :: "zisk \<Rightarrow> bytes32 list \<Rightarrow> bytes32" where
  "merkleize_fixed_fields Z fs =
     (let n0 = sha256_pair Z (fs ! 0) (fs ! 1);
          n1 = sha256_pair Z (fs ! 2) (fs ! 3);
          n2 = sha256_pair Z (fs ! 4) (fs ! 5);
          n3 = sha256_pair Z (fs ! 6) (fs ! 7);
          n4 = sha256_pair Z n0 n1;
          n5 = sha256_pair Z n2 n3
      in sha256_pair Z n4 n5)"

definition mix_in_length :: "zisk \<Rightarrow> bytes32 \<Rightarrow> u64 \<Rightarrow> bytes32" where
  "mix_in_length Z data_root len =
     (let length_chunk = u64_to_le_bytes len @ replicate 24 0 in sha256_pair Z data_root length_chunk)"

section \<open>Primitives\<close>

definition pad_to_chunk :: "bytes \<Rightarrow> bytes32" where
  "pad_to_chunk data = (let len = min (length data) 32 in take len data @ replicate (32 - len) 0)"

text \<open>\<open>pad_to_chunk(&data[a..b])\<close> and \<open>htr_bytes32(&data[a..b])\<close>.\<close>

definition chunk_at :: "bytes \<Rightarrow> nat \<Rightarrow> nat \<Rightarrow> state_panic + bytes32" where
  "chunk_at data a b = bind_res (slice_at data a b) (\<lambda>s. Inr (pad_to_chunk s))"

definition htr_bytes32 :: "bytes \<Rightarrow> state_panic + bytes32" where
  "htr_bytes32 data = slice_at data 0 32"

definition bytes32_at :: "bytes \<Rightarrow> nat \<Rightarrow> nat \<Rightarrow> state_panic + bytes32" where
  "bytes32_at data a b = bind_res (slice_at data a b) htr_bytes32"

definition htr_uint64 :: "bytes \<Rightarrow> state_panic + bytes32" where
  "htr_uint64 data = bind_res (slice_at data 0 8) (\<lambda>s. Inr (s @ replicate 24 0))"

definition htr_bitvector4 :: "bytes \<Rightarrow> state_panic + bytes32" where
  "htr_bitvector4 data = ensure (0 < length data) IndexOutOfRange (Inr (data ! 0 # replicate 31 0))"

definition htr_bls_pubkey :: "zisk \<Rightarrow> bytes \<Rightarrow> state_panic + bytes32" where
  "htr_bls_pubkey Z data =
     bind_res (slice_at data 0 32) (\<lambda>chunk0.
     bind_res (slice_at data 32 48) (\<lambda>rest.
     Inr (sha256_pair Z chunk0 (rest @ replicate 16 0))))"

definition bls_pubkey_at :: "zisk \<Rightarrow> bytes \<Rightarrow> nat \<Rightarrow> nat \<Rightarrow> state_panic + bytes32" where
  "bls_pubkey_at Z data a b = bind_res (slice_at data a b) (htr_bls_pubkey Z)"

section \<open>Containers\<close>

text \<open>Three fields and a zero chunk, in a tree of four leaves.\<close>

definition htr_fork :: "zisk \<Rightarrow> bytes \<Rightarrow> state_panic + bytes32" where
  "htr_fork Z data =
     bind_res (chunk_at data 0 4) (\<lambda>previous_version.
     bind_res (chunk_at data 4 8) (\<lambda>current_version.
     bind_res (chunk_at data 8 16) (\<lambda>epoch.
     let n0 = sha256_pair Z previous_version current_version;
         n1 = sha256_pair Z epoch zero32
     in Inr (sha256_pair Z n0 n1))))"

definition htr_beacon_block_header :: "zisk \<Rightarrow> bytes \<Rightarrow> state_panic + bytes32" where
  "htr_beacon_block_header Z data =
     bind_res (chunk_at data 0 8) (\<lambda>slot.
     bind_res (chunk_at data 8 16) (\<lambda>proposer_index.
     bind_res (bytes32_at data 16 48) (\<lambda>parent_root.
     bind_res (bytes32_at data 48 80) (\<lambda>state_root.
     bind_res (bytes32_at data 80 112) (\<lambda>body_root.
     Inr (merkleize_fixed_fields Z
       [slot, proposer_index, parent_root, state_root, body_root, zero32, zero32, zero32]))))))"

definition htr_eth1_data :: "zisk \<Rightarrow> bytes \<Rightarrow> state_panic + bytes32" where
  "htr_eth1_data Z data =
     bind_res (bytes32_at data 0 32) (\<lambda>deposit_root.
     bind_res (chunk_at data 32 40) (\<lambda>deposit_count.
     bind_res (bytes32_at data 40 72) (\<lambda>block_hash.
     let n0 = sha256_pair Z deposit_root deposit_count;
         n1 = sha256_pair Z block_hash zero32
     in Inr (sha256_pair Z n0 n1))))"

definition htr_checkpoint :: "zisk \<Rightarrow> bytes \<Rightarrow> state_panic + bytes32" where
  "htr_checkpoint Z data =
     bind_res (chunk_at data 0 8) (\<lambda>epoch.
     bind_res (bytes32_at data 8 40) (\<lambda>root.
     Inr (sha256_pair Z epoch root)))"

definition htr_sync_committee :: "zisk \<Rightarrow> bytes \<Rightarrow> state_panic + bytes32" where
  "htr_sync_committee Z data =
     bind_res (map_res (\<lambda>i. let offset = i * 48 in bls_pubkey_at Z data offset (offset + 48)) [0..<512])
       (\<lambda>pubkey_htrs.
     bind_res (merkleize_chunks Z pubkey_htrs 9) (\<lambda>pubkeys_root.
     bind_res (bls_pubkey_at Z data 24576 24624) (\<lambda>agg_root.
     Inr (sha256_pair Z pubkeys_root agg_root))))"

definition htr_historical_summary :: "zisk \<Rightarrow> bytes \<Rightarrow> state_panic + bytes32" where
  "htr_historical_summary Z data =
     bind_res (bytes32_at data 0 32) (\<lambda>block_root.
     bind_res (bytes32_at data 32 64) (\<lambda>state_root.
     Inr (sha256_pair Z block_root state_root)))"

definition htr_bls_signature :: "zisk \<Rightarrow> bytes \<Rightarrow> state_panic + bytes32" where
  "htr_bls_signature Z data =
     bind_res (slice_at data 0 32) (\<lambda>chunk0.
     bind_res (slice_at data 32 64) (\<lambda>chunk1.
     bind_res (slice_at data 64 96) (\<lambda>chunk2.
     let n0 = sha256_pair Z chunk0 chunk1;
         n1 = sha256_pair Z chunk2 zero32
     in Inr (sha256_pair Z n0 n1))))"

definition htr_pending_deposit :: "zisk \<Rightarrow> bytes \<Rightarrow> state_panic + bytes32" where
  "htr_pending_deposit Z data =
     bind_res (bls_pubkey_at Z data 0 48) (\<lambda>pubkey.
     bind_res (bytes32_at data 48 80) (\<lambda>credentials.
     bind_res (chunk_at data 80 88) (\<lambda>amount.
     bind_res (bind_res (slice_at data 88 184) (htr_bls_signature Z)) (\<lambda>sig.
     bind_res (chunk_at data 184 192) (\<lambda>slot.
     Inr (merkleize_fixed_fields Z
       [pubkey, credentials, amount, sig, slot, zero32, zero32, zero32]))))))"

definition htr_pending_partial_withdrawal :: "zisk \<Rightarrow> bytes \<Rightarrow> state_panic + bytes32" where
  "htr_pending_partial_withdrawal Z data =
     bind_res (chunk_at data 0 8) (\<lambda>validator_index.
     bind_res (chunk_at data 8 16) (\<lambda>amount.
     bind_res (chunk_at data 16 24) (\<lambda>withdrawable.
     let n0 = sha256_pair Z validator_index amount;
         n1 = sha256_pair Z withdrawable zero32
     in Inr (sha256_pair Z n0 n1))))"

definition htr_pending_consolidation :: "zisk \<Rightarrow> bytes \<Rightarrow> state_panic + bytes32" where
  "htr_pending_consolidation Z data =
     bind_res (chunk_at data 0 8) (\<lambda>source.
     bind_res (chunk_at data 8 16) (\<lambda>target.
     Inr (sha256_pair Z source target)))"

section \<open>The execution payload header\<close>

definition eph_fixed_sizes :: "nat list" where
  "eph_fixed_sizes = [32, 20, 32, 32, 256, 32, 8, 8, 8, 8, 4, 32, 32, 32, 32, 8, 8]"

definition eph_range_step ::
  "bytes \<Rightarrow> nat \<times> (nat \<times> nat) list \<times> u32 \<Rightarrow> nat \<times> nat \<Rightarrow>
     state_panic + nat \<times> (nat \<times> nat) list \<times> u32" where
  "eph_range_step data st field =
     (let (cursor, fixed_ranges, extra_data_offset) = st; (i, size) = field in
      if i = 10 then
        bind_res (slice_at data cursor (cursor + 4)) (\<lambda>b.
        Inr (cursor + size, fixed_ranges @ [(0, 0)], of_le_bytes b))
      else Inr (cursor + size, fixed_ranges @ [(cursor, cursor + size)], extra_data_offset))"

definition htr_extra_data :: "zisk \<Rightarrow> bytes \<Rightarrow> bytes32" where
  "htr_extra_data Z field_data =
     (let count = length field_data; data_root = pad_to_chunk field_data;
          length_chunk = u64_to_le_bytes (of_nat count) @ replicate 24 0
      in sha256_pair Z data_root length_chunk)"

definition htr_logs_bloom :: "zisk \<Rightarrow> bytes \<Rightarrow> state_panic + bytes32" where
  "htr_logs_bloom Z field_data =
     bind_res (map_res (\<lambda>j. slice_at field_data (j * 32) ((j + 1) * 32)) [0..<8]) (\<lambda>cs.
     Inr (merkleize_fixed_fields Z cs))"

definition eph_field :: "zisk \<Rightarrow> nat \<Rightarrow> bytes \<Rightarrow> state_panic + bytes32" where
  "eph_field Z i field_data =
     (if i \<in> {0, 2, 3, 5, 12, 13, 14} then slice_at field_data 0 32
      else if i = 1 then Inr (pad_to_chunk field_data)
      else if i = 4 then htr_logs_bloom Z field_data
      else if i \<in> {6, 7, 8, 9, 15, 16} then Inr (pad_to_chunk field_data)
      else if i = 10 then Inr (htr_extra_data Z field_data)
      else slice_at field_data 0 32)"

definition htr_execution_payload_header_deneb :: "zisk \<Rightarrow> bytes \<Rightarrow> state_panic + bytes32" where
  "htr_execution_payload_header_deneb Z data =
     bind_res (fold_res (eph_range_step data) (0, [], 0) (enumerate 0 eph_fixed_sizes))
       (\<lambda>(_, fixed_ranges, extra_data_offset).
     let fixed_ranges = fixed_ranges[10 := (unat extra_data_offset, length data)] in
     bind_res (map_res (\<lambda>i. let (start, stop) = fixed_ranges ! i in
         bind_res (slice_at data start stop) (eph_field Z i)) [0..<17]) (\<lambda>fs.
     merkleize_chunks Z (fs @ replicate 15 zero32) 5))"

section \<open>Vectors and lists\<close>

definition root_chunks :: "bytes \<Rightarrow> nat \<Rightarrow> state_panic + bytes32 list" where
  "root_chunks data count = map_res (\<lambda>i. slice_at data (i * 32) ((i + 1) * 32)) [0..<count]"

definition htr_vector_roots :: "zisk \<Rightarrow> bytes \<Rightarrow> nat \<Rightarrow> state_panic + bytes32" where
  "htr_vector_roots Z data count =
     bind_res (root_chunks data count) (\<lambda>cs. merkleize_chunks Z cs (ceil_log2 count))"

definition gwei_chunk :: "bytes \<Rightarrow> nat \<Rightarrow> nat \<Rightarrow> state_panic + bytes32" where
  "gwei_chunk data count i =
     bind_res (map_res (\<lambda>j. let idx = i * 4 + j; offset = idx * 8 in
         if idx < count then slice_at data offset (offset + 8) else Inr (replicate 8 0)) [0..<4]) (\<lambda>ws.
     Inr (concat ws))"

definition div_ceil :: "nat \<Rightarrow> nat \<Rightarrow> nat" where
  "div_ceil n k = (n + k - 1) div k"

definition gwei_chunks :: "bytes \<Rightarrow> nat \<Rightarrow> state_panic + bytes32 list" where
  "gwei_chunks data count = map_res (gwei_chunk data count) [0..<div_ceil count 4]"

definition htr_vector_gwei :: "zisk \<Rightarrow> bytes \<Rightarrow> nat \<Rightarrow> state_panic + bytes32" where
  "htr_vector_gwei Z data count =
     bind_res (gwei_chunks data count) (\<lambda>cs.
     merkleize_chunks Z cs (ceil_log2 (div_ceil count 4)))"

definition htr_list_roots :: "zisk \<Rightarrow> bytes \<Rightarrow> nat \<Rightarrow> state_panic + bytes32" where
  "htr_list_roots Z data limit_log2 =
     (let count = length data div 32 in
      bind_res (root_chunks data count) (\<lambda>cs.
      bind_res (merkleize_chunks Z cs limit_log2) (\<lambda>data_root.
      Inr (mix_in_length Z data_root (of_nat count)))))"

text \<open>
  The five loops over items of a fixed size (\<open>htr_list_eth1_data\<close> and those that follow) have one
  body, with the size and the root of an item as parameters.
\<close>

definition htr_item_list ::
  "zisk \<Rightarrow> nat \<Rightarrow> (bytes \<Rightarrow> state_panic + bytes32) \<Rightarrow> bytes \<Rightarrow> nat \<Rightarrow> state_panic + bytes32" where
  "htr_item_list Z item_size htr_item data limit_log2 =
     (let count = length data div item_size in
      bind_res (map_res (\<lambda>i. let offset = i * item_size in
          bind_res (slice_at data offset (offset + item_size)) htr_item) [0..<count]) (\<lambda>htrs.
      bind_res (merkleize_chunks Z htrs limit_log2) (\<lambda>data_root.
      Inr (mix_in_length Z data_root (of_nat count)))))"

definition htr_list_eth1_data :: "zisk \<Rightarrow> bytes \<Rightarrow> nat \<Rightarrow> state_panic + bytes32" where
  "htr_list_eth1_data Z = htr_item_list Z 72 (htr_eth1_data Z)"

definition htr_list_pending_deposits :: "zisk \<Rightarrow> bytes \<Rightarrow> nat \<Rightarrow> state_panic + bytes32" where
  "htr_list_pending_deposits Z = htr_item_list Z 192 (htr_pending_deposit Z)"

definition htr_list_pending_partial_withdrawals :: "zisk \<Rightarrow> bytes \<Rightarrow> nat \<Rightarrow> state_panic + bytes32" where
  "htr_list_pending_partial_withdrawals Z = htr_item_list Z 24 (htr_pending_partial_withdrawal Z)"

definition htr_list_pending_consolidations :: "zisk \<Rightarrow> bytes \<Rightarrow> nat \<Rightarrow> state_panic + bytes32" where
  "htr_list_pending_consolidations Z = htr_item_list Z 16 (htr_pending_consolidation Z)"

definition htr_list_historical_summaries :: "zisk \<Rightarrow> bytes \<Rightarrow> nat \<Rightarrow> state_panic + bytes32" where
  "htr_list_historical_summaries Z = htr_item_list Z 64 (htr_historical_summary Z)"

definition htr_list_gwei :: "zisk \<Rightarrow> bytes \<Rightarrow> nat \<Rightarrow> state_panic + bytes32" where
  "htr_list_gwei Z data limit_log2 =
     (let count = length data div 8; chunk_depth = limit_log2 - 2 in
      bind_res (gwei_chunks data count) (\<lambda>cs.
      bind_res (merkleize_chunks Z cs chunk_depth) (\<lambda>data_root.
      Inr (mix_in_length Z data_root (of_nat count)))))"

definition htr_list_uint8 :: "zisk \<Rightarrow> bytes \<Rightarrow> nat \<Rightarrow> state_panic + bytes32" where
  "htr_list_uint8 Z data limit_log2 =
     (let count = length data; num_chunks = div_ceil count 32; chunk_depth = limit_log2 - 5 in
      bind_res (map_res (\<lambda>i. let start = i * 32; stop = min (start + 32) count in
          chunk_at data start stop) [0..<num_chunks]) (\<lambda>cs.
      bind_res (merkleize_chunks Z cs chunk_depth) (\<lambda>data_root.
      Inr (mix_in_length Z data_root (of_nat count)))))"

section \<open>Every field\<close>

fun bit_length :: "nat \<Rightarrow> nat" where
  "bit_length n = (if n = 0 then 0 else Suc (bit_length (n div 2)))"

declare bit_length.simps [simp del]

definition eth1_votes_limit_depth :: "chain_config \<Rightarrow> nat" where
  "eth1_votes_limit_depth config =
     (let limit = 64 * slots_per_epoch config in bit_length (unat (limit - 1)))"

definition compute_field_htr :: "zisk \<Rightarrow> nat \<Rightarrow> bytes \<Rightarrow> chain_config \<Rightarrow> state_panic + bytes32" where
  "compute_field_htr Z i data config =
     (if i \<in> {0, 2, 10, 25, 26, 28, 29, 30, 31, 32, 33} then htr_uint64 data
      else if i = 1 then htr_bytes32 data
      else if i = 3 then htr_fork Z data
      else if i = 4 then htr_beacon_block_header Z data
      else if i = 5 then htr_vector_roots Z data 8192
      else if i = 6 then htr_vector_roots Z data 8192
      else if i = 7 then htr_list_roots Z data 24
      else if i = 8 then htr_eth1_data Z data
      else if i = 9 then htr_list_eth1_data Z data (eth1_votes_limit_depth config)
      else if i = 12 then htr_list_gwei Z data 40
      else if i = 13 then htr_vector_roots Z data 65536
      else if i = 14 then htr_vector_gwei Z data 8192
      else if i \<in> {15, 16} then htr_list_uint8 Z data 40
      else if i = 17 then htr_bitvector4 data
      else if i \<in> {18, 19, 20} then htr_checkpoint Z data
      else if i = 21 then htr_list_gwei Z data 40
      else if i \<in> {22, 23} then htr_sync_committee Z data
      else if i = 24 then htr_execution_payload_header_deneb Z data
      else if i = 27 then htr_list_historical_summaries Z data 24
      else if i = 34 then htr_list_pending_deposits Z data 27
      else if i = 35 then htr_list_pending_partial_withdrawals Z data 27
      else if i = 36 then htr_list_pending_consolidations Z data 18
      else if i = 37 then htr_vector_gwei Z data 64
      else Inl (UnexpectedFieldIndex i))"

definition SSZ_VALIDATOR_SIZE :: nat where "SSZ_VALIDATOR_SIZE = 121"

definition validator_field_leaves :: "zisk \<Rightarrow> bytes \<Rightarrow> state_panic + bytes32 list" where
  "validator_field_leaves Z v =
     bind_res (bls_pubkey_at Z v 0 48) (\<lambda>pubkey_leaf.
     bind_res (bytes32_at v 48 80) (\<lambda>credentials.
     bind_res (chunk_at v 80 88) (\<lambda>balance.
     bind_res (chunk_at v 88 89) (\<lambda>slashed_leaf.
     bind_res (chunk_at v 89 97) (\<lambda>eligibility.
     bind_res (chunk_at v 97 105) (\<lambda>activation.
     bind_res (chunk_at v 105 113) (\<lambda>exit_leaf.
     bind_res (chunk_at v 113 121) (\<lambda>withdrawable.
     Inr [pubkey_leaf, credentials, balance, slashed_leaf, eligibility, activation, exit_leaf,
          withdrawable]))))))))"

definition compute_validators_htr :: "zisk \<Rightarrow> bytes \<Rightarrow> u64 \<Rightarrow> state_panic + bytes32" where
  "compute_validators_htr Z data num_validators =
     bind_res (map_res (\<lambda>i. let offset = i * SSZ_VALIDATOR_SIZE in
         bind_res (slice_at data offset (offset + SSZ_VALIDATOR_SIZE)) (\<lambda>v.
         bind_res (validator_field_leaves Z v) (\<lambda>fs.
         Inr (merkleize_fixed_fields Z fs)))) [0..<unat num_validators]) (\<lambda>roots.
     bind_res (merkleize_chunks Z roots 40) (\<lambda>data_root.
     Inr (mix_in_length Z data_root num_validators)))"

section \<open>Lemmas\<close>

lemma slice_at_Inr [simp]:
  "slice_at data a b = Inr s \<longleftrightarrow> a \<le> b \<and> b \<le> length data \<and> s = take (b - a) (drop a data)"
  by (auto simp: slice_at_def)

lemma length_slice: "slice_at data a b = Inr s \<Longrightarrow> length s = b - a"
  by auto

lemma map_res_Inr:
  "map_res f xs = Inr ys \<longleftrightarrow> length ys = length xs \<and> (\<forall>i<length xs. f (xs ! i) = Inr (ys ! i))"
proof (induction xs arbitrary: ys)
  case (Cons x xs)
  show ?case
  proof (cases ys)
    case (Cons y ys')
    then show ?thesis using Cons.IH [of ys'] by (auto simp: nth_Cons split: nat.splits)
  qed simp
qed auto

lemma map_res_upt:
  assumes "\<And>i. i < n \<Longrightarrow> f i = Inr (g i)"
  shows "map_res f [0..<n] = Inr (map g [0..<n])"
  using assms by (simp add: map_res_Inr)

lemma map_res_set: "map_res f xs = Inr ys \<Longrightarrow> y \<in> set ys \<Longrightarrow> \<exists>x\<in>set xs. f x = Inr y"
  by (fastforce simp: map_res_Inr in_set_conv_nth)

text \<open>Merkleization is the root of the full tree over the chunks and zeros.\<close>

lemma merkleize_chunks_tree:
  assumes "length cs \<le> 2 ^ depth"
  shows "merkleize_chunks Z cs depth = Inr (tree_root (sha256_pair Z) (ssz_leaf cs) depth)"
proof (cases "depth = 0 \<or> cs = []")
  case True
  then show ?thesis
  proof
    assume "depth = 0"
    then show ?thesis using assms
      by (cases cs) (simp_all add: merkleize_chunks_def ssz_leaf_def)
  next
    assume c: "cs = []"
    have "level_node (sha256_pair Z) (ssz_leaf cs) depth 0 = zero_node (sha256_pair Z) zero32 depth"
      by (rule level_node_zero [where n = 0]) (simp_all add: ssz_leaf_def c)
    then show ?thesis
      by (simp add: merkleize_chunks_def c ssz_zero_hashes_nth level_node_tree_root)
  qed
next
  case False
  let ?L = "ssz_leaf cs"
  define dense where "dense = min (max (ceil_log2 (length cs)) 1) depth"
  have dense: "dense = ssz_dense_depth (length cs) depth" "dense \<le> depth"
    using False by (simp_all add: dense_def ssz_dense_depth_def)
  note fits = ssz_dense_depth_fits [OF assms, folded dense(1)]
  have z: "?L i = zero32" if "2 ^ dense \<le> i" for i
    using that fits by (simp add: ssz_leaf_def)
  have "sparse_root (sha256_pair Z) (ssz_zero_hashes Z depth)
      (level_node (sha256_pair Z) ?L dense 0) dense depth = tree_root (sha256_pair Z) ?L depth"
    by (rule sparse_root_tree [OF z dense(2)]) (simp_all add: ssz_zero_hashes_nth)
  moreover have "min (max (ceil_log2 (length cs)) (Suc 0)) depth = dense" by (simp add: dense_def)
  ultimately show ?thesis
    using False dense_leaves_Inr [OF fits]
    by (simp add: merkleize_chunks_def pair_levels_tree_root level_node_tree_root)
qed

lemma merkleize_chunks_Inr:
  "merkleize_chunks Z cs depth = Inr r \<Longrightarrow> depth \<noteq> 0 \<Longrightarrow>
     length cs \<le> 2 ^ depth \<and> r = tree_root (sha256_pair Z) (ssz_leaf cs) depth"
proof -
  assume m: "merkleize_chunks Z cs depth = Inr r" "depth \<noteq> 0"
  have "length cs \<le> 2 ^ depth"
  proof (cases "cs = []")
    case False
    then have "length cs \<le> 2 ^ min (max (ceil_log2 (length cs)) 1) depth"
      using m by (auto simp: merkleize_chunks_def dense_leaves_def Let_def)
    also have "(2 :: nat) ^ min (max (ceil_log2 (length cs)) 1) depth \<le> 2 ^ depth"
      by (rule power_increasing) simp_all
    finally show ?thesis .
  qed simp
  then show ?thesis using m merkleize_chunks_tree [of cs depth Z] by simp
qed

lemma merkleize_fixed_fields_eq: "merkleize_fixed_fields Z fs = validator_hash_tree_root Z fs"
  by (simp add: merkleize_fixed_fields_def validator_hash_tree_root_def Let_def)

lemma mix_in_length_eq: "mix_in_length Z data_root len = list_hash_tree_root Z data_root len"
  by (simp add: mix_in_length_def list_hash_tree_root_def u64_to_chunk_def Let_def)

section \<open>Every root has 32 bytes\<close>

lemma length_tree_root_sha: "d \<noteq> 0 \<Longrightarrow> length (tree_root (sha256_pair Z) L d) = 32"
proof (induction d arbitrary: L)
  case (Suc d)
  then show ?case by (cases d) (simp_all add: parent_leaves_def)
qed simp

lemma length_merkleize_chunks: "merkleize_chunks Z cs d = Inr r \<Longrightarrow> d \<noteq> 0 \<Longrightarrow> length r = 32"
  using merkleize_chunks_Inr [of Z cs d r] length_tree_root_sha [of d Z "ssz_leaf cs"] by simp

lemma ceil_log2_pos: "1 < n \<Longrightarrow> ceil_log2 n \<noteq> 0"
  by (subst ceil_log2.simps) simp

lemma length_mix_in_length [simp]: "length (mix_in_length Z r n) = 32"
  by (simp add: mix_in_length_def)

lemma length_merkleize_fixed_fields [simp]: "length (merkleize_fixed_fields Z fs) = 32"
  by (simp add: merkleize_fixed_fields_def Let_def)

lemma length_htr_vector_roots: "htr_vector_roots Z data n = Inr r \<Longrightarrow> 1 < n \<Longrightarrow> length r = 32"
  by (auto simp: htr_vector_roots_def dest!: length_merkleize_chunks [OF _ ceil_log2_pos])

lemma length_htr_vector_gwei: "htr_vector_gwei Z data n = Inr r \<Longrightarrow> 4 < n \<Longrightarrow> length r = 32"
  using ceil_log2_pos [of "div_ceil n 4"] length_merkleize_chunks
  by (fastforce simp: htr_vector_gwei_def div_ceil_def)

lemmas htr_list_defs = htr_item_list_def htr_list_eth1_data_def htr_list_pending_deposits_def
  htr_list_pending_partial_withdrawals_def htr_list_pending_consolidations_def
  htr_list_historical_summaries_def htr_list_gwei_def htr_list_uint8_def htr_list_roots_def

lemmas htr_container_defs = htr_uint64_def htr_bytes32_def htr_bitvector4_def htr_fork_def
  htr_beacon_block_header_def htr_eth1_data_def htr_checkpoint_def htr_sync_committee_def

lemma length_htr_payload:
  "htr_execution_payload_header_deneb Z data = Inr r \<Longrightarrow> length r = 32"
  unfolding htr_execution_payload_header_deneb_def
  by (auto simp: Let_def dest!: length_merkleize_chunks)

lemma length_compute_field_htr:
  assumes "compute_field_htr Z i data config = Inr h"
  shows "length h = 32"
proof -
  have lists:
    "htr_list_eth1_data Z data n = Inr r \<Longrightarrow> length r = 32"
    "htr_list_gwei Z data n = Inr r \<Longrightarrow> length r = 32"
    "htr_list_uint8 Z data n = Inr r \<Longrightarrow> length r = 32"
    "htr_list_roots Z data n = Inr r \<Longrightarrow> length r = 32"
    "htr_list_historical_summaries Z data n = Inr r \<Longrightarrow> length r = 32"
    "htr_list_pending_deposits Z data n = Inr r \<Longrightarrow> length r = 32"
    "htr_list_pending_partial_withdrawals Z data n = Inr r \<Longrightarrow> length r = 32"
    "htr_list_pending_consolidations Z data n = Inr r \<Longrightarrow> length r = 32"
    for n r by (auto simp: htr_list_defs Let_def)
  have containers:
    "htr_uint64 data = Inr r \<Longrightarrow> length r = 32"
    "htr_bytes32 data = Inr r \<Longrightarrow> length r = 32"
    "htr_bitvector4 data = Inr r \<Longrightarrow> length r = 32"
    "htr_fork Z data = Inr r \<Longrightarrow> length r = 32"
    "htr_beacon_block_header Z data = Inr r \<Longrightarrow> length r = 32"
    "htr_eth1_data Z data = Inr r \<Longrightarrow> length r = 32"
    "htr_checkpoint Z data = Inr r \<Longrightarrow> length r = 32"
    "htr_sync_committee Z data = Inr r \<Longrightarrow> length r = 32"
    for r by (auto simp: htr_container_defs Let_def)
  show ?thesis
    using assms unfolding compute_field_htr_def
    by (auto simp only: sum.inject sum.distinct split: if_splits
        dest: lists containers length_htr_payload
          length_htr_vector_roots [where n = 8192, simplified]
          length_htr_vector_roots [where n = 65536, simplified]
          length_htr_vector_gwei [where n = 8192, simplified]
          length_htr_vector_gwei [where n = 64, simplified])
qed

end
