(* ===== verification/SszState.thy ===== *)
theory SszState
  imports SszFields
begin

text \<open>
  \<open>crates/witness-gen/src/ssz_state.rs\<close>, the parser: the byte range of every field of a serialized
  \<open>BeaconState\<close> (\<open>parse_field_ranges\<close>), the tree over the field roots, and the openings the circuits
  ask for: the registry against the state root (\<open>parse_state_proof\<close>) and what a state recorded of a
  slot in its two ring buffers (\<open>parse_boundary_proof\<close>).

  The specification is the serialization of a list of fields (\<open>encode_state\<close>), the container layout
  of SSZ. The lemmas: the parser finds every field of a serialized state; the sibling paths it
  returns recompute the root it returns, in the form the circuits check them.
\<close>

section \<open>Layout\<close>

definition STATE_TREE_LEAVES :: nat where "STATE_TREE_LEAVES = 64"
definition STATE_TREE_DEPTH :: nat where "STATE_TREE_DEPTH = 6"

definition VARIABLE_FIELD_INDICES :: "nat list" where
  "VARIABLE_FIELD_INDICES = [7, 9, 11, 12, 15, 16, 21, 24, 27, 34, 35, 36]"

definition BLOCK_ROOTS_INDEX :: nat where "BLOCK_ROOTS_INDEX = 5"
definition STATE_ROOTS_INDEX :: nat where "STATE_ROOTS_INDEX = 6"
definition HISTORICAL_ROOT_COUNT :: nat where
  "HISTORICAL_ROOT_COUNT = unat SLOTS_PER_HISTORICAL_ROOT"

definition FIELD_FIXED_SIZES_ELECTRA :: "nat list" where
  "FIELD_FIXED_SIZES_ELECTRA =
     [8, 32, 8, 16, 112, 262144, 262144, 4, 72, 4, 8, 4, 4, 2097152, 65536, 4, 4, 1, 40, 40, 40, 4,
      24624, 24624, 4, 8, 8, 4, 8, 8, 8, 8, 8, 8, 4, 4, 4]"

definition FULU_EXTRA_FIELD_SIZE :: nat where "FULU_EXTRA_FIELD_SIZE = 512"

definition field_count :: "consensus_fork \<Rightarrow> nat" where
  "field_count fork = (case fork of Electra \<Rightarrow> 37 | Fulu \<Rightarrow> 38)"

definition field_fixed_sizes :: "consensus_fork \<Rightarrow> nat list" where
  "field_fixed_sizes fork =
     (if fork = Fulu then FIELD_FIXED_SIZES_ELECTRA @ [FULU_EXTRA_FIELD_SIZE]
      else FIELD_FIXED_SIZES_ELECTRA)"

section \<open>Field ranges\<close>

definition range_step ::
  "bytes \<Rightarrow> nat \<times> (nat \<times> nat) list \<times> (nat \<times> u32) list \<Rightarrow> nat \<times> nat \<Rightarrow>
     state_panic + nat \<times> (nat \<times> nat) list \<times> (nat \<times> u32) list" where
  "range_step raw st field =
     (let (cursor, ranges, variable_offsets) = st; (i, size) = field in
      if i \<in> set VARIABLE_FIELD_INDICES then
        bind_res (slice_at raw cursor (cursor + 4)) (\<lambda>b.
        Inr (cursor + size, ranges @ [(0, 0)], variable_offsets @ [(i, of_le_bytes b)]))
      else Inr (cursor + size, ranges @ [(cursor, cursor + size)], variable_offsets))"

fun set_variable_ranges :: "nat \<Rightarrow> (nat \<times> u32) list \<Rightarrow> (nat \<times> nat) list \<Rightarrow> (nat \<times> nat) list" where
  "set_variable_ranges len [] ranges = ranges"
| "set_variable_ranges len ((field_idx, start) # rest) ranges =
     (let stop = (case rest of [] \<Rightarrow> len | (_, next) # _ \<Rightarrow> unat next)
      in set_variable_ranges len rest (ranges[field_idx := (unat start, stop)]))"

definition parse_field_ranges :: "bytes \<Rightarrow> consensus_fork \<Rightarrow> state_panic + (nat \<times> nat) list" where
  "parse_field_ranges raw fork =
     (let sizes = field_fixed_sizes fork; cnt = field_count fork; fixed_size = sum_list sizes in
      ensure (length raw \<ge> fixed_size) StateTooSmall
     (bind_res (fold_res (range_step raw) (0, [], []) (take cnt (enumerate 0 sizes)))
       (\<lambda>(_, ranges, variable_offsets).
      Inr (set_variable_ranges (length raw) (sort_key snd variable_offsets) ranges))))"

definition field_bytes :: "bytes \<Rightarrow> (nat \<times> nat) list \<Rightarrow> nat \<Rightarrow> state_panic + bytes" where
  "field_bytes raw ranges i = slice_at raw (fst (ranges ! i)) (snd (ranges ! i))"

section \<open>The state tree\<close>

fun path_of_levels :: "'a list list \<Rightarrow> nat \<Rightarrow> 'a list" where
  "path_of_levels [] idx = []"
| "path_of_levels (level # levels) idx = level ! (idx XOR 1) # path_of_levels levels (drop_bit 1 idx)"

definition build_state_tree_and_extract ::
  "zisk \<Rightarrow> bytes32 list \<Rightarrow> nat \<Rightarrow> bytes32 \<times> bytes32 list" where
  "build_state_tree_and_extract Z leaves index =
     (let levels = build_levels (sha256_pair Z) STATE_TREE_DEPTH leaves;
          root = levels ! STATE_TREE_DEPTH ! 0;
          siblings = path_of_levels (take STATE_TREE_DEPTH levels) index
      in (root, siblings))"

lemma length_pair_level [simp]: "length (pair_level f xs) = length xs div 2"
  by (induction f xs rule: pair_level.induct) simp_all

function vector_levels ::
  "zisk \<Rightarrow> bytes32 list \<Rightarrow> nat \<Rightarrow> bytes32 list \<Rightarrow> state_panic + bytes32 \<times> bytes32 list" where
  "vector_levels Z level idx siblings =
     (if length level > 1 then
        ensure (idx XOR 1 < length level \<and> even (length level)) IndexOutOfRange
       (vector_levels Z (pair_level (sha256_pair Z) level) (drop_bit 1 idx)
          (siblings @ [level ! (idx XOR 1)]))
      else ensure (level \<noteq> []) IndexOutOfRange (Inr (level ! 0, siblings)))"
  by pat_completeness auto
termination
  by (relation "measure (\<lambda>(Z, level, idx, siblings). length level)") auto

declare vector_levels.simps [simp del]

definition vector_root_and_proof ::
  "zisk \<Rightarrow> bytes \<Rightarrow> nat \<Rightarrow> nat \<Rightarrow> state_panic + bytes32 \<times> bytes32 list" where
  "vector_root_and_proof Z data count index =
     bind_res (root_chunks data count) (\<lambda>level. vector_levels Z level index [])"

section \<open>Openings\<close>

record state_proof =
  stp_siblings :: "bytes32 list"
  stp_state_root :: bytes32

definition pad_field_roots :: "bytes32 list \<Rightarrow> bytes32 list" where
  "pad_field_roots htrs = htrs @ replicate (STATE_TREE_LEAVES - length htrs) zero32"

definition parse_state_proof ::
  "zisk \<Rightarrow> bytes \<Rightarrow> bytes32 \<Rightarrow> chain_config \<Rightarrow> u64 \<Rightarrow> state_panic + state_proof" where
  "parse_state_proof Z raw validators_htr config slot =
     (let fork = fork_at_slot config slot; cnt = field_count fork in
      bind_res (parse_field_ranges raw fork) (\<lambda>ranges.
      bind_res (map_res (\<lambda>i. if i = 11 then Inr validators_htr
          else bind_res (field_bytes raw ranges i) (\<lambda>data. compute_field_htr Z i data config)) [0..<cnt])
        (\<lambda>htrs.
      let (state_root, siblings) = build_state_tree_and_extract Z (pad_field_roots htrs) 11
      in Inr \<lparr>stp_siblings = siblings, stp_state_root = state_root\<rparr>)))"

definition extract_slot :: "bytes \<Rightarrow> state_panic + u64" where
  "extract_slot raw = bind_res (slice_at raw 40 48) (\<lambda>b. Inr (u64_from_le_bytes b))"

definition compute_state_root ::
  "zisk \<Rightarrow> bytes \<Rightarrow> chain_config \<Rightarrow> state_panic + bytes32 \<times> u64" where
  "compute_state_root Z raw config =
     bind_res (extract_slot raw) (\<lambda>slot.
     let fork = fork_at_slot config slot; cnt = field_count fork in
     bind_res (parse_field_ranges raw fork) (\<lambda>ranges.
     bind_res (field_bytes raw ranges 11) (\<lambda>validators_data.
     let num_validators = of_nat (length validators_data div SSZ_VALIDATOR_SIZE) in
     bind_res (compute_validators_htr Z validators_data num_validators) (\<lambda>validators_htr.
     bind_res (map_res (\<lambda>i. if i = 11 then Inr validators_htr
         else bind_res (field_bytes raw ranges i) (\<lambda>data. compute_field_htr Z i data config)) [0..<cnt])
       (\<lambda>htrs.
     Inr (fst (build_state_tree_and_extract Z (pad_field_roots htrs) 11), num_validators))))))"

record boundary_proof =
  bp_state_root :: bytes32
  bp_block_root :: bytes32
  bp_boundary_state_root :: bytes32
  bp_block_roots_siblings :: "bytes32 list"
  bp_state_roots_siblings :: "bytes32 list"

definition ring_entry :: "bytes \<Rightarrow> (nat \<times> nat) list \<Rightarrow> nat \<Rightarrow> nat \<Rightarrow> state_panic + bytes32" where
  "ring_entry raw ranges ring field =
     (let start = fst (ranges ! field)
      in slice_at raw (start + ring * 32) (start + ring * 32 + 32))"

definition ring_proof ::
  "zisk \<Rightarrow> bytes \<Rightarrow> (nat \<times> nat) list \<Rightarrow> nat \<Rightarrow> nat \<Rightarrow> state_panic + bytes32 \<times> bytes32 list" where
  "ring_proof Z raw ranges ring field =
     bind_res (field_bytes raw ranges field) (\<lambda>data.
     vector_root_and_proof Z data HISTORICAL_ROOT_COUNT ring)"

definition boundary_field_htr ::
  "zisk \<Rightarrow> bytes \<Rightarrow> (nat \<times> nat) list \<Rightarrow> bytes32 \<Rightarrow> bytes32 \<Rightarrow> bytes32 option \<Rightarrow> chain_config \<Rightarrow> nat \<Rightarrow>
     state_panic + bytes32" where
  "boundary_field_htr Z raw ranges block_roots_htr state_roots_htr validators_htr config i =
     (if i = BLOCK_ROOTS_INDEX then Inr block_roots_htr
      else if i = STATE_ROOTS_INDEX then Inr state_roots_htr
      else if i = 11 then
        (case validators_htr of
           Some known \<Rightarrow> Inr known
         | None \<Rightarrow> bind_res (field_bytes raw ranges i) (\<lambda>data.
             compute_validators_htr Z data (of_nat (length data div SSZ_VALIDATOR_SIZE))))
      else bind_res (field_bytes raw ranges i) (\<lambda>data. compute_field_htr Z i data config))"

definition parse_boundary_proof ::
  "zisk \<Rightarrow> bytes \<Rightarrow> bytes32 option \<Rightarrow> chain_config \<Rightarrow> u64 \<Rightarrow> state_panic + boundary_proof" where
  "parse_boundary_proof Z raw validators_htr config slot =
     bind_res (extract_slot raw) (\<lambda>state_slot.
     ensure (slot < state_slot \<and> state_slot - slot \<le> SLOTS_PER_HISTORICAL_ROOT) StateDoesNotRecordSlot
    (let fork = fork_at_slot config state_slot; cnt = field_count fork in
     bind_res (parse_field_ranges raw fork) (\<lambda>ranges.
     let ring = unat (slot mod SLOTS_PER_HISTORICAL_ROOT) in
     bind_res (ring_proof Z raw ranges ring BLOCK_ROOTS_INDEX) (\<lambda>(block_roots_htr, block_siblings).
     bind_res (ring_proof Z raw ranges ring STATE_ROOTS_INDEX) (\<lambda>(state_roots_htr, state_siblings).
     bind_res (map_res (boundary_field_htr Z raw ranges block_roots_htr state_roots_htr validators_htr config)
       [0..<cnt]) (\<lambda>htrs.
     let (state_root, block_field_siblings) =
           build_state_tree_and_extract Z (pad_field_roots htrs) BLOCK_ROOTS_INDEX;
         (_, state_field_siblings) =
           build_state_tree_and_extract Z (pad_field_roots htrs) STATE_ROOTS_INDEX in
     bind_res (ring_entry raw ranges ring BLOCK_ROOTS_INDEX) (\<lambda>block_root.
     bind_res (ring_entry raw ranges ring STATE_ROOTS_INDEX) (\<lambda>boundary_state_root.
     Inr \<lparr>bp_state_root = state_root,
          bp_block_root = block_root,
          bp_boundary_state_root = boundary_state_root,
          bp_block_roots_siblings = block_siblings @ block_field_siblings,
          bp_state_roots_siblings = state_siblings @ state_field_siblings\<rparr>))))))))"

section \<open>What else is read off a state\<close>

definition validator_of_bytes :: "nat \<Rightarrow> bytes \<Rightarrow> validator_response" where
  "validator_of_bytes i v =
     \<lparr>vr_index = of_nat i,
      vr_pubkey = take 48 v,
      vr_effective_balance = u64_from_le_bytes (take 8 (drop 80 v)),
      vr_activation_epoch = u64_from_le_bytes (take 8 (drop 97 v)),
      vr_exit_epoch = u64_from_le_bytes (take 8 (drop 105 v)),
      withdrawal_credentials = take 32 (drop 48 v),
      slashed = (v ! 88 \<noteq> 0),
      activation_eligibility_epoch = u64_from_le_bytes (take 8 (drop 89 v)),
      withdrawable_epoch = u64_from_le_bytes (take 8 (drop 113 v))\<rparr>"

definition validators_of_bytes :: "bytes \<Rightarrow> state_panic + validator_response list" where
  "validators_of_bytes data =
     (let cnt = length data div SSZ_VALIDATOR_SIZE in
      map_res (\<lambda>i. let offset = i * SSZ_VALIDATOR_SIZE in
        bind_res (slice_at data offset (offset + SSZ_VALIDATOR_SIZE)) (\<lambda>v.
        Inr (validator_of_bytes i v))) [0..<cnt])"

definition extract_validators ::
  "bytes \<Rightarrow> chain_config \<Rightarrow> state_panic + validator_response list" where
  "extract_validators raw config =
     bind_res (extract_slot raw) (\<lambda>slot.
     bind_res (parse_field_ranges raw (fork_at_slot config slot)) (\<lambda>ranges.
     bind_res (field_bytes raw ranges 11) validators_of_bytes))"

definition extract_genesis_validators_root :: "bytes \<Rightarrow> state_panic + bytes32" where
  "extract_genesis_validators_root raw = slice_at raw 8 40"

definition extract_fork_version :: "bytes \<Rightarrow> state_panic + bytes" where
  "extract_fork_version raw = slice_at raw 52 56"

record header_response =
  hr_slot :: u64
  hr_proposer_index :: u64
  hr_state_root :: bytes32
  hr_parent_root :: bytes32
  hr_body_root :: bytes32

definition hr_root :: "zisk \<Rightarrow> header_response \<Rightarrow> bytes32" where
  "hr_root Z h =
     block_header_root Z (hr_slot h) (hr_proposer_index h) (hr_parent_root h) (hr_state_root h)
       (hr_body_root h)"

definition extract_header :: "bytes \<Rightarrow> chain_config \<Rightarrow> state_panic + header_response" where
  "extract_header raw config =
     bind_res (extract_slot raw) (\<lambda>state_slot.
     bind_res (parse_field_ranges raw (fork_at_slot config state_slot)) (\<lambda>ranges.
     let slot_start = fst (ranges ! 2) in
     bind_res (slice_at raw slot_start (slot_start + 8)) (\<lambda>slot.
     let hdr_start = fst (ranges ! 4) in
     bind_res (slice_at raw (hdr_start + 8) (hdr_start + 16)) (\<lambda>proposer_index.
     bind_res (slice_at raw (hdr_start + 16) (hdr_start + 48)) (\<lambda>parent_root.
     bind_res (slice_at raw (hdr_start + 80) (hdr_start + 112)) (\<lambda>body_root.
     Inr \<lparr>hr_slot = u64_from_le_bytes slot,
          hr_proposer_index = u64_from_le_bytes proposer_index,
          hr_state_root = zero32,
          hr_parent_root = parent_root,
          hr_body_root = body_root\<rparr>))))))"

section \<open>Paths\<close>

lemma nat_xor_1: "(n :: nat) XOR 1 = (if even n then n + 1 else n - 1)"
  by (auto simp: xor_Suc_0_eq elim!: oddE)

lemma half_less: "k < 2 ^ Suc d \<Longrightarrow> k div 2 < (2 :: nat) ^ d"
  by (simp add: less_mult_imp_div_less)

lemma path_of_levels_path:
  "k < 2 ^ d \<Longrightarrow>
     path_of_levels (take d (build_levels f d (map L [0..<2 ^ d]))) k = path_siblings f L d k"
proof (induction d arbitrary: k L)
  case (Suc d)
  have "pair_level f (map L [0..<2 ^ Suc d]) = map (parent_leaves f L) [0..<2 ^ d]"
    using pair_level_upt [of f L "2 ^ d"] by simp
  moreover have "k XOR 1 < 2 ^ Suc d"
    using Suc.prems by (auto simp: nat_xor_1 simp del: One_nat_def elim!: evenE)
  moreover have "drop_bit 1 k = k div 2" by (simp add: drop_bit_eq_div)
  ultimately show ?case
    using Suc half_less [OF Suc.prems] by (simp add: nat_xor_1 del: upt_Suc power_Suc One_nat_def)
qed simp

lemma build_state_tree:
  assumes "length leaves = 64" "index < 64"
  shows "build_state_tree_and_extract Z leaves index =
    (tree_root (sha256_pair Z) ((!) leaves) 6, path_siblings (sha256_pair Z) ((!) leaves) 6 index)"
proof -
  have l: "leaves = map ((!) leaves) [0..<2 ^ 6]"
    using assms(1) by (intro nth_equalityI) simp_all
  have "leaves = map (level_node (sha256_pair Z) ((!) leaves) 0) [0..<2 ^ 6]"
    unfolding level_node_def funpow_0 by (rule l)
  from build_levels_nth [OF this, of 6]
  have "build_levels (sha256_pair Z) 6 leaves ! 6 ! 0 = tree_root (sha256_pair Z) ((!) leaves) 6"
    by (simp add: level_node_tree_root)
  moreover have "path_of_levels (take 6 (build_levels (sha256_pair Z) 6 leaves)) index =
      path_siblings (sha256_pair Z) ((!) leaves) 6 index"
    using path_of_levels_path [of index 6 "sha256_pair Z" "(!) leaves"] assms(2) l by simp
  ultimately show ?thesis
    by (simp add: build_state_tree_and_extract_def STATE_TREE_DEPTH_def)
qed

lemma vector_levels_path:
  "k < 2 ^ d \<Longrightarrow> vector_levels Z (map L [0..<2 ^ d]) k ss =
     Inr (tree_root (sha256_pair Z) L d, ss @ path_siblings (sha256_pair Z) L d k)"
proof (induction d arbitrary: k L ss)
  case 0
  then show ?case by (subst vector_levels.simps) simp
next
  case (Suc d)
  have p: "pair_level (sha256_pair Z) (map L [0..<2 ^ Suc d]) = map (parent_leaves (sha256_pair Z) L) [0..<2 ^ d]"
    using pair_level_upt [of "sha256_pair Z" L "2 ^ d"] by simp
  have k: "k XOR 1 < 2 ^ Suc d"
    using Suc.prems by (auto simp: nat_xor_1 simp del: One_nat_def elim!: evenE)
  have "1 < (2 :: nat) ^ Suc d" by (rule one_less_power) simp_all
  then show ?case
    using Suc.IH half_less [OF Suc.prems] k p
    by (subst vector_levels.simps)
      (simp add: nat_xor_1 drop_bit_eq_div del: upt_Suc power_Suc One_nat_def)
qed

text \<open>An entry of a vector in a field: the two paths, one after the other.\<close>

lemma compute_root_two_paths:
  assumes "unat k div 2 ^ a < 2 ^ b" "M (unat k div 2 ^ a) = tree_root f L a"
    and "v = L (unat k mod 2 ^ a)"
  shows "compute_root f v k
      (path_siblings f L a (unat k mod 2 ^ a) @ path_siblings f M b (unat k div 2 ^ a)) =
    tree_root f M b"
proof -
  have "unat (drop_bit a k) = unat k div 2 ^ a" 
    unfolding unat_drop_bit_eq by (rule drop_bit_eq_div)
  then show ?thesis
    using compute_root_path_mod [of f v k L a]
      compute_root_path [of "drop_bit a k" b f "tree_root f L a" M] assms
    by (simp add: compute_root_append fun_upd_idem)
qed

section \<open>What the openings prove\<close>

text \<open>Every field of the tree recomputes its root along the path that is extracted.\<close>

lemma build_state_tree_opens:
  assumes "build_state_tree_and_extract Z leaves index = (root, siblings)" "length leaves = 64" "index < 64"
  shows "compute_root (sha256_pair Z) (leaves ! index) (of_nat index) siblings = root" "length siblings = 6"
proof -
  have r: "root = tree_root (sha256_pair Z) ((!) leaves) 6"
    "siblings = path_siblings (sha256_pair Z) ((!) leaves) 6 index"
    using assms(1) build_state_tree [OF assms(2,3)] by simp_all
  have "unat (of_nat index :: u64) = index" using assms(3) by (simp add: unat_of_nat)
  then show "compute_root (sha256_pair Z) (leaves ! index) (of_nat index) siblings = root"
    using compute_root_path [of "of_nat index :: u64" 6 "sha256_pair Z" "leaves ! index" "(!) leaves"] assms(3)
    by (simp add: r fun_upd_idem)
  show "length siblings = 6" by (simp add: r)
qed

lemma field_count_le: "field_count fork \<le> 38" "37 \<le> field_count fork"
  by (cases fork; simp add: field_count_def)+

lemma length_pad_field_roots: "length htrs \<le> 64 \<Longrightarrow> length (pad_field_roots htrs) = 64"
  by (simp add: pad_field_roots_def STATE_TREE_LEAVES_def)

lemma pad_field_roots_nth: "i < length htrs \<Longrightarrow> pad_field_roots htrs ! i = htrs ! i"
  by (simp add: pad_field_roots_def nth_append)

text \<open>A state proof opens the registry's root at the field the circuits read it from.\<close>

lemma parse_state_proof_opens:
  assumes "parse_state_proof Z raw validators_htr config slot = Inr p"
  shows "compute_ssz_merkle_root Z validators_htr BEACON_STATE_VALIDATORS_FIELD_INDEX (stp_siblings p) =
      stp_state_root p" "length (stp_siblings p) = 6"
proof -
  define cnt where "cnt = field_count (fork_at_slot config slot)"
  have cnt: "11 < cnt" "cnt \<le> 64" using field_count_le [of "fork_at_slot config slot"] by (simp_all add: cnt_def)
  from assms obtain ranges htrs where
    h: "map_res (\<lambda>i. if i = 11 then Inr validators_htr
          else bind_res (field_bytes raw ranges i) (\<lambda>data. compute_field_htr Z i data config)) [0..<cnt] = Inr htrs"
    and b: "build_state_tree_and_extract Z (pad_field_roots htrs) 11 = (stp_state_root p, stp_siblings p)"
    by (auto simp: parse_state_proof_def cnt_def Let_def split_beta prod_eq_iff)
  have len: "length htrs = cnt" and "htrs ! 11 = validators_htr" using h cnt by (auto simp: map_res_Inr)
  then have "pad_field_roots htrs ! 11 = validators_htr" using cnt by (simp add: pad_field_roots_nth)
  then show "compute_ssz_merkle_root Z validators_htr BEACON_STATE_VALIDATORS_FIELD_INDEX (stp_siblings p) =
      stp_state_root p" "length (stp_siblings p) = 6"
    using build_state_tree_opens [OF b length_pad_field_roots] len cnt
    by (simp_all add: compute_ssz_merkle_root_def BEACON_STATE_VALIDATORS_FIELD_INDEX_def)
qed

definition entry_of :: "bytes \<Rightarrow> nat \<Rightarrow> bytes32" where
  "entry_of data i = take 32 (drop (32 * i) data)"

lemma root_chunks_Inr:
  assumes "root_chunks data n = Inr cs"
  shows "cs = map (entry_of data) [0..<n]" "i < n \<Longrightarrow> 32 * i + 32 \<le> length data"
  using assms
  by (auto simp: root_chunks_def map_res_Inr entry_of_def mult.commute intro!: nth_equalityI)

lemma vector_root_and_proof_Inr:
  assumes "vector_root_and_proof Z data (2 ^ d) k = Inr (r, ss)" "k < 2 ^ d"
  shows "r = tree_root (sha256_pair Z) (entry_of data) d"
    and "ss = path_siblings (sha256_pair Z) (entry_of data) d k"
    and "32 * k + 32 \<le> length data"
proof -
  from assms(1) obtain cs where cs: "root_chunks data (2 ^ d) = Inr cs" and v: "vector_levels Z cs k [] = Inr (r, ss)"
    by (auto simp: vector_root_and_proof_def)
  from v vector_levels_path [OF assms(2), of Z "entry_of data" "[]"]
  show "r = tree_root (sha256_pair Z) (entry_of data) d"
    "ss = path_siblings (sha256_pair Z) (entry_of data) d k"
    unfolding root_chunks_Inr(1) [OF cs] by simp_all
  show "32 * k + 32 \<le> length data" by (rule root_chunks_Inr(2) [OF cs assms(2)])
qed

lemma ring_index:
  assumes "unat field < 64"
  shows "unat (field * SLOTS_PER_HISTORICAL_ROOT + slot mod SLOTS_PER_HISTORICAL_ROOT) div 2 ^ 13 = unat field"
    and "unat (field * SLOTS_PER_HISTORICAL_ROOT + slot mod SLOTS_PER_HISTORICAL_ROOT) mod 2 ^ 13 =
      unat (slot mod SLOTS_PER_HISTORICAL_ROOT)"
proof -
  have r: "unat (slot mod SLOTS_PER_HISTORICAL_ROOT) = unat slot mod 8192"
    by (simp add: SLOTS_PER_HISTORICAL_ROOT_def unat_mod_distrib)
  have "unat field * 8192 + unat slot mod 8192 < 2 ^ 64"
  proof -
    have "unat slot mod 8192 < 8192" by simp
    with assms have "unat field * 8192 + unat slot mod 8192 < 64 * 8192" by linarith
    then show ?thesis by simp
  qed
  then have "unat (field * SLOTS_PER_HISTORICAL_ROOT + slot mod SLOTS_PER_HISTORICAL_ROOT) =
      unat field * 8192 + unat slot mod 8192"
    using r by (simp add: SLOTS_PER_HISTORICAL_ROOT_def unat_word_ariths)
  then show "unat (field * SLOTS_PER_HISTORICAL_ROOT + slot mod SLOTS_PER_HISTORICAL_ROOT) div 2 ^ 13 = unat field"
    "unat (field * SLOTS_PER_HISTORICAL_ROOT + slot mod SLOTS_PER_HISTORICAL_ROOT) mod 2 ^ 13 =
      unat (slot mod SLOTS_PER_HISTORICAL_ROOT)"
    by (simp_all add: r)
qed

text \<open>One ring buffer: the entry, the path through the vector, the path through the state.\<close>

lemma ring_opens:
  assumes ring: "ring = unat (slot mod SLOTS_PER_HISTORICAL_ROOT)"
    and ringpf: "ring_proof Z raw ranges ring (unat field) = Inr (htr, vector_siblings)"
    and entry: "ring_entry raw ranges ring (unat field) = Inr e"
    and state: "build_state_tree_and_extract Z leaves (unat field) = (root, field_siblings)"
    and leaves: "length leaves = 64" "leaves ! unat field = htr" and field: "unat field < 64"
  shows "state_root_from_history Z field slot e (vector_siblings @ field_siblings) = Inr root"
proof -
  let ?k = "field * SLOTS_PER_HISTORICAL_ROOT + slot mod SLOTS_PER_HISTORICAL_ROOT"
  have r: "ring < 2 ^ 13" using ring by (simp add: SLOTS_PER_HISTORICAL_ROOT_def unat_mod_distrib)
  obtain data where data: "field_bytes raw ranges (unat field) = Inr data"
    and v: "vector_root_and_proof Z data (2 ^ 13) ring = Inr (htr, vector_siblings)"
    using ringpf by (auto simp: ring_proof_def HISTORICAL_ROOT_COUNT_def SLOTS_PER_HISTORICAL_ROOT_def)
  note vec = vector_root_and_proof_Inr [OF v r]
  have "e = entry_of data ring"
    using data entry vec(3)
    by (auto simp: field_bytes_def ring_entry_def entry_of_def Let_def take_drop min_def add.commute mult.commute)
  moreover note st = build_state_tree [OF leaves(1) field, of Z]
  ultimately have "compute_root (sha256_pair Z) e ?k (vector_siblings @ field_siblings) = root"
    using compute_root_two_paths [of ?k 13 6 "(!) leaves" "sha256_pair Z" "entry_of data" e,
        unfolded ring_index [OF field]] vec(1,2) state
    by (simp add: leaves(2) field ring)
  moreover have "length (vector_siblings @ field_siblings) = 19"
    using vec(2) build_state_tree_opens(2) [OF state leaves(1) field] by simp
  ultimately show ?thesis
    by (simp add: state_root_from_history_Inr compute_ssz_merkle_root_def SLOTS_PER_HISTORICAL_ROOT_def)
qed

text \<open>Both openings of a boundary recompute the root of the state they were read from.\<close>

lemma parse_boundary_proof_opens:
  assumes "parse_boundary_proof Z raw validators_htr config slot = Inr b"
  shows "state_root_from_history Z BLOCK_ROOTS_FIELD slot (bp_block_root b) (bp_block_roots_siblings b) =
      Inr (bp_state_root b)"
    and "state_root_from_history Z STATE_ROOTS_FIELD slot (bp_boundary_state_root b)
      (bp_state_roots_siblings b) = Inr (bp_state_root b)"
    and "\<exists>state_slot. extract_slot raw = Inr state_slot \<and> slot < state_slot \<and>
      state_slot - slot \<le> SLOTS_PER_HISTORICAL_ROOT"
proof -
  let ?ring = "unat (slot mod SLOTS_PER_HISTORICAL_ROOT)"
  let ?tree = "\<lambda>htrs. build_state_tree_and_extract Z (pad_field_roots htrs)"
  from assms obtain state_slot ranges bh bs sh ss htrs where
    slot: "extract_slot raw = Inr state_slot" "slot < state_slot"
      "state_slot - slot \<le> SLOTS_PER_HISTORICAL_ROOT"
    and blocks: "ring_proof Z raw ranges ?ring 5 = Inr (bh, bs)"
    and states: "ring_proof Z raw ranges ?ring 6 = Inr (sh, ss)"
    and htrs: "map_res (boundary_field_htr Z raw ranges bh sh validators_htr config)
      [0..<field_count (fork_at_slot config state_slot)] = Inr htrs"
    and be: "ring_entry raw ranges ?ring 5 = Inr (bp_block_root b)"
    and se: "ring_entry raw ranges ?ring 6 = Inr (bp_boundary_state_root b)"
    and b: "bp_state_root b = fst (?tree htrs 5)" "bp_block_roots_siblings b = bs @ snd (?tree htrs 5)"
      "bp_state_roots_siblings b = ss @ snd (?tree htrs 6)"
    unfolding parse_boundary_proof_def BLOCK_ROOTS_INDEX_def STATE_ROOTS_INDEX_def
    by (auto simp: Let_def split_beta)
  show "\<exists>state_slot. extract_slot raw = Inr state_slot \<and> slot < state_slot \<and>
      state_slot - slot \<le> SLOTS_PER_HISTORICAL_ROOT"
    using slot by blast
  define cnt where "cnt = field_count (fork_at_slot config state_slot)"
  have cnt: "6 < cnt" "cnt \<le> 64" using field_count_le [of "fork_at_slot config state_slot"] by (simp_all add: cnt_def)
  have len: "length htrs = cnt"
    and each: "\<And>i. i < cnt \<Longrightarrow> boundary_field_htr Z raw ranges bh sh validators_htr config i = Inr (htrs ! i)"
    using htrs unfolding cnt_def [symmetric] by (auto simp: map_res_Inr)
  have at: "htrs ! 5 = bh" "htrs ! 6 = sh"
    using each [of 5] each [of 6] cnt
    by (simp_all add: boundary_field_htr_def BLOCK_ROOTS_INDEX_def STATE_ROOTS_INDEX_def)
  have leaves: "length (pad_field_roots htrs) = 64" "pad_field_roots htrs ! 5 = bh" "pad_field_roots htrs ! 6 = sh"
    using cnt at by (simp_all add: length_pad_field_roots pad_field_roots_nth len)
  have same: "fst (?tree htrs 6) = fst (?tree htrs 5)" by (simp add: build_state_tree [OF leaves(1)])
  have f: "unat BLOCK_ROOTS_FIELD = 5" "unat STATE_ROOTS_FIELD = 6"
    by (simp_all add: BLOCK_ROOTS_FIELD_def STATE_ROOTS_FIELD_def)
  show "state_root_from_history Z BLOCK_ROOTS_FIELD slot (bp_block_root b) (bp_block_roots_siblings b) =
      Inr (bp_state_root b)"
    unfolding b
    by (rule ring_opens [OF refl, where raw = raw and ranges = ranges and field = BLOCK_ROOTS_FIELD,
          unfolded f, OF blocks be _ leaves(1,2)]) simp_all
  show "state_root_from_history Z STATE_ROOTS_FIELD slot (bp_boundary_state_root b)
      (bp_state_roots_siblings b) = Inr (bp_state_root b)"
    unfolding b same [symmetric]
    by (rule ring_opens [OF refl, where raw = raw and ranges = ranges and field = STATE_ROOTS_FIELD,
          unfolded f, OF states se _ leaves(1,3)]) simp_all
qed

section \<open>Two routes to the registry's root\<close>

lemma pad_to_chunk_u64: "length s = 8 \<Longrightarrow> pad_to_chunk s = u64_to_chunk (u64_from_le_bytes s)"
  by (simp add: pad_to_chunk_def u64_to_chunk_def u64_le_roundtrip_bytes)

lemma pad_to_chunk_flag:
  assumes "b \<in> {0, 1}"
  shows "pad_to_chunk [b] = u64_to_chunk (if b \<noteq> 0 then 1 else 0)"
proof -
  have "u64_to_le_bytes 1 = 1 # replicate 7 0" "u64_to_le_bytes 0 = replicate 8 0"
    by (simp_all add: u64_to_le_bytes_def le_bytes_def upt_rec numeral_eq_Suc)
  then show ?thesis using assms by (auto simp: pad_to_chunk_def u64_to_chunk_def numeral_eq_Suc)
qed

lemma slice_of_slice:
  "a \<le> b \<Longrightarrow> b \<le> length v \<Longrightarrow> bind_res (slice_at v a b) g = g (take (b - a) (drop a v))"
  by (simp add: slice_at_def)

text \<open>The leaves of a serialized validator are the leaves of the validator that is read off it.\<close>

lemma validator_leaves_agree:
  assumes "length v = 121" "v ! 88 \<in> {0, 1}"
  shows "validator_field_leaves Z v = Inr (validator_response_to_field_leaves Z (validator_of_bytes i v))"
proof -
  have "take 1 (drop 88 v) = [v ! 88]" using assms(1) by (simp add: take_Suc_conv_app_nth)
  then have flag: "pad_to_chunk (take (Suc 0) (drop 88 v)) = u64_to_chunk (if v ! 88 \<noteq> 0 then 1 else 0)"
    using pad_to_chunk_flag [OF assms(2)] by simp
  show ?thesis
    using assms(1) flag
    by (simp add: validator_field_leaves_def bls_pubkey_at_def htr_bls_pubkey_def bytes32_at_def htr_bytes32_def
        chunk_at_def slice_of_slice slice_at_def pad_to_chunk_u64 validator_of_bytes_def
        validator_response_to_field_leaves_def validator_response_to_pubkey_chunks_def take_drop min_def Let_def)
qed

lemma validators_roots_agree:
  assumes "length data div 121 \<le> 2 ^ 40"
    and "\<forall>i<length data div 121. data ! (i * 121 + 88) \<in> {0, 1}"
  obtains vs where "validators_of_bytes data = Inr vs" "length vs = length data div 121"
    "compute_validators_htr Z data (of_nat (length data div 121)) =
       Inr (list_hash_tree_root Z (tree_root (sha256_pair Z) (ssz_leaf (build_validator_roots Z vs)) 40)
         (of_nat (length data div 121)))"
proof -
  let ?n = "length data div 121"
  define item where "item i = take 121 (drop (i * 121) data)" for i
  define vs where "vs = map (\<lambda>i. validator_of_bytes i (item i)) [0..<?n]"
  have in_range: "i * 121 + 121 \<le> length data" if "i < ?n" for i
  proof -
    have "(i + 1) * 121 \<le> ?n * 121" using that by (intro mult_le_mono1) simp
    also have "\<dots> \<le> length data" by simp
    finally show ?thesis by simp
  qed
  have item: "slice_at data (i * 121) (i * 121 + 121) = Inr (item i)" "length (item i) = 121"
    "item i ! 88 \<in> {0, 1}" if "i < ?n" for i
    using in_range [OF that] assms(2) that by (simp_all add: item_def)
  have "validators_of_bytes data = Inr vs"
    unfolding validators_of_bytes_def SSZ_VALIDATOR_SIZE_def vs_def Let_def
    by (rule map_res_upt) (simp add: item)
  moreover have len: "length vs = ?n" by (simp add: vs_def)
  moreover have leaves: "validator_field_leaves Z (item i) =
      Inr (validator_response_to_field_leaves Z (validator_of_bytes i (item i)))" if "i < ?n" for i
    by (rule validator_leaves_agree [OF item(2,3) [OF that]])
  moreover have "map_res (\<lambda>i. let offset = i * 121 in bind_res (slice_at data offset (offset + 121)) (\<lambda>v.
      bind_res (validator_field_leaves Z v) (\<lambda>fs. Inr (merkleize_fixed_fields Z fs)))) [0..<?n] =
    Inr (build_validator_roots Z vs)"
    unfolding build_validator_roots_def vs_def map_map
    by (rule map_res_upt) (simp add: item(1) leaves merkleize_fixed_fields_eq)
  moreover have "unat (of_nat ?n :: u64) = ?n" using assms(1) by (simp add: unat_of_nat)
  moreover have "merkleize_chunks Z (build_validator_roots Z vs) 40 =
      Inr (tree_root (sha256_pair Z) (ssz_leaf (build_validator_roots Z vs)) 40)"
    by (rule merkleize_chunks_tree) (use assms(1) len in \<open>simp add: build_validator_roots_def\<close>)
  ultimately show thesis
    by (intro that [of vs]) (simp_all add: compute_validators_htr_def SSZ_VALIDATOR_SIZE_def mix_in_length_eq)
qed

text \<open>A serialized header hashes to the root the circuits compute of its fields.\<close>

lemma header_root_agrees:
  assumes "length data = 112"
  shows "htr_beacon_block_header Z data =
    Inr (block_header_root Z (u64_from_le_bytes (take 8 data)) (u64_from_le_bytes (take 8 (drop 8 data)))
      (take 32 (drop 16 data)) (take 32 (drop 48 data)) (take 32 (drop 80 data)))"
  using assms
  by (simp add: htr_beacon_block_header_def chunk_at_def bytes32_at_def htr_bytes32_def slice_of_slice slice_at_def
      pad_to_chunk_u64 merkleize_fixed_fields_def block_header_root_def take_drop min_def Let_def)

text \<open>Hashing the whole state gives the root of the state proof against the registry's root.\<close>

lemma compute_state_root_proof:
  assumes "compute_state_root Z raw config = Inr (root, n)" "extract_slot raw = Inr slot"
  obtains data vh p where "compute_validators_htr Z data (of_nat (length data div 121)) = Inr vh"
    "n = of_nat (length data div 121)"
    "bind_res (parse_field_ranges raw (fork_at_slot config slot)) (\<lambda>ranges. field_bytes raw ranges 11) = Inr data"
    "parse_state_proof Z raw vh config slot = Inr p" "stp_state_root p = root"
  using assms
  by (auto simp: compute_state_root_def parse_state_proof_def SSZ_VALIDATOR_SIZE_def Let_def split_beta)

end
