(* ===== verification/SszRoundtrip.thy ===== *)
theory SszRoundtrip
  imports SszState
begin

text \<open>
  The serialization of a \<open>BeaconState\<close> as SSZ defines it, and that the parser of
  \<open>crates/witness-gen/src/ssz_state.rs\<close> inverts it: the fixed part holds the fields of fixed size and
  the offsets of the others, whose bytes follow in the order of the fields. Of a serialized state the
  parser finds every field, and the state proof is the path through the tree of the field roots.
\<close>

definition is_variable :: "nat \<Rightarrow> bool" where
  "is_variable i \<longleftrightarrow> i \<in> set VARIABLE_FIELD_INDICES"

definition fixed_offset :: "consensus_fork \<Rightarrow> nat \<Rightarrow> nat" where
  "fixed_offset fork i = sum_list (take i (field_fixed_sizes fork))"

definition heap_offset :: "consensus_fork \<Rightarrow> bytes list \<Rightarrow> nat \<Rightarrow> nat" where
  "heap_offset fork fs i =
     sum_list (field_fixed_sizes fork) + sum_list (map (\<lambda>j. length (fs ! j)) (filter is_variable [0..<i]))"

definition fixed_part :: "consensus_fork \<Rightarrow> bytes list \<Rightarrow> nat \<Rightarrow> bytes" where
  "fixed_part fork fs i =
     (if is_variable i then le_bytes 4 (of_nat (heap_offset fork fs i) :: u32) else fs ! i)"

definition encode_state :: "consensus_fork \<Rightarrow> bytes list \<Rightarrow> bytes" where
  "encode_state fork fs =
     concat (map (fixed_part fork fs) [0..<field_count fork]) @
     concat (map ((!) fs) (filter is_variable [0..<field_count fork]))"

definition wf_fields :: "consensus_fork \<Rightarrow> bytes list \<Rightarrow> bool" where
  "wf_fields fork fs \<longleftrightarrow> length fs = field_count fork \<and>
     (\<forall>i<field_count fork. \<not> is_variable i \<longrightarrow> length (fs ! i) = field_fixed_sizes fork ! i) \<and>
     heap_offset fork fs (field_count fork) < 2 ^ 32"

section \<open>Sizes and offsets\<close>

lemma length_field_fixed_sizes: "length (field_fixed_sizes fork) = field_count fork"
  by (cases fork) (simp_all add: field_fixed_sizes_def FIELD_FIXED_SIZES_ELECTRA_def field_count_def)

lemma variable_size: "i < field_count fork \<Longrightarrow> is_variable i \<Longrightarrow> field_fixed_sizes fork ! i = 4"
  by (cases fork)
    (auto simp: is_variable_def VARIABLE_FIELD_INDICES_def field_fixed_sizes_def field_count_def
      FIELD_FIXED_SIZES_ELECTRA_def nth_append)

lemma length_fixed_part:
  "wf_fields fork fs \<Longrightarrow> i < field_count fork \<Longrightarrow> length (fixed_part fork fs i) = field_fixed_sizes fork ! i"
  by (simp add: fixed_part_def variable_size wf_fields_def)

lemma fixed_offset_Suc:
  "i < field_count fork \<Longrightarrow> fixed_offset fork (Suc i) = fixed_offset fork i + field_fixed_sizes fork ! i"
  by (simp add: fixed_offset_def take_Suc_conv_app_nth length_field_fixed_sizes)

lemma heap_offset_Suc:
  "heap_offset fork fs (Suc i) = heap_offset fork fs i + (if is_variable i then length (fs ! i) else 0)"
  by (simp add: heap_offset_def)

lemma heap_offset_mono: "i \<le> j \<Longrightarrow> heap_offset fork fs i \<le> heap_offset fork fs j"
  by (induction j) (auto simp: le_Suc_eq heap_offset_Suc)

lemma length_fixed_prefix:
  assumes "wf_fields fork fs" "n \<le> field_count fork"
  shows "length (concat (map (fixed_part fork fs) [0..<n])) = fixed_offset fork n"
  using assms(2)
proof (induction n)
  case (Suc n)
  then show ?case by (simp add: fixed_offset_Suc length_fixed_part [OF assms(1)])
qed (simp add: fixed_offset_def)

lemma fixed_offset_all: "fixed_offset fork (field_count fork) = sum_list (field_fixed_sizes fork)"
  by (simp add: fixed_offset_def flip: length_field_fixed_sizes)

lemma length_encode_state:
  assumes "wf_fields fork fs"
  shows "length (encode_state fork fs) = heap_offset fork fs (field_count fork)"
  using length_fixed_prefix [OF assms order_refl]
  by (simp add: encode_state_def fixed_offset_all heap_offset_def length_concat comp_def)

section \<open>Where the parts lie\<close>

lemma slice_middle:
  "length as = n \<Longrightarrow> length x = m - n \<Longrightarrow> n \<le> m \<Longrightarrow> slice_at (as @ x @ bs) n m = Inr x"
  by auto

lemma upt_split: "i < n \<Longrightarrow> [0..<n] = [0..<i] @ i # [Suc i..<n]"
  by (metis append_Cons append_Nil less_imp_le upt_conv_Cons upt_add_eq_append le0 le_add_diff_inverse)

lemma slice_fixed:
  assumes "wf_fields fork fs" "i < field_count fork"
  shows "slice_at (encode_state fork fs) (fixed_offset fork i) (fixed_offset fork (Suc i)) =
    Inr (fixed_part fork fs i)"
proof -
  have "encode_state fork fs = concat (map (fixed_part fork fs) [0..<i]) @ fixed_part fork fs i @
      concat (map (fixed_part fork fs) [Suc i..<field_count fork]) @
      concat (map ((!) fs) (filter is_variable [0..<field_count fork]))"
    by (simp add: encode_state_def upt_split [OF assms(2)])
  then show ?thesis
    using assms by (simp only:) (rule slice_middle,
      simp_all add: length_fixed_prefix fixed_offset_Suc length_fixed_part)
qed

lemma slice_heap:
  assumes "wf_fields fork fs" "i < field_count fork" "is_variable i"
  shows "slice_at (encode_state fork fs) (heap_offset fork fs i) (heap_offset fork fs (Suc i)) = Inr (fs ! i)"
proof -
  let ?pre = "concat (map (fixed_part fork fs) [0..<field_count fork]) @
    concat (map ((!) fs) (filter is_variable [0..<i]))"
  have "filter is_variable [0..<field_count fork] =
      filter is_variable [0..<i] @ i # filter is_variable [Suc i..<field_count fork]"
    using assms(3) by (subst upt_split [OF assms(2)]) simp
  then have "encode_state fork fs = ?pre @ fs ! i @
      concat (map ((!) fs) (filter is_variable [Suc i..<field_count fork]))"
    by (simp add: encode_state_def)
  moreover have "length ?pre = heap_offset fork fs i"
    using length_fixed_prefix [OF assms(1) order_refl]
    by (simp add: heap_offset_def fixed_offset_all length_concat comp_def)
  ultimately show ?thesis
    using assms(3) by (simp only:) (rule slice_middle, simp_all add: heap_offset_Suc)
qed

section \<open>The parser\<close>

lemma range_step_variable:
  "is_variable i \<Longrightarrow> range_step raw (cursor, ranges, offs) (i, sz) =
     bind_res (slice_at raw cursor (cursor + 4)) (\<lambda>b.
       Inr (cursor + sz, ranges @ [(0, 0)], offs @ [(i, of_le_bytes b)]))"
  by (simp add: range_step_def is_variable_def)

lemma range_step_fixed:
  "\<not> is_variable i \<Longrightarrow> range_step raw (cursor, ranges, offs) (i, sz) =
     Inr (cursor + sz, ranges @ [(cursor, cursor + sz)], offs)"
  by (simp add: range_step_def is_variable_def)

lemma fold_range_step:
  assumes "wf_fields fork fs" "n \<le> field_count fork"
  shows "fold_res (range_step (encode_state fork fs)) (0, [], []) (take n (enumerate 0 (field_fixed_sizes fork))) =
    Inr (fixed_offset fork n,
         map (\<lambda>i. if is_variable i then (0, 0) else (fixed_offset fork i, fixed_offset fork (Suc i))) [0..<n],
         map (\<lambda>i. (i, of_nat (heap_offset fork fs i))) (filter is_variable [0..<n]))"
  using assms(2)
proof (induction n)
  case 0
  then show ?case by (simp add: fixed_offset_def)
next
  case (Suc n)
  then have n: "n < field_count fork" by simp
  have t: "take (Suc n) (enumerate 0 (field_fixed_sizes fork)) =
      take n (enumerate 0 (field_fixed_sizes fork)) @ [(n, field_fixed_sizes fork ! n)]"
    using n by (subst take_Suc_conv_app_nth) (simp_all add: length_field_fixed_sizes nth_enumerate_eq)
  show ?case
  proof (cases "is_variable n")
    case True
    have "slice_at (encode_state fork fs) (fixed_offset fork n) (fixed_offset fork n + 4) =
        Inr (le_bytes 4 (of_nat (heap_offset fork fs n) :: u32))"
      using slice_fixed [OF assms(1) n] variable_size [OF n True] True
      by (simp add: fixed_offset_Suc [OF n] fixed_part_def)
    moreover have "of_le_bytes (le_bytes 4 (of_nat (heap_offset fork fs n) :: u32)) =
        (of_nat (heap_offset fork fs n) :: u32)"
      by (rule of_le_bytes_le_bytes) simp
    ultimately show ?thesis
      using True Suc.IH n
      by (simp add: t fold_res_append range_step_variable fixed_offset_Suc del: slice_at_Inr)
  next
    case False
    then show ?thesis
      using Suc.IH n by (simp add: t fold_res_append range_step_fixed fixed_offset_Suc)
  qed
qed

text \<open>The bytes of a variable field end where those of the next one begin.\<close>

lemma next_offset:
  "m \<le> n \<Longrightarrow> (case filter is_variable [m..<n] of [] \<Rightarrow> heap_offset fork fs n | k # ks \<Rightarrow> heap_offset fork fs k) =
     heap_offset fork fs m"
proof (induction rule: inc_induct)
  case (step m)
  then show ?case by (simp add: upt_conv_Cons heap_offset_Suc)
qed simp

definition offset_list :: "consensus_fork \<Rightarrow> bytes list \<Rightarrow> nat list \<Rightarrow> (nat \<times> u32) list" where
  "offset_list fork fs is = map (\<lambda>i. (i, of_nat (heap_offset fork fs i))) is"

lemma unat_heap_offset:
  "i \<le> n \<Longrightarrow> heap_offset fork fs n < 2 ^ 32 \<Longrightarrow> unat (of_nat (heap_offset fork fs i) :: u32) = heap_offset fork fs i"
  using heap_offset_mono [of i n fork fs] by (simp add: unat_of_nat)

lemma set_variable_ranges_nth:
  assumes "heap_offset fork fs n < 2 ^ 32"
  shows "m \<le> n \<Longrightarrow> n \<le> length ranges \<Longrightarrow>
    (let result = set_variable_ranges (heap_offset fork fs n) (offset_list fork fs (filter is_variable [m..<n])) ranges
     in length result = length ranges \<and>
       (\<forall>i<n. result ! i = (if is_variable i \<and> m \<le> i then (heap_offset fork fs i, heap_offset fork fs (Suc i))
         else ranges ! i)))"
proof (induction arbitrary: ranges rule: inc_induct)
  case base
  then show ?case by (simp add: offset_list_def)
next
  case (step m)
  let ?rest = "filter is_variable [Suc m..<n]"
  show ?case
  proof (cases "is_variable m")
    case True
    let ?ranges = "ranges[m := (heap_offset fork fs m, heap_offset fork fs (Suc m))]"
    have stop: "(case offset_list fork fs ?rest of [] \<Rightarrow> heap_offset fork fs n | (_, next) # _ \<Rightarrow> unat next) =
        heap_offset fork fs (Suc m)"
    proof (cases ?rest)
      case Nil
      then show ?thesis using next_offset [of "Suc m" n fork fs] step.hyps by (simp add: offset_list_def)
    next
      case (Cons k ks)
      then have "k \<in> set ?rest" by simp
      then have "k \<le> n" by simp
      then show ?thesis
        using Cons next_offset [of "Suc m" n fork fs] step.hyps unat_heap_offset [OF _ assms, of k]
        by (simp add: offset_list_def)
    qed
    have "offset_list fork fs (filter is_variable [m..<n]) =
        (m, of_nat (heap_offset fork fs m)) # offset_list fork fs ?rest"
      using True step.hyps by (simp add: upt_conv_Cons offset_list_def)
    then have "set_variable_ranges (heap_offset fork fs n) (offset_list fork fs (filter is_variable [m..<n])) ranges =
        set_variable_ranges (heap_offset fork fs n) (offset_list fork fs ?rest) ?ranges"
      using stop unat_heap_offset [OF _ assms, of m] step.hyps by simp
    then show ?thesis
      using step.IH [of ?ranges] step.prems step.hyps True
      by (auto simp: Let_def nth_list_update dest: le_antisym not_less_eq_eq [THEN iffD1])
  next
    case False
    then have "filter is_variable [m..<n] = ?rest" using step.hyps by (simp add: upt_conv_Cons)
    then show ?thesis
      using step.IH [of ranges] step.prems False by (auto simp: Let_def Suc_le_eq order_le_less)
  qed
qed

text \<open>The parser finds every field of a serialized state.\<close>

lemma parse_field_ranges_encode:
  assumes "wf_fields fork fs"
  obtains ranges where "parse_field_ranges (encode_state fork fs) fork = Inr ranges"
    "\<And>i. i < field_count fork \<Longrightarrow> field_bytes (encode_state fork fs) ranges i = Inr (fs ! i)"
    "\<And>i. i < field_count fork \<Longrightarrow> \<not> is_variable i \<Longrightarrow> fst (ranges ! i) = fixed_offset fork i"
proof -
  let ?n = "field_count fork"
  let ?raw = "encode_state fork fs"
  define ranges0 where "ranges0 = map (\<lambda>i. if is_variable i then (0, 0)
    else (fixed_offset fork i, fixed_offset fork (Suc i))) [0..<?n]"
  let ?offs = "offset_list fork fs (filter is_variable [0..<?n])"
  let ?ranges = "set_variable_ranges (length ?raw) ?offs ranges0"
  have fits: "heap_offset fork fs ?n < 2 ^ 32" using assms by (simp add: wf_fields_def)
  have "sorted (map snd ?offs)"
  proof -
    have "sorted_wrt (\<lambda>i j. (of_nat (heap_offset fork fs i) :: u32) \<le> of_nat (heap_offset fork fs j))
        (filter is_variable [0..<?n])"
    proof (rule sorted_wrt_mono_rel [rotated])
      show "sorted_wrt (<) (filter is_variable [0..<?n])" by (intro sorted_wrt_filter) simp
      fix i j assume "j \<in> set (filter is_variable [0..<?n])" "i < j"
      then show "(of_nat (heap_offset fork fs i) :: u32) \<le> of_nat (heap_offset fork fs j)"
        using unat_heap_offset [OF _ fits, of i] unat_heap_offset [OF _ fits, of j] heap_offset_mono [of i j fork fs]
        by (simp add: word_le_nat_alt)
    qed
    then show ?thesis by (simp add: offset_list_def sorted_wrt_map comp_def)
  qed
  then have sort: "sort_key snd ?offs = ?offs" by (rule sort_key_id_if_sorted)
  have len: "length ?raw = heap_offset fork fs ?n" by (rule length_encode_state [OF assms])
  then have "sum_list (field_fixed_sizes fork) \<le> length ?raw" by (simp add: heap_offset_def)
  then have p: "parse_field_ranges ?raw fork = Inr ?ranges"
    using fold_range_step [OF assms order_refl] sort
    by (simp add: parse_field_ranges_def ranges0_def offset_list_def)
  have at: "?ranges ! i = (if is_variable i then (heap_offset fork fs i, heap_offset fork fs (Suc i))
      else (fixed_offset fork i, fixed_offset fork (Suc i)))" if "i < ?n" for i
    using set_variable_ranges_nth [OF fits, of 0 ranges0] that
    by (simp add: len Let_def) (simp add: ranges0_def)
  show thesis
  proof (rule that [OF p])
    fix i assume i: "i < ?n"
    show "field_bytes ?raw ?ranges i = Inr (fs ! i)"
      using slice_fixed [OF assms i] slice_heap [OF assms i] at [OF i]
      by (cases "is_variable i") (simp_all add: field_bytes_def fixed_part_def del: slice_at_Inr)
    show "\<not> is_variable i \<Longrightarrow> fst (?ranges ! i) = fixed_offset fork i" using at [OF i] by simp
  qed
qed

end
