(* ===== verification/SszTotal.thy ===== *)
theory SszTotal
  imports SszRoundtrip
begin

text \<open>
  The parser of \<open>crates/witness-gen/src/ssz_state.rs\<close> returns on every serialized state whose lists
  are within the limits of their types: no field's root panics, so the state proof and the boundary
  proof exist, with the root of the tree of the field roots and with what the state recorded.
\<close>

definition returns :: "('e + 'a) \<Rightarrow> bool" where
  "returns m \<longleftrightarrow> (\<exists>x. m = Inr x)"

lemma returns_Inr [simp]: "returns (Inr x)"
  by (simp add: returns_def)

lemma returns_bind: "m = Inr x \<Longrightarrow> returns (g x) \<Longrightarrow> returns (bind_res m g)"
  by (simp add: returns_def)

lemma returns_ensure [simp]: "returns (ensure b e m) \<longleftrightarrow> b \<and> returns m"
  by (simp add: returns_def)

lemma returns_slice [simp]: "returns (slice_at data a b) \<longleftrightarrow> a \<le> b \<and> b \<le> length data"
  by (simp add: slice_at_def)

lemma returns_slice_bind:
  "returns (bind_res (slice_at data a b) g) \<longleftrightarrow>
     a \<le> b \<and> b \<le> length data \<and> returns (g (take (b - a) (drop a data)))"
  by (auto simp: slice_at_def ensure_def returns_def)

lemma map_res_returns:
  assumes "\<And>x. x \<in> set xs \<Longrightarrow> returns (f x)"
  obtains ys where "map_res f xs = Inr ys" "length ys = length xs"
proof -
  have "f x = Inr (projr (f x))" if "x \<in> set xs" for x
    using assms [OF that] by (auto simp: returns_def)
  then have "\<forall>i<length xs. f (xs ! i) = Inr (projr (f (xs ! i)))" by simp
  then have "map_res f xs = Inr (map (\<lambda>x. projr (f x)) xs)" by (simp add: map_res_Inr)
  then show thesis by (rule that) simp
qed

lemma map_res_bind_returns:
  assumes "\<And>x. x \<in> set xs \<Longrightarrow> returns (f x)" "\<And>ys. length ys = length xs \<Longrightarrow> returns (g ys)"
  shows "returns (bind_res (map_res f xs) g)"
  by (rule map_res_returns [of xs f]) (simp_all add: assms)

lemma merkleize_returns: "length cs \<le> 2 ^ d \<Longrightarrow> returns (merkleize_chunks Z cs d)"
  by (simp add: merkleize_chunks_tree)

section \<open>Items\<close>

lemmas item_defs = chunk_at_def bytes32_at_def htr_bytes32_def bls_pubkey_at_def htr_bls_pubkey_def
  htr_uint64_def htr_bitvector4_def htr_fork_def htr_beacon_block_header_def htr_eth1_data_def
  htr_checkpoint_def htr_historical_summary_def htr_bls_signature_def htr_pending_deposit_def
  htr_pending_partial_withdrawal_def htr_pending_consolidation_def

lemma container_returns:
  "8 \<le> length data \<Longrightarrow> returns (htr_uint64 data)"
  "32 \<le> length data \<Longrightarrow> returns (htr_bytes32 data)"
  "data \<noteq> [] \<Longrightarrow> returns (htr_bitvector4 data)"
  "16 \<le> length data \<Longrightarrow> returns (htr_fork Z data)"
  "112 \<le> length data \<Longrightarrow> returns (htr_beacon_block_header Z data)"
  "72 \<le> length data \<Longrightarrow> returns (htr_eth1_data Z data)"
  "40 \<le> length data \<Longrightarrow> returns (htr_checkpoint Z data)"
  "64 \<le> length data \<Longrightarrow> returns (htr_historical_summary Z data)"
  "192 \<le> length data \<Longrightarrow> returns (htr_pending_deposit Z data)"
  "24 \<le> length data \<Longrightarrow> returns (htr_pending_partial_withdrawal Z data)"
  "16 \<le> length data \<Longrightarrow> returns (htr_pending_consolidation Z data)"
  by (simp_all add: item_defs slice_at_def)

lemma mult_index:
  assumes "i < n div (k :: nat)"
  shows "i * k + k \<le> n"
proof -
  have "(i + 1) * k \<le> n div k * k" using assms by (intro mult_le_mono1) simp
  also have "\<dots> \<le> n" by simp
  finally show ?thesis by simp
qed

lemma item_list_returns:
  assumes "\<And>s. length s = k \<Longrightarrow> returns (htr_item s)" "length data div k \<le> 2 ^ limit"
  shows "returns (htr_item_list Z k htr_item data limit)"
  unfolding htr_item_list_def Let_def
proof (rule map_res_bind_returns)
  fix i assume "i \<in> set [0..<length data div k]"
  then have "i * k + k \<le> length data" by (intro mult_index) simp
  then show "returns (bind_res (slice_at data (i * k) (i * k + k)) htr_item)"
    by (simp add: returns_slice_bind assms(1))
qed (use assms(2) in \<open>simp add: merkleize_chunks_tree\<close>)

lemma root_chunks_returns:
  assumes "32 * n \<le> length data"
  obtains cs where "root_chunks data n = Inr cs" "length cs = n"
  using map_res_returns [of "[0..<n]" "\<lambda>i. slice_at data (i * 32) ((i + 1) * 32)"] assms that
  by (auto simp: root_chunks_def)

lemma gwei_chunks_returns:
  assumes "8 * n \<le> length data"
  obtains cs where "gwei_chunks data n = Inr cs" "length cs = div_ceil n 4"
proof -
  have chunk: "returns (gwei_chunk data n i)" for i
    unfolding gwei_chunk_def
    by (rule map_res_bind_returns) (use assms in \<open>simp_all add: Let_def\<close>)
  show thesis
    using map_res_returns [of "[0..<div_ceil n 4]" "gwei_chunk data n"] chunk that
    by (auto simp: gwei_chunks_def)
qed

lemma vector_returns:
  shows "32 * n \<le> length data \<Longrightarrow> returns (htr_vector_roots Z data n)"
    and "8 * n \<le> length data \<Longrightarrow> returns (htr_vector_gwei Z data n)"
  by (auto simp: htr_vector_roots_def htr_vector_gwei_def merkleize_chunks_tree ceil_log2_bound
      elim!: root_chunks_returns gwei_chunks_returns)

lemma list_roots_returns:
  assumes "length data div 32 \<le> 2 ^ d"
  shows "returns (htr_list_roots Z data d)"
proof -
  obtain cs where "root_chunks data (length data div 32) = Inr cs" "length cs = length data div 32"
    by (rule root_chunks_returns [of "length data div 32" data]) simp_all
  then show ?thesis using assms by (simp add: htr_list_roots_def merkleize_chunks_tree)
qed

lemma list_gwei_returns:
  assumes "div_ceil (length data div 8) 4 \<le> 2 ^ (d - 2)"
  shows "returns (htr_list_gwei Z data d)"
proof -
  obtain cs where "gwei_chunks data (length data div 8) = Inr cs" "length cs = div_ceil (length data div 8) 4"
    by (rule gwei_chunks_returns [of "length data div 8" data]) simp_all
  then show ?thesis using assms by (simp add: htr_list_gwei_def merkleize_chunks_tree)
qed

lemma list_uint8_returns:
  assumes "div_ceil (length data) 32 \<le> 2 ^ (d - 5)"
  shows "returns (htr_list_uint8 Z data d)"
  unfolding htr_list_uint8_def Let_def
proof (rule map_res_bind_returns)
  fix i assume "i \<in> set [0..<div_ceil (length data) 32]"
  then have "i < (length data + 31) div 32" by (simp add: div_ceil_def)
  then have "i * 32 \<le> length data" by linarith
  then show "returns (chunk_at data (i * 32) (min (i * 32 + 32) (length data)))"
    by (simp add: chunk_at_def slice_at_def)
qed (use assms in \<open>simp add: merkleize_chunks_tree\<close>)

lemma sync_committee_returns:
  assumes "24624 \<le> length data"
  shows "returns (htr_sync_committee Z data)"
proof -
  have key: "returns (bls_pubkey_at Z data a (a + 48))" if "a + 48 \<le> length data" for a
    using that by (simp add: item_defs slice_at_def)
  show ?thesis
    unfolding htr_sync_committee_def
  proof (rule map_res_bind_returns)
    fix i assume "i \<in> set [0..<512]"
    then show "returns (let offset = i * 48 in bls_pubkey_at Z data offset (offset + 48))"
      using key [of "i * 48"] assms by (simp add: Let_def)
  next
    fix ks :: "bytes32 list" assume "length ks = length [0..<512]"
    then show "returns (bind_res (merkleize_chunks Z ks 9) (\<lambda>pubkeys_root.
        bind_res (bls_pubkey_at Z data 24576 24624) (\<lambda>agg_root. Inr (sha256_pair Z pubkeys_root agg_root))))"
      using key [of 24576] assms by (auto simp: merkleize_chunks_tree returns_def)
  qed
qed

section \<open>The payload header\<close>

lemma eph_step_fixed:
  "i \<noteq> 10 \<Longrightarrow> eph_range_step data (cursor, ranges, off) (i, sz) =
     Inr (cursor + sz, ranges @ [(cursor, cursor + sz)], off)"
  by (simp add: eph_range_step_def)

lemma eph_ranges:
  assumes "440 \<le> length data"
  shows "fold_res (eph_range_step data) (0, [], 0) (enumerate 0 eph_fixed_sizes) =
    Inr (584, [(0, 32), (32, 52), (52, 84), (84, 116), (116, 372), (372, 404), (404, 412), (412, 420),
      (420, 428), (428, 436), (0, 0), (440, 472), (472, 504), (504, 536), (536, 568), (568, 576), (576, 584)],
      of_le_bytes (take 4 (drop 436 data)))"
  using assms
  by (simp add: eph_fixed_sizes_def eph_step_fixed) (simp add: eph_range_step_def slice_at_def eph_step_fixed)

lemma logs_bloom_returns: "256 \<le> length data \<Longrightarrow> returns (htr_logs_bloom Z data)"
  unfolding htr_logs_bloom_def by (rule map_res_bind_returns) simp_all

lemma payload_returns:
  assumes "584 \<le> length data" "unat (of_le_bytes (take 4 (drop 436 data)) :: u32) \<le> length data"
  shows "returns (htr_execution_payload_header_deneb Z data)"
proof -
  define ranges where "ranges = [(0, 32), (32, 52), (52, 84), (84, 116), (116, 372), (372, 404), (404, 412),
    (412, 420), (420, 428), (428, 436), (unat (of_le_bytes (take 4 (drop 436 data)) :: u32), length data),
    (440, 472), (472, 504), (504, 536), (536, 568), (568, 576), (576, 584)]"
  have field: "returns (let (start, stop) = ranges ! i in bind_res (slice_at data start stop) (eph_field Z i))"
    if "i \<in> set [0..<17]" for i
  proof -
    have "i = 0 \<or> i = 1 \<or> i = 2 \<or> i = 3 \<or> i = 4 \<or> i = 5 \<or> i = 6 \<or> i = 7 \<or> i = 8 \<or> i = 9 \<or>
      i = 10 \<or> i = 11 \<or> i = 12 \<or> i = 13 \<or> i = 14 \<or> i = 15 \<or> i = 16"
      using that by (simp, presburger)
    then show ?thesis
      using assms
      by (elim disjE) (simp_all add: ranges_def returns_slice_bind eph_field_def logs_bloom_returns)
  qed
  have "fold_res (eph_range_step data) (0, [], 0) (enumerate 0 eph_fixed_sizes) =
      Inr (584, ranges[10 := (0, 0)], of_le_bytes (take 4 (drop 436 data)))"
    using eph_ranges [of data] assms(1) by (simp add: ranges_def)
  moreover have "ranges[10 := (unat (of_le_bytes (take 4 (drop 436 data)) :: u32), length data)] = ranges"
    by (simp add: ranges_def)
  ultimately show ?thesis
    by (simp add: htr_execution_payload_header_deneb_def Let_def split_beta)
      (rule map_res_bind_returns, use field in \<open>simp_all add: Let_def split_beta merkleize_chunks_tree\<close>)
qed

section \<open>Every field of a state within the limits\<close>

definition within_limits :: "chain_config \<Rightarrow> nat \<Rightarrow> bytes \<Rightarrow> bool" where
  "within_limits config i data \<longleftrightarrow>
     (i = 7 \<longrightarrow> length data div 32 \<le> 2 ^ 24) \<and>
     (i = 9 \<longrightarrow> length data div 72 \<le> 2 ^ eth1_votes_limit_depth config) \<and>
     (i = 24 \<longrightarrow> 584 \<le> length data \<and> unat (of_le_bytes (take 4 (drop 436 data)) :: u32) \<le> length data) \<and>
     (i = 27 \<longrightarrow> length data div 64 \<le> 2 ^ 24) \<and>
     (i = 35 \<longrightarrow> length data div 24 \<le> 2 ^ 27) \<and>
     (i = 36 \<longrightarrow> length data div 16 \<le> 2 ^ 18)"

lemma compute_field_htr_returns:
  assumes "i < 38" "i \<noteq> 11" "within_limits config i data" "length data < 2 ^ 32"
    and "\<not> is_variable i \<Longrightarrow> length data = field_fixed_sizes Fulu ! i"
  shows "returns (compute_field_htr Z i data config)"
proof -
  have small: "div_ceil (length data div 8) 4 \<le> 2 ^ 38" "div_ceil (length data) 32 \<le> 2 ^ 35"
    "length data div 192 \<le> 2 ^ 27"
    using assms(4) by (simp_all add: div_ceil_def)
  have "i = 0 \<or> i = 1 \<or> i = 2 \<or> i = 3 \<or> i = 4 \<or> i = 5 \<or> i = 6 \<or> i = 7 \<or> i = 8 \<or> i = 9 \<or>
    i = 10 \<or> i = 12 \<or> i = 13 \<or> i = 14 \<or> i = 15 \<or> i = 16 \<or> i = 17 \<or> i = 18 \<or> i = 19 \<or>
    i = 20 \<or> i = 21 \<or> i = 22 \<or> i = 23 \<or> i = 24 \<or> i = 25 \<or> i = 26 \<or> i = 27 \<or> i = 28 \<or>
    i = 29 \<or> i = 30 \<or> i = 31 \<or> i = 32 \<or> i = 33 \<or> i = 34 \<or> i = 35 \<or> i = 36 \<or> i = 37"
    using assms(1,2) by presburger
  then show ?thesis
    using assms(3,5) small
    by (elim disjE)
      (auto simp: compute_field_htr_def within_limits_def is_variable_def VARIABLE_FIELD_INDICES_def
        field_fixed_sizes_def FIELD_FIXED_SIZES_ELECTRA_def FULU_EXTRA_FIELD_SIZE_def nth_append
        htr_list_eth1_data_def htr_list_pending_deposits_def htr_list_pending_partial_withdrawals_def
        htr_list_pending_consolidations_def htr_list_historical_summaries_def
        intro!: container_returns vector_returns list_roots_returns list_gwei_returns list_uint8_returns
          item_list_returns sync_committee_returns payload_returns)
qed

section \<open>The openings of a serialized state\<close>

lemma encoded_field_returns:
  assumes "wf_fields fork fs" "within_limits config i (fs ! i)" "i < field_count fork" "i \<noteq> 11"
  shows "returns (compute_field_htr Z i (fs ! i) config)"
proof (rule compute_field_htr_returns)
  show "i < 38" using assms(3) field_count_le(1) [of fork] by simp
  have "length (fs ! i) \<le> heap_offset fork fs (field_count fork)" if "is_variable i"
    using heap_offset_mono [of "Suc i" "field_count fork" fork fs] assms(3) that by (simp add: heap_offset_Suc)
  moreover have "field_fixed_sizes fork ! i \<le> sum_list (field_fixed_sizes fork)"
    using assms(3) by (simp add: length_field_fixed_sizes elem_le_sum_list)
  ultimately have "length (fs ! i) \<le> heap_offset fork fs (field_count fork)"
    using assms(1,3) by (cases "is_variable i") (auto simp: wf_fields_def heap_offset_def)
  then show "length (fs ! i) < 2 ^ 32" using assms(1) by (simp add: wf_fields_def)
  have "field_fixed_sizes fork ! i = field_fixed_sizes Fulu ! i"
  proof -
    have "length FIELD_FIXED_SIZES_ELECTRA = 37" by (simp add: FIELD_FIXED_SIZES_ELECTRA_def)
    then show ?thesis
      using assms(3) by (cases fork) (simp_all add: field_fixed_sizes_def field_count_def nth_append)
  qed
  then show "\<not> is_variable i \<Longrightarrow> length (fs ! i) = field_fixed_sizes Fulu ! i"
    using assms(1,3) by (simp add: wf_fields_def)
qed (rule assms)+

lemma tree_root_pad: "tree_root f ((!) (pad_field_roots htrs)) 6 = tree_root f (ssz_leaf htrs) 6"
  by (rule tree_root_cong) (auto simp: pad_field_roots_def STATE_TREE_LEAVES_def ssz_leaf_def nth_append)

text \<open>The state proof of a serialized state exists, with the root of the tree of the field roots.\<close>

lemma parse_state_proof_encode:
  assumes "wf_fields fork fs" "fork = fork_at_slot config slot"
    and "\<forall>i<field_count fork. within_limits config i (fs ! i)"
  obtains p roots where "parse_state_proof Z (encode_state fork fs) vh config slot = Inr p"
    "length roots = field_count fork" "roots ! 11 = vh"
    "\<forall>i<field_count fork. i \<noteq> 11 \<longrightarrow> compute_field_htr Z i (fs ! i) config = Inr (roots ! i)"
    "stp_state_root p = tree_root (sha256_pair Z) (ssz_leaf roots) 6"
proof -
  obtain ranges where r: "parse_field_ranges (encode_state fork fs) fork = Inr ranges"
    and at: "\<And>i. i < field_count fork \<Longrightarrow> field_bytes (encode_state fork fs) ranges i = Inr (fs ! i)"
    using parse_field_ranges_encode [OF assms(1)] by metis
  let ?htr = "\<lambda>i. if i = 11 then Inr vh
    else bind_res (field_bytes (encode_state fork fs) ranges i) (\<lambda>data. compute_field_htr Z i data config)"
  have "returns (?htr i)" if "i \<in> set [0..<field_count fork]" for i
    using that assms(3) encoded_field_returns [OF assms(1), of config i Z] by (simp add: at)
  then obtain roots where roots: "map_res ?htr [0..<field_count fork] = Inr roots"
    by (rule map_res_returns [of "[0..<field_count fork]" ?htr])
  then have len: "length roots = field_count fork" by (auto simp: map_res_Inr)
  have b: "build_state_tree_and_extract Z (pad_field_roots roots) 11 =
      (tree_root (sha256_pair Z) (ssz_leaf roots) 6, path_siblings (sha256_pair Z) ((!) (pad_field_roots roots)) 6 11)"
    using build_state_tree [OF length_pad_field_roots, of roots 11 Z] field_count_le(1) [of fork] len
    by (simp add: tree_root_pad)
  show thesis
  proof (rule that)
    show "parse_state_proof Z (encode_state fork fs) vh config slot =
        Inr \<lparr>stp_siblings = path_siblings (sha256_pair Z) ((!) (pad_field_roots roots)) 6 11,
          stp_state_root = tree_root (sha256_pair Z) (ssz_leaf roots) 6\<rparr>"
      using r roots b by (simp add: parse_state_proof_def assms(2) [symmetric])
    show "length roots = field_count fork" by (rule len)
    have each: "?htr i = Inr (roots ! i)" if "i < field_count fork" for i
      using roots that by (auto simp: map_res_Inr)
    show "roots ! 11 = vh" using each [of 11] field_count_le(2) [of fork] by simp
    show "\<forall>i<field_count fork. i \<noteq> 11 \<longrightarrow> compute_field_htr Z i (fs ! i) config = Inr (roots ! i)"
    proof (intro allI impI)
      fix i assume "i < field_count fork" "i \<noteq> 11"
      then show "compute_field_htr Z i (fs ! i) config = Inr (roots ! i)" using each [of i] at [of i] by simp
    qed
  qed simp
qed

lemma slice_sub:
  "slice_at data a b = Inr d \<Longrightarrow> c + k \<le> length d \<Longrightarrow> slice_at data (a + c) (a + c + k) = Inr (take k (drop c d))"
  by (auto simp: drop_take min_absorb1 add.commute)

lemma ring_of_encoded:
  assumes "field_bytes raw ranges field = Inr data" "length data = 262144" "ring < 8192"
  shows "returns (ring_proof Z raw ranges ring field)"
    and "ring_entry raw ranges ring field = Inr (entry_of data ring)"
proof -
  obtain cs where cs: "root_chunks data (2 ^ 13) = Inr cs"
    using root_chunks_returns [of "2 ^ 13" data] assms(2) by auto
  show "returns (ring_proof Z raw ranges ring field)"
    using vector_levels_path [of ring 13 Z "entry_of data" "[]"] cs assms(1,3) root_chunks_Inr(1) [OF cs]
    by (simp add: ring_proof_def vector_root_and_proof_def HISTORICAL_ROOT_COUNT_def
        SLOTS_PER_HISTORICAL_ROOT_def)
  show "ring_entry raw ranges ring field = Inr (entry_of data ring)"
    using slice_sub [OF assms(1) [unfolded field_bytes_def], of "ring * 32" 32] assms(2,3)
    by (simp add: ring_entry_def entry_of_def mult.commute Let_def)
qed

text \<open>What a serialized state recorded of a slot it has passed is what the boundary proof opens.\<close>

lemma parse_boundary_proof_encode:
  assumes "wf_fields fork fs" "fork = fork_at_slot config state_slot"
    and "\<forall>i<field_count fork. within_limits config i (fs ! i)"
    and "fs ! 2 = u64_to_le_bytes state_slot"
    and "slot < state_slot" "state_slot - slot \<le> SLOTS_PER_HISTORICAL_ROOT"
  obtains b where "parse_boundary_proof Z (encode_state fork fs) (Some vh) config slot = Inr b"
    "bp_block_root b = entry_of (fs ! 5) (unat slot mod 8192)"
    "bp_boundary_state_root b = entry_of (fs ! 6) (unat slot mod 8192)"
proof -
  let ?raw = "encode_state fork fs"
  let ?ring = "unat (slot mod SLOTS_PER_HISTORICAL_ROOT)"
  note cnt = field_count_le [of fork]
  obtain ranges where r: "parse_field_ranges ?raw fork = Inr ranges"
    and at: "\<And>i. i < field_count fork \<Longrightarrow> field_bytes ?raw ranges i = Inr (fs ! i)"
    using parse_field_ranges_encode [OF assms(1)] by metis
  have ring: "?ring = unat slot mod 8192" by (simp add: SLOTS_PER_HISTORICAL_ROOT_def unat_mod_distrib)
  have sizes: "length (fs ! 5) = 262144" "length (fs ! 6) = 262144" "fixed_offset fork 2 = 40"
      "field_fixed_sizes fork ! 2 = 8" "\<not> is_variable 2"
    using assms(1) cnt
    by (cases fork; simp add: wf_fields_def is_variable_def VARIABLE_FIELD_INDICES_def field_fixed_sizes_def
        FIELD_FIXED_SIZES_ELECTRA_def fixed_offset_def)+
  have "slice_at ?raw 40 48 = Inr (fs ! 2)"
    using slice_fixed [OF assms(1), of 2] fixed_offset_Suc [of 2 fork] cnt sizes by (simp add: fixed_part_def)
  then have slot: "extract_slot ?raw = Inr state_slot"
    unfolding extract_slot_def by (simp only: bind_res_of_Inr assms(4) u64_le_roundtrip)
  obtain bh bs sh ss where rings: "ring_proof Z ?raw ranges ?ring 5 = Inr (bh, bs)"
      "ring_proof Z ?raw ranges ?ring 6 = Inr (sh, ss)"
    using ring_of_encoded(1) [OF at [of 5] sizes(1), of ?ring Z] ring_of_encoded(1) [OF at [of 6] sizes(2), of ?ring Z] cnt
    by (auto simp: ring returns_def)
  note entries = ring_of_encoded(2) [OF at [of 5] sizes(1), of ?ring] ring_of_encoded(2) [OF at [of 6] sizes(2), of ?ring]
  let ?htr = "boundary_field_htr Z ?raw ranges bh sh (Some vh) config"
  have "returns (?htr i)" if "i \<in> set [0..<field_count fork]" for i
    using that assms(3) encoded_field_returns [OF assms(1), of config i Z]
    by (simp add: boundary_field_htr_def at)
  then obtain htrs where "map_res ?htr [0..<field_count fork] = Inr htrs"
    by (rule map_res_returns [of "[0..<field_count fork]" ?htr])
  then show thesis
    using rings entries cnt assms(5,6)
    by (intro that) (auto simp: parse_boundary_proof_def slot assms(2) [symmetric] r ring Let_def split_beta
        BLOCK_ROOTS_INDEX_def STATE_ROOTS_INDEX_def)
qed

end
