(* ===== verification/SampleState.thy ===== *)
theory SampleState
  imports SszTotal Samples
begin

text \<open>
  A small serialized state: every list empty, every fixed field zero but the slot, 64, and the
  payload header, whose extra data is empty. It is the input of the witnesses on the parser.
\<close>

definition sample_payload :: bytes where
  "sample_payload = replicate 436 0 @ [72, 2, 0, 0] @ replicate 144 0"

definition sample_field :: "nat \<Rightarrow> bytes" where
  "sample_field i =
     (if i = 2 then u64_to_le_bytes 64
      else if i = 24 then sample_payload
      else if is_variable i then []
      else replicate (field_fixed_sizes Fulu ! i) 0)"

definition sample_fields :: "bytes list" where
  "sample_fields = map sample_field [0..<38]"

definition sample_state :: bytes where
  "sample_state = encode_state Fulu sample_fields"

lemma sample_fields_nth: "i < 38 \<Longrightarrow> sample_fields ! i = sample_field i"
  by (simp add: sample_fields_def del: upt_Suc)

lemma sample_heap: "heap_offset Fulu sample_fields 38 = sum_list (field_fixed_sizes Fulu) + 584"
proof -
  have "heap_offset Fulu sample_fields i = sum_list (field_fixed_sizes Fulu) + (if 24 < i then 584 else 0)"
    if "i \<le> 38" for i
    using that
  proof (induction i)
    case 0
    then show ?case by (simp add: heap_offset_def)
  next
    case (Suc i)
    have "length (sample_field i) = (if i = 24 then 584 else 0)" if "is_variable i"
    proof (cases "i = 2 \<or> i = 24")
      case True
      moreover have "\<not> is_variable 2" by (simp add: is_variable_def VARIABLE_FIELD_INDICES_def)
      ultimately show ?thesis using that by (auto simp: sample_field_def sample_payload_def)
    qed (use that in \<open>simp add: sample_field_def\<close>)
    moreover have "is_variable 24" by (simp add: is_variable_def VARIABLE_FIELD_INDICES_def)
    ultimately show ?case
      using Suc heap_offset_Suc [of Fulu sample_fields i] sample_fields_nth [of i]
      by (cases "is_variable i"; cases "i = 24") auto
  qed
  from this [of 38] show ?thesis by simp
qed

lemma sample_wf: "wf_fields Fulu sample_fields"
proof -
  have two: "field_fixed_sizes Fulu ! 2 = 8" "is_variable 24"
    by (simp_all add: field_fixed_sizes_def FIELD_FIXED_SIZES_ELECTRA_def is_variable_def VARIABLE_FIELD_INDICES_def)
  have "sum_list (field_fixed_sizes Fulu) + 584 < 2 ^ 32"
    by (simp add: field_fixed_sizes_def FIELD_FIXED_SIZES_ELECTRA_def FULU_EXTRA_FIELD_SIZE_def)
  moreover have "length (sample_field i) = field_fixed_sizes Fulu ! i" if "\<not> is_variable i" for i
    using that two by (auto simp: sample_field_def)
  ultimately show ?thesis
    unfolding wf_fields_def using sample_heap
    by (simp add: field_count_def sample_fields_nth) (simp add: sample_fields_def)
qed

lemma sample_within: "\<forall>i<38. within_limits MAINNET i (sample_fields ! i)"
proof (intro allI impI)
  fix i :: nat assume i: "i < 38"
  have v: "is_variable 7" "is_variable 9" "is_variable 27" "is_variable 35" "is_variable 36"
    by (simp_all add: is_variable_def VARIABLE_FIELD_INDICES_def)
  have "take 4 (drop 436 sample_payload) = [72, 2, 0, 0]" by (simp add: sample_payload_def)
  moreover have "of_le_bytes [72, 2, 0, 0] = (584 :: u32)" by simp
  moreover have "length sample_payload = 584" by (simp add: sample_payload_def)
  ultimately have payload: "within_limits MAINNET 24 sample_payload"
    by (simp only: within_limits_def) simp
  have "sample_field i = []" if "i \<in> {7, 9, 27, 35, 36}"
    using that v by (auto simp: sample_field_def)
  then show "within_limits MAINNET i (sample_fields ! i)"
    using payload unfolding sample_fields_nth [OF i]
    by (cases "i = 24") (auto simp: within_limits_def sample_field_def)
qed

lemma sample_fork: "fork_at_slot MAINNET slot = Fulu"
  by (simp add: fork_at_slot_def MAINNET_def)

end
