(* ===== verification/SyntheticState.thy ===== *)
theory SyntheticState
  imports SszState
begin

text \<open>
  The synthetic state of \<open>crates/witness-gen/src/state_diff.rs\<close>: the tree of a state of which only the
  registry and one slot of history are known, which stands for a real one where the node does not
  serve it (\<open>make_state_proof\<close>, \<open>make_boundary_proof\<close>). Its openings recompute its root in the form
  the circuits check them, as a real state's do.
\<close>

record slot_history =
  sh_slot :: u64
  sh_block_root :: bytes32
  sh_state_root :: bytes32

definition RING_DEPTH :: nat where "RING_DEPTH = 13"

definition ring_siblings :: "zisk \<Rightarrow> bytes32 list" where
  "ring_siblings Z = map (zero_node (sha256_pair Z) zero32) [0..<RING_DEPTH]"

definition ring_root :: "zisk \<Rightarrow> u64 \<Rightarrow> bytes32 \<Rightarrow> bytes32" where
  "ring_root Z slot entry =
     compute_ssz_merkle_root Z entry (slot mod SLOTS_PER_HISTORICAL_ROOT) (ring_siblings Z)"

definition synthetic_leaf :: "nat \<Rightarrow> bytes32" where
  "synthetic_leaf i = [of_nat i, 0xBE] @ replicate 30 0"

definition synthetic_state_leaves :: "zisk \<Rightarrow> bytes32 \<Rightarrow> u64 \<Rightarrow> slot_history \<Rightarrow> bytes32 list" where
  "synthetic_state_leaves Z data_tree_root list_length history =
     (map synthetic_leaf [0..<64])
       [BLOCK_ROOTS_INDEX := ring_root Z (sh_slot history) (sh_block_root history),
        STATE_ROOTS_INDEX := ring_root Z (sh_slot history) (sh_state_root history),
        unat BEACON_STATE_VALIDATORS_FIELD_INDEX := list_hash_tree_root Z data_tree_root list_length]"

definition make_state_proof ::
  "zisk \<Rightarrow> bytes32 \<Rightarrow> u64 \<Rightarrow> slot_history \<Rightarrow> bytes32 \<times> bytes32 list" where
  "make_state_proof Z data_tree_root list_length history =
     build_state_tree_and_extract Z (synthetic_state_leaves Z data_tree_root list_length history)
       (unat BEACON_STATE_VALIDATORS_FIELD_INDEX)"

definition make_boundary_proof ::
  "zisk \<Rightarrow> bytes32 \<Rightarrow> u64 \<Rightarrow> slot_history \<Rightarrow> boundary_proof" where
  "make_boundary_proof Z data_tree_root list_length history =
     (let leaves = synthetic_state_leaves Z data_tree_root list_length history;
          (state_root, block_field_siblings) = build_state_tree_and_extract Z leaves BLOCK_ROOTS_INDEX;
          (_, state_field_siblings) = build_state_tree_and_extract Z leaves STATE_ROOTS_INDEX
      in \<lparr>bp_state_root = state_root,
          bp_block_root = sh_block_root history,
          bp_boundary_state_root = sh_state_root history,
          bp_block_roots_siblings = ring_siblings Z @ block_field_siblings,
          bp_state_roots_siblings = ring_siblings Z @ state_field_siblings\<rparr>)"

section \<open>Its openings\<close>

lemma synthetic_leaves:
  "length (synthetic_state_leaves Z r n h) = 64"
  "synthetic_state_leaves Z r n h ! 5 = ring_root Z (sh_slot h) (sh_block_root h)"
  "synthetic_state_leaves Z r n h ! 6 = ring_root Z (sh_slot h) (sh_state_root h)"
  "synthetic_state_leaves Z r n h ! 11 = list_hash_tree_root Z r n"
  by (simp_all add: synthetic_state_leaves_def BLOCK_ROOTS_INDEX_def STATE_ROOTS_INDEX_def
      BEACON_STATE_VALIDATORS_FIELD_INDEX_def del: upt_Suc)

lemma make_state_proof_opens:
  assumes "make_state_proof Z r n h = (root, siblings)"
  shows "compute_ssz_merkle_root Z (list_hash_tree_root Z r n) BEACON_STATE_VALIDATORS_FIELD_INDEX siblings = root"
proof -
  have "build_state_tree_and_extract Z (synthetic_state_leaves Z r n h) 11 = (root, siblings)"
    using assms by (simp add: make_state_proof_def BEACON_STATE_VALIDATORS_FIELD_INDEX_def)
  from build_state_tree_opens(1) [OF this synthetic_leaves(1)] show ?thesis
    by (simp add: compute_ssz_merkle_root_def BEACON_STATE_VALIDATORS_FIELD_INDEX_def synthetic_leaves)
qed

lemma digit_unique:
  "2 * a + c mod 2 = 2 * b + d mod (2 :: nat) \<Longrightarrow> c mod 2 = d mod 2 \<and> a = b"
  by presburger

text \<open>The bits of an index above a path's length do not count.\<close>

lemma compute_root_mod:
  "unat k mod 2 ^ length ss = unat k' mod 2 ^ length ss \<Longrightarrow> compute_root f v k ss = compute_root f v k' ss"
proof (induction ss arbitrary: v k k')
  case (Cons s ss)
  have m: "2 * (unat k div 2 mod 2 ^ length ss) + unat k mod 2 =
      2 * (unat k' div 2 mod 2 ^ length ss) + unat k' mod 2"
    using Cons.prems by (simp add: mod_2_power_Suc del: power_Suc)
  then have "unat k mod 2 = unat k' mod 2" "unat k div 2 mod 2 ^ length ss = unat k' div 2 mod 2 ^ length ss"
    using digit_unique by blast+
  then have "even (unat k) \<longleftrightarrow> even (unat k')"
    "unat (drop_bit 1 k) mod 2 ^ length ss = unat (drop_bit 1 k') mod 2 ^ length ss"
    by (simp_all only: unat_shift1 even_iff_mod_2_eq_zero)
  note even = this(1) and rest = Cons.IH [OF this(2)]
  show ?case by (simp only: compute_root.simps and_1_eq_0 even rest)
qed simp

lemma synthetic_ring_opens:
  assumes "build_state_tree_and_extract Z leaves (unat field) = (root, field_siblings)" "length leaves = 64"
    and "leaves ! unat field = ring_root Z slot e" "unat field < 64"
  shows "state_root_from_history Z field slot e (ring_siblings Z @ field_siblings) = Inr root"
proof -
  let ?k = "field * SLOTS_PER_HISTORICAL_ROOT + slot mod SLOTS_PER_HISTORICAL_ROOT"
  have len: "length (ring_siblings Z) = 13" by (simp add: ring_siblings_def RING_DEPTH_def)
  have "unat (slot mod SLOTS_PER_HISTORICAL_ROOT) < 2 ^ 13"
    by (simp add: SLOTS_PER_HISTORICAL_ROOT_def unat_mod_distrib)
  then have "compute_root (sha256_pair Z) e ?k (ring_siblings Z) = ring_root Z slot e"
    unfolding ring_root_def compute_ssz_merkle_root_def
    by (intro compute_root_mod) (simp only: len ring_index(2) [OF assms(4)] mod_less)
  moreover have "drop_bit 13 ?k = field"
  proof -
    have "unat (drop_bit 13 ?k) = unat ?k div 2 ^ 13"
      unfolding unat_drop_bit_eq by (rule drop_bit_eq_div)
    then show ?thesis by (simp only: ring_index(1) [OF assms(4)] word_unat_eq_iff)
  qed
  moreover note build_state_tree_opens [OF assms(1,2,4)]
  ultimately have "compute_root (sha256_pair Z) e ?k (ring_siblings Z @ field_siblings) = root"
    by (simp add: compute_root_append len assms(3))
  then show ?thesis
    using build_state_tree_opens(2) [OF assms(1,2,4)] len
    by (simp add: state_root_from_history_Inr compute_ssz_merkle_root_def SLOTS_PER_HISTORICAL_ROOT_def)
qed

lemma make_boundary_proof_opens:
  assumes "b = make_boundary_proof Z r n h"
  shows "state_root_from_history Z BLOCK_ROOTS_FIELD (sh_slot h) (bp_block_root b) (bp_block_roots_siblings b) =
      Inr (bp_state_root b)"
    and "state_root_from_history Z STATE_ROOTS_FIELD (sh_slot h) (bp_boundary_state_root b)
      (bp_state_roots_siblings b) = Inr (bp_state_root b)"
proof -
  let ?leaves = "synthetic_state_leaves Z r n h"
  have f: "unat BLOCK_ROOTS_FIELD = 5" "unat STATE_ROOTS_FIELD = 6"
    by (simp_all add: BLOCK_ROOTS_FIELD_def STATE_ROOTS_FIELD_def)
  obtain root bs ss where t: "build_state_tree_and_extract Z ?leaves 5 = (root, bs)"
      "build_state_tree_and_extract Z ?leaves 6 = (root, ss)"
    using build_state_tree [OF synthetic_leaves(1) [of Z r n h], of 5 Z]
      build_state_tree [OF synthetic_leaves(1) [of Z r n h], of 6 Z] by simp
  have b: "b = \<lparr>bp_state_root = root, bp_block_root = sh_block_root h, bp_boundary_state_root = sh_state_root h,
      bp_block_roots_siblings = ring_siblings Z @ bs, bp_state_roots_siblings = ring_siblings Z @ ss\<rparr>"
    using t by (simp add: assms make_boundary_proof_def BLOCK_ROOTS_INDEX_def STATE_ROOTS_INDEX_def Let_def)
  show "state_root_from_history Z BLOCK_ROOTS_FIELD (sh_slot h) (bp_block_root b) (bp_block_roots_siblings b) =
      Inr (bp_state_root b)"
    using synthetic_ring_opens [where field = BLOCK_ROOTS_FIELD, unfolded f, OF t(1) synthetic_leaves(1,2)]
    by (simp add: b)
  show "state_root_from_history Z STATE_ROOTS_FIELD (sh_slot h) (bp_boundary_state_root b)
      (bp_state_roots_siblings b) = Inr (bp_state_root b)"
    using synthetic_ring_opens [where field = STATE_ROOTS_FIELD, unfolded f, OF t(2) synthetic_leaves(1,3)]
    by (simp add: b)
qed

end
