(* ===== verification/HostNode.thy ===== *)
theory HostNode
  imports SyntheticState
begin

text \<open>
  What the host's stages ask a beacon node for (\<open>crates/witness-gen/src/beacon_api.rs\<close>): a record of
  its answers, each an error, or the header, the serialized state or the state root at an id. Only
  the answers are parameters of the model; what the host makes of them is translated. Beside it the
  epoch a run has cached (\<open>epoch_state.rs\<close>).
\<close>

datatype state_id = By_root bytes32 | By_slot u64

datatype node_error = NodeError

record beacon_node =
  get_header :: "state_id \<Rightarrow> node_error + header_response"
  get_state_ssz :: "state_id \<Rightarrow> node_error + bytes option"
  get_state_root :: "state_id \<Rightarrow> node_error + bytes32 option"

definition hr_fields :: "header_response \<Rightarrow> block_header_fields" where
  "hr_fields h =
     \<lparr>bh_slot = hr_slot h,
      bh_proposer_index = hr_proposer_index h,
      bh_parent_root = hr_parent_root h,
      bh_state_root = hr_state_root h,
      bh_body_root = hr_body_root h\<rparr>"

record epoch_state =
  es_slot :: u64
  es_state_root :: bytes32
  state_to_validators_siblings :: "bytes32 list"
  es_validator_roots :: "bytes32 list"
  es_ssz_data_root :: bytes32
  es_num_validators :: u64

definition empty_epoch_state :: "u64 \<Rightarrow> u64 \<Rightarrow> epoch_state" where
  "empty_epoch_state slot num_validators =
     \<lparr>es_slot = slot,
      es_state_root = zero32,
      state_to_validators_siblings = [],
      es_validator_roots = [],
      es_ssz_data_root = zero32,
      es_num_validators = num_validators\<rparr>"

text \<open>The root a node claims for a slot: its state-root endpoint, or the header's where it has none.\<close>

definition claimed_state_root :: "beacon_node \<Rightarrow> u64 \<Rightarrow> node_error + bytes32" where
  "claimed_state_root node slot =
     bind_res (get_state_root node (By_slot slot)) (\<lambda>answer.
     case answer of
       Some root \<Rightarrow> Inr root
     | None \<Rightarrow> bind_res (get_header node (By_slot slot)) (\<lambda>h. Inr (hr_state_root h)))"

end
