(* ===== verification/HostBoundary.thy ===== *)
theory HostBoundary
  imports HostNode Finalization
begin

text \<open>
  \<open>crates/witness-gen/src/boundary.rs\<close>: the anchor of a finalization, built by the host. A state
  is asked for by its root first, then by its slot, and where the node serves neither a synthetic
  state stands in if its root is the one the header carries.

  The lemma that matters: an anchor the host hands back passes the guest's \<open>open_boundary\<close> exactly
  when the header hashes to the justified root and its slot lies in the window of the ring buffers;
  every other assertion of the guest was made by the host.
\<close>

datatype boundary_error =
    BoundaryNode node_error
  | StateParse state_panic
  | StateNotServed u64
  | StateNotJustified u64
  | CheckpointDiffers u64
  | AccumulatorStateDiffers u64

section \<open>Building the anchor\<close>

definition served_state :: "beacon_node \<Rightarrow> block_header_fields \<Rightarrow> node_error + bytes option" where
  "served_state node jh =
     bind_res (get_state_ssz node (By_root (bh_state_root jh))) (\<lambda>served.
     case served of
       Some raw \<Rightarrow> Inr (Some raw)
     | None \<Rightarrow> get_state_ssz node (By_slot (bh_slot jh)))"

definition known_registry_root :: "zisk \<Rightarrow> epoch_state \<Rightarrow> block_header_fields \<Rightarrow> bytes32 option" where
  "known_registry_root Z current jh =
     (if es_slot current = bh_slot jh
      then Some (list_hash_tree_root Z (es_ssz_data_root current) (es_num_validators current))
      else None)"

definition boundary_opening ::
  "zisk \<Rightarrow> chain_config \<Rightarrow> block_header_fields \<Rightarrow> u64 \<Rightarrow> bytes32 \<Rightarrow> bytes32 \<Rightarrow> epoch_state \<Rightarrow>
     bytes option \<Rightarrow> boundary_error + boundary_proof" where
  "boundary_opening Z config jh boundary_slot finalized_root boundary_state_root current served =
     (case served of
        Some raw \<Rightarrow>
          map_err StateParse
            (parse_boundary_proof Z raw (known_registry_root Z current jh) config boundary_slot)
      | None \<Rightarrow>
          (let synthetic = make_boundary_proof Z (es_ssz_data_root current) (es_num_validators current)
                 \<lparr>sh_slot = boundary_slot, sh_block_root = finalized_root, sh_state_root = boundary_state_root\<rparr>
           in ensure (bp_state_root synthetic = bh_state_root jh) (StateNotServed (bh_slot jh))
                (Inr synthetic)))"

definition build_boundary ::
  "zisk \<Rightarrow> beacon_node \<Rightarrow> chain_config \<Rightarrow> bytes32 \<Rightarrow> u64 \<Rightarrow> bytes32 \<Rightarrow> bytes32 \<Rightarrow> epoch_state \<Rightarrow>
     boundary_error + boundary_anchor" where
  "build_boundary Z node config justified_root finalized_epoch finalized_root boundary_state_root current =
     bind_res (map_err BoundaryNode (get_header node (By_root justified_root))) (\<lambda>header.
     let jh = hr_fields header;
         boundary_slot = finalized_epoch * slots_per_epoch config in
     bind_res (map_err BoundaryNode (served_state node jh)) (\<lambda>served.
     bind_res (boundary_opening Z config jh boundary_slot finalized_root boundary_state_root current served)
       (\<lambda>b.
     ensure (bp_state_root b = bh_state_root jh) (StateNotJustified (bh_slot jh))
    (ensure (bp_block_root b = finalized_root) (CheckpointDiffers boundary_slot)
    (ensure (bp_boundary_state_root b = boundary_state_root) (AccumulatorStateDiffers boundary_slot)
    (Inr \<lparr>justified_header = jh,
         block_roots_siblings = bp_block_roots_siblings b,
         state_roots_siblings = bp_state_roots_siblings b\<rparr>))))))"

section \<open>What the guest makes of it\<close>

text \<open>Both branches, a served state and a synthetic one, open the two ring buffers.\<close>

lemma boundary_opening_opens:
  assumes "boundary_opening Z config jh slot froot sroot current served = Inr b"
  shows "state_root_from_history Z BLOCK_ROOTS_FIELD slot (bp_block_root b) (bp_block_roots_siblings b) =
      Inr (bp_state_root b)"
    and "state_root_from_history Z STATE_ROOTS_FIELD slot (bp_boundary_state_root b)
      (bp_state_roots_siblings b) = Inr (bp_state_root b)"
proof -
  consider raw known where "parse_boundary_proof Z raw known config slot = Inr b"
    | r n where "b = make_boundary_proof Z r n \<lparr>sh_slot = slot, sh_block_root = froot, sh_state_root = sroot\<rparr>"
    using assms by (auto simp: boundary_opening_def Let_def split: option.splits)
  then have "state_root_from_history Z BLOCK_ROOTS_FIELD slot (bp_block_root b) (bp_block_roots_siblings b) =
      Inr (bp_state_root b) \<and>
    state_root_from_history Z STATE_ROOTS_FIELD slot (bp_boundary_state_root b) (bp_state_roots_siblings b) =
      Inr (bp_state_root b)"
  proof cases
    case 1
    then show ?thesis using parse_boundary_proof_opens(1,2) by blast
  next
    case 2
    from make_boundary_proof_opens [OF this] show ?thesis by simp
  qed
  then show "state_root_from_history Z BLOCK_ROOTS_FIELD slot (bp_block_root b) (bp_block_roots_siblings b) =
      Inr (bp_state_root b)"
    and "state_root_from_history Z STATE_ROOTS_FIELD slot (bp_boundary_state_root b)
      (bp_state_roots_siblings b) = Inr (bp_state_root b)"
    by simp_all
qed

lemma build_boundary_Inr:
  assumes "build_boundary Z node config jroot e froot sroot current = Inr a"
  obtains h where "get_header node (By_root jroot) = Inr h" "justified_header a = hr_fields h"
    "state_root_from_history Z BLOCK_ROOTS_FIELD (e * slots_per_epoch config) froot (block_roots_siblings a) =
      Inr (hr_state_root h)"
    "state_root_from_history Z STATE_ROOTS_FIELD (e * slots_per_epoch config) sroot (state_roots_siblings a) =
      Inr (hr_state_root h)"
proof -
  from assms obtain h served b where h: "get_header node (By_root jroot) = Inr h"
    and b: "boundary_opening Z config (hr_fields h) (e * slots_per_epoch config) froot sroot current served = Inr b"
    and checked: "bp_state_root b = hr_state_root h" "bp_block_root b = froot" "bp_boundary_state_root b = sroot"
    and a: "justified_header a = hr_fields h" "block_roots_siblings a = bp_block_roots_siblings b"
      "state_roots_siblings a = bp_state_roots_siblings b"
    by (auto simp: build_boundary_def Let_def hr_fields_def)
  from boundary_opening_opens [OF b] show thesis
    unfolding checked by (intro that [of h]) (simp_all add: h a)
qed

lemma build_boundary_open:
  assumes "build_boundary Z node config jroot e froot sroot current = Inr a"
    and "get_header node (By_root jroot) = Inr h"
  shows "open_boundary Z a e froot jroot sroot (slots_per_epoch config) = Inr () \<longleftrightarrow>
    hr_root Z h = jroot \<and> e * slots_per_epoch config < hr_slot h \<and>
    hr_slot h - e * slots_per_epoch config \<le> SLOTS_PER_HISTORICAL_ROOT"
proof -
  from assms obtain "justified_header a = hr_fields h" and
    "state_root_from_history Z BLOCK_ROOTS_FIELD (e * slots_per_epoch config) froot (block_roots_siblings a) =
      Inr (hr_state_root h)"
    "state_root_from_history Z STATE_ROOTS_FIELD (e * slots_per_epoch config) sroot (state_roots_siblings a) =
      Inr (hr_state_root h)"
    by (elim build_boundary_Inr) simp
  then show ?thesis
    by (simp add: open_boundary_Inr Let_def hr_root_def hr_fields_def)
qed

text \<open>Where the node serves no state, only a header that carries the synthetic root is anchored.\<close>

lemma build_boundary_unserved:
  assumes "get_header node (By_root jroot) = Inr h" "get_state_ssz node (By_root (hr_state_root h)) = Inr None"
    "get_state_ssz node (By_slot (hr_slot h)) = Inr None"
    and "bp_state_root (make_boundary_proof Z (es_ssz_data_root current) (es_num_validators current)
      \<lparr>sh_slot = e * slots_per_epoch config, sh_block_root = froot, sh_state_root = sroot\<rparr>) \<noteq> hr_state_root h"
  shows "build_boundary Z node config jroot e froot sroot current = Inl (StateNotServed (hr_slot h))"
  using assms
  by (simp add: build_boundary_def served_state_def boundary_opening_def hr_fields_def Let_def)

end
