(* ===== verification/HostEpochRun.thy ===== *)
theory HostEpochRun
  imports HostEpochDiff
begin

text \<open>
  The host's epoch diff against the guest's: what \<open>HostEpochDiff.build_held\<close> makes, run through
  \<open>EpochDiff.verify_epoch_diff_with_depth\<close>, and the invariant it hands to the next epoch.
\<close>

section \<open>What a run holds\<close>

text \<open>The library the host reads keys with and the guest's own decompression answer alike.\<close>

definition keys_ok :: "zisk \<Rightarrow> blst_key \<Rightarrow> validator_response list \<Rightarrow> bool" where
  "keys_ok Z blst vs \<longleftrightarrow> (\<forall>v\<in>set vs. length (vr_pubkey v) = 48 \<and>
     (\<exists>p. host_decompress blst (vr_pubkey v) = Some p \<and> decompress_pubkey Z (vr_pubkey v) = Some p))"

text \<open>A registry only grows, and a validator keeps its key.\<close>

definition extends :: "validator_response list \<Rightarrow> validator_response list \<Rightarrow> bool" where
  "extends olds news \<longleftrightarrow> length olds \<le> length news \<and>
     (\<forall>i<length olds. vr_pubkey (olds ! i) = vr_pubkey (news ! i))"

definition registry_data_root :: "zisk \<Rightarrow> nat \<Rightarrow> validator_response list \<Rightarrow> bytes32" where
  "registry_data_root Z ssz_depth vs =
     tree_root (sha256_pair Z) (ssz_leaf (build_validator_roots Z vs)) ssz_depth"

definition opens_registry :: "zisk \<Rightarrow> bytes32 \<Rightarrow> u64 \<Rightarrow> bytes32 \<Rightarrow> bytes32 list \<Rightarrow> bool" where
  "opens_registry Z data_root n state_root siblings \<longleftrightarrow>
     compute_ssz_merkle_root Z (list_hash_tree_root Z data_root n) BEACON_STATE_VALIDATORS_FIELD_INDEX
       siblings = state_root"

text \<open>The cached epoch describes the registry: its roots, their tree, and the path it was read by.\<close>

definition epoch_ok :: "zisk \<Rightarrow> nat \<Rightarrow> epoch_state \<Rightarrow> validator_response list \<Rightarrow> bool" where
  "epoch_ok Z ssz_depth es vs \<longleftrightarrow>
     es_num_validators es = of_nat (length vs) \<and>
     (es_validator_roots es \<noteq> [] \<longrightarrow> es_validator_roots es = build_validator_roots Z vs) \<and>
     (state_to_validators_siblings es \<noteq> [] \<longrightarrow>
        opens_registry Z (registry_data_root Z ssz_depth vs) (es_num_validators es) (es_state_root es)
          (state_to_validators_siblings es))"

section \<open>One mutation\<close>

lemma response_leaves_verify:
  assumes "length (vr_pubkey v) = 48"
  shows "verify_field_leaves Z (validator_response_to_data v) (validator_response_to_field_leaves Z v)
      (validator_response_to_pubkey_chunks v) = Inr ()"
  using assms
  by (simp add: verify_field_leaves_def validator_response_to_field_leaves_def
      validator_response_to_pubkey_chunks_def validator_response_to_data_def Let_def)

lemma keys_okD:
  assumes "keys_ok Z blst vs" "i < length vs"
  obtains p where "length (vr_pubkey (vs ! i)) = 48" "host_decompress blst (vr_pubkey (vs ! i)) = Some p"
    "decompress_pubkey Z (vr_pubkey (vs ! i)) = Some p"
  using assms by (auto simp: keys_ok_def dest!: nth_mem)

definition balance_at :: "validator_response list \<Rightarrow> u64 \<Rightarrow> nat \<Rightarrow> u64" where
  "balance_at vs e i = (if i < length vs then active_effective_balance (validator_response_to_data (vs ! i)) e else 0)"

lemma response_pubkey [simp]: "vd_pubkey (validator_response_to_data v) = vr_pubkey v"
  by (simp add: validator_response_to_data_def)

lemma host_registry_beyond: "length vs \<le> i \<Longrightarrow> registry_leaf Z (host_registry blst vs e) i = ZERO"
  by (simp add: host_registry_def validators_registry_def registry_leaf_def)

lemma host_registry_leaf:
  "i < length vs \<Longrightarrow> host_decompress blst (vr_pubkey (vs ! i)) = Some p \<Longrightarrow>
     registry_leaf Z (host_registry blst vs e) i = leaf Z p (balance_at vs e i)"
  by (simp add: host_registry_Some registry_leaf_def balance_at_def)

text \<open>The guest takes the mutation the host builds at a listed index.\<close>

lemma mutation_of_step:
  assumes keys: "keys_ok Z blst v2" "extends v1 v2" "unat k < length v2"
    and old: "L (unat k) = registry_leaf Z (host_registry blst v1 e1) (unat k)" "unat k < 2 ^ depth"
    and root: "df_acc_root st = tree_root (compress Z) L depth"
  shows "mutation_step Z e1 e2 st (mutation_of Z v1 v2 k (path_siblings (compress Z) L depth (unat k))) =
    Inr \<lparr>df_acc_root = tree_root (compress Z)
           (L(unat k := registry_leaf Z (host_registry blst v2 e2) (unat k))) depth,
         df_total = df_total st - balance_at v1 e1 (unat k) + balance_at v2 e2 (unat k),
         df_old_leaves = df_old_leaves st @ [(ssz_leaf (build_validator_roots Z v1) (unat k), k)],
         df_new_leaves = df_new_leaves st @ [(ssz_leaf (build_validator_roots Z v2) (unat k), k)]\<rparr>"
proof -
  obtain p where key: "length (vr_pubkey (v2 ! unat k)) = 48"
    "host_decompress blst (vr_pubkey (v2 ! unat k)) = Some p"
    "decompress_pubkey Z (vr_pubkey (v2 ! unat k)) = Some p"
    using keys_okD [OF keys(1,3)] by blast
  note new = host_registry_leaf [OF keys(3) key(2), of Z e2]
  have same: "tree_root (compress Z) (L(unat k := L (unat k))) depth = df_acc_root st" by (simp add: root)
  note path = compute_root_path [OF old(2), of "compress Z" _ L]
  show ?thesis
  proof (cases "unat k < length v1")
    case True
    then have pk: "vr_pubkey (v1 ! unat k) = vr_pubkey (v2 ! unat k)" using keys(2) by (simp add: extends_def)
    then have L: "L (unat k) = leaf Z p (balance_at v1 e1 (unat k))"
      using old(1) host_registry_leaf [OF True, of blst p Z e1] key(2) by simp
    note leaves = response_leaves_verify [of "v2 ! unat k" Z] response_leaves_verify [of "v1 ! unat k" Z]
    show ?thesis
      using True keys(3) key leaves same
      by (simp add: mutation_step_def mutation_of_def open_existing_def verify_field_leaves_split pk path new
          validator_hash_tree_root_pair_eq balance_at_def ssz_leaf_def build_validator_roots_def L
          validator_response_to_field_leaves_def validator_response_to_pubkey_chunks_def Let_def)
  next
    case False
    then have L: "L (unat k) = ZERO" using old(1) by (simp add: host_registry_beyond)
    show ?thesis
      using False keys(3) key response_leaves_verify [of "v2 ! unat k" Z] same
      by (simp add: mutation_step_def mutation_of_def open_new_def path new balance_at_def ssz_leaf_def
          build_validator_roots_def L Let_def)
  qed
qed

section \<open>All mutations\<close>

definition written_leaves ::
  "zisk \<Rightarrow> blst_key \<Rightarrow> validator_response list \<Rightarrow> u64 \<Rightarrow> u64 list \<Rightarrow> (nat \<Rightarrow> digest) \<Rightarrow> nat \<Rightarrow> digest" where
  "written_leaves Z blst v2 e2 ks L i =
     (if i \<in> unat ` set ks then registry_leaf Z (host_registry blst v2 e2) i else L i)"

lemma written_leaves_Nil: "written_leaves Z blst v2 e2 [] L = L"
  by (simp add: written_leaves_def fun_eq_iff)

lemma written_leaves_Cons:
  "written_leaves Z blst v2 e2 (k # ks) L =
     written_leaves Z blst v2 e2 ks (L(unat k := registry_leaf Z (host_registry blst v2 e2) (unat k)))"
  by (auto simp: written_leaves_def fun_eq_iff)

definition balance_moved ::
  "validator_response list \<Rightarrow> validator_response list \<Rightarrow> u64 \<Rightarrow> u64 \<Rightarrow> u64 list \<Rightarrow> u64" where
  "balance_moved v1 v2 e1 e2 ks = sum_list (map (\<lambda>k. balance_at v2 e2 (unat k) - balance_at v1 e1 (unat k)) ks)"

lemma build_mutations_run:
  assumes "keys_ok Z blst v2" "extends v1 v2" "distinct ks" "\<forall>k\<in>set ks. unat k < length v2"
    and "acc_tree_ok Z t" "length v2 \<le> 2 ^ dense_depth t"
    and "\<forall>k\<in>set ks. stored_leaf t (unat k) = registry_leaf Z (host_registry blst v1 e1) (unat k)"
    and "df_acc_root st = acc_tree_root Z t"
  shows "\<exists>t' ms'. fold_res (build_mutation Z blst v1 v2 e2) (t, ms) ks = Inr (t', ms @ ms') \<and>
    acc_tree_ok Z t' \<and> dense_depth t' = dense_depth t \<and> tree_depth t' = tree_depth t \<and>
    stored_leaf t' = written_leaves Z blst v2 e2 ks (stored_leaf t) \<and>
    list_all (\<lambda>m. length (acc_siblings m) = tree_depth t) ms' \<and>
    fold_res (mutation_step Z e1 e2) st ms' =
      Inr \<lparr>df_acc_root = acc_tree_root Z t',
           df_total = df_total st + balance_moved v1 v2 e1 e2 ks,
           df_old_leaves = df_old_leaves st @ map (\<lambda>k. (ssz_leaf (build_validator_roots Z v1) (unat k), k)) ks,
           df_new_leaves = df_new_leaves st @ map (\<lambda>k. (ssz_leaf (build_validator_roots Z v2) (unat k), k)) ks\<rparr>"
  using assms
proof (induction ks arbitrary: t ms st)
  case Nil
  then show ?case by (simp add: written_leaves_Nil balance_moved_def)
next
  case (Cons k ks)
  let ?v = "registry_leaf Z (host_registry blst v2 e2) (unat k)"
  let ?path = "path_siblings (compress Z) (stored_leaf t) (tree_depth t) (unat k)"
  let ?m = "mutation_of Z v1 v2 k ?path"
  have k: "unat k < length v2" "unat k < 2 ^ dense_depth t" using Cons.prems(4,6) by auto
  have "(2 :: nat) ^ dense_depth t \<le> 2 ^ tree_depth t" using acc_tree_okD(2) [OF Cons.prems(5)] by simp
  then have deep: "unat k < 2 ^ tree_depth t" using k(2) by linarith
  obtain p where p: "host_decompress blst (vr_pubkey (v2 ! unat k)) = Some p"
    using keys_okD [OF Cons.prems(1) k(1)] by blast
  obtain t1 where t1: "update_leaf Z t k ?v = Inr (t1, ?path)" "acc_tree_ok Z t1"
      "tree_depth t1 = tree_depth t" "dense_depth t1 = dense_depth t"
      "stored_leaf t1 = (stored_leaf t)(unat k := ?v)"
    using update_leaf_ok [OF Cons.prems(5) k(2), of ?v] by blast
  have leaf: "leaf Z p (active_effective_balance (validator_response_to_data (v2 ! unat k)) e2) = ?v"
    using host_registry_leaf [OF k(1) p] k(1) by (simp add: balance_at_def)
  have build: "build_mutation Z blst v1 v2 e2 (t, ms) k = Inr (t1, ms @ [?m])"
    using t1(1) by (simp add: build_mutation_def p leaf)
  obtain st1 where step: "mutation_step Z e1 e2 st ?m = Inr st1"
    and st1: "st1 = \<lparr>df_acc_root = tree_root (compress Z) ((stored_leaf t)(unat k := ?v)) (tree_depth t),
         df_total = df_total st - balance_at v1 e1 (unat k) + balance_at v2 e2 (unat k),
         df_old_leaves = df_old_leaves st @ [(ssz_leaf (build_validator_roots Z v1) (unat k), k)],
         df_new_leaves = df_new_leaves st @ [(ssz_leaf (build_validator_roots Z v2) (unat k), k)]\<rparr>"
    using mutation_of_step [OF Cons.prems(1,2) k(1) _ deep] Cons.prems(7,8) acc_tree_root_eq [OF Cons.prems(5)]
    by simp
  have root: "df_acc_root st1 = acc_tree_root Z t1"
    using acc_tree_root_eq [OF t1(2)] by (simp add: st1 t1(3,5))
  have rest: "\<forall>k'\<in>set ks. stored_leaf t1 (unat k') = registry_leaf Z (host_registry blst v1 e1) (unat k')"
    using Cons.prems(3,7) by (auto simp: t1(5) simp flip: word_unat_eq_iff)
  have len: "length v2 \<le> 2 ^ dense_depth t1" using Cons.prems(6) by (simp add: t1(4))
  have below: "distinct ks" "\<forall>k\<in>set ks. unat k < length v2" using Cons.prems(3,4) by simp_all
  from Cons.IH [OF Cons.prems(1,2) below t1(2) len rest root, of "ms @ [?m]"]
  obtain t' ms' where ih: "fold_res (build_mutation Z blst v1 v2 e2) (t1, ms @ [?m]) ks = Inr (t', (ms @ [?m]) @ ms')"
    "acc_tree_ok Z t'" "dense_depth t' = dense_depth t" "tree_depth t' = tree_depth t"
    "stored_leaf t' = written_leaves Z blst v2 e2 (k # ks) (stored_leaf t)"
    "list_all (\<lambda>m. length (acc_siblings m) = tree_depth t) ms'"
    and guest: "fold_res (mutation_step Z e1 e2) st1 ms' = Inr \<lparr>df_acc_root = acc_tree_root Z t',
           df_total = df_total st1 + balance_moved v1 v2 e1 e2 ks,
           df_old_leaves = df_old_leaves st1 @ map (\<lambda>k. (ssz_leaf (build_validator_roots Z v1) (unat k), k)) ks,
           df_new_leaves = df_new_leaves st1 @ map (\<lambda>k. (ssz_leaf (build_validator_roots Z v2) (unat k), k)) ks\<rparr>"
    unfolding written_leaves_Cons t1(3-5) by blast
  have "length (acc_siblings ?m) = tree_depth t" by (simp add: mutation_of_def Let_def)
  then show ?case
    using ih build step guest
    by (intro exI [of _ t'] exI [of _ "?m # ms'"])
      (simp add: st1 balance_moved_def algebra_simps)
qed

section \<open>The balance\<close>

lemma balance_moved_sum:
  "distinct ks \<Longrightarrow> balance_moved v1 v2 e1 e2 ks =
     (\<Sum>i\<in>unat ` set ks. balance_at v2 e2 i - balance_at v1 e1 i)"
  by (simp add: balance_moved_def sum.distinct_set_conv_list [symmetric] sum.reindex inj_on_def word_unat_eq_iff)

lemma total_active_balance_sum:
  assumes "length vs \<le> n"
  shows "total_active_balance_of vs e = (\<Sum>i<n. balance_at vs e i)"
proof -
  have "total_active_balance_of vs e = (\<Sum>i<length vs. balance_at vs e i)"
    by (simp add: total_active_balance_of_def sum_list_sum_nth balance_at_def atLeast0LessThan)
  also have "\<dots> = (\<Sum>i<n. balance_at vs e i)"
    using assms by (intro sum.mono_neutral_left) (auto simp: balance_at_def)
  finally show ?thesis .
qed

text \<open>What the listed validators gain and lose is all that moves.\<close>

lemma find_mutations_balance:
  assumes "extends v1 v2" "length v2 < 2 ^ 64"
  shows "total_active_balance_of v1 e1 + balance_moved v1 v2 e1 e2 (find_mutations v1 v2 e1 e2) =
    total_active_balance_of v2 e2"
proof -
  let ?ks = "find_mutations v1 v2 e1 e2"
  let ?n = "length v2"
  have inc: "distinct ?ks" by (intro strictly_increasing_distinct find_mutations_increasing assms(2))
  have sub: "unat ` set ?ks \<subseteq> {..<?n}" using find_mutations_below [OF _ assms(2)] by auto
  have "balance_at v2 e2 i - balance_at v1 e1 i = 0" if i: "i \<in> {..<?n} - unat ` set ?ks" for i
  proof -
    have "of_nat i \<notin> set ?ks"
    proof
      assume "of_nat i \<in> set ?ks"
      then have "unat (of_nat i :: u64) \<in> unat ` set ?ks" by blast
      then show False using i assms(2) by (simp add: unat_index)
    qed
    moreover have "i < length v1"
      using calculation find_mutations_mem [of i v2 v1 e1 e2] i assms(2) by auto
    ultimately show ?thesis
      using unlisted_same(3) [of i v2 v1 e1 e2] i assms by (simp add: balance_at_def extends_def)
  qed
  then have "(\<Sum>i<?n. balance_at v2 e2 i - balance_at v1 e1 i) = balance_moved v1 v2 e1 e2 ?ks"
    unfolding balance_moved_sum [OF inc] by (intro sum.mono_neutral_right sub) auto
  moreover have "total_active_balance_of v1 e1 = (\<Sum>i<?n. balance_at v1 e1 i)"
    "total_active_balance_of v2 e2 = (\<Sum>i<?n. balance_at v2 e2 i)"
    using assms(1) by (simp_all add: total_active_balance_sum extends_def)
  ultimately show ?thesis by (simp add: sum_subtractf algebra_simps)
qed

section \<open>The accumulator and the SSZ trees\<close>

lemma unlisted_index:
  assumes "length v2 < 2 ^ 64" "i < length v2" "i \<notin> unat ` set (find_mutations v1 v2 e1 e2)"
  shows "of_nat i \<notin> set (find_mutations v1 v2 e1 e2)" "i < length v1"
proof -
  show "of_nat i \<notin> set (find_mutations v1 v2 e1 e2)"
  proof
    assume "of_nat i \<in> set (find_mutations v1 v2 e1 e2)"
    then have "unat (of_nat i :: u64) \<in> unat ` set (find_mutations v1 v2 e1 e2)" by blast
    then show False using assms by (simp add: unat_index)
  qed
  then show "i < length v1" using find_mutations_mem [of i v2 v1 e1 e2] assms by auto
qed

lemma written_leaves_registry:
  assumes "keys_ok Z blst v2" "extends v1 v2" "length v2 < 2 ^ 64"
    and "L i = registry_leaf Z (host_registry blst v1 e1) i"
  shows "written_leaves Z blst v2 e2 (find_mutations v1 v2 e1 e2) L i =
    registry_leaf Z (host_registry blst v2 e2) i"
proof (cases "i \<in> unat ` set (find_mutations v1 v2 e1 e2)")
  case False
  show ?thesis
  proof (cases "i < length v2")
    case True
    note u = unlisted_index [OF assms(3) True False]
    have pk: "vr_pubkey (v1 ! i) = vr_pubkey (v2 ! i)" using assms(2) u(2) by (simp add: extends_def)
    obtain p where p: "host_decompress blst (vr_pubkey (v2 ! i)) = Some p"
      using keys_okD [OF assms(1) True] by blast
    show ?thesis
      using False True u(2) unlisted_same(3) [OF True assms(3) u(1) pk]
      by (simp add: written_leaves_def assms(4) host_registry_leaf [OF u(2), of blst p] pk p
          host_registry_leaf [OF True p] balance_at_def)
  next
    case beyond: False
    then have "length v1 \<le> i" "length v2 \<le> i" using assms(2) by (simp_all add: extends_def)
    then show ?thesis using False by (simp add: written_leaves_def assms(4) host_registry_beyond)
  qed
qed (simp add: written_leaves_def)

lemma refresh_roots_nth:
  assumes "\<forall>k\<in>set ks. unat k < length roots" "i < length roots"
  shows "length (foldl (refresh_root Z v2) roots ks) = length roots"
    and "foldl (refresh_root Z v2) roots ks ! i =
      (if i \<in> unat ` set ks then validator_hash_tree_root Z (validator_response_to_field_leaves Z (v2 ! i))
       else roots ! i)"
  using assms
proof (induction ks arbitrary: roots)
  case (Cons k ks)
  {
    case 1
    then show ?case using Cons.IH(1) [of "refresh_root Z v2 roots k"] by (simp add: refresh_root_def)
  next
    case 2
    then show ?case
      using Cons.IH(2) [of "refresh_root Z v2 roots k"]
      by (auto simp: refresh_root_def nth_list_update)
  }
qed simp_all

lemma length_validator_roots [simp]: "length (build_validator_roots Z vs) = length vs"
  by (simp add: build_validator_roots_def)

lemma validator_roots_nth:
  "i < length vs \<Longrightarrow> build_validator_roots Z vs ! i =
     validator_hash_tree_root Z (validator_response_to_field_leaves Z (vs ! i))"
  by (simp add: build_validator_roots_def)

text \<open>Updating the listed roots gives the roots of the new registry.\<close>

lemma refreshed_roots:
  assumes "extends v1 v2" "length v2 < 2 ^ 64"
  shows "foldl (refresh_root Z v2) (resize_roots (length v2) (build_validator_roots Z v1))
      (find_mutations v1 v2 e1 e2) = build_validator_roots Z v2"
proof -
  let ?ks = "find_mutations v1 v2 e1 e2"
  let ?roots = "resize_roots (length v2) (build_validator_roots Z v1)"
  have len: "length ?roots = length v2" by (simp add: resize_roots_def)
  have below: "\<forall>k\<in>set ?ks. unat k < length ?roots"
    using find_mutations_below [OF _ assms(2)] by (simp add: len)
  show ?thesis
  proof (cases v2)
    case Nil
    then show ?thesis using below assms(1)
      by (cases ?ks) (simp_all add: len extends_def resize_roots_def build_validator_roots_def)
  next
    case (Cons v vs)
    then have pos: "0 < length ?roots" unfolding len by simp
    show ?thesis
    proof (rule nth_equalityI)
      show "length (foldl (refresh_root Z v2) ?roots ?ks) = length (build_validator_roots Z v2)"
        unfolding refresh_roots_nth(1) [OF below pos] len by simp
      fix i assume "i < length (foldl (refresh_root Z v2) ?roots ?ks)"
      then have i: "i < length v2" unfolding refresh_roots_nth(1) [OF below pos] len .
      have "?roots ! i = validator_hash_tree_root Z (validator_response_to_field_leaves Z (v2 ! i))"
        if un: "i \<notin> unat ` set ?ks"
      proof -
        note u = unlisted_index [OF assms(2) i un]
        have "vr_pubkey (v1 ! i) = vr_pubkey (v2 ! i)" using assms(1) u(2) by (simp add: extends_def)
        from unlisted_same(2) [OF i assms(2) u(1) this] show ?thesis
          using u(2) i by (simp add: resize_roots_def build_validator_roots_def nth_append)
      qed
      then show "foldl (refresh_root Z v2) ?roots ?ks ! i = build_validator_roots Z v2 ! i"
        using refresh_roots_nth(2) [OF below, of i Z v2] i by (simp add: len validator_roots_nth)
    qed
  qed
qed

lemma old_roots_of_ok:
  "epoch_ok Z depth es v1 \<Longrightarrow> old_roots_of Z es v1 = build_validator_roots Z v1"
  by (auto simp: epoch_ok_def old_roots_of_def)

text \<open>Both trees have the roots of their registries, and both multi-proofs verify.\<close>

lemma build_ssz_views_ok:
  assumes "epoch_ok Z depth es v1" "extends v1 v2" "length v2 < 2 ^ 64"
    and "length v2 \<le> 2 ^ ssz_dense_depth (length v1) depth"
    and ks: "ks = find_mutations v1 v2 e1 e2" "ks \<noteq> []"
  obtains proof1 proof2 where
    "build_ssz_views Z depth es v1 v2 ks = Inr
       \<lparr>sv_old_data_root = registry_data_root Z depth v1, sv_old_proof = proof1,
        sv_new_data_root = registry_data_root Z depth v2, sv_new_proof = proof2,
        sv_new_roots = build_validator_roots Z v2\<rparr>"
    "verify_ssz_multi_proof Z (map (\<lambda>k. (ssz_leaf (build_validator_roots Z v1) (unat k), k)) ks) proof1 depth =
       Inr (registry_data_root Z depth v1)"
    "verify_ssz_multi_proof Z (map (\<lambda>k. (ssz_leaf (build_validator_roots Z v2) (unat k), k)) ks) proof2 depth =
       Inr (registry_data_root Z depth v2)"
proof -
  have "(2 :: nat) ^ ssz_dense_depth (length v1) depth \<le> 2 ^ depth" by (simp add: ssz_dense_depth_def)
  with assms(4) have "length v2 \<le> 2 ^ depth" by (rule order_trans)
  then have fits2: "length (build_validator_roots Z v2) \<le> 2 ^ depth" by simp
  then have fits1: "length (build_validator_roots Z v1) \<le> 2 ^ depth" using assms(2) by (simp add: extends_def)
  have inc: "strictly_increasing ks" unfolding ks(1) by (rule find_mutations_increasing [OF assms(3)])
  have below: "unat k < length v2" if "k \<in> set ks" for k
    using that unfolding ks(1) by (rule find_mutations_below [OF _ assms(3)])
  obtain aux1 where one: "build_validators_ssz_tree Z (build_validator_roots Z v1) depth ks =
      Inr (registry_data_root Z depth v1, aux1)"
    "\<forall>k\<in>set ks. unat k < 2 ^ ssz_dense_depth (length v1) depth \<Longrightarrow>
      verify_ssz_multi_proof Z (map (\<lambda>k. (ssz_leaf (build_validator_roots Z v1) (unat k), k)) ks) aux1 depth =
        Inr (registry_data_root Z depth v1)"
    using build_validators_ssz_tree_Inr [OF fits1, of Z ks] ks(2) inc
    by (auto simp: registry_data_root_def)
  obtain aux2 where two: "build_validators_ssz_tree Z (build_validator_roots Z v2) depth ks =
      Inr (registry_data_root Z depth v2, aux2)"
    "\<forall>k\<in>set ks. unat k < 2 ^ ssz_dense_depth (length v2) depth \<Longrightarrow>
      verify_ssz_multi_proof Z (map (\<lambda>k. (ssz_leaf (build_validator_roots Z v2) (unat k), k)) ks) aux2 depth =
        Inr (registry_data_root Z depth v2)"
    using build_validators_ssz_tree_Inr [OF fits2, of Z ks] ks(2) inc
    by (auto simp: registry_data_root_def)
  have "length v2 \<le> 2 ^ ssz_dense_depth (length v2) depth"
    using ssz_dense_depth_fits [of "length v2" depth] fits2 by simp
  then have "verify_ssz_multi_proof Z (map (\<lambda>k. (ssz_leaf (build_validator_roots Z v2) (unat k), k)) ks) aux2
      depth = Inr (registry_data_root Z depth v2)"
    using below by (intro two(2)) fastforce
  moreover have "verify_ssz_multi_proof Z (map (\<lambda>k. (ssz_leaf (build_validator_roots Z v1) (unat k), k)) ks) aux1
      depth = Inr (registry_data_root Z depth v1)"
    using below assms(4) by (intro one(2)) fastforce
  moreover have "build_ssz_views Z depth es v1 v2 ks = Inr
       \<lparr>sv_old_data_root = registry_data_root Z depth v1, sv_old_proof = aux1,
        sv_new_data_root = registry_data_root Z depth v2, sv_new_proof = aux2,
        sv_new_roots = build_validator_roots Z v2\<rparr>"
    using one(1) two(1) refreshed_roots [OF assms(2,3), of Z e1 e2]
    by (simp add: build_ssz_views_def old_roots_of_ok [OF assms(1)] ks(1) Let_def)
  ultimately show thesis by (intro that [of aux1 aux2])
qed

section \<open>The state roots\<close>

lemma checked_state_proof_opens:
  assumes "checked_state_proof Z node config slot (list_hash_tree_root Z r n) raw = Inr (root, siblings)"
  shows "opens_registry Z r n root siblings" "claimed_state_root node slot = Inr root"
  using assms parse_state_proof_opens(1)
  by (auto simp: checked_state_proof_def opens_registry_def)

lemma old_state_proof_opens:
  assumes "old_state_proof Z node config es (registry_data_root Z depth v1) = Inr (root, siblings)"
    and "epoch_ok Z depth es v1"
  shows "opens_registry Z (registry_data_root Z depth v1) (es_num_validators es) root siblings"
  using assms make_state_proof_opens checked_state_proof_opens(1)
  by (fastforce simp: old_state_proof_def epoch_ok_def opens_registry_def Let_def
      split: if_splits option.splits)

lemma new_state_proof_opens:
  assumes "new_state_proof Z node config slot1 root1 slot2 r n = Inr (root, siblings)"
  shows "opens_registry Z r n root siblings"
  using assms make_state_proof_opens checked_state_proof_opens(1)
  by (fastforce simp: new_state_proof_def opens_registry_def Let_def split: option.splits)

section \<open>The epoch\<close>

text \<open>
  A run is in step with a registry when its tree holds it and its cached epoch describes it; the next
  registry must leave the stored levels of both trees, which are sized when a tree is built.
\<close>

definition in_step ::
  "zisk \<Rightarrow> blst_key \<Rightarrow> chain_config \<Rightarrow> acc_tree \<Rightarrow> epoch_state \<Rightarrow> validator_response list \<Rightarrow> bool" where
  "in_step Z blst config t es vs \<longleftrightarrow>
     tree_holds Z blst t vs (es_slot es div slots_per_epoch config) \<and>
     tree_depth t = acc_tree_depth config \<and> epoch_ok Z (validators_tree_depth config) es vs"

definition next_registry ::
  "zisk \<Rightarrow> blst_key \<Rightarrow> chain_config \<Rightarrow> nat \<Rightarrow> validator_response list \<Rightarrow> validator_response list \<Rightarrow> bool" where
  "next_registry Z blst config dense v1 v2 \<longleftrightarrow>
     keys_ok Z blst v2 \<and> extends v1 v2 \<and> length v2 < 2 ^ 64 \<and> length v2 \<le> 2 ^ dense \<and>
     length v2 \<le> 2 ^ ssz_dense_depth (length v1) (validators_tree_depth config)"

lemma build_mutations_epoch:
  assumes "in_step Z blst config t es v1" "next_registry Z blst config (dense_depth t) v1 v2"
    and ks: "ks = find_mutations v1 v2 (es_slot es div slots_per_epoch config) e2"
    and st: "df_acc_root st = acc_tree_root Z t" "df_total st = total_active_balance_of v1 (es_slot es div slots_per_epoch config)"
  obtains t' ms where "fold_res (build_mutation Z blst v1 v2 e2) (t, []) ks = Inr (t', ms)"
    "tree_holds Z blst t' v2 e2" "tree_depth t' = acc_tree_depth config" "dense_depth t' = dense_depth t"
    "list_all (\<lambda>m. length (acc_siblings m) = acc_tree_depth config) ms"
    "fold_res (mutation_step Z (es_slot es div slots_per_epoch config) e2) st ms =
      Inr \<lparr>df_acc_root = acc_tree_root Z t',
           df_total = total_active_balance_of v2 e2,
           df_old_leaves = df_old_leaves st @ map (\<lambda>k. (ssz_leaf (build_validator_roots Z v1) (unat k), k)) ks,
           df_new_leaves = df_new_leaves st @ map (\<lambda>k. (ssz_leaf (build_validator_roots Z v2) (unat k), k)) ks\<rparr>"
proof -
  define e1 where "e1 = es_slot es div slots_per_epoch config"
  have holds: "acc_tree_ok Z t" "length v1 \<le> 2 ^ dense_depth t" "tree_depth t = acc_tree_depth config"
    "\<And>i. i < 2 ^ dense_depth t \<Longrightarrow> stored_leaf t i = registry_leaf Z (host_registry blst v1 e1) i"
    using assms(1) by (simp_all add: in_step_def tree_holds_def e1_def)
  have nxt: "keys_ok Z blst v2" "extends v1 v2" "length v2 < 2 ^ 64" "length v2 \<le> 2 ^ dense_depth t"
    using assms(2) by (simp_all add: next_registry_def)
  have below: "\<forall>k\<in>set ks. unat k < length v2"
    using find_mutations_below [OF _ nxt(3)] by (simp add: ks)
  have dist: "distinct ks"
    unfolding ks by (intro strictly_increasing_distinct find_mutations_increasing nxt(3))
  have stored: "\<forall>k\<in>set ks. stored_leaf t (unat k) = registry_leaf Z (host_registry blst v1 e1) (unat k)"
    using below nxt(4) by (auto intro!: holds(4))
  obtain t' ms where run: "fold_res (build_mutation Z blst v1 v2 e2) (t, []) ks = Inr (t', ms)"
    "acc_tree_ok Z t'" "dense_depth t' = dense_depth t" "tree_depth t' = tree_depth t"
    "stored_leaf t' = written_leaves Z blst v2 e2 ks (stored_leaf t)"
    "list_all (\<lambda>m. length (acc_siblings m) = tree_depth t) ms"
    "fold_res (mutation_step Z e1 e2) st ms = Inr \<lparr>df_acc_root = acc_tree_root Z t',
           df_total = df_total st + balance_moved v1 v2 e1 e2 ks,
           df_old_leaves = df_old_leaves st @ map (\<lambda>k. (ssz_leaf (build_validator_roots Z v1) (unat k), k)) ks,
           df_new_leaves = df_new_leaves st @ map (\<lambda>k. (ssz_leaf (build_validator_roots Z v2) (unat k), k)) ks\<rparr>"
    using build_mutations_run [OF nxt(1,2) dist below holds(1) nxt(4) stored st(1), of e2 "[]"] by auto
  have "stored_leaf t' i = registry_leaf Z (host_registry blst v2 e2) i" if i: "i < 2 ^ dense_depth t'" for i
    unfolding run(5) ks e1_def [symmetric]
    by (rule written_leaves_registry [OF nxt(1-3) holds(4)]) (use i run(3) in simp)
  then have "tree_holds Z blst t' v2 e2" using run(2,3) nxt(4) by (simp add: tree_holds_def)
  moreover have "df_total st + balance_moved v1 v2 e1 e2 ks = total_active_balance_of v2 e2"
    using find_mutations_balance [OF nxt(2,3), of e1 e2] by (simp add: st(2) ks e1_def)
  ultimately show thesis
    using run holds(3) by (intro that [of t' ms]) (simp_all add: e1_def)
qed

text \<open>What the host returns, and the guest's verdict on it.\<close>

lemma build_held_run:
  assumes "in_step Z blst config t es v1" "next_registry Z blst config (dense_depth t) v1 v2"
    and "total_1 = total_active_balance_of v1 (es_slot es div slots_per_epoch config)"
    and "find_mutations v1 v2 (es_slot es div slots_per_epoch config) (slot_2 div slots_per_epoch config) \<noteq> []"
    and p1: "old_state_proof Z node config es (registry_data_root Z (validators_tree_depth config) v1) = Inr (r1, s1)"
    and p2: "new_state_proof Z node config (es_slot es) r1 slot_2
      (registry_data_root Z (validators_tree_depth config) v2) (of_nat (length v2)) = Inr (r2, s2)"
  obtains b where "build_held Z blst node config t es v1 v2 slot_2 total_1 = Inr b"
    "in_step Z blst config (eb_tree b) (eb_state b) v2" "es_slot (eb_state b) = slot_2"
    "dense_depth (eb_tree b) = dense_depth t"
    "epoch_1 (eb_witness b) = es_slot es div slots_per_epoch config"
    "epoch_2 (eb_witness b) = slot_2 div slots_per_epoch config"
    "eb_total b = total_active_balance_of v2 (slot_2 div slots_per_epoch config)"
    "eb_num_validators b = of_nat (length v2)"
    "verify_epoch_diff_with_depth Z (eb_witness b) (validators_tree_depth config) (acc_tree_depth config) =
      Inr \<lparr>ed_prev_accumulator_commitment = commitment Z (acc_tree_root Z t) total_1,
           ed_state_root_1 = r1, ed_epoch_1 = es_slot es div slots_per_epoch config,
           ed_accumulator_commitment = commitment Z (acc_tree_root Z (eb_tree b)) (eb_total b),
           ed_acc_root = acc_tree_root Z (eb_tree b),
           ed_total_active_balance = eb_total b,
           ed_state_root_2 = r2, ed_epoch_2 = slot_2 div slots_per_epoch config\<rparr>"
proof -
  define e1 where "e1 = es_slot es div slots_per_epoch config"
  define e2 where "e2 = slot_2 div slots_per_epoch config"
  define ks where "ks = find_mutations v1 v2 e1 e2"
  define st where "st = \<lparr>df_acc_root = acc_tree_root Z t, df_total = total_1,
    df_old_leaves = ([] :: (bytes32 \<times> u64) list), df_new_leaves = ([] :: (bytes32 \<times> u64) list)\<rparr>"
  let ?d = "validators_tree_depth config"
  have ep: "epoch_ok Z ?d es v1" using assms(1) by (simp add: in_step_def)
  have nxt: "extends v1 v2" "length v2 < 2 ^ 64" "length v2 \<le> 2 ^ ssz_dense_depth (length v1) ?d"
    using assms(2) by (simp_all add: next_registry_def)
  have ne: "ks \<noteq> []" using assms(4) by (simp add: ks_def e1_def e2_def)
  from build_ssz_views_ok [OF ep nxt ks_def ne] obtain pf1 pf2 where
    views: "build_ssz_views Z ?d es v1 v2 ks = Inr
       \<lparr>sv_old_data_root = registry_data_root Z ?d v1, sv_old_proof = pf1,
        sv_new_data_root = registry_data_root Z ?d v2, sv_new_proof = pf2,
        sv_new_roots = build_validator_roots Z v2\<rparr>"
    and multi: "verify_ssz_multi_proof Z (map (\<lambda>k. (ssz_leaf (build_validator_roots Z v1) (unat k), k)) ks) pf1 ?d =
       Inr (registry_data_root Z ?d v1)"
      "verify_ssz_multi_proof Z (map (\<lambda>k. (ssz_leaf (build_validator_roots Z v2) (unat k), k)) ks) pf2 ?d =
       Inr (registry_data_root Z ?d v2)" .
  have st': "df_acc_root st = acc_tree_root Z t" "df_total st = total_active_balance_of v1 e1"
    by (simp_all add: st_def assms(3) e1_def)
  obtain t' ms where run: "fold_res (build_mutation Z blst v1 v2 e2) (t, []) ks = Inr (t', ms)"
    "tree_holds Z blst t' v2 e2" "tree_depth t' = acc_tree_depth config" "dense_depth t' = dense_depth t"
    "list_all (\<lambda>m. length (acc_siblings m) = acc_tree_depth config) ms"
    and guest: "fold_res (mutation_step Z e1 e2) st ms =
      Inr \<lparr>df_acc_root = acc_tree_root Z t', df_total = total_active_balance_of v2 e2,
           df_old_leaves = map (\<lambda>k. (ssz_leaf (build_validator_roots Z v1) (unat k), k)) ks,
           df_new_leaves = map (\<lambda>k. (ssz_leaf (build_validator_roots Z v2) (unat k), k)) ks\<rparr>"
    using build_mutations_epoch [OF assms(1,2) ks_def [unfolded e1_def] st' [unfolded e1_def]]
    by (auto simp: st_def e1_def)
  have open1: "opens_registry Z (registry_data_root Z ?d v1) (es_num_validators es) r1 s1"
    by (rule old_state_proof_opens [OF p1 ep])
  have open2: "opens_registry Z (registry_data_root Z ?d v2) (of_nat (length v2)) r2 s2"
    by (rule new_state_proof_opens [OF p2])
  define b where "b =
    \<lparr>eb_witness = \<lparr>state_root_1 = r1, state_root_2 = r2, acc_root_1 = acc_tree_root Z t,
       total_active_balance_1 = total_1, epoch_1 = e1, epoch_2 = e2,
       state_to_validators_siblings_1 = s1, state_to_validators_siblings_2 = s2,
       validators_list_length_1 = es_num_validators es, validators_list_length_2 = of_nat (length v2),
       mutations = ms, ssz_multi_proof_1 = pf1, ssz_multi_proof_2 = pf2\<rparr>,
     eb_state = \<lparr>es_slot = slot_2, es_state_root = r2, state_to_validators_siblings = s2,
       es_validator_roots = build_validator_roots Z v2, es_ssz_data_root = registry_data_root Z ?d v2,
       es_num_validators = of_nat (length v2)\<rparr>,
     eb_total = total_active_balance_of v2 e2, eb_num_validators = of_nat (length v2), eb_tree = t'\<rparr>"
  have built: "build_held Z blst node config t es v1 v2 slot_2 total_1 = Inr b"
    using ne p1 p2 run(1) views
    by (simp add: build_held_def ks_def e1_def e2_def b_def Let_def)
  have "in_step Z blst config (eb_tree b) (eb_state b) v2"
    using run(2,3) open2 by (simp add: in_step_def b_def e2_def epoch_ok_def)
  moreover have "verify_epoch_diff_with_depth Z (eb_witness b) ?d (acc_tree_depth config) =
      Inr \<lparr>ed_prev_accumulator_commitment = commitment Z (acc_tree_root Z t) total_1,
           ed_state_root_1 = r1, ed_epoch_1 = e1,
           ed_accumulator_commitment = commitment Z (acc_tree_root Z t') (total_active_balance_of v2 e2),
           ed_acc_root = acc_tree_root Z t', ed_total_active_balance = total_active_balance_of v2 e2,
           ed_state_root_2 = r2, ed_epoch_2 = e2\<rparr>"
    using run(5) guest multi open1 open2
    by (simp add: verify_epoch_diff_with_depth_def diff_init_def b_def st_def opens_registry_def)
  ultimately show thesis
    using built run(4) by (intro that [of b]) (simp_all add: b_def e1_def e2_def)
qed

section \<open>How it fails\<close>

fun node_failure :: "epoch_build_error \<Rightarrow> bool" where
  "node_failure (EpochNode _) = True"
| "node_failure (EpochStateParse _) = True"
| "node_failure (StateRootMismatchAt _) = True"
| "node_failure _ = False"

lemma checked_state_proof_fails:
  "checked_state_proof Z node config slot htr raw = Inl e \<Longrightarrow> node_failure e"
  by (auto simp: checked_state_proof_def)

lemma old_state_proof_fails: "old_state_proof Z node config es r = Inl e \<Longrightarrow> node_failure e"
  by (auto simp: old_state_proof_def Let_def
      split: if_splits option.splits dest: checked_state_proof_fails)

lemma new_state_proof_fails: "new_state_proof Z node config slot1 r1 slot2 r n = Inl e \<Longrightarrow> node_failure e"
  by (auto simp: new_state_proof_def Let_def
      split: option.splits dest: checked_state_proof_fails)

text \<open>In step, only the node or a registry in which nothing changed stops the host.\<close>

lemma build_held_fails:
  assumes "in_step Z blst config t es v1" "next_registry Z blst config (dense_depth t) v1 v2"
    and "total_1 = total_active_balance_of v1 (es_slot es div slots_per_epoch config)"
    and "build_held Z blst node config t es v1 v2 slot_2 total_1 = Inl e"
  shows "e = NoMutations \<or> node_failure e"
proof (cases "find_mutations v1 v2 (es_slot es div slots_per_epoch config) (slot_2 div slots_per_epoch config) = []")
  case True
  then show ?thesis using assms(4) by (simp add: build_held_def ensure_def Let_def)
next
  case ne: False
  let ?d = "validators_tree_depth config"
  let ?ks = "find_mutations v1 v2 (es_slot es div slots_per_epoch config) (slot_2 div slots_per_epoch config)"
  have ep: "epoch_ok Z ?d es v1" using assms(1) by (simp add: in_step_def)
  have nxt: "extends v1 v2" "length v2 < 2 ^ 64" "length v2 \<le> 2 ^ ssz_dense_depth (length v1) ?d"
    using assms(2) by (simp_all add: next_registry_def)
  obtain views where views: "build_ssz_views Z ?d es v1 v2 ?ks = Inr views"
    "sv_old_data_root views = registry_data_root Z ?d v1" "sv_new_data_root views = registry_data_root Z ?d v2"
    using build_ssz_views_ok [OF ep nxt refl ne] by (metis ssz_views.select_convs(1,3))
  show ?thesis
  proof (cases "old_state_proof Z node config es (registry_data_root Z ?d v1)")
    case (Inl x)
    then show ?thesis using assms(4) ne views old_state_proof_fails [OF Inl]
      by (simp add: build_held_def Let_def)
  next
    case (Inr p1)
    obtain r1 s1 where p1: "p1 = (r1, s1)" by (cases p1)
    show ?thesis
    proof (cases "new_state_proof Z node config (es_slot es) r1 slot_2 (registry_data_root Z ?d v2) (of_nat (length v2))")
      case (Inl x)
      then show ?thesis using assms(4) ne views Inr p1 new_state_proof_fails [OF Inl]
        by (simp add: build_held_def Let_def)
    next
      case new: (Inr p2)
      obtain r2 s2 where p2: "p2 = (r2, s2)" by (cases p2)
      obtain b where "build_held Z blst node config t es v1 v2 slot_2 total_1 = Inr b"
        using build_held_run [OF assms(1-3) ne Inr [unfolded p1] new [unfolded p2]] by blast
      then show ?thesis using assms(4) by simp
    qed
  qed
qed

text \<open>A registry that outgrows the stored levels of the tree ends the run: the tree does not grow.\<close>

lemma dense_siblings_Inl: "dense_siblings t k ds = Inl e \<Longrightarrow> e = TreeIndexOutOfBounds"
  by (induction t k ds rule: dense_siblings.induct) (auto simp: Let_def)

lemma update_leaf_beyond:
  assumes "acc_tree_ok Z t" "2 ^ dense_depth t \<le> unat k"
  shows "update_leaf Z t k v = Inl TreeIndexOutOfBounds"
proof -
  have "length (tree_levels t ! 0) = 2 ^ dense_depth t" using acc_tree_okD(3) [OF assms(1), of 0] by simp
  then have "\<not> unat k < length (tree_levels t ! 0)" using assms(2) by simp
  then show ?thesis
    by (cases "get_siblings t k")
      (auto simp: update_leaf_def get_siblings_def ensure_def bind_res_def
        dest: dense_siblings_Inl split: sum.splits)
qed

lemma build_mutations_below:
  assumes "fold_res (build_mutation Z blst v1 v2 e2) (t, ms) ks = Inr r" "acc_tree_ok Z t"
  shows "\<forall>k\<in>set ks. unat k < 2 ^ dense_depth t"
  using assms
proof (induction ks arbitrary: t ms)
  case (Cons k ks)
  from Cons.prems(1) obtain t1 ms1 where
    step: "build_mutation Z blst v1 v2 e2 (t, ms) k = Inr (t1, ms1)"
    and rest: "fold_res (build_mutation Z blst v1 v2 e2) (t1, ms1) ks = Inr r"
    by auto
  from step obtain v ss where upd: "update_leaf Z t k v = Inr (t1, ss)"
    by (auto simp: build_mutation_def Let_def)
  have k: "unat k < 2 ^ dense_depth t"
    using update_leaf_beyond [OF Cons.prems(2), of k v] upd by (cases "unat k < 2 ^ dense_depth t") auto
  have "acc_tree_ok Z t1" "dense_depth t1 = dense_depth t"
    using update_leaf_ok [OF Cons.prems(2) k, of v] upd by auto
  with Cons.IH [OF rest] k show ?case by simp
qed simp

lemma build_held_outgrown:
  assumes "acc_tree_ok Z t" "length v1 \<le> 2 ^ dense_depth t" "2 ^ dense_depth t < length v2" "length v2 < 2 ^ 64"
  shows "build_held Z blst node config t es v1 v2 slot_2 total_1 \<noteq> Inr b"
proof
  assume "build_held Z blst node config t es v1 v2 slot_2 total_1 = Inr b"
  then obtain r where "fold_res (build_mutation Z blst v1 v2 (slot_2 div slots_per_epoch config)) (t, [])
      (find_mutations v1 v2 (es_slot es div slots_per_epoch config) (slot_2 div slots_per_epoch config)) = Inr r"
    by (auto simp: build_held_def Let_def)
  note below = build_mutations_below [OF this assms(1)]
  have "of_nat (2 ^ dense_depth t) \<in> set (find_mutations v1 v2 (es_slot es div slots_per_epoch config)
      (slot_2 div slots_per_epoch config))"
    using find_mutations_mem [OF assms(3,4)] assms(2) by blast
  with below have "unat (of_nat (2 ^ dense_depth t) :: u64) < 2 ^ dense_depth t" by blast
  moreover have "unat (of_nat (2 ^ dense_depth t) :: u64) = 2 ^ dense_depth t"
    using assms(3,4) by (intro unat_index) linarith
  ultimately show False by simp
qed

end
