(* ===== verification/FileFrame.thy ===== *)
theory FileFrame
  imports Ssz
begin

text \<open>
  The frame of the daemon's files (\<open>witness-gen/src/store.rs\<close>, \<open>boundary_cache.rs\<close>): an eight-byte
  magic, a format version, one word, the checksum of the body, and the body. Reading the parts back
  off a long enough file gives exactly the parts it was framed of.
\<close>

definition file_frame :: "bytes \<Rightarrow> u32 \<Rightarrow> u64 \<Rightarrow> bytes32 \<Rightarrow> bytes \<Rightarrow> bytes" where
  "file_frame magic version word checksum body =
     magic @ le_bytes 4 version @ u64_to_le_bytes word @ checksum @ body"

lemma take_drop_append: "length xs = n \<Longrightarrow> take n (xs @ ys) = xs" "length xs = n \<Longrightarrow> drop n (xs @ ys) = ys"
  by simp_all

lemma take_drop_middle: "drop n xs = take m (drop n xs) @ drop (n + m) xs"
  by (metis add.commute append_take_drop_id drop_drop)

lemma file_frame_parts:
  assumes "length magic = 8" "length checksum = 32" "52 \<le> length bs"
  shows "bs = file_frame magic version word checksum body \<longleftrightarrow>
    take 8 bs = magic \<and> of_le_bytes (take 4 (drop 8 bs)) = version \<and>
    u64_from_le_bytes (take 8 (drop 12 bs)) = word \<and> take 32 (drop 20 bs) = checksum \<and> drop 52 bs = body"
proof
  assume bs: "bs = file_frame magic version word checksum body"
  have "drop 8 bs = le_bytes 4 version @ u64_to_le_bytes word @ checksum @ body"
    using assms(1) by (simp add: bs file_frame_def)
  moreover have "drop 12 bs = u64_to_le_bytes word @ checksum @ body"
    using assms(1) by (simp add: bs file_frame_def)
  moreover have "drop 20 bs = checksum @ body" "drop 52 bs = body"
    using assms(1,2) by (simp_all add: bs file_frame_def)
  moreover have "of_le_bytes (le_bytes 4 version) = version" by (rule of_le_bytes_le_bytes) simp
  ultimately show "take 8 bs = magic \<and> of_le_bytes (take 4 (drop 8 bs)) = version \<and>
    u64_from_le_bytes (take 8 (drop 12 bs)) = word \<and> take 32 (drop 20 bs) = checksum \<and> drop 52 bs = body"
    using assms(1,2) by (simp add: bs file_frame_def)
next
  assume parts: "take 8 bs = magic \<and> of_le_bytes (take 4 (drop 8 bs)) = version \<and>
    u64_from_le_bytes (take 8 (drop 12 bs)) = word \<and> take 32 (drop 20 bs) = checksum \<and> drop 52 bs = body"
  have v: "le_bytes 4 version = take 4 (drop 8 bs)"
    using parts assms(3) le_bytes_of_le_bytes [where bs = "take 4 (drop 8 bs)" and n = 4 and 'n = 32] by auto
  have w: "u64_to_le_bytes word = take 8 (drop 12 bs)"
    using parts assms(3) u64_le_roundtrip_bytes [of "take 8 (drop 12 bs)"] by auto
  have "bs = take 8 bs @ take 4 (drop 8 bs) @ take 8 (drop 12 bs) @ take 32 (drop 20 bs) @ drop 52 bs"
    using take_drop_middle [of 8 bs 4] take_drop_middle [of 12 bs 8] take_drop_middle [of 20 bs 32]
      append_take_drop_id [of 8 bs]
    by simp
  then show "bs = file_frame magic version word checksum body"
    using parts by (simp add: file_frame_def v w)
qed

lemma length_file_frame:
  "length magic = 8 \<Longrightarrow> length checksum = 32 \<Longrightarrow> length (file_frame magic version word checksum body) = 52 + length body"
  by (simp add: file_frame_def)

end
