(* ===== verification/Store.thy ===== *)
theory Store
  imports HostNode AccTree FileFrame
begin

text \<open>
  \<open>crates/witness-gen/src/store.rs\<close>: what the daemon keeps. The state of the accumulator chain
  (\<open>StoreState\<close>) with the operations that start and move it, the audit chain over every accumulator
  root, and the file: a framed payload that is checked every way it can be before it is trusted.

  The structure of the payload's bytes is the \<open>bincode\<close> crate's and the checksum the \<open>sha2\<close> crate's;
  both are parameters. Writing the file atomically is I/O and left out. The lemmas: the file's frame
  determines the payload, a saved consistent snapshot loads, and whatever loads is consistent.
\<close>

section \<open>Records\<close>

record justification_record =
  jr_output :: justification_output
  jr_proof :: proof_words

record stream_final_record =
  sr_output :: stream_final_output
  sr_proof :: proof_words

record epoch_diff_record =
  er_output :: epoch_diff_output
  er_proof :: proof_words

record checkpoint =
  cp_epoch :: u64
  cp_root :: bytes32

record store_state =
  ss_chain :: string
  ss_init_epoch :: u64
  ss_cursor_epoch :: u64
  ss_acc_root :: digest
  ss_acc_commitment :: digest
  ss_acc_chain_digest :: digest
  ss_total_active_balance :: u64
  ss_num_validators :: u64
  ss_justified_through :: "u64 option"
  ss_attempted_epoch :: "u64 option"
  ss_last_justification :: "justification_record option"
  ss_last_stream_final :: "stream_final_record option"
  ss_last_epoch_diff :: "epoch_diff_record option"
  ss_finalized :: "checkpoint option"

record snapshot =
  sn_state :: store_state
  sn_tree :: acc_tree
  sn_epoch_state :: epoch_state

datatype store_error =
    NotNextEpoch u64 u64
  | CommitmentUnbound
  | StoreTruncated
  | StoreBadMagic
  | StoreVersion u32
  | StorePayloadLength
  | StoreChecksum
  | StoreDeserialize
  | StoreSerialize
  | StoreTree consistency_error
  | StoreRootMismatch
  | StoreCommitmentMismatch

section \<open>Moving the accumulator\<close>

definition chain_step :: "zisk \<Rightarrow> digest \<Rightarrow> u64 \<Rightarrow> digest \<Rightarrow> digest" where
  "chain_step Z previous epoch acc_root = compress Z (compress Z previous [epoch, 0, 0, 0]) acc_root"

definition started :: "zisk \<Rightarrow> string \<Rightarrow> u64 \<Rightarrow> digest \<Rightarrow> u64 \<Rightarrow> u64 \<Rightarrow> store_state" where
  "started Z chain epoch acc_root total_active_balance num_validators =
     \<lparr>ss_chain = chain,
      ss_init_epoch = epoch,
      ss_cursor_epoch = epoch,
      ss_acc_root = acc_root,
      ss_acc_commitment = commitment Z acc_root total_active_balance,
      ss_acc_chain_digest = chain_step Z ZERO epoch acc_root,
      ss_total_active_balance = total_active_balance,
      ss_num_validators = num_validators,
      ss_justified_through = None,
      ss_attempted_epoch = None,
      ss_last_justification = None,
      ss_last_stream_final = None,
      ss_last_epoch_diff = None,
      ss_finalized = None\<rparr>"

definition store_advance ::
  "zisk \<Rightarrow> store_state \<Rightarrow> u64 \<Rightarrow> digest \<Rightarrow> digest \<Rightarrow> u64 \<Rightarrow> u64 \<Rightarrow> epoch_diff_record option \<Rightarrow>
     store_error + store_state" where
  "store_advance Z st to_epoch acc_root comm total_active_balance num_validators epoch_diff =
     ensure (to_epoch = ss_cursor_epoch st + 1) (NotNextEpoch (ss_cursor_epoch st) to_epoch)
    (ensure (commitment Z acc_root total_active_balance = comm) CommitmentUnbound
    (Inr (st\<lparr>ss_cursor_epoch := to_epoch,
            ss_acc_root := acc_root,
            ss_acc_commitment := comm,
            ss_acc_chain_digest := chain_step Z (ss_acc_chain_digest st) to_epoch acc_root,
            ss_total_active_balance := total_active_balance,
            ss_num_validators := num_validators,
            ss_last_epoch_diff := epoch_diff\<rparr>)))"

definition needs_justification :: "store_state \<Rightarrow> bool" where
  "needs_justification st \<longleftrightarrow> ss_attempted_epoch st \<noteq> Some (ss_cursor_epoch st)"

definition previous_justification_for ::
  "store_state \<Rightarrow> u64 \<Rightarrow> (previous_justification \<times> proof_words) option" where
  "previous_justification_for st for_epoch =
     (case ss_last_stream_final st of
        Some r \<Rightarrow>
          if sf_justified_epoch (sr_output r) + 1 = for_epoch
          then Some (Stream (sr_output r), sr_proof r)
          else (case ss_last_justification st of
                  Some j \<Rightarrow> if jo_target_epoch (jr_output j) + 1 = for_epoch
                            then Some (Batch (jr_output j), jr_proof j) else None
                | None \<Rightarrow> None)
      | None \<Rightarrow> (case ss_last_justification st of
                  Some j \<Rightarrow> if jo_target_epoch (jr_output j) + 1 = for_epoch
                            then Some (Batch (jr_output j), jr_proof j) else None
                | None \<Rightarrow> None))"

section \<open>The file\<close>

record payload =
  pl_state :: store_state
  pl_epoch_state :: epoch_state
  pl_tree_levels :: "digest list list"
  pl_tree_depth :: nat
  pl_dense_depth :: nat

text \<open>The third-party parts of the file: \<open>bincode\<close>'s two directions and \<open>sha2\<close>'s digest.\<close>

record file_codec =
  fc_serialize :: "payload \<Rightarrow> bytes option"
  fc_deserialize :: "bytes \<Rightarrow> payload option"
  fc_sha256 :: "bytes \<Rightarrow> bytes32"

definition STORE_MAGIC :: bytes where
  "STORE_MAGIC = [90, 75, 65, 83, 80, 82, 68, 1]"

definition STORE_FORMAT_VERSION :: u32 where "STORE_FORMAT_VERSION = 5"

definition STORE_HEADER :: nat where "STORE_HEADER = 8 + 4 + 8 + 32"

definition store_encode :: "file_codec \<Rightarrow> payload \<Rightarrow> store_error + bytes" where
  "store_encode F p =
     bind_res (expect (fc_serialize F p) StoreSerialize) (\<lambda>body.
     Inr (STORE_MAGIC @ le_bytes 4 STORE_FORMAT_VERSION @ u64_to_le_bytes (of_nat (length body)) @
       fc_sha256 F body @ body))"

definition store_decode :: "file_codec \<Rightarrow> bytes \<Rightarrow> store_error + payload" where
  "store_decode F bs =
     ensure (length bs \<ge> STORE_HEADER) StoreTruncated
    (ensure (take 8 bs = STORE_MAGIC) StoreBadMagic
    (let version = of_le_bytes (take 4 (drop 8 bs)) in
     ensure (version = STORE_FORMAT_VERSION) (StoreVersion version)
    (let len = unat (u64_from_le_bytes (take 8 (drop 12 bs)));
         body = drop STORE_HEADER bs in
     ensure (length body = len) StorePayloadLength
    (ensure (fc_sha256 F body = take 32 (drop 20 bs)) StoreChecksum
    (expect (fc_deserialize F body) StoreDeserialize)))))"

definition store_load :: "zisk \<Rightarrow> file_codec \<Rightarrow> bytes option \<Rightarrow> store_error + snapshot option" where
  "store_load Z F file =
     (case file of
        None \<Rightarrow> Inr None
      | Some bs \<Rightarrow>
          bind_res (store_decode F bs) (\<lambda>p.
          let tree = from_raw Z (pl_tree_levels p) (pl_tree_depth p) (pl_dense_depth p);
              st = pl_state p in
          bind_res (map_err StoreTree (verify_consistent Z tree)) (\<lambda>_.
          let root = acc_tree_root Z tree in
          ensure (root = ss_acc_root st) StoreRootMismatch
         (ensure (commitment Z root (ss_total_active_balance st) = ss_acc_commitment st) StoreCommitmentMismatch
         (Inr (Some \<lparr>sn_state = st, sn_tree = tree, sn_epoch_state = pl_epoch_state p\<rparr>))))))"

definition store_save :: "file_codec \<Rightarrow> snapshot \<Rightarrow> store_error + bytes" where
  "store_save F s =
     store_encode F \<lparr>pl_state = sn_state s, pl_epoch_state = sn_epoch_state s,
       pl_tree_levels = tree_levels (sn_tree s), pl_tree_depth = tree_depth (sn_tree s),
       pl_dense_depth = dense_depth (sn_tree s)\<rparr>"

section \<open>The frame\<close>

definition store_frame :: "file_codec \<Rightarrow> bytes \<Rightarrow> bytes" where
  "store_frame F body = file_frame STORE_MAGIC STORE_FORMAT_VERSION (of_nat (length body)) (fc_sha256 F body) body"

lemma length_store_magic [simp]: "length STORE_MAGIC = 8" by (simp add: STORE_MAGIC_def)

lemma store_encode_frame:
  "store_encode F p = Inr bs \<longleftrightarrow> (\<exists>body. fc_serialize F p = Some body \<and> bs = store_frame F body)"
  by (auto simp: store_encode_def store_frame_def file_frame_def)

text \<open>A file that decodes is the frame of its payload, byte for byte.\<close>

lemma store_decode_exact:
  assumes "\<And>body. length (fc_sha256 F body) = 32"
  shows "store_decode F bs = Inr p \<longleftrightarrow>
    (\<exists>body. length body < 2 ^ 64 \<and> bs = store_frame F body \<and> fc_deserialize F body = Some p)"
proof (cases "52 \<le> length bs")
  case True
  note parts = file_frame_parts [OF length_store_magic assms True]
  define body where "body = drop 52 bs"
  have len: "length body = unat w \<longleftrightarrow> length body < 2 ^ 64 \<and> w = of_nat (length body)" for w :: u64
    using unsigned_less [of w] by (auto simp: unat_of_nat)
  have "store_decode F bs = Inr p \<longleftrightarrow> take 8 bs = STORE_MAGIC \<and>
      of_le_bytes (take 4 (drop 8 bs)) = STORE_FORMAT_VERSION \<and>
      length body = unat (u64_from_le_bytes (take 8 (drop 12 bs))) \<and>
      fc_sha256 F body = take 32 (drop 20 bs) \<and> fc_deserialize F body = Some p"
    using True by (simp add: store_decode_def STORE_HEADER_def Let_def flip: body_def)
  then show ?thesis unfolding len store_frame_def parts body_def [symmetric] by auto
next
  case False
  then show ?thesis
    using length_file_frame [OF length_store_magic assms]
    by (auto simp: store_decode_def STORE_HEADER_def store_frame_def)
qed

text \<open>What was saved decodes to what was saved.\<close>

lemma store_decode_encode:
  assumes "\<And>body. length (fc_sha256 F body) = 32"
    and "fc_serialize F p = Some body" "fc_deserialize F body = Some p" "length body < 2 ^ 64"
  obtains bs where "store_encode F p = Inr bs" "store_decode F bs = Inr p"
  using assms(2-4) store_decode_exact [OF assms(1)] store_encode_frame by blast

section \<open>What a load has checked\<close>

text \<open>The tree holds the accumulator the state names, and the commitment binds it.\<close>

definition snapshot_bound :: "zisk \<Rightarrow> snapshot \<Rightarrow> bool" where
  "snapshot_bound Z s \<longleftrightarrow> acc_tree_ok Z (sn_tree s) \<and>
     acc_tree_root Z (sn_tree s) = ss_acc_root (sn_state s) \<and>
     ss_acc_commitment (sn_state s) = commitment Z (ss_acc_root (sn_state s)) (ss_total_active_balance (sn_state s))"

lemma from_raw_ok: "verify_consistent Z (from_raw Z ls d dd) = Inr () \<Longrightarrow> acc_tree_ok Z (from_raw Z ls d dd)"
  by (simp add: acc_tree_ok_def from_raw_def)

lemma from_raw_same: "acc_tree_ok Z t \<Longrightarrow> from_raw Z (tree_levels t) (tree_depth t) (dense_depth t) = t"
  by (simp add: acc_tree_ok_def from_raw_def)

lemma store_load_bound:
  assumes "store_load Z F file = Inr (Some s)"
  shows "snapshot_bound Z s"
  using assms
  by (auto simp: store_load_def snapshot_bound_def Let_def intro!: from_raw_ok split: option.splits)

lemma store_load_saved:
  assumes "snapshot_bound Z s" "\<And>body. length (fc_sha256 F body) = 32"
    and "\<And>p. \<exists>body. fc_serialize F p = Some body \<and> fc_deserialize F body = Some p \<and> length body < 2 ^ 64"
  obtains bs where "store_save F s = Inr bs" "store_load Z F (Some bs) = Inr (Some s)"
proof -
  let ?p = "\<lparr>pl_state = sn_state s, pl_epoch_state = sn_epoch_state s,
       pl_tree_levels = tree_levels (sn_tree s), pl_tree_depth = tree_depth (sn_tree s),
       pl_dense_depth = dense_depth (sn_tree s)\<rparr>"
  obtain bs where bs: "store_encode F ?p = Inr bs" "store_decode F bs = Inr ?p"
    using assms(3) [of ?p] store_decode_encode [OF assms(2)] by blast
  have ok: "acc_tree_ok Z (sn_tree s)" using assms(1) by (simp add: snapshot_bound_def)
  have "store_load Z F (Some bs) = Inr (Some s)"
    using assms(1) ok
    by (simp add: store_load_def bs(2) from_raw_same [OF ok] snapshot_bound_def acc_tree_ok_def Let_def)
  then show thesis using bs(1) by (intro that [of bs]) (simp_all add: store_save_def)
qed

section \<open>The audit chain\<close>

text \<open>The digest of a history: the accumulator roots in order, from the epoch the chain started at.\<close>

fun audit_digest :: "zisk \<Rightarrow> digest \<Rightarrow> u64 \<Rightarrow> digest list \<Rightarrow> digest" where
  "audit_digest Z d epoch [] = d"
| "audit_digest Z d epoch (r # rs) = audit_digest Z (chain_step Z d epoch r) (epoch + 1) rs"

lemma audit_digest_append:
  "audit_digest Z d e (rs @ [r]) = chain_step Z (audit_digest Z d e rs) (e + of_nat (length rs)) r"
  by (induction rs arbitrary: d e) (simp_all add: algebra_simps)

text \<open>A state and the roots it went through.\<close>

definition follows :: "zisk \<Rightarrow> store_state \<Rightarrow> digest list \<Rightarrow> bool" where
  "follows Z st roots \<longleftrightarrow> roots \<noteq> [] \<and> last roots = ss_acc_root st \<and>
     ss_cursor_epoch st + 1 = ss_init_epoch st + of_nat (length roots) \<and>
     ss_acc_chain_digest st = audit_digest Z ZERO (ss_init_epoch st) roots \<and>
     ss_acc_commitment st = commitment Z (ss_acc_root st) (ss_total_active_balance st)"

lemma started_follows: "follows Z (started Z chain epoch root tab n) [root]"
  by (simp add: follows_def started_def)

lemma store_advance_Inr:
  "store_advance Z st e root comm tab n diff = Inr st' \<longleftrightarrow>
     e = ss_cursor_epoch st + 1 \<and> comm = commitment Z root tab \<and>
     st' = st\<lparr>ss_cursor_epoch := e, ss_acc_root := root, ss_acc_commitment := comm,
            ss_acc_chain_digest := chain_step Z (ss_acc_chain_digest st) e root,
            ss_total_active_balance := tab, ss_num_validators := n, ss_last_epoch_diff := diff\<rparr>"
  by (auto simp: store_advance_def)

lemma store_advance_follows:
  assumes "store_advance Z st e root comm tab n diff = Inr st'" "follows Z st roots"
  shows "follows Z st' (roots @ [root])"
proof -
  have st': "e = ss_cursor_epoch st + 1" "comm = commitment Z root tab"
    "st' = st\<lparr>ss_cursor_epoch := e, ss_acc_root := root, ss_acc_commitment := comm,
            ss_acc_chain_digest := chain_step Z (ss_acc_chain_digest st) e root,
            ss_total_active_balance := tab, ss_num_validators := n, ss_last_epoch_diff := diff\<rparr>"
    using assms(1) by (simp_all add: store_advance_Inr)
  have "e = ss_init_epoch st + of_nat (length roots)"
    using assms(2) by (simp add: st'(1) follows_def)
  then show ?thesis
    using assms(2) by (simp add: st'(2,3) follows_def audit_digest_append)
qed

text \<open>The pairs a history compresses; without a collision among them it determines the history.\<close>

fun audit_pairs :: "zisk \<Rightarrow> digest \<Rightarrow> u64 \<Rightarrow> digest list \<Rightarrow> (digest \<times> digest) set" where
  "audit_pairs Z d epoch [] = {}"
| "audit_pairs Z d epoch (r # rs) =
     {(d, [epoch, 0, 0, 0]), (compress Z d [epoch, 0, 0, 0], r)} \<union>
     audit_pairs Z (chain_step Z d epoch r) (epoch + 1) rs"

lemma audit_pairs_append:
  "audit_pairs Z d e (rs @ [r]) = audit_pairs Z d e rs \<union>
     {(audit_digest Z d e rs, [e + of_nat (length rs), 0, 0, 0]),
      (compress Z (audit_digest Z d e rs) [e + of_nat (length rs), 0, 0, 0], r)}"
  by (induction rs arbitrary: d e) (auto simp: algebra_simps)

lemma audit_digest_determines:
  assumes "audit_digest Z ZERO e rs = audit_digest Z ZERO e' rs'"
    and "inj_on (case_prod (compress Z)) S" "audit_pairs Z ZERO e rs \<union> audit_pairs Z ZERO e' rs' \<subseteq> S"
    and "ZERO \<notin> case_prod (compress Z) ` S" "rs \<noteq> []"
  shows "rs = rs' \<and> e = e'"
  using assms
proof (induction rs arbitrary: rs' rule: rev_induct)
  case (snoc r rs)
  show ?case
  proof (cases rs' rule: rev_exhaust)
    case Nil
    let ?p = "(compress Z (audit_digest Z ZERO e rs) [e + of_nat (length rs), 0, 0, 0], r)"
    have "?p \<in> S" using snoc.prems(3) by (auto simp: audit_pairs_append)
    moreover have "case_prod (compress Z) ?p = ZERO"
      using snoc.prems(1) Nil by (simp add: audit_digest_append chain_step_def)
    ultimately show ?thesis using snoc.prems(4) by (metis imageI)
  next
    case last: (snoc rs0 r')
    let ?d = "audit_digest Z ZERO e rs" and ?d' = "audit_digest Z ZERO e' rs0"
    let ?w = "[e + of_nat (length rs), 0, 0, 0]" and ?w' = "[e' + of_nat (length rs0), 0, 0, 0]"
    have S: "(?d, ?w) \<in> S" "(compress Z ?d ?w, r) \<in> S" "(?d', ?w') \<in> S" "(compress Z ?d' ?w', r') \<in> S"
      "audit_pairs Z ZERO e rs \<union> audit_pairs Z ZERO e' rs0 \<subseteq> S"
      using snoc.prems(3) last by (auto simp: audit_pairs_append)
    have "compress Z (compress Z ?d ?w) r = compress Z (compress Z ?d' ?w') r'"
      using snoc.prems(1) last by (simp add: audit_digest_append chain_step_def)
    then have "(compress Z ?d ?w, r) = (compress Z ?d' ?w', r')"
      using inj_onD [OF assms(2) _ S(2,4)] by simp
    then have r: "r = r'" "compress Z ?d ?w = compress Z ?d' ?w'" by simp_all
    from r(2) have "(?d, ?w) = (?d', ?w')" using inj_onD [OF assms(2) _ S(1,3)] by simp
    then have d: "?d = ?d'" "e + of_nat (length rs) = e' + of_nat (length rs0)" by simp_all
    show ?thesis
    proof (cases "rs = []")
      case True
      have "rs0 = []"
      proof (rule ccontr)
        assume "rs0 \<noteq> []"
        then obtain rs1 x where rs0: "rs0 = rs1 @ [x]" by (cases rs0 rule: rev_exhaust) auto
        let ?p = "(compress Z (audit_digest Z ZERO e' rs1) [e' + of_nat (length rs1), 0, 0, 0], x)"
        have "?p \<in> S" using S(5) by (auto simp: rs0 audit_pairs_append)
        moreover have "case_prod (compress Z) ?p = ZERO"
          using d(1) True by (simp add: rs0 audit_digest_append chain_step_def)
        ultimately show False using assms(4) by (metis imageI)
      qed
      then show ?thesis using True r d(2) last by simp
    next
      case False
      from snoc.IH [OF d(1) assms(2) S(5) assms(4) False] show ?thesis using r last by simp
    qed
  qed
qed simp

end
