(* ===== verification/BoundaryCache.thy ===== *)
theory BoundaryCache
  imports HostNode FileFrame
begin

text \<open>
  \<open>crates/witness-gen/src/boundary_cache.rs\<close>: the registry and the committees of an epoch boundary,
  taken while the node serves them and kept in memory and beside the store. The file format is
  written out byte for byte; the checksum is the \<open>sha2\<close> crate's, a parameter. A directory is the map
  from the slots its files are named for to their bytes; whether a write succeeds is an argument.

  The lemmas: the format round-trips; the memory holds at most two boundaries, of distinct slots; and
  the interface \<open>slot_cache\<close> - what is put is got back until it is forgotten - which the cache
  implements and the engine's \<open>boundary_at\<close> relies on.
\<close>

datatype boundary_file_error =
    BoundaryTruncated
  | BoundaryBadMagic
  | BoundaryVersion u32
  | BoundaryChecksum
  | LengthOverflow
  | TruncatedAt nat
  | BytesLeftOver nat

record boundary_inputs =
  bi_slot :: u64
  bi_validators :: "validator_response list"
  bi_committees :: "committee_response list"

definition BOUNDARY_MAGIC :: bytes where
  "BOUNDARY_MAGIC = [90, 75, 66, 79, 85, 78, 68, 1]"

definition BOUNDARY_FORMAT_VERSION :: u32 where "BOUNDARY_FORMAT_VERSION = 1"

section \<open>Encoding\<close>

definition encode_validator :: "validator_response \<Rightarrow> bytes" where
  "encode_validator v =
     u64_to_le_bytes (vr_index v) @ vr_pubkey v @ withdrawal_credentials v @
     u64_to_le_bytes (vr_effective_balance v) @ u64_to_le_bytes (activation_eligibility_epoch v) @
     u64_to_le_bytes (vr_activation_epoch v) @ u64_to_le_bytes (vr_exit_epoch v) @
     u64_to_le_bytes (withdrawable_epoch v) @ [if slashed v then 1 else 0]"

definition encode_committee :: "committee_response \<Rightarrow> bytes" where
  "encode_committee c =
     u64_to_le_bytes (cr_slot c) @ u64_to_le_bytes (cr_index c) @
     u64_to_le_bytes (of_nat (length (cr_validators c))) @ concat (map u64_to_le_bytes (cr_validators c))"

definition boundary_body :: "boundary_inputs \<Rightarrow> bytes" where
  "boundary_body i =
     u64_to_le_bytes (of_nat (length (bi_validators i))) @ concat (map encode_validator (bi_validators i)) @
     u64_to_le_bytes (of_nat (length (bi_committees i))) @ concat (map encode_committee (bi_committees i))"

definition boundary_encode :: "(bytes \<Rightarrow> bytes32) \<Rightarrow> boundary_inputs \<Rightarrow> bytes" where
  "boundary_encode sha i =
     BOUNDARY_MAGIC @ le_bytes 4 BOUNDARY_FORMAT_VERSION @ u64_to_le_bytes (bi_slot i) @
     sha (boundary_body i) @ boundary_body i"

section \<open>Decoding\<close>

text \<open>A cursor is the body with the position of the next byte.\<close>

definition cursor_take :: "nat \<Rightarrow> bytes \<Rightarrow> nat \<Rightarrow> boundary_file_error + bytes \<times> nat" where
  "cursor_take n body pos =
     (let stop = pos + n in
      ensure (stop < 2 ^ 64) LengthOverflow
     (ensure (stop \<le> length body) (TruncatedAt pos)
     (Inr (take n (drop pos body), stop))))"

definition cursor_u64 :: "bytes \<Rightarrow> nat \<Rightarrow> boundary_file_error + u64 \<times> nat" where
  "cursor_u64 body pos = bind_res (cursor_take 8 body pos) (\<lambda>(b, pos). Inr (u64_from_le_bytes b, pos))"

definition cursor_byte :: "bytes \<Rightarrow> nat \<Rightarrow> boundary_file_error + 8 word \<times> nat" where
  "cursor_byte body pos = bind_res (cursor_take 1 body pos) (\<lambda>(b, pos). Inr (b ! 0, pos))"

definition decode_validator :: "bytes \<Rightarrow> nat \<Rightarrow> boundary_file_error + validator_response \<times> nat" where
  "decode_validator body pos =
     bind_res (cursor_u64 body pos) (\<lambda>(index, pos).
     bind_res (cursor_take 48 body pos) (\<lambda>(pubkey, pos).
     bind_res (cursor_take 32 body pos) (\<lambda>(credentials, pos).
     bind_res (cursor_u64 body pos) (\<lambda>(balance, pos).
     bind_res (cursor_u64 body pos) (\<lambda>(eligibility, pos).
     bind_res (cursor_u64 body pos) (\<lambda>(activation, pos).
     bind_res (cursor_u64 body pos) (\<lambda>(exit, pos).
     bind_res (cursor_u64 body pos) (\<lambda>(withdrawable, pos).
     bind_res (cursor_byte body pos) (\<lambda>(flag, pos).
     Inr (\<lparr>vr_index = index, vr_pubkey = pubkey, vr_effective_balance = balance,
           vr_activation_epoch = activation, vr_exit_epoch = exit,
           withdrawal_credentials = credentials, slashed = (flag = 1),
           activation_eligibility_epoch = eligibility, withdrawable_epoch = withdrawable\<rparr>, pos))))))))))"

fun read_many ::
  "(bytes \<Rightarrow> nat \<Rightarrow> boundary_file_error + 'a \<times> nat) \<Rightarrow> nat \<Rightarrow> bytes \<Rightarrow> nat \<Rightarrow>
     boundary_file_error + 'a list \<times> nat" where
  "read_many rd 0 body pos = Inr ([], pos)"
| "read_many rd (Suc n) body pos =
     bind_res (rd body pos) (\<lambda>(x, pos).
     bind_res (read_many rd n body pos) (\<lambda>(xs, pos). Inr (x # xs, pos)))"

definition decode_committee :: "bytes \<Rightarrow> nat \<Rightarrow> boundary_file_error + committee_response \<times> nat" where
  "decode_committee body pos =
     bind_res (cursor_u64 body pos) (\<lambda>(slot, pos).
     bind_res (cursor_u64 body pos) (\<lambda>(index, pos).
     bind_res (cursor_u64 body pos) (\<lambda>(members, pos).
     bind_res (read_many cursor_u64 (unat members) body pos) (\<lambda>(validators, pos).
     Inr (\<lparr>cr_slot = slot, cr_index = index, cr_validators = validators\<rparr>, pos)))))"

definition boundary_decode :: "(bytes \<Rightarrow> bytes32) \<Rightarrow> bytes \<Rightarrow> boundary_file_error + boundary_inputs" where
  "boundary_decode sha bs =
     ensure (length bs \<ge> 52) BoundaryTruncated
    (ensure (take 8 bs = BOUNDARY_MAGIC) BoundaryBadMagic
    (let version = of_le_bytes (take 4 (drop 8 bs)) in
     ensure (version = BOUNDARY_FORMAT_VERSION) (BoundaryVersion version)
    (let slot = u64_from_le_bytes (take 8 (drop 12 bs));
         body = drop 52 bs in
     ensure (sha body = take 32 (drop 20 bs)) BoundaryChecksum
    (bind_res (cursor_u64 body 0) (\<lambda>(cnt, pos).
     bind_res (read_many decode_validator (unat cnt) body pos) (\<lambda>(validators, pos).
     bind_res (cursor_u64 body pos) (\<lambda>(cnt, pos).
     bind_res (read_many decode_committee (unat cnt) body pos) (\<lambda>(committees, pos).
     ensure (pos = length body) (BytesLeftOver (length body - pos))
    (Inr \<lparr>bi_slot = slot, bi_validators = validators, bi_committees = committees\<rparr>)))))))))"

section \<open>The cache\<close>

record boundary_cache =
  bc_dir :: "u64 \<rightharpoonup> bytes"
  bc_hot :: "boundary_inputs list"

definition HOT :: nat where "HOT = 2"

definition fresh_cache :: "(u64 \<rightharpoonup> bytes) \<Rightarrow> boundary_cache" where
  "fresh_cache dir = \<lparr>bc_dir = dir, bc_hot = []\<rparr>"

definition cache_holds :: "boundary_cache \<Rightarrow> u64 \<Rightarrow> bool" where
  "cache_holds C slot \<longleftrightarrow> (\<exists>held\<in>set (bc_hot C). bi_slot held = slot) \<or> bc_dir C slot \<noteq> None"

definition cache_warm :: "boundary_cache \<Rightarrow> boundary_inputs \<Rightarrow> boundary_cache" where
  "cache_warm C i =
     (let hot = filter (\<lambda>held. bi_slot held \<noteq> bi_slot i) (bc_hot C) @ [i]
      in C\<lparr>bc_hot := drop (length hot - HOT) hot\<rparr>)"

definition cache_get ::
  "(bytes \<Rightarrow> bytes32) \<Rightarrow> boundary_cache \<Rightarrow> u64 \<Rightarrow> boundary_inputs option \<times> boundary_cache" where
  "cache_get sha C slot =
     (case find (\<lambda>held. bi_slot held = slot) (bc_hot C) of
        Some held \<Rightarrow> (Some held, C)
      | None \<Rightarrow>
          (case bc_dir C slot of
             None \<Rightarrow> (None, C)
           | Some bs \<Rightarrow>
               (case boundary_decode sha bs of
                  Inr i \<Rightarrow> (Some i, cache_warm C i)
                | Inl _ \<Rightarrow> (None, C\<lparr>bc_dir := (bc_dir C)(slot := None)\<rparr>))))"

definition cache_put :: "(bytes \<Rightarrow> bytes32) \<Rightarrow> bool \<Rightarrow> boundary_cache \<Rightarrow> boundary_inputs \<Rightarrow> boundary_cache" where
  "cache_put sha written C i =
     cache_warm (if written then C\<lparr>bc_dir := (bc_dir C)(bi_slot i \<mapsto> boundary_encode sha i)\<rparr> else C) i"

definition cache_forget_before :: "boundary_cache \<Rightarrow> u64 \<Rightarrow> boundary_cache" where
  "cache_forget_before C slot =
     C\<lparr>bc_hot := filter (\<lambda>held. slot \<le> bi_slot held) (bc_hot C),
       bc_dir := (\<lambda>s. if s < slot then None else bc_dir C s)\<rparr>"

section \<open>The format round-trips\<close>

definition wf_inputs :: "boundary_inputs \<Rightarrow> bool" where
  "wf_inputs i \<longleftrightarrow>
     (\<forall>v\<in>set (bi_validators i). length (vr_pubkey v) = 48 \<and> length (withdrawal_credentials v) = 32) \<and>
     length (boundary_body i) < 2 ^ 64"

text \<open>What a reader takes off the body where a value's bytes stand.\<close>

definition reads :: "(bytes \<Rightarrow> nat \<Rightarrow> boundary_file_error + 'a \<times> nat) \<Rightarrow> bytes \<Rightarrow> 'a \<Rightarrow> bool" where
  "reads rd x v \<longleftrightarrow> (\<forall>pre post. length (pre @ x @ post) < 2 ^ 64 \<longrightarrow>
     rd (pre @ x @ post) (length pre) = Inr (v, length pre + length x))"

lemma reads_take: "length x = n \<Longrightarrow> reads (cursor_take n) x x"
  by (simp add: reads_def cursor_take_def)

lemma reads_bind:
  assumes "reads rd x v" "reads (rest v) y w"
  shows "reads (\<lambda>body pos. bind_res (rd body pos) (\<lambda>(v, pos). rest v body pos)) (x @ y) w"
  unfolding reads_def
proof (intro allI impI)
  fix pre post :: bytes
  assume len: "length (pre @ (x @ y) @ post) < 2 ^ 64"
  have "rd (pre @ x @ y @ post) (length pre) = Inr (v, length pre + length x)"
    using assms(1) len by (simp add: reads_def)
  moreover have "rest v ((pre @ x) @ y @ post) (length (pre @ x)) = Inr (w, length (pre @ x) + length y)"
    using assms(2) [unfolded reads_def, rule_format, of "pre @ x" post] len by simp
  ultimately show "bind_res (rd (pre @ (x @ y) @ post) (length pre)) (\<lambda>(v, pos). rest v (pre @ (x @ y) @ post) pos) =
      Inr (w, length pre + length (x @ y))"
    by simp
qed

lemma reads_return: "reads (\<lambda>body pos. Inr (v, pos)) [] v"
  by (simp add: reads_def)

lemma reads_map:
  assumes "reads rd x v" "f v = w"
  shows "reads (\<lambda>body pos. bind_res (rd body pos) (\<lambda>(v, pos). Inr (f v, pos))) x w"
  using reads_bind [OF assms(1), where rest = "\<lambda>v body pos. Inr (f v, pos)" and y = "[]"] reads_return assms(2)
  by fastforce

lemma reads_u64: "reads cursor_u64 (u64_to_le_bytes w) w"
  unfolding cursor_u64_def [abs_def] by (rule reads_map [OF reads_take]) simp_all

lemma reads_byte: "reads cursor_byte [b] b"
  unfolding cursor_byte_def [abs_def] by (rule reads_map [OF reads_take]) simp_all

lemma reads_many:
  assumes "\<And>x. x \<in> set xs \<Longrightarrow> reads rd (enc x) x"
  shows "reads (read_many rd (length xs)) (concat (map enc xs)) xs"
  using assms
proof (induction xs)
  case Nil
  then show ?case by (simp add: reads_def)
next
  case (Cons x xs)
  have "reads (\<lambda>body pos. bind_res (rd body pos) (\<lambda>(x, pos).
      bind_res (read_many rd (length xs) body pos) (\<lambda>(xs, pos). Inr (x # xs, pos))))
    (enc x @ concat (map enc xs)) (x # xs)"
    using Cons by (intro reads_bind [of rd "enc x" x] reads_map [OF Cons.IH]) simp_all
  then show ?case by (simp add: reads_def)
qed

lemma reads_validator:
  assumes "length (vr_pubkey v) = 48" "length (withdrawal_credentials v) = 32"
  shows "reads decode_validator (encode_validator v) v"
  unfolding decode_validator_def [abs_def] encode_validator_def
  by (rule reads_bind [OF reads_u64] reads_bind [OF reads_take] reads_map [OF reads_byte] assms)+ simp

lemma reads_committee:
  assumes "length (cr_validators c) < 2 ^ 64"
  shows "reads decode_committee (encode_committee c) c"
proof -
  have "unat (of_nat (length (cr_validators c)) :: u64) = length (cr_validators c)"
    using assms by (simp add: unat_of_nat)
  then have "reads (\<lambda>body pos. bind_res (read_many cursor_u64 (unat (of_nat (length (cr_validators c)) :: u64)) body pos)
      (\<lambda>(vs, pos). Inr (\<lparr>cr_slot = cr_slot c, cr_index = cr_index c, cr_validators = vs\<rparr>, pos)))
    (concat (map u64_to_le_bytes (cr_validators c))) c"
    by (simp add: reads_map [OF reads_many [OF reads_u64]])
  note members = this
  show ?thesis
    unfolding decode_committee_def [abs_def] encode_committee_def
    by (rule reads_bind [OF reads_u64] members)+
qed

lemma length_concat_ge: "(\<And>x. x \<in> set xs \<Longrightarrow> f x \<noteq> []) \<Longrightarrow> length xs \<le> length (concat (map f xs))"
proof (induction xs)
  case (Cons x xs)
  then have "1 \<le> length (f x)" by (simp add: Suc_leI)
  moreover have "length xs \<le> length (concat (map f xs))" using Cons by simp
  ultimately show ?case unfolding list.map concat.simps length_append list.size by linarith
qed simp

lemma u64_to_le_bytes_nonempty [simp]: "u64_to_le_bytes w \<noteq> []"
  using length_u64_to_le_bytes [of w] by (metis length_0_conv zero_neq_numeral)

lemma bind_res_assoc: "bind_res (bind_res m g) h = bind_res m (\<lambda>x. bind_res (g x) h)"
  by (simp add: bind_res_def split: sum.splits)

definition decode_lists ::
  "bytes \<Rightarrow> nat \<Rightarrow> boundary_file_error + (validator_response list \<times> committee_response list) \<times> nat" where
  "decode_lists body pos =
     bind_res (cursor_u64 body pos) (\<lambda>(cnt, pos).
     bind_res (read_many decode_validator (unat cnt) body pos) (\<lambda>(validators, pos).
     bind_res (cursor_u64 body pos) (\<lambda>(cnt, pos).
     bind_res (read_many decode_committee (unat cnt) body pos) (\<lambda>(committees, pos).
     Inr ((validators, committees), pos)))))"

lemma reads_lists:
  assumes "wf_inputs i"
  shows "reads decode_lists (boundary_body i) (bi_validators i, bi_committees i)"
proof -
  have key: "length (vr_pubkey v) = 48" "length (withdrawal_credentials v) = 32" if "v \<in> set (bi_validators i)" for v
    using assms that by (simp_all add: wf_inputs_def)
  have vs: "length (bi_validators i) \<le> length (concat (map encode_validator (bi_validators i)))"
    and cs: "length (bi_committees i) \<le> length (concat (map encode_committee (bi_committees i)))"
    by (rule length_concat_ge, simp add: encode_validator_def encode_committee_def)+
  have len: "length (boundary_body i) < 2 ^ 64" using assms by (simp add: wf_inputs_def)
  have members: "length (cr_validators c) < 2 ^ 64" if "c \<in> set (bi_committees i)" for c
  proof -
    have "length (cr_validators c) \<le> length (encode_committee c)"
      using length_concat_ge [of "cr_validators c" u64_to_le_bytes] by (simp add: encode_committee_def u64_to_le_bytes_def le_bytes_def)
    also have "\<dots> \<le> length (concat (map encode_committee (bi_committees i)))"
      using that by (auto simp: length_concat comp_def intro!: member_le_sum_list)
    finally show ?thesis using len by (simp add: boundary_body_def)
  qed
  have cnt: "unat (of_nat (length (bi_validators i)) :: u64) = length (bi_validators i)"
    "unat (of_nat (length (bi_committees i)) :: u64) = length (bi_committees i)"
    using len vs cs by (simp_all add: boundary_body_def unat_of_nat)
  have v: "reads (read_many decode_validator (unat (of_nat (length (bi_validators i)) :: u64)))
      (concat (map encode_validator (bi_validators i))) (bi_validators i)"
    unfolding cnt by (intro reads_many reads_validator key)
  have c: "reads (read_many decode_committee (unat (of_nat (length (bi_committees i)) :: u64)))
      (concat (map encode_committee (bi_committees i))) (bi_committees i)"
    unfolding cnt by (intro reads_many reads_committee members)
  show ?thesis
    unfolding decode_lists_def [abs_def] boundary_body_def
    by (rule reads_bind [OF reads_u64] reads_bind [OF v] reads_map [OF c] refl)+
qed

lemma boundary_decode_encode:
  assumes "wf_inputs i" "length (sha (boundary_body i)) = 32"
  shows "boundary_decode sha (boundary_encode sha i) = Inr i"
proof -
  let ?bs = "boundary_encode sha i"
  have frame: "?bs = file_frame BOUNDARY_MAGIC BOUNDARY_FORMAT_VERSION (bi_slot i) (sha (boundary_body i)) (boundary_body i)"
    by (simp add: boundary_encode_def file_frame_def)
  have magic: "length BOUNDARY_MAGIC = 8" by (simp add: BOUNDARY_MAGIC_def)
  have len: "52 \<le> length ?bs" by (simp add: frame length_file_frame [where magic = BOUNDARY_MAGIC, OF magic assms(2)])
  note parts = frame [unfolded file_frame_parts [OF magic assms(2) len]]
  have "decode_lists (boundary_body i) 0 = Inr ((bi_validators i, bi_committees i), length (boundary_body i))"
    using reads_lists [OF assms(1), unfolded reads_def, rule_format, of "[]" "[]"] assms(1)
    by (simp add: wf_inputs_def)
  then have "bind_res (decode_lists (boundary_body i) 0) (\<lambda>((validators, committees), pos).
     ensure (pos = length (boundary_body i)) (BytesLeftOver (length (boundary_body i) - pos))
    (Inr \<lparr>bi_slot = bi_slot i, bi_validators = validators, bi_committees = committees\<rparr>)) = Inr i"
    by simp
  then show ?thesis
    using parts len
    by (simp add: boundary_decode_def decode_lists_def bind_res_assoc split_beta Let_def)
qed

section \<open>The interface\<close>

text \<open>
  What a stage asks of the cache: it answers with what was put, a lookup changes nothing, and only
  \<open>forget\<close> takes boundaries away, those behind a slot.
\<close>

datatype 'i cache_op = Get_op u64 | Put_op 'i | Forget_op u64

fun run_ops ::
  "('c \<Rightarrow> u64 \<Rightarrow> 'i option \<times> 'c) \<Rightarrow> ('c \<Rightarrow> 'i \<Rightarrow> 'c) \<Rightarrow> ('c \<Rightarrow> u64 \<Rightarrow> 'c) \<Rightarrow> 'c \<Rightarrow> 'i cache_op list \<Rightarrow> 'c" where
  "run_ops get put forget c [] = c"
| "run_ops get put forget c (Get_op s # ops) = run_ops get put forget (snd (get c s)) ops"
| "run_ops get put forget c (Put_op i # ops) = run_ops get put forget (put c i) ops"
| "run_ops get put forget c (Forget_op s # ops) = run_ops get put forget (forget c s) ops"

locale slot_cache =
  fixes invar :: "'c \<Rightarrow> bool"
    and lookup :: "'c \<Rightarrow> u64 \<Rightarrow> 'i option"
    and get :: "'c \<Rightarrow> u64 \<Rightarrow> 'i option \<times> 'c"
    and put :: "'c \<Rightarrow> 'i \<Rightarrow> 'c"
    and forget :: "'c \<Rightarrow> u64 \<Rightarrow> 'c"
    and at :: "'i \<Rightarrow> u64"
    and good :: "'i \<Rightarrow> bool"
  assumes get_lookup: "invar c \<Longrightarrow> fst (get c s) = lookup c s"
    and get_keeps: "invar c \<Longrightarrow> invar (snd (get c s)) \<and> lookup (snd (get c s)) = lookup c"
    and put_lookup: "invar c \<Longrightarrow> good i \<Longrightarrow>
      invar (put c i) \<and> lookup (put c i) = (lookup c)(at i \<mapsto> i)"
    and forget_lookup: "invar c \<Longrightarrow>
      invar (forget c s) \<and> lookup (forget c s) = (\<lambda>k. if k < s then None else lookup c k)"
begin

text \<open>What is put is answered until it is forgotten, whatever else is asked, put and forgotten.\<close>

lemma run_keeps:
  assumes "invar c" "lookup c (at i) = Some i"
    and "\<And>j. Put_op j \<in> set ops \<Longrightarrow> good j \<and> at j \<noteq> at i" "\<And>s. Forget_op s \<in> set ops \<Longrightarrow> s \<le> at i"
  shows "invar (run_ops get put forget c ops) \<and> lookup (run_ops get put forget c ops) (at i) = Some i"
  using assms
proof (induction ops arbitrary: c)
  case (Cons p ops)
  have rest: "\<And>j. Put_op j \<in> set ops \<Longrightarrow> good j \<and> at j \<noteq> at i" "\<And>s. Forget_op s \<in> set ops \<Longrightarrow> s \<le> at i"
    using Cons.prems(3,4) by auto
  show ?case
  proof (cases p)
    case (Get_op s)
    then show ?thesis using Cons.IH [OF _ _ rest] get_keeps [OF Cons.prems(1), of s] Cons.prems(2) by simp
  next
    case (Put_op j)
    then have j: "good j" "at j \<noteq> at i" using Cons.prems(3) [of j] by auto
    then show ?thesis
      using Put_op Cons.IH [OF _ _ rest] put_lookup [OF Cons.prems(1) j(1)] Cons.prems(2) by simp
  next
    case (Forget_op s)
    then have "\<not> at i < s" using Cons.prems(4) [of s] by auto
    then show ?thesis
      using Forget_op Cons.IH [OF _ _ rest] forget_lookup [OF Cons.prems(1), of s] Cons.prems(2) by simp
  qed
qed simp

lemma put_then_get:
  assumes "invar c" "good i"
    and "\<And>j. Put_op j \<in> set ops \<Longrightarrow> good j \<and> at j \<noteq> at i" "\<And>s. Forget_op s \<in> set ops \<Longrightarrow> s \<le> at i"
  shows "fst (get (run_ops get put forget (put c i) ops) (at i)) = Some i"
proof -
  note p = put_lookup [OF assms(1,2)]
  have "invar (run_ops get put forget (put c i) ops) \<and>
    lookup (run_ops get put forget (put c i) ops) (at i) = Some i"
    using p by (intro run_keeps assms(3,4)) simp_all
  then show ?thesis using get_lookup by simp
qed

end

section \<open>The cache implements it\<close>

definition file_lookup :: "(bytes \<Rightarrow> bytes32) \<Rightarrow> boundary_cache \<Rightarrow> u64 \<Rightarrow> boundary_inputs option" where
  "file_lookup sha C s =
     (case bc_dir C s of
        None \<Rightarrow> None
      | Some bs \<Rightarrow> (case boundary_decode sha bs of Inr i \<Rightarrow> Some i | Inl _ \<Rightarrow> None))"

text \<open>A file holds the boundary of the slot it is named for, and what is in memory is on disk.\<close>

definition files_named :: "(u64 \<Rightarrow> boundary_inputs option) \<Rightarrow> bool" where
  "files_named look \<longleftrightarrow> (\<forall>s i. look s = Some i \<longrightarrow> bi_slot i = s)"

definition on_disk :: "(u64 \<Rightarrow> boundary_inputs option) \<Rightarrow> boundary_inputs list \<Rightarrow> bool" where
  "on_disk look hot \<longleftrightarrow> (\<forall>i\<in>set hot. look (bi_slot i) = Some i)"

lemma files_namedD: "files_named look \<Longrightarrow> look s = Some i \<Longrightarrow> bi_slot i = s"
  by (simp add: files_named_def)

lemma on_diskD: "on_disk look hot \<Longrightarrow> i \<in> set hot \<Longrightarrow> look (bi_slot i) = Some i"
  by (simp add: on_disk_def)

lemma on_disk_drop: "on_disk look hot \<Longrightarrow> on_disk look (drop n hot)"
  by (meson in_set_dropD on_disk_def)

definition cache_invar :: "(bytes \<Rightarrow> bytes32) \<Rightarrow> boundary_cache \<Rightarrow> bool" where
  "cache_invar sha C \<longleftrightarrow>
     length (bc_hot C) \<le> HOT \<and> distinct (map bi_slot (bc_hot C)) \<and>
     on_disk (file_lookup sha C) (bc_hot C) \<and> files_named (file_lookup sha C)"

definition good_inputs :: "(bytes \<Rightarrow> bytes32) \<Rightarrow> boundary_inputs \<Rightarrow> bool" where
  "good_inputs sha i \<longleftrightarrow> wf_inputs i \<and> length (sha (boundary_body i)) = 32"

lemma file_lookup_hot [simp]: "file_lookup sha (C\<lparr>bc_hot := hot\<rparr>) = file_lookup sha C"
  by (simp add: file_lookup_def fun_eq_iff)

lemma cache_warm_lookup [simp]: "file_lookup sha (cache_warm C i) = file_lookup sha C"
  by (simp add: cache_warm_def Let_def)

lemma find_slot:
  "find (\<lambda>h. bi_slot h = s) hs = Some i \<Longrightarrow> i \<in> set hs \<and> bi_slot i = s"
  by (auto simp: find_Some_iff)

lemma cache_warm_invar:
  assumes "distinct (map bi_slot (bc_hot C))"
    and "on_disk (file_lookup sha C) (filter (\<lambda>held. bi_slot held \<noteq> bi_slot i) (bc_hot C) @ [i])"
    and "files_named (file_lookup sha C)"
  shows "cache_invar sha (cache_warm C i)"
proof -
  let ?hot = "filter (\<lambda>held. bi_slot held \<noteq> bi_slot i) (bc_hot C) @ [i]"
  let ?kept = "drop (length ?hot - HOT) ?hot"
  have "distinct (map bi_slot ?hot)" using assms(1) by (auto simp: distinct_map_filter)
  then have "distinct (map bi_slot ?kept)" by (simp only: drop_map [symmetric] distinct_drop)
  moreover have "on_disk (file_lookup sha C) ?kept"
    by (rule on_disk_drop [OF assms(2)])
  moreover have "length ?kept \<le> HOT" by simp
  ultimately show ?thesis using assms(3) by (simp add: cache_invar_def cache_warm_def Let_def)
qed

lemma cache_get_lookup:
  assumes "cache_invar sha C"
  shows "fst (cache_get sha C s) = file_lookup sha C s"
proof (cases "find (\<lambda>held. bi_slot held = s) (bc_hot C)")
  case (Some i)
  note i = find_slot [OF this]
  have "file_lookup sha C (bi_slot i) = Some i"
    using assms i by (intro on_diskD [of _ "bc_hot C"]) (simp_all add: cache_invar_def)
  then show ?thesis using i by (simp add: cache_get_def Some)
next
  case None
  then show ?thesis by (simp add: cache_get_def file_lookup_def split: option.splits sum.splits)
qed

lemma cache_get_keeps:
  assumes "cache_invar sha C"
  shows "cache_invar sha (snd (cache_get sha C s)) \<and> file_lookup sha (snd (cache_get sha C s)) = file_lookup sha C"
proof (cases "find (\<lambda>held. bi_slot held = s) (bc_hot C)")
  case None
  show ?thesis
  proof (cases "bc_dir C s")
    case (Some bs)
    show ?thesis
    proof (cases "boundary_decode sha bs")
      case (Inl e)
      have same: "file_lookup sha (C\<lparr>bc_dir := (bc_dir C)(s := None)\<rparr>) = file_lookup sha C"
        using Some Inl by (auto simp: file_lookup_def fun_eq_iff)
      then show ?thesis using assms None Some Inl by (simp add: cache_get_def cache_invar_def)
    next
      case (Inr i)
      have i: "file_lookup sha C s = Some i" using Some Inr by (simp add: file_lookup_def)
      have c: "distinct (map bi_slot (bc_hot C))" "on_disk (file_lookup sha C) (bc_hot C)"
        "files_named (file_lookup sha C)"
        using assms by (simp_all add: cache_invar_def)
      have "bi_slot i = s" by (rule files_namedD [OF c(3) i])
      with i c(2) have "on_disk (file_lookup sha C) (filter (\<lambda>held. bi_slot held \<noteq> bi_slot i) (bc_hot C) @ [i])"
        by (simp add: on_disk_def)
      from cache_warm_invar [OF c(1) this c(3)] show ?thesis
        using None Some Inr by (simp add: cache_get_def)
    qed
  qed (use assms None in \<open>simp add: cache_get_def\<close>)
qed (use assms in \<open>simp add: cache_get_def\<close>)

lemma cache_put_keeps:
  assumes "cache_invar sha C" "good_inputs sha i"
  shows "cache_invar sha (cache_put sha True C i) \<and>
    file_lookup sha (cache_put sha True C i) = (file_lookup sha C)(bi_slot i \<mapsto> i)"
proof -
  let ?C = "C\<lparr>bc_dir := (bc_dir C)(bi_slot i \<mapsto> boundary_encode sha i)\<rparr>"
  have "boundary_decode sha (boundary_encode sha i) = Inr i"
    using assms(2) by (simp add: good_inputs_def boundary_decode_encode)
  then have look: "file_lookup sha ?C = (file_lookup sha C)(bi_slot i \<mapsto> i)"
    by (auto simp: file_lookup_def fun_eq_iff)
  have "distinct (map bi_slot (bc_hot ?C))" using assms(1) by (simp add: cache_invar_def)
  moreover have "on_disk (file_lookup sha ?C) (filter (\<lambda>held. bi_slot held \<noteq> bi_slot i) (bc_hot ?C) @ [i])"
    using assms(1) unfolding look by (simp add: cache_invar_def on_disk_def)
  moreover have "files_named (file_lookup sha ?C)"
    using assms(1) unfolding look by (simp add: cache_invar_def files_named_def)
  ultimately have "cache_invar sha (cache_warm ?C i)" by (rule cache_warm_invar)
  then show ?thesis by (simp add: cache_put_def look)
qed

lemma cache_forget_keeps:
  assumes "cache_invar sha C"
  shows "cache_invar sha (cache_forget_before C s) \<and>
    file_lookup sha (cache_forget_before C s) = (\<lambda>k. if k < s then None else file_lookup sha C k)"
proof -
  have look: "file_lookup sha (cache_forget_before C s) = (\<lambda>k. if k < s then None else file_lookup sha C k)"
    by (auto simp: file_lookup_def cache_forget_before_def fun_eq_iff)
  have hot: "bc_hot (cache_forget_before C s) = filter (\<lambda>held. s \<le> bi_slot held) (bc_hot C)"
    by (simp add: cache_forget_before_def)
  have "length (bc_hot C) \<le> HOT" using assms by (simp add: cache_invar_def)
  then have "length (filter (\<lambda>held. s \<le> bi_slot held) (bc_hot C)) \<le> HOT"
    by (rule order_trans [OF length_filter_le])
  moreover have "on_disk (\<lambda>k. if k < s then None else file_lookup sha C k)
      (filter (\<lambda>held. s \<le> bi_slot held) (bc_hot C))"
    using assms by (simp add: cache_invar_def on_disk_def leD)
  moreover have "files_named (\<lambda>k. if k < s then None else file_lookup sha C k)"
    using assms by (simp add: cache_invar_def files_named_def)
  ultimately show ?thesis
    using assms unfolding cache_invar_def [of sha "cache_forget_before C s"] look hot
    by (simp add: cache_invar_def distinct_map_filter)
qed

interpretation boundaries: slot_cache "cache_invar sha" "file_lookup sha" "cache_get sha" "cache_put sha True"
  cache_forget_before bi_slot "good_inputs sha" for sha :: "bytes \<Rightarrow> bytes32"
  by unfold_locales (simp_all only: cache_get_lookup cache_get_keeps cache_put_keeps cache_forget_keeps simp_thms)

text \<open>A cache opened beside a store answers from its files alone.\<close>

lemma fresh_cache_invar:
  assumes "cache_invar sha C"
  shows "cache_invar sha (fresh_cache (bc_dir C)) \<and>
    file_lookup sha (fresh_cache (bc_dir C)) = file_lookup sha C"
proof -
  have "file_lookup sha (fresh_cache (bc_dir C)) = file_lookup sha C"
    by (simp add: fresh_cache_def file_lookup_def fun_eq_iff)
  then show ?thesis using assms by (simp add: cache_invar_def fresh_cache_def on_disk_def)
qed

section \<open>The engine's use of it\<close>

text \<open>The node's answers a boundary is read from.\<close>

record registry_node =
  get_validators :: "u64 \<Rightarrow> node_error + validator_response list"
  get_committees :: "u64 \<Rightarrow> u64 \<Rightarrow> node_error + committee_response list"

definition boundary_read :: "registry_node \<Rightarrow> chain_config \<Rightarrow> u64 \<Rightarrow> node_error + boundary_inputs" where
  "boundary_read node config slot =
     bind_res (get_validators node slot) (\<lambda>validators.
     bind_res (get_committees node slot (slot div slots_per_epoch config)) (\<lambda>committees.
     Inr \<lparr>bi_slot = slot, bi_validators = validators, bi_committees = committees\<rparr>))"

definition boundary_at ::
  "(bytes \<Rightarrow> bytes32) \<Rightarrow> bool \<Rightarrow> registry_node \<Rightarrow> chain_config \<Rightarrow> boundary_cache \<Rightarrow> u64 \<Rightarrow>
     node_error + boundary_inputs \<times> boundary_cache" where
  "boundary_at sha written node config C slot =
     (case cache_get sha C slot of
        (Some held, C') \<Rightarrow> Inr (held, C')
      | (None, C') \<Rightarrow>
          bind_res (boundary_read node config slot) (\<lambda>inputs.
          Inr (inputs, cache_put sha written C' inputs)))"

text \<open>A boundary that is held is answered whatever the node says.\<close>

lemma boundary_at_held:
  assumes "cache_invar sha C" "file_lookup sha C slot = Some i"
  obtains C' where "boundary_at sha written node config C slot = Inr (i, C')" "cache_invar sha C'"
    "file_lookup sha C' = file_lookup sha C"
proof -
  obtain r C' where g: "cache_get sha C slot = (r, C')" by fastforce
  then have "r = Some i" "cache_invar sha C'" "file_lookup sha C' = file_lookup sha C"
    using boundaries.get_lookup [OF assms(1), of slot] boundaries.get_keeps [OF assms(1), of slot] assms(2)
    by simp_all
  then show thesis using that [of C'] by (simp add: boundary_at_def g)
qed

end
