(* ===== verification/InitPoint.thy ===== *)
theory InitPoint
  imports HostEpochRun Store
begin

text \<open>
  \<open>crates/witness-gen/src/init_point.rs\<close>: where an accumulator chain starts. \<open>walk\<close> is the
  deterministic function of the registry both sides compute; \<open>take_held\<close> takes an init point off a
  node's state, \<open>open_held\<close> starts a run from one, checking every field against a fresh walk. The
  JSON of the tuple is serialization and left out.

  The lemmas: a run opened from an init point is in step with the registry it walked, its store
  follows the one root; and what \<open>take_held\<close> takes, \<open>open_held\<close> opens to the same snapshot.
\<close>

record init_point =
  ip_chain :: string
  ip_epoch :: u64
  ip_state_root :: bytes32
  ip_num_validators :: u64
  ip_total_active_balance :: u64
  ip_acc_root :: digest
  ip_accumulator_commitment :: digest
  ip_siblings :: "bytes32 list"

datatype init_error =
    NoChain
  | NoValidators
  | InitCommitmentUnbound
  | EmptyRegistry u64
  | InitSszTree ssz_tree_panic
  | InitTree tree_panic
  | NotABoundary u64
  | InitNode node_error
  | InitStateParse state_panic
  | InitStateRoot u64
  | OtherChain
  | ValidatorCountDiffers
  | TotalBalanceDiffers
  | AccRootDiffers
  | BranchOpensElsewhere

definition init_check :: "zisk \<Rightarrow> init_point \<Rightarrow> init_error + unit" where
  "init_check Z p =
     ensure (ip_chain p \<noteq> []) NoChain
    (ensure (ip_num_validators p \<noteq> 0) NoValidators
    (ensure (commitment Z (ip_acc_root p) (ip_total_active_balance p) = ip_accumulator_commitment p)
       InitCommitmentUnbound
    (Inr ())))"

definition init_slot :: "init_point \<Rightarrow> chain_config \<Rightarrow> u64" where
  "init_slot p config = ip_epoch p * slots_per_epoch config"

record walked =
  wk_tree :: acc_tree
  wk_validator_roots :: "bytes32 list"
  wk_ssz_data_root :: bytes32
  wk_num_validators :: u64
  wk_total_active_balance :: u64

definition walk ::
  "zisk \<Rightarrow> blst_key \<Rightarrow> validator_response list \<Rightarrow> chain_config \<Rightarrow> u64 \<Rightarrow> u64 \<Rightarrow> init_error + walked" where
  "walk Z blst validators config slot epoch =
     (let num_validators = of_nat (length validators) in
     ensure (num_validators > 0) (EmptyRegistry slot)
    (let validator_roots = build_validator_roots Z validators in
     bind_res (map_err InitSszTree
       (build_validators_ssz_tree Z validator_roots (validators_tree_depth config) [])) (\<lambda>(ssz_data_root, _).
     let dat = map validator_response_to_data validators in
     bind_res (map_err InitTree (acc_tree_build Z (host_decompress blst) dat epoch (acc_tree_depth config)))
       (\<lambda>tree.
     let total_active_balance = sum_list (map (\<lambda>v. active_effective_balance v epoch) dat)
     in Inr \<lparr>wk_tree = tree, wk_validator_roots = validator_roots, wk_ssz_data_root = ssz_data_root,
            wk_num_validators = num_validators, wk_total_active_balance = total_active_balance\<rparr>))))"

definition snapshot_of_walk ::
  "zisk \<Rightarrow> string \<Rightarrow> u64 \<Rightarrow> u64 \<Rightarrow> digest \<Rightarrow> u64 \<Rightarrow> u64 \<Rightarrow> bytes32 \<Rightarrow> bytes32 list \<Rightarrow> walked \<Rightarrow> snapshot" where
  "snapshot_of_walk Z chain epoch slot acc_root tab num_validators state_root siblings w =
     \<lparr>sn_state = started Z chain epoch acc_root tab num_validators,
      sn_tree = wk_tree w,
      sn_epoch_state =
        \<lparr>es_slot = slot, es_state_root = state_root, state_to_validators_siblings = siblings,
         es_validator_roots = wk_validator_roots w, es_ssz_data_root = wk_ssz_data_root w,
         es_num_validators = wk_num_validators w\<rparr>\<rparr>"

definition take_held ::
  "zisk \<Rightarrow> blst_key \<Rightarrow> beacon_node \<Rightarrow> chain_config \<Rightarrow> string \<Rightarrow> u64 \<Rightarrow> validator_response list \<Rightarrow>
     init_error + init_point \<times> snapshot" where
  "take_held Z blst node config chain slot validators =
     ensure (slot mod slots_per_epoch config = 0) (NotABoundary slot)
    (let epoch = slot div slots_per_epoch config in
     bind_res (walk Z blst validators config slot epoch) (\<lambda>w.
     let validators_htr = list_hash_tree_root Z (wk_ssz_data_root w) (wk_num_validators w) in
     bind_res (map_err InitNode (get_state_ssz node (By_slot slot))) (\<lambda>served.
     bind_res
       (case served of
          Some raw \<Rightarrow>
            bind_res (map_err InitStateParse (parse_state_proof Z raw validators_htr config slot)) (\<lambda>p.
            Inr (stp_state_root p, stp_siblings p))
        | None \<Rightarrow> Inr (make_state_proof Z (wk_ssz_data_root w) (wk_num_validators w) default_history))
       (\<lambda>(state_root, siblings).
     bind_res (map_err InitNode (claimed_state_root node slot)) (\<lambda>claimed.
     ensure (state_root = claimed) (InitStateRoot slot)
    (let acc_root = acc_tree_root Z (wk_tree w);
         tab = wk_total_active_balance w
     in Inr
       (\<lparr>ip_chain = chain, ip_epoch = epoch, ip_state_root = state_root,
         ip_num_validators = wk_num_validators w, ip_total_active_balance = tab,
         ip_acc_root = acc_root, ip_accumulator_commitment = commitment Z acc_root tab,
         ip_siblings = siblings\<rparr>,
        snapshot_of_walk Z chain epoch slot acc_root tab (wk_num_validators w) state_root siblings w)))))))"

definition open_held ::
  "zisk \<Rightarrow> blst_key \<Rightarrow> chain_config \<Rightarrow> string \<Rightarrow> init_point \<Rightarrow> validator_response list \<Rightarrow>
     init_error + snapshot" where
  "open_held Z blst config chain_name init validators =
     bind_res (init_check Z init) (\<lambda>_.
     ensure (ip_chain init = chain_name) OtherChain
    (let slot = init_slot init config in
     bind_res (walk Z blst validators config slot (ip_epoch init)) (\<lambda>w.
     ensure (wk_num_validators w = ip_num_validators init) ValidatorCountDiffers
    (ensure (wk_total_active_balance w = ip_total_active_balance init) TotalBalanceDiffers
    (let acc_root = acc_tree_root Z (wk_tree w) in
     ensure (acc_root = ip_acc_root init) AccRootDiffers
    (let validators_htr = list_hash_tree_root Z (wk_ssz_data_root w) (wk_num_validators w);
         opened_root = compute_ssz_merkle_root Z validators_htr
           (beacon_state_validators_field_index config) (ip_siblings init) in
     ensure (opened_root = ip_state_root init) BranchOpensElsewhere
    (Inr (snapshot_of_walk Z (ip_chain init) (ip_epoch init) slot acc_root (ip_total_active_balance init)
       (ip_num_validators init) (ip_state_root init) (ip_siblings init) w))))))))"

section \<open>What a walk holds\<close>

lemma walk_Inr:
  assumes "walk Z blst vs config slot epoch = Inr w" "length vs \<le> 2 ^ acc_tree_depth config"
    and "length vs \<le> 2 ^ validators_tree_depth config"
  shows "tree_holds Z blst (wk_tree w) vs epoch" "tree_depth (wk_tree w) = acc_tree_depth config"
    and "wk_validator_roots w = build_validator_roots Z vs"
    and "wk_ssz_data_root w = registry_data_root Z (validators_tree_depth config) vs"
    and "wk_num_validators w = of_nat (length vs)" "wk_num_validators w \<noteq> 0"
    and "wk_total_active_balance w = total_active_balance_of vs epoch"
proof -
  have "length (build_validator_roots Z vs) \<le> 2 ^ validators_tree_depth config" using assms(3) by simp
  from build_validators_ssz_tree_Inr [OF this, of Z "[]"] obtain aux where
    ssz: "build_validators_ssz_tree Z (build_validator_roots Z vs) (validators_tree_depth config) [] =
      Inr (registry_data_root Z (validators_tree_depth config) vs, aux)"
    by (auto simp: registry_data_root_def)
  from assms(1) ssz obtain t where
    t: "acc_tree_build Z (host_decompress blst) (map validator_response_to_data vs) epoch (acc_tree_depth config) = Inr t"
    and w: "w = \<lparr>wk_tree = t, wk_validator_roots = build_validator_roots Z vs,
      wk_ssz_data_root = registry_data_root Z (validators_tree_depth config) vs,
      wk_num_validators = of_nat (length vs),
      wk_total_active_balance = sum_list (map (\<lambda>v. active_effective_balance v epoch) (map validator_response_to_data vs))\<rparr>"
    and pos: "(of_nat (length vs) :: u64) > 0"
    by (auto simp: walk_def Let_def)
  note built = acc_tree_build_Inr [OF t]
  have "length vs \<le> 2 ^ dense_depth t" using built(5) assms(2) by simp
  then show "tree_holds Z blst (wk_tree w) vs epoch"
    using built(1,4) assms(2) by (simp add: w tree_holds_def host_registry_def)
  show "tree_depth (wk_tree w) = acc_tree_depth config" using built(2) by (simp add: w)
  show "wk_num_validators w \<noteq> 0" using pos by (simp add: w)
  show "wk_total_active_balance w = total_active_balance_of vs epoch"
    by (simp add: w total_active_balance_of_def comp_def)
  show "wk_validator_roots w = build_validator_roots Z vs"
    "wk_ssz_data_root w = registry_data_root Z (validators_tree_depth config) vs"
    "wk_num_validators w = of_nat (length vs)"
    by (simp_all add: w)
qed

section \<open>A run that was opened\<close>

lemma epoch_of_slot:
  fixes epoch spe :: u64
  assumes "unat epoch * unat spe < 2 ^ 64" "spe \<noteq> 0"
  shows "epoch * spe div spe = epoch"
proof -
  have "0 < unat spe" using assms(2) by (simp add: unat_gt_0)
  then have "unat (epoch * spe div spe) = unat epoch"
    using assms(1) by (simp add: unat_div_distrib unat_word_ariths)
  then show ?thesis by (simp add: word_unat_eq_iff)
qed

lemma open_held_Inr:
  assumes "open_held Z blst config chain init vs = Inr s"
  obtains w where "walk Z blst vs config (init_slot init config) (ip_epoch init) = Inr w"
    "init_check Z init = Inr ()" "ip_chain init = chain"
    "wk_num_validators w = ip_num_validators init"
    "wk_total_active_balance w = ip_total_active_balance init"
    "acc_tree_root Z (wk_tree w) = ip_acc_root init"
    "compute_ssz_merkle_root Z (list_hash_tree_root Z (wk_ssz_data_root w) (wk_num_validators w))
       (beacon_state_validators_field_index config) (ip_siblings init) = ip_state_root init"
    "s = snapshot_of_walk Z chain (ip_epoch init) (init_slot init config) (ip_acc_root init)
       (ip_total_active_balance init) (ip_num_validators init) (ip_state_root init) (ip_siblings init) w"
  using assms by (auto simp: open_held_def Let_def)

text \<open>The configuration of a network: the field the circuits open, and an epoch that has slots.\<close>

definition sane_config :: "chain_config \<Rightarrow> bool" where
  "sane_config config \<longleftrightarrow> beacon_state_validators_field_index config = BEACON_STATE_VALIDATORS_FIELD_INDEX \<and>
     slots_per_epoch config \<noteq> 0"

definition fits_config :: "chain_config \<Rightarrow> validator_response list \<Rightarrow> bool" where
  "fits_config config vs \<longleftrightarrow> length vs \<le> 2 ^ acc_tree_depth config \<and> length vs \<le> 2 ^ validators_tree_depth config"

lemma open_held_run:
  assumes "open_held Z blst config chain init vs = Inr s" "sane_config config" "fits_config config vs"
    and "unat (ip_epoch init) * unat (slots_per_epoch config) < 2 ^ 64"
  shows "in_step Z blst config (sn_tree s) (sn_epoch_state s) vs"
    and "snapshot_bound Z s" "follows Z (sn_state s) [ip_acc_root init]"
    and "ss_total_active_balance (sn_state s) = total_active_balance_of vs (ip_epoch init)"
    and "ss_num_validators (sn_state s) = of_nat (length vs)"
    and "ss_cursor_epoch (sn_state s) = es_slot (sn_epoch_state s) div slots_per_epoch config"
    and "es_slot (sn_epoch_state s) = init_slot init config"
proof -
  obtain w where w: "walk Z blst vs config (init_slot init config) (ip_epoch init) = Inr w"
    "init_check Z init = Inr ()" "wk_num_validators w = ip_num_validators init"
    "wk_total_active_balance w = ip_total_active_balance init"
    "acc_tree_root Z (wk_tree w) = ip_acc_root init"
    "compute_ssz_merkle_root Z (list_hash_tree_root Z (wk_ssz_data_root w) (wk_num_validators w))
       (beacon_state_validators_field_index config) (ip_siblings init) = ip_state_root init"
    "s = snapshot_of_walk Z chain (ip_epoch init) (init_slot init config) (ip_acc_root init)
       (ip_total_active_balance init) (ip_num_validators init) (ip_state_root init) (ip_siblings init) w"
    by (rule open_held_Inr [OF assms(1)])
  have fits: "length vs \<le> 2 ^ acc_tree_depth config" "length vs \<le> 2 ^ validators_tree_depth config"
    using assms(3) by (simp_all add: fits_config_def)
  note held = walk_Inr [OF w(1) fits]
  have ep: "init_slot init config div slots_per_epoch config = ip_epoch init"
    using epoch_of_slot [OF assms(4)] assms(2) by (simp add: init_slot_def sane_config_def)
  have "opens_registry Z (registry_data_root Z (validators_tree_depth config) vs) (of_nat (length vs))
      (ip_state_root init) (ip_siblings init)"
    using w(6) assms(2) by (simp add: opens_registry_def held(4,5) sane_config_def)
  then have "epoch_ok Z (validators_tree_depth config) (sn_epoch_state s) vs"
    by (simp add: w(7) snapshot_of_walk_def epoch_ok_def held(3-5))
  then show "in_step Z blst config (sn_tree s) (sn_epoch_state s) vs"
    using held(1,2) by (simp add: in_step_def w(7) snapshot_of_walk_def ep)
  show "snapshot_bound Z s"
    using held(1) w(5) by (simp add: snapshot_bound_def w(7) snapshot_of_walk_def started_def tree_holds_def)
  show "follows Z (sn_state s) [ip_acc_root init]"
    by (simp add: w(7) snapshot_of_walk_def started_follows)
  show "ss_total_active_balance (sn_state s) = total_active_balance_of vs (ip_epoch init)"
    using held(7) w(4) by (simp add: w(7) snapshot_of_walk_def started_def)
  show "ss_num_validators (sn_state s) = of_nat (length vs)"
    using held(5) w(3) by (simp add: w(7) snapshot_of_walk_def started_def)
  show "ss_cursor_epoch (sn_state s) = es_slot (sn_epoch_state s) div slots_per_epoch config"
    by (simp add: w(7) snapshot_of_walk_def started_def ep)
  show "es_slot (sn_epoch_state s) = init_slot init config"
    by (simp add: w(7) snapshot_of_walk_def)
qed

text \<open>What is taken off a node opens, over the same registry, to the snapshot it was taken with.\<close>

lemma multiple_slot: "(slot :: u64) mod spe = 0 \<Longrightarrow> slot div spe * spe = slot"
  using div_mult_mod_eq [of slot spe] by simp

lemma take_held_Inr:
  assumes "take_held Z blst node config chain slot vs = Inr (init, s)"
  obtains w root siblings where "slot mod slots_per_epoch config = 0"
    "walk Z blst vs config slot (slot div slots_per_epoch config) = Inr w"
    "opens_registry Z (wk_ssz_data_root w) (wk_num_validators w) root siblings"
    "claimed_state_root node slot = Inr root"
    "init = \<lparr>ip_chain = chain, ip_epoch = slot div slots_per_epoch config, ip_state_root = root,
       ip_num_validators = wk_num_validators w, ip_total_active_balance = wk_total_active_balance w,
       ip_acc_root = acc_tree_root Z (wk_tree w),
       ip_accumulator_commitment = commitment Z (acc_tree_root Z (wk_tree w)) (wk_total_active_balance w),
       ip_siblings = siblings\<rparr>"
    "s = snapshot_of_walk Z chain (slot div slots_per_epoch config) slot (acc_tree_root Z (wk_tree w))
       (wk_total_active_balance w) (wk_num_validators w) root siblings w"
proof -
  from assms obtain w served root siblings where
    w: "slot mod slots_per_epoch config = 0" "walk Z blst vs config slot (slot div slots_per_epoch config) = Inr w"
    and proved: "(case served of
          Some raw \<Rightarrow> bind_res (map_err InitStateParse (parse_state_proof Z raw
            (list_hash_tree_root Z (wk_ssz_data_root w) (wk_num_validators w)) config slot)) (\<lambda>p.
            Inr (stp_state_root p, stp_siblings p))
        | None \<Rightarrow> Inr (make_state_proof Z (wk_ssz_data_root w) (wk_num_validators w) default_history)) =
      Inr (root, siblings)"
    and claimed: "claimed_state_root node slot = Inr root"
    and init: "init = \<lparr>ip_chain = chain, ip_epoch = slot div slots_per_epoch config, ip_state_root = root,
       ip_num_validators = wk_num_validators w, ip_total_active_balance = wk_total_active_balance w,
       ip_acc_root = acc_tree_root Z (wk_tree w),
       ip_accumulator_commitment = commitment Z (acc_tree_root Z (wk_tree w)) (wk_total_active_balance w),
       ip_siblings = siblings\<rparr>"
      "s = snapshot_of_walk Z chain (slot div slots_per_epoch config) slot (acc_tree_root Z (wk_tree w))
       (wk_total_active_balance w) (wk_num_validators w) root siblings w"
    by (auto simp: take_held_def Let_def)
  have "opens_registry Z (wk_ssz_data_root w) (wk_num_validators w) root siblings"
  proof (cases served)
    case None
    then show ?thesis using proved make_state_proof_opens by (auto simp: opens_registry_def)
  next
    case (Some raw)
    then show ?thesis using proved parse_state_proof_opens(1) by (auto simp: opens_registry_def)
  qed
  with w show thesis by (rule that [OF _ _ _ claimed init])
qed

lemma take_then_open:
  assumes "take_held Z blst node config chain slot vs = Inr (init, s)" "chain \<noteq> []" "sane_config config"
    and "fits_config config vs"
  shows "open_held Z blst config chain init vs = Inr s"
proof -
  obtain w root siblings where w: "slot mod slots_per_epoch config = 0"
    "walk Z blst vs config slot (slot div slots_per_epoch config) = Inr w"
    "opens_registry Z (wk_ssz_data_root w) (wk_num_validators w) root siblings"
    and init: "init = \<lparr>ip_chain = chain, ip_epoch = slot div slots_per_epoch config, ip_state_root = root,
       ip_num_validators = wk_num_validators w, ip_total_active_balance = wk_total_active_balance w,
       ip_acc_root = acc_tree_root Z (wk_tree w),
       ip_accumulator_commitment = commitment Z (acc_tree_root Z (wk_tree w)) (wk_total_active_balance w),
       ip_siblings = siblings\<rparr>"
    and s: "s = snapshot_of_walk Z chain (slot div slots_per_epoch config) slot (acc_tree_root Z (wk_tree w))
       (wk_total_active_balance w) (wk_num_validators w) root siblings w"
    by (rule take_held_Inr [OF assms(1)])
  have "wk_num_validators w \<noteq> 0"
    using walk_Inr(6) [OF w(2)] assms(4) by (simp add: fits_config_def)
  moreover have "init_slot init config = slot" using multiple_slot [OF w(1)] by (simp add: init_slot_def init)
  ultimately show ?thesis
    using w(2,3) assms(2,3)
    by (simp add: open_held_def init_check_def init s opens_registry_def sane_config_def)
qed

end
