(* ===== verification/Prover.thy ===== *)
theory Prover
  imports HostEpochRun HostCommittee SlotProof Justification Aggregation Finalization StreamFinal
begin

text \<open>
  \<open>crates/witness-gen/src/prover.rs\<close> and \<open>child_vks.rs\<close>: the proof stages, the keys the guests bake
  for them, and the interface of a prover - one operation per stage, which answers with the outputs
  the circuit commits to and a proof. \<open>NativeProver\<close> runs the guests' own logic and answers with
  empty proofs; a guest that panics is an error of the stage.
\<close>

datatype stage =
    EpochDiff | Committee | SlotProof | Justification | Finalization | Group | Aggregate | StreamFinal

fun stage_as_str :: "stage \<Rightarrow> string" where
  "stage_as_str EpochDiff = ''epoch_diff''"
| "stage_as_str Committee = ''committee''"
| "stage_as_str SlotProof = ''slot_proof''"
| "stage_as_str Justification = ''justification''"
| "stage_as_str Finalization = ''finalization''"
| "stage_as_str Group = ''group''"
| "stage_as_str Aggregate = ''aggregate''"
| "stage_as_str StreamFinal = ''stream_final''"

fun is_persisted :: "stage \<Rightarrow> bool" where
  "is_persisted EpochDiff = True"
| "is_persisted StreamFinal = True"
| "is_persisted Justification = True"
| "is_persisted _ = False"

definition ALL_STAGES :: "stage list" where
  "ALL_STAGES = [EpochDiff, Committee, SlotProof, Justification, Finalization, Group, Aggregate, StreamFinal]"

definition stage_from_str :: "string \<Rightarrow> stage option" where
  "stage_from_str s = find (\<lambda>st. stage_as_str st = s) ALL_STAGES"

fun baked_vk :: "stage \<Rightarrow> program_vk option" where
  "baked_vk SlotProof = Some SLOT_PROGRAM_VK"
| "baked_vk Committee = Some COMMITTEE_PROGRAM_VK"
| "baked_vk EpochDiff = Some EPOCH_DIFF_PROGRAM_VK"
| "baked_vk Group = Some GROUP_PROGRAM_VK"
| "baked_vk Aggregate = Some AGGREGATE_PROGRAM_VK"
| "baked_vk Justification = Some JUSTIFICATION_PROGRAM_VK"
| "baked_vk Finalization = None"
| "baked_vk StreamFinal = None"

datatype vk_error = GuestsUnbaked stage | OtherProgram stage

definition check_vk :: "stage \<Rightarrow> program_vk \<Rightarrow> vk_error + unit" where
  "check_vk st derived =
     (case baked_vk st of
        None \<Rightarrow> Inr ()
      | Some baked \<Rightarrow>
          if baked = derived then Inr ()
          else if baked = UNSET_VK then Inl (GuestsUnbaked st)
          else Inl (OtherProgram st))"

section \<open>The interface\<close>

datatype prover_error = CircuitRejected stage | ProverFailed stage

record prover =
  program_vk_of :: "stage \<Rightarrow> program_vk"
  prove_epoch_diff :: "epoch_diff_witness \<Rightarrow> prover_error + epoch_diff_output \<times> proof_words"
  prove_committee :: "committee_witness \<Rightarrow> prover_error + committee_output \<times> proof_words"
  prove_slot :: "slot_proof_witness \<Rightarrow> prover_error + slot_proof_output \<times> proof_words"
  prove_justification :: "justification_witness \<Rightarrow> prover_error + justification_output \<times> proof_words"
  prove_finalization :: "finalization_witness \<Rightarrow> prover_error + finalization_output \<times> proof_words"
  prove_group :: "slot_proof_witness \<Rightarrow> prover_error + group_proof_output \<times> fp12 \<times> proof_words"
  prove_aggregate :: "aggregate_witness \<Rightarrow> prover_error + aggregate_output \<times> proof_words"
  prove_stream_final :: "stream_final_witness \<Rightarrow> prover_error + stream_final_output \<times> proof_words"

section \<open>The native prover\<close>

definition run_circuit :: "stage \<Rightarrow> 'p + 'a \<Rightarrow> prover_error + 'a" where
  "run_circuit st m = map_err (\<lambda>_. CircuitRejected st) m"

definition unproved :: "prover_error + 'a \<Rightarrow> prover_error + 'a \<times> proof_words" where
  "unproved m = bind_res m (\<lambda>output. Inr (output, []))"

definition native_prover :: "zisk \<Rightarrow> chain_config \<Rightarrow> prover" where
  "native_prover Z config =
     \<lparr>program_vk_of = (\<lambda>st. case baked_vk st of Some vk \<Rightarrow> vk | None \<Rightarrow> UNSET_VK),
      prove_epoch_diff = (\<lambda>w. unproved (run_circuit EpochDiff
        (verify_epoch_diff_with_depth Z w (validators_tree_depth config) (acc_tree_depth config)))),
      prove_committee = (\<lambda>w. unproved (run_circuit Committee
        (verify_committee Z (committee_encode w) (acc_tree_depth config)))),
      prove_slot = (\<lambda>w. unproved (run_circuit SlotProof
        (verify_slot_proof_with_depth Z w (acc_tree_depth config)))),
      prove_justification = (\<lambda>w. unproved (run_circuit Justification (verify_justification Z w))),
      prove_finalization = (\<lambda>w. unproved (run_circuit Finalization
        (verify_finalization_with_slots Z w (slots_per_epoch config)))),
      prove_group = (\<lambda>w.
        bind_res (run_circuit Group (bind_res
            (verify_group_proof_with_depth Z w (acc_tree_depth config)) (\<lambda>output.
          bind_res (attest Z w (acc_tree_depth config)) (\<lambda>at. Inr (output, att_miller at)))))
          (\<lambda>(output, miller). Inr (output, miller, []))),
      prove_aggregate = (\<lambda>w. unproved (run_circuit Aggregate (verify_aggregate Z w))),
      prove_stream_final = (\<lambda>w. unproved (run_circuit StreamFinal
        (verify_stream_final_with Z w (acc_tree_depth config) (slots_per_epoch config))))\<rparr>"

lemma unproved_circuit_Inr [simp]: "unproved (run_circuit st m) = Inr (x, pf) \<longleftrightarrow> m = Inr x \<and> pf = []"
  by (auto simp: unproved_def run_circuit_def)

lemma unproved_circuit: "m = Inr x \<Longrightarrow> unproved (run_circuit st m) = Inr (x, [])"
  by simp

text \<open>A stage is named by its text, and its key checks against itself.\<close>

lemma stage_from_as_str: "stage_from_str (stage_as_str st) = Some st"
  by (cases st) (simp_all add: stage_from_str_def ALL_STAGES_def)

lemma check_vk_Inr: "check_vk st vk = Inr () \<longleftrightarrow> baked_vk st = None \<or> baked_vk st = Some vk"
  by (auto simp: check_vk_def split: option.splits)

text \<open>
  Off the zkVM a guest takes an empty proof for a child, so what the native prover answers composes:
  a fold over its outputs checks their contents alone.
\<close>

lemma native_child: "\<not> target_zkvm Z \<Longrightarrow> baked_child Z [] vk (Inr publics) = Inr True"
  by (simp add: baked_child_def verify_baked_child_def)

end
