(* ===== verification/Daemon.thy ===== *)
theory Daemon
  imports Prover InitPoint BoundaryCache HostBoundary
begin

text \<open>
  The daemon's epoch loop (\<open>crates/witness-gen/src/orchestrator/\<close>): the accumulator moves one epoch at
  a time over a proved diff (\<open>accumulator.rs\<close>), possibly one that was proved ahead of the cursor
  (\<open>speculation.rs\<close>, \<open>engine.rs\<close>); an epoch is justified, finalizing the one before it, or given up
  (\<open>batch.rs\<close>, \<open>stream.rs\<close>).

  What the stages share is a record of the environment: the node, the prover, the disk, the library
  of keys. Reporting, publishing, the artifact sink and the clock are left out; a task that proves
  ahead is its result. An error ends the run, as it does in the daemon, so it carries no engine.
\<close>

record environment =
  ev_zisk :: zisk
  ev_blst :: blst_key
  ev_config :: chain_config
  ev_node :: beacon_node
  ev_registry :: registry_node
  ev_prover :: prover
  ev_sha256 :: "bytes \<Rightarrow> bytes32"
  ev_disk_writes :: bool

datatype daemon_error =
    OpenBoundary u64 node_error
  | BuildDiff epoch_build_error
  | DiffSpans u64 u64
  | ProverError prover_error
  | CircuitTreeDiffers
  | CircuitTotalDiffers
  | DiffStartsOffCursor
  | StoreRefused store_error
  | BuildCommittees host_committee_error
  | CommitteeTreeDiffers
  | NotASupermajorityAtClose
  | BoundaryAnchor boundary_error

section \<open>Proved ahead\<close>

record ahead_diff =
  ad_witness :: epoch_diff_witness
  ad_output :: epoch_diff_output
  ad_proof :: proof_words
  ad_tree :: acc_tree
  ad_epoch_state :: epoch_state
  ad_num_validators :: u64

record ahead_committee =
  ac_committees :: epoch_committees
  ac_output :: committee_output
  ac_proof :: proof_words

record speculation =
  sp_running :: "(u64 \<times> digest \<times> (daemon_error + ahead_diff \<times> ahead_committee)) option"
  sp_committee :: "(u64 \<times> digest \<times> ahead_committee) option"

definition speculation_idle :: speculation where
  "speculation_idle = \<lparr>sp_running = None, sp_committee = None\<rparr>"

definition speculation_covers :: "speculation \<Rightarrow> u64 \<Rightarrow> bool" where
  "speculation_covers s epoch \<longleftrightarrow>
     (case sp_running s of Some (e, _, _) \<Rightarrow> e = epoch | None \<Rightarrow> False) \<or>
     (case sp_committee s of Some (e, _, _) \<Rightarrow> e = epoch | None \<Rightarrow> False)"

definition speculation_forget :: "speculation \<Rightarrow> speculation" where
  "speculation_forget s = s\<lparr>sp_running := None, sp_committee := None\<rparr>"

definition speculation_start ::
  "speculation \<Rightarrow> u64 \<Rightarrow> digest \<Rightarrow> daemon_error + ahead_diff \<times> ahead_committee \<Rightarrow> speculation" where
  "speculation_start s epoch from_commitment task =
     (speculation_forget s)\<lparr>sp_running := Some (epoch, from_commitment, task)\<rparr>"

definition take_diff :: "speculation \<Rightarrow> u64 \<Rightarrow> digest \<Rightarrow> ahead_diff option \<times> speculation" where
  "take_diff s epoch comm =
     (case sp_running s of
        None \<Rightarrow> (None, s)
      | Some (started_for, from_commitment, task) \<Rightarrow>
          let s' = s\<lparr>sp_running := None\<rparr> in
          if started_for \<noteq> epoch \<or> from_commitment \<noteq> comm then (None, s'\<lparr>sp_committee := None\<rparr>)
          else (case task of
                  Inr (diff, com) \<Rightarrow>
                    (Some diff, s'\<lparr>sp_committee :=
                       Some (epoch, ed_accumulator_commitment (ad_output diff), com)\<rparr>)
                | Inl _ \<Rightarrow> (None, s')))"

definition take_committee :: "speculation \<Rightarrow> u64 \<Rightarrow> digest \<Rightarrow> ahead_committee option \<times> speculation" where
  "take_committee s epoch comm =
     (case sp_committee s of
        None \<Rightarrow> (None, s)
      | Some (made_for, against, com) \<Rightarrow>
          if made_for \<noteq> epoch \<or> against \<noteq> comm then (None, s\<lparr>sp_committee := None\<rparr>)
          else (Some com, s\<lparr>sp_committee := None\<rparr>))"

text \<open>The task: the diff, then the committees of the epoch it opens, on the tree it produced.\<close>

definition speculation_task ::
  "environment \<Rightarrow> u64 \<Rightarrow> epoch_build \<Rightarrow> boundary_inputs \<Rightarrow> daemon_error + ahead_diff \<times> ahead_committee" where
  "speculation_task env epoch b boundary =
     (let Z = ev_zisk env; config = ev_config env in
     bind_res (map_err ProverError (prove_epoch_diff (ev_prover env) (eb_witness b))) (\<lambda>(output, pf).
     ensure (ed_acc_root output = acc_tree_root Z (eb_tree b)) CircuitTreeDiffers
    (ensure (ed_total_active_balance output = eb_total b) CircuitTotalDiffers
    (bind_res (map_err BuildCommittees (host_committee_build Z (ev_blst env) (bi_committees boundary)
        (bi_validators boundary) (eb_tree b) (slots_per_epoch config) epoch epoch (eb_total b))) (\<lambda>ec.
     bind_res (map_err ProverError (prove_committee (ev_prover env) (ec_witness ec))) (\<lambda>(c_output, c_pf).
     ensure (c_output = ec_output ec) CommitteeTreeDiffers
    (Inr (\<lparr>ad_witness = eb_witness b, ad_output = output, ad_proof = pf, ad_tree = eb_tree b,
           ad_epoch_state = eb_state b, ad_num_validators = eb_num_validators b\<rparr>,
          \<lparr>ac_committees = ec, ac_output = c_output, ac_proof = c_pf\<rparr>))))))))"

section \<open>The engine\<close>

record engine =
  en_snapshot :: snapshot
  en_boundaries :: boundary_cache
  en_ahead :: speculation

abbreviation en_state :: "engine \<Rightarrow> store_state" where "en_state en \<equiv> sn_state (en_snapshot en)"

definition open_boundary_at ::
  "environment \<Rightarrow> boundary_cache \<Rightarrow> u64 \<Rightarrow> daemon_error + boundary_inputs \<times> boundary_cache" where
  "open_boundary_at env C slot =
     map_err (OpenBoundary slot)
       (boundary_at (ev_sha256 env) (ev_disk_writes env) (ev_registry env) (ev_config env) C slot)"

text \<open>How many boundaries one hold may take off the node.\<close>

definition HOLD_AHEAD :: nat where "HOLD_AHEAD = 4"

fun hold_steps :: "environment \<Rightarrow> nat \<Rightarrow> u64 list \<Rightarrow> boundary_cache \<Rightarrow> boundary_cache" where
  "hold_steps env tried [] C = C"
| "hold_steps env tried (epoch # es) C =
     (if tried \<ge> HOLD_AHEAD then C
      else let slot = epoch * slots_per_epoch (ev_config env) in
        if cache_holds C slot then hold_steps env tried es C
        else (case boundary_read (ev_registry env) (ev_config env) slot of
                Inr inputs \<Rightarrow> hold_steps env (tried + 1) es
                  (cache_put (ev_sha256 env) (ev_disk_writes env) C inputs)
              | Inl _ \<Rightarrow> hold_steps env (tried + 1) es C))"

definition hold_boundaries :: "environment \<Rightarrow> u64 \<Rightarrow> u64 \<Rightarrow> engine \<Rightarrow> engine" where
  "hold_boundaries env head_slot from_epoch en =
     en\<lparr>en_boundaries := hold_steps env 0
          (map of_nat [unat from_epoch..<unat (head_slot div slots_per_epoch (ev_config env)) + 1])
          (en_boundaries en)\<rparr>"

text \<open>The two registries around a step. What the first read put in the cache stays when the second fails,
  and so does what a read that fails threw out of it.\<close>

definition open_pair ::
  "environment \<Rightarrow> boundary_cache \<Rightarrow> u64 \<Rightarrow> u64 \<Rightarrow>
     (daemon_error + boundary_inputs \<times> boundary_inputs) \<times> boundary_cache" where
  "open_pair env C slot_1 slot_2 =
     (case open_boundary_at env C slot_1 of
        Inl e \<Rightarrow> (Inl e, snd (cache_get (ev_sha256 env) C slot_1))
      | Inr (held_1, C1) \<Rightarrow>
          (case open_boundary_at env C1 slot_2 of
             Inl e \<Rightarrow> (Inl e, snd (cache_get (ev_sha256 env) C1 slot_2))
           | Inr (held_2, C2) \<Rightarrow> (Inr (held_1, held_2), C2)))"

text \<open>The witness of the step, built on a clone of the tree.\<close>

definition build_diff ::
  "environment \<Rightarrow> snapshot \<Rightarrow> u64 \<Rightarrow> boundary_inputs \<times> boundary_inputs \<Rightarrow> daemon_error + epoch_build" where
  "build_diff env s to_epoch held =
     bind_res (map_err BuildDiff (build_held (ev_zisk env) (ev_blst env) (ev_node env) (ev_config env)
       (sn_tree s) (sn_epoch_state s) (bi_validators (fst held)) (bi_validators (snd held))
       (to_epoch * slots_per_epoch (ev_config env)) (ss_total_active_balance (sn_state s)))) (\<lambda>b.
     ensure (epoch_1 (eb_witness b) = ss_cursor_epoch (sn_state s) \<and> epoch_2 (eb_witness b) = to_epoch)
       (DiffSpans (epoch_1 (eb_witness b)) (epoch_2 (eb_witness b)))
    (Inr b))"

definition open_diff ::
  "environment \<Rightarrow> engine \<Rightarrow> u64 \<Rightarrow> (daemon_error + boundary_inputs \<times> boundary_inputs) \<times> boundary_cache" where
  "open_diff env en to_epoch =
     open_pair env (en_boundaries en) (es_slot (sn_epoch_state (en_snapshot en)))
       (to_epoch * slots_per_epoch (ev_config env))"

text \<open>
  Starting the next epoch's proofs. \<open>speculate\<close> reports a failure and drops it, which is why the
  outcome is the engine either way.
\<close>

definition start_speculation :: "environment \<Rightarrow> u64 \<Rightarrow> u64 \<Rightarrow> engine \<Rightarrow> engine" where
  "start_speculation env head_slot next_epoch en =
     (if head_slot < next_epoch * slots_per_epoch (ev_config env) then en
      else let (held, C) = open_diff env en next_epoch; en' = en\<lparr>en_boundaries := C\<rparr> in
        case bind_res held (\<lambda>h. bind_res (build_diff env (en_snapshot en) next_epoch h) (\<lambda>b. Inr (b, snd h))) of
          Inl _ \<Rightarrow> en'
        | Inr (b, held_2) \<Rightarrow>
            en'\<lparr>en_ahead := speculation_start (en_ahead en) next_epoch (ss_acc_commitment (en_state en))
              (speculation_task env next_epoch b held_2)\<rparr>)"

definition speculate :: "environment \<Rightarrow> u64 \<Rightarrow> u64 \<Rightarrow> engine \<Rightarrow> engine" where
  "speculate env head_slot next_epoch en =
     (if speculation_covers (en_ahead en) next_epoch then en
      else start_speculation env head_slot next_epoch en)"

section \<open>Moving the accumulator\<close>

definition adopt_diff :: "environment \<Rightarrow> engine \<Rightarrow> u64 \<Rightarrow> ahead_diff \<Rightarrow> daemon_error + engine" where
  "adopt_diff env en to_epoch ahead =
     (let output = ad_output ahead; st = en_state en in
     ensure (ed_prev_accumulator_commitment output = ss_acc_commitment st) DiffStartsOffCursor
    (bind_res (map_err StoreRefused (store_advance (ev_zisk env) st to_epoch (ed_acc_root output)
        (ed_accumulator_commitment output) (ed_total_active_balance output) (ad_num_validators ahead)
        (Some \<lparr>er_output = output, er_proof = ad_proof ahead\<rparr>))) (\<lambda>st'.
     Inr (en\<lparr>en_snapshot := \<lparr>sn_state = st', sn_tree = ad_tree ahead, sn_epoch_state = ad_epoch_state ahead\<rparr>,
            en_boundaries := cache_forget_before (en_boundaries en)
              (to_epoch * slots_per_epoch (ev_config env))\<rparr>))))"

definition advance_inline :: "environment \<Rightarrow> engine \<Rightarrow> u64 \<Rightarrow> daemon_error + engine" where
  "advance_inline env en to_epoch =
     (let Z = ev_zisk env; st = en_state en; (held, C) = open_diff env en to_epoch in
     bind_res held (\<lambda>h.
     bind_res (build_diff env (en_snapshot en) to_epoch h) (\<lambda>b.
     bind_res (map_err ProverError (prove_epoch_diff (ev_prover env) (eb_witness b))) (\<lambda>(output, pf).
     ensure (ed_acc_root output = acc_tree_root Z (eb_tree b)) CircuitTreeDiffers
    (ensure (ed_total_active_balance output = eb_total b) CircuitTotalDiffers
    (ensure (ed_prev_accumulator_commitment output = ss_acc_commitment st) DiffStartsOffCursor
    (bind_res (map_err StoreRefused (store_advance Z st to_epoch (ed_acc_root output)
        (ed_accumulator_commitment output) (ed_total_active_balance output) (eb_num_validators b)
        (Some \<lparr>er_output = output, er_proof = pf\<rparr>))) (\<lambda>st'.
     Inr (en\<lparr>en_snapshot := \<lparr>sn_state = st', sn_tree = eb_tree b, sn_epoch_state = eb_state b\<rparr>,
            en_boundaries := cache_forget_before C (to_epoch * slots_per_epoch (ev_config env))\<rparr>)))))))))"

definition advance_accumulator :: "environment \<Rightarrow> engine \<Rightarrow> u64 \<Rightarrow> daemon_error + engine" where
  "advance_accumulator env en to_epoch =
     (let (ahead, sp) = take_diff (en_ahead en) to_epoch (ss_acc_commitment (en_state en));
          en' = en\<lparr>en_ahead := sp\<rparr> in
      case ahead of
        Some diff \<Rightarrow> adopt_diff env en' to_epoch diff
      | None \<Rightarrow> advance_inline env en' to_epoch)"

text \<open>The half of a tick that moves the accumulator: \<open>None\<close> when the chain has not got there.\<close>

definition advance_tick :: "environment \<Rightarrow> u64 \<Rightarrow> engine \<Rightarrow> daemon_error + engine \<times> u64 option" where
  "advance_tick env head_slot en =
     (let next = ss_cursor_epoch (en_state en) + 1 in
      if next \<le> head_slot div slots_per_epoch (ev_config env)
      then bind_res (advance_accumulator env en next) (\<lambda>en'. Inr (en', Some next))
      else Inr (en, None))"

section \<open>Justifying and finalizing\<close>

definition prove_committees ::
  "environment \<Rightarrow> engine \<Rightarrow> u64 \<Rightarrow> boundary_inputs \<Rightarrow> daemon_error + ahead_committee" where
  "prove_committees env en target_epoch boundary =
     bind_res (map_err BuildCommittees (host_committee_build (ev_zisk env) (ev_blst env)
       (bi_committees boundary) (bi_validators boundary) (sn_tree (en_snapshot en))
       (slots_per_epoch (ev_config env)) target_epoch target_epoch
       (ss_total_active_balance (en_state en)))) (\<lambda>ec.
     bind_res (map_err ProverError (prove_committee (ev_prover env) (ec_witness ec))) (\<lambda>(output, pf).
     ensure (output = ec_output ec) CommitteeTreeDiffers
    (Inr \<lparr>ac_committees = ec, ac_output = output, ac_proof = pf\<rparr>)))"

definition open_committees ::
  "environment \<Rightarrow> engine \<Rightarrow> u64 \<Rightarrow> daemon_error + ahead_committee \<times> engine" where
  "open_committees env en target_epoch =
     bind_res (open_boundary_at env (en_boundaries en) (target_epoch * slots_per_epoch (ev_config env)))
       (\<lambda>(boundary, C).
     let (ready, sp) = take_committee (en_ahead en) target_epoch (ss_acc_commitment (en_state en));
         en' = en\<lparr>en_boundaries := C, en_ahead := sp\<rparr> in
     case ready of
       Some com \<Rightarrow> Inr (com, en')
     | None \<Rightarrow> bind_res (prove_committees env en' target_epoch boundary) (\<lambda>com. Inr (com, en')))"

definition diff_links :: "epoch_diff_output \<Rightarrow> justification_output \<Rightarrow> justification_output \<Rightarrow> bool" where
  "diff_links d previous current \<longleftrightarrow>
     ed_epoch_1 d = jo_target_epoch previous \<and> ed_epoch_2 d = jo_target_epoch current \<and>
     ed_prev_accumulator_commitment d = jo_accumulator_commitment previous \<and>
     ed_accumulator_commitment d = jo_accumulator_commitment current"

definition finalization_pair ::
  "justification_record \<Rightarrow> justification_record \<Rightarrow> epoch_diff_record \<Rightarrow> boundary_anchor \<Rightarrow> finalization_witness" where
  "finalization_pair previous current d boundary =
     \<lparr>fw_boundary = boundary,
      justification_outputs = [jr_output previous, jr_output current],
      justification_proofs = [jr_proof previous, jr_proof current],
      fw_epoch_diff_output = er_output d,
      fw_epoch_diff_proof = er_proof d\<rparr>"

definition try_finalize ::
  "environment \<Rightarrow> engine \<Rightarrow> justification_record \<Rightarrow> daemon_error + checkpoint option" where
  "try_finalize env en current =
     (case ss_last_justification (en_state en) of
        None \<Rightarrow> Inr None
      | Some previous \<Rightarrow>
          let epoch = jo_target_epoch (jr_output previous) in
          if epoch + 1 \<noteq> jo_target_epoch (jr_output current) then Inr None
          else (case ss_last_epoch_diff (en_state en) of
                  None \<Rightarrow> Inr None
                | Some d \<Rightarrow>
                    if \<not> diff_links (er_output d) (jr_output previous) (jr_output current) then Inr None
                    else
                      bind_res (map_err BoundaryAnchor (build_boundary (ev_zisk env) (ev_node env) (ev_config env)
                        (jo_target_root (jr_output current)) epoch (jo_target_root (jr_output previous))
                        (ed_state_root_1 (er_output d)) (sn_epoch_state (en_snapshot en)))) (\<lambda>boundary.
                      bind_res (map_err ProverError (prove_finalization (ev_prover env)
                        (finalization_pair previous current d boundary))) (\<lambda>(output, pf).
                      Inr (Some \<lparr>cp_epoch = fo_finalized_epoch output, cp_root = fo_finalized_root output\<rparr>)))))"

definition close_epoch :: "environment \<Rightarrow> engine \<Rightarrow> u64 \<Rightarrow> justification_record \<Rightarrow> daemon_error + engine" where
  "close_epoch env en target_epoch record =
     ensure (justified (jr_output record)) NotASupermajorityAtClose
    (bind_res (try_finalize env en record) (\<lambda>finalized.
     let st = en_state en; target_epoch = ss_cursor_epoch st;
         st' = st\<lparr>ss_justified_through := Some target_epoch,
                  ss_attempted_epoch := Some target_epoch,
                  ss_last_justification := Some record,
                  ss_finalized := (case finalized of Some c \<Rightarrow> Some c | None \<Rightarrow> ss_finalized st)\<rparr>
     in Inr (en\<lparr>en_snapshot := (en_snapshot en)\<lparr>sn_state := st'\<rparr>\<rparr>)))"

definition can_stream :: "store_state \<Rightarrow> bool" where
  "can_stream st \<longleftrightarrow> ss_last_epoch_diff st \<noteq> None \<and>
     previous_justification_for st (ss_cursor_epoch st) \<noteq> None"

definition finish_stream :: "engine \<Rightarrow> u64 \<Rightarrow> stream_final_output \<Rightarrow> proof_words \<Rightarrow> engine" where
  "finish_stream en target_epoch output pf =
     (let st = en_state en;
          st' = st\<lparr>ss_justified_through := Some target_epoch,
                   ss_attempted_epoch := Some target_epoch,
                   ss_last_stream_final := Some \<lparr>sr_output = output, sr_proof = pf\<rparr>,
                   ss_finalized := Some \<lparr>cp_epoch = sf_finalized_epoch output, cp_root = sf_finalized_root output\<rparr>\<rparr>
      in en\<lparr>en_snapshot := (en_snapshot en)\<lparr>sn_state := st'\<rparr>\<rparr>)"

definition give_up :: "engine \<Rightarrow> u64 \<Rightarrow> engine" where
  "give_up en target_epoch = en\<lparr>en_snapshot := (en_snapshot en)\<lparr>sn_state := (en_state en)
     \<lparr>ss_attempted_epoch := Some target_epoch\<rparr>\<rparr>\<rparr>"

end
