(* ===== verification/DaemonRun.thy ===== *)
theory DaemonRun
  imports Daemon
begin

text \<open>
  What the daemon's engine keeps (\<open>Daemon\<close>): whatever the prover answers and whatever the node refuses,
  the accumulator it holds is the one of the registry at its cursor.
\<close>

section \<open>The laws of the environment\<close>

text \<open>Two environments of one chain: the node, the prover and the disk may change between steps.\<close>

definition same_chain :: "environment \<Rightarrow> environment \<Rightarrow> bool" where
  "same_chain E env \<longleftrightarrow> ev_zisk env = ev_zisk E \<and> ev_blst env = ev_blst E \<and> ev_config env = ev_config E \<and>
     ev_sha256 env = ev_sha256 E"

text \<open>The registry of each slot, and a node that answers with it or not at all.\<close>

definition serves :: "environment \<Rightarrow> (u64 \<Rightarrow> validator_response list) \<Rightarrow> bool" where
  "serves env reg \<longleftrightarrow> (\<forall>slot i. boundary_read (ev_registry env) (ev_config env) slot = Inr i \<longrightarrow>
     bi_validators i = reg slot \<and> good_inputs (ev_sha256 env) i)"

text \<open>Epochs whose first slot is a slot number.\<close>

definition in_range :: "chain_config \<Rightarrow> u64 \<Rightarrow> bool" where
  "in_range config epoch \<longleftrightarrow> unat epoch * unat (slots_per_epoch config) < 2 ^ 64"

definition grows :: "environment \<Rightarrow> nat \<Rightarrow> (u64 \<Rightarrow> validator_response list) \<Rightarrow> bool" where
  "grows E dense reg \<longleftrightarrow>
     (let config = ev_config E; spe = slots_per_epoch config in
      sane_config config \<and> 1 < spe \<and>
      (\<forall>epoch. in_range config (epoch + 1) \<and> epoch + 1 \<noteq> 0 \<longrightarrow>
         next_registry (ev_zisk E) (ev_blst E) config dense (reg (epoch * spe)) (reg ((epoch + 1) * spe))))"

section \<open>The invariant\<close>

definition held_right :: "(u64 \<Rightarrow> validator_response list) \<Rightarrow> boundary_inputs \<Rightarrow> bool" where
  "held_right reg i \<longleftrightarrow> bi_validators i = reg (bi_slot i)"

definition lookups_right ::
  "(u64 \<Rightarrow> validator_response list) \<Rightarrow> (u64 \<Rightarrow> boundary_inputs option) \<Rightarrow> bool" where
  "lookups_right reg look \<longleftrightarrow> (\<forall>s i. look s = Some i \<longrightarrow> bi_slot i = s \<and> bi_validators i = reg s)"

definition boundaries_ok :: "(bytes \<Rightarrow> bytes32) \<Rightarrow> (u64 \<Rightarrow> validator_response list) \<Rightarrow> boundary_cache \<Rightarrow> bool" where
  "boundaries_ok sha reg C \<longleftrightarrow>
     list_all (held_right reg) (bc_hot C) \<and> lookups_right reg (file_lookup sha C)"

lemma lookups_rightD:
  "lookups_right reg look \<Longrightarrow> look s = Some i \<Longrightarrow> bi_slot i = s \<and> bi_validators i = reg s"
  by (simp add: lookups_right_def)

lemma lookups_right_sub:
  assumes "lookups_right reg look" "\<And>s i. look' s = Some i \<Longrightarrow> look s = Some i"
  shows "lookups_right reg look'"
  using assms by (simp add: lookups_right_def)

lemma list_all_drop: "list_all P xs \<Longrightarrow> list_all P (drop n xs)"
  by (meson in_set_dropD list_all_iff)

lemma warm_right:
  assumes "boundaries_ok sha reg C" "held_right reg i"
  shows "boundaries_ok sha reg (cache_warm C i)"
proof -
  have "list_all (held_right reg) (filter (\<lambda>held. bi_slot held \<noteq> bi_slot i) (bc_hot C) @ [i])"
    using assms by (auto simp: boundaries_ok_def list_all_iff)
  then show ?thesis
    using assms(1) by (auto simp: boundaries_ok_def cache_warm_def Let_def intro: list_all_drop)
qed

lemma file_lookup_removed:
  "file_lookup sha (C\<lparr>bc_dir := (bc_dir C)(slot := None)\<rparr>) s = (if s = slot then None else file_lookup sha C s)"
  by (simp add: file_lookup_def)

lemma get_right:
  assumes "boundaries_ok sha reg C"
  shows "boundaries_ok sha reg (snd (cache_get sha C slot))"
    and "fst (cache_get sha C slot) = Some i \<Longrightarrow> bi_validators i = reg slot"
proof -
  have hot: "list_all (held_right reg) (bc_hot C)" and look: "lookups_right reg (file_lookup sha C)"
    using assms by (simp_all add: boundaries_ok_def)
  show "boundaries_ok sha reg (snd (cache_get sha C slot))"
  proof (cases "find (\<lambda>held. bi_slot held = slot) (bc_hot C)")
    case miss: None
    show ?thesis
    proof (cases "bc_dir C slot")
      case (Some bs)
      show ?thesis
      proof (cases "boundary_decode sha bs")
        case (Inl e)
        have "lookups_right reg (file_lookup sha (C\<lparr>bc_dir := (bc_dir C)(slot := None)\<rparr>))"
          by (rule lookups_right_sub [OF look]) (simp add: file_lookup_removed split: if_splits)
        then show ?thesis using miss Some Inl hot by (simp add: cache_get_def boundaries_ok_def)
      next
        case (Inr j)
        have "file_lookup sha C slot = Some j" using Some Inr by (simp add: file_lookup_def)
        then have "held_right reg j" using lookups_rightD [OF look] by (simp add: held_right_def)
        then show ?thesis using miss Some Inr warm_right [OF assms] by (simp add: cache_get_def)
      qed
    qed (use miss assms in \<open>simp add: cache_get_def\<close>)
  qed (use assms in \<open>simp add: cache_get_def\<close>)
  assume got: "fst (cache_get sha C slot) = Some i"
  show "bi_validators i = reg slot"
  proof (cases "find (\<lambda>held. bi_slot held = slot) (bc_hot C)")
    case (Some j)
    then show ?thesis using got find_slot [OF Some] hot by (auto simp: cache_get_def list_all_iff held_right_def)
  next
    case None
    then have "file_lookup sha C slot = Some i"
      using got by (auto simp: cache_get_def file_lookup_def split: option.splits sum.splits)
    then show ?thesis using lookups_rightD [OF look] by blast
  qed
qed

lemma put_right:
  assumes "boundaries_ok sha reg C" "good_inputs sha i" "held_right reg i"
  shows "boundaries_ok sha reg (cache_put sha written C i)"
proof (cases written)
  case True
  have "boundary_decode sha (boundary_encode sha i) = Inr i"
    using boundary_decode_encode assms(2) by (simp add: good_inputs_def)
  then have "file_lookup sha (C\<lparr>bc_dir := (bc_dir C)(bi_slot i \<mapsto> boundary_encode sha i)\<rparr>) =
      (file_lookup sha C)(bi_slot i \<mapsto> i)"
    by (simp add: file_lookup_def fun_eq_iff)
  moreover have "lookups_right reg ((file_lookup sha C)(bi_slot i \<mapsto> i))"
    using assms(1,3) by (simp add: boundaries_ok_def lookups_right_def held_right_def)
  ultimately have "boundaries_ok sha reg (C\<lparr>bc_dir := (bc_dir C)(bi_slot i \<mapsto> boundary_encode sha i)\<rparr>)"
    using assms(1) by (simp add: boundaries_ok_def)
  then show ?thesis using warm_right assms(3) by (simp add: cache_put_def True)
next
  case False
  then show ?thesis using warm_right [OF assms(1,3)] by (simp add: cache_put_def)
qed

lemma forget_right:
  assumes "boundaries_ok sha reg C"
  shows "boundaries_ok sha reg (cache_forget_before C slot)"
proof -
  have "lookups_right reg (file_lookup sha (cache_forget_before C slot))"
    by (rule lookups_right_sub [of _ "file_lookup sha C"])
      (use assms in \<open>auto simp: boundaries_ok_def file_lookup_def cache_forget_before_def split: if_splits\<close>)
  then show ?thesis using assms by (auto simp: boundaries_ok_def cache_forget_before_def list_all_iff)
qed

lemma fresh_right:
  assumes "boundaries_ok sha reg C"
  shows "boundaries_ok sha reg (fresh_cache (bc_dir C))"
  using assms lookups_right_sub [of reg "file_lookup sha C" "file_lookup sha (fresh_cache (bc_dir C))"]
  by (simp add: boundaries_ok_def fresh_cache_def file_lookup_def)

section \<open>Opening boundaries\<close>

lemma read_slot: "boundary_read node config slot = Inr i \<Longrightarrow> bi_slot i = slot"
  by (auto simp: boundary_read_def)

lemma read_put_right:
  assumes "serves env reg" "boundaries_ok (ev_sha256 env) reg C"
    and "boundary_read (ev_registry env) (ev_config env) slot = Inr i"
  shows "boundaries_ok (ev_sha256 env) reg (cache_put (ev_sha256 env) written C i)"
    and "bi_validators i = reg slot"
proof -
  show "bi_validators i = reg slot" using assms(1,3) by (simp add: serves_def)
  then have "held_right reg i" using read_slot [OF assms(3)] by (simp add: held_right_def)
  then show "boundaries_ok (ev_sha256 env) reg (cache_put (ev_sha256 env) written C i)"
    using put_right assms by (simp add: serves_def)
qed

lemma open_boundary_right:
  assumes "serves env reg" "boundaries_ok (ev_sha256 env) reg C"
    and "open_boundary_at env C slot = Inr (i, C')"
  shows "boundaries_ok (ev_sha256 env) reg C'" and "bi_validators i = reg slot"
proof -
  obtain got D where g: "cache_get (ev_sha256 env) C slot = (got, D)" by fastforce
  have D: "boundaries_ok (ev_sha256 env) reg D" using get_right(1) [OF assms(2), of slot] by (simp add: g)
  have *: "boundaries_ok (ev_sha256 env) reg C' \<and> bi_validators i = reg slot"
  proof (cases got)
    case (Some j)
    then show ?thesis using assms(3) g D get_right(2) [OF assms(2), of slot i]
      by (simp add: open_boundary_at_def boundary_at_def)
  next
    case None
    then show ?thesis using assms(3) g read_put_right [OF assms(1) D]
      by (auto simp: open_boundary_at_def boundary_at_def)
  qed
  then show "boundaries_ok (ev_sha256 env) reg C'" "bi_validators i = reg slot" by blast+
qed

lemma open_pair_right:
  assumes "serves env reg" "boundaries_ok (ev_sha256 env) reg C"
    and "open_pair env C slot_1 slot_2 = (held, C')"
  shows "boundaries_ok (ev_sha256 env) reg C'"
    and "held = Inr (h1, h2) \<Longrightarrow> bi_validators h1 = reg slot_1 \<and> bi_validators h2 = reg slot_2"
proof -
  note open_right = open_boundary_right [OF assms(1)]
  have *: "boundaries_ok (ev_sha256 env) reg C' \<and>
      (held = Inr (h1, h2) \<longrightarrow> bi_validators h1 = reg slot_1 \<and> bi_validators h2 = reg slot_2)"
  proof (cases "open_boundary_at env C slot_1")
    case (Inl e)
    then show ?thesis using assms(3) get_right(1) [OF assms(2)] by (auto simp: open_pair_def)
  next
    case (Inr p)
    obtain i D where p: "p = (i, D)" by fastforce
    have D: "boundaries_ok (ev_sha256 env) reg D" "bi_validators i = reg slot_1"
      using open_right [OF assms(2)] Inr p by blast+
    show ?thesis
    proof (cases "open_boundary_at env D slot_2")
      case (Inl e)
      then show ?thesis using assms(3) Inr p get_right(1) [OF D(1)] by (auto simp: open_pair_def)
    next
      case second: (Inr q)
      obtain j F where q: "q = (j, F)" by fastforce
      show ?thesis using assms(3) Inr p second q D(2) open_right [OF D(1)] by (auto simp: open_pair_def)
    qed
  qed
  then show "boundaries_ok (ev_sha256 env) reg C'"
    and "held = Inr (h1, h2) \<Longrightarrow> bi_validators h1 = reg slot_1 \<and> bi_validators h2 = reg slot_2" by blast+
qed

lemma hold_right:
  assumes "serves env reg" "boundaries_ok (ev_sha256 env) reg C"
  shows "boundaries_ok (ev_sha256 env) reg (hold_steps env tried es C)"
  using assms
proof (induction env tried es C rule: hold_steps.induct)
  case (2 env tried epoch es C)
  note put = read_put_right(1) [OF 2(4,5)]
  show ?case using 2 put by (auto simp: Let_def split: sum.splits)
qed simp

section \<open>One built step\<close>

text \<open>A snapshot of the registry at its cursor, in a tree of a fixed dense height.\<close>

definition snapshot_ok :: "environment \<Rightarrow> nat \<Rightarrow> (u64 \<Rightarrow> validator_response list) \<Rightarrow> snapshot \<Rightarrow> bool" where
  "snapshot_ok E dense reg s \<longleftrightarrow>
     (let Z = ev_zisk E; config = ev_config E; st = sn_state s;
          slot = ss_cursor_epoch st * slots_per_epoch config in
      snapshot_bound Z s \<and> in_range config (ss_cursor_epoch st) \<and> es_slot (sn_epoch_state s) = slot \<and>
      in_step Z (ev_blst E) config (sn_tree s) (sn_epoch_state s) (reg slot) \<and>
      dense_depth (sn_tree s) = dense \<and>
      ss_total_active_balance st = total_active_balance_of (reg slot) (ss_cursor_epoch st) \<and>
      ss_num_validators st = of_nat (length (reg slot)))"

lemma in_range_epoch:
  assumes "in_range config epoch" "sane_config config"
  shows "epoch * slots_per_epoch config div slots_per_epoch config = epoch"
  using assms epoch_of_slot by (simp add: in_range_def sane_config_def)

lemma snapshot_cursor:
  assumes "snapshot_ok E dense reg s" "sane_config (ev_config E)"
  shows "es_slot (sn_epoch_state s) div slots_per_epoch (ev_config E) = ss_cursor_epoch (sn_state s)"
  using assms in_range_epoch by (simp add: snapshot_ok_def Let_def)

text \<open>What one step's witness, tree and epoch are, of a snapshot and a next registry.\<close>

definition step_of :: "environment \<Rightarrow> nat \<Rightarrow> (u64 \<Rightarrow> validator_response list) \<Rightarrow> snapshot \<Rightarrow> epoch_build \<Rightarrow> bool" where
  "step_of E dense reg s b \<longleftrightarrow>
     (let Z = ev_zisk E; config = ev_config E; st = sn_state s;
          next = ss_cursor_epoch st + 1; slot = next * slots_per_epoch config in
      es_slot (eb_state b) = slot \<and>
      in_step Z (ev_blst E) config (eb_tree b) (eb_state b) (reg slot) \<and>
      dense_depth (eb_tree b) = dense \<and>
      eb_total b = total_active_balance_of (reg slot) next \<and>
      eb_num_validators b = of_nat (length (reg slot)) \<and>
      (\<exists>r1 r2. verify_epoch_diff_with_depth Z (eb_witness b) (validators_tree_depth config) (acc_tree_depth config) =
        Inr \<lparr>ed_prev_accumulator_commitment = ss_acc_commitment st,
             ed_state_root_1 = r1, ed_epoch_1 = ss_cursor_epoch st,
             ed_accumulator_commitment = commitment Z (acc_tree_root Z (eb_tree b)) (eb_total b),
             ed_acc_root = acc_tree_root Z (eb_tree b),
             ed_total_active_balance = eb_total b,
             ed_state_root_2 = r2, ed_epoch_2 = next\<rparr>))"

lemma build_held_Inr:
  assumes "build_held Z blst node config t es v1 v2 slot_2 total_1 = Inr b"
    and "in_step Z blst config t es v1" "next_registry Z blst config (dense_depth t) v1 v2"
  obtains r1 s1 r2 s2 where
    "find_mutations v1 v2 (es_slot es div slots_per_epoch config) (slot_2 div slots_per_epoch config) \<noteq> []"
    "old_state_proof Z node config es (registry_data_root Z (validators_tree_depth config) v1) = Inr (r1, s1)"
    "new_state_proof Z node config (es_slot es) r1 slot_2
      (registry_data_root Z (validators_tree_depth config) v2) (of_nat (length v2)) = Inr (r2, s2)"
proof -
  let ?d = "validators_tree_depth config"
  let ?ks = "find_mutations v1 v2 (es_slot es div slots_per_epoch config) (slot_2 div slots_per_epoch config)"
  have ne: "?ks \<noteq> []" using assms(1) by (auto simp: build_held_def ensure_def Let_def split: if_splits)
  have ep: "epoch_ok Z ?d es v1" using assms(2) by (simp add: in_step_def)
  have nxt: "extends v1 v2" "length v2 < 2 ^ 64" "length v2 \<le> 2 ^ ssz_dense_depth (length v1) ?d"
    using assms(3) by (simp_all add: next_registry_def)
  obtain views where views: "build_ssz_views Z ?d es v1 v2 ?ks = Inr views"
    "sv_old_data_root views = registry_data_root Z ?d v1" "sv_new_data_root views = registry_data_root Z ?d v2"
    using build_ssz_views_ok [OF ep nxt refl ne] by (metis ssz_views.select_convs(1,3))
  obtain p1 where p1: "old_state_proof Z node config es (registry_data_root Z ?d v1) = Inr p1"
    using assms(1) ne views by (cases "old_state_proof Z node config es (registry_data_root Z ?d v1)")
      (auto simp: build_held_def Let_def)
  obtain r1 s1 where r1: "p1 = (r1, s1)" by fastforce
  obtain p2 where p2: "new_state_proof Z node config (es_slot es) r1 slot_2 (registry_data_root Z ?d v2)
      (of_nat (length v2)) = Inr p2"
    using assms(1) ne views p1 r1
    by (cases "new_state_proof Z node config (es_slot es) r1 slot_2 (registry_data_root Z ?d v2)
      (of_nat (length v2))") (auto simp: build_held_def Let_def)
  obtain r2 s2 where r2: "p2 = (r2, s2)" by fastforce
  show thesis by (rule that) (use ne p1 r1 p2 r2 in simp_all)
qed

text \<open>What the builder is given, out of the snapshot's invariant.\<close>

lemma diff_context:
  assumes ok: "snapshot_ok E dense reg s" and grows: "grows E dense reg" and chain: "same_chain E env"
    and range: "in_range (ev_config E) (ss_cursor_epoch (sn_state s) + 1)" "ss_cursor_epoch (sn_state s) + 1 \<noteq> 0"
    and held: "bi_validators h1 = reg (es_slot (sn_epoch_state s))"
      "bi_validators h2 = reg ((ss_cursor_epoch (sn_state s) + 1) * slots_per_epoch (ev_config E))"
  defines "Z \<equiv> ev_zisk E" and "config \<equiv> ev_config E" and "next \<equiv> ss_cursor_epoch (sn_state s) + 1"
    and "v1 \<equiv> reg (es_slot (sn_epoch_state s))"
    and "v2 \<equiv> reg ((ss_cursor_epoch (sn_state s) + 1) * slots_per_epoch (ev_config E))"
  shows "build_diff env s next (h1, h2) =
      bind_res (map_err BuildDiff (build_held Z (ev_blst E) (ev_node env) config (sn_tree s) (sn_epoch_state s)
        v1 v2 (next * slots_per_epoch config) (ss_total_active_balance (sn_state s)))) (\<lambda>b.
      ensure (epoch_1 (eb_witness b) = ss_cursor_epoch (sn_state s) \<and> epoch_2 (eb_witness b) = next)
        (DiffSpans (epoch_1 (eb_witness b)) (epoch_2 (eb_witness b))) (Inr b))"
    and "in_step Z (ev_blst E) config (sn_tree s) (sn_epoch_state s) v1"
    and "next_registry Z (ev_blst E) config (dense_depth (sn_tree s)) v1 v2"
    and "es_slot (sn_epoch_state s) div slots_per_epoch config = ss_cursor_epoch (sn_state s)"
    and "next * slots_per_epoch config div slots_per_epoch config = next"
    and "ss_total_active_balance (sn_state s) =
      total_active_balance_of v1 (es_slot (sn_epoch_state s) div slots_per_epoch config)"
    and "dense_depth (sn_tree s) = dense"
    and "ss_acc_commitment (sn_state s) =
      commitment Z (acc_tree_root Z (sn_tree s)) (ss_total_active_balance (sn_state s))"
proof -
  have env: "ev_zisk env = Z" "ev_blst env = ev_blst E" "ev_config env = config"
    using chain by (simp_all add: same_chain_def Z_def config_def)
  have sane: "sane_config config" using grows by (simp add: grows_def Let_def config_def)
  show cur: "es_slot (sn_epoch_state s) div slots_per_epoch config = ss_cursor_epoch (sn_state s)"
    using snapshot_cursor [OF ok] sane by (simp add: config_def)
  show "next * slots_per_epoch config div slots_per_epoch config = next"
    using in_range_epoch range(1) sane by (simp add: next_def config_def)
  have s: "es_slot (sn_epoch_state s) = ss_cursor_epoch (sn_state s) * slots_per_epoch config"
    using ok by (simp add: snapshot_ok_def Let_def config_def)
  show "in_step Z (ev_blst E) config (sn_tree s) (sn_epoch_state s) v1"
    and dense: "dense_depth (sn_tree s) = dense"
    and "ss_acc_commitment (sn_state s) =
      commitment Z (acc_tree_root Z (sn_tree s)) (ss_total_active_balance (sn_state s))"
    using ok by (simp_all add: snapshot_ok_def snapshot_bound_def Let_def Z_def config_def v1_def)
  show "ss_total_active_balance (sn_state s) =
      total_active_balance_of v1 (es_slot (sn_epoch_state s) div slots_per_epoch config)"
    using ok cur by (simp add: snapshot_ok_def Let_def v1_def config_def)
  show "next_registry Z (ev_blst E) config (dense_depth (sn_tree s)) v1 v2"
    using grows range by (simp add: grows_def Let_def s dense Z_def config_def v1_def v2_def)
  show "build_diff env s next (h1, h2) =
      bind_res (map_err BuildDiff (build_held Z (ev_blst E) (ev_node env) config (sn_tree s) (sn_epoch_state s)
        v1 v2 (next * slots_per_epoch config) (ss_total_active_balance (sn_state s)))) (\<lambda>b.
      ensure (epoch_1 (eb_witness b) = ss_cursor_epoch (sn_state s) \<and> epoch_2 (eb_witness b) = next)
        (DiffSpans (epoch_1 (eb_witness b)) (epoch_2 (eb_witness b))) (Inr b))"
    by (simp add: build_diff_def env held v1_def v2_def config_def next_def)
qed

lemma build_diff_step:
  assumes ok: "snapshot_ok E dense reg s" and grows: "grows E dense reg" and chain: "same_chain E env"
    and range: "in_range (ev_config E) (ss_cursor_epoch (sn_state s) + 1)" "ss_cursor_epoch (sn_state s) + 1 \<noteq> 0"
    and held: "bi_validators h1 = reg (es_slot (sn_epoch_state s))"
      "bi_validators h2 = reg ((ss_cursor_epoch (sn_state s) + 1) * slots_per_epoch (ev_config E))"
    and built: "build_diff env s (ss_cursor_epoch (sn_state s) + 1) (h1, h2) = Inr b"
  shows "step_of E dense reg s b"
proof -
  note ctx = diff_context [OF ok grows chain range held]
  let ?config = "ev_config E"
  let ?slot = "(ss_cursor_epoch (sn_state s) + 1) * slots_per_epoch ?config"
  have held': "build_held (ev_zisk E) (ev_blst E) (ev_node env) ?config (sn_tree s) (sn_epoch_state s)
      (reg (es_slot (sn_epoch_state s))) (reg ?slot) ?slot (ss_total_active_balance (sn_state s)) = Inr b"
    using built unfolding ctx(1) by auto
  obtain r1 s1 r2 s2 where opened:
    "find_mutations (reg (es_slot (sn_epoch_state s))) (reg ?slot)
       (es_slot (sn_epoch_state s) div slots_per_epoch ?config) (?slot div slots_per_epoch ?config) \<noteq> []"
    "old_state_proof (ev_zisk E) (ev_node env) ?config (sn_epoch_state s)
       (registry_data_root (ev_zisk E) (validators_tree_depth ?config) (reg (es_slot (sn_epoch_state s)))) = Inr (r1, s1)"
    "new_state_proof (ev_zisk E) (ev_node env) ?config (es_slot (sn_epoch_state s)) r1 ?slot
      (registry_data_root (ev_zisk E) (validators_tree_depth ?config) (reg ?slot)) (of_nat (length (reg ?slot))) = Inr (r2, s2)"
    by (rule build_held_Inr [OF held' ctx(2,3)])
  show ?thesis
  proof (rule build_held_run [OF ctx(2,3,6) opened])
    fix b' assume b': "build_held (ev_zisk E) (ev_blst E) (ev_node env) ?config (sn_tree s) (sn_epoch_state s)
        (reg (es_slot (sn_epoch_state s))) (reg ?slot) ?slot (ss_total_active_balance (sn_state s)) = Inr b'"
      "in_step (ev_zisk E) (ev_blst E) ?config (eb_tree b') (eb_state b') (reg ?slot)" "es_slot (eb_state b') = ?slot"
      "dense_depth (eb_tree b') = dense_depth (sn_tree s)"
      "eb_total b' = total_active_balance_of (reg ?slot) (?slot div slots_per_epoch ?config)"
      "eb_num_validators b' = of_nat (length (reg ?slot))"
      "verify_epoch_diff_with_depth (ev_zisk E) (eb_witness b') (validators_tree_depth ?config) (acc_tree_depth ?config) =
        Inr \<lparr>ed_prev_accumulator_commitment =
               commitment (ev_zisk E) (acc_tree_root (ev_zisk E) (sn_tree s)) (ss_total_active_balance (sn_state s)),
             ed_state_root_1 = r1, ed_epoch_1 = es_slot (sn_epoch_state s) div slots_per_epoch ?config,
             ed_accumulator_commitment = commitment (ev_zisk E) (acc_tree_root (ev_zisk E) (eb_tree b')) (eb_total b'),
             ed_acc_root = acc_tree_root (ev_zisk E) (eb_tree b'),
             ed_total_active_balance = eb_total b',
             ed_state_root_2 = r2, ed_epoch_2 = ?slot div slots_per_epoch ?config\<rparr>"
    have "b' = b" using held' b'(1) by simp
    then show ?thesis
      using b'(2-7) by (simp add: step_of_def Let_def ctx(4,5,7,8))
  qed
qed

text \<open>And it fails only where the node does, or with nothing to prove.\<close>

lemma build_diff_fails:
  assumes ok: "snapshot_ok E dense reg s" and grows: "grows E dense reg" and chain: "same_chain E env"
    and range: "in_range (ev_config E) (ss_cursor_epoch (sn_state s) + 1)" "ss_cursor_epoch (sn_state s) + 1 \<noteq> 0"
    and held: "bi_validators h1 = reg (es_slot (sn_epoch_state s))"
      "bi_validators h2 = reg ((ss_cursor_epoch (sn_state s) + 1) * slots_per_epoch (ev_config E))"
    and failed: "build_diff env s (ss_cursor_epoch (sn_state s) + 1) (h1, h2) = Inl e"
  shows "\<exists>x. e = BuildDiff x \<and> (x = NoMutations \<or> node_failure x)"
proof -
  note ctx = diff_context [OF ok grows chain range held]
  let ?config = "ev_config E"
  let ?slot = "(ss_cursor_epoch (sn_state s) + 1) * slots_per_epoch ?config"
  let ?m = "build_held (ev_zisk E) (ev_blst E) (ev_node env) ?config (sn_tree s) (sn_epoch_state s)
      (reg (es_slot (sn_epoch_state s))) (reg ?slot) ?slot (ss_total_active_balance (sn_state s))"
  show ?thesis
  proof (cases ?m)
    case (Inl x)
    then show ?thesis using failed build_held_fails [OF ctx(2,3,6) Inl] unfolding ctx(1) by auto
  next
    case (Inr b)
    have "epoch_1 (eb_witness b) = ss_cursor_epoch (sn_state s) \<and>
        epoch_2 (eb_witness b) = ss_cursor_epoch (sn_state s) + 1"
      using Inr by (auto simp: build_held_def Let_def ctx(4,5))
    then show ?thesis using failed Inr unfolding ctx(1) by simp
  qed
qed

section \<open>The engine's invariant\<close>

text \<open>The root of the registry at an epoch's first slot.\<close>

definition root_at :: "environment \<Rightarrow> (u64 \<Rightarrow> validator_response list) \<Rightarrow> u64 \<Rightarrow> digest" where
  "root_at E reg epoch =
     registry_root (ev_zisk E)
       (host_registry (ev_blst E) (reg (epoch * slots_per_epoch (ev_config E))) epoch) (acc_tree_depth (ev_config E))"

definition roots_from :: "environment \<Rightarrow> (u64 \<Rightarrow> validator_response list) \<Rightarrow> u64 \<Rightarrow> nat \<Rightarrow> digest list" where
  "roots_from E reg first n = map (\<lambda>k. root_at E reg (first + of_nat k)) [0..<n]"

text \<open>A diff proved ahead is the one of the step from the cursor, when it is for the next epoch.\<close>

definition diff_ok :: "environment \<Rightarrow> nat \<Rightarrow> (u64 \<Rightarrow> validator_response list) \<Rightarrow> u64 \<Rightarrow> ahead_diff \<Rightarrow> bool" where
  "diff_ok E dense reg epoch d \<longleftrightarrow>
     (let config = ev_config E; slot = epoch * slots_per_epoch config in
      es_slot (ad_epoch_state d) = slot \<and>
      in_step (ev_zisk E) (ev_blst E) config (ad_tree d) (ad_epoch_state d) (reg slot) \<and>
      dense_depth (ad_tree d) = dense \<and>
      ed_acc_root (ad_output d) = acc_tree_root (ev_zisk E) (ad_tree d) \<and>
      ed_total_active_balance (ad_output d) = total_active_balance_of (reg slot) epoch \<and>
      ad_num_validators d = of_nat (length (reg slot)))"

definition ahead_ok ::
  "environment \<Rightarrow> nat \<Rightarrow> (u64 \<Rightarrow> validator_response list) \<Rightarrow> u64 \<Rightarrow> speculation \<Rightarrow> bool" where
  "ahead_ok E dense reg cursor sp \<longleftrightarrow>
     (\<forall>e c d com. sp_running sp = Some (e, c, Inr (d, com)) \<and> e = cursor + 1 \<and> in_range (ev_config E) e \<longrightarrow>
        diff_ok E dense reg e d)"

definition engine_ok :: "environment \<Rightarrow> nat \<Rightarrow> (u64 \<Rightarrow> validator_response list) \<Rightarrow> engine \<Rightarrow> bool" where
  "engine_ok E dense reg en \<longleftrightarrow>
     snapshot_ok E dense reg (en_snapshot en) \<and>
     boundaries_ok (ev_sha256 E) reg (en_boundaries en) \<and>
     ahead_ok E dense reg (ss_cursor_epoch (en_state en)) (en_ahead en) \<and>
     (\<exists>n. follows (ev_zisk E) (en_state en) (roots_from E reg (ss_init_epoch (en_state en)) n))"

text \<open>The fields a justification does not touch.\<close>

definition same_accumulator :: "store_state \<Rightarrow> store_state \<Rightarrow> bool" where
  "same_accumulator st st' \<longleftrightarrow>
     ss_init_epoch st' = ss_init_epoch st \<and> ss_cursor_epoch st' = ss_cursor_epoch st \<and>
     ss_acc_root st' = ss_acc_root st \<and> ss_acc_commitment st' = ss_acc_commitment st \<and>
     ss_acc_chain_digest st' = ss_acc_chain_digest st \<and>
     ss_total_active_balance st' = ss_total_active_balance st \<and> ss_num_validators st' = ss_num_validators st"

inductive engine_step ::
  "environment \<Rightarrow> (u64 \<Rightarrow> validator_response list) \<Rightarrow> engine \<Rightarrow> engine \<Rightarrow> bool"
  for E :: environment and reg :: "u64 \<Rightarrow> validator_response list" where
  Advanced: "same_chain E env \<Longrightarrow> serves env reg \<Longrightarrow> advance_tick env head_slot en = Inr (en', moved) \<Longrightarrow>
    engine_step E reg en en'"
| Speculated: "same_chain E env \<Longrightarrow> serves env reg \<Longrightarrow> engine_step E reg en (speculate env head_slot epoch en)"
| Held: "same_chain E env \<Longrightarrow> serves env reg \<Longrightarrow> engine_step E reg en (hold_boundaries env head_slot epoch en)"
| Opened: "same_chain E env \<Longrightarrow> serves env reg \<Longrightarrow> open_committees env en epoch = Inr (com, en') \<Longrightarrow>
    engine_step E reg en en'"
| Closed: "same_chain E env \<Longrightarrow> close_epoch env en epoch r = Inr en' \<Longrightarrow> engine_step E reg en en'"
| Streamed: "engine_step E reg en (finish_stream en epoch output pf)"
| Gave_up: "engine_step E reg en (give_up en epoch)"

lemma tree_holds_root:
  assumes "tree_holds Z blst t vs e"
  shows "acc_tree_root Z t = registry_root Z (host_registry blst vs e) (tree_depth t)"
proof -
  have ok: "acc_tree_ok Z t" "length vs \<le> 2 ^ dense_depth t" using assms by (simp_all add: tree_holds_def)
  have "stored_leaf t = registry_leaf Z (host_registry blst vs e)"
  proof
    fix i
    show "stored_leaf t i = registry_leaf Z (host_registry blst vs e) i"
    proof (cases "i < 2 ^ dense_depth t")
      case False
      then show ?thesis using stored_leaf_zero ok(2) host_registry_beyond [of vs i] by simp
    qed (use assms in \<open>simp add: tree_holds_def\<close>)
  qed
  then show ?thesis using acc_tree_root_eq [OF ok(1)] by (simp add: registry_root_def)
qed

lemma roots_from_Suc:
  "roots_from E reg first (Suc n) = roots_from E reg first n @ [root_at E reg (first + of_nat n)]"
  by (simp add: roots_from_def)

lemma length_roots_from [simp]: "length (roots_from E reg first n) = n"
  by (simp add: roots_from_def)

text \<open>Adopting the next epoch's tree.\<close>

lemma moved_snapshot:
  assumes ok: "snapshot_ok E dense reg s" "in_range config next" "config = ev_config E"
    and fol: "follows (ev_zisk E) (sn_state s) (roots_from E reg (ss_init_epoch (sn_state s)) n)"
    and adv: "store_advance (ev_zisk E) (sn_state s) next root comm tab nv diff = Inr st'"
    and tree: "in_step (ev_zisk E) (ev_blst E) config t es (reg slot)" "es_slot es = slot"
      "slot = next * slots_per_epoch config" "dense_depth t = dense"
    and out: "root = acc_tree_root (ev_zisk E) t" "tab = total_active_balance_of (reg slot) next"
      "nv = of_nat (length (reg slot))"
    and sane: "sane_config config"
  shows "snapshot_ok E dense reg \<lparr>sn_state = st', sn_tree = t, sn_epoch_state = es\<rparr>"
    and "follows (ev_zisk E) st' (roots_from E reg (ss_init_epoch st') (Suc n))"
proof -
  let ?Z = "ev_zisk E"
  have st': "next = ss_cursor_epoch (sn_state s) + 1" "comm = commitment ?Z root tab"
    "st' = (sn_state s)\<lparr>ss_cursor_epoch := next, ss_acc_root := root, ss_acc_commitment := comm,
            ss_acc_chain_digest := chain_step ?Z (ss_acc_chain_digest (sn_state s)) next root,
            ss_total_active_balance := tab, ss_num_validators := nv, ss_last_epoch_diff := diff\<rparr>"
    using adv by (simp_all add: store_advance_Inr)
  have epoch: "slot div slots_per_epoch config = next" using in_range_epoch [OF ok(2) sane] tree(3) by simp
  have holds: "tree_holds ?Z (ev_blst E) t (reg slot) next" "tree_depth t = acc_tree_depth config"
    using tree(1,2) epoch by (simp_all add: in_step_def)
  show "snapshot_ok E dense reg \<lparr>sn_state = st', sn_tree = t, sn_epoch_state = es\<rparr>"
    using tree(1,2,4) ok(2) holds out
    by (simp add: snapshot_ok_def Let_def st'(2,3) snapshot_bound_def tree_holds_def
        ok(3) [symmetric] tree(3) [symmetric])
  have "root = root_at E reg next"
    using tree_holds_root [OF holds(1)] by (simp add: root_at_def out(1) holds(2) ok(3) tree(3))
  moreover have "next = ss_init_epoch (sn_state s) + of_nat n"
    using fol st'(1) by (simp add: follows_def)
  ultimately show "follows ?Z st' (roots_from E reg (ss_init_epoch st') (Suc n))"
    using store_advance_follows [OF adv fol] by (simp add: st'(3) roots_from_Suc)
qed

lemma task_Inr:
  assumes "speculation_task env epoch b boundary = Inr (d, com)"
  shows "ad_witness d = eb_witness b" "ad_tree d = eb_tree b" "ad_epoch_state d = eb_state b"
    and "ad_num_validators d = eb_num_validators b"
    and "prove_epoch_diff (ev_prover env) (eb_witness b) = Inr (ad_output d, ad_proof d)"
    and "ed_acc_root (ad_output d) = acc_tree_root (ev_zisk env) (eb_tree b)"
    and "ed_total_active_balance (ad_output d) = eb_total b"
  using assms by (auto simp: speculation_task_def Let_def)

lemma next_epoch:
  assumes "in_range config c" "1 < slots_per_epoch config"
  shows "unat (c + 1) = unat c + 1" "c + 1 \<noteq> 0"
proof -
  have "unat c * 2 \<le> unat c * unat (slots_per_epoch config)"
    using assms(2) by (intro mult_le_mono2) (simp add: word_less_nat_alt)
  also have "\<dots> < 2 ^ 64" using assms(1) by (simp add: in_range_def)
  finally have "unat c + 1 < 2 ^ 64" by simp
  then show "unat (c + 1) = unat c + 1" by (simp add: unat_word_ariths)
  then show "c + 1 \<noteq> 0" by (metis Suc_eq_plus1 nat.distinct(1) unat_0)
qed

lemma growsD:
  assumes "grows E dense reg"
  shows "sane_config (ev_config E)" "1 < slots_per_epoch (ev_config E)"
  using assms by (simp_all add: grows_def Let_def)

lemma engine_okD:
  assumes "engine_ok E dense reg en"
  shows "snapshot_ok E dense reg (en_snapshot en)" "boundaries_ok (ev_sha256 E) reg (en_boundaries en)"
    and "ahead_ok E dense reg (ss_cursor_epoch (en_state en)) (en_ahead en)"
    and "in_range (ev_config E) (ss_cursor_epoch (en_state en))"
  using assms by (simp_all add: engine_ok_def snapshot_ok_def Let_def)

text \<open>The witness built for the next epoch is the step from the cursor.\<close>

lemma open_build_step:
  assumes ok: "engine_ok E dense reg en" and grows: "grows E dense reg"
    and env: "same_chain E env" "serves env reg"
    and opened: "open_diff env en (ss_cursor_epoch (en_state en) + 1) = (Inr h, C)"
    and range: "in_range (ev_config E) (ss_cursor_epoch (en_state en) + 1)"
    and built: "build_diff env (en_snapshot en) (ss_cursor_epoch (en_state en) + 1) h = Inr b"
  shows "step_of E dense reg (en_snapshot en) b"
proof -
  obtain h1 h2 where h: "h = (h1, h2)" by fastforce
  have C: "boundaries_ok (ev_sha256 env) reg (en_boundaries en)" "ev_config env = ev_config E"
    using engine_okD(2) [OF ok] env(1) by (simp_all add: same_chain_def)
  have "bi_validators h1 = reg (es_slot (sn_epoch_state (en_snapshot en))) \<and>
      bi_validators h2 = reg ((ss_cursor_epoch (en_state en) + 1) * slots_per_epoch (ev_config E))"
    using open_pair_right(2) [OF env(2) C(1) opened [unfolded open_diff_def], of h1 h2]
    by (simp add: h C(2))
  then show ?thesis
    using build_diff_step [OF engine_okD(1) [OF ok] grows env(1) range next_epoch(2) _ _ built [unfolded h]]
      engine_okD(4) [OF ok] growsD(2) [OF grows] by blast
qed

lemma open_diff_right:
  assumes "engine_ok E dense reg en" "same_chain E env" "serves env reg" "open_diff env en epoch = (held, C)"
  shows "boundaries_ok (ev_sha256 E) reg C"
  using open_pair_right(1) [OF assms(3), of "en_boundaries en"] assms engine_okD(2) [OF assms(1)]
  by (simp add: open_diff_def same_chain_def)

lemma step_diff_ok:
  assumes "step_of E dense reg s b" "speculation_task env (ss_cursor_epoch (sn_state s) + 1) b boundary = Inr (d, com)"
    and "same_chain E env"
  shows "diff_ok E dense reg (ss_cursor_epoch (sn_state s) + 1) d"
  using assms(1,3) task_Inr [OF assms(2)] by (simp add: diff_ok_def step_of_def Let_def same_chain_def)

lemma engine_boundaries:
  assumes "engine_ok E dense reg en" "boundaries_ok (ev_sha256 E) reg C"
  shows "engine_ok E dense reg (en\<lparr>en_boundaries := C\<rparr>)"
  using assms by (simp add: engine_ok_def)

lemma speculate_ok:
  assumes ok: "engine_ok E dense reg en" and grows: "grows E dense reg"
    and env: "same_chain E env" "serves env reg"
  shows "engine_ok E dense reg (speculate env head_slot epoch en)"
proof -
  let ?c = "ss_cursor_epoch (en_state en)"
  obtain held C where opened: "open_diff env en epoch = (held, C)" by fastforce
  define m where "m = bind_res held (\<lambda>h. bind_res (build_diff env (en_snapshot en) epoch h) (\<lambda>b. Inr (b, snd h)))"
  note C = open_diff_right [OF ok env opened]
  have started: "engine_ok E dense reg (en\<lparr>en_boundaries := C, en_ahead :=
      speculation_start (en_ahead en) epoch (ss_acc_commitment (en_state en)) (speculation_task env epoch b h2)\<rparr>)"
    if m: "m = Inr (b, h2)" for b h2
  proof -
    obtain h where h: "held = Inr h" "build_diff env (en_snapshot en) epoch h = Inr b" "h2 = snd h"
      using m by (auto simp: m_def)
    have "diff_ok E dense reg epoch d"
      if "speculation_task env epoch b h2 = Inr (d, com)" "epoch = ?c + 1" "in_range (ev_config E) epoch" for d com
    proof -
      have "step_of E dense reg (en_snapshot en) b"
        using open_build_step [OF ok grows env] opened h that(2,3) by blast
      then show ?thesis using step_diff_ok env(1) that(1,2) by simp
    qed
    then have "ahead_ok E dense reg ?c
        (speculation_start (en_ahead en) epoch (ss_acc_commitment (en_state en)) (speculation_task env epoch b h2))"
      by (auto simp: ahead_ok_def speculation_start_def speculation_forget_def)
    then show ?thesis using ok C by (simp add: engine_ok_def)
  qed
  have "start_speculation env head_slot epoch en =
      (if head_slot < epoch * slots_per_epoch (ev_config env) then en
       else case m of Inl _ \<Rightarrow> en\<lparr>en_boundaries := C\<rparr>
         | Inr (b, h2) \<Rightarrow> en\<lparr>en_boundaries := C, en_ahead :=
             speculation_start (en_ahead en) epoch (ss_acc_commitment (en_state en)) (speculation_task env epoch b h2)\<rparr>)"
    by (simp add: start_speculation_def opened m_def Let_def)
  then show ?thesis
    using ok started engine_boundaries [OF ok C]
    by (cases m) (auto simp: speculate_def)
qed

lemma hold_ok:
  assumes ok: "engine_ok E dense reg en" and env: "same_chain E env" "serves env reg"
  shows "engine_ok E dense reg (hold_boundaries env head_slot epoch en)"
  unfolding hold_boundaries_def
  by (rule engine_boundaries [OF ok])
    (use hold_right [OF env(2)] engine_okD(2) [OF ok] env(1) in \<open>simp add: same_chain_def\<close>)

lemma ahead_ok_committee: "ahead_ok E dense reg c (s\<lparr>sp_committee := x\<rparr>) = ahead_ok E dense reg c s"
  by (simp add: ahead_ok_def)

lemma take_committee_running:
  "take_committee s epoch comm = (r, s') \<Longrightarrow> sp_running s' = sp_running s"
  by (auto simp: take_committee_def split: option.splits if_splits)

lemma open_committees_ok:
  assumes ok: "engine_ok E dense reg en" and env: "same_chain E env" "serves env reg"
    and opened: "open_committees env en epoch = Inr (com, en')"
  shows "engine_ok E dense reg en'"
proof -
  obtain boundary C where b: "open_boundary_at env (en_boundaries en) (epoch * slots_per_epoch (ev_config env)) =
      Inr (boundary, C)"
    using opened by (auto simp: open_committees_def)
  obtain ready sp where t: "take_committee (en_ahead en) epoch (ss_acc_commitment (en_state en)) = (ready, sp)"
    by fastforce
  have en': "en' = en\<lparr>en_boundaries := C, en_ahead := sp\<rparr>"
    using opened b t by (auto simp: open_committees_def Let_def split: option.splits)
  have "boundaries_ok (ev_sha256 E) reg C"
    using open_boundary_right(1) [OF env(2) _ b] engine_okD(2) [OF ok] env(1) by (simp add: same_chain_def)
  moreover have "ahead_ok E dense reg (ss_cursor_epoch (en_state en)) sp"
    using engine_okD(3) [OF ok] take_committee_running [OF t] by (simp add: ahead_ok_def)
  ultimately show ?thesis using ok by (simp add: engine_ok_def en')
qed

lemma take_diff_Some:
  assumes "take_diff s epoch comm = (r, s')"
  shows "sp_running s' = None"
    and "r = Some d \<Longrightarrow> \<exists>com. sp_running s = Some (epoch, comm, Inr (d, com))"
  using assms by (auto simp: take_diff_def Let_def split: option.splits if_splits sum.splits)

lemma slot_in_range:
  assumes "epoch \<le> head_slot div slots_per_epoch config"
  shows "in_range config epoch"
proof -
  have "unat epoch * unat (slots_per_epoch config) \<le>
      unat head_slot div unat (slots_per_epoch config) * unat (slots_per_epoch config)"
    using assms by (intro mult_le_mono1) (simp add: word_le_nat_alt unat_div)
  also have "\<dots> \<le> unat head_slot" by simp
  also have "\<dots> < 2 ^ 64" using unsigned_less [of head_slot] by simp
  finally show ?thesis by (simp add: in_range_def)
qed

lemma adopt_ok:
  assumes ok: "engine_ok E dense reg en" and grows: "grows E dense reg" and chain: "same_chain E env"
    and d: "diff_ok E dense reg epoch d" and range: "in_range (ev_config E) epoch"
    and adopted: "adopt_diff env (en\<lparr>en_ahead := sp\<rparr>) epoch d = Inr en'" and sp: "sp_running sp = None"
  shows "engine_ok E dense reg en'"
proof -
  have env: "ev_zisk env = ev_zisk E" "ev_config env = ev_config E"
    using chain by (simp_all add: same_chain_def)
  obtain st' where adv: "store_advance (ev_zisk E) (en_state en) epoch (ed_acc_root (ad_output d))
      (ed_accumulator_commitment (ad_output d)) (ed_total_active_balance (ad_output d)) (ad_num_validators d)
      (Some \<lparr>er_output = ad_output d, er_proof = ad_proof d\<rparr>) = Inr st'"
    and en': "en' = en\<lparr>en_ahead := sp,
        en_snapshot := \<lparr>sn_state = st', sn_tree = ad_tree d, sn_epoch_state = ad_epoch_state d\<rparr>,
        en_boundaries := cache_forget_before (en_boundaries en) (epoch * slots_per_epoch (ev_config E))\<rparr>"
    using adopted by (auto simp: adopt_diff_def env Let_def)
  obtain n where n: "follows (ev_zisk E) (en_state en) (roots_from E reg (ss_init_epoch (en_state en)) n)"
    using ok by (auto simp: engine_ok_def)
  note moved = moved_snapshot [OF engine_okD(1) [OF ok] range refl n adv _ _ refl _ _ _ _ growsD(1) [OF grows]]
  have "snapshot_ok E dense reg (en_snapshot en')"
    "follows (ev_zisk E) st' (roots_from E reg (ss_init_epoch st') (Suc n))"
    using moved [of "ad_tree d" "ad_epoch_state d"] d by (simp_all add: diff_ok_def Let_def en')
  then show ?thesis
    using forget_right engine_okD(2) [OF ok] sp by (auto simp: engine_ok_def en' ahead_ok_def)
qed

lemma inline_ok:
  assumes ok: "engine_ok E dense reg en" and grows: "grows E dense reg"
    and env: "same_chain E env" "serves env reg"
    and range: "in_range (ev_config E) (ss_cursor_epoch (en_state en) + 1)"
    and inline: "advance_inline env (en\<lparr>en_ahead := sp\<rparr>) (ss_cursor_epoch (en_state en) + 1) = Inr en'"
    and sp: "sp_running sp = None"
  shows "engine_ok E dense reg en'"
proof -
  let ?c = "ss_cursor_epoch (en_state en)"
  have envs: "ev_zisk env = ev_zisk E" "ev_config env = ev_config E"
    using env(1) by (simp_all add: same_chain_def)
  have same: "open_diff env (en\<lparr>en_ahead := sp\<rparr>) (?c + 1) = open_diff env en (?c + 1)"
    by (simp add: open_diff_def)
  obtain h C b out pf st' where opened: "open_diff env en (?c + 1) = (Inr h, C)"
    and b: "build_diff env (en_snapshot en) (?c + 1) h = Inr b"
    and agrees: "ed_acc_root out = acc_tree_root (ev_zisk E) (eb_tree b)" "ed_total_active_balance out = eb_total b"
    and adv: "store_advance (ev_zisk E) (en_state en) (?c + 1) (ed_acc_root out) (ed_accumulator_commitment out)
      (ed_total_active_balance out) (eb_num_validators b) (Some \<lparr>er_output = out, er_proof = pf\<rparr>) = Inr st'"
    and en': "en' = en\<lparr>en_ahead := sp,
      en_snapshot := \<lparr>sn_state = st', sn_tree = eb_tree b, sn_epoch_state = eb_state b\<rparr>,
      en_boundaries := cache_forget_before C ((?c + 1) * slots_per_epoch (ev_config E))\<rparr>"
    using inline
    by (auto simp: advance_inline_def Let_def envs same split: prod.splits)
  have step: "step_of E dense reg (en_snapshot en) b"
    by (rule open_build_step [OF ok grows env opened range b])
  obtain n where n: "follows (ev_zisk E) (en_state en) (roots_from E reg (ss_init_epoch (en_state en)) n)"
    using ok by (auto simp: engine_ok_def)
  note moved = moved_snapshot [OF engine_okD(1) [OF ok] range refl n adv _ _ refl _ _ _ _ growsD(1) [OF grows]]
  have "snapshot_ok E dense reg (en_snapshot en')"
    "follows (ev_zisk E) st' (roots_from E reg (ss_init_epoch st') (Suc n))"
    using moved [of "eb_tree b" "eb_state b"] step agrees by (simp_all add: step_of_def Let_def en')
  moreover have "boundaries_ok (ev_sha256 E) reg (en_boundaries en')"
    using forget_right [OF open_diff_right [OF ok env opened]] by (simp add: en')
  ultimately show ?thesis using sp by (auto simp: engine_ok_def en' ahead_ok_def)
qed

lemma advance_ok:
  assumes ok: "engine_ok E dense reg en" and grows: "grows E dense reg"
    and env: "same_chain E env" "serves env reg"
    and tick: "advance_tick env head_slot en = Inr (en', moved)"
  shows "engine_ok E dense reg en'"
proof (cases "ss_cursor_epoch (en_state en) + 1 \<le> head_slot div slots_per_epoch (ev_config env)")
  case True
  let ?next = "ss_cursor_epoch (en_state en) + 1"
  have range: "in_range (ev_config E) ?next"
    using slot_in_range [OF True] env(1) by (simp add: same_chain_def)
  obtain ahead sp where t: "take_diff (en_ahead en) ?next (ss_acc_commitment (en_state en)) = (ahead, sp)" by fastforce
  have adv: "advance_accumulator env en ?next = Inr en'"
    using tick True by (auto simp: advance_tick_def Let_def)
  show ?thesis
  proof (cases ahead)
    case None
    then have "advance_inline env (en\<lparr>en_ahead := sp\<rparr>) ?next = Inr en'"
      using adv by (simp add: advance_accumulator_def t)
    then show ?thesis by (rule inline_ok [OF ok grows env range _ take_diff_Some(1) [OF t]])
  next
    case (Some d)
    then obtain com where "sp_running (en_ahead en) = Some (?next, ss_acc_commitment (en_state en), Inr (d, com))"
      using take_diff_Some(2) [OF t] by blast
    then have d: "diff_ok E dense reg ?next d"
      using engine_okD(3) [OF ok] range unfolding ahead_ok_def by blast
    have "adopt_diff env (en\<lparr>en_ahead := sp\<rparr>) ?next d = Inr en'"
      using adv Some by (simp add: advance_accumulator_def t)
    then show ?thesis by (rule adopt_ok [OF ok grows env(1) d range _ take_diff_Some(1) [OF t]])
  qed
qed (use tick ok in \<open>simp add: advance_tick_def\<close>)

lemma recorded_ok:
  assumes ok: "engine_ok E dense reg en" and same: "same_accumulator (en_state en) st'"
  shows "engine_ok E dense reg (en\<lparr>en_snapshot := (en_snapshot en)\<lparr>sn_state := st'\<rparr>\<rparr>)"
proof -
  have "snapshot_ok E dense reg ((en_snapshot en)\<lparr>sn_state := st'\<rparr>)"
    using engine_okD(1) [OF ok] same by (simp add: snapshot_ok_def snapshot_bound_def same_accumulator_def Let_def)
  moreover have "follows (ev_zisk E) st' roots = follows (ev_zisk E) (en_state en) roots" for roots
    using same by (simp add: follows_def same_accumulator_def)
  moreover have "ss_cursor_epoch st' = ss_cursor_epoch (en_state en)" "ss_init_epoch st' = ss_init_epoch (en_state en)"
    using same by (simp_all add: same_accumulator_def)
  ultimately show ?thesis using ok by (simp add: engine_ok_def)
qed

lemma engine_step_ok:
  assumes "engine_step E reg en en'" "engine_ok E dense reg en" "grows E dense reg"
  shows "engine_ok E dense reg en'"
  using assms
proof (induction rule: engine_step.induct)
  case (Closed env en epoch r en')
  then show ?case
    by (auto simp: close_epoch_def Let_def same_accumulator_def intro!: recorded_ok)
qed (auto intro: advance_ok speculate_ok hold_ok open_committees_ok
    simp: finish_stream_def give_up_def same_accumulator_def Let_def intro!: recorded_ok)

lemma engine_run_ok:
  assumes "(engine_step E reg)\<^sup>*\<^sup>* en en'" "engine_ok E dense reg en" "grows E dense reg"
  shows "engine_ok E dense reg en'"
  using assms by (induction rule: rtranclp_induct) (auto intro: engine_step_ok)

end
