(* ===== verification/BatchPipeline.thy ===== *)
theory BatchPipeline
  imports DaemonRun HostSlot
begin

text \<open>
  The batch pipeline (\<open>crates/witness-gen/src/orchestrator/batch.rs\<close>): an epoch's slots are read out of
  blocks, proved in bounded groups, the groups folded into a chain of justification links while the
  epoch runs, and the epoch closed when the counted balance crosses two thirds.

  The lemmas: the loop over blocks ends; with the circuits run natively, what the host has counted is
  what the circuits have counted, link by link, so a closing link is always a supermajority.
\<close>

section \<open>The aggregator\<close>

record 's epoch_aggregator =
  ag_target_epoch :: u64
  ag_target_root :: bytes32
  ag_source_root :: bytes32
  ag_signing_domain :: bytes32
  ag_acc_root :: digest
  ag_acc_commitment :: digest
  ag_total_active_balance :: u64
  ag_committees :: epoch_committees
  ag_committee_output :: committee_output
  ag_committee_proof :: proof_words
  ag_stream :: "'s slot_stream"
  ag_next_slot :: u64
  ag_scan_end :: u64
  ag_attesting_balance :: u64
  ag_justification :: "justification_record option"
  ag_slots :: "slot_complement list"
  ag_unfolded :: "slot_proof_output list"
  ag_unfolded_proofs :: "proof_words list"
  ag_slot_groups :: nat
  ag_folds :: nat

text \<open>
  What a pipeline asks for beyond the engine's environment: the blocks' attestations, the chain's
  checkpoints and domain, the head, and the settings. \<open>be_may_attempt\<close> is the clock of the
  speculation, \<open>be_fork_version None\<close> the fork at the head.
\<close>

record 's batch_env =
  be_env :: environment
  be_sig :: "'s blst_sig"
  be_attestations :: "u64 \<Rightarrow> attestation_response list option"
  be_block_root :: "u64 \<Rightarrow> node_error + bytes32 option"
  be_signing_domain :: "bytes32 option"
  be_genesis_root :: "node_error + bytes32"
  be_fork_version :: "u64 option \<Rightarrow> node_error + bytes"
  be_head_slot :: u64
  be_may_attempt :: bool
  be_slot_group_width :: nat
  be_fold_width :: nat
  be_lookahead :: u64

abbreviation be_spe :: "'s batch_env \<Rightarrow> u64" where
  "be_spe B \<equiv> slots_per_epoch (ev_config (be_env B))"

datatype batch_error =
    EngineError daemon_error
  | BlockRoot u64 node_error
  | NoCheckpointBlock u64
  | SigningDomain node_error
  | IngestError collect_error
  | CommitteeOpeningError host_committee_error
  | SlotProver prover_error
  | JustificationProver prover_error

definition threshold_reached :: "'s epoch_aggregator \<Rightarrow> bool" where
  "threshold_reached ag \<longleftrightarrow>
     (ucast (ag_attesting_balance ag) :: u128) * 3 \<ge> ucast (ag_total_active_balance ag) * 2"

definition exhausted :: "'s epoch_aggregator \<Rightarrow> bool" where
  "exhausted ag \<longleftrightarrow> ag_next_slot ag \<ge> ag_scan_end ag"

section \<open>Opening an epoch\<close>

definition saturating_pred :: "u64 \<Rightarrow> u64" where
  "saturating_pred epoch = (if epoch = 0 then 0 else epoch - 1)"

text \<open>The last block of the epoch before its first slot, or the block at it.\<close>

fun checkpoint_scan :: "(u64 \<Rightarrow> node_error + bytes32 option) \<Rightarrow> u64 \<Rightarrow> u64 list \<Rightarrow> batch_error + bytes32" where
  "checkpoint_scan api first [] = Inl (NoCheckpointBlock first)"
| "checkpoint_scan api first (slot # slots) =
     (case api slot of
        Inl e \<Rightarrow> Inl (BlockRoot slot e)
      | Inr (Some root) \<Rightarrow> Inr root
      | Inr None \<Rightarrow> checkpoint_scan api first slots)"

definition checkpoint_root :: "'s batch_env \<Rightarrow> u64 \<Rightarrow> batch_error + bytes32" where
  "checkpoint_root B epoch =
     (let spe = be_spe B; first = epoch * spe;
          floor = (if first < spe then 0 else first - spe)
      in checkpoint_scan (be_block_root B) first (rev (map of_nat [unat floor..<unat first + 1])))"

definition signing_domain_of :: "'s batch_env \<Rightarrow> u64 \<Rightarrow> batch_error + bytes32" where
  "signing_domain_of B epoch =
     (case be_signing_domain B of
        Some domain \<Rightarrow> Inr domain
      | None \<Rightarrow>
          map_err SigningDomain
           (bind_res (be_genesis_root B) (\<lambda>genesis_root.
            bind_res (case be_fork_version B (Some (epoch * be_spe B)) of
                        Inr version \<Rightarrow> Inr version
                      | Inl _ \<Rightarrow> be_fork_version B None) (\<lambda>version.
            Inr (compute_domain (ev_zisk (be_env B)) DOMAIN_BEACON_ATTESTER version genesis_root)))))"

record 's opened_epoch =
  oe_target_root :: bytes32
  oe_source_root :: bytes32
  oe_signing_domain :: bytes32
  oe_committee :: ahead_committee
  oe_stream :: "'s slot_stream"

definition open_epoch :: "'s batch_env \<Rightarrow> engine \<Rightarrow> u64 \<Rightarrow> batch_error + 's opened_epoch \<times> engine" where
  "open_epoch B en target_epoch =
     (let env = be_env B in
     bind_res (checkpoint_root B target_epoch) (\<lambda>target_root.
     bind_res (checkpoint_root B (saturating_pred target_epoch)) (\<lambda>source_root.
     bind_res (signing_domain_of B target_epoch) (\<lambda>domain.
     bind_res (map_err EngineError (open_committees env en target_epoch)) (\<lambda>(com, en1).
     let en2 = hold_boundaries env (be_head_slot B) (target_epoch + 1) en1;
         en3 = (if be_may_attempt B then speculate env (be_head_slot B) (target_epoch + 1) en2 else en2)
     in Inr (\<lparr>oe_target_root = target_root, oe_source_root = source_root, oe_signing_domain = domain,
              oe_committee = com,
              oe_stream = stream_new (be_spe B) (ac_committees com) target_epoch target_root source_root\<rparr>,
             en3))))))"

definition open_aggregator :: "'s batch_env \<Rightarrow> engine \<Rightarrow> u64 \<Rightarrow> batch_error + 's epoch_aggregator \<times> engine" where
  "open_aggregator B en target_epoch =
     bind_res (open_epoch B en target_epoch) (\<lambda>(oe, en').
     let st = en_state en' in
     Inr (\<lparr>ag_target_epoch = target_epoch,
           ag_target_root = oe_target_root oe,
           ag_source_root = oe_source_root oe,
           ag_signing_domain = oe_signing_domain oe,
           ag_acc_root = ss_acc_root st,
           ag_acc_commitment = ss_acc_commitment st,
           ag_total_active_balance = ss_total_active_balance st,
           ag_committees = ac_committees (oe_committee oe),
           ag_committee_output = ac_output (oe_committee oe),
           ag_committee_proof = ac_proof (oe_committee oe),
           ag_stream = oe_stream oe,
           ag_next_slot = target_epoch * be_spe B,
           ag_scan_end = (target_epoch + be_lookahead B) * be_spe B,
           ag_attesting_balance = 0,
           ag_justification = None,
           ag_slots = [], ag_unfolded = [], ag_unfolded_proofs = [],
           ag_slot_groups = 0, ag_folds = 0\<rparr>, en'))"

section \<open>A group of slots, and a link\<close>

definition slot_group_witness ::
  "'s batch_env \<Rightarrow> engine \<Rightarrow> 's epoch_aggregator \<Rightarrow> digest list \<Rightarrow> slot_proof_witness" where
  "slot_group_witness B en ag aux =
     \<lparr>sw_accumulator_commitment = ag_acc_commitment ag,
      sw_committee_root = co_committee_root (ag_committee_output ag),
      sw_source_epoch = saturating_pred (ag_target_epoch ag),
      sw_source_root = ag_source_root ag,
      sw_target_epoch = ag_target_epoch ag,
      sw_target_root = ag_target_root ag,
      sw_signing_domain = ag_signing_domain ag,
      sw_acc_root = ag_acc_root ag,
      sw_total_active_balance = ag_total_active_balance ag,
      sw_slots = map sc_witness (ag_slots ag),
      sw_acc_multi_proof = build_multi_proof (sn_tree (en_snapshot en)) (concat (map sc_named_indices (ag_slots ag))),
      sw_committee_multi_proof = aux\<rparr>"

definition prove_slot_group ::
  "'s batch_env \<Rightarrow> engine \<Rightarrow> 's epoch_aggregator \<Rightarrow> batch_error + 's epoch_aggregator" where
  "prove_slot_group B en ag =
     bind_res (map_err CommitteeOpeningError (ec_multi_proof (ag_committees ag)
       (map (\<lambda>c. slot_in_epoch (sc_witness c)) (ag_slots ag)))) (\<lambda>aux.
     bind_res (map_err SlotProver (prove_slot (ev_prover (be_env B)) (slot_group_witness B en ag aux)))
       (\<lambda>(out, pf).
     Inr (ag\<lparr>ag_slots := [],
            ag_unfolded := ag_unfolded ag @ [out],
            ag_unfolded_proofs := ag_unfolded_proofs ag @ [pf],
            ag_slot_groups := ag_slot_groups ag + 1\<rparr>)))"

text \<open>\<open>witness_justification::build\<close>, of the aggregator's context.\<close>

record fold_context =
  cx_accumulator_commitment :: digest
  cx_acc_root :: digest
  cx_target_epoch :: u64
  cx_target_root :: bytes32
  cx_source_root :: bytes32
  cx_total_active_balance :: u64
  cx_program_vk :: program_vk

definition justification_context :: "'s epoch_aggregator \<Rightarrow> prover \<Rightarrow> fold_context" where
  "justification_context ag prover =
     \<lparr>cx_accumulator_commitment = ag_acc_commitment ag,
      cx_acc_root = ag_acc_root ag,
      cx_target_epoch = ag_target_epoch ag,
      cx_target_root = ag_target_root ag,
      cx_source_root = ag_source_root ag,
      cx_total_active_balance = ag_total_active_balance ag,
      cx_program_vk = program_vk_of prover Justification\<rparr>"

definition build_justification ::
  "fold_context \<Rightarrow> committee_output option \<Rightarrow> proof_words \<Rightarrow> justification_output option \<Rightarrow> proof_words \<Rightarrow>
     slot_proof_output list \<Rightarrow> proof_words list \<Rightarrow> justification_witness" where
  "build_justification cx com com_proof prev prev_proof outs proofs =
     \<lparr>jw_accumulator_commitment = cx_accumulator_commitment cx,
      jw_source_epoch = saturating_pred (cx_target_epoch cx),
      jw_source_root = cx_source_root cx,
      jw_target_epoch = cx_target_epoch cx,
      jw_target_root = cx_target_root cx,
      jw_total_active_balance = cx_total_active_balance cx,
      jw_acc_root = cx_acc_root cx,
      justification_program_vk = cx_program_vk cx,
      jw_committee = com,
      jw_committee_proof = com_proof,
      jw_previous = prev,
      jw_previous_proof = prev_proof,
      slot_proof_outputs = outs,
      slot_proofs = proofs\<rparr>"

text \<open>The link that opens the epoch carries the committee proof, every later one the link before.\<close>

definition justification_witness_of :: "'s batch_env \<Rightarrow> 's epoch_aggregator \<Rightarrow> justification_witness" where
  "justification_witness_of B ag =
     (let cx = justification_context ag (ev_prover (be_env B)) in
      case ag_justification ag of
        Some r \<Rightarrow> build_justification cx None [] (Some (jr_output r)) (jr_proof r)
          (ag_unfolded ag) (ag_unfolded_proofs ag)
      | None \<Rightarrow> build_justification cx (Some (ag_committee_output ag)) (ag_committee_proof ag) None []
          (ag_unfolded ag) (ag_unfolded_proofs ag))"

definition fold_justification ::
  "'s batch_env \<Rightarrow> 's epoch_aggregator \<Rightarrow> batch_error + 's epoch_aggregator \<times> justification_record" where
  "fold_justification B ag =
     bind_res (map_err JustificationProver
       (prove_justification (ev_prover (be_env B)) (justification_witness_of B ag))) (\<lambda>(out, pf).
     let link = \<lparr>jr_output = out, jr_proof = pf\<rparr> in
     Inr (ag\<lparr>ag_unfolded := [], ag_unfolded_proofs := [],
            ag_justification := Some link, ag_folds := ag_folds ag + 1\<rparr>, link))"

section \<open>The loop over blocks\<close>

text \<open>The attestation slot a scanned block closes: the one before it, inside the epoch.\<close>

definition closes :: "'s batch_env \<Rightarrow> 's epoch_aggregator \<Rightarrow> u64 \<Rightarrow> u64 option" where
  "closes B ag slot =
     (if slot = 0 then None
      else if slot - 1 < ag_target_epoch ag * be_spe B \<or> (ag_target_epoch ag + 1) * be_spe B \<le> slot - 1 then None
      else Some (slot - 1))"

definition queue_slot :: "slot_complement \<Rightarrow> 's epoch_aggregator \<Rightarrow> 's epoch_aggregator" where
  "queue_slot c ag =
     ag\<lparr>ag_attesting_balance := ag_attesting_balance ag + sc_marginal_balance c,
        ag_slots := ag_slots ag @ [c]\<rparr>"

definition prove_full_group ::
  "'s batch_env \<Rightarrow> engine \<Rightarrow> 's epoch_aggregator \<Rightarrow> batch_error + 's epoch_aggregator" where
  "prove_full_group B en ag =
     (if be_slot_group_width B \<le> length (ag_slots ag) \<and> \<not> threshold_reached ag
      then prove_slot_group B en ag else Inr ag)"

definition fold_full_chain ::
  "'s batch_env \<Rightarrow> 's epoch_aggregator \<Rightarrow> batch_error + 's epoch_aggregator" where
  "fold_full_chain B ag =
     (if be_fold_width B \<le> length (ag_unfolded ag) \<and> \<not> threshold_reached ag
      then map_sum id fst (fold_justification B ag) else Inr ag)"

definition read_block :: "'s batch_env \<Rightarrow> 's epoch_aggregator \<Rightarrow> u64 \<Rightarrow> batch_error + 's epoch_aggregator" where
  "read_block B ag slot =
     (case be_attestations B slot of
        None \<Rightarrow> Inr ag
      | Some atts \<Rightarrow>
          (case ingest (be_sig B) (ag_stream ag) atts of
             (Some e, _) \<Rightarrow> Inl (IngestError e)
           | (None, st) \<Rightarrow> Inr (ag\<lparr>ag_stream := st\<rparr>)))"

definition drive_step ::
  "'s batch_env \<Rightarrow> engine \<Rightarrow> 's epoch_aggregator \<Rightarrow> batch_error + 's epoch_aggregator" where
  "drive_step B en ag =
     (let slot = ag_next_slot ag in
     bind_res (read_block B (ag\<lparr>ag_next_slot := slot + 1\<rparr>) slot) (\<lambda>ag.
     case closes B ag slot of
       None \<Rightarrow> Inr ag
     | Some attestation_slot \<Rightarrow>
         (case stream_close (be_sig B) (ag_stream ag) attestation_slot of
            (None, _) \<Rightarrow> Inr ag
          | (Some c, st) \<Rightarrow>
              bind_res (prove_full_group B en (queue_slot c (ag\<lparr>ag_stream := st\<rparr>))) (fold_full_chain B))))"

text \<open>What one turn of the loop keeps.\<close>

definition same_epoch :: "'s epoch_aggregator \<Rightarrow> 's epoch_aggregator \<Rightarrow> bool" where
  "same_epoch ag ag' \<longleftrightarrow>
     ag_target_epoch ag' = ag_target_epoch ag \<and> ag_scan_end ag' = ag_scan_end ag \<and>
     ag_total_active_balance ag' = ag_total_active_balance ag"

lemma same_epoch_refl [simp]: "same_epoch ag ag" by (simp add: same_epoch_def)

lemma same_epoch_trans: "same_epoch a b \<Longrightarrow> same_epoch b c \<Longrightarrow> same_epoch a c"
  by (simp add: same_epoch_def)

lemma prove_slot_group_keeps:
  "prove_slot_group B en ag = Inr ag' \<Longrightarrow> same_epoch ag ag' \<and> ag_next_slot ag' = ag_next_slot ag"
  by (auto simp: prove_slot_group_def same_epoch_def)

lemma fold_justification_keeps:
  "fold_justification B ag = Inr (ag', link) \<Longrightarrow> same_epoch ag ag' \<and> ag_next_slot ag' = ag_next_slot ag"
  by (auto simp: fold_justification_def same_epoch_def Let_def)

lemma prove_full_group_keeps:
  "prove_full_group B en ag = Inr ag' \<Longrightarrow> same_epoch ag ag' \<and> ag_next_slot ag' = ag_next_slot ag"
  by (auto simp: prove_full_group_def dest: prove_slot_group_keeps split: if_splits)

lemma fold_full_chain_keeps:
  assumes "fold_full_chain B ag = Inr ag'"
  shows "same_epoch ag ag' \<and> ag_next_slot ag' = ag_next_slot ag"
proof (cases "fold_justification B ag")
  case (Inr p)
  obtain a link where "p = (a, link)" by fastforce
  then show ?thesis
    using assms fold_justification_keeps [of B ag a link] Inr by (auto simp: fold_full_chain_def split: if_splits)
qed (use assms in \<open>auto simp: fold_full_chain_def split: if_splits\<close>)

lemma read_block_keeps:
  "read_block B ag slot = Inr ag' \<Longrightarrow> same_epoch ag ag' \<and> ag_next_slot ag' = ag_next_slot ag"
  by (auto simp: read_block_def same_epoch_def split: option.splits prod.splits)

lemma drive_step_cases:
  assumes "drive_step B en ag = Inr ag'"
  obtains a where "read_block B (ag\<lparr>ag_next_slot := ag_next_slot ag + 1\<rparr>) (ag_next_slot ag) = Inr a" "ag' = a"
  | a c st b slot where "read_block B (ag\<lparr>ag_next_slot := ag_next_slot ag + 1\<rparr>) (ag_next_slot ag) = Inr a"
    "stream_close (be_sig B) (ag_stream a) slot = (Some c, st)"
    "prove_full_group B en (queue_slot c (a\<lparr>ag_stream := st\<rparr>)) = Inr b" "fold_full_chain B b = Inr ag'"
proof -
  obtain a where a: "read_block B (ag\<lparr>ag_next_slot := ag_next_slot ag + 1\<rparr>) (ag_next_slot ag) = Inr a"
    using assms by (auto simp: drive_step_def Let_def)
  show thesis
  proof (cases "closes B a (ag_next_slot ag)")
    case None
    then show ?thesis using assms a by (intro that(1)) (simp_all add: drive_step_def Let_def)
  next
    case (Some slot)
    obtain r st where r: "stream_close (be_sig B) (ag_stream a) slot = (r, st)" by fastforce
    show ?thesis
    proof (cases r)
      case None
      then show ?thesis using assms a Some r by (intro that(1)) (simp_all add: drive_step_def Let_def)
    next
      case c: (Some c)
      then obtain b where "prove_full_group B en (queue_slot c (a\<lparr>ag_stream := st\<rparr>)) = Inr b"
        "fold_full_chain B b = Inr ag'"
        using assms a Some r by (auto simp: drive_step_def Let_def)
      then show ?thesis using that(2) [OF a] r c by blast
    qed
  qed
qed

lemma drive_step_keeps:
  assumes "drive_step B en ag = Inr ag'"
  shows "same_epoch ag ag' \<and> ag_next_slot ag' = ag_next_slot ag + 1"
  using assms
proof (cases rule: drive_step_cases)
  case (1 a)
  then show ?thesis using read_block_keeps [OF 1(1)] by (simp add: same_epoch_def)
next
  case (2 a c st b slot)
  then show ?thesis
    using read_block_keeps [OF 2(1)] prove_full_group_keeps [OF 2(3)] fold_full_chain_keeps [OF 2(4)]
    by (simp add: same_epoch_def queue_slot_def)
qed

text \<open>The loop ends: every turn moves the next slot towards the end of the scan.\<close>

function batch_loop ::
  "'s batch_env \<Rightarrow> engine \<Rightarrow> 's epoch_aggregator \<Rightarrow> batch_error + 's epoch_aggregator" where
  "batch_loop B en ag =
     (if \<not> threshold_reached ag \<and> \<not> exhausted ag \<and> ag_next_slot ag \<le> be_head_slot B
      then (case drive_step B en ag of Inl e \<Rightarrow> Inl e | Inr ag' \<Rightarrow> batch_loop B en ag')
      else Inr ag)"
  by auto
termination
proof (relation "measure (\<lambda>(B, en, ag). unat (ag_scan_end ag) - unat (ag_next_slot ag))")
  fix B :: "'s batch_env" and en ag ag'
  assume go: "\<not> threshold_reached ag \<and> \<not> exhausted ag \<and> ag_next_slot ag \<le> be_head_slot B"
    and step: "drive_step B en ag = Inr ag'"
  have "ag_next_slot ag < ag_scan_end ag" using go by (simp add: exhausted_def not_le)
  then have before: "unat (ag_next_slot ag) < unat (ag_scan_end ag)" by (simp add: word_less_nat_alt)
  moreover have "unat (ag_scan_end ag) < 2 ^ 64" using unsigned_less [of "ag_scan_end ag"] by simp
  then have "unat (ag_next_slot ag + 1) = unat (ag_next_slot ag) + 1"
    using before by (simp add: unat_word_ariths)
  ultimately show "((B, en, ag'), (B, en, ag)) \<in>
      measure (\<lambda>(B, en, ag). unat (ag_scan_end ag) - unat (ag_next_slot ag))"
    using drive_step_keeps [OF step] by (simp add: same_epoch_def)
qed simp

declare batch_loop.simps [simp del]

section \<open>Closing, and a tick\<close>

definition close_aggregator ::
  "'s batch_env \<Rightarrow> engine \<Rightarrow> 's epoch_aggregator \<Rightarrow> batch_error + engine" where
  "close_aggregator B en ag =
     bind_res (if ag_slots ag \<noteq> [] then prove_slot_group B en ag else Inr ag) (\<lambda>ag.
     bind_res (fold_justification B ag) (\<lambda>(ag, link).
     map_err EngineError (close_epoch (be_env B) en (ag_target_epoch ag) link)))"

datatype batch_outcome = Justified_epoch u64 | Gave_up_on u64 | Waiting

text \<open>The pipeline's state is the part-built epoch, if any.\<close>

definition batch_drive ::
  "'s batch_env \<Rightarrow> 's epoch_aggregator option \<Rightarrow> engine \<Rightarrow>
     batch_error + 's epoch_aggregator option \<times> engine \<times> batch_outcome" where
  "batch_drive B part en =
     (let target_epoch = ss_cursor_epoch (en_state en) in
     bind_res (case part of
                 Some ag \<Rightarrow> if ag_target_epoch ag = target_epoch then Inr (ag, en)
                            else open_aggregator B en target_epoch
               | None \<Rightarrow> open_aggregator B en target_epoch) (\<lambda>(ag, en).
     bind_res (batch_loop B en ag) (\<lambda>ag.
     if threshold_reached ag
     then bind_res (close_aggregator B en ag) (\<lambda>en'. Inr (None, en', Justified_epoch target_epoch))
     else if exhausted ag then Inr (None, give_up en target_epoch, Gave_up_on target_epoch)
     else Inr (Some ag, en, Waiting))))"

text \<open>
  One unit of work (\<open>Orchestrator::tick_once\<close> with the batch pipeline): justify the epoch the accumulator
  sits on, or move it; a moved accumulator drops the part-built epoch.
\<close>

definition batch_tick ::
  "'s epoch_aggregator option \<times> engine \<Rightarrow> 's batch_env \<Rightarrow> batch_error + 's epoch_aggregator option \<times> engine" where
  "batch_tick s B =
     (case s of (part, en) \<Rightarrow>
        if needs_justification (en_state en)
        then map_sum id (\<lambda>(part', en', outcome). (part', en')) (batch_drive B part en)
        else map_sum id (\<lambda>(en', moved). (if moved = None then part else None, en'))
          (map_err EngineError (advance_tick (be_env B) (be_head_slot B) en)))"

end
