(* ===== verification/BatchCount.thy ===== *)
theory BatchCount
  imports BatchPipeline
begin

text \<open>
  The host's count against the circuits' (\<open>BatchPipeline\<close>), with the circuits run natively: the balance
  the aggregator holds is what its chain's last link published, plus its unfolded slot proofs, plus the
  complements still queued. A closing link is therefore justified exactly when the host closes it.
\<close>

section \<open>A complement's balance\<close>

definition complement_counted :: "slot_complement \<Rightarrow> bool" where
  "complement_counted c \<longleftrightarrow>
     sc_marginal_balance c = ca_balance (committee (sc_witness c)) - sum_list (map ov_balance (absentees (sc_witness c)))"

lemma peek_counted: "peek B st slot = Some c \<Longrightarrow> complement_counted c"
  by (auto simp: peek_def complement_counted_def Let_def split: option.splits if_splits)

lemma sum_list_of_nat: "sum_list (map ov_balance vs) = of_nat (sum_list (map (\<lambda>v. unat (ov_balance v)) vs))"
  by (induction vs) simp_all

lemma complement_support:
  assumes "complement_counted c" "absent_balance (sc_witness c) \<le> unat (ca_balance (committee (sc_witness c)))"
  shows "of_nat (slot_support (sc_witness c)) = sc_marginal_balance c"
  using assms by (simp add: complement_counted_def slot_support_def absent_balance_def sum_list_of_nat of_nat_diff)

text \<open>A slot proof's balance is the balance of its complements.\<close>

lemma slot_proof_balance:
  assumes "verify_slot_proof_with_depth Z w d = Inr out" "sw_slots w = map sc_witness cs"
    and "list_all complement_counted cs"
  shows "sp_attesting_balance out = sum_list (map sc_marginal_balance cs)"
proof -
  obtain at where at: "attest Z w d = Inr at" "sp_attesting_balance out = att_balance at"
    by (rule verify_slot_proof_attests [OF assms(1)])
  then have "verify_attestations Z (sw_slots w) (sw_acc_root w) (sw_acc_multi_proof w) (sw_committee_root w)
      (sw_committee_multi_proof w) (link_of w) d = Inr at"
    by (simp add: attest_Inr)
  then obtain st where st: "slots_summary Z (link_of w) (sw_slots w) st" "att_balance at = ss_balance st"
    by (rule verify_attestations_Inr)
  have fine: "absent_balance (sc_witness c) \<le> unat (ca_balance (committee (sc_witness c)))" if "c \<in> set cs" for c
    using slots_summaryD(6) [OF st(1)] that by (simp add: assms(2))
  have "sp_attesting_balance out = of_nat (sum_list (map slot_support (map sc_witness cs)))"
    using slots_summaryD(1) [OF st(1)] by (simp add: at(2) st(2) assms(2))
  also have "\<dots> = sum_list (map sc_marginal_balance cs)"
    using fine assms(3)
  proof (induction cs)
    case (Cons c cs)
    then show ?case using complement_support [of c] by simp
  qed simp
  finally show ?thesis .
qed

section \<open>The aggregator's count\<close>

definition native_circuits :: "'s batch_env \<Rightarrow> bool" where
  "native_circuits B \<longleftrightarrow> ev_prover (be_env B) = native_prover (ev_zisk (be_env B)) (ev_config (be_env B))"

definition chain_balance :: "'s epoch_aggregator \<Rightarrow> u64" where
  "chain_balance ag = (case ag_justification ag of None \<Rightarrow> 0 | Some r \<Rightarrow> jo_attesting_balance (jr_output r))"

definition counted :: "'s epoch_aggregator \<Rightarrow> bool" where
  "counted ag \<longleftrightarrow> list_all complement_counted (ag_slots ag) \<and>
     ag_attesting_balance ag = chain_balance ag + sum_list (map sp_attesting_balance (ag_unfolded ag)) +
       sum_list (map sc_marginal_balance (ag_slots ag))"

lemma prove_slot_group_counted:
  assumes "prove_slot_group B en ag = Inr ag'" "native_circuits B" "counted ag"
  shows "counted ag'" "ag_attesting_balance ag' = ag_attesting_balance ag" "ag_slots ag' = []"
proof -
  obtain aux out where
    out: "verify_slot_proof_with_depth (ev_zisk (be_env B)) (slot_group_witness B en ag aux)
        (acc_tree_depth (ev_config (be_env B))) = Inr out"
    and ag': "ag' = ag\<lparr>ag_slots := [], ag_unfolded := ag_unfolded ag @ [out],
        ag_unfolded_proofs := ag_unfolded_proofs ag @ [[]], ag_slot_groups := ag_slot_groups ag + 1\<rparr>"
    using assms(1,2) by (auto simp: prove_slot_group_def native_circuits_def native_prover_def)
  have "sp_attesting_balance out = sum_list (map sc_marginal_balance (ag_slots ag))"
    by (rule slot_proof_balance [OF out]) (use assms(3) in \<open>simp_all add: slot_group_witness_def counted_def\<close>)
  then show "counted ag'" "ag_attesting_balance ag' = ag_attesting_balance ag" "ag_slots ag' = []"
    using assms(3) by (simp_all add: counted_def chain_balance_def ag' add.assoc)
qed

lemma justification_counts:
  assumes "verify_justification Z w = Inr out"
  shows "jo_attesting_balance out =
      (case jw_previous w of None \<Rightarrow> 0 | Some prev \<Rightarrow> jo_attesting_balance prev) +
      sum_list (map sp_attesting_balance (slot_proof_outputs w))"
    and "justified out = two_thirds (jo_attesting_balance out) (jw_total_active_balance w)"
proof -
  obtain start P where
    start: "case jw_previous w of Some prev \<Rightarrow> previous_link Z w prev = Inr start | None \<Rightarrow> start = (0, 0)"
    and run: "fold_res (slot_child_step Z P) start (zip (slot_proof_outputs w) (slot_proofs w)) =
       Inr (jo_attesting_balance out, jo_slots_mask out)"
    and len: "length (slot_proof_outputs w) = length (slot_proofs w)"
    by (rule verify_justification_Inr [OF assms]) blast
  have "map (\<lambda>c. sp_attesting_balance (fst c)) (zip (slot_proof_outputs w) (slot_proofs w)) =
      map sp_attesting_balance (map fst (zip (slot_proof_outputs w) (slot_proofs w)))" by simp
  also have "\<dots> = map sp_attesting_balance (slot_proof_outputs w)" using len by simp
  finally have "jo_attesting_balance out = fst start + sum_list (map sp_attesting_balance (slot_proof_outputs w))"
    using slot_fold.fold_counts(2) [OF run] by simp
  moreover have "fst start = (case jw_previous w of None \<Rightarrow> 0 | Some prev \<Rightarrow> jo_attesting_balance prev)"
    using start by (cases "jw_previous w"; cases start) (auto simp: previous_link_Inr)
  ultimately show "jo_attesting_balance out =
      (case jw_previous w of None \<Rightarrow> 0 | Some prev \<Rightarrow> jo_attesting_balance prev) +
      sum_list (map sp_attesting_balance (slot_proof_outputs w))" by simp
  show "justified out = two_thirds (jo_attesting_balance out) (jw_total_active_balance w)"
    using assms by (auto simp: verify_justification_def Let_def)
qed

lemma fold_justification_counted:
  assumes "fold_justification B ag = Inr (ag', link)" "native_circuits B" "counted ag"
  shows "counted ag'" "ag_attesting_balance ag' = ag_attesting_balance ag" "ag_slots ag' = ag_slots ag"
    and "justified (jr_output link) =
      two_thirds (ag_attesting_balance ag - sum_list (map sc_marginal_balance (ag_slots ag))) (ag_total_active_balance ag)"
proof -
  let ?w = "justification_witness_of B ag"
  obtain out where out: "verify_justification (ev_zisk (be_env B)) ?w = Inr out"
    and link: "link = \<lparr>jr_output = out, jr_proof = []\<rparr>"
    and ag': "ag' = ag\<lparr>ag_unfolded := [], ag_unfolded_proofs := [], ag_justification := Some link,
        ag_folds := ag_folds ag + 1\<rparr>"
    using assms(1,2) by (auto simp: fold_justification_def native_circuits_def native_prover_def Let_def)
  have w: "(case jw_previous ?w of None \<Rightarrow> 0 | Some prev \<Rightarrow> jo_attesting_balance prev) = chain_balance ag"
    "slot_proof_outputs ?w = ag_unfolded ag" "jw_total_active_balance ?w = ag_total_active_balance ag"
    by (simp_all add: justification_witness_of_def build_justification_def justification_context_def
        chain_balance_def Let_def split: option.splits)
  have bal: "jo_attesting_balance out = chain_balance ag + sum_list (map sp_attesting_balance (ag_unfolded ag))"
    using justification_counts(1) [OF out] by (simp add: w)
  then show "counted ag'" "ag_attesting_balance ag' = ag_attesting_balance ag" "ag_slots ag' = ag_slots ag"
    using assms(3) by (simp_all add: counted_def chain_balance_def ag' link)
  show "justified (jr_output link) =
      two_thirds (ag_attesting_balance ag - sum_list (map sc_marginal_balance (ag_slots ag))) (ag_total_active_balance ag)"
    using justification_counts(2) [OF out] assms(3) by (simp add: link w bal counted_def)
qed

lemma queue_counted: "counted ag \<Longrightarrow> complement_counted c \<Longrightarrow> counted (queue_slot c ag)"
  by (simp add: counted_def queue_slot_def chain_balance_def algebra_simps)

lemma counted_stream [simp]: "counted (ag\<lparr>ag_stream := st\<rparr>) = counted ag"
  by (simp add: counted_def chain_balance_def)

lemma counted_next [simp]: "counted (ag\<lparr>ag_next_slot := n\<rparr>) = counted ag"
  by (simp add: counted_def chain_balance_def)

lemma read_block_counted: "read_block B ag slot = Inr ag' \<Longrightarrow> counted ag \<Longrightarrow> counted ag'"
  by (auto simp: read_block_def split: option.splits prod.splits)

lemma prove_full_group_counted:
  "prove_full_group B en ag = Inr ag' \<Longrightarrow> native_circuits B \<Longrightarrow> counted ag \<Longrightarrow> counted ag'"
  by (auto simp: prove_full_group_def dest: prove_slot_group_counted(1) split: if_splits)

lemma fold_full_chain_counted:
  assumes "fold_full_chain B ag = Inr ag'" "native_circuits B" "counted ag"
  shows "counted ag'"
proof (cases "fold_justification B ag")
  case (Inr p)
  obtain a link where "p = (a, link)" by fastforce
  then show ?thesis
    using assms fold_justification_counted(1) [of B ag a link] Inr by (auto simp: fold_full_chain_def split: if_splits)
qed (use assms in \<open>auto simp: fold_full_chain_def split: if_splits\<close>)

lemma drive_step_counted:
  assumes "drive_step B en ag = Inr ag'" "native_circuits B" "counted ag"
  shows "counted ag'"
  using assms(1)
proof (cases rule: drive_step_cases)
  case (1 a)
  then show ?thesis using read_block_counted [OF 1(1)] assms(3) by simp
next
  case (2 a c st b slot)
  have "counted a" using read_block_counted [OF 2(1)] assms(3) by simp
  moreover have "complement_counted c"
    using 2(2) peek_counted by (auto simp: stream_close_def split: option.splits)
  ultimately have "counted (queue_slot c (a\<lparr>ag_stream := st\<rparr>))" using queue_counted [of "a\<lparr>ag_stream := st\<rparr>"] by simp
  then show ?thesis
    using prove_full_group_counted [OF 2(3)] fold_full_chain_counted [OF 2(4)] assms(2) by blast
qed

lemma batch_loop_counted:
  "batch_loop B en ag = Inr ag' \<Longrightarrow> native_circuits B \<Longrightarrow> counted ag \<Longrightarrow> counted ag'"
proof (induction B en ag rule: batch_loop.induct)
  case (1 B en ag)
  show ?case
  proof (cases "\<not> threshold_reached ag \<and> \<not> exhausted ag \<and> ag_next_slot ag \<le> be_head_slot B")
    case True
    then obtain a where "drive_step B en ag = Inr a" "batch_loop B en a = Inr ag'"
      using 1(2) by (subst (asm) batch_loop.simps) (auto split: sum.splits)
    then show ?thesis using 1(1) [OF True] drive_step_counted 1(3,4) by blast
  next
    case False
    then have "batch_loop B en ag = Inr ag" by (subst batch_loop.simps) auto
    then show ?thesis using 1(2,4) by simp
  qed
qed

lemma open_aggregator_counted: "open_aggregator B en epoch = Inr (ag, en') \<Longrightarrow> counted ag"
  by (auto simp: open_aggregator_def counted_def chain_balance_def Let_def)

section \<open>Closing\<close>

lemma close_counted:
  assumes "native_circuits B" "counted ag" "threshold_reached ag"
  shows "close_aggregator B en ag \<noteq> Inl (EngineError NotASupermajorityAtClose)"
proof
  assume bad: "close_aggregator B en ag = Inl (EngineError NotASupermajorityAtClose)"
  define m where "m = (if ag_slots ag \<noteq> [] then prove_slot_group B en ag else Inr ag)"
  have close: "close_aggregator B en ag = bind_res m (\<lambda>ag. bind_res (fold_justification B ag) (\<lambda>(ag, link).
      map_err EngineError (close_epoch (be_env B) en (ag_target_epoch ag) link)))"
    by (simp add: close_aggregator_def m_def)
  have "m \<noteq> Inl (EngineError x)" for x
    by (auto simp: m_def prove_slot_group_def)
  then obtain a where a: "m = Inr a"
    using bad by (cases m) (auto simp: close)
  have a': "counted a" "ag_attesting_balance a = ag_attesting_balance ag" "ag_slots a = []"
    "ag_total_active_balance a = ag_total_active_balance ag"
    using a assms(1,2) prove_slot_group_counted [of B en ag a] prove_slot_group_keeps [of B en ag a]
    by (auto simp: m_def same_epoch_def split: if_splits)
  obtain f link where f: "fold_justification B a = Inr (f, link)"
    using bad a by (auto simp: close fold_justification_def Let_def)
  have "justified (jr_output link)"
    using fold_justification_counted(4) [OF f assms(1) a'(1)] assms(3)
    by (simp add: a' threshold_reached_def two_thirds_def)
  moreover have "close_epoch (be_env B) en (ag_target_epoch f) link = Inl NotASupermajorityAtClose"
    using bad a f by (auto simp: close)
  ultimately show False
    by (auto simp: close_epoch_def try_finalize_def Let_def split: option.splits if_splits)
qed

lemma open_aggregator_error:
  "open_aggregator B en epoch \<noteq> Inl (EngineError NotASupermajorityAtClose)"
proof -
  have scan: "checkpoint_scan api first slots \<noteq> Inl (EngineError x)" for api first slots x
    by (induction api first slots rule: checkpoint_scan.induct) (auto split: sum.splits option.splits)
  have "open_committees (be_env B) en epoch \<noteq> Inl NotASupermajorityAtClose"
    by (auto simp: open_committees_def open_boundary_at_def prove_committees_def Let_def
        split: option.splits prod.splits)
  then show ?thesis
    using scan by (auto simp: open_aggregator_def open_epoch_def checkpoint_root_def signing_domain_of_def Let_def
        split: option.splits)
qed

lemma batch_parts_error:
  "read_block B ag slot \<noteq> Inl (EngineError x)" "prove_slot_group B en ag \<noteq> Inl (EngineError x)"
  "fold_justification B ag \<noteq> Inl (EngineError x)"
  by (auto simp: read_block_def prove_slot_group_def fold_justification_def Let_def split: option.splits prod.splits)

lemma drive_step_error: "drive_step B en ag \<noteq> Inl (EngineError x)"
proof
  assume bad: "drive_step B en ag = Inl (EngineError x)"
  have full: "prove_full_group B en a \<noteq> Inl (EngineError x)" for a
    using batch_parts_error(2) [of B en a x] by (simp add: prove_full_group_def)
  have chain: "fold_full_chain B a \<noteq> Inl (EngineError x)" for a
    using batch_parts_error(3) [of B a x] by (cases "fold_justification B a") (auto simp: fold_full_chain_def)
  obtain a slot where a: "closes B a (ag_next_slot ag) = Some slot"
    "(case stream_close (be_sig B) (ag_stream a) slot of (None, _) \<Rightarrow> Inr a
      | (Some c, st) \<Rightarrow> bind_res (prove_full_group B en (queue_slot c (a\<lparr>ag_stream := st\<rparr>))) (fold_full_chain B)) =
     Inl (EngineError x)"
    using bad batch_parts_error(1) [of B _ _ x] by (auto simp: drive_step_def Let_def split: option.splits)
  then show False
    using full chain by (cases "stream_close (be_sig B) (ag_stream a) slot") (auto split: option.splits)
qed

lemma batch_loop_error: "batch_loop B en ag \<noteq> Inl (EngineError x)"
proof (induction B en ag rule: batch_loop.induct)
  case (1 B en ag)
  show ?case
  proof (cases "\<not> threshold_reached ag \<and> \<not> exhausted ag \<and> ag_next_slot ag \<le> be_head_slot B")
    case True
    then show ?thesis
      using 1 [OF True] drive_step_error [of B en ag x] by (subst batch_loop.simps) (auto split: sum.splits)
  next
    case False
    then have "batch_loop B en ag = Inr ag" by (subst batch_loop.simps) auto
    then show ?thesis by simp
  qed
qed

text \<open>A tick never finds the circuits short of what the host has counted.\<close>

lemma opened_or_kept:
  assumes "(case part of Some ag \<Rightarrow> if ag_target_epoch ag = e then Inr (ag, en) else open_aggregator B en e
      | None \<Rightarrow> open_aggregator B en e) = Inr (ag', en')" "pred_option counted part"
  shows "counted ag'"
  using assms by (auto split: option.splits if_splits dest: open_aggregator_counted)

lemma batch_drive_counted:
  assumes "native_circuits B" "pred_option counted part"
  shows "batch_drive B part en \<noteq> Inl (EngineError NotASupermajorityAtClose)"
    and "batch_drive B part en = Inr (part', en', outcome) \<Longrightarrow> pred_option counted part'"
proof -
  let ?e = "ss_cursor_epoch (en_state en)"
  define m where "m = (case part of Some ag \<Rightarrow> if ag_target_epoch ag = ?e then Inr (ag, en) else open_aggregator B en ?e
      | None \<Rightarrow> open_aggregator B en ?e)"
  have drive: "batch_drive B part en = bind_res m (\<lambda>(ag, en).
     bind_res (batch_loop B en ag) (\<lambda>ag.
     if threshold_reached ag
     then bind_res (close_aggregator B en ag) (\<lambda>en'. Inr (None, en', Justified_epoch ?e))
     else if exhausted ag then Inr (None, give_up en ?e, Gave_up_on ?e)
     else Inr (Some ag, en, Waiting)))"
    by (simp add: batch_drive_def m_def Let_def)
  have "batch_drive B part en \<noteq> Inl (EngineError NotASupermajorityAtClose) \<and>
      (batch_drive B part en = Inr (part', en', outcome) \<longrightarrow> pred_option counted part')"
  proof (cases m)
    case (Inl e)
    then have "e \<noteq> EngineError NotASupermajorityAtClose"
      using open_aggregator_error by (auto simp: m_def split: option.splits if_splits)
    then show ?thesis by (simp add: drive Inl)
  next
    case (Inr p)
    obtain ag en1 where p: "p = (ag, en1)" by fastforce
    have ag: "counted ag" using opened_or_kept assms(2) Inr p by (auto simp: m_def)
    show ?thesis
    proof (cases "batch_loop B en1 ag")
      case bad: (Inl e)
      then show ?thesis using batch_loop_error [of B en1 ag] by (auto simp: drive Inr p)
    next
      case good: (Inr a)
      have "counted a" by (rule batch_loop_counted [OF good assms(1) ag])
      then show ?thesis
        using close_counted [OF assms(1), of a en1] by (auto simp: drive Inr p good)
    qed
  qed
  then show "batch_drive B part en \<noteq> Inl (EngineError NotASupermajorityAtClose)"
    and "batch_drive B part en = Inr (part', en', outcome) \<Longrightarrow> pred_option counted part'" by blast+
qed

section \<open>Ticks are the engine's steps\<close>

lemma open_epoch_steps:
  assumes "open_epoch B en epoch = Inr (oe, en')" "same_chain E (be_env B)" "serves (be_env B) reg"
  shows "(engine_step E reg)\<^sup>*\<^sup>* en en'"
proof -
  let ?env = "be_env B"
  obtain com en1 where en1: "open_committees ?env en epoch = Inr (com, en1)"
    and en': "en' = (let en2 = hold_boundaries ?env (be_head_slot B) (epoch + 1) en1
      in if be_may_attempt B then speculate ?env (be_head_slot B) (epoch + 1) en2 else en2)"
    using assms(1) by (auto simp: open_epoch_def Let_def)
  have a: "engine_step E reg en en1" by (rule Opened [OF assms(2,3) en1])
  have b: "engine_step E reg en1 (hold_boundaries ?env (be_head_slot B) (epoch + 1) en1)"
    by (rule Held [OF assms(2,3)])
  have c: "engine_step E reg x (speculate ?env (be_head_slot B) (epoch + 1) x)" for x
    by (rule Speculated [OF assms(2,3)])
  have "(engine_step E reg)\<^sup>*\<^sup>* en (hold_boundaries ?env (be_head_slot B) (epoch + 1) en1)"
    using a b by (meson converse_rtranclp_into_rtranclp rtranclp.rtrancl_refl)
  then show ?thesis using c by (auto simp: en' Let_def intro: rtranclp.rtrancl_into_rtrancl)
qed

lemma open_aggregator_steps:
  assumes "open_aggregator B en epoch = Inr (ag, en')" "same_chain E (be_env B)" "serves (be_env B) reg"
  shows "(engine_step E reg)\<^sup>*\<^sup>* en en'"
  using assms open_epoch_steps by (fastforce simp: open_aggregator_def Let_def)

lemma batch_drive_steps:
  assumes drive: "batch_drive B part en = Inr (part', en', outcome)"
    and env: "same_chain E (be_env B)" "serves (be_env B) reg"
  shows "(engine_step E reg)\<^sup>*\<^sup>* en en'"
proof -
  let ?e = "ss_cursor_epoch (en_state en)"
  obtain ag en1 a where opened: "(case part of Some ag \<Rightarrow> if ag_target_epoch ag = ?e then Inr (ag, en)
        else open_aggregator B en ?e | None \<Rightarrow> open_aggregator B en ?e) = Inr (ag, en1)"
    and rest: "(if threshold_reached a
       then bind_res (close_aggregator B en1 a) (\<lambda>en'. Inr (None, en', Justified_epoch ?e))
       else if exhausted a then Inr (None, give_up en1 ?e, Gave_up_on ?e)
       else Inr (Some a, en1, Waiting)) = Inr (part', en', outcome)"
    using drive by (auto simp: batch_drive_def Let_def)
  have first: "(engine_step E reg)\<^sup>*\<^sup>* en en1"
    using opened open_aggregator_steps [OF _ env] by (auto split: option.splits if_splits)
  have "engine_step E reg en1 en' \<or> en' = en1"
    using rest env(1)
    by (auto simp: close_aggregator_def intro: engine_step.Closed engine_step.Gave_up split: if_splits)
  then show ?thesis using first by (auto intro: rtranclp.rtrancl_into_rtrancl)
qed

lemma batch_tick_steps:
  assumes "batch_tick (part, en) B = Inr (part', en')" "same_chain E (be_env B)" "serves (be_env B) reg"
  shows "(engine_step E reg)\<^sup>*\<^sup>* en en'"
proof (cases "needs_justification (en_state en)")
  case True
  then obtain outcome where "batch_drive B part en = Inr (part', en', outcome)"
    using assms(1) by (cases "batch_drive B part en") (auto simp: batch_tick_def)
  then show ?thesis by (rule batch_drive_steps [OF _ assms(2,3)])
next
  case False
  then obtain moved where "advance_tick (be_env B) (be_head_slot B) en = Inr (en', moved)"
    using assms(1) by (cases "advance_tick (be_env B) (be_head_slot B) en") (auto simp: batch_tick_def)
  then have "engine_step E reg en en'" by (rule Advanced [OF assms(2,3)])
  then show ?thesis by blast
qed

lemma batch_ticks_ok:
  assumes "fold_res batch_tick (part, en) Bs = Inr (part', en')" "engine_ok E dense reg en" "grows E dense reg"
    and "\<forall>B\<in>set Bs. same_chain E (be_env B) \<and> serves (be_env B) reg"
  shows "engine_ok E dense reg en'"
  using assms
proof (induction Bs arbitrary: part en)
  case (Cons B Bs)
  then obtain p e where step: "batch_tick (part, en) B = Inr (p, e)" "fold_res batch_tick (p, e) Bs = Inr (part', en')"
    by auto
  have "(engine_step E reg)\<^sup>*\<^sup>* en e" using batch_tick_steps [OF step(1)] Cons.prems(4) by simp
  then have "engine_ok E dense reg e" using engine_run_ok Cons.prems(2,3) by blast
  then show ?case using Cons.IH [OF step(2)] Cons.prems(3,4) by simp
qed simp

end
