(* ===== verification/Spec2Isabelle.thy ===== *)
theory Spec2Isabelle
  imports Common_Properties Guest_Properties Accountability Fcr_Properties Host_Properties SampleState HostBoundary HostEpochRun Store BoundaryCache InitPoint DaemonProgress BatchCount
begin

text \<open>
  zkasper proves Ethereum's Casper finality in a zkVM. An accumulator, a Poseidon2 Merkle tree with
  one leaf per validator (public key and active balance), stands for the validator registry; each
  circuit (guest program) is a function from a witness to the bytes it publishes, and panics where
  its witness does not check; a circuit accepts proofs of other circuits through the recursive
  verifier. The guests and the crate they share (\<open>crates/common\<close>) are modelled as functions from
  witnesses to an error or an output, one HOL definition per Rust function or loop body, with the
  guards in the order of the code. Every panic, \<open>assert!\<close> and \<open>expect\<close> is a constructor of an error
  type and an \<open>Inl\<close> branch; a \<open>u64\<close> is a 64-bit word whose arithmetic wraps as the release profile's
  does, and the supermajority test is in 128 bits as in the code.

  The parts, with the theory that models each (paths under \<open>src/\<close>):

    \<^item> \<open>Prelude\<close>: results, the fold with early exit, and lemmas on lists and words. \<open>Zisk\<close>: the
      record of the zkVM's system calls and library functions (curve, field, SHA-256, Poseidon2, the
      recursive verifier), the parameter of every definition, with two concrete instances for the
      witnesses. \<open>Bytes\<close>: the byte codecs of \<open>u64\<close>.
    \<^item> \<open>Acc\<close> (\<open>common/src/acc.rs\<close>): leaves, nodes, commitments, the commitment to an Fp12 value.
      \<open>Merkle\<close> (\<open>common/src/merkle.rs\<close>): paths and batch openings, and what a collision-free hash
      makes of an opening. \<open>Ssz\<close> (\<open>common/src/ssz.rs\<close>), \<open>Bls\<close> (\<open>bls.rs\<close>), \<open>Miller\<close> (\<open>miller.rs\<close>):
      SSZ roots and the boundary opening, running key sums and message grouping, the batched Miller
      loop over hinted lines. \<open>Recursion\<close> (\<open>recursion.rs\<close>): the layout of stored proofs, child
      verification under pinned and carried keys, the writer of public values.
      \<open>Types\<close> (\<open>types.rs\<close>, \<open>lib.rs\<close>): the records of witnesses and outputs, what each publishes.
    \<^item> The finality circuits: \<open>Committee\<close> (\<open>common/src/committee.rs\<close>, \<open>committee-proof-guest\<close>),
      \<open>SlotProof\<close> (\<open>slot-proof-guest\<close>, \<open>group-proof-guest\<close>), \<open>Aggregation\<close> (\<open>aggregation-guest\<close>),
      \<open>EpochDiff\<close> (\<open>epoch-diff-guest\<close>), \<open>Justification\<close> (\<open>justification-guest\<close>), \<open>Finalization\<close>
      (\<open>finalization-guest\<close>), \<open>StreamFinal\<close> (\<open>stream-final-guest\<close>).
    \<^item> \<open>AccTree\<close> (\<open>witness-gen/src/acc_tree.rs\<close>): the host's tree that produces the openings.

  Interfaces are locales interpreted on these definitions: the outputs that publish their bytes
  (\<open>public_output\<close>, in \<open>Types\<close>), and the fold over children of disjoint slots (\<open>counting_fold\<close>, in
  \<open>Counting\<close>), which the justification and the aggregation guests both provide.

  What is proved. Each component's theory ends with what an accepted run has checked (the \<open>_Inr\<close>
  lemmas). \<open>Registry\<close> gives the abstract specification: a registry is a partial map from positions
  to a key and a balance, its tree, its root and its total; an opening that reaches the root of a
  registry opens entries of it, and a rewritten path writes one entry. \<open>Common_Properties\<close> has the
  properties of the shared code (injectivity of the hash inputs, round trips, openings, the host
  tree's refinement of the registry, the recursion gate), \<open>Guest_Properties\<close> those of one circuit at
  a time. \<open>Supermajority\<close> composes the committee, slot and justification guests: the chains of
  justifications as an inductive relation, and the bound of their balance. \<open>Accountability\<close> names the
  voters behind a balance. This theory states the two properties that span the circuits: no stake is
  counted twice, and two justified outputs share a third of the stake. \<open>Samples\<close>, \<open>SampleEpoch\<close> and
  \<open>SampleChain\<close> evaluate every guest on a small epoch; they are the inputs of the witnesses.

  Hypotheses. Cryptography is never assumed globally: a property that needs the hash to be collision
  free says so of the pairs that the runs in question hash (\<open>collision_free\<close>, \<open>leaf_binding\<close>), and a
  property about child proofs says which outputs come from accepted runs (\<open>slot_run\<close>), which is what
  the recursive verifier stands for. The depth of the accumulator is a parameter, 22 in the
  deployment and 1 in the samples; the committee tree's depth is the code's 5.

  Termination: every loop of the code is a fold or a structural recursion over its list, tree depth or
  constant bit string, so every definition is total and no fuel occurs.
\<close>

section \<open>Stake is counted once\<close>

text \<open>C1: No stake is counted twice across a whole chain of justification, slot and committee proofs:
  the attesting balance a justification publishes is at most the balances of the members of the
  slots in its mask, which are registry entries at distinct positions, hence at most the balance of
  the registry; and where it is marked justified, those members hold at least two thirds of the
  total the committee proof's accumulator commits to.\<close>

theorem stake_counted_once:
  assumes "epoch_of Z R d words cout runs slot_runs out" "binding_runs Z R d words runs slot_runs"
    and "registry_total R d < 2 ^ 64" "ms = members_of words"
  shows "unat (jo_attesting_balance out) \<le> (\<Sum>s\<in>slot_set (jo_slots_mask out). bucket_balance ms s) \<and>
    (\<Sum>s\<in>slot_set (jo_slots_mask out). bucket_balance ms s) \<le> registry_total R d \<and>
    (justified out \<longrightarrow>
      2 * unat (words ! 9) \<le> 3 * (\<Sum>s\<in>slot_set (jo_slots_mask out). bucket_balance ms s))"
proof -
  note mem = epoch_members [OF assms(1,2), folded assms(4)]
  have bound: "unat (jo_attesting_balance out) \<le> sum (bucket_balance ms) (slot_set (jo_slots_mask out))"
    by (rule supported_bounded [OF epoch_supported [OF assms(1-3), folded assms(4)]])
      (simp_all add: voted_below [OF mem(1)])
  have "sum (bucket_balance ms) (slot_set (jo_slots_mask out)) \<le> sum (bucket_balance ms) {..<64}"
    by (rule sum_mono2) (simp_all add: slot_set_subset)
  then show ?thesis using bound mem(2) epoch_total [OF assms(1,2)] by auto
qed

theorem stake_counted_once_witness:
  "unat (jo_attesting_balance (sample_justification_output (replicate 32 7))) \<le>
     (\<Sum>s\<in>slot_set 1. bucket_balance sample_members_list s)"
proof -
  have r: "replicate 32 7 \<in> set [replicate 32 (7::u8)]" "length (replicate 32 (7::u8)) = 32" by simp_all
  have "jo_slots_mask (sample_justification_output (replicate 32 7)) = 1"
    by (simp add: sample_justification_output_def)
  then show ?thesis
    using stake_counted_once [OF sample_epoch_of [OF r] sample_binding_runs sample_total_fits
        sample_members_of [symmetric]] by (simp only: simp_thms)
qed

text \<open>C2: Accountability. Two justifications over one committee proof, both marked justified, share
  voters: where the total in the commitment is the registry's, there are sets of validators behind
  the two, each voter in a slot run for that output's checkpoints and not among its absentees, whose
  intersection holds a third of the stake. Two targets of one epoch can therefore both be proved
  only if a third of the stake is on both sides.\<close>

theorem justifications_share_voters:
  assumes "epoch_of Z R d words cout runs slot_runs out" "epoch_of Z R d words cout runs slot_runs out'"
    and "binding_runs Z R d words runs slot_runs" "registry_total R d = unat (words ! 9)"
    and "justified out" "justified out'"
  shows "\<exists>V V'. registry_total R d \<le> 3 * stake R (V \<inter> V') \<and>
    (\<forall>i\<in>V. \<exists>t\<in>slot_set (jo_slots_mask out). \<exists>A. voted slot_runs d (members_of words) out t A \<and> i \<in> A) \<and>
    (\<forall>i\<in>V'. \<exists>t\<in>slot_set (jo_slots_mask out'). \<exists>A. voted slot_runs d (members_of words) out' t A \<and> i \<in> A)"
proof -
  have fits: "registry_total R d < 2 ^ 64" unfolding assms(4) using unsigned_less [of "words ! 9"] by simp
  obtain V where V: "V \<subseteq> {..<2 ^ d}" "unat (jo_attesting_balance out) \<le> stake R V"
    "\<forall>i\<in>V. \<exists>t\<in>slot_set (jo_slots_mask out). \<exists>A. voted slot_runs d (members_of words) out t A \<and> i \<in> A"
    by (rule epoch_voters [OF assms(1,3) fits])
  obtain V' where V': "V' \<subseteq> {..<2 ^ d}" "unat (jo_attesting_balance out') \<le> stake R V'"
    "\<forall>i\<in>V'. \<exists>t\<in>slot_set (jo_slots_mask out'). \<exists>A. voted slot_runs d (members_of words) out' t A \<and> i \<in> A"
    by (rule epoch_voters [OF assms(2,3) fits])
  have "2 * registry_total R d \<le> 3 * stake R V" "2 * registry_total R d \<le> 3 * stake R V'"
    using epoch_total [OF assms(1,3)] epoch_total [OF assms(2,3)] assms(4-6) V(2) V'(2) by simp_all
  then have "registry_total R d \<le> 3 * stake R (V \<inter> V')"
    using stake_quorums [OF V(1) V'(1), of R] by simp
  then show ?thesis using V(3) V'(3) by blast
qed

theorem justifications_share_voters_witness:
  "jo_target_root (sample_justification_output (replicate 32 7)) \<noteq>
     jo_target_root (sample_justification_output (replicate 32 8)) \<and>
   (\<exists>V. 64 \<le> 3 * stake sample_registry V)"
proof -
  let ?rs = "[replicate 32 7, replicate 32 (8::u8)]"
  have r: "replicate 32 7 \<in> set ?rs" "length (replicate 32 (7::u8)) = 32"
    "replicate 32 8 \<in> set ?rs" "length (replicate 32 (8::u8)) = 32" by simp_all
  have total: "registry_total sample_registry 1 = unat (sample_words ! 9)"
    unfolding sample_words_total sample_registry_tree by simp
  have "justified (sample_justification_output t)" for t by (simp add: sample_justification_output_def)
  from justifications_share_voters [OF sample_epoch_of [OF r(1,2)] sample_epoch_of [OF r(3,4)]
      sample_binding_runs total this this]
  have "\<exists>V. 64 \<le> 3 * stake sample_registry V" unfolding sample_registry_tree by blast
  moreover have "jo_target_root (sample_justification_output t) = t" for t
    by (simp add: sample_justification_output_def)
  moreover have "replicate 32 (7::u8) \<noteq> replicate 32 8" by (simp add: numeral_eq_Suc)
  ultimately show ?thesis by simp
qed

end
